(* ===== verification/Py_Prelude.thy ===== *)
theory Py_Prelude
  imports Complex_Main "HOL-Library.AList" "HOL-Library.Char_ord" "HOL-Library.List_Lexorder"
    "HOL-Library.Sublist" "HOL-Library.Multiset"
begin

section \<open>Python values, errors, lists and dictionaries\<close>

text \<open>
  The vocabulary every component of the development shares.
  \<^item> \<open>py_error\<close> has one constructor per exception class the sources raise, and
    \<open>'a res\<close> is the outcome of a call: \<open>Inl\<close> the exception raised, \<open>Inr\<close>
    the value returned.
  \<^item> \<open>py_index\<close>, \<open>py_store\<close> and \<open>py_slice\<close> are Python's list subscripts,
    negative indices and the IndexError included.
  \<^item> A \<open>dict\<close> is an association list in insertion order: \<open>map_of\<close> reads it,
    \<open>AList.update\<close> overwrites a key in place or appends it, as Python does.
  \<^item> \<open>sorted_by\<close> and \<open>sorted_by_desc\<close> are Python's stable \<open>sorted\<close>, without
    and with \<open>reverse=True\<close>.
  Strings are character lists, compared as Python compares them, character by character.
\<close>

named_theorems py_simps "evaluation rules for the Python operations of the prelude"

datatype py_error =
    ValueError string
  | TypeError string
  | KeyError string
  | IndexError string
  | AttributeError string
  | RuntimeError string
  | NotImplementedError
  | ZeroDivisionError
  | UnmetWriteConditionError string
  | MissingProjectionHandlerError string
  | CancelledError

type_synonym 'a res = "py_error + 'a"

type_synonym ('k, 'v) dict = "('k \<times> 'v) list"

text \<open>Instants are counted in microseconds, as are differences between them.\<close>

type_synonym datetime = int

type_synonym timedelta = int

subsection \<open>Outcomes\<close>

definition res_bind :: "'a res \<Rightarrow> ('a \<Rightarrow> 'b res) \<Rightarrow> 'b res" where
  "res_bind r f = (case r of Inl e \<Rightarrow> Inl e | Inr x \<Rightarrow> f x)"

definition is_ok :: "'a res \<Rightarrow> bool" where
  "is_ok r = (case r of Inl _ \<Rightarrow> False | Inr _ \<Rightarrow> True)"

text \<open>A list comprehension whose element expression may raise: the first exception wins.\<close>

fun res_map :: "('a \<Rightarrow> 'b res) \<Rightarrow> 'a list \<Rightarrow> 'b list res" where
  "res_map f [] = Inr []"
| "res_map f (x # xs) =
     res_bind (f x) (\<lambda>y. res_bind (res_map f xs) (\<lambda>ys. Inr (y # ys)))"

text \<open>A list comprehension whose condition may raise.\<close>

fun res_filter :: "('a \<Rightarrow> bool res) \<Rightarrow> 'a list \<Rightarrow> 'a list res" where
  "res_filter p [] = Inr []"
| "res_filter p (x # xs) =
     res_bind (p x) (\<lambda>b. res_bind (res_filter p xs) (\<lambda>ys. Inr (if b then x # ys else ys)))"

text \<open>A loop that threads a state and may raise.\<close>

fun res_fold :: "('a \<Rightarrow> 's \<Rightarrow> 's res) \<Rightarrow> 'a list \<Rightarrow> 's \<Rightarrow> 's res" where
  "res_fold f [] s = Inr s"
| "res_fold f (x # xs) s = res_bind (f x s) (res_fold f xs)"

lemma res_bind_simps [simp]:
  "res_bind (Inl e) f = Inl e"
  "res_bind (Inr x) f = f x"
  by (simp_all add: res_bind_def)

lemma res_bind_eq_Inr [simp]:
  "res_bind r f = Inr y \<longleftrightarrow> (\<exists>x. r = Inr x \<and> f x = Inr y)"
  by (cases r) auto

lemma res_bind_eq_Inl:
  "res_bind r f = Inl e \<longleftrightarrow> r = Inl e \<or> (\<exists>x. r = Inr x \<and> f x = Inl e)"
  by (cases r) auto

lemma res_bind_cong [fundef_cong]:
  "r = r' \<Longrightarrow> (\<And>x. r' = Inr x \<Longrightarrow> f x = g x) \<Longrightarrow> res_bind r f = res_bind r' g"
  by (cases r') auto

lemma res_map_cong [fundef_cong]:
  "xs = ys \<Longrightarrow> (\<And>x. x \<in> set ys \<Longrightarrow> f x = g x) \<Longrightarrow> res_map f xs = res_map g ys"
  by (induction ys arbitrary: xs) auto

lemma res_filter_cong [fundef_cong]:
  "xs = ys \<Longrightarrow> (\<And>x. x \<in> set ys \<Longrightarrow> p x = q x) \<Longrightarrow> res_filter p xs = res_filter q ys"
  by (induction ys arbitrary: xs) auto

lemma res_bind_assoc: "res_bind (res_bind r f) g = res_bind r (\<lambda>x. res_bind (f x) g)"
  by (cases r) auto

lemma res_bind_Inr [simp]: "res_bind r Inr = r"
  by (cases r) auto

lemma is_ok_simps [simp]: "is_ok (Inr x)" "\<not> is_ok (Inl e)"
  by (simp_all add: is_ok_def)

lemma is_ok_iff: "is_ok r \<longleftrightarrow> (\<exists>x. r = Inr x)"
  by (cases r) auto

lemma res_map_all_Inr: "(\<And>x. x \<in> set xs \<Longrightarrow> f x = Inr (g x)) \<Longrightarrow> res_map f xs = Inr (map g xs)"
  by (induction xs) auto

lemma res_map_list_all2:
  "(\<And>x. x \<in> set xs \<Longrightarrow> \<exists>y. f x = Inr y \<and> P x y) \<Longrightarrow> \<exists>ys. res_map f xs = Inr ys \<and> list_all2 P xs ys"
proof (induction xs)
  case (Cons x xs)
  then obtain ys where "res_map f xs = Inr ys" "list_all2 P xs ys" by auto
  moreover obtain y where "f x = Inr y" "P x y" using Cons.prems by auto
  ultimately show ?case by (intro exI [of _ "y # ys"]) simp
qed simp

lemma res_map_length: "res_map f xs = Inr ys \<Longrightarrow> length ys = length xs"
  by (induction xs arbitrary: ys) auto

lemma res_filter_all_Inr:
  "(\<And>x. x \<in> set xs \<Longrightarrow> p x = Inr (q x)) \<Longrightarrow> res_filter p xs = Inr (filter q xs)"
  by (induction xs) auto

lemma res_fold_append:
  "res_fold f (xs @ ys) s = res_bind (res_fold f xs s) (res_fold f ys)"
proof (induction xs arbitrary: s)
  case (Cons x xs)
  show ?case by (cases "f x s") (simp_all add: Cons.IH)
qed simp

subsection \<open>Subscripts and slices\<close>

definition resolve_subscript :: "nat \<Rightarrow> int \<Rightarrow> nat option" where
  "resolve_subscript len k =
     (if k \<ge> 0 \<and> nat k < len then Some (nat k)
      else if k < 0 \<and> nat (- k) \<le> len then Some (len - nat (- k))
      else None)"

definition py_index :: "'a list \<Rightarrow> int \<Rightarrow> 'a res" where
  "py_index xs k =
     (case resolve_subscript (length xs) k of
        Some p \<Rightarrow> Inr (xs ! p)
      | None \<Rightarrow> Inl (IndexError ''list index out of range''))"

definition py_store :: "'a list \<Rightarrow> int \<Rightarrow> 'a \<Rightarrow> 'a list res" where
  "py_store xs k v =
     (case resolve_subscript (length xs) k of
        Some p \<Rightarrow> Inr (xs[p := v])
      | None \<Rightarrow> Inl (IndexError ''list assignment index out of range''))"

definition slice_bound :: "nat \<Rightarrow> int \<Rightarrow> nat" where
  "slice_bound n i = (if i < 0 then nat (int n + i) else min n (nat i))"

definition py_slice :: "'a list \<Rightarrow> int \<Rightarrow> int \<Rightarrow> 'a list" where
  "py_slice xs lo hi =
     (let l = slice_bound (length xs) lo; h = slice_bound (length xs) hi
      in take (h - l) (drop l xs))"

lemma py_index_nth [py_simps]: "0 \<le> i \<Longrightarrow> nat i < length xs \<Longrightarrow> py_index xs i = Inr (xs ! nat i)"
  by (simp add: py_index_def resolve_subscript_def)

lemma py_index_last: "xs \<noteq> [] \<Longrightarrow> py_index xs (-1) = Inr (last xs)"
  by (simp add: py_index_def resolve_subscript_def Suc_le_eq last_conv_nth)

lemma py_store_nth [py_simps]:
  "0 \<le> i \<Longrightarrow> nat i < length xs \<Longrightarrow> py_store xs i v = Inr (xs[nat i := v])"
  by (simp add: py_store_def resolve_subscript_def)

lemma py_slice_nonneg [py_simps]:
  assumes "0 \<le> lo" and "0 \<le> hi"
  shows "py_slice xs lo hi = take (nat hi - nat lo) (drop (nat lo) xs)"
proof (cases "nat lo \<le> length xs")
  case True
  with assms show ?thesis
    by (cases "nat hi \<le> length xs") (auto simp: py_slice_def slice_bound_def Let_def min_def)
next
  case False
  with assms show ?thesis
    by (auto simp: py_slice_def slice_bound_def Let_def)
qed

lemma length_py_slice: "length (py_slice xs lo hi) \<le> length xs"
  by (simp add: py_slice_def Let_def)

lemma set_py_slice: "set (py_slice xs lo hi) \<subseteq> set xs"
  unfolding py_slice_def Let_def by (meson in_set_dropD in_set_takeD subsetI)

lemma distinct_py_slice: "distinct xs \<Longrightarrow> distinct (py_slice xs lo hi)"
  by (simp add: py_slice_def Let_def)

subsection \<open>Stable sorting\<close>

definition sorted_by :: "('a \<Rightarrow> 'k::linorder) \<Rightarrow> 'a list \<Rightarrow> 'a list" where
  "sorted_by key xs = sort_key key xs"

definition sorted_by_desc :: "('a \<Rightarrow> 'k::linorder) \<Rightarrow> 'a list \<Rightarrow> 'a list" where
  "sorted_by_desc key xs = rev (sort_key key (rev xs))"

lemma mset_sorted_by [simp]: "mset (sorted_by key xs) = mset xs"
  by (simp add: sorted_by_def)

lemma mset_sorted_by_desc [simp]: "mset (sorted_by_desc key xs) = mset xs"
  by (simp add: sorted_by_desc_def)

lemma set_sorted_by [simp]: "set (sorted_by key xs) = set xs"
  by (simp add: sorted_by_def)

lemma set_sorted_by_desc [simp]: "set (sorted_by_desc key xs) = set xs"
  by (simp add: sorted_by_desc_def)

lemma distinct_sorted_by [simp]: "distinct (sorted_by key xs) = distinct xs"
  by (simp add: sorted_by_def)

lemma sorted_sorted_by: "sorted (map key (sorted_by key xs))"
  by (simp add: sorted_by_def)

lemma sorted_sorted_by_desc: "sorted (rev (map key (sorted_by_desc key xs)))"
  by (simp add: sorted_by_desc_def rev_map)

lemma sorted_by_stable: "filter (\<lambda>x. key x = k) (sorted_by key xs) = filter (\<lambda>x. key x = k) xs"
  by (simp add: sorted_by_def sort_key_stable)

lemma sorted_by_desc_stable:
  "filter (\<lambda>x. key x = k) (sorted_by_desc key xs) = filter (\<lambda>x. key x = k) xs"
proof -
  have "filter (\<lambda>x. key x = k) (rev (sort_key key (rev xs)))
      = rev (filter (\<lambda>x. key x = k) (rev xs))"
    by (simp add: sort_key_stable flip: rev_filter)
  also have "\<dots> = filter (\<lambda>x. key x = k) xs"
    by (simp add: rev_filter)
  finally show ?thesis by (simp add: sorted_by_desc_def)
qed

subsection \<open>Dictionaries in insertion order\<close>

definition dict_keys :: "('k, 'v) dict \<Rightarrow> 'k list" where
  "dict_keys d = map fst d"

definition dict_values :: "('k, 'v) dict \<Rightarrow> 'v list" where
  "dict_values d = map snd d"

definition wf_dict :: "('k, 'v) dict \<Rightarrow> bool" where
  "wf_dict d \<longleftrightarrow> distinct (dict_keys d)"

text \<open>\<open>{key(x): x for x in xs}\<close>: a later element overwrites an earlier one with its key.\<close>

definition dict_by :: "('a \<Rightarrow> 'k) \<Rightarrow> 'a list \<Rightarrow> ('k, 'a) dict" where
  "dict_by key xs = fold (\<lambda>x d. AList.update (key x) x d) xs []"

lemma wf_dict_Nil [simp]: "wf_dict []"
  by (simp add: wf_dict_def dict_keys_def)

lemma wf_dict_update [simp]: "wf_dict d \<Longrightarrow> wf_dict (AList.update k v d)"
  by (simp add: wf_dict_def dict_keys_def distinct_update)

lemma wf_dict_delete [simp]: "wf_dict d \<Longrightarrow> wf_dict (AList.delete k d)"
  by (simp add: wf_dict_def dict_keys_def distinct_delete)

lemma map_of_update [simp]: "map_of (AList.update k v d) = (map_of d)(k \<mapsto> v)"
  by (simp add: update_conv')

lemma map_of_delete [simp]: "map_of (AList.delete k d) = (map_of d)(k := None)"
  by (simp add: delete_conv')

lemma dict_keys_update:
  "dict_keys (AList.update k v d) = (if k \<in> set (dict_keys d) then dict_keys d else dict_keys d @ [k])"
  by (induction d) (auto simp: dict_keys_def)

lemma update_fresh: "k \<notin> set (dict_keys d) \<Longrightarrow> AList.update k v d = d @ [(k, v)]"
  by (induction d) (auto simp: dict_keys_def)

lemma find_append:
  "find P (xs @ ys) = (case find P xs of None \<Rightarrow> find P ys | Some x \<Rightarrow> Some x)"
  by (induction xs) auto

lemma find_SomeD: "find P xs = Some x \<Longrightarrow> x \<in> set xs \<and> P x"
  by (induction xs) (auto split: if_splits)

lemma map_of_dict_by_fold:
  "map_of (fold (\<lambda>x d. AList.update (key x) x d) xs d) k =
     (case find (\<lambda>x. key x = k) (rev xs) of None \<Rightarrow> map_of d k | Some x \<Rightarrow> Some x)"
proof (induction xs arbitrary: d)
  case Nil
  then show ?case by simp
next
  case (Cons x xs)
  then show ?case
    by (auto simp: find_append split: option.splits)
qed

lemma map_of_dict_by: "map_of (dict_by key xs) k = find (\<lambda>x. key x = k) (rev xs)"
  by (simp add: dict_by_def map_of_dict_by_fold split: option.splits)

lemma dict_by_None_iff: "map_of (dict_by key xs) k = None \<longleftrightarrow> k \<notin> key ` set xs"
  by (auto simp: map_of_dict_by find_None_iff)

lemma dict_by_Some: "map_of (dict_by key xs) k = Some x \<Longrightarrow> x \<in> set xs \<and> key x = k"
  unfolding map_of_dict_by by (auto dest: find_SomeD)

lemma dict_by_distinct:
  assumes "distinct (map key xs)" and "x \<in> set xs"
  shows "map_of (dict_by key xs) (key x) = Some x"
proof -
  from assms(2) have "map_of (dict_by key xs) (key x) \<noteq> None"
    by (simp add: dict_by_None_iff)
  then obtain y where y: "map_of (dict_by key xs) (key x) = Some y"
    by blast
  then have "y \<in> set xs \<and> key y = key x" by (rule dict_by_Some)
  with assms have "y = x" by (auto simp: distinct_map inj_on_def)
  with y show ?thesis by simp
qed

end
