(* ===== verification/Json_Values.thy ===== *)
theory Json_Values
  imports Py_Prelude
begin

section \<open>JSON values and conversions\<close>

text \<open>
  Models \<open>types/json.py\<close>, \<open>types/string.py\<close> and \<open>types/conversion.py\<close>.

  \<open>'o pyval\<close> is what the code types as \<open>object\<close>: the JSON shapes (\<open>PyList\<close> stands for
  every non-string sequence, \<open>PyDict\<close> for every mapping, its items in order) and
  \<open>PyObj\<close> for an instance of some other class. Whether such an instance has a
  \<open>serialise\<close> method, and what it does, is the parameter \<open>ser\<close>: the classes are the
  library user's. Finite floats are rationals; infinities and NaN are not modelled.

  \<open>'c klass\<close> is the type argument of a deserialisation: the built-in classes, the
  generic aliases \<open>Sequence[T]\<close> and \<open>Mapping[K, V]\<close>, the JSON aliases, and
  \<open>KUser\<close> for a user's class, whose \<open>deserialise\<close> class method is the parameter
  \<open>des\<close>. A user's class is taken not to derive from a built-in one.
\<close>

datatype 'o pyval =
    PyNone
  | PyBool bool
  | PyInt int
  | PyFloat rat
  | PyStr string
  | PyList "'o pyval list"
  | PyDict "('o pyval \<times> 'o pyval) list"
  | PyObj 'o

type_synonym 'o ser_fallback = "'o pyval \<Rightarrow> 'o pyval res"

type_synonym 'o ser_methods = "'o \<Rightarrow> ('o ser_fallback \<Rightarrow> 'o pyval res) option"

fun is_py_str :: "'o pyval \<Rightarrow> bool" where
  "is_py_str (PyStr s) = True"
| "is_py_str _ = False"

lemma size_snd_dict [termination_simp]:
  "p \<in> set kvs \<Longrightarrow> size (snd p) < Suc (size_list (size_prod size size) kvs)"
  by (induction kvs) auto

subsection \<open>types/json.py: the type guards\<close>

fun is_json_value :: "'o pyval \<Rightarrow> bool" where
  "is_json_value PyNone = True"
| "is_json_value (PyBool b) = True"
| "is_json_value (PyInt i) = True"
| "is_json_value (PyFloat q) = True"
| "is_json_value (PyStr s) = True"
| "is_json_value (PyList items) = list_all is_json_value items"
| "is_json_value (PyDict kvs) = list_all (\<lambda>kv. is_py_str (fst kv) \<and> is_json_value (snd kv)) kvs"
| "is_json_value (PyObj obj) = False"

fun is_json_object :: "'o pyval \<Rightarrow> bool" where
  "is_json_object (PyDict kvs) = list_all (\<lambda>kv. is_py_str (fst kv) \<and> is_json_value (snd kv)) kvs"
| "is_json_object _ = False"

fun is_json_array :: "'o pyval \<Rightarrow> bool" where
  "is_json_array (PyList items) = list_all is_json_value items"
| "is_json_array _ = False"

fun is_json_primitive :: "'o pyval \<Rightarrow> bool" where
  "is_json_primitive PyNone = True"
| "is_json_primitive (PyBool b) = True"
| "is_json_primitive (PyInt i) = True"
| "is_json_primitive (PyFloat q) = True"
| "is_json_primitive (PyStr s) = True"
| "is_json_primitive _ = False"

subsection \<open>types/conversion.py: serialisation\<close>

definition raising_serialisation_fallback :: "'o ser_fallback" where
  "raising_serialisation_fallback v = Inl (ValueError ''Cannot serialise'')"

definition serialise_to_json_value ::
  "'o ser_methods \<Rightarrow> 'o pyval \<Rightarrow> 'o ser_fallback \<Rightarrow> 'o pyval res" where
  "serialise_to_json_value ser v fallback =
     (case v of
        PyObj obj \<Rightarrow> (case ser obj of Some method \<Rightarrow> method fallback | None \<Rightarrow> fallback v)
      | _ \<Rightarrow> if is_json_value v then Inr v else fallback v)"

definition serialise_to_string ::
  "('o \<Rightarrow> (('o pyval \<Rightarrow> string res) \<Rightarrow> string res) option) \<Rightarrow> 'o pyval
    \<Rightarrow> ('o pyval \<Rightarrow> string res) \<Rightarrow> string res" where
  "serialise_to_string ser v fallback =
     (case v of
        PyObj obj \<Rightarrow> (case ser obj of Some method \<Rightarrow> method fallback | None \<Rightarrow> fallback v)
      | PyStr s \<Rightarrow> Inr s
      | _ \<Rightarrow> fallback v)"

definition raising_string_fallback :: "'o pyval \<Rightarrow> string res" where
  "raising_string_fallback v = Inl (ValueError ''Cannot serialise'')"

subsection \<open>types/conversion.py: deserialisation\<close>

datatype 'c klass =
    KNoneType
  | KStr
  | KInt
  | KFloat
  | KBool
  | KSequence
  | KMapping
  | KSequenceOf "'c klass"
  | KMappingOf "'c klass" "'c klass"
  | KJsonValue
  | KJsonValueType
  | KAny
  | KUser 'c

type_synonym ('o, 'c) des_fallback = "'c klass \<Rightarrow> 'o pyval \<Rightarrow> 'o pyval res"

type_synonym ('o, 'c) des_methods =
  "'c \<Rightarrow> ('o pyval \<Rightarrow> ('o, 'c) des_fallback \<Rightarrow> 'o pyval res) option"

definition raising_deserialisation_fallback :: "('o, 'c) des_fallback" where
  "raising_deserialisation_fallback klass v = Inl (ValueError ''Cannot deserialise'')"

text \<open>
  The loop over \<open>(str, int, float, bool)\<close>: the value is an instance of one of them and the
  class derives from the same one. \<open>bool\<close> derives from \<open>int\<close>, so a \<open>bool\<close> value
  is accepted for \<open>int\<close> and an \<open>int\<close> value for \<open>bool\<close>.
\<close>

fun primitive_match :: "'c klass \<Rightarrow> 'o pyval \<Rightarrow> bool" where
  "primitive_match KStr (PyStr s) = True"
| "primitive_match KInt (PyInt i) = True"
| "primitive_match KInt (PyBool b) = True"
| "primitive_match KFloat (PyFloat q) = True"
| "primitive_match KBool (PyBool b) = True"
| "primitive_match KBool (PyInt i) = True"
| "primitive_match _ _ = False"

text \<open>\<open>issubclass(klass, Sequence)\<close>: \<open>str\<close> is registered as a \<open>Sequence\<close>.\<close>

fun klass_is_sequence :: "'c klass \<Rightarrow> bool" where
  "klass_is_sequence KStr = True"
| "klass_is_sequence KSequence = True"
| "klass_is_sequence _ = False"

fun is_value_error :: "'a res \<Rightarrow> bool" where
  "is_value_error (Inl (ValueError m)) = True"
| "is_value_error _ = False"

text \<open>
  The loops that collect errors: every item is tried, a ValueError is counted and any other
  exception ends the loop. The result is whether some item failed.
\<close>

fun collect_errors :: "('a \<Rightarrow> 'b res) \<Rightarrow> 'a list \<Rightarrow> bool res" where
  "collect_errors f [] = Inr False"
| "collect_errors f (x # xs) =
     (case f x of
        Inr _ \<Rightarrow> collect_errors f xs
      | Inl e \<Rightarrow> (if is_value_error (Inl e :: unit res)
                  then res_bind (collect_errors f xs) (\<lambda>_. Inr True)
                  else Inl e))"

fun deserialise_from_json_value ::
  "('o, 'c) des_methods \<Rightarrow> 'c klass \<Rightarrow> 'o pyval \<Rightarrow> ('o, 'c) des_fallback \<Rightarrow> 'o pyval res" where
  "deserialise_from_json_value des klass v fallback =
     (if v = PyNone \<and> klass = KNoneType then Inr v
      else if primitive_match klass v then Inr v
      else if is_json_array v \<and> klass_is_sequence klass then Inr v
      else
        (case (klass, v) of
           (KSequenceOf item, PyList items) \<Rightarrow>
             if \<not> is_json_array v then fallback klass v
             else if item = KJsonValue \<or> item = KAny then Inr v
             else res_bind
               (collect_errors (\<lambda>x. deserialise_from_json_value des item x fallback) items)
               (\<lambda>failed. if failed then fallback klass v else Inr v)
         | (KMapping, PyDict kvs) \<Rightarrow>
             if is_json_object v then Inr v else fallback klass v
         | (KMappingOf key item, PyDict kvs) \<Rightarrow>
             if \<not> is_json_object v then fallback klass v
             else if key = KStr \<and> (item = KJsonValue \<or> item = KAny) then Inr v
             else res_bind
               (collect_errors (\<lambda>kv. deserialise_from_json_value des item (snd kv) fallback) kvs)
               (\<lambda>failed. if failed then fallback klass v else Inr v)
         | (KJsonValueType, _) \<Rightarrow> if is_json_value v then Inr v else fallback klass v
         | (KUser c, _) \<Rightarrow>
             (if is_json_value v
              then (case des c of Some method \<Rightarrow> method v fallback | None \<Rightarrow> fallback klass v)
              else fallback klass v)
         | _ \<Rightarrow> fallback klass v))"

declare deserialise_from_json_value.simps [simp del]

definition deserialise_from_string ::
  "('o, 'c) des_methods \<Rightarrow> 'c klass \<Rightarrow> 'o pyval \<Rightarrow> ('o, 'c) des_fallback \<Rightarrow> 'o pyval res" where
  "deserialise_from_string des klass v fallback =
     (case (klass, v) of
        (KStr, PyStr s) \<Rightarrow> Inr v
      | (KUser c, PyStr s) \<Rightarrow>
          (case des c of Some method \<Rightarrow> method v fallback | None \<Rightarrow> fallback klass v)
      | _ \<Rightarrow> fallback klass v)"

subsection \<open>Lemmas\<close>

lemma is_json_value_iff:
  "is_json_value v \<longleftrightarrow> is_json_primitive v \<or> is_json_array v \<or> is_json_object v"
  by (cases v) auto

lemma serialise_json_value [simp]: "is_json_value v \<Longrightarrow> serialise_to_json_value ser v fb = Inr v"
  by (cases v) (auto simp: serialise_to_json_value_def)

lemma serialise_py_str [simp]: "serialise_to_string ser (PyStr s) fb = Inr s"
  by (simp add: serialise_to_string_def)

lemma serialise_to_json_value_sound:
  assumes "\<And>obj m w. ser obj = Some m \<Longrightarrow> m raising_serialisation_fallback = Inr w \<Longrightarrow> is_json_value w"
    and "serialise_to_json_value ser v raising_serialisation_fallback = Inr w"
  shows "is_json_value w"
  using assms
  by (auto simp: serialise_to_json_value_def raising_serialisation_fallback_def
      split: pyval.splits option.splits if_splits)

lemma deserialise_json_value_type [simp]:
  "is_json_value v \<Longrightarrow> deserialise_from_json_value des KJsonValueType v fb = Inr v"
  by (cases v) (auto simp: deserialise_from_json_value.simps)

end
