(* ===== verification/Event_Types.thy ===== *)
theory Event_Types
  imports Json_Values
begin

section \<open>Identifiers and events\<close>

text \<open>
  Models \<open>types/identifier.py\<close> and \<open>types/event.py\<close>. An identifier names the log, a
  category, a stream, or a partition of the log or of a category; it serialises to a JSON
  object tagged by its type, and \<open>event_sequence_identifier\<close> reads such an object back.
  Events come in two kinds: \<open>new_event\<close>, to be published, and \<open>stored_event\<close>, with
  the identity, position and sequence number the store gave it. Their name and payload types
  are parameters, as in the source. The ISO format of an instant is the parameter \<open>isoformat\<close>.
\<close>

datatype partition_identifier = StreamNamePrefixPartitionIdentifier string

datatype event_source_identifier =
    LogIdentifier
  | LogPartitionIdentifier partition_identifier
  | CategoryIdentifier string
  | CategoryPartitionIdentifier string partition_identifier
  | StreamIdentifier string string

subsection \<open>types/identifier.py\<close>

fun serialise_partition :: "partition_identifier \<Rightarrow> 'o pyval" where
  "serialise_partition (StreamNamePrefixPartitionIdentifier v) =
     PyDict [(PyStr ''type'', PyStr ''stream-name-prefix''), (PyStr ''value'', PyStr v)]"

fun serialise_identifier :: "event_source_identifier \<Rightarrow> 'o pyval" where
  "serialise_identifier LogIdentifier = PyDict [(PyStr ''type'', PyStr ''log'')]"
| "serialise_identifier (LogPartitionIdentifier p) =
     PyDict [(PyStr ''type'', PyStr ''log-partition''),
             (PyStr ''partition'', serialise_partition p)]"
| "serialise_identifier (CategoryIdentifier c) =
     PyDict [(PyStr ''type'', PyStr ''category''), (PyStr ''category'', PyStr c)]"
| "serialise_identifier (CategoryPartitionIdentifier c p) =
     PyDict [(PyStr ''type'', PyStr ''category-partition''),
             (PyStr ''partition'', serialise_partition p)]"
| "serialise_identifier (StreamIdentifier c s) =
     PyDict [(PyStr ''type'', PyStr ''stream''), (PyStr ''category'', PyStr c),
             (PyStr ''stream'', PyStr s)]"

text \<open>\<open>str(x)\<close> is the identity on strings; on other values it is the parameter \<open>py_str\<close>.\<close>

fun to_str :: "('o pyval \<Rightarrow> string) \<Rightarrow> 'o pyval \<Rightarrow> string" where
  "to_str py_str (PyStr s) = s"
| "to_str py_str v = py_str v"

definition event_sequence_identifier ::
  "('o pyval \<Rightarrow> string) \<Rightarrow> 'o pyval \<Rightarrow> event_source_identifier res" where
  "event_sequence_identifier py_str serialised =
     (case serialised of
        PyDict kvs \<Rightarrow>
          (let get = (\<lambda>k. map_of kvs (PyStr k)) in
           if get ''type'' = Some (PyStr ''log'') then Inr LogIdentifier
           else if get ''type'' = Some (PyStr ''category'') \<and> get ''category'' \<noteq> None
           then Inr (CategoryIdentifier (to_str py_str (the (get ''category''))))
           else if get ''type'' = Some (PyStr ''stream'') \<and> get ''category'' \<noteq> None
                   \<and> get ''stream'' \<noteq> None
           then Inr (StreamIdentifier (to_str py_str (the (get ''category'')))
                                      (to_str py_str (the (get ''stream''))))
           else Inl (ValueError ''Invalid serialised event sequence identifier.''))
      | _ \<Rightarrow> Inl (ValueError ''Invalid serialised event sequence identifier.''))"

definition target_identifier :: "string option \<Rightarrow> string option \<Rightarrow> event_source_identifier res" where
  "target_identifier category stream =
     (case (category, stream) of
        (Some c, Some s) \<Rightarrow> Inr (StreamIdentifier c s)
      | (Some c, None) \<Rightarrow> Inr (CategoryIdentifier c)
      | (None, Some s) \<Rightarrow> Inl (ValueError
          ''Invalid target, if stream provided, category must also be provided'')
      | (None, None) \<Rightarrow> Inr LogIdentifier)"

definition is_event_sequence_identifier :: "event_source_identifier \<Rightarrow> bool" where
  "is_event_sequence_identifier i =
     (case i of LogIdentifier \<Rightarrow> True | CategoryIdentifier _ \<Rightarrow> True
      | StreamIdentifier _ _ \<Rightarrow> True | _ \<Rightarrow> False)"

text \<open>
  C5. Reading back what an event sequence identifier (the log, a category or a stream)
  serialises to gives that identifier; reading back a partition identifier is refused with
  the ValueError, never misread as another identifier.
\<close>

theorem identifier_roundtrip:
  "event_sequence_identifier py_str (serialise_identifier i) =
     (if is_event_sequence_identifier i then Inr i
      else Inl (ValueError ''Invalid serialised event sequence identifier.''))"
  by (cases i) (auto simp: event_sequence_identifier_def is_event_sequence_identifier_def)

lemma serialise_identifier_json [simp]: "is_json_value (serialise_identifier i)"
proof -
  have "is_json_value (serialise_partition p)" for p
    by (cases p) simp
  then show ?thesis by (cases i) auto
qed

lemma category_partition_serialise_loses_category:
  "serialise_identifier (CategoryPartitionIdentifier c p)
     = serialise_identifier (CategoryPartitionIdentifier c' p)"
  by simp

subsection \<open>types/event.py\<close>

record ('n, 'p) new_event =
  ne_name :: 'n
  ne_payload :: 'p
  ne_observed_at :: datetime
  ne_occurred_at :: datetime

record ('n, 'p) stored_event =
  se_id :: string
  se_name :: 'n
  se_stream :: string
  se_category :: string
  se_position :: int
  se_sequence_number :: int
  se_payload :: 'p
  se_observed_at :: datetime
  se_occurred_at :: datetime

definition make_new_event ::
  "'n \<Rightarrow> 'p \<Rightarrow> datetime option \<Rightarrow> datetime option \<Rightarrow> datetime \<Rightarrow> ('n, 'p) new_event" where
  \<comment> \<open>\<open>NewEvent.__init__\<close>; the last argument is what \<open>clock.now(UTC)\<close> returns\<close>
  "make_new_event name payload observed_at occurred_at now =
     (let observed = (case observed_at of None \<Rightarrow> now | Some t \<Rightarrow> t);
          occurred = (case occurred_at of None \<Rightarrow> observed | Some t \<Rightarrow> t)
      in \<lparr>ne_name = name, ne_payload = payload, ne_observed_at = observed,
          ne_occurred_at = occurred\<rparr>)"

definition serialise_new_event ::
  "'o ser_methods \<Rightarrow> (datetime \<Rightarrow> string) \<Rightarrow> 'o ser_fallback
    \<Rightarrow> ('o pyval, 'o pyval) new_event \<Rightarrow> 'o pyval res" where
  "serialise_new_event ser isoformat fallback e =
     res_bind (serialise_to_json_value ser (ne_name e) fallback) (\<lambda>name.
     res_bind (serialise_to_json_value ser (ne_payload e) fallback) (\<lambda>payload.
     Inr (PyDict [(PyStr ''name'', name), (PyStr ''payload'', payload),
                  (PyStr ''observed_at'', PyStr (isoformat (ne_observed_at e))),
                  (PyStr ''occurred_at'', PyStr (isoformat (ne_occurred_at e)))])))"

definition summarise_new_event ::
  "(datetime \<Rightarrow> string) \<Rightarrow> ('o pyval, 'p) new_event \<Rightarrow> 'o pyval" where
  "summarise_new_event isoformat e =
     PyDict [(PyStr ''name'', ne_name e),
             (PyStr ''observed_at'', PyStr (isoformat (ne_observed_at e))),
             (PyStr ''occurred_at'', PyStr (isoformat (ne_occurred_at e)))]"

definition serialise_event ::
  "'o ser_methods \<Rightarrow> (datetime \<Rightarrow> string) \<Rightarrow> 'o ser_fallback
    \<Rightarrow> ('o pyval, 'o pyval) stored_event \<Rightarrow> 'o pyval res" where
  \<comment> \<open>\<open>StoredEvent.serialise\<close>\<close>
  "serialise_event ser isoformat fallback e =
     res_bind (serialise_to_json_value ser (se_name e) fallback) (\<lambda>name.
     res_bind (serialise_to_json_value ser (se_payload e) fallback) (\<lambda>payload.
     Inr (PyDict [(PyStr ''id'', PyStr (se_id e)), (PyStr ''name'', name),
                  (PyStr ''stream'', PyStr (se_stream e)),
                  (PyStr ''category'', PyStr (se_category e)),
                  (PyStr ''position'', PyInt (se_position e)),
                  (PyStr ''sequence_number'', PyInt (se_sequence_number e)),
                  (PyStr ''payload'', payload),
                  (PyStr ''observed_at'', PyStr (isoformat (se_observed_at e))),
                  (PyStr ''occurred_at'', PyStr (isoformat (se_occurred_at e)))])))"

definition summarise_event ::
  "'o ser_methods \<Rightarrow> (datetime \<Rightarrow> string) \<Rightarrow> ('o pyval, 'p) stored_event \<Rightarrow> 'o pyval res" where
  "summarise_event ser isoformat e =
     res_bind (serialise_to_json_value ser (se_name e) raising_serialisation_fallback) (\<lambda>name.
     Inr (PyDict [(PyStr ''id'', PyStr (se_id e)), (PyStr ''name'', name),
                  (PyStr ''stream'', PyStr (se_stream e)),
                  (PyStr ''category'', PyStr (se_category e)),
                  (PyStr ''position'', PyInt (se_position e)),
                  (PyStr ''sequence_number'', PyInt (se_sequence_number e)),
                  (PyStr ''observed_at'', PyStr (isoformat (se_observed_at e))),
                  (PyStr ''occurred_at'', PyStr (isoformat (se_occurred_at e)))]))"

definition serialise_stored_event ::
  "'o ser_methods \<Rightarrow> 'o ser_fallback \<Rightarrow> ('o pyval, 'o pyval) stored_event
    \<Rightarrow> ('o pyval, 'o pyval) stored_event res" where
  "serialise_stored_event ser fallback e =
     res_bind (serialise_to_json_value ser (se_name e) fallback) (\<lambda>name.
     res_bind (serialise_to_json_value ser (se_payload e) fallback) (\<lambda>payload.
     Inr (e\<lparr>se_name := name, se_payload := payload\<rparr>)))"

end
