(* ===== verification/Write_Conditions.thy ===== *)
theory Write_Conditions
  imports Event_Types
begin

section \<open>Write conditions and their enforcement\<close>

text \<open>
  Models \<open>store/conditions.py\<close>, \<open>store/exceptions.py\<close>, the registry of
  \<open>persistence/converter.py\<close> and the condition half of
  \<open>store/adapters/memory/converters.py\<close> (\<open>store/adapters/postgres/converters.py\<close>
  has the same classes over a database connection, which none of them reads).

  A condition's frozen set of conjuncts or disjuncts is the list of its elements in the order
  the set iterates in, without duplicates. \<open>UserCondition\<close> stands for a subclass of
  \<open>WriteCondition\<close> defined outside the library. Enforcement has two stages, as in the
  code: \<open>convert_condition\<close> looks the class up in the registry and builds an enforcer, and
  \<open>assert_satisfied\<close> runs it against the latest event of the stream.
\<close>

type_synonym 'o event = "(string, 'o pyval) stored_event"

datatype 'w condition =
    NoCondition
  | PositionIsCondition "int option"
  | EmptyStreamCondition
  | AndCondition "'w condition list"
  | OrCondition "'w condition list"
  | UserCondition 'w

subsection \<open>store/conditions.py\<close>

text \<open>
  The code keeps the operands of a combination in a \<open>frozenset\<close> and iterates it in hash order; here
  they keep the order they were written in. Which operand is enforced first decides only which
  message is raised when several are not met, and no theorem is about the message.
\<close>

definition construct_and :: "'w condition list \<Rightarrow> 'w condition" where
  "construct_and cs = AndCondition (remdups cs)"

definition construct_or :: "'w condition list \<Rightarrow> 'w condition" where
  "construct_or cs = OrCondition (remdups cs)"

fun condition_and :: "'w condition \<Rightarrow> 'w condition \<Rightarrow> 'w condition" where
  "condition_and (AndCondition cs) (AndCondition ds) = construct_and (cs @ ds)"
| "condition_and (AndCondition cs) d = construct_and (cs @ [d])"
| "condition_and c (AndCondition ds) = construct_and (c # ds)"
| "condition_and c d = construct_and [c, d]"

fun condition_or :: "'w condition \<Rightarrow> 'w condition \<Rightarrow> 'w condition" where
  "condition_or (OrCondition cs) (OrCondition ds) = construct_or (cs @ ds)"
| "condition_or (OrCondition cs) d = construct_or (cs @ [d])"
| "condition_or c (OrCondition ds) = construct_or (c # ds)"
| "condition_or c d = construct_or [c, d]"

definition position_is :: "int option \<Rightarrow> 'w condition" where
  "position_is p = PositionIsCondition p"

definition stream_is_empty :: "'w condition" where
  "stream_is_empty = EmptyStreamCondition"

subsection \<open>Enforcers\<close>

record 'o enforcer_context =
  ctx_identifier :: event_source_identifier
  ctx_latest_event :: "'o event option"

datatype 'o enforcer =
    NoConditionEnforcer
  | PositionIsConditionEnforcer "int option"
  | EmptyStreamConditionEnforcer
  | AndConditionEnforcer "'o enforcer list"
  | OrConditionEnforcer "'o enforcer list"
  | UserEnforcer "'o enforcer_context \<Rightarrow> unit res"

fun and_loop :: "unit res list \<Rightarrow> unit res" where
  "and_loop [] = Inr ()"
| "and_loop (r # rs) = res_bind r (\<lambda>_. and_loop rs)"

text \<open>
  The loop of \<open>OrConditionEnforcer\<close>. Its variable \<open>first_exception\<close> is overwritten by
  every later failure, so what it raises is the last one.
\<close>

fun or_loop :: "unit res list \<Rightarrow> string option \<Rightarrow> unit res" where
  "or_loop [] first_exception =
     (case first_exception of None \<Rightarrow> Inr () | Some m \<Rightarrow> Inl (UnmetWriteConditionError m))"
| "or_loop (r # rs) first_exception =
     (case r of
        Inr _ \<Rightarrow> Inr ()
      | Inl (UnmetWriteConditionError m) \<Rightarrow> or_loop rs (Some m)
      | Inl e \<Rightarrow> Inl e)"

fun assert_satisfied :: "'o enforcer \<Rightarrow> 'o enforcer_context \<Rightarrow> unit res" where
  "assert_satisfied NoConditionEnforcer ctx = Inr ()"
| "assert_satisfied (PositionIsConditionEnforcer p) ctx =
     (if map_option se_position (ctx_latest_event ctx) \<noteq> p
      then Inl (UnmetWriteConditionError ''unexpected stream position'') else Inr ())"
| "assert_satisfied EmptyStreamConditionEnforcer ctx =
     (if ctx_latest_event ctx \<noteq> None
      then Inl (UnmetWriteConditionError ''stream is not empty'') else Inr ())"
| "assert_satisfied (AndConditionEnforcer es) ctx = and_loop (map (\<lambda>e. assert_satisfied e ctx) es)"
| "assert_satisfied (OrConditionEnforcer es) ctx =
     or_loop (map (\<lambda>e. assert_satisfied e ctx) es) None"
| "assert_satisfied (UserEnforcer f) ctx = f ctx"

subsection \<open>The converter registry\<close>

datatype condition_class = ClsNo | ClsPositionIs | ClsEmptyStream | ClsAnd | ClsOr | ClsUser

fun class_of :: "'w condition \<Rightarrow> condition_class" where
  "class_of NoCondition = ClsNo"
| "class_of (PositionIsCondition p) = ClsPositionIs"
| "class_of EmptyStreamCondition = ClsEmptyStream"
| "class_of (AndCondition cs) = ClsAnd"
| "class_of (OrCondition cs) = ClsOr"
| "class_of (UserCondition w) = ClsUser"

text \<open>
  \<open>AndConditionConverter\<close> and \<open>OrConditionConverter\<close> hold a reference to the registry
  they are registered in, so a registered converter is a name for what it does, and
  \<open>convert_condition\<close> runs it with the registry at hand.
\<close>

datatype ('o, 'w) condition_converter =
    NoConditionConverter
  | PositionIsConditionConverter
  | EmptyStreamConditionConverter
  | AndConditionConverter
  | OrConditionConverter
  | UserConditionConverter "'w condition \<Rightarrow> 'o enforcer res"

type_synonym ('o, 'w) condition_registry = "(condition_class, ('o, 'w) condition_converter) dict"

definition register ::
  "'k \<Rightarrow> 'c \<Rightarrow> ('k, 'c) dict \<Rightarrow> ('k, 'c) dict" where
  \<comment> \<open>\<open>TypeRegistryConverter._register\<close>\<close>
  "register item_type converter registry = AList.update item_type converter registry"

definition with_default_condition_converters ::
  "('o, 'w) condition_registry \<Rightarrow> ('o, 'w) condition_registry" where
  "with_default_condition_converters reg =
     register ClsOr OrConditionConverter
      (register ClsAnd AndConditionConverter
       (register ClsEmptyStream EmptyStreamConditionConverter
        (register ClsPositionIs PositionIsConditionConverter
         (register ClsNo NoConditionConverter reg))))"

fun convert_condition ::
  "('o, 'w) condition_registry \<Rightarrow> 'w condition \<Rightarrow> 'o enforcer res" where
  "convert_condition reg c =
     (case map_of reg (class_of c) of
        None \<Rightarrow> Inl (ValueError ''No converter registered for type'')
      | Some NoConditionConverter \<Rightarrow> Inr NoConditionEnforcer
      | Some PositionIsConditionConverter \<Rightarrow>
          (case c of PositionIsCondition p \<Rightarrow> Inr (PositionIsConditionEnforcer p)
           | _ \<Rightarrow> Inl (AttributeError ''position''))
      | Some EmptyStreamConditionConverter \<Rightarrow> Inr EmptyStreamConditionEnforcer
      | Some AndConditionConverter \<Rightarrow>
          (case c of
             AndCondition cs \<Rightarrow>
               res_bind (res_map (convert_condition reg) cs) (\<lambda>es. Inr (AndConditionEnforcer es))
           | OrCondition cs \<Rightarrow>
               res_bind (res_map (convert_condition reg) cs) (\<lambda>es. Inr (AndConditionEnforcer es))
           | _ \<Rightarrow> Inl (AttributeError ''conditions''))
      | Some OrConditionConverter \<Rightarrow>
          (case c of
             AndCondition cs \<Rightarrow>
               res_bind (res_map (convert_condition reg) cs) (\<lambda>es. Inr (OrConditionEnforcer es))
           | OrCondition cs \<Rightarrow>
               res_bind (res_map (convert_condition reg) cs) (\<lambda>es. Inr (OrConditionEnforcer es))
           | _ \<Rightarrow> Inl (AttributeError ''conditions''))
      | Some (UserConditionConverter f) \<Rightarrow> f c)"

declare convert_condition.simps [simp del]

definition default_condition_converter :: "('o, 'w) condition_registry" where
  "default_condition_converter = with_default_condition_converters []"

text \<open>What the save operations do with a condition: convert it, then assert it.\<close>

definition enforce_condition ::
  "('o, 'w) condition_registry \<Rightarrow> 'w condition \<Rightarrow> 'o enforcer_context \<Rightarrow> unit res" where
  "enforce_condition reg c ctx =
     res_bind (convert_condition reg c) (\<lambda>enforcer. assert_satisfied enforcer ctx)"

subsection \<open>What a condition means\<close>

fun condition_holds :: "'w condition \<Rightarrow> 'o event option \<Rightarrow> bool" where
  "condition_holds NoCondition latest = True"
| "condition_holds (PositionIsCondition p) latest = (map_option se_position latest = p)"
| "condition_holds EmptyStreamCondition latest = (latest = None)"
| "condition_holds (AndCondition cs) latest = list_all (\<lambda>c. condition_holds c latest) cs"
| "condition_holds (OrCondition cs) latest = (cs = [] \<or> list_ex (\<lambda>c. condition_holds c latest) cs)"
| "condition_holds (UserCondition w) latest = False"

fun built_in_condition :: "'w condition \<Rightarrow> bool" where
  "built_in_condition (AndCondition cs) = list_all built_in_condition cs"
| "built_in_condition (OrCondition cs) = list_all built_in_condition cs"
| "built_in_condition (UserCondition w) = False"
| "built_in_condition _ = True"

subsection \<open>Lemmas\<close>

lemma default_registry_simps [simp]:
  "map_of default_condition_converter ClsNo = Some NoConditionConverter"
  "map_of default_condition_converter ClsPositionIs = Some PositionIsConditionConverter"
  "map_of default_condition_converter ClsEmptyStream = Some EmptyStreamConditionConverter"
  "map_of default_condition_converter ClsAnd = Some AndConditionConverter"
  "map_of default_condition_converter ClsOr = Some OrConditionConverter"
  "map_of default_condition_converter ClsUser = None"
  by (simp_all add: default_condition_converter_def with_default_condition_converters_def
      register_def)

lemma convert_default_simps [simp]:
  "convert_condition default_condition_converter NoCondition = Inr NoConditionEnforcer"
  "convert_condition default_condition_converter (PositionIsCondition p)
     = Inr (PositionIsConditionEnforcer p)"
  "convert_condition default_condition_converter EmptyStreamCondition
     = Inr EmptyStreamConditionEnforcer"
  "convert_condition default_condition_converter (AndCondition cs) =
     res_bind (res_map (convert_condition default_condition_converter) cs)
       (\<lambda>es. Inr (AndConditionEnforcer es))"
  "convert_condition default_condition_converter (OrCondition cs) =
     res_bind (res_map (convert_condition default_condition_converter) cs)
       (\<lambda>es. Inr (OrConditionEnforcer es))"
  "convert_condition default_condition_converter (UserCondition w)
     = Inl (ValueError ''No converter registered for type'')"
  by (subst convert_condition.simps; simp)+

definition unmet_or_ok :: "unit res \<Rightarrow> bool" where
  "unmet_or_ok r \<longleftrightarrow> r = Inr () \<or> (\<exists>m. r = Inl (UnmetWriteConditionError m))"

lemma unmet_or_ok_simps [simp]:
  "unmet_or_ok (Inr ())" "unmet_or_ok (Inl (UnmetWriteConditionError m))"
  by (simp_all add: unmet_or_ok_def)

lemma and_loop_ok: "and_loop rs = Inr () \<longleftrightarrow> list_all (\<lambda>r. r = Inr ()) rs"
  by (induction rs) auto

lemma and_loop_unmet: "list_all unmet_or_ok rs \<Longrightarrow> unmet_or_ok (and_loop rs)"
  by (induction rs) (auto simp: unmet_or_ok_def)

lemma unmet_or_okE:
  assumes "unmet_or_ok r"
  obtains (ok) "r = Inr ()" | (unmet) m where "r = Inl (UnmetWriteConditionError m)"
  using assms by (auto simp: unmet_or_ok_def)

lemma or_loop_ok:
  "list_all unmet_or_ok rs \<Longrightarrow>
     or_loop rs first = Inr () \<longleftrightarrow> list_ex (\<lambda>r. r = Inr ()) rs \<or> (rs = [] \<and> first = None)"
proof (induction rs arbitrary: first)
  case (Cons r rs)
  from Cons.prems have "unmet_or_ok r" by simp
  then show ?case using Cons by (cases rule: unmet_or_okE) auto
qed (auto split: option.splits)

lemma or_loop_unmet: "list_all unmet_or_ok rs \<Longrightarrow> unmet_or_ok (or_loop rs first)"
proof (induction rs arbitrary: first)
  case (Cons r rs)
  from Cons.prems have "unmet_or_ok r" by simp
  then show ?case using Cons by (cases rule: unmet_or_okE) auto
qed (auto split: option.splits)

lemma or_loop_last_failure:
  assumes "list_all (\<lambda>r. \<exists>m. r = Inl (UnmetWriteConditionError m)) rs" and "rs \<noteq> []"
  shows "or_loop rs first = last rs"
  using assms
proof (induction rs arbitrary: first)
  case (Cons r rs)
  then show ?case by (cases rs) auto
qed simp

definition enforcer_exact :: "'o enforcer_context \<Rightarrow> 'w condition \<Rightarrow> 'o enforcer \<Rightarrow> bool" where
  "enforcer_exact ctx c e \<longleftrightarrow> unmet_or_ok (assert_satisfied e ctx) \<and>
     (assert_satisfied e ctx = Inr () \<longleftrightarrow> condition_holds c (ctx_latest_event ctx))"

lemma enforcers_exact:
  assumes "list_all2 (enforcer_exact ctx) cs es"
  shows "list_all unmet_or_ok (map (\<lambda>e. assert_satisfied e ctx) es)"
    and "list_all (\<lambda>r. r = Inr ()) (map (\<lambda>e. assert_satisfied e ctx) es)
           = list_all (\<lambda>c. condition_holds c (ctx_latest_event ctx)) cs"
    and "list_ex (\<lambda>r. r = Inr ()) (map (\<lambda>e. assert_satisfied e ctx) es)
           = list_ex (\<lambda>c. condition_holds c (ctx_latest_event ctx)) cs"
  using assms by (induction rule: list_all2_induct) (auto simp: enforcer_exact_def)

lemma enforcer_of_built_in:
  assumes "built_in_condition c"
  shows "\<exists>e. convert_condition default_condition_converter c = Inr e \<and> enforcer_exact ctx c e"
  using assms
proof (induction c)
  case (AndCondition cs)
  then obtain es where es: "res_map (convert_condition default_condition_converter) cs = Inr es"
    "list_all2 (enforcer_exact ctx) cs es"
    using res_map_list_all2 [of cs "convert_condition default_condition_converter"
        "enforcer_exact ctx"]
    by (auto simp: list_all_iff)
  then show ?case using enforcers_exact [OF es(2)]
    by (simp add: enforcer_exact_def and_loop_ok and_loop_unmet)
next
  case (OrCondition cs)
  then obtain es where es: "res_map (convert_condition default_condition_converter) cs = Inr es"
    "list_all2 (enforcer_exact ctx) cs es"
    using res_map_list_all2 [of cs "convert_condition default_condition_converter"
        "enforcer_exact ctx"]
    by (auto simp: list_all_iff)
  moreover have "es = [] \<longleftrightarrow> cs = []" using es(2) by auto
  ultimately show ?case using enforcers_exact [OF es(2)]
    by (auto simp: enforcer_exact_def or_loop_ok or_loop_unmet)
qed (auto simp: enforcer_exact_def)

lemma enforce_built_in_cases:
  assumes "built_in_condition c"
  obtains (met) "enforce_condition default_condition_converter c ctx = Inr ()"
      "condition_holds c (ctx_latest_event ctx)"
  | (unmet) m where "enforce_condition default_condition_converter c ctx
        = Inl (UnmetWriteConditionError m)" "\<not> condition_holds c (ctx_latest_event ctx)"
  using enforcer_of_built_in [OF assms, of ctx]
  by (auto simp: enforce_condition_def enforcer_exact_def unmet_or_ok_def)

subsection \<open>Properties\<close>

text \<open>
  C3. Enforcement is exact: under the default registry a condition built from the library's
  own classes is accepted precisely when it holds of the stream's latest event, however the
  conjunctions and disjunctions nest, and it is otherwise refused with an
  UnmetWriteConditionError, never with another exception.
\<close>

theorem enforcement_exact:
  assumes "built_in_condition c"
  shows "(enforce_condition default_condition_converter c ctx = Inr ()
            \<longleftrightarrow> condition_holds c (ctx_latest_event ctx))
       \<and> (\<not> condition_holds c (ctx_latest_event ctx) \<longrightarrow>
            (\<exists>m. enforce_condition default_condition_converter c ctx
                   = Inl (UnmetWriteConditionError m)))"
  using assms by (cases rule: enforce_built_in_cases [of c ctx]) auto

definition sample_event :: "unit event" where
  "sample_event = \<lparr>se_id = ''e1'', se_name = ''created'', se_stream = ''s'', se_category = ''c'',
     se_position = 0, se_sequence_number = 0, se_payload = PyNone,
     se_observed_at = 0, se_occurred_at = 0\<rparr>"

theorem enforcement_exact_witness:
  "enforce_condition default_condition_converter
     (OrCondition [EmptyStreamCondition, PositionIsCondition (Some 0)] :: unit condition)
     \<lparr>ctx_identifier = StreamIdentifier ''c'' ''s'', ctx_latest_event = Some sample_event\<rparr>
   = Inr ()"
  using enforcement_exact [of "OrCondition [EmptyStreamCondition, PositionIsCondition (Some 0)]
      :: unit condition"
      "\<lparr>ctx_identifier = StreamIdentifier ''c'' ''s'', ctx_latest_event = Some sample_event\<rparr>"]
  by (simp add: sample_event_def)

lemma condition_holds_construct [simp]:
  "condition_holds (construct_and cs) latest = list_all (\<lambda>c. condition_holds c latest) cs"
  "condition_holds (construct_or cs) latest
     = (cs = [] \<or> list_ex (\<lambda>c. condition_holds c latest) cs)"
  by (simp_all add: construct_and_def construct_or_def list_all_iff list_ex_iff)

text \<open>
  C4. Combining conditions with \<open>&\<close> and \<open>|\<close> flattens nested conjunctions and disjunctions
  and drops duplicates without changing what they mean: the combination holds when both
  operands hold, respectively when one of them does. (An \<open>OrCondition\<close> constructed with
  no disjuncts is accepted by its enforcer but vanishes when combined, so it is excluded.)
\<close>

theorem combination_semantics:
  assumes "c \<noteq> OrCondition []" and "d \<noteq> OrCondition []"
  shows "(condition_holds (condition_and c d) latest
           \<longleftrightarrow> condition_holds c latest \<and> condition_holds d latest)
       \<and> (condition_holds (condition_or c d) latest
           \<longleftrightarrow> condition_holds c latest \<or> condition_holds d latest)"
proof
  show "condition_holds (condition_and c d) latest
      \<longleftrightarrow> condition_holds c latest \<and> condition_holds d latest"
    by (induction c d rule: condition_and.induct) auto
  show "condition_holds (condition_or c d) latest
      \<longleftrightarrow> condition_holds c latest \<or> condition_holds d latest"
    using assms by (induction c d rule: condition_or.induct) auto
qed

theorem combination_semantics_witness:
  "condition_holds (condition_or stream_is_empty (position_is (Some 0)) :: unit condition)
     (Some sample_event)"
  using combination_semantics [of "stream_is_empty :: unit condition" "position_is (Some 0)"
      "Some sample_event"]
  by (simp add: stream_is_empty_def position_is_def sample_event_def)

end
