(* ===== verification/Event_Sources.thy ===== *)
theory Event_Sources
  imports Write_Conditions
begin

section \<open>Event sources and query constraints\<close>

text \<open>
  Models \<open>sources/constraints.py\<close>, \<open>sources/base.py\<close>, \<open>sources/memory.py\<close>,
  \<open>sources/constrained.py\<close>, \<open>store/sources.py\<close> and the constraint half of
  \<open>store/adapters/memory/converters.py\<close>.

  An asynchronous iterator is a \<open>gen\<close>: the items it yields, in order, and the exception it
  ends with, if it does not simply finish. A set of constraints is the list of its elements in
  iteration order. The locale \<open>event_source\<close> is the contract every source offers its
  consumers: its latest event is the last of its events, and iterating it with constraints
  yields exactly the events that meet them, in order.
\<close>

type_synonym 'a gen = "'a list \<times> py_error option"

subsection \<open>sources/constraints.py and its converter\<close>

datatype 'q query_constraint =
    SequenceNumberAfterConstraint int
  | UserConstraint 'q

definition sequence_number_after :: "int \<Rightarrow> 'q query_constraint" where
  "sequence_number_after n = SequenceNumberAfterConstraint n"

type_synonym ('e, 'q) constraint_converter = "'q query_constraint \<Rightarrow> ('e \<Rightarrow> bool) res"

definition sequence_number_after_check :: "int \<Rightarrow> ('n, 'p) stored_event \<Rightarrow> bool" where
  "sequence_number_after_check n event \<longleftrightarrow> n < se_sequence_number event"

definition default_constraint_converter :: "(('n, 'p) stored_event, 'q) constraint_converter" where
  "default_constraint_converter c =
     (case c of
        SequenceNumberAfterConstraint n \<Rightarrow> Inr (sequence_number_after_check n)
      | UserConstraint q \<Rightarrow> Inl (ValueError ''No converter registered for type''))"

text \<open>\<open>all(converter.convert(constraint)(event) for constraint in constraints)\<close>\<close>

fun check_constraints ::
  "('e, 'q) constraint_converter \<Rightarrow> 'q query_constraint list \<Rightarrow> 'e \<Rightarrow> bool res" where
  "check_constraints conv [] event = Inr True"
| "check_constraints conv (c # cs) event =
     res_bind (conv c) (\<lambda>check.
       if check event then check_constraints conv cs event else Inr False)"

subsection \<open>Generators\<close>

definition gen_cons :: "'a \<Rightarrow> 'a gen \<Rightarrow> 'a gen" where
  "gen_cons x g = (x # fst g, snd g)"

definition gen_to_list :: "'a gen \<Rightarrow> 'a list res" where
  \<comment> \<open>\<open>[event async for event in iterator]\<close>, as in \<open>EventSource.read\<close>\<close>
  "gen_to_list g = (case snd g of None \<Rightarrow> Inr (fst g) | Some e \<Rightarrow> Inl e)"

lemma gen_cons_simps [simp]:
  "fst (gen_cons x g) = x # fst g" "snd (gen_cons x g) = snd g"
  by (simp_all add: gen_cons_def)

lemma gen_to_list_finished [simp]: "gen_to_list (xs, None) = Inr xs"
  by (simp add: gen_to_list_def)

subsection \<open>sources/memory.py and sources/constrained.py\<close>

definition memory_latest :: "'e list \<Rightarrow> 'e option res" where
  "memory_latest events =
     (if length events > 0 then res_bind (py_index events (-1)) (\<lambda>e. Inr (Some e)) else Inr None)"

fun memory_iterate ::
  "('e, 'q) constraint_converter \<Rightarrow> 'e list \<Rightarrow> 'q query_constraint list \<Rightarrow> 'e gen" where
  "memory_iterate conv [] constraints = ([], None)"
| "memory_iterate conv (event # events) constraints =
     (case check_constraints conv constraints event of
        Inl e \<Rightarrow> ([], Some e)
      | Inr True \<Rightarrow> gen_cons event (memory_iterate conv events constraints)
      | Inr False \<Rightarrow> memory_iterate conv events constraints)"

definition constrained_iterate ::
  "('q query_constraint list \<Rightarrow> 'e gen) \<Rightarrow> 'q query_constraint list
    \<Rightarrow> 'q query_constraint list \<Rightarrow> 'e gen" where
  \<comment> \<open>\<open>ConstrainedEventSource.iterate\<close>: the delegate's iterator under the union\<close>
  "constrained_iterate delegate_iterate own constraints =
     delegate_iterate (remdups (own @ constraints))"

subsection \<open>The contract of a source\<close>

definition last_option :: "'a list \<Rightarrow> 'a option" where
  "last_option xs = (if xs = [] then None else Some (last xs))"

fun meets :: "('n, 'p) stored_event \<Rightarrow> 'q query_constraint \<Rightarrow> bool" where
  "meets event (SequenceNumberAfterConstraint n) = (n < se_sequence_number event)"
| "meets event (UserConstraint q) = False"

fun built_in_constraint :: "'q query_constraint \<Rightarrow> bool" where
  "built_in_constraint (SequenceNumberAfterConstraint n) = True"
| "built_in_constraint (UserConstraint q) = False"

lemma last_option_simps [simp]:
  "last_option [] = None"
  "last_option (xs @ [x]) = Some x"
  "xs \<noteq> [] \<Longrightarrow> last_option xs = Some (last xs)"
  by (simp_all add: last_option_def)

lemma last_option_None [simp]: "last_option xs = None \<longleftrightarrow> xs = []"
  by (simp add: last_option_def)

lemma last_option_append:
  "last_option (xs @ ys) = (case last_option ys of None \<Rightarrow> last_option xs | Some y \<Rightarrow> Some y)"
  by (simp add: last_option_def)

lemma check_default_constraints:
  "list_all built_in_constraint cs \<Longrightarrow>
     check_constraints default_constraint_converter cs event = Inr (list_all (meets event) cs)"
proof (induction cs)
  case (Cons c cs)
  then show ?case
    by (cases c) (auto simp: default_constraint_converter_def sequence_number_after_check_def)
qed simp

lemma memory_iterate_default:
  "list_all built_in_constraint cs \<Longrightarrow>
     memory_iterate default_constraint_converter events cs
       = (filter (\<lambda>e. list_all (meets e) cs) events, None)"
  by (induction events) (auto simp: check_default_constraints gen_cons_def)

lemma memory_latest_last: "memory_latest events = Inr (last_option events)"
  by (auto simp: memory_latest_def py_index_last)

locale event_source =
  fixes invar :: "'s \<Rightarrow> bool"
    and events_of :: "'s \<Rightarrow> ('n, 'p) stored_event list"
    and latest :: "'s \<Rightarrow> ('n, 'p) stored_event option res"
    and iterate :: "'s \<Rightarrow> 'q query_constraint list \<Rightarrow> ('n, 'p) stored_event gen"
  assumes latest_last: "invar s \<Longrightarrow> latest s = Inr (last_option (events_of s))"
    and iterate_meets: "invar s \<Longrightarrow> list_all built_in_constraint cs \<Longrightarrow>
      iterate s cs = (filter (\<lambda>e. list_all (meets e) cs) (events_of s), None)"
begin

lemma read_all: "invar s \<Longrightarrow> gen_to_list (iterate s []) = Inr (events_of s)"
  using iterate_meets [of s "[]"] by simp

lemma read_after:
  "invar s \<Longrightarrow> gen_to_list (iterate s [sequence_number_after n])
     = Inr (filter (\<lambda>e. n < se_sequence_number e) (events_of s))"
  using iterate_meets [of s "[sequence_number_after n]"] by (simp add: sequence_number_after_def)

text \<open>
  Reading after the last event already read returns exactly what was appended since, when
  sequence numbers grow along the source.
\<close>

lemma read_after_resumes:
  assumes "invar s" and "events_of s = old @ new" and "old \<noteq> []"
    and "sorted_wrt (<) (map se_sequence_number (events_of s))"
  shows "gen_to_list (iterate s [sequence_number_after (se_sequence_number (last old))]) = Inr new"
proof -
  obtain init e where old: "old = init @ [e]"
    using assms(3) by (cases old rule: rev_cases) auto
  have "filter (\<lambda>x. se_sequence_number e < se_sequence_number x) old = []"
    using assms(4) by (auto simp: assms(2) old sorted_wrt_append filter_empty_conv)
  moreover have "filter (\<lambda>x. se_sequence_number e < se_sequence_number x) new = new"
    using assms(4) by (auto simp: assms(2) old sorted_wrt_append filter_id_conv)
  ultimately show ?thesis using assms(1,2) by (simp add: read_after old)
qed

text \<open>A source narrowed by constraints yields what meets both sets of constraints.\<close>

lemma constrained_iterate_meets:
  assumes "invar s" and "list_all built_in_constraint own" and "list_all built_in_constraint cs"
  shows "constrained_iterate (iterate s) own cs
    = (filter (\<lambda>e. list_all (meets e) cs) (fst (iterate s own)), None)"
proof -
  have "list_all built_in_constraint (remdups (own @ cs))"
    using assms(2,3) by (auto simp: list_all_iff)
  then show ?thesis
    using assms by (auto simp: constrained_iterate_def iterate_meets list_all_iff
        intro!: filter_cong)
qed

end

interpretation memory_source: event_source
  "\<lambda>_. True" "\<lambda>events. events" memory_latest "memory_iterate default_constraint_converter"
  by unfold_locales (simp_all add: memory_latest_last memory_iterate_default)

end
