(* ===== verification/Events_DB.thy ===== *)
theory Events_DB
  imports Event_Sources
begin

section \<open>The in-memory events database\<close>

text \<open>
  Models \<open>store/adapters/memory/db.py\<close>: the sequence, the database with its three indexes
  and the transaction. The events list has a slot per sequence number, empty where a number was
  drawn and its save did not commit; an index lists sequence numbers in commit order. A
  \<open>defaultdict\<close> of lists is a function that is empty where nothing was added.

  \<open>db_wf\<close> is the well-formedness the indexes and the events list keep, and \<open>db_log\<close>
  abstracts a database to the list of its events in commit order; each operation is shown to
  implement its counterpart on that list.
\<close>

record 'o events_db =
  db_events :: "'o event option list"
  db_log_index :: "int list"
  db_category_index :: "string \<Rightarrow> int list"
  db_stream_index :: "string \<times> string \<Rightarrow> int list"

definition empty_db :: "'o events_db" where
  "empty_db = \<lparr>db_events = [], db_log_index = [], db_category_index = (\<lambda>_. []),
     db_stream_index = (\<lambda>_. [])\<rparr>"

definition sequence_next :: "int \<Rightarrow> int \<times> int" where
  \<comment> \<open>\<open>InMemorySequence.__next__\<close>: the value returned and the value kept\<close>
  "sequence_next value = (value, value + 1)"

definition db_stream_events :: "'o events_db \<Rightarrow> string \<Rightarrow> string \<Rightarrow> 'o event list res" where
  "db_stream_events db category stream =
     res_bind (res_map (py_index (db_events db)) (db_stream_index db (category, stream)))
       (\<lambda>events. if list_ex (\<lambda>e. e = None) events
                  then Inl (ValueError ''Invalid state: stream contains None values.'')
                  else Inr (map the events))"

definition db_last_stream_event :: "'o events_db \<Rightarrow> string \<Rightarrow> string \<Rightarrow> 'o event option res" where
  "db_last_stream_event db category stream =
     res_bind (db_stream_events db category stream)
       (\<lambda>events. if events \<noteq> [] then res_bind (py_index events (-1)) (\<lambda>e. Inr (Some e))
                  else Inr None)"

definition db_last_stream_position :: "'o events_db \<Rightarrow> string \<Rightarrow> string \<Rightarrow> int res" where
  "db_last_stream_position db category stream =
     res_bind (db_last_stream_event db category stream)
       (\<lambda>latest. Inr (case latest of None \<Rightarrow> -1 | Some e \<Rightarrow> se_position e))"

definition db_add :: "'o event \<Rightarrow> 'o events_db \<Rightarrow> 'o events_db res" where
  "db_add event db =
     (let category_key = se_category event;
          stream_key = (se_category event, se_stream event);
          seq = se_sequence_number event;
          size = int (length (db_events db));
          events = (if size \<le> seq
                    then db_events db @ replicate (nat (seq - size + 1)) None
                    else db_events db)
      in res_bind (py_store events seq (Some event)) (\<lambda>events'.
           Inr \<lparr>db_events = events',
                db_log_index = db_log_index db @ [seq],
                db_category_index = (db_category_index db)
                  (category_key := db_category_index db category_key @ [seq]),
                db_stream_index = (db_stream_index db)
                  (stream_key := db_stream_index db stream_key @ [seq])\<rparr>))"

definition db_select_index :: "'o events_db \<Rightarrow> event_source_identifier \<Rightarrow> int list res" where
  "db_select_index db target =
     (case target of
        LogIdentifier \<Rightarrow> Inr (db_log_index db)
      | CategoryIdentifier category \<Rightarrow> Inr (db_category_index db category)
      | StreamIdentifier category stream \<Rightarrow> Inr (db_stream_index db (category, stream))
      | _ \<Rightarrow> Inl (ValueError ''Unknown target''))"

definition db_last_event :: "'o events_db \<Rightarrow> event_source_identifier \<Rightarrow> 'o event option res" where
  "db_last_event db target =
     res_bind (db_select_index db target) (\<lambda>index.
       if index \<noteq> []
       then res_bind (py_index index (-1)) (\<lambda>i. py_index (db_events db) i)
       else Inr None)"

fun db_scan_loop ::
  "('o event, 'q) constraint_converter \<Rightarrow> 'o events_db \<Rightarrow> 'q query_constraint list
    \<Rightarrow> int list \<Rightarrow> 'o event gen" where
  "db_scan_loop conv db constraints [] = ([], None)"
| "db_scan_loop conv db constraints (i # is) =
     (case py_index (db_events db) i of
        Inl e \<Rightarrow> ([], Some e)
      | Inr None \<Rightarrow> ([], Some (ValueError ''Invalid state: event at sequence number is None''))
      | Inr (Some event) \<Rightarrow>
          (case check_constraints conv constraints event of
             Inl e \<Rightarrow> ([], Some e)
           | Inr False \<Rightarrow> db_scan_loop conv db constraints is
           | Inr True \<Rightarrow> gen_cons event (db_scan_loop conv db constraints is)))"

definition db_scan_events ::
  "('o event, 'q) constraint_converter \<Rightarrow> 'o events_db \<Rightarrow> event_source_identifier
    \<Rightarrow> 'q query_constraint list \<Rightarrow> 'o event gen" where
  "db_scan_events conv db target constraints =
     (case db_select_index db target of
        Inl e \<Rightarrow> ([], Some e)
      | Inr index \<Rightarrow> db_scan_loop conv db constraints index)"

text \<open>\<open>InMemoryEventsDBTransaction\<close>: the events added so far; \<open>commit\<close> replays them.\<close>

definition transaction_add :: "'o event \<Rightarrow> 'o event list \<Rightarrow> 'o event list" where
  "transaction_add event added = added @ [event]"

definition transaction_commit :: "'o event list \<Rightarrow> 'o events_db \<Rightarrow> 'o events_db res" where
  "transaction_commit added db = res_fold db_add added db"

subsection \<open>Abstraction and well-formedness\<close>

text \<open>Which events a target selects.\<close>

fun selects :: "event_source_identifier \<Rightarrow> ('n, 'p) stored_event \<Rightarrow> bool" where
  "selects LogIdentifier e = True"
| "selects (CategoryIdentifier c) e = (se_category e = c)"
| "selects (StreamIdentifier c s) e = (se_category e = c \<and> se_stream e = s)"
| "selects _ e = False"

abbreviation stream_of :: "string \<Rightarrow> string \<Rightarrow> ('n, 'p) stored_event list \<Rightarrow> ('n, 'p) stored_event list"
  where "stream_of c s es \<equiv> filter (selects (StreamIdentifier c s)) es"

definition event_at :: "'o events_db \<Rightarrow> int \<Rightarrow> 'o event" where
  "event_at db i = the (db_events db ! nat i)"

definition db_log :: "'o events_db \<Rightarrow> 'o event list" where
  "db_log db = map (event_at db) (db_log_index db)"

definition slot_ok :: "'o events_db \<Rightarrow> int \<Rightarrow> bool" where
  "slot_ok db i \<longleftrightarrow> 0 \<le> i \<and> nat i < length (db_events db) \<and>
     (\<exists>e. db_events db ! nat i = Some e \<and> se_sequence_number e = i)"

definition db_wf :: "'o events_db \<Rightarrow> bool" where
  "db_wf db \<longleftrightarrow>
     distinct (db_log_index db) \<and>
     list_all (slot_ok db) (db_log_index db) \<and>
     (\<forall>c. db_category_index db c
        = filter (\<lambda>i. selects (CategoryIdentifier c) (event_at db i)) (db_log_index db)) \<and>
     (\<forall>c s. db_stream_index db (c, s)
        = filter (\<lambda>i. selects (StreamIdentifier c s) (event_at db i)) (db_log_index db))"

definition scannable :: "event_source_identifier \<Rightarrow> bool" where
  "scannable t = is_event_sequence_identifier t"

lemma db_wf_empty [simp]: "db_wf empty_db" and db_log_empty [simp]: "db_log empty_db = []"
  by (simp_all add: db_wf_def empty_db_def db_log_def)

lemma slot_okD:
  assumes "slot_ok db i"
  shows "py_index (db_events db) i = Inr (Some (event_at db i))"
    and "se_sequence_number (event_at db i) = i" and "0 \<le> i"
  using assms by (auto simp: slot_ok_def event_at_def py_index_nth)

lemma selected_index:
  assumes "db_wf db" and "scannable t"
  shows "\<exists>is. db_select_index db t = Inr is \<and> list_all (slot_ok db) is \<and>
    map (event_at db) is = filter (selects t) (db_log db)"
  using assms
  by (cases t) (auto simp: db_wf_def scannable_def is_event_sequence_identifier_def
      db_select_index_def db_log_def filter_map o_def list_all_iff)

lemma res_map_slots:
  "list_all (slot_ok db) is \<Longrightarrow>
     res_map (py_index (db_events db)) is = Inr (map (\<lambda>i. Some (event_at db i)) is)"
  by (rule res_map_all_Inr) (auto simp: list_all_iff slot_okD)

subsection \<open>Each operation implements its counterpart on the log\<close>

lemma db_stream_events_refines:
  assumes "db_wf db"
  shows "db_stream_events db c s = Inr (stream_of c s (db_log db))"
proof -
  obtain "is" where "is": "db_select_index db (StreamIdentifier c s) = Inr is"
    "list_all (slot_ok db) is" "map (event_at db) is = stream_of c s (db_log db)"
    using selected_index [OF assms, of "StreamIdentifier c s"]
    by (auto simp: scannable_def is_event_sequence_identifier_def)
  then have "db_stream_index db (c, s) = is" by (simp add: db_select_index_def)
  with "is" show ?thesis
    by (auto simp: db_stream_events_def res_map_slots list_ex_iff o_def)
qed

lemma db_last_stream_event_refines:
  "db_wf db \<Longrightarrow> db_last_stream_event db c s = Inr (last_option (stream_of c s (db_log db)))"
  by (auto simp: db_last_stream_event_def db_stream_events_refines py_index_last
      simp del: selects.simps)

lemma db_last_stream_position_refines:
  "db_wf db \<Longrightarrow> db_last_stream_position db c s =
     Inr (case last_option (stream_of c s (db_log db)) of None \<Rightarrow> -1 | Some e \<Rightarrow> se_position e)"
  by (simp add: db_last_stream_position_def db_last_stream_event_refines del: selects.simps)

lemma db_last_event_refines:
  assumes "db_wf db" and "scannable t"
  shows "db_last_event db t = Inr (last_option (filter (selects t) (db_log db)))"
proof -
  obtain "is" where "is": "db_select_index db t = Inr is" "list_all (slot_ok db) is"
    "map (event_at db) is = filter (selects t) (db_log db)"
    using selected_index [OF assms] by blast
  show ?thesis
  proof (cases "is = []")
    case True
    with "is" show ?thesis by (simp add: db_last_event_def)
  next
    case False
    with "is"(2) have "slot_ok db (last is)" by (auto simp: list_all_iff)
    then show ?thesis
      using False "is"(1) by (simp add: db_last_event_def py_index_last slot_okD last_map
          flip: "is"(3))
  qed
qed

lemma db_scan_loop_refines:
  "list_all (slot_ok db) is \<Longrightarrow>
     db_scan_loop conv db cs is = memory_iterate conv (map (event_at db) is) cs"
proof (induction "is")
  case (Cons i "is")
  then show ?case
    by (simp add: slot_okD(1) split: sum.splits bool.splits)
qed simp

lemma db_scan_events_refines:
  assumes "db_wf db" and "scannable t"
  shows "db_scan_events conv db t cs = memory_iterate conv (filter (selects t) (db_log db)) cs"
proof -
  obtain "is" where "db_select_index db t = Inr is" "list_all (slot_ok db) is"
    "map (event_at db) is = filter (selects t) (db_log db)"
    using selected_index [OF assms] by blast
  then show ?thesis by (simp add: db_scan_events_def db_scan_loop_refines)
qed

lemma db_add_refines:
  assumes wf: "db_wf db" and seq: "0 \<le> se_sequence_number e"
    and fresh: "se_sequence_number e \<notin> set (db_log_index db)"
  shows "\<exists>db'. db_add e db = Inr db' \<and> db_wf db' \<and> db_log db' = db_log db @ [e] \<and>
           db_log_index db' = db_log_index db @ [se_sequence_number e]"
proof -
  let ?q = "se_sequence_number e" and ?n = "int (length (db_events db))"
  let ?evs = "if ?n \<le> ?q then db_events db @ replicate (nat (?q - ?n + 1)) None
              else db_events db"
  define evs' where "evs' = ?evs[nat ?q := Some e]"
  define db' where "db' = \<lparr>db_events = evs', db_log_index = db_log_index db @ [?q],
    db_category_index = (db_category_index db)
      (se_category e := db_category_index db (se_category e) @ [?q]),
    db_stream_index = (db_stream_index db)
      ((se_category e, se_stream e) := db_stream_index db (se_category e, se_stream e) @ [?q])\<rparr>"
  have len: "nat ?q < length ?evs" using seq by auto
  then have add: "db_add e db = Inr db'"
    using seq by (simp add: db_add_def Let_def py_store_nth evs'_def db'_def)
  have new: "evs' ! nat ?q = Some e" "nat ?q < length evs'"
    using len by (simp_all add: evs'_def)
  have old: "evs' ! nat i = db_events db ! nat i \<and> nat i < length evs'"
    if "slot_ok db i" "i \<noteq> ?q" for i
    using that seq by (auto simp: evs'_def slot_ok_def nth_append nth_list_update nat_eq_iff)
  have slots: "slot_ok db' i" "event_at db' i = event_at db i"
    if "i \<in> set (db_log_index db)" for i
  proof -
    have "slot_ok db i" "i \<noteq> ?q" using wf fresh that by (auto simp: db_wf_def list_all_iff)
    with old [of i] show "slot_ok db' i" "event_at db' i = event_at db i"
      by (auto simp: slot_ok_def event_at_def db'_def)
  qed
  have at_new: "event_at db' ?q = e" "slot_ok db' ?q"
    using new seq by (simp_all add: event_at_def slot_ok_def db'_def)
  have logi: "db_log_index db' = db_log_index db @ [?q]" by (simp add: db'_def)
  have sel: "filter (\<lambda>i. selects t (event_at db' i)) (db_log_index db')
      = filter (\<lambda>i. selects t (event_at db i)) (db_log_index db) @ (if selects t e then [?q] else [])"
    for t by (auto simp: logi at_new slots cong: filter_cong)
  have "db_wf db'"
    unfolding db_wf_def sel using wf fresh slots(1) at_new(2)
    by (auto simp: db'_def db_wf_def list_all_iff)
  moreover have "db_log db' = db_log db @ [e]"
    by (simp add: db_log_def logi at_new slots)
  ultimately show ?thesis using add logi by blast
qed

lemma transaction_commit_refines:
  assumes "db_wf db" and "list_all (\<lambda>e. 0 \<le> se_sequence_number e) es"
    and "distinct (map se_sequence_number es)"
    and "set (map se_sequence_number es) \<inter> set (db_log_index db) = {}"
  shows "\<exists>db'. transaction_commit es db = Inr db' \<and> db_wf db' \<and> db_log db' = db_log db @ es \<and>
           db_log_index db' = db_log_index db @ map se_sequence_number es"
  using assms
proof (induction es arbitrary: db)
  case Nil
  then show ?case by (simp add: transaction_commit_def)
next
  case (Cons e es)
  then obtain db1 where db1: "db_add e db = Inr db1" "db_wf db1" "db_log db1 = db_log db @ [e]"
    "db_log_index db1 = db_log_index db @ [se_sequence_number e]"
    using db_add_refines [of db e] by auto
  with Cons.prems obtain db' where "transaction_commit es db1 = Inr db'" "db_wf db'"
    "db_log db' = db_log db1 @ es"
    "db_log_index db' = db_log_index db1 @ map se_sequence_number es"
    using Cons.IH [of db1] by auto
  with db1 show ?case by (auto simp: transaction_commit_def)
qed

lemma db_log_index_seq: "db_wf db \<Longrightarrow> map se_sequence_number (db_log db) = db_log_index db"
  by (auto simp: db_wf_def db_log_def list_all_iff slot_okD(2) intro!: map_idI)

text \<open>A database scanned for a fixed target is an event source in the sense of the contract.\<close>

interpretation log_source: event_source
  db_wf db_log "\<lambda>db. db_last_event db LogIdentifier"
  "\<lambda>db. db_scan_events default_constraint_converter db LogIdentifier"
  by unfold_locales
    (simp_all add: db_last_event_refines db_scan_events_refines memory_iterate_default
      scannable_def is_event_sequence_identifier_def)

interpretation category_source: event_source
  db_wf "\<lambda>db. filter (selects (CategoryIdentifier c)) (db_log db)"
  "\<lambda>db. db_last_event db (CategoryIdentifier c)"
  "\<lambda>db. db_scan_events default_constraint_converter db (CategoryIdentifier c)" for c
  by unfold_locales
    (simp_all add: db_last_event_refines db_scan_events_refines memory_iterate_default
      scannable_def is_event_sequence_identifier_def)

interpretation stream_source: event_source
  db_wf "\<lambda>db. stream_of c s (db_log db)" "\<lambda>db. db_last_event db (StreamIdentifier c s)"
  "\<lambda>db. db_scan_events default_constraint_converter db (StreamIdentifier c s)" for c s
  by unfold_locales
    (simp_all add: db_last_event_refines db_scan_events_refines memory_iterate_default
      scannable_def is_event_sequence_identifier_def)

end
