(* ===== verification/Memory_Adapter.thy ===== *)
theory Memory_Adapter
  imports Events_DB
begin

section \<open>The in-memory storage adapter\<close>

text \<open>
  Models \<open>store/adapters/base.py\<close> (the serialisation guarantees), \<open>store/types.py\<close> and
  \<open>store/adapters/memory/adapter.py\<close>, here for a save that runs without interference; the
  theory \<open>Adapter_Concurrency\<close> interleaves saves at their suspension points.

  What a save takes from outside is the \<open>save_env\<close>: the \<open>serialise\<close> methods of the
  caller's name and payload classes, and \<open>uuid4\<close>, indexed by the sequence number drawn
  with it. A save returns the new state of the adapter beside its outcome, because a save that
  raises after drawing sequence numbers has consumed them.
\<close>

datatype serialisation_guarantee = LOG | CATEGORY | STREAM

fun lock_name :: "serialisation_guarantee \<Rightarrow> string \<Rightarrow> event_source_identifier \<Rightarrow> string res" where
  "lock_name LOG namespace t = Inr namespace"
| "lock_name CATEGORY namespace (CategoryIdentifier c) = Inr (namespace @ ''.'' @ c)"
| "lock_name CATEGORY namespace (StreamIdentifier c s) = Inr (namespace @ ''.'' @ c)"
| "lock_name CATEGORY namespace (CategoryPartitionIdentifier c p) = Inr (namespace @ ''.'' @ c)"
| "lock_name CATEGORY namespace _ = Inl (AttributeError ''category'')"
| "lock_name STREAM namespace (StreamIdentifier c s) = Inr (namespace @ ''.'' @ c @ ''.'' @ s)"
| "lock_name STREAM namespace (CategoryIdentifier c) = Inl (AttributeError ''stream'')"
| "lock_name STREAM namespace (CategoryPartitionIdentifier c p) = Inl (AttributeError ''stream'')"
| "lock_name STREAM namespace _ = Inl (AttributeError ''category'')"

type_synonym 'o raw_event = "('o pyval, 'o pyval) new_event"

type_synonym 'o raw_stored = "('o pyval, 'o pyval) stored_event"

record ('o, 'w) publish_definition =
  pd_events :: "'o raw_event list"
  pd_condition :: "'w condition option"

definition stream_publish_definition ::
  "'o raw_event list \<Rightarrow> 'w condition option \<Rightarrow> ('o, 'w) publish_definition" where
  "stream_publish_definition events condition = \<lparr>pd_events = events, pd_condition = condition\<rparr>"

record 'o save_env =
  env_json :: "'o ser_methods"
  env_str :: "'o \<Rightarrow> (('o pyval \<Rightarrow> string res) \<Rightarrow> string res) option"
  env_uuid :: "int \<Rightarrow> string"

record ('o, 'w) memory_adapter =
  ad_db :: "'o events_db"
  ad_sequence :: int
  ad_guarantee :: serialisation_guarantee
  ad_conditions :: "('o, 'w) condition_registry"

definition new_memory_adapter :: "serialisation_guarantee \<Rightarrow> ('o, 'w) memory_adapter" where
  "new_memory_adapter g = \<lparr>ad_db = empty_db, ad_sequence = 0, ad_guarantee = g,
     ad_conditions = default_condition_converter\<rparr>"

definition determine_required_locks ::
  "serialisation_guarantee \<Rightarrow> string \<Rightarrow> string list \<Rightarrow> string list res" where
  "determine_required_locks g category streams =
     (case g of
        STREAM \<Rightarrow> res_map (\<lambda>s. lock_name g ''memory'' (StreamIdentifier category s))
                    (sorted_by (\<lambda>s. s) streams)
      | _ \<Rightarrow> res_bind (lock_name g ''memory'' (CategoryIdentifier category)) (\<lambda>l. Inr [l]))"

subsection \<open>Saving\<close>

definition make_stored_event ::
  "'o save_env \<Rightarrow> string \<Rightarrow> string \<Rightarrow> int \<Rightarrow> int \<Rightarrow> 'o raw_event \<Rightarrow> 'o raw_stored" where
  "make_stored_event env category stream position seq e =
     \<lparr>se_id = env_uuid env seq, se_name = ne_name e, se_stream = stream, se_category = category,
      se_position = position, se_sequence_number = seq, se_payload = ne_payload e,
      se_observed_at = ne_observed_at e, se_occurred_at = ne_occurred_at e\<rparr>"

definition serialise_stored :: "'o save_env \<Rightarrow> 'o raw_stored \<Rightarrow> 'o event res" where
  "serialise_stored env e =
     res_bind (serialise_to_string (env_str env) (se_name e) raising_string_fallback) (\<lambda>name.
     res_bind (serialise_to_json_value (env_json env) (se_payload e)
        raising_serialisation_fallback) (\<lambda>payload.
     Inr \<lparr>se_id = se_id e, se_name = name, se_stream = se_stream e, se_category = se_category e,
          se_position = se_position e, se_sequence_number = se_sequence_number e,
          se_payload = payload, se_observed_at = se_observed_at e,
          se_occurred_at = se_occurred_at e\<rparr>))"

text \<open>
  One iteration of the loop over new events: it draws a sequence number, builds the event and
  serialises it, which may raise after the number was drawn.
\<close>

definition store_event ::
  "'o save_env \<Rightarrow> string \<Rightarrow> string \<Rightarrow> int \<Rightarrow> int \<Rightarrow> 'o raw_event
    \<Rightarrow> int \<times> ('o event \<times> 'o raw_stored) res" where
  "store_event env category stream position seq e =
     (let (q, seq') = sequence_next seq;
          stored = make_stored_event env category stream position q e
      in (seq', res_bind (serialise_stored env stored) (\<lambda>serialised. Inr (serialised, stored))))"

fun store_events ::
  "'o save_env \<Rightarrow> string \<Rightarrow> string \<Rightarrow> int \<Rightarrow> int \<Rightarrow> 'o raw_event list \<Rightarrow> int
    \<Rightarrow> int \<times> ('o event list \<times> 'o raw_stored list) res" where
  "store_events env c s base cnt [] seq = (seq, Inr ([], []))"
| "store_events env c s base cnt (e # es) seq =
     (case store_event env c s (base + cnt + 1) seq e of
        (seq1, Inl err) \<Rightarrow> (seq1, Inl err)
      | (seq1, Inr (serialised, stored)) \<Rightarrow>
          (case store_events env c s base (cnt + 1) es seq1 of
             (seq2, Inl err) \<Rightarrow> (seq2, Inl err)
           | (seq2, Inr (added, news)) \<Rightarrow> (seq2, Inr (serialised # added, stored # news))))"

text \<open>
  What both save operations do for one stream: read its latest event, enforce the condition
  against it, read its last position and loop over the events.
\<close>

definition prepare_stream ::
  "'o save_env \<Rightarrow> ('o, 'w) condition_registry \<Rightarrow> 'o events_db \<Rightarrow> string \<Rightarrow> string
    \<Rightarrow> 'w condition \<Rightarrow> 'o raw_event list \<Rightarrow> int
    \<Rightarrow> int \<times> ('o event list \<times> 'o raw_stored list) res" where
  "prepare_stream env reg db c s condition events seq =
     (case db_last_stream_event db c s of
        Inl err \<Rightarrow> (seq, Inl err)
      | Inr latest \<Rightarrow>
          (case enforce_condition reg condition
                  \<lparr>ctx_identifier = StreamIdentifier c s, ctx_latest_event = latest\<rparr> of
             Inl err \<Rightarrow> (seq, Inl err)
           | Inr _ \<Rightarrow>
               (case db_last_stream_position db c s of
                  Inl err \<Rightarrow> (seq, Inl err)
                | Inr base \<Rightarrow> store_events env c s base 0 events seq)))"

definition save_to_stream ::
  "'o save_env \<Rightarrow> ('o, 'w) memory_adapter \<Rightarrow> string \<Rightarrow> string \<Rightarrow> 'o raw_event list
    \<Rightarrow> 'w condition \<Rightarrow> ('o, 'w) memory_adapter \<times> 'o raw_stored list res" where
  "save_to_stream env ad c s events condition =
     (case prepare_stream env (ad_conditions ad) (ad_db ad) c s condition events
             (ad_sequence ad) of
        (seq, Inl err) \<Rightarrow> (ad\<lparr>ad_sequence := seq\<rparr>, Inl err)
      | (seq, Inr (added, news)) \<Rightarrow>
          (case transaction_commit added (ad_db ad) of
             Inl err \<Rightarrow> (ad\<lparr>ad_sequence := seq\<rparr>, Inl err)
           | Inr db \<Rightarrow> (ad\<lparr>ad_sequence := seq, ad_db := db\<rparr>, Inr news)))"

text \<open>The loop of \<open>_save_to_category\<close> over the sorted stream names.\<close>

fun save_streams_loop ::
  "'o save_env \<Rightarrow> ('o, 'w) condition_registry \<Rightarrow> 'o events_db \<Rightarrow> string
    \<Rightarrow> (string, ('o, 'w) publish_definition) dict \<Rightarrow> string list \<Rightarrow> int
    \<Rightarrow> int \<times> ('o event list \<times> (string, 'o raw_stored list) dict) res" where
  "save_streams_loop env reg db c streams [] seq = (seq, Inr ([], []))"
| "save_streams_loop env reg db c streams (s # names) seq =
     (case map_of streams s of
        None \<Rightarrow> (seq, Inl (KeyError s))
      | Some request \<Rightarrow>
          (case prepare_stream env reg db c s
                  (case pd_condition request of None \<Rightarrow> NoCondition | Some cond \<Rightarrow> cond)
                  (pd_events request) seq of
             (seq1, Inl err) \<Rightarrow> (seq1, Inl err)
           | (seq1, Inr (added, news)) \<Rightarrow>
               (case save_streams_loop env reg db c streams names seq1 of
                  (seq2, Inl err) \<Rightarrow> (seq2, Inl err)
                | (seq2, Inr (added', results)) \<Rightarrow>
                    (seq2, Inr (added @ added', (s, news) # results)))))"

definition save_to_category ::
  "'o save_env \<Rightarrow> ('o, 'w) memory_adapter \<Rightarrow> string
    \<Rightarrow> (string, ('o, 'w) publish_definition) dict
    \<Rightarrow> ('o, 'w) memory_adapter \<times> (string, 'o raw_stored list) dict res" where
  "save_to_category env ad c streams =
     (case save_streams_loop env (ad_conditions ad) (ad_db ad) c streams
             (sorted_by (\<lambda>s. s) (dict_keys streams)) (ad_sequence ad) of
        (seq, Inl err) \<Rightarrow> (ad\<lparr>ad_sequence := seq\<rparr>, Inl err)
      | (seq, Inr (added, results)) \<Rightarrow>
          (case transaction_commit added (ad_db ad) of
             Inl err \<Rightarrow> (ad\<lparr>ad_sequence := seq\<rparr>, Inl err)
           | Inr db \<Rightarrow> (ad\<lparr>ad_sequence := seq, ad_db := db\<rparr>, Inr results)))"

datatype 'o save_result =
    StreamSaved "'o raw_stored list"
  | CategorySaved "(string, 'o raw_stored list) dict"

definition save ::
  "'o save_env \<Rightarrow> ('o, 'w) memory_adapter \<Rightarrow> event_source_identifier
    \<Rightarrow> 'o raw_event list option \<Rightarrow> 'w condition
    \<Rightarrow> (string, ('o, 'w) publish_definition) dict option
    \<Rightarrow> ('o, 'w) memory_adapter \<times> 'o save_result res" where
  "save env ad target events condition streams =
     (case target of
        StreamIdentifier c s \<Rightarrow>
          (case events of
             None \<Rightarrow> (ad, Inl (ValueError
               ''The `events` parameter must be provided for stream level publish.''))
           | Some es \<Rightarrow>
               (let (ad', r) = save_to_stream env ad c s es condition
                in (ad', res_bind r (\<lambda>x. Inr (StreamSaved x)))))
      | CategoryIdentifier c \<Rightarrow>
          (case streams of
             None \<Rightarrow> (ad, Inl (ValueError
               ''The `streams` parameter must be provided for category level publish.''))
           | Some ss \<Rightarrow>
               (let (ad', r) = save_to_category env ad c ss
                in (ad', res_bind r (\<lambda>x. Inr (CategorySaved x)))))
      | _ \<Rightarrow> (ad, Inl (ValueError ''Unsupported target type'')))"

subsection \<open>Reading\<close>

text \<open>Both reads work on a snapshot, so they see the state at one instant.\<close>

definition adapter_latest ::
  "('o, 'w) memory_adapter \<Rightarrow> event_source_identifier \<Rightarrow> 'o event option res" where
  "adapter_latest ad target = db_last_event (ad_db ad) target"

definition adapter_scan ::
  "('o, 'w) memory_adapter \<Rightarrow> event_source_identifier \<Rightarrow> 'q query_constraint list
    \<Rightarrow> 'o event gen" where
  "adapter_scan ad target constraints =
     db_scan_events default_constraint_converter (ad_db ad) target constraints"

subsection \<open>The invariant of the adapter\<close>

text \<open>In every stream the positions are \<open>0, 1, 2, \<dots>\<close> without gap or repetition.\<close>

definition positions_ok :: "('n, 'p) stored_event list \<Rightarrow> bool" where
  "positions_ok es \<longleftrightarrow>
     (\<forall>c s. map se_position (stream_of c s es) = [0..int (length (stream_of c s es)) - 1])"

text \<open>\<open>new\<close> continues every stream of \<open>old\<close> where it ends.\<close>

definition extends :: "('n, 'p) stored_event list \<Rightarrow> ('n, 'p) stored_event list \<Rightarrow> bool" where
  "extends old new \<longleftrightarrow>
     (\<forall>c s. map se_position (stream_of c s new)
        = [int (length (stream_of c s old))
           ..int (length (stream_of c s old)) + int (length (stream_of c s new)) - 1])"

definition adapter_inv :: "('o, 'w) memory_adapter \<Rightarrow> bool" where
  "adapter_inv ad \<longleftrightarrow>
     db_wf (ad_db ad) \<and> 0 \<le> ad_sequence ad \<and>
     (\<forall>i \<in> set (db_log_index (ad_db ad)). i < ad_sequence ad) \<and>
     sorted_wrt (<) (db_log_index (ad_db ad)) \<and>
     positions_ok (db_log (ad_db ad))"

lemma upto_append: "a \<le> b \<Longrightarrow> b \<le> c + 1 \<Longrightarrow> [a..b - 1] @ [b..c] = [a..(c::int)]"
proof (cases "b \<le> c")
  case False
  moreover assume "b \<le> c + 1"
  ultimately have "b - 1 = c" by simp
  then show ?thesis using False by simp
qed (simp add: upto_split1 [of a b c])

lemma positions_ok_Nil [simp]: "positions_ok []"
  by (simp add: positions_ok_def)

lemma positions_ok_append:
  assumes "positions_ok old" and "extends old new"
  shows "positions_ok (old @ new)"
  unfolding positions_ok_def
proof (intro allI)
  fix c s
  let ?o = "stream_of c s old" and ?n = "stream_of c s new"
  have "map se_position (?o @ ?n)
      = [0..int (length ?o) - 1] @ [int (length ?o)..int (length ?o) + int (length ?n) - 1]"
    using assms unfolding positions_ok_def extends_def map_append by metis
  also have "\<dots> = [0..int (length ?o) + int (length ?n) - 1]"
    by (rule upto_append) auto
  finally show "map se_position (stream_of c s (old @ new))
      = [0..int (length (stream_of c s (old @ new))) - 1]"
    by simp
qed

lemma last_position:
  assumes "positions_ok es"
  shows "(case last_option (stream_of c s es) of None \<Rightarrow> -1 | Some e \<Rightarrow> se_position e)
    = int (length (stream_of c s es)) - 1"
proof (cases "stream_of c s es" rule: rev_cases)
  case (snoc ys y)
  have "map se_position (stream_of c s es) = [0..int (length (stream_of c s es)) - 1]"
    using assms unfolding positions_ok_def by blast
  then have "last (map se_position (ys @ [y])) = last [0..int (length (ys @ [y])) - 1]"
    unfolding snoc by (rule arg_cong)
  also have "\<dots> = int (length ys)" by (simp add: upto_rec2)
  finally show ?thesis unfolding snoc by simp
qed simp

subsection \<open>The loop over new events against a reference\<close>

text \<open>The events a save should append: the \<open>i\<close>-th at position \<open>start + i\<close> and number \<open>seq + i\<close>.\<close>

fun spec_events ::
  "'o save_env \<Rightarrow> string \<Rightarrow> string \<Rightarrow> int \<Rightarrow> int \<Rightarrow> 'o raw_event list \<Rightarrow> 'o event list res" where
  "spec_events env c s start seq es =
     res_map (\<lambda>(i, e). serialise_stored env
         (make_stored_event env c s (start + int i) (seq + int i) e)) (enumerate 0 es)"

definition returned_events ::
  "'o save_env \<Rightarrow> string \<Rightarrow> string \<Rightarrow> int \<Rightarrow> int \<Rightarrow> 'o raw_event list \<Rightarrow> 'o raw_stored list" where
  "returned_events env c s start seq es =
     map (\<lambda>(i, e). make_stored_event env c s (start + int i) (seq + int i) e) (enumerate 0 es)"

declare spec_events.simps [simp del]

lemma enumerate_shift: "enumerate (Suc n) xs = map (\<lambda>(i, x). (Suc i, x)) (enumerate n xs)"
  by (induction xs arbitrary: n) auto

lemma res_map_map: "res_map f (map g xs) = res_map (\<lambda>x. f (g x)) xs"
  by (induction xs) auto

lemma spec_events_simps [simp]:
  "spec_events env c s start seq [] = Inr []"
  "spec_events env c s start seq (e # es) =
     res_bind (serialise_stored env (make_stored_event env c s start seq e)) (\<lambda>x.
     res_bind (spec_events env c s (start + 1) (seq + 1) es) (\<lambda>xs. Inr (x # xs)))"
  by (simp_all add: spec_events.simps enumerate_shift [of 0] res_map_map case_prod_unfold
      algebra_simps)

lemma returned_events_simps [simp]:
  "returned_events env c s start seq [] = []"
  "returned_events env c s start seq (e # es) =
     make_stored_event env c s start seq e # returned_events env c s (start + 1) (seq + 1) es"
  by (simp_all add: returned_events_def enumerate_shift [of 0] case_prod_unfold algebra_simps)

lemma store_events_refines:
  "snd (store_events env c s base cnt es seq) =
     res_bind (spec_events env c s (base + cnt + 1) seq es)
       (\<lambda>added. Inr (added, returned_events env c s (base + cnt + 1) seq es))"
proof (induction es arbitrary: cnt seq)
  case (Cons e es)
  let ?r = "serialise_stored env (make_stored_event env c s (base + cnt + 1) seq e)"
  show ?case
  proof (cases ?r)
    case (Inl err)
    then show ?thesis by (simp add: store_event_def sequence_next_def)
  next
    case (Inr x)
    let ?spec = "spec_events env c s (base + cnt + 1 + 1) (seq + 1) es"
    obtain seq2 r2 where st: "store_events env c s base (cnt + 1) es (seq + 1) = (seq2, r2)"
      by fastforce
    have "base + (cnt + 1) + 1 = base + cnt + 1 + 1" by simp
    with Cons.IH [of "cnt + 1" "seq + 1"] st have r2: "r2 = res_bind ?spec
        (\<lambda>added. Inr (added, returned_events env c s (base + cnt + 1 + 1) (seq + 1) es))"
      by simp
    show ?thesis
      using Inr st r2 by (cases ?spec) (simp_all add: store_event_def sequence_next_def)
  qed
qed simp

lemma store_events_sequence:
  "store_events env c s base cnt es seq = (seq', r) \<Longrightarrow>
     seq \<le> seq' \<and> (is_ok r \<longrightarrow> seq' = seq + int (length es))"
proof (induction es arbitrary: cnt seq seq' r)
  case (Cons e es)
  obtain seq2 r2 where st: "store_events env c s base (cnt + 1) es (seq + 1) = (seq2, r2)"
    by fastforce
  note IH = Cons.IH [OF st]
  show ?case
    using Cons.prems st IH
    by (cases "serialise_stored env (make_stored_event env c s (base + cnt + 1) seq e)"; cases r2)
      (auto simp: store_event_def sequence_next_def)
qed simp

lemma serialise_stored_fields:
  assumes "serialise_stored env e = Inr x"
  shows "se_position x = se_position e" and "se_sequence_number x = se_sequence_number e"
    and "se_category x = se_category e" and "se_stream x = se_stream e" and "se_id x = se_id e"
  using assms by (auto simp: serialise_stored_def)

lemma spec_events_all_fields:
  "spec_events env c s start seq es = Inr added \<Longrightarrow>
     map se_position added = [start..start + int (length es) - 1] \<and>
     map se_sequence_number added = [seq..seq + int (length es) - 1] \<and>
     list_all (selects (StreamIdentifier c s)) added \<and> length added = length es"
proof (induction es arbitrary: start seq added)
  case (Cons e es)
  then obtain x xs where x: "serialise_stored env (make_stored_event env c s start seq e) = Inr x"
    and xs: "spec_events env c s (start + 1) (seq + 1) es = Inr xs" "added = x # xs" by auto
  show ?case using Cons.IH [OF xs(1)] serialise_stored_fields [OF x]
    by (simp add: xs(2) make_stored_event_def upto_rec1 algebra_simps)
qed simp

lemma spec_events_fields:
  assumes "spec_events env c s start seq es = Inr added"
  shows "map se_position added = [start..start + int (length es) - 1]"
    and "map se_sequence_number added = [seq..seq + int (length es) - 1]"
    and "stream_of c s added = added" and "length added = length es"
    and "c' \<noteq> c \<or> s' \<noteq> s \<Longrightarrow> stream_of c' s' added = []"
  using spec_events_all_fields [OF assms]
  by (auto simp: list_all_iff filter_id_conv filter_empty_conv)

subsection \<open>Saving to a stream\<close>

abbreviation stream_length :: "('o, 'w) memory_adapter \<Rightarrow> string \<Rightarrow> string \<Rightarrow> int" where
  "stream_length ad c s \<equiv> int (length (stream_of c s (db_log (ad_db ad))))"

abbreviation stream_latest :: "('o, 'w) memory_adapter \<Rightarrow> string \<Rightarrow> string \<Rightarrow> 'o event option" where
  "stream_latest ad c s \<equiv> last_option (stream_of c s (db_log (ad_db ad)))"

lemma extends_stream:
  assumes "spec_events env c s (int (length (stream_of c s old))) seq es = Inr added"
  shows "extends old added"
  unfolding extends_def
proof (intro allI)
  fix c' s'
  note f = spec_events_fields [OF assms]
  show "map se_position (stream_of c' s' added)
      = [int (length (stream_of c' s' old))
         ..int (length (stream_of c' s' old)) + int (length (stream_of c' s' added)) - 1]"
  proof (cases "c' = c \<and> s' = s")
    case True
    then show ?thesis using f(1,3,4) by simp
  next
    case False
    then have "stream_of c' s' added = []" using f(5) by blast
    then show ?thesis by simp
  qed
qed

lemma prepare_stream_refines:
  assumes "db_wf db" and "positions_ok (db_log db)" and "built_in_condition condition"
    and "prepare_stream env default_condition_converter db c s condition events seq = (seq', r)"
  shows "seq \<le> seq'" and "is_ok r \<Longrightarrow> seq' = seq + int (length events)"
    and "\<not> condition_holds condition (last_option (stream_of c s (db_log db))) \<Longrightarrow>
           seq' = seq \<and> (\<exists>m. r = Inl (UnmetWriteConditionError m))"
    and "condition_holds condition (last_option (stream_of c s (db_log db))) \<Longrightarrow>
           r = res_bind (spec_events env c s (int (length (stream_of c s (db_log db)))) seq events)
             (\<lambda>added. Inr (added,
                returned_events env c s (int (length (stream_of c s (db_log db)))) seq events))"
proof -
  let ?latest = "last_option (stream_of c s (db_log db))"
  let ?ctx = "\<lparr>ctx_identifier = StreamIdentifier c s, ctx_latest_event = ?latest\<rparr>"
  let ?base = "int (length (stream_of c s (db_log db))) - 1"
  note prep = assms(4) [unfolded prepare_stream_def db_last_stream_event_refines [OF assms(1)]
      db_last_stream_position_refines [OF assms(1)] last_position [OF assms(2)] sum.case]
  have "(seq \<le> seq') \<and> (is_ok r \<longrightarrow> seq' = seq + int (length events)) \<and>
      (\<not> condition_holds condition ?latest \<longrightarrow>
         seq' = seq \<and> (\<exists>m. r = Inl (UnmetWriteConditionError m))) \<and>
      (condition_holds condition ?latest \<longrightarrow>
         r = snd (store_events env c s ?base 0 events seq))"
    using assms(3)
  proof (cases rule: enforce_built_in_cases [where ctx = ?ctx])
    case met
    with prep have "store_events env c s ?base 0 events seq = (seq', r)"
      by (simp del: selects.simps)
    with met show ?thesis using store_events_sequence by fastforce
  next
    case (unmet m)
    with prep show ?thesis by (auto simp del: selects.simps)
  qed
  then show "seq \<le> seq'" and "is_ok r \<Longrightarrow> seq' = seq + int (length events)"
    and "\<not> condition_holds condition ?latest \<Longrightarrow>
           seq' = seq \<and> (\<exists>m. r = Inl (UnmetWriteConditionError m))"
    and "condition_holds condition ?latest \<Longrightarrow>
           r = res_bind (spec_events env c s (int (length (stream_of c s (db_log db)))) seq events)
             (\<lambda>added. Inr (added,
                returned_events env c s (int (length (stream_of c s (db_log db)))) seq events))"
    by (auto simp: store_events_refines)
qed

lemma commit_keeps_inv:
  assumes "adapter_inv ad" and "ad_sequence ad \<le> seq'"
    and "\<forall>e \<in> set added. ad_sequence ad \<le> se_sequence_number e \<and> se_sequence_number e < seq'"
    and "sorted_wrt (<) (map se_sequence_number added)"
    and "extends (db_log (ad_db ad)) added"
  shows "\<exists>db. transaction_commit added (ad_db ad) = Inr db \<and>
     db_log db = db_log (ad_db ad) @ added \<and>
     adapter_inv (ad\<lparr>ad_sequence := seq', ad_db := db\<rparr>)"
proof -
  have "distinct (map se_sequence_number added)"
    using assms(4) by (simp add: strict_sorted_iff)
  moreover have "set (map se_sequence_number added) \<inter> set (db_log_index (ad_db ad)) = {}"
    using assms(1,3) by (fastforce simp: adapter_inv_def)
  moreover have "list_all (\<lambda>e. 0 \<le> se_sequence_number e) added"
    using assms(1,3) by (fastforce simp: adapter_inv_def list_all_iff)
  ultimately obtain db where db: "transaction_commit added (ad_db ad) = Inr db" "db_wf db"
      "db_log db = db_log (ad_db ad) @ added"
      "db_log_index db = db_log_index (ad_db ad) @ map se_sequence_number added"
    using transaction_commit_refines [of "ad_db ad" added] assms(1)
    by (auto simp: adapter_inv_def)
  have "adapter_inv (ad\<lparr>ad_sequence := seq', ad_db := db\<rparr>)"
    using assms db by (fastforce simp: adapter_inv_def sorted_wrt_append positions_ok_append)
  with db show ?thesis by blast
qed

lemma adapter_inv_sequence:
  "adapter_inv ad \<Longrightarrow> ad_sequence ad \<le> seq' \<Longrightarrow> adapter_inv (ad\<lparr>ad_sequence := seq'\<rparr>)"
  by (fastforce simp: adapter_inv_def)

definition serialisable :: "'o save_env \<Rightarrow> 'o raw_event \<Rightarrow> bool" where
  "serialisable env e \<longleftrightarrow>
     is_ok (serialise_to_string (env_str env) (ne_name e) raising_string_fallback) \<and>
     is_ok (serialise_to_json_value (env_json env) (ne_payload e) raising_serialisation_fallback)"

lemma spec_events_ok: "is_ok (spec_events env c s start seq es) \<longleftrightarrow> list_all (serialisable env) es"
proof (induction es arbitrary: start seq)
  case (Cons e es)
  have "is_ok (serialise_stored env (make_stored_event env c s start seq e)) \<longleftrightarrow> serialisable env e"
    by (auto simp: serialise_stored_def serialisable_def make_stored_event_def is_ok_iff)
  then show ?case using Cons.IH [of "start + 1" "seq + 1"] by (auto simp: is_ok_iff)
qed simp

lemma save_to_stream_cases:
  assumes inv: "adapter_inv ad" and reg: "ad_conditions ad = default_condition_converter"
    and cond: "built_in_condition condition"
    and save: "save_to_stream env ad c s events condition = (ad', r)"
  shows "adapter_inv ad' \<and>
    (if condition_holds condition (stream_latest ad c s)
     then (case spec_events env c s (stream_length ad c s) (ad_sequence ad) events of
             Inl err \<Rightarrow> r = Inl err \<and> ad_db ad' = ad_db ad
           | Inr added \<Rightarrow>
               r = Inr (returned_events env c s (stream_length ad c s) (ad_sequence ad) events) \<and>
               db_log (ad_db ad') = db_log (ad_db ad) @ added)
     else ad' = ad \<and> (\<exists>m. r = Inl (UnmetWriteConditionError m)))"
proof -
  let ?log = "db_log (ad_db ad)"
  let ?spec = "spec_events env c s (stream_length ad c s) (ad_sequence ad) events"
  let ?ret = "returned_events env c s (stream_length ad c s) (ad_sequence ad) events"
  obtain seq pr where prep: "prepare_stream env default_condition_converter (ad_db ad) c s
      condition events (ad_sequence ad) = (seq, pr)"
    by fastforce
  have wf: "db_wf (ad_db ad)" "positions_ok ?log" using inv by (simp_all add: adapter_inv_def)
  note P = prepare_stream_refines [OF wf cond prep]
  note seq_inv = adapter_inv_sequence [OF inv P(1)]
  show ?thesis
  proof (cases "condition_holds condition (stream_latest ad c s)")
    case False
    with P(3) obtain m where "seq = ad_sequence ad" "pr = Inl (UnmetWriteConditionError m)"
      by blast
    with save prep reg inv False show ?thesis by (auto simp: save_to_stream_def)
  next
    case True
    note pr = P(4) [OF True]
    show ?thesis
    proof (cases ?spec)
      case (Inl err)
      with pr save prep reg True seq_inv show ?thesis
        by (auto simp: save_to_stream_def simp del: selects.simps)
    next
      case (Inr added)
      note f = spec_events_fields [OF Inr]
      have seq: "seq = ad_sequence ad + int (length events)" using P(2) pr Inr by simp
      have nums: "set (map se_sequence_number added) = {ad_sequence ad..<seq}"
        unfolding f(2) seq by auto
      then have fresh: "\<forall>e \<in> set added.
          ad_sequence ad \<le> se_sequence_number e \<and> se_sequence_number e < seq"
        by (metis atLeastLessThan_iff imageI set_map)
      obtain db where db: "transaction_commit added (ad_db ad) = Inr db"
        "db_log db = ?log @ added" "adapter_inv (ad\<lparr>ad_sequence := seq, ad_db := db\<rparr>)"
        using commit_keeps_inv [OF inv P(1) fresh _ extends_stream [OF Inr]] by (auto simp: f(2))
      with pr Inr save prep reg True show ?thesis
        by (auto simp: save_to_stream_def simp del: selects.simps)
    qed
  qed
qed

text \<open>
  C1. A save to a stream does exactly one of three things. If the write condition does not hold
  of the stream's latest event it raises UnmetWriteConditionError and changes nothing at all. If
  an event's name or payload cannot be serialised it raises that error and stores nothing. Else
  it appends, at the end of the log and in one commit, one event per new event, at consecutive
  positions that continue the stream and at consecutive fresh sequence numbers, and returns the
  same events with their names and payloads as the caller gave them. In every case the
  invariant of the adapter is kept.
\<close>

theorem save_to_stream_refines:
  assumes "adapter_inv ad" and "ad_conditions ad = default_condition_converter"
    and "built_in_condition condition"
    and "save_to_stream env ad c s events condition = (ad', r)"
  shows "adapter_inv ad' \<and>
    (if condition_holds condition (stream_latest ad c s)
     then (case spec_events env c s (stream_length ad c s) (ad_sequence ad) events of
             Inl err \<Rightarrow> r = Inl err \<and> ad_db ad' = ad_db ad
           | Inr added \<Rightarrow>
               r = Inr (returned_events env c s (stream_length ad c s) (ad_sequence ad) events) \<and>
               db_log (ad_db ad') = db_log (ad_db ad) @ added)
     else ad' = ad \<and> (\<exists>m. r = Inl (UnmetWriteConditionError m)))"
  using assms by (rule save_to_stream_cases)

lemma adapter_inv_new [simp]: "adapter_inv (new_memory_adapter g)"
  by (simp add: adapter_inv_def new_memory_adapter_def) (simp add: empty_db_def)

definition sample_env :: "unit save_env" where
  "sample_env = \<lparr>env_json = (\<lambda>_. None), env_str = (\<lambda>_. None), env_uuid = (\<lambda>_. ''id'')\<rparr>"

definition sample_new_event :: "string \<Rightarrow> unit raw_event" where
  "sample_new_event name = \<lparr>ne_name = PyStr name, ne_payload = PyInt 1, ne_observed_at = 0,
     ne_occurred_at = 0\<rparr>"

theorem save_to_stream_refines_witness:
  "map se_position (db_log (ad_db (fst (save_to_stream sample_env
      (new_memory_adapter LOG :: (unit, unit) memory_adapter) ''c'' ''s''
      [sample_new_event ''created'', sample_new_event ''changed''] EmptyStreamCondition))))
   = [0, 1]"
proof -
  let ?ad = "new_memory_adapter LOG :: (unit, unit) memory_adapter"
  let ?es = "[sample_new_event ''created'', sample_new_event ''changed'']"
  obtain ad' r where sv: "save_to_stream sample_env ?ad ''c'' ''s'' ?es EmptyStreamCondition = (ad', r)"
    by fastforce
  obtain added where sp: "spec_events sample_env ''c'' ''s'' 0 0 ?es = Inr added"
    by (simp add: serialise_stored_def make_stored_event_def sample_env_def sample_new_event_def)
  have "adapter_inv ad' \<and> db_log (ad_db ad') = added"
    using save_to_stream_refines [OF adapter_inv_new _ _ sv] sp
    by (simp add: new_memory_adapter_def del: spec_events_simps)
  then show ?thesis using sv spec_events_fields(1) [OF sp] by (simp add: upto_rec1)
qed

subsection \<open>Saving to a category\<close>

definition pd_enforced :: "('o, 'w) publish_definition \<Rightarrow> 'w condition" where
  "pd_enforced request = (case pd_condition request of None \<Rightarrow> NoCondition | Some c \<Rightarrow> c)"

definition requests_built_in :: "(string, ('o, 'w) publish_definition) dict \<Rightarrow> bool" where
  "requests_built_in streams \<longleftrightarrow> list_all (\<lambda>p. built_in_condition (pd_enforced (snd p))) streams"

definition request_accepted ::
  "'o save_env \<Rightarrow> 'o event list \<Rightarrow> string \<Rightarrow> string \<Rightarrow> ('o, 'w) publish_definition \<Rightarrow> bool" where
  "request_accepted env es c s request \<longleftrightarrow>
     condition_holds (pd_enforced request) (last_option (stream_of c s es)) \<and>
     list_all (serialisable env) (pd_events request)"

lemma extends_append:
  assumes "extends old a" and "extends old b"
    and "\<And>c s. stream_of c s a = [] \<or> stream_of c s b = []"
  shows "extends old (a @ b)"
  unfolding extends_def
proof (intro allI)
  fix c s
  show "map se_position (stream_of c s (a @ b)) = [int (length (stream_of c s old))
      ..int (length (stream_of c s old)) + int (length (stream_of c s (a @ b))) - 1]"
    using assms(1,2) [unfolded extends_def, THEN spec, THEN spec, of c s] assms(3) [of c s]
    by auto
qed

definition loop_result_ok where
  "loop_result_ok env db c streams names seq seq' added results \<longleftrightarrow>
     seq \<le> seq' \<and> map se_sequence_number added = [seq..seq' - 1] \<and>
     extends (db_log db) added \<and>
     (\<forall>e \<in> set added. se_category e = c \<and> se_stream e \<in> set names) \<and>
     map fst results = names \<and>
     (\<forall>s \<in> set names. \<exists>request q. map_of streams s = Some request \<and>
        spec_events env c s (int (length (stream_of c s (db_log db)))) q (pd_events request)
          = Inr (stream_of c s added) \<and>
        map_of results s = Some (returned_events env c s
          (int (length (stream_of c s (db_log db)))) q (pd_events request)))"

lemma prepare_request:
  assumes "db_wf db" and "positions_ok (db_log db)"
    and "built_in_condition (pd_enforced request)"
    and "prepare_stream env default_condition_converter db c s (pd_enforced request)
           (pd_events request) seq = (seq', r)"
  shows "seq \<le> seq'" and "is_ok r \<longleftrightarrow> request_accepted env (db_log db) c s request"
    and "r = Inr (added, news) \<Longrightarrow>
       seq' = seq + int (length (pd_events request)) \<and>
       spec_events env c s (int (length (stream_of c s (db_log db)))) seq (pd_events request)
         = Inr added \<and>
       news = returned_events env c s (int (length (stream_of c s (db_log db)))) seq
         (pd_events request)"
proof -
  note P = prepare_stream_refines [OF assms]
  let ?ok = "condition_holds (pd_enforced request) (last_option (stream_of c s (db_log db)))"
  let ?spec = "spec_events env c s (int (length (stream_of c s (db_log db)))) seq
    (pd_events request)"
  show "seq \<le> seq'" by (rule P(1))
  show acc: "is_ok r \<longleftrightarrow> request_accepted env (db_log db) c s request"
  proof (cases ?ok)
    case True
    then have "is_ok r \<longleftrightarrow> is_ok ?spec" using P(4) by (auto simp: is_ok_iff)
    then show ?thesis using True by (simp add: request_accepted_def spec_events_ok)
  next
    case False
    then show ?thesis using P(3) by (auto simp: request_accepted_def)
  qed
  show "seq' = seq + int (length (pd_events request)) \<and> ?spec = Inr added \<and>
      news = returned_events env c s (int (length (stream_of c s (db_log db)))) seq
        (pd_events request)"
    if r: "r = Inr (added, news)"
  proof -
    have ?ok using acc r by (simp add: request_accepted_def)
    then have "res_bind ?spec (\<lambda>added. Inr (added, returned_events env c s
        (int (length (stream_of c s (db_log db)))) seq (pd_events request))) = Inr (added, news)"
      using P(4) r by simp
    then show ?thesis using P(2) r by (cases ?spec) auto
  qed
qed

lemma loop_result_step:
  assumes req: "map_of streams s = Some request" and fresh: "s \<notin> set names"
    and spec: "spec_events env c s (int (length (stream_of c s (db_log db)))) seq
          (pd_events request) = Inr added"
    and seq1: "seq1 = seq + int (length (pd_events request))"
    and rest: "loop_result_ok env db c streams names seq1 seq2 added' results"
  shows "loop_result_ok env db c streams (s # names) seq seq2 (added @ added')
    ((s, returned_events env c s (int (length (stream_of c s (db_log db)))) seq
        (pd_events request)) # results)"
proof -
  note f = spec_events_fields [OF spec]
  have other: "stream_of c s added' = []"
    using rest fresh by (auto simp: loop_result_ok_def filter_empty_conv)
  have only: "stream_of c s' added = []" if "s' \<noteq> s" for s'
    using f(5) [of c s'] that by simp
  have disj: "stream_of c' s' added = [] \<or> stream_of c' s' added' = []" for c' s'
    using f(5) [of c' s'] other by (cases "c' = c \<and> s' = s") auto
  have ext: "extends (db_log db) (added @ added')"
    using extends_append [OF extends_stream [OF spec] _ disj] rest
    by (simp add: loop_result_ok_def)
  have nums: "map se_sequence_number (added @ added') = [seq..seq2 - 1]"
    using rest f(2) upto_append [of seq seq1 "seq2 - 1"]
    by (simp add: loop_result_ok_def seq1)
  have mem: "\<forall>e \<in> set (added @ added'). se_category e = c \<and> se_stream e \<in> set (s # names)"
  proof
    fix e assume "e \<in> set (added @ added')"
    then consider "e \<in> set (stream_of c s added)" | "e \<in> set added'" using f(3) by auto
    then show "se_category e = c \<and> se_stream e \<in> set (s # names)"
      using rest by cases (auto simp: loop_result_ok_def)
  qed
  have per: "\<exists>request q. map_of streams s' = Some request \<and>
        spec_events env c s' (int (length (stream_of c s' (db_log db)))) q (pd_events request)
          = Inr (stream_of c s' (added @ added')) \<and>
        map_of ((s, returned_events env c s (int (length (stream_of c s (db_log db)))) seq
          (pd_events request0)) # results) s' = Some (returned_events env c s'
          (int (length (stream_of c s' (db_log db)))) q (pd_events request))"
    if "s' \<in> set (s # names)" and "request0 = request" for s' request0
  proof (cases "s' = s")
    case True
    then show ?thesis using req spec f(3) other that(2)
      by (intro exI [of _ request] exI [of _ seq]) (simp del: selects.simps)
  next
    case False
    with that have "s' \<in> set names" by simp
    with rest False only [OF False] show ?thesis
      by (simp add: loop_result_ok_def del: selects.simps)
  qed
  show ?thesis
    using rest ext nums mem per seq1 by (simp add: loop_result_ok_def del: selects.simps)
qed

lemma save_streams_loop_spec:
  assumes "db_wf db" and "positions_ok (db_log db)" and "distinct names"
    and "\<forall>s \<in> set names. \<exists>request. map_of streams s = Some request \<and>
           built_in_condition (pd_enforced request)"
    and "save_streams_loop env default_condition_converter db c streams names seq = (seq', r)"
  shows "seq \<le> seq' \<and>
    (is_ok r \<longleftrightarrow> (\<forall>s \<in> set names. request_accepted env (db_log db) c s (the (map_of streams s)))) \<and>
    (\<forall>added results. r = Inr (added, results) \<longrightarrow>
       loop_result_ok env db c streams names seq seq' added results)"
  using assms(3-)
proof (induction names arbitrary: seq seq' r)
  case Nil
  then show ?case by (auto simp: loop_result_ok_def extends_def)
next
  case (Cons s names)
  then obtain request where req: "map_of streams s = Some request"
    "built_in_condition (pd_enforced request)" by auto
  obtain seq1 pr where prep: "prepare_stream env default_condition_converter db c s
      (pd_enforced request) (pd_events request) seq = (seq1, pr)" by fastforce
  obtain seq2 lr where loop: "save_streams_loop env default_condition_converter db c streams
      names seq1 = (seq2, lr)" by fastforce
  note P = prepare_request [OF assms(1,2) req(2) prep]
  note IH = Cons.IH [OF _ _ loop]
  note unf = Cons.prems(3) [unfolded save_streams_loop.simps req(1) option.case
      pd_enforced_def [symmetric] prep prod.case]
  show ?case
  proof (cases pr)
    case (Inl err)
    with unf P(1,2) req(1) show ?thesis by auto
  next
    case (Inr x)
    obtain added news where x: "x = (added, news)" by fastforce
    note p3 = P(3) [OF Inr [unfolded x]]
    have IH': "seq1 \<le> seq2" "is_ok lr \<longleftrightarrow>
        (\<forall>s \<in> set names. request_accepted env (db_log db) c s (the (map_of streams s)))"
      "\<And>a res. lr = Inr (a, res) \<Longrightarrow> loop_result_ok env db c streams names seq1 seq2 a res"
      using IH Cons.prems(1,2) by auto
    show ?thesis
    proof (cases lr)
      case (Inl err)
      with unf \<open>pr = Inr x\<close> x loop P(1,2) IH' req(1) show ?thesis by auto
    next
      case lr: (Inr y)
      obtain added' results where y: "y = (added', results)" by fastforce
      have "loop_result_ok env db c streams (s # names) seq seq2 (added @ added')
          ((s, news) # results)"
        using loop_result_step [OF req(1) _ conjunct1 [OF conjunct2 [OF p3]] conjunct1 [OF p3]
            IH'(3) [OF lr [unfolded y]]] Cons.prems(1) p3 by simp
      with unf \<open>pr = Inr x\<close> x loop lr y P(1,2) IH'(1,2) req(1) show ?thesis by auto
    qed
  qed
qed

lemma save_to_category_cases:
  assumes inv: "adapter_inv ad" and reg: "ad_conditions ad = default_condition_converter"
    and streams: "wf_dict streams" "requests_built_in streams"
    and save: "save_to_category env ad c streams = (ad', r)"
  shows "adapter_inv ad'" and "\<not> is_ok r \<Longrightarrow> ad_db ad' = ad_db ad"
    and "is_ok r \<longleftrightarrow> (\<forall>(s, request) \<in> set streams.
           request_accepted env (db_log (ad_db ad)) c s request)"
    and "r = Inr results \<Longrightarrow> \<exists>added. db_log (ad_db ad') = db_log (ad_db ad) @ added \<and>
      loop_result_ok env (ad_db ad) c streams (sorted_by (\<lambda>s. s) (dict_keys streams))
        (ad_sequence ad) (ad_sequence ad') added results"
proof -
  let ?names = "sorted_by (\<lambda>s. s) (dict_keys streams)"
  obtain seq lr where loop: "save_streams_loop env default_condition_converter (ad_db ad) c
      streams ?names (ad_sequence ad) = (seq, lr)" by fastforce
  have wf: "db_wf (ad_db ad)" "positions_ok (db_log (ad_db ad))"
    using inv by (simp_all add: adapter_inv_def)
  have dist: "distinct ?names" using streams(1) by (simp add: wf_dict_def)
  have mem: "map_of streams s = Some request \<longleftrightarrow> (s, request) \<in> set streams" for s request
    using streams(1) by (simp add: wf_dict_def dict_keys_def map_of_eq_Some_iff)
  have reqs: "\<forall>s \<in> set ?names. \<exists>request. map_of streams s = Some request \<and>
      built_in_condition (pd_enforced request)"
    using streams(2) by (fastforce simp: mem dict_keys_def requests_built_in_def list_all_iff)
  note L = save_streams_loop_spec [OF wf dist reqs loop]
  have acc: "is_ok lr \<longleftrightarrow> (\<forall>(s, request) \<in> set streams.
      request_accepted env (db_log (ad_db ad)) c s request)"
  proof -
    have "(\<forall>s \<in> set ?names. request_accepted env (db_log (ad_db ad)) c s (the (map_of streams s)))
      \<longleftrightarrow> (\<forall>(s, request) \<in> set streams. request_accepted env (db_log (ad_db ad)) c s request)"
    proof -
      have "map_of streams (fst p) = Some (snd p)" if "p \<in> set streams" for p
        using that mem by simp
      then show ?thesis by (simp add: dict_keys_def case_prod_unfold)
    qed
    then show ?thesis using L by simp
  qed
  note seq_inv = adapter_inv_sequence [OF inv conjunct1 [OF L]]
  have "adapter_inv ad' \<and> (\<not> is_ok r \<longrightarrow> ad_db ad' = ad_db ad) \<and> (is_ok r \<longleftrightarrow> is_ok lr) \<and>
    (\<forall>results. r = Inr results \<longrightarrow> (\<exists>added. db_log (ad_db ad') = db_log (ad_db ad) @ added \<and>
      loop_result_ok env (ad_db ad) c streams ?names (ad_sequence ad) (ad_sequence ad')
        added results))"
  proof (cases lr)
    case (Inl err)
    with save loop reg seq_inv show ?thesis by (auto simp: save_to_category_def)
  next
    case (Inr x)
    obtain added res where x: "x = (added, res)" by fastforce
    have ok: "loop_result_ok env (ad_db ad) c streams ?names (ad_sequence ad) seq added res"
      using L Inr x by blast
    then have nums: "map se_sequence_number added = [ad_sequence ad..seq - 1]"
      and ext: "extends (db_log (ad_db ad)) added" by (simp_all add: loop_result_ok_def)
    have "set (map se_sequence_number added) = {ad_sequence ad..<seq}" unfolding nums by auto
    then have fresh: "\<forall>e \<in> set added.
        ad_sequence ad \<le> se_sequence_number e \<and> se_sequence_number e < seq"
      by (metis atLeastLessThan_iff imageI set_map)
    obtain db where "transaction_commit added (ad_db ad) = Inr db"
      "db_log db = db_log (ad_db ad) @ added" "adapter_inv (ad\<lparr>ad_sequence := seq, ad_db := db\<rparr>)"
      using commit_keeps_inv [OF inv conjunct1 [OF L] fresh _ ext] by (auto simp: nums)
    with save loop reg Inr x ok show ?thesis by (auto simp: save_to_category_def)
  qed
  with acc show "adapter_inv ad'" and "\<not> is_ok r \<Longrightarrow> ad_db ad' = ad_db ad"
    and "is_ok r \<longleftrightarrow> (\<forall>(s, request) \<in> set streams.
           request_accepted env (db_log (ad_db ad)) c s request)"
    and "r = Inr results \<Longrightarrow> \<exists>added. db_log (ad_db ad') = db_log (ad_db ad) @ added \<and>
      loop_result_ok env (ad_db ad) c streams ?names (ad_sequence ad) (ad_sequence ad')
        added results"
    by auto
qed

text \<open>
  C2. Publishing to several streams of a category is atomic. It succeeds exactly when every
  stream's condition holds of that stream's latest event and all its events can be serialised;
  if it raises, no stream has changed. On success every requested stream is continued by exactly
  its own events, at consecutive positions, the result lists for each stream the events stored
  in it, and every other stream is as it was.
\<close>

theorem save_to_category_atomic:
  assumes "adapter_inv ad" and "ad_conditions ad = default_condition_converter"
    and "wf_dict streams" and "requests_built_in streams"
    and "save_to_category env ad c streams = (ad', r)"
  shows "adapter_inv ad' \<and>
    (is_ok r \<longleftrightarrow> (\<forall>(s, request) \<in> set streams.
        request_accepted env (db_log (ad_db ad)) c s request)) \<and>
    (case r of
       Inl err \<Rightarrow> ad_db ad' = ad_db ad
     | Inr results \<Rightarrow>
         (\<forall>(s, request) \<in> set streams. \<exists>q added.
            spec_events env c s (stream_length ad c s) q (pd_events request) = Inr added \<and>
            stream_of c s (db_log (ad_db ad')) = stream_of c s (db_log (ad_db ad)) @ added \<and>
            map_of results s
              = Some (returned_events env c s (stream_length ad c s) q (pd_events request))) \<and>
         (\<forall>c' s'. c' \<noteq> c \<or> s' \<notin> set (dict_keys streams) \<longrightarrow>
            stream_of c' s' (db_log (ad_db ad')) = stream_of c' s' (db_log (ad_db ad))))"
proof -
  note S = save_to_category_cases [OF assms]
  show ?thesis
  proof (cases r)
    case (Inl err)
    with S(1-3) show ?thesis by simp
  next
    case (Inr results)
    then obtain added where log: "db_log (ad_db ad') = db_log (ad_db ad) @ added"
      and ok: "loop_result_ok env (ad_db ad) c streams (sorted_by (\<lambda>s. s) (dict_keys streams))
        (ad_sequence ad) (ad_sequence ad') added results"
      using S(4) by blast
    have "\<exists>q added. spec_events env c s (stream_length ad c s) q (pd_events request) = Inr added \<and>
        stream_of c s (db_log (ad_db ad')) = stream_of c s (db_log (ad_db ad)) @ added \<and>
        map_of results s
          = Some (returned_events env c s (stream_length ad c s) q (pd_events request))"
      if "(s, request) \<in> set streams" for s request
    proof -
      have "s \<in> set (dict_keys streams)" using that by (force simp: dict_keys_def)
      moreover have "map_of streams s = Some request"
        using that assms(3) by (simp add: wf_dict_def dict_keys_def)
      ultimately show ?thesis using ok unfolding log loop_result_ok_def
        by (fastforce simp del: selects.simps)
    qed
    moreover have "stream_of c' s' added = []"
      if "c' \<noteq> c \<or> s' \<notin> set (dict_keys streams)" for c' s'
      using ok that by (auto simp: loop_result_ok_def filter_empty_conv)
    ultimately show ?thesis using Inr S(1,3) by (auto simp: log simp del: selects.simps)
  qed
qed

theorem save_to_category_atomic_witness:
  "snd (save_to_category sample_env (new_memory_adapter STREAM :: (unit, unit) memory_adapter) ''c''
     [(''b'', stream_publish_definition [sample_new_event ''created''] (Some stream_is_empty)),
      (''a'', stream_publish_definition [sample_new_event ''created''] (Some (position_is (Some 3))))])
   = Inl (UnmetWriteConditionError ''unexpected stream position'') \<and>
   \<not> request_accepted sample_env [] ''c'' ''a''
      (stream_publish_definition [sample_new_event ''created''] (Some (position_is (Some 3)))
        :: (unit, unit) publish_definition)"
proof -
  let ?ad = "new_memory_adapter STREAM :: (unit, unit) memory_adapter"
  let ?bad = "stream_publish_definition [sample_new_event ''created''] (Some (position_is (Some 3)))
     :: (unit, unit) publish_definition"
  let ?ss = "[(''b'', stream_publish_definition [sample_new_event ''created'']
      (Some stream_is_empty)), (''a'', ?bad)]"
  have run: "snd (save_to_category sample_env ?ad ''c'' ?ss)
      = Inl (UnmetWriteConditionError ''unexpected stream position'')"
    by (simp add: save_to_category_def new_memory_adapter_def dict_keys_def sorted_by_def
        prepare_stream_def db_last_stream_event_def db_stream_events_def empty_db_def
        enforce_condition_def stream_publish_definition_def position_is_def stream_is_empty_def)
  obtain ad' r where sv: "save_to_category sample_env ?ad ''c'' ?ss = (ad', r)" by fastforce
  have "is_ok r \<longleftrightarrow> (\<forall>(s, request) \<in> set ?ss.
      request_accepted sample_env (db_log (ad_db ?ad)) ''c'' s request)"
    using save_to_category_atomic [OF adapter_inv_new _ _ _ sv]
    by (simp add: wf_dict_def dict_keys_def requests_built_in_def pd_enforced_def
        stream_publish_definition_def position_is_def stream_is_empty_def new_memory_adapter_def)
  moreover have "request_accepted sample_env [] ''c'' ''b'' (snd (hd ?ss))"
    by (simp add: request_accepted_def pd_enforced_def stream_publish_definition_def
        stream_is_empty_def serialisable_def sample_new_event_def)
  moreover have "db_log (ad_db ?ad) = []" by (simp add: new_memory_adapter_def)
  ultimately show ?thesis using run sv by (simp add: is_ok_def)
qed

end
