(* ===== verification/Adapter_Concurrency.thy ===== *)
theory Adapter_Concurrency
  imports Memory_Adapter
begin

section \<open>Concurrent saves\<close>

text \<open>
  The saves of \<open>store/adapters/memory/adapter.py\<close> are coroutines that suspend while they wait
  for a lock and at every \<open>asyncio.sleep(0)\<close>. Here each save is a process, cut at these
  suspension points, and any number of processes interleave over one database, one sequence
  and one table of locks (\<open>store/adapters/memory/locks.py\<close> takes several of them in order).

  \<^item> \<open>save_proc\<close> holds the local variables of a save, \<open>save_phase\<close> the point where it is
    suspended; \<open>slice\<close> runs it to its next suspension point.
  \<^item> \<open>perform\<close> is one action of the scheduler: a new save, a lock handed to a waiting save, a
    slice of a save, or the cancellation of a save.
  \<^item> The locks themselves are not part of the repository: \<open>grant\<close> says when a lock is handed
    over. \<open>lock_excludes\<close> (a lock has at most one owner) and \<open>lock_serves\<close> (a free lock for
    which somebody waits goes to somebody who waits) are what is relied on.

  The theorems hold of every reachable state: positions stay contiguous, numbers stay unique,
  what a save checked still holds when it commits, the log is ordered as the serialisation
  guarantee says, and saves never block one another for ever.
\<close>

subsection \<open>Processes\<close>

datatype 'o save_phase =
    Acquiring "string list"
  | Starting
  | Checking "'o event option"
  | Writing int int "'o raw_event list" "'o raw_stored list"
  | Finished "(string, 'o raw_stored list) dict res"

record ('o, 'w) save_proc =
  sp_category :: string
  sp_requests :: "(string, ('o, 'w) publish_definition) dict"
  sp_names :: "string list"
  sp_added :: "'o event list"
  sp_results :: "(string, 'o raw_stored list) dict"
  sp_held :: "string list"
  sp_phase :: "'o save_phase"

datatype ('o, 'w) save_request =
    SaveStream string string "'o raw_event list" "'w condition"
  | SaveCategory string "(string, ('o, 'w) publish_definition) dict"

text \<open>
  A save starts by naming its locks; a save to a stream is a save to its category with one
  request, whose lock is the lock of the stream.
\<close>

definition start_save ::
  "serialisation_guarantee \<Rightarrow> ('o, 'w) save_request \<Rightarrow> ('o, 'w) save_proc res" where
  "start_save g request =
     (case request of
        SaveStream c s events condition \<Rightarrow>
          res_bind (lock_name g ''memory'' (StreamIdentifier c s)) (\<lambda>l.
          Inr \<lparr>sp_category = c,
               sp_requests = [(s, \<lparr>pd_events = events, pd_condition = Some condition\<rparr>)],
               sp_names = [s], sp_added = [], sp_results = [], sp_held = [],
               sp_phase = Acquiring [l]\<rparr>)
      | SaveCategory c streams \<Rightarrow>
          res_bind (determine_required_locks g c (dict_keys streams)) (\<lambda>ls.
          Inr \<lparr>sp_category = c, sp_requests = streams,
               sp_names = sorted_by (\<lambda>s. s) (dict_keys streams), sp_added = [],
               sp_results = [], sp_held = [], sp_phase = Acquiring ls\<rparr>))"

text \<open>\<open>finish\<close>: the transaction ends and the locks are given back (by the caller).\<close>

definition finish ::
  "('o, 'w) save_proc \<Rightarrow> (string, 'o raw_stored list) dict res \<Rightarrow> ('o, 'w) save_proc" where
  "finish p r = p\<lparr>sp_added := [], sp_held := [], sp_phase := Finished r\<rparr>"

text \<open>The head of the loop over streams: read the next stream's latest event, or commit.\<close>

definition next_stream ::
  "'o events_db \<Rightarrow> ('o, 'w) save_proc \<Rightarrow> 'o events_db \<times> ('o, 'w) save_proc" where
  "next_stream db p =
     (case sp_names p of
        [] \<Rightarrow>
          (case transaction_commit (sp_added p) db of
             Inl err \<Rightarrow> (db, finish p (Inl err))
           | Inr db' \<Rightarrow> (db', finish p (Inr (sp_results p))))
      | s # _ \<Rightarrow>
          (case map_of (sp_requests p) s of
             None \<Rightarrow> (db, finish p (Inl (KeyError s)))
           | Some _ \<Rightarrow>
               (case db_last_stream_event db (sp_category p) s of
                  Inl err \<Rightarrow> (db, finish p (Inl err))
                | Inr latest \<Rightarrow> (db, p\<lparr>sp_phase := Checking latest\<rparr>))))"

text \<open>The loop over new events, up to the suspension at the end of its body.\<close>

definition write_next ::
  "'o save_env \<Rightarrow> 'o events_db \<Rightarrow> int \<Rightarrow> ('o, 'w) save_proc \<Rightarrow> string \<Rightarrow> int \<Rightarrow> int
    \<Rightarrow> 'o raw_event list \<Rightarrow> 'o raw_stored list
    \<Rightarrow> 'o events_db \<times> int \<times> ('o, 'w) save_proc" where
  "write_next env db seq p s base cnt rest news =
     (case rest of
        [] \<Rightarrow>
          (let (db', p') = next_stream db
                 (p\<lparr>sp_names := tl (sp_names p), sp_results := AList.update s news (sp_results p)\<rparr>)
           in (db', seq, p'))
      | e # rest' \<Rightarrow>
          (case store_event env (sp_category p) s (base + cnt + 1) seq e of
             (seq', Inl err) \<Rightarrow> (db, seq', finish p (Inl err))
           | (seq', Inr (serialised, stored)) \<Rightarrow>
               (db, seq', p\<lparr>sp_added := transaction_add serialised (sp_added p),
                            sp_phase := Writing base (cnt + 1) rest' (news @ [stored])\<rparr>)))"

definition slice ::
  "'o save_env \<Rightarrow> ('o, 'w) condition_registry \<Rightarrow> 'o events_db \<Rightarrow> int \<Rightarrow> ('o, 'w) save_proc
    \<Rightarrow> 'o events_db \<times> int \<times> ('o, 'w) save_proc" where
  "slice env reg db seq p =
     (case sp_phase p of
        Acquiring _ \<Rightarrow> (db, seq, p\<lparr>sp_phase := Starting\<rparr>)
      | Starting \<Rightarrow> (let (db', p') = next_stream db p in (db', seq, p'))
      | Checking latest \<Rightarrow>
          (case sp_names p of
             [] \<Rightarrow> (db, seq, p)
           | s # _ \<Rightarrow>
               (case map_of (sp_requests p) s of
                  None \<Rightarrow> (db, seq, finish p (Inl (KeyError s)))
                | Some request \<Rightarrow>
                    (case enforce_condition reg (pd_enforced request)
                            \<lparr>ctx_identifier = StreamIdentifier (sp_category p) s,
                             ctx_latest_event = latest\<rparr> of
                       Inl err \<Rightarrow> (db, seq, finish p (Inl err))
                     | Inr _ \<Rightarrow>
                         (case db_last_stream_position db (sp_category p) s of
                            Inl err \<Rightarrow> (db, seq, finish p (Inl err))
                          | Inr base \<Rightarrow>
                              write_next env db seq p s base 0 (pd_events request) []))))
      | Writing base cnt rest news \<Rightarrow>
          (case sp_names p of
             [] \<Rightarrow> (db, seq, p)
           | s # _ \<Rightarrow> write_next env db seq p s base cnt rest news)
      | Finished _ \<Rightarrow> (db, seq, p))"

subsection \<open>The scheduler\<close>

record ('o, 'w) save_system =
  sy_db :: "'o events_db"
  sy_seq :: int
  sy_locks :: "string \<Rightarrow> nat option"
  sy_procs :: "nat \<Rightarrow> ('o, 'w) save_proc option"

definition initial_system :: "('o, 'w) save_system" where
  "initial_system = \<lparr>sy_db = empty_db, sy_seq = 0, sy_locks = (\<lambda>_. None), sy_procs = (\<lambda>_. None)\<rparr>"

datatype ('o, 'w) action =
    Spawn nat "('o, 'w) save_request"
  | Acquire nat
  | Run nat
  | Cancel nat

type_synonym ('o, 'w) lock_grant = "('o, 'w) save_system \<Rightarrow> nat \<Rightarrow> string \<Rightarrow> bool"

definition release :: "string list \<Rightarrow> (string \<Rightarrow> nat option) \<Rightarrow> string \<Rightarrow> nat option" where
  "release ls locks l = (if l \<in> set ls then None else locks l)"

text \<open>
  A cancelled save unwinds: inside the body its locks are released and nothing is committed.
  While \<open>MultiLock.__aenter__\<close> still waits for a lock, \<open>__aexit__\<close> does not run, and the locks
  taken so far stay taken.
\<close>

definition perform ::
  "'o save_env \<Rightarrow> ('o, 'w) lock_grant \<Rightarrow> serialisation_guarantee \<Rightarrow> ('o, 'w) action
    \<Rightarrow> ('o, 'w) save_system \<Rightarrow> ('o, 'w) save_system option" where
  "perform env grant g a sy =
     (case a of
        Spawn pid request \<Rightarrow>
          (case (sy_procs sy pid, start_save g request) of
             (None, Inr p) \<Rightarrow> Some (sy\<lparr>sy_procs := (sy_procs sy)(pid \<mapsto> p)\<rparr>)
           | _ \<Rightarrow> None)
      | Acquire pid \<Rightarrow>
          (case sy_procs sy pid of
             None \<Rightarrow> None
           | Some p \<Rightarrow>
               (case sp_phase p of
                  Acquiring (l # ls) \<Rightarrow>
                    (if grant sy pid l
                     then Some (sy\<lparr>sy_locks := (sy_locks sy)(l \<mapsto> pid),
                                   sy_procs := (sy_procs sy)(pid \<mapsto>
                                     p\<lparr>sp_held := sp_held p @ [l], sp_phase := Acquiring ls\<rparr>)\<rparr>)
                     else None)
                | _ \<Rightarrow> None))
      | Run pid \<Rightarrow>
          (case sy_procs sy pid of
             None \<Rightarrow> None
           | Some p \<Rightarrow>
               (case sp_phase p of
                  Acquiring (_ # _) \<Rightarrow> None
                | Finished _ \<Rightarrow> None
                | _ \<Rightarrow>
                    (let (db', seq', p') =
                           slice env default_condition_converter (sy_db sy) (sy_seq sy) p
                     in Some \<lparr>sy_db = db', sy_seq = seq',
                              sy_locks = (case sp_phase p' of
                                 Finished _ \<Rightarrow> release (sp_held p) (sy_locks sy)
                               | _ \<Rightarrow> sy_locks sy),
                              sy_procs = (sy_procs sy)(pid \<mapsto> p')\<rparr>)))
      | Cancel pid \<Rightarrow>
          (case sy_procs sy pid of
             None \<Rightarrow> None
           | Some p \<Rightarrow>
               (case sp_phase p of
                  Acquiring [] \<Rightarrow> None
                | Acquiring (_ # _) \<Rightarrow>
                    Some (sy\<lparr>sy_procs := (sy_procs sy)(pid \<mapsto> finish p (Inl CancelledError))\<rparr>)
                | Finished _ \<Rightarrow> None
                | _ \<Rightarrow>
                    Some (sy\<lparr>sy_locks := release (sp_held p) (sy_locks sy),
                             sy_procs := (sy_procs sy)(pid \<mapsto>
                               finish p (Inl CancelledError))\<rparr>))))"

definition lock_excludes :: "('o, 'w) lock_grant \<Rightarrow> bool" where
  "lock_excludes grant \<longleftrightarrow> (\<forall>sy pid l. grant sy pid l \<longrightarrow> sy_locks sy l = None)"

definition waits_for :: "('o, 'w) save_system \<Rightarrow> nat \<Rightarrow> string \<Rightarrow> bool" where
  "waits_for sy pid l \<longleftrightarrow>
     (\<exists>p ls. sy_procs sy pid = Some p \<and> sp_phase p = Acquiring (l # ls))"

definition lock_serves :: "('o, 'w) lock_grant \<Rightarrow> bool" where
  "lock_serves grant \<longleftrightarrow>
     (\<forall>sy l. sy_locks sy l = None \<and> (\<exists>pid. waits_for sy pid l) \<longrightarrow>
        (\<exists>pid. waits_for sy pid l \<and> grant sy pid l))"

text \<open>
  Requests a caller can make: stream names are the keys of a dictionary and conditions come
  from the library.
\<close>

fun admissible :: "('o, 'w) save_request \<Rightarrow> bool" where
  "admissible (SaveStream c s events condition) = built_in_condition condition"
| "admissible (SaveCategory c streams) = (wf_dict streams \<and> requests_built_in streams)"

fun admissible_action :: "bool \<Rightarrow> ('o, 'w) action \<Rightarrow> bool" where
  "admissible_action cancels (Spawn pid request) = admissible request"
| "admissible_action cancels (Cancel pid) = cancels"
| "admissible_action cancels _ = True"

inductive reachable ::
  "'o save_env \<Rightarrow> ('o, 'w) lock_grant \<Rightarrow> serialisation_guarantee \<Rightarrow> bool
    \<Rightarrow> ('o, 'w) save_system \<Rightarrow> bool"
  for env grant g cancels where
  reachable_initial: "reachable env grant g cancels initial_system"
| reachable_step: "reachable env grant g cancels sy \<Longrightarrow> admissible_action cancels a \<Longrightarrow>
     perform env grant g a sy = Some sy' \<Longrightarrow> reachable env grant g cancels sy'"

subsection \<open>The invariant\<close>

text \<open>The lock that guards a stream under a guarantee, and the locks a save takes.\<close>

definition covering_lock :: "serialisation_guarantee \<Rightarrow> string \<Rightarrow> string \<Rightarrow> string" where
  "covering_lock g c s =
     (case g of LOG \<Rightarrow> ''memory'' | CATEGORY \<Rightarrow> ''memory'' @ ''.'' @ c
      | STREAM \<Rightarrow> ''memory'' @ ''.'' @ c @ ''.'' @ s)"

definition event_lock :: "serialisation_guarantee \<Rightarrow> ('n, 'p) stored_event \<Rightarrow> string" where
  "event_lock g e = covering_lock g (se_category e) (se_stream e)"

definition required_locks :: "serialisation_guarantee \<Rightarrow> string \<Rightarrow> string list \<Rightarrow> string list" where
  "required_locks g c ss =
     (case g of STREAM \<Rightarrow> map (covering_lock g c) (sorted_by (\<lambda>s. s) ss)
      | _ \<Rightarrow> [covering_lock g c []])"

abbreviation proc_keys :: "('o, 'w) save_proc \<Rightarrow> string list" where
  "proc_keys p \<equiv> dict_keys (sp_requests p)"

abbreviation proc_request :: "('o, 'w) save_proc \<Rightarrow> string \<Rightarrow> ('o, 'w) publish_definition" where
  "proc_request p s \<equiv> the (map_of (sp_requests p) s)"

abbreviation proc_locks :: "serialisation_guarantee \<Rightarrow> ('o, 'w) save_proc \<Rightarrow> string list" where
  "proc_locks g p \<equiv> required_locks g (sp_category p) (proc_keys p)"

text \<open>
  \<open>news\<close> are the events built for \<open>es\<close>, from position \<open>len\<close> on, and \<open>stored\<close> their serialised
  forms.
\<close>

definition written ::
  "'o save_env \<Rightarrow> string \<Rightarrow> string \<Rightarrow> int \<Rightarrow> 'o raw_event list \<Rightarrow> 'o raw_stored list
    \<Rightarrow> 'o event list \<Rightarrow> bool" where
  "written env c s len es news stored \<longleftrightarrow>
     list_all2 (\<lambda>ie r. r = make_stored_event env c s (len + int (fst ie))
         (se_sequence_number r) (snd ie)) (enumerate 0 es) news \<and>
     res_map (serialise_stored env) news = Inr stored"

definition stream_written ::
  "'o save_env \<Rightarrow> 'o event list \<Rightarrow> ('o, 'w) save_proc \<Rightarrow> string \<Rightarrow> 'o raw_event list
    \<Rightarrow> 'o raw_stored list \<Rightarrow> bool" where
  "stream_written env es p s written_events news \<longleftrightarrow>
     condition_holds (pd_enforced (proc_request p s))
       (last_option (stream_of (sp_category p) s es)) \<and>
     written env (sp_category p) s (int (length (stream_of (sp_category p) s es)))
       written_events news (stream_of (sp_category p) s (sp_added p))"

definition results_ok :: "'o save_env \<Rightarrow> 'o event list \<Rightarrow> ('o, 'w) save_proc \<Rightarrow> bool" where
  "results_ok env es p \<longleftrightarrow>
     map fst (sp_results p) @ sp_names p = sorted_by (\<lambda>s. s) (proc_keys p) \<and>
     (\<forall>(s, news) \<in> set (sp_results p).
        stream_written env es p s (pd_events (proc_request p s)) news)"

definition untouched :: "('o, 'w) save_proc \<Rightarrow> string list \<Rightarrow> bool" where
  "untouched p ss \<longleftrightarrow> (\<forall>s \<in> set ss. stream_of (sp_category p) s (sp_added p) = [])"

definition phase_ok :: "'o save_env \<Rightarrow> 'o event list \<Rightarrow> ('o, 'w) save_proc \<Rightarrow> bool" where
  "phase_ok env es p \<longleftrightarrow>
     (case sp_phase p of
        Finished _ \<Rightarrow> sp_added p = []
      | Checking latest \<Rightarrow>
          results_ok env es p \<and> untouched p (sp_names p) \<and> sp_names p \<noteq> [] \<and>
          latest = last_option (stream_of (sp_category p) (hd (sp_names p)) es)
      | Writing base cnt rest news \<Rightarrow>
          results_ok env es p \<and> untouched p (tl (sp_names p)) \<and> sp_names p \<noteq> [] \<and>
          base = int (length (stream_of (sp_category p) (hd (sp_names p)) es)) - 1 \<and>
          cnt = int (length news) \<and>
          (\<exists>before. pd_events (proc_request p (hd (sp_names p))) = before @ rest \<and>
             stream_written env es p (hd (sp_names p)) before news)
      | _ \<Rightarrow> sp_added p = [] \<and> sp_results p = [] \<and>
             sp_names p = sorted_by (\<lambda>s. s) (proc_keys p))"

definition added_ok ::
  "serialisation_guarantee \<Rightarrow> 'o event list \<Rightarrow> int \<Rightarrow> ('o, 'w) save_proc \<Rightarrow> bool" where
  "added_ok g es seq p \<longleftrightarrow>
     (\<forall>e \<in> set (sp_added p). se_category e = sp_category p \<and> se_stream e \<in> set (proc_keys p) \<and>
        0 \<le> se_sequence_number e \<and> se_sequence_number e < seq) \<and>
     sorted_wrt (<) (map se_sequence_number (sp_added p)) \<and>
     (\<forall>e \<in> set (sp_added p). \<forall>e' \<in> set es. se_sequence_number e' \<noteq> se_sequence_number e \<and>
        (event_lock g e' = event_lock g e \<longrightarrow> se_sequence_number e' < se_sequence_number e))"

definition locks_ok ::
  "serialisation_guarantee \<Rightarrow> (string \<Rightarrow> nat option) \<Rightarrow> nat \<Rightarrow> ('o, 'w) save_proc \<Rightarrow> bool" where
  "locks_ok g locks pid p \<longleftrightarrow>
     (\<forall>l \<in> set (sp_held p). locks l = Some pid) \<and>
     (case sp_phase p of
        Acquiring ls \<Rightarrow> sp_held p @ ls = proc_locks g p
      | Finished _ \<Rightarrow> sp_held p = []
      | _ \<Rightarrow> sp_held p = proc_locks g p)"

definition proc_ok ::
  "'o save_env \<Rightarrow> serialisation_guarantee \<Rightarrow> 'o event list \<Rightarrow> int \<Rightarrow> (string \<Rightarrow> nat option)
    \<Rightarrow> nat \<Rightarrow> ('o, 'w) save_proc \<Rightarrow> bool" where
  "proc_ok env g es seq locks pid p \<longleftrightarrow>
     wf_dict (sp_requests p) \<and> requests_built_in (sp_requests p) \<and>
     phase_ok env es p \<and> added_ok g es seq p \<and> locks_ok g locks pid p"

definition db_ok :: "serialisation_guarantee \<Rightarrow> 'o events_db \<Rightarrow> int \<Rightarrow> bool" where
  "db_ok g db seq \<longleftrightarrow>
     db_wf db \<and> 0 \<le> seq \<and> (\<forall>e \<in> set (db_log db). se_sequence_number e < seq) \<and>
     positions_ok (db_log db) \<and>
     (\<forall>l. sorted_wrt (<)
        (map se_sequence_number (filter (\<lambda>e. event_lock g e = l) (db_log db))))"

definition system_ok ::
  "'o save_env \<Rightarrow> serialisation_guarantee \<Rightarrow> ('o, 'w) save_system \<Rightarrow> bool" where
  "system_ok env g sy \<longleftrightarrow>
     db_ok g (sy_db sy) (sy_seq sy) \<and>
     (\<forall>pid p. sy_procs sy pid = Some p \<longrightarrow>
        proc_ok env g (db_log (sy_db sy)) (sy_seq sy) (sy_locks sy) pid p) \<and>
     (\<forall>pid pid' p p'. pid \<noteq> pid' \<and> sy_procs sy pid = Some p \<and> sy_procs sy pid' = Some p' \<longrightarrow>
        se_sequence_number ` set (sp_added p) \<inter> se_sequence_number ` set (sp_added p') = {})"

subsection \<open>Locks cover the streams\<close>

lemma set_sorted_keys [simp]: "set (sorted_by (\<lambda>s. s) ss) = set ss"
  by (simp add: sorted_by_def)

lemma covering_lock_required: "s \<in> set ss \<Longrightarrow> covering_lock g c s \<in> set (required_locks g c ss)"
  by (cases g) (auto simp: required_locks_def covering_lock_def)

lemma determine_required_locks_eq: "determine_required_locks g c ss = Inr (required_locks g c ss)"
  by (cases g) (simp_all add: determine_required_locks_def required_locks_def covering_lock_def
      res_map_all_Inr)

lemma lock_name_stream:
  "lock_name g ''memory'' (StreamIdentifier c s) = Inr (covering_lock g c s)"
  by (cases g) (simp_all add: covering_lock_def)

lemma start_save_cases:
  assumes "start_save g request = Inr p" and "admissible request"
  shows "wf_dict (sp_requests p)" and "requests_built_in (sp_requests p)"
    and "sp_names p = sorted_by (\<lambda>s. s) (proc_keys p)" and "sp_added p = []"
    and "sp_results p = []" and "sp_held p = []" and "sp_phase p = Acquiring (proc_locks g p)"
  using assms
  by (cases request; cases g; auto simp: start_save_def lock_name_stream determine_required_locks_eq
      required_locks_def covering_lock_def wf_dict_def dict_keys_def requests_built_in_def
      pd_enforced_def sorted_by_def)+

subsection \<open>What other processes do does not disturb a save\<close>

definition writing_phase :: "'o save_phase \<Rightarrow> bool" where
  "writing_phase ph = (case ph of Checking _ \<Rightarrow> True | Writing _ _ _ _ \<Rightarrow> True | _ \<Rightarrow> False)"

lemma writing_phase_holds:
  "locks_ok g locks pid p \<Longrightarrow> writing_phase (sp_phase p) \<Longrightarrow> sp_held p = proc_locks g p"
  by (auto simp: locks_ok_def writing_phase_def split: save_phase.splits)

lemma not_writing_added:
  "phase_ok env es p \<Longrightarrow> \<not> writing_phase (sp_phase p) \<Longrightarrow> sp_added p = []"
  by (auto simp: phase_ok_def writing_phase_def split: save_phase.splits)

lemma phase_ok_not_writing:
  "\<not> writing_phase (sp_phase p) \<Longrightarrow> phase_ok env es p \<longleftrightarrow> phase_ok env es' p"
  by (auto simp: phase_ok_def writing_phase_def split: save_phase.splits)

lemma phase_ok_streams:
  assumes "phase_ok env es p"
    and "\<And>s. s \<in> set (proc_keys p) \<Longrightarrow>
      stream_of (sp_category p) s es' = stream_of (sp_category p) s es"
  shows "phase_ok env es' p"
proof -
  have written: "stream_written env es' p s before news = stream_written env es p s before news"
    if "s \<in> set (proc_keys p)" for s before news
    using assms(2) [OF that] by (simp add: stream_written_def)
  have keys: "set (map fst (sp_results p)) \<union> set (sp_names p) = set (proc_keys p)"
    if "results_ok env es p"
    using that unfolding results_ok_def by (metis set_append set_sorted_keys)
  have results: "results_ok env es' p" if "results_ok env es p"
    using that keys [OF that] written unfolding results_ok_def by fastforce
  have head: "hd (sp_names p) \<in> set (proc_keys p)" if "results_ok env es p" "sp_names p \<noteq> []"
    using keys [OF that(1)] that(2) by (metis UnCI hd_in_set)
  show ?thesis
  proof (cases "sp_phase p")
    case (Checking latest)
    then show ?thesis
      using assms(1) results head assms(2) by (auto simp: phase_ok_def simp del: selects.simps)
  next
    case (Writing base cnt rest news)
    then show ?thesis
      using assms(1) results head assms(2) written
      by (auto simp: phase_ok_def simp del: selects.simps)
  qed (use assms(1) in \<open>auto simp: phase_ok_def\<close>)
qed

lemma other_proc_ok:
  assumes ok: "proc_ok env g es seq locks pid q" and "seq \<le> seq'"
    and held: "\<forall>l \<in> set (sp_held q). locks' l = Some pid"
    and apart: "\<forall>e \<in> set new. event_lock g e \<notin> set (sp_held q)"
    and fresh: "se_sequence_number ` set new \<inter> se_sequence_number ` set (sp_added q) = {}"
  shows "proc_ok env g (es @ new) seq' locks' pid q"
proof -
  have phase: "phase_ok env (es @ new) q"
  proof (cases "writing_phase (sp_phase q)")
    case True
    then have all: "sp_held q = proc_locks g q"
      using ok writing_phase_holds by (auto simp: proc_ok_def)
    have "stream_of (sp_category q) s new = []" if "s \<in> set (proc_keys q)" for s
      using apart covering_lock_required [OF that, of g "sp_category q"] all
      by (auto simp: filter_empty_conv event_lock_def)
    then show ?thesis
      using ok phase_ok_streams [of env es q "es @ new"] by (simp add: proc_ok_def)
  next
    case False
    then show ?thesis using ok phase_ok_not_writing by (auto simp: proc_ok_def)
  qed
  have added: "added_ok g (es @ new) seq' q"
  proof (cases "sp_added q = []")
    case False
    then have all: "sp_held q = proc_locks g q"
      using ok writing_phase_holds not_writing_added unfolding proc_ok_def by blast
    have "event_lock g e \<in> set (sp_held q)" if "e \<in> set (sp_added q)" for e
      using ok that covering_lock_required [of "se_stream e" "proc_keys q"] all
      by (auto simp: proc_ok_def added_ok_def event_lock_def)
    then have "event_lock g e' \<noteq> event_lock g e" if "e \<in> set (sp_added q)" "e' \<in> set new" for e e'
      using apart that by auto
    then show ?thesis
      using ok \<open>seq \<le> seq'\<close> fresh unfolding proc_ok_def added_ok_def by fastforce
  qed (use ok in \<open>auto simp: proc_ok_def added_ok_def\<close>)
  have "locks_ok g locks' pid q"
    using ok held by (auto simp: proc_ok_def locks_ok_def)
  with ok phase added show ?thesis by (simp add: proc_ok_def)
qed

subsection \<open>A slice of a save\<close>

lemma written_Nil [simp]: "written env c s len [] [] []"
  by (simp add: written_def)

lemma res_map_Inr_iff: "res_map f xs = Inr ys \<longleftrightarrow> list_all2 (\<lambda>x y. f x = Inr y) xs ys"
proof (induction xs arbitrary: ys)
  case (Cons x xs)
  show ?case
    using Cons.IH [symmetric]
    by (cases "f x"; cases "res_map f xs"; cases ys) (auto simp: res_bind_def)
qed auto

lemma res_map_snoc:
  "res_map f xs = Inr ys \<Longrightarrow> f x = Inr y \<Longrightarrow> res_map f (xs @ [x]) = Inr (ys @ [y])"
  by (simp add: res_map_Inr_iff list_all2_appendI)

lemma written_snoc:
  assumes "written env c s len es news stored"
    and "stored_e = make_stored_event env c s (len + int (length news)) q e"
    and "serialise_stored env stored_e = Inr x"
  shows "written env c s len (es @ [e]) (news @ [stored_e]) (stored @ [x])"
proof -
  have "length news = length es"
    using assms(1) by (auto simp: written_def dest: list_all2_lengthD)
  with assms show ?thesis
    by (auto simp: written_def enumerate_append_eq res_map_snoc make_stored_event_def
        intro!: list_all2_appendI)
qed

lemma written_positions:
  assumes "written env c s len es news stored"
  shows "map se_position stored = [len..len + int (length es) - 1]"
    and "length stored = length es"
proof -
  have len: "length news = length es"
    using assms by (auto simp: written_def dest: list_all2_lengthD)
  have st: "list_all2 (\<lambda>r x. serialise_stored env r = Inr x) news stored"
    using assms by (simp add: written_def res_map_Inr_iff)
  then show length: "length stored = length es" using len by (simp add: list_all2_lengthD)
  have "se_position (stored ! i) = len + int i" if "i < length es" for i
  proof -
    have "serialise_stored env (news ! i) = Inr (stored ! i)"
      using st that len by (simp add: list_all2_conv_all_nth)
    moreover have "news ! i = make_stored_event env c s (len + int i)
        (se_sequence_number (news ! i)) (es ! i)"
      using assms that by (auto simp: written_def list_all2_conv_all_nth nth_enumerate_eq)
    ultimately show ?thesis
      using serialise_stored_fields(1) by (metis make_stored_event_def stored_event.select_convs(5))
  qed
  then show "map se_position stored = [len..len + int (length es) - 1]"
    using length by (intro nth_equalityI) auto
qed

text \<open>The four ways a slice can end, and what each leaves behind.\<close>

definition same_save :: "('o, 'w) save_proc \<Rightarrow> ('o, 'w) save_proc \<Rightarrow> bool" where
  "same_save p p' \<longleftrightarrow> sp_category p' = sp_category p \<and> sp_requests p' = sp_requests p"

definition finished_with ::
  "('o, 'w) save_proc \<Rightarrow> ('o, 'w) save_proc \<Rightarrow> (string, 'o raw_stored list) dict res \<Rightarrow> bool" where
  "finished_with p p' r \<longleftrightarrow>
     same_save p p' \<and> sp_added p' = [] \<and> sp_held p' = [] \<and> sp_phase p' = Finished r"

definition working_phase :: "'o save_phase \<Rightarrow> bool" where
  "working_phase ph = (case ph of Acquiring _ \<Rightarrow> False | Finished _ \<Rightarrow> False | _ \<Rightarrow> True)"

definition all_written ::
  "'o save_env \<Rightarrow> 'o event list \<Rightarrow> ('o, 'w) save_proc \<Rightarrow> (string, 'o raw_stored list) dict \<Rightarrow> bool" where
  "all_written env es p results \<longleftrightarrow>
     map fst results = sorted_by (\<lambda>s. s) (proc_keys p) \<and>
     (\<forall>(s, news) \<in> set results. stream_written env es p s (pd_events (proc_request p s)) news)"

inductive slice_outcome ::
  "'o save_env \<Rightarrow> 'o events_db \<Rightarrow> int \<Rightarrow> ('o, 'w) save_proc
    \<Rightarrow> 'o events_db \<Rightarrow> int \<Rightarrow> ('o, 'w) save_proc \<Rightarrow> bool"
  for env db seq p where
  Moved: "same_save p p' \<Longrightarrow> sp_added p' = sp_added p \<Longrightarrow> sp_held p' = sp_held p \<Longrightarrow>
     working_phase (sp_phase p') \<Longrightarrow> phase_ok env (db_log db) p' \<Longrightarrow>
     slice_outcome env db seq p db seq p'"
| Wrote: "same_save p p' \<Longrightarrow> sp_added p' = sp_added p @ [e] \<Longrightarrow> sp_held p' = sp_held p \<Longrightarrow>
     working_phase (sp_phase p') \<Longrightarrow> phase_ok env (db_log db) p' \<Longrightarrow>
     se_sequence_number e = seq \<Longrightarrow> se_category e = sp_category p \<Longrightarrow>
     se_stream e \<in> set (proc_keys p) \<Longrightarrow> slice_outcome env db seq p db (seq + 1) p'"
| Failed: "seq \<le> seq' \<Longrightarrow> finished_with p p' (Inl err) \<Longrightarrow>
     slice_outcome env db seq p db seq' p'"
| Committed: "finished_with p p' (Inr results) \<Longrightarrow> db_wf db' \<Longrightarrow>
     db_log db' = db_log db @ sp_added p \<Longrightarrow> all_written env (db_log db) p results \<Longrightarrow>
     slice_outcome env db seq p db' seq p'"

lemma finished_with_finish [simp]: "same_save p p' \<Longrightarrow> finished_with p (finish p' r) r"
  by (simp add: finished_with_def finish_def same_save_def)

lemma same_save_simps [simp]:
  "same_save p p" "same_save p (p\<lparr>sp_phase := ph\<rparr>)" "same_save p (p\<lparr>sp_names := ns\<rparr>)"
  "same_save p (p\<lparr>sp_added := a, sp_phase := ph\<rparr>)"
  "same_save p (p\<lparr>sp_names := ns, sp_results := rs\<rparr>)"
  "same_save p (p\<lparr>sp_names := ns, sp_results := rs, sp_phase := ph\<rparr>)"
  by (simp_all add: same_save_def)

lemma added_commits:
  assumes "db_ok g db seq" and "added_ok g (db_log db) seq p"
  shows "\<exists>db'. transaction_commit (sp_added p) db = Inr db' \<and> db_wf db' \<and>
    db_log db' = db_log db @ sp_added p"
proof -
  have "distinct (map se_sequence_number (sp_added p))"
    using assms(2) by (simp add: added_ok_def strict_sorted_iff)
  moreover have "set (db_log_index db) = se_sequence_number ` set (db_log db)"
    using assms(1) db_log_index_seq by (metis db_ok_def set_map)
  moreover have "list_all (\<lambda>e. 0 \<le> se_sequence_number e) (sp_added p)"
    using assms(2) by (auto simp: added_ok_def list_all_iff)
  ultimately show ?thesis
    using transaction_commit_refines [of db "sp_added p"] assms
    by (fastforce simp: db_ok_def added_ok_def)
qed

lemma request_of_key:
  assumes "s \<in> set (proc_keys p)"
  shows "map_of (sp_requests p) s = Some (proc_request p s)"
    and "requests_built_in (sp_requests p) \<Longrightarrow> built_in_condition (pd_enforced (proc_request p s))"
proof -
  obtain r where r: "map_of (sp_requests p) s = Some r"
    using assms by (cases "map_of (sp_requests p) s") (auto simp: map_of_eq_None_iff dict_keys_def)
  then show "map_of (sp_requests p) s = Some (proc_request p s)" by simp
  assume "requests_built_in (sp_requests p)"
  with r show "built_in_condition (pd_enforced (proc_request p s))"
    by (fastforce simp: requests_built_in_def list_all_iff dest: map_of_SomeD)
qed

lemma next_stream_outcome:
  assumes db: "db_ok g db seq" and added: "added_ok g (db_log db) seq p"
    and results: "results_ok env (db_log db) p" and rest: "untouched p (sp_names p)"
    and nxt: "next_stream db p = (db', p')"
    and same: "same_save p0 p" "sp_added p = sp_added p0" "sp_held p = sp_held p0"
  shows "slice_outcome env db seq p0 db' seq p'"
proof (cases "sp_names p")
  case Nil
  obtain db1 where db1: "transaction_commit (sp_added p) db = Inr db1" "db_wf db1"
    "db_log db1 = db_log db @ sp_added p"
    using added_commits [OF db added] by blast
  have "all_written env (db_log db) p0 (sp_results p)"
    using results same Nil
    by (auto simp: all_written_def results_ok_def same_save_def stream_written_def)
  moreover have "db' = db1" "p' = finish p (Inr (sp_results p))"
    using nxt Nil db1(1) by (auto simp: next_stream_def)
  ultimately show ?thesis using Committed db1(2,3) same by (metis finished_with_finish)
next
  case (Cons s names)
  then have "s \<in> set (proc_keys p)"
    using results unfolding results_ok_def by (metis in_set_conv_decomp set_sorted_keys)
  then obtain r where "map_of (sp_requests p) s = Some r" using request_of_key by blast
  moreover have "db_wf db" using db by (simp add: db_ok_def)
  ultimately have "db' = db"
    "p' = p\<lparr>sp_phase := Checking (last_option (stream_of (sp_category p) s (db_log db)))\<rparr>"
    using nxt Cons
    by (auto simp: next_stream_def db_last_stream_event_refines simp del: selects.simps)
  moreover have "phase_ok env (db_log db) p'"
    using results rest Cons calculation(2)
    by (auto simp: phase_ok_def results_ok_def untouched_def stream_written_def
        simp del: selects.simps)
  ultimately show ?thesis
    using Moved [of p0 p' env db seq] same by (simp add: working_phase_def same_save_def)
qed

lemma write_next_outcome:
  assumes db: "db_ok g db seq" and added: "added_ok g (db_log db) seq p"
    and wf: "wf_dict (sp_requests p)"
    and results: "results_ok env (db_log db) p" and names: "sp_names p = s # names"
    and rest: "untouched p names" and cnt: "cnt = int (length news)"
    and base: "base = int (length (stream_of (sp_category p) s (db_log db))) - 1"
    and events: "pd_events (proc_request p s) = before @ after"
    and sofar: "stream_written env (db_log db) p s before news"
    and step: "write_next env db seq p s base cnt after news = (db', seq', p')"
  shows "slice_outcome env db seq p db' seq' p'"
proof -
  have "distinct (sorted_by (\<lambda>s. s) (proc_keys p))"
    using wf by (simp add: wf_dict_def sorted_by_def)
  then have "distinct (map fst (sp_results p) @ s # names)"
    using results names by (simp add: results_ok_def)
  then have new: "s \<notin> set (map fst (sp_results p))" "s \<notin> set names" by auto
  have "s \<in> set (proc_keys p)"
    using results names unfolding results_ok_def by (metis in_set_conv_decomp set_sorted_keys)
  note key = this
  show ?thesis
  proof (cases after)
    case Nil
    let ?p = "p\<lparr>sp_names := names, sp_results := sp_results p @ [(s, news)]\<rparr>"
    have upd: "AList.update s news (sp_results p) = sp_results p @ [(s, news)]"
      using new(1) by (simp add: update_fresh dict_keys_def)
    then obtain nxt: "next_stream db ?p = (db', p')" and [simp]: "seq' = seq"
      using step Nil names by (auto simp: write_next_def split: prod.splits)
    have "results_ok env (db_log db) ?p"
      using results names sofar events Nil by (auto simp: results_ok_def stream_written_def)
    moreover have "untouched ?p (sp_names ?p)" using rest by (simp add: untouched_def)
    moreover have "added_ok g (db_log db) seq ?p" using added by (simp add: added_ok_def)
    ultimately show ?thesis
      using next_stream_outcome [OF db _ _ _ nxt, of env p] by simp
  next
    case (Cons e after')
    let ?c = "sp_category p"
    let ?len = "int (length (stream_of ?c s (db_log db)))"
    let ?stored = "make_stored_event env ?c s (?len + int (length news)) seq e"
    have pos: "base + cnt + 1 = ?len + int (length news)" using base cnt by simp
    show ?thesis
    proof (cases "serialise_stored env ?stored")
      case (Inl err)
      then have "db' = db" "seq' = seq + 1" "p' = finish p (Inl err)"
        using step Cons pos
        by (auto simp: write_next_def store_event_def sequence_next_def simp del: selects.simps)
      then show ?thesis by (auto intro!: Failed [OF _ finished_with_finish])
    next
      case (Inr x)
      let ?p = "p\<lparr>sp_added := sp_added p @ [x],
        sp_phase := Writing base (cnt + 1) after' (news @ [?stored])\<rparr>"
      have eqs: "db' = db" "seq' = seq + 1" "p' = ?p"
        using step Cons pos Inr
        by (auto simp: write_next_def store_event_def sequence_next_def transaction_add_def
            simp del: selects.simps)
      note f = serialise_stored_fields [OF Inr]
      then have x: "se_category x = ?c" "se_stream x = s" "se_sequence_number x = seq"
        by (simp_all add: make_stored_event_def)
      have others: "stream_of ?c s' (sp_added p @ [x]) = stream_of ?c s' (sp_added p)"
        if "s' \<noteq> s" for s' using that x by auto
      have "written env ?c s ?len (before @ [e]) (news @ [?stored])
          (stream_of ?c s (sp_added p) @ [x])"
        using sofar Inr by (auto simp: stream_written_def intro: written_snoc)
      then have "stream_written env (db_log db) ?p s (before @ [e]) (news @ [?stored])"
        using sofar x by (simp add: stream_written_def)
      moreover have "results_ok env (db_log db) ?p"
        unfolding results_ok_def
      proof (intro conjI ballI)
        show "map fst (sp_results ?p) @ sp_names ?p = sorted_by (\<lambda>s. s) (proc_keys ?p)"
          using results by (simp add: results_ok_def)
        fix result assume "result \<in> set (sp_results ?p)"
        then have "result \<in> set (sp_results p)" by simp
        moreover obtain s' ns where "result = (s', ns)" by (cases result)
        ultimately have r: "result = (s', ns)" "(s', ns) \<in> set (sp_results p)" by auto
        then have "s' \<noteq> s" using new(1) by force
        moreover have "stream_written env (db_log db) p s' (pd_events (proc_request p s')) ns"
          using results r(2) by (auto simp: results_ok_def)
        ultimately show "case result of (s, news) \<Rightarrow>
            stream_written env (db_log db) ?p s (pd_events (proc_request ?p s)) news"
          by (simp add: r(1) stream_written_def others del: selects.simps filter_append
              filter.simps)
      qed
      moreover have "untouched ?p names"
      proof -
        have "stream_of ?c s' (sp_added p @ [x]) = []" if "s' \<in> set names" for s'
          using others [of s'] that new(2) rest unfolding untouched_def by metis
        then show ?thesis by (simp add: untouched_def del: selects.simps filter_append)
      qed
      ultimately have "phase_ok env (db_log db) ?p"
        using names base cnt events Cons
        by (auto simp: phase_ok_def simp del: selects.simps)
      then show ?thesis
        unfolding eqs using x key by (intro Wrote [where e = x]) (auto simp: working_phase_def)
    qed
  qed
qed

lemma slice_outcome_of_slice:
  assumes db: "db_ok g db seq" and ok: "proc_ok env g (db_log db) seq locks pid p"
    and phase: "\<And>l ls. sp_phase p \<noteq> Acquiring (l # ls)" "\<And>r. sp_phase p \<noteq> Finished r"
    and step: "slice env default_condition_converter db seq p = (db', seq', p')"
  shows "slice_outcome env db seq p db' seq' p'"
proof -
  have wf: "wf_dict (sp_requests p)" and built_in: "requests_built_in (sp_requests p)"
    and ph: "phase_ok env (db_log db) p" and added: "added_ok g (db_log db) seq p"
    using ok by (auto simp: proc_ok_def)
  have dbwf: "db_wf db" "positions_ok (db_log db)" using db by (auto simp: db_ok_def)
  show ?thesis
  proof (cases "sp_phase p")
    case (Acquiring ls)
    then have "phase_ok env (db_log db) (p\<lparr>sp_phase := Starting\<rparr>)"
      using ph by (simp add: phase_ok_def)
    then show ?thesis
      using step Acquiring by (auto simp: slice_def working_phase_def intro: Moved)
  next
    case Starting
    then obtain nxt: "next_stream db p = (db', p')" and [simp]: "seq' = seq"
      using step by (auto simp: slice_def split: prod.splits)
    have "results_ok env (db_log db) p" "untouched p (sp_names p)"
      using ph Starting by (auto simp: phase_ok_def results_ok_def untouched_def)
    then show ?thesis using next_stream_outcome [OF db added _ _ nxt, of env p] by simp
  next
    case (Checking latest)
    then obtain s names where names: "sp_names p = s # names"
      using ph by (cases "sp_names p") (auto simp: phase_ok_def)
    let ?here = "stream_of (sp_category p) s (db_log db)"
    let ?ctx = "\<lparr>ctx_identifier = StreamIdentifier (sp_category p) s,
        ctx_latest_event = last_option ?here\<rparr>"
    from ph Checking names have latest: "latest = last_option ?here"
      and results: "results_ok env (db_log db) p" and rest: "untouched p (s # names)"
      by (auto simp: phase_ok_def simp del: selects.simps)
    have key: "s \<in> set (proc_keys p)"
      using results names unfolding results_ok_def by (metis in_set_conv_decomp set_sorted_keys)
    obtain r where r: "map_of (sp_requests p) s = Some r" using request_of_key [OF key] by blast
    then have "built_in_condition (pd_enforced r)"
      using request_of_key(2) [OF key built_in] by simp
    then show ?thesis
    proof (cases rule: enforce_built_in_cases [where ctx = ?ctx])
      case met
      then have "write_next env db seq p s (int (length ?here) - 1) 0 (pd_events r) []
          = (db', seq', p')"
        using step Checking names r latest
        by (simp add: slice_def db_last_stream_position_refines [OF dbwf(1)]
            last_position [OF dbwf(2)] del: selects.simps)
      moreover have "stream_written env (db_log db) p s [] []"
        using met r rest by (simp add: stream_written_def untouched_def del: selects.simps)
      ultimately show ?thesis
        using write_next_outcome [OF db added wf results names] rest r
        by (fastforce simp: untouched_def simp del: selects.simps)
    next
      case (unmet m)
      then have "db' = db" "seq' = seq"
        "p' = finish p (Inl (UnmetWriteConditionError m))"
        using step Checking names r latest by (auto simp: slice_def simp del: selects.simps)
      then show ?thesis by (auto intro!: Failed [OF _ finished_with_finish])
    qed
  next
    case (Writing base cnt after news)
    then obtain s names where names: "sp_names p = s # names"
      using ph by (cases "sp_names p") (auto simp: phase_ok_def)
    with ph Writing obtain before where facts: "results_ok env (db_log db) p" "untouched p names"
      "base = int (length (stream_of (sp_category p) s (db_log db))) - 1"
      "cnt = int (length news)" "pd_events (proc_request p s) = before @ after"
      "stream_written env (db_log db) p s before news"
      by (auto simp: phase_ok_def simp del: selects.simps)
    have "write_next env db seq p s base cnt after news = (db', seq', p')"
      using step Writing names by (simp add: slice_def)
    then show ?thesis
      using write_next_outcome [OF db added wf facts(1) names facts(2,4,3,5,6)] by blast
  qed (use phase in blast)
qed

subsection \<open>Every action preserves the invariant\<close>

lemma db_ok_commit:
  assumes db: "db_ok g db seq" and ok: "proc_ok env g (db_log db) seq locks pid p"
    and wf': "db_wf db'" and log: "db_log db' = db_log db @ sp_added p"
    and written: "all_written env (db_log db) p results"
  shows "db_ok g db' seq"
proof -
  have added: "added_ok g (db_log db) seq p" using ok by (simp add: proc_ok_def)
  have "extends (db_log db) (sp_added p)"
    unfolding extends_def
  proof (intro allI)
    fix c s
    let ?old = "stream_of c s (db_log db)" and ?new = "stream_of c s (sp_added p)"
    show "map se_position ?new
        = [int (length ?old)..int (length ?old) + int (length ?new) - 1]"
    proof (cases "c = sp_category p \<and> s \<in> set (proc_keys p)")
      case True
      then have "s \<in> set (map fst results)"
        using written by (simp add: all_written_def del: set_map)
      then obtain news where "(s, news) \<in> set results" by auto
      then have "written env c s (int (length ?old)) (pd_events (proc_request p s)) news ?new"
        using written True by (auto simp: all_written_def stream_written_def)
      from written_positions [OF this] show ?thesis by simp
    next
      case False
      then have "?new = []" using added by (auto simp: added_ok_def filter_empty_conv)
      then show ?thesis by simp
    qed
  qed
  then have "positions_ok (db_log db')"
    using db log by (auto simp: db_ok_def intro: positions_ok_append)
  moreover have "sorted_wrt (<)
      (map se_sequence_number (filter (\<lambda>e. event_lock g e = l) (db_log db')))" for l
  proof -
    have "sorted_wrt (<) (map se_sequence_number (filter (\<lambda>e. event_lock g e = l) (sp_added p)))"
      using added by (auto simp: added_ok_def sorted_wrt_map intro: sorted_wrt_filter)
    then show ?thesis
      using db added by (auto simp: log db_ok_def added_ok_def sorted_wrt_append)
  qed
  moreover have "\<forall>e \<in> set (db_log db'). se_sequence_number e < seq"
    using db added by (auto simp: log db_ok_def added_ok_def)
  ultimately show ?thesis using db wf' by (simp add: db_ok_def)
qed

lemma system_ok_update:
  assumes ok: "system_ok env g sy"
    and db: "db_ok g db' seq'" and seq: "sy_seq sy \<le> seq'"
    and log: "db_log db' = db_log (sy_db sy) @ new"
    and proc: "proc_ok env g (db_log db') seq' locks' pid p'"
    and mine: "\<And>pid' q. pid' \<noteq> pid \<Longrightarrow> sy_procs sy pid' = Some q \<Longrightarrow>
       (\<forall>l \<in> set (sp_held q). locks' l = Some pid') \<and>
       (\<forall>e \<in> set new. event_lock g e \<notin> set (sp_held q)) \<and>
       se_sequence_number ` set new \<inter> se_sequence_number ` set (sp_added q) = {} \<and>
       se_sequence_number ` set (sp_added p') \<inter> se_sequence_number ` set (sp_added q) = {}"
  shows "system_ok env g \<lparr>sy_db = db', sy_seq = seq', sy_locks = locks',
     sy_procs = (sy_procs sy)(pid \<mapsto> p')\<rparr>"
proof -
  have others: "proc_ok env g (db_log db') seq' locks' pid' q"
    if "pid' \<noteq> pid" "sy_procs sy pid' = Some q" for pid' q
  proof -
    have "proc_ok env g (db_log (sy_db sy)) (sy_seq sy) (sy_locks sy) pid' q"
      using ok that by (simp add: system_ok_def)
    then show ?thesis unfolding log
      by (rule other_proc_ok [OF _ seq]) (use mine [OF that] in blast)+
  qed
  have pairs: "se_sequence_number ` set (sp_added q) \<inter> se_sequence_number ` set (sp_added q') = {}"
    if "i \<noteq> j" "((sy_procs sy)(pid \<mapsto> p')) i = Some q" "((sy_procs sy)(pid \<mapsto> p')) j = Some q'"
    for i j q q'
  proof -
    consider "i = pid" "j \<noteq> pid" | "j = pid" "i \<noteq> pid" | "i \<noteq> pid" "j \<noteq> pid"
      using \<open>i \<noteq> j\<close> by blast
    then show ?thesis
    proof cases
      case 1
      then show ?thesis using that mine [of j q'] by simp
    next
      case 2
      then show ?thesis using that mine [of i q] by (simp add: Int_commute)
    next
      case 3
      then show ?thesis using that ok by (simp add: system_ok_def)
    qed
  qed
  have all: "proc_ok env g (db_log db') seq' locks' i q"
    if "((sy_procs sy)(pid \<mapsto> p')) i = Some q" for i q
    using that proc others by (cases "i = pid") auto
  show ?thesis
    unfolding system_ok_def save_system.simps using db all pairs by blast
qed

lemma held_apart:
  assumes ok: "system_ok env g sy" and procs: "sy_procs sy pid = Some p" "sy_procs sy pid' = Some q"
    and "pid \<noteq> pid'"
  shows "set (sp_held p) \<inter> set (sp_held q) = {}"
proof -
  have "\<forall>l \<in> set (sp_held p). sy_locks sy l = Some pid"
    "\<forall>l \<in> set (sp_held q). sy_locks sy l = Some pid'"
    using ok procs by (auto simp: system_ok_def proc_ok_def locks_ok_def)
  then show ?thesis using \<open>pid \<noteq> pid'\<close> by fastforce
qed

lemma added_locks:
  assumes "proc_ok env g es seq locks pid p" and "e \<in> set (sp_added p)"
  shows "event_lock g e \<in> set (sp_held p)"
proof -
  have "writing_phase (sp_phase p)"
    using assms not_writing_added by (fastforce simp: proc_ok_def)
  then have "sp_held p = proc_locks g p"
    using assms(1) writing_phase_holds by (auto simp: proc_ok_def)
  then show ?thesis
    using assms covering_lock_required [of "se_stream e" "proc_keys p" g "sp_category p"]
    by (auto simp: proc_ok_def added_ok_def event_lock_def)
qed

lemma system_ok_run:
  assumes ok: "system_ok env g sy" and proc: "sy_procs sy pid = Some p"
    and out: "slice_outcome env (sy_db sy) (sy_seq sy) p db' seq' p'"
    and held: "sp_held p = proc_locks g p"
  shows "system_ok env g \<lparr>sy_db = db', sy_seq = seq',
     sy_locks = (case sp_phase p' of Finished _ \<Rightarrow> release (sp_held p) (sy_locks sy)
        | _ \<Rightarrow> sy_locks sy),
     sy_procs = (sy_procs sy)(pid \<mapsto> p')\<rparr>"
proof -
  let ?log = "db_log (sy_db sy)"
  have db: "db_ok g (sy_db sy) (sy_seq sy)" using ok by (simp add: system_ok_def)
  have mine: "proc_ok env g ?log (sy_seq sy) (sy_locks sy) pid p"
    using ok proc by (simp add: system_ok_def)
  have theirs: "\<forall>l \<in> set (sp_held q). sy_locks sy l = Some pid'"
      "\<forall>l \<in> set (sp_held q). release (sp_held p) (sy_locks sy) l = Some pid'"
      "\<forall>e \<in> set (sp_added p). event_lock g e \<notin> set (sp_held q)"
      "se_sequence_number ` set (sp_added p) \<inter> se_sequence_number ` set (sp_added q) = {}"
      "\<forall>e \<in> set (sp_added q). se_sequence_number e < sy_seq sy"
    if "pid' \<noteq> pid" "sy_procs sy pid' = Some q" for pid' q
  proof -
    show locks: "\<forall>l \<in> set (sp_held q). sy_locks sy l = Some pid'"
      using ok that by (auto simp: system_ok_def proc_ok_def locks_ok_def)
    have apart: "set (sp_held p) \<inter> set (sp_held q) = {}"
      using held_apart [OF ok proc that(2)] that(1) by simp
    then show "\<forall>l \<in> set (sp_held q). release (sp_held p) (sy_locks sy) l = Some pid'"
      using locks by (auto simp: release_def)
    show "\<forall>e \<in> set (sp_added p). event_lock g e \<notin> set (sp_held q)"
      using apart added_locks [OF mine] by blast
    show "se_sequence_number ` set (sp_added p) \<inter> se_sequence_number ` set (sp_added q) = {}"
      using ok proc that unfolding system_ok_def by metis
    show "\<forall>e \<in> set (sp_added q). se_sequence_number e < sy_seq sy"
      using ok that by (auto simp: system_ok_def proc_ok_def added_ok_def)
  qed
  have gone: "proc_ok env g es seq'' locks' pid p'" if "finished_with p p' r" for es seq'' locks' r
    using mine that
    by (simp add: finished_with_def same_save_def proc_ok_def phase_ok_def added_ok_def locks_ok_def)
  note update = system_ok_update [OF ok]
  show ?thesis
    using out
  proof cases
    case Moved
    have "proc_ok env g ?log (sy_seq sy) (sy_locks sy) pid p'"
      using Moved mine held
      by (auto simp: proc_ok_def same_save_def added_ok_def locks_ok_def working_phase_def
          split: save_phase.splits)
    moreover have "(case sp_phase p' of Finished _ \<Rightarrow> release (sp_held p) (sy_locks sy)
        | _ \<Rightarrow> sy_locks sy) = sy_locks sy"
      using Moved by (auto simp: working_phase_def split: save_phase.splits)
    ultimately show ?thesis
      using update [OF db, of "[]" "sy_locks sy" pid p'] theirs Moved by simp
  next
    case (Wrote e)
    have old: "added_ok g ?log (sy_seq sy) p" using mine by (simp add: proc_ok_def)
    have db': "db_ok g (sy_db sy) (sy_seq sy + 1)" using db by (fastforce simp: db_ok_def)
    have "added_ok g ?log (sy_seq sy + 1) p'"
      using old Wrote db
      by (fastforce simp: added_ok_def same_save_def db_ok_def sorted_wrt_append)
    then have "proc_ok env g ?log (sy_seq sy + 1) (sy_locks sy) pid p'"
      using mine held Wrote
      by (auto simp: proc_ok_def same_save_def locks_ok_def working_phase_def
          split: save_phase.splits)
    moreover have "(case sp_phase p' of Finished _ \<Rightarrow> release (sp_held p) (sy_locks sy)
        | _ \<Rightarrow> sy_locks sy) = sy_locks sy"
      using Wrote by (auto simp: working_phase_def split: save_phase.splits)
    moreover have "se_sequence_number ` set (sp_added p') \<inter> se_sequence_number ` set (sp_added q) = {}"
      if "pid' \<noteq> pid" "sy_procs sy pid' = Some q" for pid' q
      using theirs(4,5) [OF that] Wrote by auto
    ultimately show ?thesis
      using update [OF db', of "[]" "sy_locks sy" pid p'] theirs Wrote by simp
  next
    case (Failed err)
    have db': "db_ok g (sy_db sy) seq'" using db Failed by (fastforce simp: db_ok_def)
    have "sp_phase p' = Finished (Inl err)" "sp_added p' = []"
      using Failed by (auto simp: finished_with_def)
    then show ?thesis
      using update [OF db', of "[]" "release (sp_held p) (sy_locks sy)" pid p'] theirs gone Failed
      by simp
  next
    case (Committed results)
    have db': "db_ok g db' (sy_seq sy)" using db_ok_commit [OF db mine] Committed by blast
    have "sp_phase p' = Finished (Inr results)" "sp_added p' = []"
      using Committed by (auto simp: finished_with_def)
    then show ?thesis
      using update [OF db', of "sp_added p" "release (sp_held p) (sy_locks sy)" pid p'] theirs
        gone Committed by simp
  qed
qed

lemma system_ok_initial [simp]: "system_ok env g initial_system"
  by (simp add: system_ok_def initial_system_def db_ok_def)

lemma system_ok_local:
  assumes ok: "system_ok env g sy"
    and proc: "proc_ok env g (db_log (sy_db sy)) (sy_seq sy) locks' pid p'" "sp_added p' = []"
    and locks: "\<And>pid' q l. pid' \<noteq> pid \<Longrightarrow> sy_procs sy pid' = Some q \<Longrightarrow> l \<in> set (sp_held q) \<Longrightarrow>
       locks' l = sy_locks sy l"
  shows "system_ok env g (sy\<lparr>sy_locks := locks', sy_procs := (sy_procs sy)(pid \<mapsto> p')\<rparr>)"
proof -
  have "\<forall>l \<in> set (sp_held q). locks' l = Some pid'"
    if "pid' \<noteq> pid" "sy_procs sy pid' = Some q" for pid' q
  proof -
    have "\<forall>l \<in> set (sp_held q). sy_locks sy l = Some pid'"
      using ok that by (simp add: system_ok_def proc_ok_def locks_ok_def)
    then show ?thesis using locks [OF that] by simp
  qed
  moreover have "db_ok g (sy_db sy) (sy_seq sy)" using ok by (simp add: system_ok_def)
  ultimately have "system_ok env g \<lparr>sy_db = sy_db sy, sy_seq = sy_seq sy, sy_locks = locks',
      sy_procs = (sy_procs sy)(pid \<mapsto> p')\<rparr>"
    using system_ok_update [OF ok, of "sy_db sy" "sy_seq sy" "[]" locks' pid p'] proc by simp
  then show ?thesis by (cases sy) simp
qed

lemma start_save_ok:
  assumes "start_save g request = Inr p" and "admissible request"
  shows "proc_ok env g es seq locks pid p"
  using start_save_cases [OF assms]
  by (simp add: proc_ok_def phase_ok_def added_ok_def locks_ok_def)

lemma perform_spawn:
  assumes "system_ok env g sy" and "admissible request"
    and "perform env grant g (Spawn pid request) sy = Some sy'"
  shows "system_ok env g sy'"
proof -
  obtain p where p: "start_save g request = Inr p"
    "sy' = sy\<lparr>sy_procs := (sy_procs sy)(pid \<mapsto> p)\<rparr>"
    using assms(3) by (auto simp: perform_def split: option.splits sum.splits)
  have "system_ok env g (sy\<lparr>sy_locks := sy_locks sy, sy_procs := (sy_procs sy)(pid \<mapsto> p)\<rparr>)"
    using assms(1) start_save_ok [OF p(1) assms(2)] start_save_cases(4) [OF p(1) assms(2)]
    by (rule system_ok_local) simp
  then show ?thesis by (simp add: p(2))
qed

lemma acquire_cases:
  assumes "perform env grant g (Acquire pid) sy = Some sy'"
  obtains p l ls where "sy_procs sy pid = Some p" "sp_phase p = Acquiring (l # ls)"
      "grant sy pid l"
      "sy' = sy\<lparr>sy_locks := (sy_locks sy)(l \<mapsto> pid), sy_procs := (sy_procs sy)(pid \<mapsto>
         p\<lparr>sp_held := sp_held p @ [l], sp_phase := Acquiring ls\<rparr>)\<rparr>"
  using assms
  by (auto simp: perform_def split: option.splits save_phase.splits list.splits if_splits)

lemma perform_acquire:
  assumes "system_ok env g sy" and "lock_excludes grant"
    and "perform env grant g (Acquire pid) sy = Some sy'"
  shows "system_ok env g sy'"
proof -
  obtain p l ls where p: "sy_procs sy pid = Some p" "sp_phase p = Acquiring (l # ls)"
      "grant sy pid l"
      "sy' = sy\<lparr>sy_locks := (sy_locks sy)(l \<mapsto> pid), sy_procs := (sy_procs sy)(pid \<mapsto>
         p\<lparr>sp_held := sp_held p @ [l], sp_phase := Acquiring ls\<rparr>)\<rparr>"
    using acquire_cases [OF assms(3)] by blast
  let ?p = "p\<lparr>sp_held := sp_held p @ [l], sp_phase := Acquiring ls\<rparr>"
  have free: "sy_locks sy l = None" using assms(2) p(3) by (auto simp: lock_excludes_def)
  have mine: "proc_ok env g (db_log (sy_db sy)) (sy_seq sy) (sy_locks sy) pid p"
    using assms(1) p(1) by (simp add: system_ok_def)
  then have "proc_ok env g (db_log (sy_db sy)) (sy_seq sy) ((sy_locks sy)(l \<mapsto> pid)) pid ?p"
    using p(2) by (auto simp: proc_ok_def phase_ok_def added_ok_def locks_ok_def)
  moreover have "sp_added ?p = []" using mine p(2) by (simp add: proc_ok_def phase_ok_def)
  moreover have "((sy_locks sy)(l \<mapsto> pid)) l' = sy_locks sy l'"
    if "pid' \<noteq> pid" "sy_procs sy pid' = Some q" "l' \<in> set (sp_held q)" for pid' q l'
    using assms(1) that free by (auto simp: system_ok_def proc_ok_def locks_ok_def)
  ultimately show ?thesis unfolding p(4) by (rule system_ok_local [OF assms(1)])
qed

lemma perform_cancel:
  assumes "system_ok env g sy" and "perform env grant g (Cancel pid) sy = Some sy'"
  shows "system_ok env g sy'"
proof -
  obtain p where p: "sy_procs sy pid = Some p"
    using assms(2) by (auto simp: perform_def split: option.splits)
  let ?p = "finish p (Inl CancelledError)"
  have mine: "proc_ok env g (db_log (sy_db sy)) (sy_seq sy) (sy_locks sy) pid p"
    using assms(1) p by (simp add: system_ok_def)
  then have gone: "proc_ok env g es seq locks pid ?p" for es seq locks
    by (simp add: proc_ok_def phase_ok_def added_ok_def locks_ok_def finish_def)
  have step: "system_ok env g (sy\<lparr>sy_locks := locks', sy_procs := (sy_procs sy)(pid \<mapsto> ?p)\<rparr>)"
    if "\<And>pid' q l. pid' \<noteq> pid \<Longrightarrow> sy_procs sy pid' = Some q \<Longrightarrow> l \<in> set (sp_held q) \<Longrightarrow>
       locks' l = sy_locks sy l" for locks'
    using assms(1) gone by (rule system_ok_local) (simp add: finish_def, rule that)
  have "release (sp_held p) (sy_locks sy) l = sy_locks sy l"
    if "pid' \<noteq> pid" "sy_procs sy pid' = Some q" "l \<in> set (sp_held q)" for pid' q l
    using held_apart [OF assms(1) p that(2)] that by (auto simp: release_def)
  note released = step [OF this]
  have kept: "system_ok env g (sy\<lparr>sy_procs := (sy_procs sy)(pid \<mapsto> ?p)\<rparr>)"
    using step [of "sy_locks sy"] by simp
  show ?thesis
    using assms(2) released kept p
    by (auto simp: perform_def split: option.splits save_phase.splits list.splits)
qed

lemma perform_run:
  assumes "system_ok env g sy" and "perform env grant g (Run pid) sy = Some sy'"
  shows "\<exists>p db' seq' p'. sy_procs sy pid = Some p \<and> sp_held p = proc_locks g p \<and>
     slice_outcome env (sy_db sy) (sy_seq sy) p db' seq' p' \<and>
     sy' = \<lparr>sy_db = db', sy_seq = seq',
       sy_locks = (case sp_phase p' of Finished _ \<Rightarrow> release (sp_held p) (sy_locks sy)
          | _ \<Rightarrow> sy_locks sy),
       sy_procs = (sy_procs sy)(pid \<mapsto> p')\<rparr>"
proof -
  obtain p where p: "sy_procs sy pid = Some p"
    using assms(2) by (auto simp: perform_def split: option.splits)
  have phase: "\<And>l ls. sp_phase p \<noteq> Acquiring (l # ls)" "\<And>r. sp_phase p \<noteq> Finished r"
    using assms(2) p by (auto simp: perform_def)
  obtain db' seq' p' where s: "slice env default_condition_converter (sy_db sy) (sy_seq sy) p
      = (db', seq', p')" by (metis prod_cases3)
  have sy': "sy' = \<lparr>sy_db = db', sy_seq = seq',
       sy_locks = (case sp_phase p' of Finished _ \<Rightarrow> release (sp_held p) (sy_locks sy)
          | _ \<Rightarrow> sy_locks sy), sy_procs = (sy_procs sy)(pid \<mapsto> p')\<rparr>"
    using assms(2) p s phase
    by (auto simp: perform_def split: save_phase.splits list.splits)
  have mine: "proc_ok env g (db_log (sy_db sy)) (sy_seq sy) (sy_locks sy) pid p"
    using assms(1) p by (simp add: system_ok_def)
  moreover have "ls = []" if "sp_phase p = Acquiring ls" for ls
    using phase(1) that by (cases ls) auto
  ultimately have "sp_held p = proc_locks g p"
    using phase(2) by (cases "sp_phase p") (auto simp: proc_ok_def locks_ok_def)
  moreover have "slice_outcome env (sy_db sy) (sy_seq sy) p db' seq' p'"
    using slice_outcome_of_slice [OF _ mine phase s] assms(1) by (simp add: system_ok_def)
  ultimately show ?thesis using p sy' by blast
qed

lemma system_ok_perform:
  assumes "system_ok env g sy" and "lock_excludes grant" and "admissible_action cancels a"
    and "perform env grant g a sy = Some sy'"
  shows "system_ok env g sy'"
proof (cases a)
  case (Run pid)
  then obtain p db' seq' p' where "sy_procs sy pid = Some p" "sp_held p = proc_locks g p"
     "slice_outcome env (sy_db sy) (sy_seq sy) p db' seq' p'"
     "sy' = \<lparr>sy_db = db', sy_seq = seq',
       sy_locks = (case sp_phase p' of Finished _ \<Rightarrow> release (sp_held p) (sy_locks sy)
          | _ \<Rightarrow> sy_locks sy), sy_procs = (sy_procs sy)(pid \<mapsto> p')\<rparr>"
    using perform_run [OF assms(1)] assms(4) by blast
  then show ?thesis using system_ok_run [OF assms(1)] by blast
qed (use assms perform_spawn perform_acquire perform_cancel in auto)

lemma reachable_system_ok:
  assumes "reachable env grant g cancels sy" and "lock_excludes grant"
  shows "system_ok env g sy"
  using assms(1) by induction (auto intro: system_ok_perform [OF _ assms(2)])

subsection \<open>Progress\<close>

definition unfinished :: "('o, 'w) save_proc \<Rightarrow> bool" where
  "unfinished p = (case sp_phase p of Finished _ \<Rightarrow> False | _ \<Rightarrow> True)"

definition streams_work :: "('o, 'w) save_proc \<Rightarrow> string list \<Rightarrow> nat" where
  "streams_work p names = sum_list (map (\<lambda>s. length (pd_events (proc_request p s)) + 2) names)"

text \<open>The number of steps a save has left, at most.\<close>

definition work :: "('o, 'w) save_proc \<Rightarrow> nat" where
  "work p =
     (case sp_phase p of
        Acquiring ls \<Rightarrow> length ls + 3 + streams_work p (sp_names p)
      | Starting \<Rightarrow> 2 + streams_work p (sp_names p)
      | Checking _ \<Rightarrow> 1 + streams_work p (sp_names p)
      | Writing _ _ rest _ \<Rightarrow> length rest + 2 + streams_work p (tl (sp_names p))
      | Finished _ \<Rightarrow> 0)"

lemma work_finish [simp]: "work (finish p r) = 0"
  by (simp add: work_def finish_def)

lemma streams_work_simps [simp]:
  "streams_work p [] = 0"
  "streams_work p (s # names) =
     length (pd_events (proc_request p s)) + 2 + streams_work p names"
  "streams_work (p\<lparr>sp_phase := ph\<rparr>) names = streams_work p names"
  "streams_work (p\<lparr>sp_names := ns, sp_results := rs\<rparr>) names = streams_work p names"
  "streams_work (p\<lparr>sp_added := ad, sp_phase := ph\<rparr>) names = streams_work p names"
  by (simp_all add: streams_work_def)

lemma work_next_stream: "work (snd (next_stream db p)) \<le> 1 + streams_work p (sp_names p)"
  by (auto simp: next_stream_def work_def finish_def
      split: list.splits option.splits sum.splits save_phase.splits)

lemma work_write_next:
  assumes "sp_names p = s # names"
  shows "work (snd (snd (write_next env db seq p s base cnt after news)))
    \<le> length after + 1 + streams_work p names"
proof (cases after)
  case Nil
  then show ?thesis
    using work_next_stream [of db "p\<lparr>sp_names := names,
        sp_results := AList.update s news (sp_results p)\<rparr>"] assms
    by (auto simp: write_next_def split: prod.splits)
next
  case (Cons e after')
  then show ?thesis
    using assms
    by (auto simp: write_next_def work_def finish_def streams_work_def
        split: prod.splits sum.splits)
qed

lemma work_slice:
  assumes "phase_ok env es p" and "unfinished p" and "\<And>l ls. sp_phase p \<noteq> Acquiring (l # ls)"
    and "slice env reg db seq p = (db', seq', p')"
  shows "work p' < work p"
proof (cases "sp_phase p")
  case (Acquiring ls)
  then show ?thesis using assms(4) by (auto simp: slice_def work_def)
next
  case Starting
  then show ?thesis
    using assms(4) work_next_stream [of db p]
    by (auto simp: slice_def work_def [of p] split: prod.splits)
next
  case (Checking latest)
  then obtain s names where names: "sp_names p = s # names"
    using assms(1) by (cases "sp_names p") (auto simp: phase_ok_def)
  have wrote: "work p' < work p" if "write_next env db seq p s base 0
      (pd_events (proc_request p s)) [] = (db', seq', p')" for base
    using work_write_next [OF names, of env db seq base 0 "pd_events (proc_request p s)" "[]"]
      Checking names that by (simp add: work_def [of p])
  have stopped: "work p' < work p" if "finish p r = p'" for r
    using Checking that [symmetric] by (simp add: work_def [of p])
  show ?thesis
  proof (cases "map_of (sp_requests p) s")
    case None
    then show ?thesis using assms(4) Checking names stopped by (auto simp: slice_def)
  next
    case (Some request)
    let ?enforced = "enforce_condition reg (pd_enforced request)
      \<lparr>ctx_identifier = StreamIdentifier (sp_category p) s, ctx_latest_event = latest\<rparr>"
    show ?thesis
    proof (cases ?enforced)
      case (Inl err)
      then show ?thesis using assms(4) Checking names Some stopped by (auto simp: slice_def)
    next
      case (Inr u)
      then show ?thesis
        using assms(4) Checking names Some stopped wrote
        by (cases "db_last_stream_position db (sp_category p) s") (auto simp: slice_def)
    qed
  qed
next
  case (Writing base cnt after news)
  then obtain s names where names: "sp_names p = s # names"
    using assms(1) by (cases "sp_names p") (auto simp: phase_ok_def)
  then have "p' = snd (snd (write_next env db seq p s base cnt after news))"
    using assms(4) Writing by (simp add: slice_def)
  then show ?thesis
    using work_write_next [OF names, of env db seq base cnt after news] Writing names
    by (simp add: work_def [of p])
qed (use assms(2) in \<open>auto simp: unfinished_def\<close>)

text \<open>Locks are taken in ascending order, whatever the guarantee and the category.\<close>

lemma append_less: "(xs::string) < ys \<Longrightarrow> zs @ xs < zs @ ys"
  by (induction zs) auto

lemma required_locks_ascending:
  assumes "distinct ss"
  shows "sorted_wrt (<) (required_locks g c ss)"
proof (cases g)
  case STREAM
  have "sorted_wrt (<) (sorted_by (\<lambda>s. s) ss)"
    using assms by (simp add: sorted_by_def strict_sorted_iff)
  then have "sorted_wrt (\<lambda>a b. covering_lock g c a < covering_lock g c b) (sorted_by (\<lambda>s. s) ss)"
    by (rule sorted_wrt_mono_rel [rotated])
      (simp add: STREAM covering_lock_def append_less)
  then show ?thesis using STREAM by (simp add: required_locks_def sorted_wrt_map)
qed (simp_all add: required_locks_def)

text \<open>Without cancellation, every lock that is taken is held by a save that will return it.\<close>

definition locks_owned :: "('o, 'w) save_system \<Rightarrow> bool" where
  "locks_owned sy \<longleftrightarrow>
     (\<forall>l pid. sy_locks sy l = Some pid \<longrightarrow> (\<exists>p. sy_procs sy pid = Some p \<and> l \<in> set (sp_held p)))"

lemma slice_outcome_held:
  assumes "slice_outcome env db seq p db' seq' p'"
  shows "sp_held p' = (case sp_phase p' of Finished _ \<Rightarrow> [] | _ \<Rightarrow> sp_held p)"
  using assms
  by cases (auto simp: finished_with_def working_phase_def split: save_phase.splits)

lemma locks_owned_perform:
  assumes "locks_owned sy" and "system_ok env g sy" and "lock_excludes grant"
    and "admissible_action False a" and "perform env grant g a sy = Some sy'"
  shows "locks_owned sy'"
proof (cases a)
  case (Spawn pid request)
  then obtain p where "sy' = sy\<lparr>sy_procs := (sy_procs sy)(pid \<mapsto> p)\<rparr>" "sy_procs sy pid = None"
    using assms(5) by (auto simp: perform_def split: option.splits sum.splits)
  then show ?thesis using assms(1) by (fastforce simp: locks_owned_def)
next
  case (Acquire pid)
  then show ?thesis
    using assms(1,5)
    by (fastforce simp: perform_def locks_owned_def
        split: option.splits save_phase.splits list.splits if_splits)
next
  case (Run pid)
  then obtain p db' seq' p' where r: "sy_procs sy pid = Some p" "sp_held p = proc_locks g p"
     "slice_outcome env (sy_db sy) (sy_seq sy) p db' seq' p'"
     "sy' = \<lparr>sy_db = db', sy_seq = seq',
       sy_locks = (case sp_phase p' of Finished _ \<Rightarrow> release (sp_held p) (sy_locks sy)
          | _ \<Rightarrow> sy_locks sy), sy_procs = (sy_procs sy)(pid \<mapsto> p')\<rparr>"
    using perform_run [OF assms(2)] assms(5) by blast
  have owned: "\<exists>q. sy_procs sy pid' = Some q \<and> l \<in> set (sp_held q)"
    if "sy_locks sy l = Some pid'" for l pid'
    using assms(1) that by (simp add: locks_owned_def)
  show ?thesis
    unfolding locks_owned_def r(4) save_system.simps
  proof (intro allI impI)
    fix l pid'
    assume l: "(case sp_phase p' of Finished _ \<Rightarrow> release (sp_held p) (sy_locks sy)
        | _ \<Rightarrow> sy_locks sy) l = Some pid'"
    then have old: "sy_locks sy l = Some pid'"
      by (auto simp: release_def split: save_phase.splits if_splits)
    show "\<exists>q. ((sy_procs sy)(pid \<mapsto> p')) pid' = Some q \<and> l \<in> set (sp_held q)"
    proof (cases "pid' = pid")
      case True
      then show ?thesis
        using l owned [OF old] r(1) slice_outcome_held [OF r(3)]
        by (auto simp: release_def split: save_phase.splits)
    next
      case False
      then show ?thesis using owned [OF old] by simp
    qed
  qed
qed (use assms in auto)

lemma reachable_tidy:
  assumes "reachable env grant g False sy" and "lock_excludes grant"
  shows "locks_owned sy" and "finite (dom (sy_procs sy))"
proof -
  have "locks_owned sy \<and> finite (dom (sy_procs sy)) \<and> system_ok env g sy"
    using assms(1)
  proof induction
    case reachable_initial
    then show ?case by (simp add: locks_owned_def) (simp add: initial_system_def)
  next
    case (reachable_step sy a sy')
    then have "finite (dom (sy_procs sy'))"
      by (cases a)
        (auto simp: perform_def split: option.splits sum.splits save_phase.splits list.splits
          if_splits prod.splits)
    with reachable_step show ?case
      using locks_owned_perform system_ok_perform assms(2) by blast
  qed
  then show "locks_owned sy" and "finite (dom (sy_procs sy))" by auto
qed

fun progress_action :: "('o, 'w) action \<Rightarrow> bool" where
  "progress_action (Acquire _) = True"
| "progress_action (Run _) = True"
| "progress_action _ = False"

fun perform_all ::
  "'o save_env \<Rightarrow> ('o, 'w) lock_grant \<Rightarrow> serialisation_guarantee \<Rightarrow> ('o, 'w) action list
    \<Rightarrow> ('o, 'w) save_system \<Rightarrow> ('o, 'w) save_system option" where
  "perform_all env grant g [] sy = Some sy"
| "perform_all env grant g (a # as) sy =
     (case perform env grant g a sy of None \<Rightarrow> None | Some sy' \<Rightarrow> perform_all env grant g as sy')"

lemma admissible_progress [simp]: "progress_action a \<Longrightarrow> admissible_action cancels a"
  by (cases a) auto

lemma run_enabled:
  assumes "sy_procs sy pid = Some p" and "unfinished p" and "\<And>l ls. sp_phase p \<noteq> Acquiring (l # ls)"
  shows "\<exists>sy'. perform env grant g (Run pid) sy = Some sy'"
proof (cases "sp_phase p")
  case (Acquiring ls)
  then show ?thesis
    using assms(1,3) by (cases ls) (auto simp: perform_def split: prod.splits)
qed (use assms(1,2) in \<open>auto simp: perform_def unfinished_def split: prod.splits\<close>)

lemma some_action_enabled:
  assumes ok: "system_ok env g sy" and owned: "locks_owned sy"
    and fin: "finite (dom (sy_procs sy))" and serves: "lock_serves grant"
    and some: "sy_procs sy pid0 = Some p0" "unfinished p0"
  shows "\<exists>a sy'. progress_action a \<and> perform env grant g a sy = Some sy'"
proof (rule ccontr)
  assume stuck: "\<not> ?thesis"
  have waiting: "\<exists>l ls. sp_phase p = Acquiring (l # ls)"
    if "sy_procs sy pid = Some p" "unfinished p" for pid p
  proof (rule ccontr)
    assume "\<nexists>l ls. sp_phase p = Acquiring (l # ls)"
    then have "\<exists>sy'. perform env grant g (Run pid) sy = Some sy'"
      using run_enabled [OF that] by blast
    then show False using stuck progress_action.simps(2) by blast
  qed
  define wanted where "wanted = {l. \<exists>pid. waits_for sy pid l}"
  have "wanted \<subseteq> (\<lambda>pid. case sp_phase (the (sy_procs sy pid)) of
      Acquiring (l # ls) \<Rightarrow> l | _ \<Rightarrow> []) ` dom (sy_procs sy)"
    by (force simp: wanted_def waits_for_def image_iff)
  then have "finite wanted" using fin finite_surj by blast
  moreover have "wanted \<noteq> {}"
    using waiting [OF some] some(1) by (auto simp: wanted_def waits_for_def)
  ultimately obtain l where l: "l \<in> wanted" and top: "\<And>l'. l' \<in> wanted \<Longrightarrow> l' \<le> l"
    using Max_in Max_ge by metis
  show False
  proof (cases "sy_locks sy l")
    case None
    then obtain pid where pid: "waits_for sy pid l" "grant sy pid l"
      using serves l by (auto simp: lock_serves_def wanted_def)
    then have "\<exists>sy'. perform env grant g (Acquire pid) sy = Some sy'"
      by (auto simp: perform_def waits_for_def)
    then show False using stuck progress_action.simps(1) by blast
  next
    case (Some pid)
    then obtain p where p: "sy_procs sy pid = Some p" "l \<in> set (sp_held p)"
      using owned by (auto simp: locks_owned_def)
    have pok: "proc_ok env g (db_log (sy_db sy)) (sy_seq sy) (sy_locks sy) pid p"
      using ok p(1) by (simp add: system_ok_def)
    then have "unfinished p"
      using p(2) by (auto simp: proc_ok_def locks_ok_def unfinished_def split: save_phase.splits)
    then obtain l' ls where wait: "sp_phase p = Acquiring (l' # ls)" using waiting p(1) by blast
    then have "sp_held p @ l' # ls = proc_locks g p"
      using pok by (auto simp: proc_ok_def locks_ok_def)
    moreover have "sorted_wrt (<) (proc_locks g p)"
      using pok by (auto simp: proc_ok_def wf_dict_def intro: required_locks_ascending)
    ultimately have "sorted_wrt (<) (sp_held p @ l' # ls)" by simp
    then have "l < l'" using p(2) by (auto simp: sorted_wrt_append)
    moreover have "l' \<in> wanted" using wait p(1) by (auto simp: wanted_def waits_for_def)
    ultimately show False using top by fastforce
  qed
qed

definition total_work :: "('o, 'w) save_system \<Rightarrow> nat" where
  "total_work sy = (\<Sum>pid \<in> dom (sy_procs sy). work (the (sy_procs sy pid)))"

lemma total_work_update:
  assumes "finite (dom (sy_procs sy))" and "sy_procs sy pid = Some p" and "work p' < work p"
    and "sy_procs sy' = (sy_procs sy)(pid \<mapsto> p')"
  shows "total_work sy' < total_work sy"
proof -
  have dom: "dom (sy_procs sy') = dom (sy_procs sy)" using assms(2,4) by auto
  show ?thesis
    unfolding total_work_def dom
    by (rule sum_strict_mono_ex1) (use assms in \<open>auto simp: dom_def\<close>)
qed

lemma progress_decreases:
  assumes "system_ok env g sy" and "finite (dom (sy_procs sy))" and "progress_action a"
    and step: "perform env grant g a sy = Some sy'"
  shows "total_work sy' < total_work sy" and "dom (sy_procs sy') = dom (sy_procs sy)"
proof -
  obtain pid p p' where "sy_procs sy pid = Some p" "work p' < work p"
    "sy_procs sy' = (sy_procs sy)(pid \<mapsto> p')"
  proof (cases a)
    case (Acquire pid)
    with step obtain p l ls where p: "sy_procs sy pid = Some p" "sp_phase p = Acquiring (l # ls)"
      "sy' = sy\<lparr>sy_locks := (sy_locks sy)(l \<mapsto> pid), sy_procs := (sy_procs sy)(pid \<mapsto>
         p\<lparr>sp_held := sp_held p @ [l], sp_phase := Acquiring ls\<rparr>)\<rparr>"
      using acquire_cases by metis
    show ?thesis
      by (rule that [OF p(1)]) (simp_all add: p work_def streams_work_def)
  next
    case (Run pid)
    obtain p where p: "sy_procs sy pid = Some p"
      using step Run by (auto simp: perform_def split: option.splits)
    have phase: "\<And>l ls. sp_phase p \<noteq> Acquiring (l # ls)" "unfinished p"
      using step Run p by (auto simp: perform_def unfinished_def split: save_phase.splits)
    obtain db' seq' p' where s: "slice env default_condition_converter (sy_db sy) (sy_seq sy) p
        = (db', seq', p')" by (metis prod_cases3)
    have "sy_procs sy' = (sy_procs sy)(pid \<mapsto> p')"
      using step Run p s phase
      by (auto simp: perform_def split: save_phase.splits list.splits)
    moreover have "phase_ok env (db_log (sy_db sy)) p"
      using assms(1) p by (simp add: system_ok_def proc_ok_def)
    ultimately show ?thesis using that p work_slice phase s by blast
  qed (use assms(3) in auto)
  then show "total_work sy' < total_work sy" and "dom (sy_procs sy') = dom (sy_procs sy)"
    using total_work_update [OF assms(2)] by auto
qed

lemma runs_to_completion:
  assumes "reachable env grant g False sy" and "lock_excludes grant" and "lock_serves grant"
  shows "\<exists>as sy'. list_all progress_action as \<and> perform_all env grant g as sy = Some sy' \<and>
     dom (sy_procs sy') = dom (sy_procs sy) \<and>
     (\<forall>pid p. sy_procs sy' pid = Some p \<longrightarrow> \<not> unfinished p)"
  using assms(1)
proof (induction "total_work sy" arbitrary: sy rule: less_induct)
  case less
  show ?case
  proof (cases "\<exists>pid p. sy_procs sy pid = Some p \<and> unfinished p")
    case False
    then show ?thesis by (intro exI [of _ "[]"] exI [of _ sy]) auto
  next
    case True
    note ok = reachable_system_ok [OF less.prems assms(2)]
    note tidy = reachable_tidy [OF less.prems assms(2)]
    obtain a sy1 where a: "progress_action a" "perform env grant g a sy = Some sy1"
      using some_action_enabled [OF ok tidy assms(3)] True by blast
    have "reachable env grant g False sy1"
      by (rule reachable.reachable_step [OF less.prems admissible_progress [OF a(1)] a(2)])
    then obtain as sy' where "list_all progress_action as"
      "perform_all env grant g as sy1 = Some sy'" "dom (sy_procs sy') = dom (sy_procs sy1)"
      "\<forall>pid p. sy_procs sy' pid = Some p \<longrightarrow> \<not> unfinished p"
      using less.hyps progress_decreases(1) [OF ok tidy(2) a] by blast
    then show ?thesis
      using a progress_decreases(2) [OF ok tidy(2) a]
      by (intro exI [of _ "a # as"] exI [of _ sy']) auto
  qed
qed

subsection \<open>Concrete schedules\<close>

definition mutex_grant :: "('o, 'w) lock_grant" where
  "mutex_grant sy pid l = (sy_locks sy l = None)"

lemma mutex_grant_laws [simp]: "lock_excludes mutex_grant" "lock_serves mutex_grant"
  by (auto simp: lock_excludes_def lock_serves_def mutex_grant_def)

lemma reachable_perform_all:
  assumes "reachable env grant g cancels sy" and "list_all (admissible_action cancels) as"
    and "perform_all env grant g as sy = Some sy'"
  shows "reachable env grant g cancels sy'"
  using assms
  by (induction as arbitrary: sy)
    (auto split: option.splits intro: reachable.reachable_step)

text \<open>Two saves to different streams, whose slices alternate until the second commits first.\<close>

definition sample_save :: "string \<Rightarrow> (unit, unit) save_request" where
  "sample_save s = SaveStream ''c'' s [sample_new_event ''created''] EmptyStreamCondition"

definition crossing_schedule :: "(unit, unit) action list" where
  "crossing_schedule =
     [Spawn 0 (sample_save ''a''), Spawn 1 (sample_save ''b''), Acquire 0, Acquire 1,
      Run 0, Run 1, Run 0, Run 1, Run 0, Run 1, Run 1, Run 0]"

lemma crossing_admissible: "list_all (admissible_action False) crossing_schedule"
  by (simp add: crossing_schedule_def sample_save_def)

lemma crossing_log:
  "map_option (\<lambda>sy. map (\<lambda>e. (se_stream e, se_position e, se_sequence_number e)) (db_log (sy_db sy)))
     (perform_all sample_env mutex_grant STREAM crossing_schedule initial_system)
   = Some [(''b'', 0, 1), (''a'', 0, 0)]"
  by code_simp

text \<open>
  A save of two streams that is cancelled while it waits for its second lock, and a later save
  that needs the first.
\<close>

definition leaking_schedule :: "(unit, unit) action list" where
  "leaking_schedule =
     [Spawn 0 (sample_save ''b''), Acquire 0,
      Spawn 1 (SaveCategory ''c''
        [(''a'', stream_publish_definition [] None), (''b'', stream_publish_definition [] None)]),
      Acquire 1, Cancel 1, Run 0, Run 0, Run 0, Run 0, Spawn 2 (sample_save ''a'')]"

definition leaked :: "('o, 'w) save_system \<Rightarrow> string \<Rightarrow> bool" where
  "leaked sy l \<longleftrightarrow> (\<exists>pid p. sy_locks sy l = Some pid \<and> sy_procs sy pid = Some p \<and> \<not> unfinished p)"

lemma leaking_admissible: "list_all (admissible_action True) leaking_schedule"
  by (simp add: leaking_schedule_def sample_save_def wf_dict_def dict_keys_def
      requests_built_in_def pd_enforced_def stream_publish_definition_def)

lemma leaking_state:
  "map_option (\<lambda>sy. (sy_locks sy ''memory.c.a'', map_option unfinished (sy_procs sy 1),
       map_option (\<lambda>p. case sp_phase p of Acquiring ls \<Rightarrow> ls | _ \<Rightarrow> []) (sy_procs sy 2)))
     (perform_all sample_env mutex_grant STREAM leaking_schedule initial_system)
   = Some (Some 1, Some False, Some [''memory.c.a''])"
  by code_simp

lemma leaked_lock_stays:
  assumes ok: "system_ok env g sy" and excl: "lock_excludes grant"
    and leak: "leaked sy l" and wait: "waits_for sy pid2 l"
    and step: "progress_action a" "perform env grant g a sy = Some sy'"
  shows "leaked sy' l" and "waits_for sy' pid2 l"
proof -
  obtain pid p where owner: "sy_locks sy l = Some pid" "sy_procs sy pid = Some p" "\<not> unfinished p"
    using leak by (auto simp: leaked_def)
  have "leaked sy' l \<and> waits_for sy' pid2 l"
  proof (cases a)
    case (Acquire pid')
    with step(2) obtain q l' ls where q: "sy_procs sy pid' = Some q"
      "sp_phase q = Acquiring (l' # ls)" "grant sy pid' l'"
      "sy' = sy\<lparr>sy_locks := (sy_locks sy)(l' \<mapsto> pid'), sy_procs := (sy_procs sy)(pid' \<mapsto>
         q\<lparr>sp_held := sp_held q @ [l'], sp_phase := Acquiring ls\<rparr>)\<rparr>"
      using acquire_cases by metis
    have "l' \<noteq> l" using excl q(3) owner(1) by (auto simp: lock_excludes_def)
    moreover have "pid' \<noteq> pid" using q(1,2) owner by (auto simp: unfinished_def)
    ultimately show ?thesis
      using owner wait q by (auto simp: leaked_def waits_for_def)
  next
    case (Run pid')
    then obtain q db' seq' q' where r: "sy_procs sy pid' = Some q"
      "slice_outcome env (sy_db sy) (sy_seq sy) q db' seq' q'"
      "sy' = \<lparr>sy_db = db', sy_seq = seq',
       sy_locks = (case sp_phase q' of Finished _ \<Rightarrow> release (sp_held q) (sy_locks sy)
          | _ \<Rightarrow> sy_locks sy), sy_procs = (sy_procs sy)(pid' \<mapsto> q')\<rparr>"
      using perform_run [OF ok] step(2) by blast
    have running: "unfinished q" "\<And>l ls. sp_phase q \<noteq> Acquiring (l # ls)"
      using step(2) Run r(1)
      by (auto simp: perform_def unfinished_def split: save_phase.splits)
    then have "pid' \<noteq> pid" "pid' \<noteq> pid2" using r(1) owner wait by (auto simp: waits_for_def)
    moreover have "l \<notin> set (sp_held q)"
      using ok r(1) owner(1) \<open>pid' \<noteq> pid\<close>
      by (force simp: system_ok_def proc_ok_def locks_ok_def)
    ultimately show ?thesis
      using owner wait r(3)
      by (auto simp: leaked_def waits_for_def release_def split: save_phase.splits)
  qed (use step(1) in auto)
  then show "leaked sy' l" and "waits_for sy' pid2 l" by auto
qed

lemma leaked_lock_never_served:
  assumes "reachable env grant g cancels sy" and "lock_excludes grant"
    and "leaked sy l" and "waits_for sy pid l"
    and "list_all progress_action as" and "perform_all env grant g as sy = Some sy'"
  shows "waits_for sy' pid l"
  using assms(1,3-)
proof (induction as arbitrary: sy)
  case (Cons a as)
  then obtain sy1 where sy1: "perform env grant g a sy = Some sy1"
    "perform_all env grant g as sy1 = Some sy'" by (auto split: option.splits)
  have a: "progress_action a" "list_all progress_action as" using Cons.prems(4) by auto
  note stays = leaked_lock_stays [OF reachable_system_ok [OF Cons.prems(1) assms(2)] assms(2)
      Cons.prems(2,3) a(1) sy1(1)]
  show ?case
    using Cons.IH [OF reachable.reachable_step [OF Cons.prems(1) admissible_progress [OF a(1)] sy1(1)]
        stays a(2) sy1(2)] .
qed simp

subsection \<open>Properties\<close>

text \<open>
  C6. However saves interleave and whichever of them are cancelled, under every serialisation
  guarantee the log stays consistent: the positions of each stream are \<open>0, 1, 2, \<dots>\<close> without gap
  or repetition, no sequence number is used twice, and reading a stream from the database
  returns exactly the events of that stream.
\<close>

theorem concurrent_log_consistent:
  assumes "lock_excludes grant" and "reachable env grant g cancels sy"
  shows "map se_position (stream_of c s (db_log (sy_db sy)))
       = [0..int (length (stream_of c s (db_log (sy_db sy)))) - 1] \<and>
     distinct (map se_sequence_number (db_log (sy_db sy))) \<and>
     db_stream_events (sy_db sy) c s = Inr (stream_of c s (db_log (sy_db sy)))"
proof -
  have "db_ok g (sy_db sy) (sy_seq sy)"
    using reachable_system_ok [OF assms(2,1)] by (simp add: system_ok_def)
  then have db: "db_wf (sy_db sy)" "positions_ok (db_log (sy_db sy))" by (auto simp: db_ok_def)
  then have "distinct (map se_sequence_number (db_log (sy_db sy)))"
    by (simp add: db_log_index_seq) (simp add: db_wf_def)
  with db show ?thesis
    unfolding positions_ok_def by (simp add: db_stream_events_refines del: selects.simps)
qed

theorem concurrent_log_consistent_witness:
  "\<exists>sy. perform_all sample_env mutex_grant STREAM crossing_schedule initial_system = Some sy \<and>
     map se_position (stream_of ''c'' ''b'' (db_log (sy_db sy))) = [0]"
proof -
  obtain sy where sy: "perform_all sample_env mutex_grant STREAM crossing_schedule initial_system
      = Some sy"
    "map (\<lambda>e. (se_stream e, se_position e, se_sequence_number e)) (db_log (sy_db sy))
      = [(''b'', 0, 1), (''a'', 0, 0)]"
    using crossing_log by auto
  have "reachable sample_env mutex_grant STREAM False sy"
    by (rule reachable_perform_all [OF reachable_initial crossing_admissible sy(1)])
  from concurrent_log_consistent [OF mutex_grant_laws(1) this, of "''c''" "''b''"]
  have len: "map se_position (stream_of ''c'' ''b'' (db_log (sy_db sy)))
      = [0..int (length (stream_of ''c'' ''b'' (db_log (sy_db sy)))) - 1]" by simp
  have cats: "map_option (\<lambda>sy. length (stream_of ''c'' ''b'' (db_log (sy_db sy))))
      (perform_all sample_env mutex_grant STREAM crossing_schedule initial_system) = Some 1"
    by code_simp
  show ?thesis using sy len cats by simp
qed

text \<open>
  C7. The log is ordered as the serialisation guarantee promises: in the order of the sequence
  numbers as a whole under \<open>LOG\<close>, within each category under \<open>CATEGORY\<close>, and within each
  stream under every guarantee.
\<close>

theorem guarantee_orders_log:
  assumes "lock_excludes grant" and "reachable env grant g cancels sy"
  shows "(g = LOG \<longrightarrow> sorted_wrt (<) (map se_sequence_number (db_log (sy_db sy)))) \<and>
     (g = CATEGORY \<longrightarrow> sorted_wrt (<) (map se_sequence_number
        (filter (selects (CategoryIdentifier c)) (db_log (sy_db sy))))) \<and>
     sorted_wrt (<) (map se_sequence_number (stream_of c s (db_log (sy_db sy))))"
proof -
  let ?log = "db_log (sy_db sy)"
  have all: "sorted_wrt (<) (map se_sequence_number (filter (\<lambda>e. event_lock g e = l) ?log))" for l
    using reachable_system_ok [OF assms(2,1)] by (simp add: system_ok_def db_ok_def)
  have "filter (selects (StreamIdentifier c s))
      (filter (\<lambda>e. event_lock g e = covering_lock g c s) ?log) = stream_of c s ?log"
    by (auto simp: event_lock_def intro!: filter_cong)
  then have "sorted_wrt (<) (map se_sequence_number (stream_of c s ?log))"
    using sorted_wrt_filter [of "\<lambda>x y. se_sequence_number x < se_sequence_number y"
        "filter (\<lambda>e. event_lock g e = covering_lock g c s) ?log" "selects (StreamIdentifier c s)"]
      all by (simp add: sorted_wrt_map del: filter_filter)
  moreover have "(\<lambda>e. event_lock LOG e = ''memory'') = (\<lambda>_ :: 'a event. True)"
    by (simp add: event_lock_def covering_lock_def)
  moreover have "(\<lambda>e. event_lock CATEGORY e = covering_lock CATEGORY c s)
      = (selects (CategoryIdentifier c) :: 'a event \<Rightarrow> bool)"
    by (auto simp: event_lock_def covering_lock_def fun_eq_iff)
  ultimately show ?thesis
    using all [of "''memory''"] all [of "covering_lock CATEGORY c s"] by (cases g) auto
qed

theorem guarantee_orders_log_witness:
  "\<exists>sy. perform_all sample_env mutex_grant STREAM crossing_schedule initial_system = Some sy \<and>
     sorted_wrt (<) (map se_sequence_number (stream_of ''c'' ''b'' (db_log (sy_db sy))))"
proof -
  obtain sy where sy: "perform_all sample_env mutex_grant STREAM crossing_schedule initial_system
      = Some sy"
    using crossing_log by auto
  have "reachable sample_env mutex_grant STREAM False sy"
    by (rule reachable_perform_all [OF reachable_initial crossing_admissible sy])
  from guarantee_orders_log [OF mutex_grant_laws(1) this, of "''c''" "''b''"] sy
  show ?thesis by blast
qed

text \<open>
  C8. A save checks and writes atomically although it suspends in between: when a slice ends a
  save successfully, then in the state that slice started from the condition of every one of
  its requests holds of the stream's latest event, and the slice appends to the log, per
  stream, the serialised events of the request at the positions that follow the stream's end;
  a slice that ends a save with an exception, or does not end it, leaves the log as it was.
\<close>

theorem commit_is_checked:
  assumes "lock_excludes grant" and "reachable env grant g cancels sy"
    and "sy_procs sy pid = Some p" and "perform env grant g (Run pid) sy = Some sy'"
  shows "\<exists>p' new. sy_procs sy' pid = Some p' \<and> sp_requests p' = sp_requests p \<and>
     db_log (sy_db sy') = db_log (sy_db sy) @ new \<and>
     (case sp_phase p' of
        Finished (Inr results) \<Rightarrow>
          (\<forall>s request. map_of (sp_requests p) s = Some request \<longrightarrow>
             condition_holds (pd_enforced request)
               (last_option (stream_of (sp_category p) s (db_log (sy_db sy)))) \<and>
             (\<exists>news. map_of results s = Some news \<and>
                written env (sp_category p) s
                  (int (length (stream_of (sp_category p) s (db_log (sy_db sy)))))
                  (pd_events request) news (stream_of (sp_category p) s new)))
      | _ \<Rightarrow> new = [])"
proof -
  have ok: "system_ok env g sy" using reachable_system_ok assms(1,2) by blast
  then obtain db' seq' p' where out: "slice_outcome env (sy_db sy) (sy_seq sy) p db' seq' p'"
    and sy': "sy_db sy' = db'" "sy_procs sy' pid = Some p'"
    using perform_run [OF ok assms(4)] assms(3) by auto
  from out show ?thesis
  proof cases
    case (Committed results)
    have wf: "wf_dict (sp_requests p)"
      using ok assms(3) by (simp add: system_ok_def proc_ok_def)
    have "condition_holds (pd_enforced request)
          (last_option (stream_of (sp_category p) s (db_log (sy_db sy)))) \<and>
        (\<exists>news. map_of results s = Some news \<and>
           written env (sp_category p) s
             (int (length (stream_of (sp_category p) s (db_log (sy_db sy)))))
             (pd_events request) news (stream_of (sp_category p) s (sp_added p)))"
      if "map_of (sp_requests p) s = Some request" for s request
    proof -
      have "s \<in> set (proc_keys p)" using that by (force simp: dict_keys_def dest: map_of_SomeD)
      then have "s \<in> set (map fst results)"
        using Committed(5) by (simp add: all_written_def del: set_map)
      then obtain news where "map_of results s = Some news"
        by (metis list.set_map map_of_eq_None_iff not_None_eq)
      then have "stream_written env (db_log (sy_db sy)) p s (pd_events request) news"
        using Committed(5) that map_of_SomeD by (fastforce simp: all_written_def)
      with that \<open>map_of results s = Some news\<close> show ?thesis by (auto simp: stream_written_def)
    qed
    with Committed sy' show ?thesis
      by (intro exI [of _ p'] exI [of _ "sp_added p"])
        (auto simp: finished_with_def same_save_def simp del: selects.simps)
  qed (use sy' in \<open>auto simp: same_save_def finished_with_def working_phase_def
      split: save_phase.splits sum.splits\<close>)
qed

text \<open>
  The commit of the second save of the crossing schedule, its eleventh action: the other save
  has read the same database and is about to commit too.
\<close>

theorem commit_is_checked_witness:
  "\<exists>sy sy' p new.
     perform_all sample_env mutex_grant STREAM (take 10 crossing_schedule) initial_system = Some sy \<and>
     perform sample_env mutex_grant STREAM (Run 1) sy = Some sy' \<and> sy_procs sy 1 = Some p \<and>
     db_log (sy_db sy') = db_log (sy_db sy) @ new"
proof -
  have "map_option (\<lambda>sy. (sy_procs sy 1 \<noteq> None,
        perform sample_env mutex_grant STREAM (Run 1) sy \<noteq> None))
      (perform_all sample_env mutex_grant STREAM (take 10 crossing_schedule) initial_system)
      = Some (True, True)"
    by code_simp
  then obtain sy p sy' where sy: "perform_all sample_env mutex_grant STREAM
      (take 10 crossing_schedule) initial_system = Some sy" "sy_procs sy 1 = Some p"
    "perform sample_env mutex_grant STREAM (Run 1) sy = Some sy'" by auto
  have "list_all (admissible_action False) (take 10 crossing_schedule)"
    by (simp add: crossing_schedule_def sample_save_def)
  then have "reachable sample_env mutex_grant STREAM False sy"
    using reachable_perform_all [OF reachable_initial _ sy(1)] by blast
  from commit_is_checked [OF mutex_grant_laws(1) this sy(2,3)] sy show ?thesis by blast
qed

text \<open>
  C9. Saves never deadlock: as long as no save is cancelled, from every reachable state the saves
  in progress can all be driven to their end by handing over locks and running slices, however
  their locks overlap and whichever waiting save a lock chooses.
\<close>

theorem saves_complete:
  assumes "lock_excludes grant" and "lock_serves grant" and "reachable env grant g False sy"
  shows "\<exists>as sy'. list_all progress_action as \<and> perform_all env grant g as sy = Some sy' \<and>
     dom (sy_procs sy') = dom (sy_procs sy) \<and>
     (\<forall>pid p. sy_procs sy' pid = Some p \<longrightarrow> \<not> unfinished p)"
  using runs_to_completion [OF assms(3,1,2)] .

theorem saves_complete_witness:
  "\<exists>sy as sy'. perform_all sample_env mutex_grant STREAM (take 4 crossing_schedule) initial_system
       = Some sy \<and>
     list_all progress_action as \<and> perform_all sample_env mutex_grant STREAM as sy = Some sy' \<and>
     (\<forall>pid p. sy_procs sy' pid = Some p \<longrightarrow> \<not> unfinished p)"
proof -
  have "map_option (\<lambda>_. ()) (perform_all sample_env mutex_grant STREAM
      (take 4 crossing_schedule) initial_system) = Some ()"
    by code_simp
  then obtain sy where sy: "perform_all sample_env mutex_grant STREAM
      (take 4 crossing_schedule) initial_system = Some sy" by auto
  have "list_all (admissible_action False) (take 4 crossing_schedule)"
    by (simp add: crossing_schedule_def sample_save_def)
  then have "reachable sample_env mutex_grant STREAM False sy"
    using reachable_perform_all [OF reachable_initial _ sy] by blast
  from saves_complete [OF mutex_grant_laws this] sy show ?thesis by blast
qed

text \<open>
  The \<open>STREAM\<close> guarantee does not order the log: two saves to different streams of one
  category can commit in the opposite order of the sequence numbers they drew, so a reader of
  the log or of the category that resumes after the largest number it has seen can miss an
  event.
\<close>

lemma stream_guarantee_leaves_log_unordered:
  "\<exists>sy :: (unit, unit) save_system. reachable sample_env mutex_grant STREAM False sy \<and>
     map se_sequence_number (db_log (sy_db sy)) = [1, 0] \<and>
     map se_category (db_log (sy_db sy)) = [''c'', ''c'']"
proof -
  have "map_option (\<lambda>sy. (map se_sequence_number (db_log (sy_db sy)),
        map se_category (db_log (sy_db sy))))
      (perform_all sample_env mutex_grant STREAM crossing_schedule initial_system)
      = Some ([1, 0], [''c'', ''c''])"
    by code_simp
  then obtain sy where "perform_all sample_env mutex_grant STREAM crossing_schedule initial_system
      = Some sy" "map se_sequence_number (db_log (sy_db sy)) = [1, 0]"
    "map se_category (db_log (sy_db sy)) = [''c'', ''c'']" by auto
  moreover from this(1) have "reachable sample_env mutex_grant STREAM False sy"
    by (rule reachable_perform_all [OF reachable_initial crossing_admissible])
  ultimately show ?thesis by (intro exI [of _ sy] conjI)
qed

text \<open>
  Cancelling a save of several streams while it waits for one of their locks leaves the
  locks it already has taken for ever: in a reachable state a later save of such a stream waits,
  and it still waits after any further sequence of slices and lock grants.
\<close>

lemma cancelled_save_blocks_stream:
  "\<exists>sy :: (unit, unit) save_system. reachable sample_env mutex_grant STREAM True sy \<and>
     (\<nexists>as sy'. list_all progress_action as \<and>
        perform_all sample_env mutex_grant STREAM as sy = Some sy' \<and>
        \<not> waits_for sy' 2 ''memory.c.a'')"
proof -
  obtain sy where sy: "perform_all sample_env mutex_grant STREAM leaking_schedule initial_system
      = Some sy" "sy_locks sy ''memory.c.a'' = Some 1"
      "map_option unfinished (sy_procs sy 1) = Some False"
      "map_option (\<lambda>p. case sp_phase p of Acquiring ls \<Rightarrow> ls | _ \<Rightarrow> []) (sy_procs sy 2)
        = Some [''memory.c.a'']"
    using leaking_state by auto
  have reach: "reachable sample_env mutex_grant STREAM True sy"
    by (rule reachable_perform_all [OF reachable_initial leaking_admissible sy(1)])
  have "leaked sy ''memory.c.a''" using sy(2,3) by (auto simp: leaked_def)
  moreover have "waits_for sy 2 ''memory.c.a''"
  proof -
    obtain q where "sy_procs sy 2 = Some q"
      "(case sp_phase q of Acquiring ls \<Rightarrow> ls | _ \<Rightarrow> []) = [''memory.c.a'']"
      using sy(4) by blast
    then show ?thesis by (cases "sp_phase q") (auto simp: waits_for_def)
  qed
  ultimately show ?thesis
    using reach leaked_lock_never_served [OF reach mutex_grant_laws(1)] by blast
qed

end
