(* ===== verification/Event_Store.thy ===== *)
theory Event_Store
  imports Memory_Adapter
begin

section \<open>The event store, its sources and its transactions\<close>

text \<open>
  Models \<open>store/store.py\<close>, \<open>store/source_factories.py\<close> and \<open>store/transactions.py\<close> over the
  in-memory adapter.

  A stream, category or log object only pairs the shared adapter with an identifier, so it is
  represented by its class and identifier (\<open>store_source\<close>) and its methods take the adapter's
  current state. Publishing also logs: it serialises the events with \<open>str\<close> as the fallback
  before saving and serialises or summarises what was stored afterwards, and both can raise when
  a class of the caller raises, which is why they are part of the model. What the logger does
  with the text is not.
\<close>

subsection \<open>store/store.py\<close>

record 'o store_env = "'o save_env" +
  env_isoformat :: "datetime \<Rightarrow> string"
  env_str_fallback :: "'o ser_fallback"
  env_debug :: bool

datatype store_source =
    EventLog event_source_identifier
  | EventCategory event_source_identifier
  | EventStream event_source_identifier

fun source_identifier :: "store_source \<Rightarrow> event_source_identifier" where
  "source_identifier (EventLog i) = i"
| "source_identifier (EventCategory i) = i"
| "source_identifier (EventStream i) = i"

definition source_latest ::
  "('o, 'w) memory_adapter \<Rightarrow> store_source \<Rightarrow> 'o event option res" where
  "source_latest ad src = adapter_latest ad (source_identifier src)"

definition source_iterate ::
  "('o, 'w) memory_adapter \<Rightarrow> store_source \<Rightarrow> 'q query_constraint list \<Rightarrow> 'o event gen" where
  "source_iterate ad src constraints = adapter_scan ad (source_identifier src) constraints"

definition source_read ::
  "('o, 'w) memory_adapter \<Rightarrow> store_source \<Rightarrow> 'q query_constraint list \<Rightarrow> 'o event list res" where
  "source_read ad src constraints = gen_to_list (source_iterate ad src constraints)"

text \<open>\<open>__eq__\<close>: logs over one adapter are equal, streams and categories compare identifiers.\<close>

fun source_eq :: "store_source \<Rightarrow> store_source \<Rightarrow> bool" where
  "source_eq (EventLog i) (EventLog j) = True"
| "source_eq (EventCategory i) (EventCategory j) = (i = j)"
| "source_eq (EventStream i) (EventStream j) = (i = j)"
| "source_eq _ _ = False"

definition store_stream :: "string \<Rightarrow> string \<Rightarrow> store_source" where
  "store_stream category stream = EventStream (StreamIdentifier category stream)"

definition store_category :: "string \<Rightarrow> store_source" where
  "store_category category = EventCategory (CategoryIdentifier category)"

definition store_log :: "store_source" where
  "store_log = EventLog LogIdentifier"

fun category_stream :: "store_source \<Rightarrow> string \<Rightarrow> store_source res" where
  "category_stream (EventCategory (CategoryIdentifier c)) stream
     = Inr (EventStream (StreamIdentifier c stream))"
| "category_stream _ _ = Inl (AttributeError ''stream'')"

definition stream_publish ::
  "'o store_env \<Rightarrow> ('o, 'w) memory_adapter \<Rightarrow> event_source_identifier \<Rightarrow> 'o raw_event list
    \<Rightarrow> 'w condition \<Rightarrow> ('o, 'w) memory_adapter \<times> 'o raw_stored list res" where
  "stream_publish env ad identifier events condition =
     (case res_map (serialise_new_event (env_json env) (env_isoformat env) (env_str_fallback env))
             events of
        Inl err \<Rightarrow> (ad, Inl err)
      | Inr _ \<Rightarrow>
          (case save (save_env.truncate env) ad identifier (Some events) condition None of
             (ad', Inl err) \<Rightarrow> (ad', Inl err)
           | (ad', Inr (CategorySaved _)) \<Rightarrow> (ad', Inl (TypeError ''category result''))
           | (ad', Inr (StreamSaved stored)) \<Rightarrow>
               (ad', res_bind (res_map
                  (if env_debug env
                   then serialise_event (env_json env) (env_isoformat env) (env_str_fallback env)
                   else summarise_event (env_json env) (env_isoformat env)) stored)
                 (\<lambda>_. Inr stored))))"

definition category_publish ::
  "'o store_env \<Rightarrow> ('o, 'w) memory_adapter \<Rightarrow> event_source_identifier
    \<Rightarrow> (string, ('o, 'w) publish_definition) dict
    \<Rightarrow> ('o, 'w) memory_adapter \<times> 'o save_result res" where
  "category_publish env ad identifier streams =
     save (save_env.truncate env) ad identifier None NoCondition (Some streams)"

subsection \<open>store/source_factories.py\<close>

datatype identifier_class =
    LogIdentifier_class | LogPartitionIdentifier_class | CategoryIdentifier_class
  | CategoryPartitionIdentifier_class | StreamIdentifier_class

fun identifier_class_of :: "event_source_identifier \<Rightarrow> identifier_class" where
  "identifier_class_of LogIdentifier = LogIdentifier_class"
| "identifier_class_of (LogPartitionIdentifier p) = LogPartitionIdentifier_class"
| "identifier_class_of (CategoryIdentifier c) = CategoryIdentifier_class"
| "identifier_class_of (CategoryPartitionIdentifier c p) = CategoryPartitionIdentifier_class"
| "identifier_class_of (StreamIdentifier c s) = StreamIdentifier_class"

type_synonym source_constructors =
  "(identifier_class, event_source_identifier \<Rightarrow> store_source) dict"

definition construct_event_log :: "event_source_identifier \<Rightarrow> store_source" where
  "construct_event_log identifier = EventLog identifier"

definition construct_event_category :: "event_source_identifier \<Rightarrow> store_source" where
  "construct_event_category identifier = EventCategory identifier"

definition construct_event_stream :: "event_source_identifier \<Rightarrow> store_source" where
  "construct_event_stream identifier = EventStream identifier"

definition register_constructor ::
  "identifier_class \<Rightarrow> (event_source_identifier \<Rightarrow> store_source) \<Rightarrow> source_constructors
    \<Rightarrow> source_constructors" where
  "register_constructor cls constructor cs = AList.update cls constructor cs"

definition event_store_source_factory :: "source_constructors" where
  "event_store_source_factory =
     register_constructor StreamIdentifier_class construct_event_stream
       (register_constructor CategoryIdentifier_class construct_event_category
         (register_constructor LogIdentifier_class construct_event_log []))"

definition construct_source ::
  "source_constructors \<Rightarrow> event_source_identifier \<Rightarrow> store_source res" where
  "construct_source cs identifier =
     (case map_of cs (identifier_class_of identifier) of
        None \<Rightarrow> Inl (KeyError ''identifier type'')
      | Some constructor \<Rightarrow> Inr (constructor identifier))"

subsection \<open>store/transactions.py\<close>

text \<open>A handler reads and changes some state; the caught exceptions are a predicate.\<close>

type_synonym ('s, 'a) handler = "'s \<Rightarrow> 's \<times> 'a res"

fun retry_loop :: "(py_error \<Rightarrow> bool) \<Rightarrow> nat \<Rightarrow> ('s, 'a) handler \<Rightarrow> ('s, 'a) handler" where
  "retry_loop caught 0 handler s = handler s"
| "retry_loop caught (Suc n) handler s =
     (case handler s of
        (s', Inl err) \<Rightarrow> if caught err then retry_loop caught n handler s' else (s', Inl err)
      | (s', Inr x) \<Rightarrow> (s', Inr x))"

definition retry_on_error ::
  "(py_error \<Rightarrow> bool) \<Rightarrow> int \<Rightarrow> ('s, 'a) handler \<Rightarrow> ('s, 'a) handler" where
  "retry_on_error caught tries handler = retry_loop caught (nat (tries - 1)) handler"

definition ignore_on_error ::
  "(py_error \<Rightarrow> bool) \<Rightarrow> ('s, 'a) handler \<Rightarrow> ('s, 'a option) handler" where
  "ignore_on_error caught handler s =
     (case handler s of
        (s', Inl err) \<Rightarrow> if caught err then (s', Inr None) else (s', Inl err)
      | (s', Inr x) \<Rightarrow> (s', Inr (Some x)))"

fun is_unmet_condition :: "py_error \<Rightarrow> bool" where
  "is_unmet_condition (UnmetWriteConditionError m) = True"
| "is_unmet_condition _ = False"

definition retry_on_unmet_condition_error :: "int \<Rightarrow> ('s, 'a) handler \<Rightarrow> ('s, 'a) handler" where
  "retry_on_unmet_condition_error = retry_on_error is_unmet_condition"

definition ignore_on_unmet_condition_error :: "('s, 'a) handler \<Rightarrow> ('s, 'a option) handler" where
  "ignore_on_unmet_condition_error = ignore_on_error is_unmet_condition"

subsection \<open>What the sources return\<close>

lemma source_read_eq:
  assumes "adapter_inv ad" and "scannable (source_identifier src)"
    and "list_all built_in_constraint cs"
  shows "source_read ad src cs = Inr (filter (\<lambda>e. list_all (meets e) cs)
     (filter (selects (source_identifier src)) (db_log (ad_db ad))))"
  using assms
  by (simp add: source_read_def source_iterate_def adapter_scan_def db_scan_events_refines
      memory_iterate_default adapter_inv_def)

lemma source_latest_eq:
  assumes "adapter_inv ad" and "scannable (source_identifier src)"
  shows "source_latest ad src
    = Inr (last_option (filter (selects (source_identifier src)) (db_log (ad_db ad))))"
  using assms
  by (simp add: source_latest_def adapter_latest_def db_last_event_refines adapter_inv_def)

lemma constructed_scannable:
  "construct_source event_store_source_factory i = Inr src \<Longrightarrow>
     source_identifier src = i \<and> scannable i"
  by (cases i) (auto simp: construct_source_def event_store_source_factory_def
      register_constructor_def construct_event_log_def construct_event_category_def
      construct_event_stream_def scannable_def is_event_sequence_identifier_def)

text \<open>The log, a category and a stream of a store are sources in the sense of the contract.\<close>

interpretation store_source: event_source
  "\<lambda>ad. adapter_inv ad" "\<lambda>ad. db_log (ad_db ad)" "\<lambda>ad. source_latest ad store_log"
  "\<lambda>ad. source_iterate ad store_log"
  by unfold_locales
    (simp_all add: source_latest_eq source_iterate_def adapter_scan_def db_scan_events_refines
      memory_iterate_default adapter_inv_def store_log_def scannable_def
      is_event_sequence_identifier_def)

subsection \<open>Publishing\<close>

abbreviation read_events :: "('o, 'w) memory_adapter \<Rightarrow> store_source \<Rightarrow> 'o event list res" where
  "read_events ad src \<equiv> source_read ad src ([] :: unit query_constraint list)"

lemma stream_publish_saved:
  assumes "stream_publish env ad (StreamIdentifier c s) events condition = (ad', Inr stored)"
  shows "save_to_stream (save_env.truncate env) ad c s events condition = (ad', Inr stored)"
  using assms
  by (auto simp: stream_publish_def save_def split: sum.splits prod.splits save_result.splits)

lemma saved_conditions:
  "save_to_stream env ad c s events condition = (ad', r) \<Longrightarrow> ad_conditions ad' = ad_conditions ad"
  by (auto simp: save_to_stream_def split: prod.splits sum.splits)

lemma spec_returned:
  assumes "spec_events env c s start seq es = Inr added"
  shows "list_all2 (\<lambda>r e. serialise_stored env r = Inr e)
     (returned_events env c s start seq es) added"
  using assms
proof (induction es arbitrary: start seq added)
  case (Cons e es)
  then obtain x xs where "serialise_stored env (make_stored_event env c s start seq e) = Inr x"
    "spec_events env c s (start + 1) (seq + 1) es = Inr xs" "added = x # xs" by auto
  with Cons.IH show ?case by simp
qed simp

lemma published_events:
  assumes "adapter_inv ad" and "ad_conditions ad = default_condition_converter"
    and "built_in_condition condition"
    and "stream_publish env ad (StreamIdentifier c s) events condition = (ad', Inr stored)"
  obtains added where "adapter_inv ad'" "condition_holds condition (stream_latest ad c s)"
    "db_log (ad_db ad') = db_log (ad_db ad) @ added" "stream_of c s added = added"
    "list_all2 (\<lambda>r e. serialise_stored (save_env.truncate env) r = Inr e) stored added"
    "map se_position added
      = [stream_length ad c s..stream_length ad c s + int (length events) - 1]"
    "length added = length events"
proof -
  note R = save_to_stream_cases [OF assms(1-3) stream_publish_saved [OF assms(4)]]
  then have holds: "condition_holds condition (stream_latest ad c s)"
    by (auto simp del: selects.simps split: if_splits)
  with R obtain added where sp: "spec_events (save_env.truncate env) c s (stream_length ad c s)
      (ad_sequence ad) events = Inr added"
    and st: "stored = returned_events (save_env.truncate env) c s (stream_length ad c s)
      (ad_sequence ad) events"
    and log: "db_log (ad_db ad') = db_log (ad_db ad) @ added"
    by (auto simp del: selects.simps spec_events_simps split: sum.splits)
  show thesis
    using that R holds log spec_events_fields [OF sp] spec_returned [OF sp] st by blast
qed

text \<open>
  C10. Publish and read back: when publishing to a stream returns, its condition held of the
  stream's latest event, the events returned correspond one to one to the events now stored,
  which are these events serialised, at the positions that continue the stream, and every
  source of the store (the log, any category, any stream) reads as before followed by those of
  the new events that belong to it.
\<close>

theorem publish_then_read:
  assumes "adapter_inv ad" and "ad_conditions ad = default_condition_converter"
    and "built_in_condition condition" and "read_events ad (store_stream c s) = Inr before"
    and "stream_publish env ad (StreamIdentifier c s) events condition = (ad', Inr stored)"
  shows "condition_holds condition (last_option before) \<and>
     (\<exists>added. list_all2 (\<lambda>r e. serialise_stored (save_env.truncate env) r = Inr e) stored added \<and>
        map se_position added = [int (length before)..int (length before + length events) - 1] \<and>
        read_events ad' (store_stream c s) = Inr (before @ added) \<and>
        (\<forall>src all. scannable (source_identifier src) \<and> read_events ad src = Inr all \<longrightarrow>
           read_events ad' src = Inr (all @ filter (selects (source_identifier src)) added)))"
proof -
  obtain added where P: "adapter_inv ad'" "condition_holds condition (stream_latest ad c s)"
    "db_log (ad_db ad') = db_log (ad_db ad) @ added" "stream_of c s added = added"
    "list_all2 (\<lambda>r e. serialise_stored (save_env.truncate env) r = Inr e) stored added"
    "map se_position added
      = [stream_length ad c s..stream_length ad c s + int (length events) - 1]"
    using published_events [OF assms(1-3,5)] by blast
  have stream: "scannable (source_identifier (store_stream c s))"
    by (simp add: store_stream_def scannable_def is_event_sequence_identifier_def)
  have before: "before = stream_of c s (db_log (ad_db ad))"
    using assms(4) source_read_eq [OF assms(1) stream, of "[] :: unit query_constraint list"]
    by (simp add: store_stream_def del: selects.simps)
  have read: "read_events ad' src = Inr (all @ filter (selects (source_identifier src)) added)"
    if "scannable (source_identifier src)" "read_events ad src = Inr all" for src all
    using source_read_eq [OF assms(1) that(1), of "[] :: unit query_constraint list"] source_read_eq [OF P(1) that(1), of "[] :: unit query_constraint list"]
      that(2) P(3) by simp
  moreover have "read_events ad' (store_stream c s) = Inr (before @ added)"
    using read [OF stream assms(4)] P(4) by (simp add: store_stream_def del: selects.simps)
  ultimately show ?thesis using P before by (auto simp del: selects.simps)
qed

text \<open>
  C11. Resuming a read: after a publish, reading the log with the constraint "sequence number
  after the last one already read" returns exactly the events that publish stored.
\<close>

theorem resume_after_publish:
  assumes "adapter_inv ad" and "ad_conditions ad = default_condition_converter"
    and "built_in_condition condition" and "read_events ad store_log = Inr (seen @ [e])"
    and "stream_publish env ad (StreamIdentifier c s) events condition = (ad', Inr stored)"
  shows "\<exists>added. list_all2 (\<lambda>r x. serialise_stored (save_env.truncate env) r = Inr x) stored added \<and>
     source_read ad' store_log [sequence_number_after (se_sequence_number e)] = Inr added"
proof -
  obtain added where P: "adapter_inv ad'" "db_log (ad_db ad') = db_log (ad_db ad) @ added"
    "list_all2 (\<lambda>r e. serialise_stored (save_env.truncate env) r = Inr e) stored added"
    using published_events [OF assms(1-3,5)] by blast
  have "read_events ad store_log = Inr (db_log (ad_db ad))"
    unfolding source_read_def by (rule store_source.read_all [OF assms(1)])
  with assms(4) have "db_log (ad_db ad) = seen @ [e]" by simp
  moreover have "sorted_wrt (<) (map se_sequence_number (db_log (ad_db ad')))"
    using P(1) by (simp add: adapter_inv_def db_log_index_seq)
  ultimately have "source_read ad' store_log [sequence_number_after (se_sequence_number e)] = Inr added"
    using store_source.read_after_resumes [OF P(1), of "seen @ [e]" added] P(2)
    by (simp add: source_read_def)
  with P(3) show ?thesis by blast
qed

definition sample_store_env :: "unit store_env" where
  "sample_store_env = \<lparr>env_json = (\<lambda>_. None), env_str = (\<lambda>_. None), env_uuid = (\<lambda>_. ''id''),
     env_isoformat = (\<lambda>_. ''now''), env_str_fallback = raising_serialisation_fallback,
     env_debug = True\<rparr>"

abbreviation sample_publish where
  "sample_publish ad name \<equiv> stream_publish sample_store_env ad (StreamIdentifier ''c'' ''s'')
     [sample_new_event name] NoCondition"

abbreviation sample_adapter :: "(unit, unit) memory_adapter" where
  "sample_adapter \<equiv> new_memory_adapter LOG"

lemma sample_conditions [simp]: "ad_conditions (new_memory_adapter g) = default_condition_converter"
  by (simp add: new_memory_adapter_def)

lemma sample_reads_empty:
  "read_events sample_adapter (store_stream ''c'' ''s'') = Inr []"
  by code_simp

theorem publish_then_read_witness:
  "\<exists>ad' stored added. sample_publish sample_adapter ''created'' = (ad', Inr stored) \<and>
     read_events ad' (store_stream ''c'' ''s'') = Inr added \<and> map se_position added = [0]"
proof -
  have "is_ok (snd (sample_publish sample_adapter ''created''))" by code_simp
  then obtain ad' stored where p: "sample_publish sample_adapter ''created'' = (ad', Inr stored)"
    by (cases "sample_publish sample_adapter ''created''") (auto simp: is_ok_iff)
  from publish_then_read [OF adapter_inv_new sample_conditions _ sample_reads_empty p]
  show ?thesis using p by auto
qed

theorem resume_after_publish_witness:
  "\<exists>ad' stored added. sample_publish (fst (sample_publish sample_adapter ''created'')) ''changed''
       = (ad', Inr stored) \<and>
     source_read ad' store_log [sequence_number_after 0 :: unit query_constraint] = Inr added \<and>
     length added = length stored"
proof -
  let ?ad = "fst (sample_publish sample_adapter ''created'')"
  have "is_ok (snd (sample_publish sample_adapter ''created''))" by code_simp
  then obtain st where p0: "sample_publish sample_adapter ''created'' = (?ad, Inr st)"
    by (cases "sample_publish sample_adapter ''created''") (auto simp: is_ok_iff)
  have inv: "adapter_inv ?ad"
    using published_events [OF adapter_inv_new sample_conditions _ p0] by auto
  have cond: "ad_conditions ?ad = default_condition_converter"
    using saved_conditions [OF stream_publish_saved [OF p0]] by simp
  have "is_ok (snd (sample_publish ?ad ''changed''))" by code_simp
  then obtain ad' stored where p: "sample_publish ?ad ''changed'' = (ad', Inr stored)"
    by (cases "sample_publish ?ad ''changed''") (auto simp: is_ok_iff)
  have "map_sum id (map se_sequence_number) (read_events ?ad store_log) = Inr [0]" by code_simp
  then obtain e where read: "read_events ?ad store_log = Inr ([] @ [e])" "se_sequence_number e = 0"
    by (cases "read_events ?ad store_log") auto
  from resume_after_publish [OF inv cond _ read(1) p, where ?'c = unit] read(2) p
  show ?thesis by (auto dest: list_all2_lengthD)
qed

subsection \<open>Transactions\<close>

text \<open>The state after the handler has run \<open>k\<close> times.\<close>

fun after_runs :: "('s, 'a) handler \<Rightarrow> nat \<Rightarrow> 's \<Rightarrow> 's" where
  "after_runs handler 0 s = s"
| "after_runs handler (Suc k) s = after_runs handler k (fst (handler s))"

definition fails_with :: "(py_error \<Rightarrow> bool) \<Rightarrow> 'a res \<Rightarrow> bool" where
  "fails_with caught r = (case r of Inl err \<Rightarrow> caught err | Inr _ \<Rightarrow> False)"

lemma retry_loop_runs:
  "\<exists>k \<le> n. retry_loop caught n handler s = handler (after_runs handler k s) \<and>
     (\<forall>j < k. fails_with caught (snd (handler (after_runs handler j s)))) \<and>
     (fails_with caught (snd (retry_loop caught n handler s)) \<longrightarrow> k = n)"
proof (induction n arbitrary: s)
  case (Suc n)
  obtain s' r where h: "handler s = (s', r)" by fastforce
  show ?case
  proof (cases "fails_with caught r")
    case True
    then obtain err where r: "r = Inl err" "caught err"
      by (cases r) (auto simp: fails_with_def)
    obtain k where k: "k \<le> n" "retry_loop caught n handler s' = handler (after_runs handler k s')"
      "\<forall>j < k. fails_with caught (snd (handler (after_runs handler j s')))"
      "fails_with caught (snd (retry_loop caught n handler s')) \<longrightarrow> k = n"
      using Suc.IH [of s'] by blast
    have early: "fails_with caught (snd (handler (after_runs handler j s)))" if "j < Suc k" for j
      using that k(3) h r by (cases j) (simp_all add: fails_with_def)
    have loop: "retry_loop caught (Suc n) handler s = retry_loop caught n handler s'"
      using h r by simp
    have "after_runs handler (Suc k) s = after_runs handler k s'" using h by simp
    then show ?thesis
      unfolding loop using k(1,2,4) early by (intro exI [of _ "Suc k"]) simp
  next
    case False
    then show ?thesis
      using h by (intro exI [of _ 0]) (auto simp: fails_with_def split: sum.splits)
  qed
qed simp

text \<open>
  C17. Retrying: the decorated handler runs until it succeeds or raises something else than the
  caught exception, at most \<open>tries\<close> times and at least once, each run starting from the state
  the previous one left; what the last run returns or raises is the outcome, so the caught
  exception surfaces exactly when every one of the tries raised it.
\<close>

theorem retry_runs_until_settled:
  "\<exists>k < nat (max 1 tries).
     retry_on_unmet_condition_error tries handler s = handler (after_runs handler k s) \<and>
     (\<forall>j < k. fails_with is_unmet_condition (snd (handler (after_runs handler j s)))) \<and>
     (fails_with is_unmet_condition (snd (retry_on_unmet_condition_error tries handler s)) \<longrightarrow>
        k = nat (max 1 tries) - 1)"
proof -
  have "nat (max 1 tries) = Suc (nat (tries - 1))" by auto
  then show ?thesis
    using retry_loop_runs [of "nat (tries - 1)" is_unmet_condition handler s]
    by (simp add: retry_on_unmet_condition_error_def retry_on_error_def less_Suc_eq_le)
qed

text \<open>A handler that fails twice before it succeeds, under three and under two tries.\<close>

definition flaky_handler :: "(int, unit) handler" where
  "flaky_handler n =
     (n + 1, if n < 2 then Inl (UnmetWriteConditionError ''unexpected stream position'') else Inr ())"

theorem retry_runs_until_settled_witness:
  "retry_on_unmet_condition_error 3 flaky_handler 0 = (3, Inr ()) \<and>
   (\<exists>k < 3. retry_on_unmet_condition_error 3 flaky_handler 0
        = flaky_handler (after_runs flaky_handler k 0)) \<and>
   \<not> is_ok (snd (retry_on_unmet_condition_error 2 flaky_handler 0))"
proof -
  have "retry_on_unmet_condition_error 3 flaky_handler 0 = (3, Inr ())"
    "\<not> is_ok (snd (retry_on_unmet_condition_error 2 flaky_handler 0))"
    by code_simp+
  moreover have "\<exists>k < 3. retry_on_unmet_condition_error 3 flaky_handler 0
      = flaky_handler (after_runs flaky_handler k 0)"
    using retry_runs_until_settled [of 3 flaky_handler 0] by auto
  ultimately show ?thesis by blast
qed

end
