(* ===== verification/Query_Model.thy ===== *)
theory Query_Model
  imports Event_Types
begin

section \<open>Queries and the Python values they compare\<close>

text \<open>
  Models the package \<open>query/\<close> (paths, functions, clauses and queries) and the Python
  operators the interpretation of queries relies on: \<open>==\<close>, \<open><\<close>, \<open>in\<close> and subscripts on the
  values a projection can hold.

  A query value (\<open>qval\<close>) is a Python value or an event source identifier, which projections
  keep in their \<open>source\<close> attribute. Numbers compare by value whatever their class
  (\<open>True == 1 == 1.0\<close>); dictionaries compare irrespective of order, their keys being strings.
\<close>

subsection \<open>query/utilities.py, query/functions.py, query/clauses.py, query/queries.py\<close>

datatype path_segment = Key string | Index int

datatype path = Path (top_level: string) (sub_levels: "path_segment list")

definition is_nested :: "path \<Rightarrow> bool" where
  "is_nested p \<longleftrightarrow> length (sub_levels p) > 0"

datatype 'u query_function =
    Similarity (fn_alias: string) path string
  | UserFunction (fn_alias: string) 'u

datatype operator =
    EQUAL | NOT_EQUAL | GREATER_THAN | GREATER_THAN_OR_EQUAL | LESS_THAN | LESS_THAN_OR_EQUAL
  | IN | CONTAINS | REGEX_MATCHES | NOT_REGEX_MATCHES

datatype sort_order = ASC | DESC

datatype paging_direction = FORWARDS | BACKWARDS

datatype 'o qval = QVal "'o pyval" | QId event_source_identifier

datatype 'u field = PathField path | FunctionField "'u query_function"

record 'u sort_field =
  sf_field :: "'u field"
  sf_order :: sort_order

record keyset_paging =
  kp_last_id :: "string option"
  kp_direction :: paging_direction
  kp_item_count :: int

record offset_paging =
  op_page_number :: int
  op_item_count :: int

datatype ('o, 'u) clause =
    FilterClause operator path "'o qval"
  | SortClause "'u sort_field list"
  | KeySetPagingClause keyset_paging
  | OffsetPagingClause offset_paging
  | UserClause 'u

definition is_forwards :: "keyset_paging \<Rightarrow> bool" where
  "is_forwards k \<longleftrightarrow> kp_last_id k \<noteq> None \<and> kp_direction k = FORWARDS"

definition is_backwards :: "keyset_paging \<Rightarrow> bool" where
  "is_backwards k \<longleftrightarrow> kp_last_id k \<noteq> None \<and> kp_direction k = BACKWARDS"

definition is_first_page :: "keyset_paging \<Rightarrow> bool" where
  "is_first_page k \<longleftrightarrow> kp_last_id k = None"

definition paging_offset :: "offset_paging \<Rightarrow> int" where
  "paging_offset p = (op_page_number p - 1) * op_item_count p"

datatype ('o, 'u) query =
    Search "('o, 'u) clause list" "('o, 'u) clause option" "('o, 'u) clause option"
  | Lookup "('o, 'u) clause list"
  | UserQuery 'u

subsection \<open>Python equality\<close>

fun py_num :: "'o pyval \<Rightarrow> rat option" where
  "py_num (PyBool b) = Some (if b then 1 else 0)"
| "py_num (PyInt i) = Some (of_int i)"
| "py_num (PyFloat q) = Some q"
| "py_num _ = None"

lemma size_zip_left [termination_simp]:
  "(x, y) \<in> set (zip xs ys) \<Longrightarrow> size x < Suc (size_list size (xs :: 'a::size list))"
  by (auto dest!: set_zip_leftD intro: size_list_estimation simp: less_Suc_eq_le
      intro!: size_list_estimation')

lemma size_dict_value [termination_simp]:
  "(k, v) \<in> set kvs \<Longrightarrow> size v < Suc (size_list (size_prod size size) kvs)"
  using size_snd_dict [of "(k, v)" kvs] by simp

fun py_eq :: "'o pyval \<Rightarrow> 'o pyval \<Rightarrow> bool" where
  "py_eq PyNone b = (case b of PyNone \<Rightarrow> True | _ \<Rightarrow> False)"
| "py_eq (PyStr s) b = (case b of PyStr t \<Rightarrow> s = t | _ \<Rightarrow> False)"
| "py_eq (PyList xs) b =
     (case b of
        PyList ys \<Rightarrow> length xs = length ys \<and> list_all (\<lambda>(x, y). py_eq x y) (zip xs ys)
      | _ \<Rightarrow> False)"
| "py_eq (PyDict xs) b =
     (case b of
        PyDict ys \<Rightarrow> length xs = length ys \<and>
          list_all (\<lambda>(k, v). list_ex (\<lambda>(k', v'). k' = k \<and> py_eq v v') ys) xs
      | _ \<Rightarrow> False)"
| "py_eq (PyObj x) b = (case b of PyObj y \<Rightarrow> x = y | _ \<Rightarrow> False)"
| "py_eq (PyBool x) b = (py_num b = Some (if x then 1 else 0))"
| "py_eq (PyInt x) b = (py_num b = Some (of_int x))"
| "py_eq (PyFloat x) b = (py_num b = Some x)"

lemma py_eq_refl [simp]: "py_eq v v"
proof (induction v)
  case (PyList xs)
  then show ?case by (auto simp: list_all_iff zip_same)
next
  case (PyDict kvs)
  have "list_ex (\<lambda>(k', v'). k' = k \<and> py_eq v v') kvs" if "(k, v) \<in> set kvs" for k v
    using PyDict.IH(2) [OF that] that by (auto simp: list_ex_iff intro!: bexI [of _ "(k, v)"])
  then show ?case by (auto simp: list_all_iff)
qed auto

lemma py_eq_str [simp]: "py_eq v (PyStr s) \<longleftrightarrow> v = PyStr s"
  by (cases v) auto

definition qval_eq :: "'o qval \<Rightarrow> 'o qval \<Rightarrow> bool" where
  "qval_eq a b =
     (case (a, b) of (QVal v, QVal w) \<Rightarrow> py_eq v w | (QId i, QId j) \<Rightarrow> i = j | _ \<Rightarrow> False)"

lemma qval_eq_simps [simp]:
  "qval_eq (QVal v) (QVal w) = py_eq v w" "qval_eq (QId i) (QId j) \<longleftrightarrow> i = j"
  "\<not> qval_eq (QVal v) (QId j)" "\<not> qval_eq (QId i) (QVal w)"
  by (simp_all add: qval_eq_def)

subsection \<open>Python ordering, membership and subscripts\<close>

definition type_error :: "'a res" where
  "type_error = Inl (TypeError ''unsupported operand types'')"

fun py_less :: "'o pyval \<Rightarrow> 'o pyval \<Rightarrow> bool res"
  and py_less_list :: "'o pyval list \<Rightarrow> 'o pyval list \<Rightarrow> bool res" where
  "py_less (PyStr s) b = (case b of PyStr t \<Rightarrow> Inr (s < t) | _ \<Rightarrow> type_error)"
| "py_less (PyList xs) b = (case b of PyList ys \<Rightarrow> py_less_list xs ys | _ \<Rightarrow> type_error)"
| "py_less a b =
     (case (py_num a, py_num b) of (Some x, Some y) \<Rightarrow> Inr (x < y) | _ \<Rightarrow> type_error)"
| "py_less_list [] ys = Inr (ys \<noteq> [])"
| "py_less_list (x # xs) [] = Inr False"
| "py_less_list (x # xs) (y # ys) = (if py_eq x y then py_less_list xs ys else py_less x y)"

text \<open>The other comparisons, which for numbers, strings and lists follow from \<open><\<close>.\<close>

fun qval_less :: "'o qval \<Rightarrow> 'o qval \<Rightarrow> bool res" where
  "qval_less (QVal a) (QVal b) = py_less a b"
| "qval_less _ _ = type_error"

definition qval_less_eq :: "'o qval \<Rightarrow> 'o qval \<Rightarrow> bool res" where
  "qval_less_eq a b = res_bind (qval_less b a) (\<lambda>r. Inr (\<not> r))"

fun unhashable :: "'o pyval \<Rightarrow> bool" where
  "unhashable (PyList _) = True"
| "unhashable (PyDict _) = True"
| "unhashable _ = False"

text \<open>\<open>item in container\<close>\<close>

fun py_in :: "'o pyval \<Rightarrow> 'o pyval \<Rightarrow> bool res" where
  "py_in item (PyList xs) = Inr (list_ex (py_eq item) xs)"
| "py_in item (PyStr s) = (case item of PyStr t \<Rightarrow> Inr (sublist t s) | _ \<Rightarrow> type_error)"
| "py_in item (PyDict kvs) =
     (if unhashable item then type_error else Inr (list_ex (\<lambda>(k, _). py_eq item k) kvs))"
| "py_in item _ = type_error"

fun qval_in :: "'o qval \<Rightarrow> 'o qval \<Rightarrow> bool res" where
  "qval_in (QVal item) (QVal container) = py_in item container"
| "qval_in (QId i) (QVal (PyList xs)) = Inr False"
| "qval_in (QId i) (QVal (PyDict kvs)) = Inr False"
| "qval_in _ _ = type_error"

text \<open>\<open>value[segment]\<close>\<close>

definition dict_item :: "('o pyval \<times> 'o pyval) list \<Rightarrow> 'o pyval \<Rightarrow> 'o pyval res" where
  "dict_item kvs k =
     (case find (\<lambda>(k', _). py_eq k k') kvs of
        None \<Rightarrow> Inl (KeyError ''key'')
      | Some (_, v) \<Rightarrow> Inr v)"

fun py_getitem :: "'o pyval \<Rightarrow> path_segment \<Rightarrow> 'o pyval res" where
  "py_getitem (PyDict kvs) (Key k) = dict_item kvs (PyStr k)"
| "py_getitem (PyDict kvs) (Index i) = dict_item kvs (PyInt i)"
| "py_getitem (PyList xs) (Index i) = py_index xs i"
| "py_getitem (PyStr s) (Index i) = res_bind (py_index s i) (\<lambda>c. Inr (PyStr [c]))"
| "py_getitem _ _ = type_error"

fun qval_getitem :: "'o qval \<Rightarrow> path_segment \<Rightarrow> 'o qval res" where
  "qval_getitem (QVal v) seg = res_bind (py_getitem v seg) (\<lambda>w. Inr (QVal w))"
| "qval_getitem (QId i) seg = type_error"

text \<open>
  Values of one kind, numbers or strings, are totally preordered by \<open><\<close>; this is what makes a
  sort by them succeed.
\<close>

definition same_kind :: "'o pyval \<Rightarrow> 'o pyval \<Rightarrow> bool" where
  "same_kind a b \<longleftrightarrow> (py_num a \<noteq> None \<and> py_num b \<noteq> None) \<or> (is_py_str a \<and> is_py_str b)"

lemma py_less_num: "py_num a = Some x \<Longrightarrow> py_num b = Some y \<Longrightarrow> py_less a b = Inr (x < y)"
  by (cases a) auto

lemma py_eq_num: "py_num a = Some x \<Longrightarrow> py_num b = Some y \<Longrightarrow> py_eq a b \<longleftrightarrow> x = y"
  by (cases a) auto

lemma same_kind_cases:
  assumes "same_kind a b"
  obtains (num) x y where "py_num a = Some x" "py_num b = Some y"
  | (str) s t where "a = PyStr s" "b = PyStr t"
  using assms by (cases a; cases b) (auto simp: same_kind_def)

end
