(* ===== verification/Query_Meaning.thy ===== *)
theory Query_Meaning
  imports Query_Model
begin

section \<open>What comparisons mean\<close>

text \<open>
  The meaning of Python's comparisons on the values of \<open>Query_Model\<close>, stated as relations and
  without the functions that decide them: when two values are the same, which values have an order
  and which of two comes first, what is in what, and where a path leads. The lemmas say that the
  functions decide these relations, and raise exactly where there is nothing to decide.
\<close>

subsection \<open>Values\<close>

text \<open>The dictionaries of a proper value have strings as keys, each once.\<close>

fun proper :: "'o pyval \<Rightarrow> bool" where
  "proper (PyList vs) = list_all proper vs"
| "proper (PyDict kvs) =
     (distinct (map fst kvs) \<and> list_all (\<lambda>kv. is_py_str (fst kv) \<and> proper (snd kv)) kvs)"
| "proper _ = True"

fun proper_qval :: "'o qval \<Rightarrow> bool" where
  "proper_qval (QVal v) = proper v"
| "proper_qval (QId i) = True"

text \<open>
  Numbers are the same when their values are, whatever their class; lists when their items are, one
  by one; dictionaries when they have the same keys with the same values.
\<close>

inductive same :: "'o pyval \<Rightarrow> 'o pyval \<Rightarrow> bool" where
  number: "py_num a = Some x \<Longrightarrow> py_num b = Some x \<Longrightarrow> same a b"
| none: "same PyNone PyNone"
| characters: "same (PyStr s) (PyStr s)"
| object: "same (PyObj x) (PyObj x)"
| items: "list_all2 same xs ys \<Longrightarrow> same (PyList xs) (PyList ys)"
| entries: "fst ` set xs = fst ` set ys
    \<Longrightarrow> (\<forall>k v w. map_of xs k = Some v \<longrightarrow> map_of ys k = Some w \<longrightarrow> same v w)
    \<Longrightarrow> same (PyDict xs) (PyDict ys)"

inductive_cases same_listE: "same (PyList xs) b"
inductive_cases same_dictE: "same (PyDict xs) b"
inductive_cases same_noneE: "same PyNone b"
inductive_cases same_strE: "same (PyStr s) b"
inductive_cases same_objE: "same (PyObj x) b"

text \<open>
  Numbers are ordered by value, strings as words in a dictionary, lists by the first items that are
  not the same; a list comes before those it begins. Other values have no order, nor have values of
  different kinds, nor lists whose first different items have none.
\<close>

inductive alike :: "'o pyval \<Rightarrow> 'o pyval \<Rightarrow> bool" where
  numbers: "py_num a = Some x \<Longrightarrow> py_num b = Some y \<Longrightarrow> alike a b"
| texts: "alike (PyStr s) (PyStr t)"
| differ: "list_all2 same us ws \<Longrightarrow> \<not> same x y \<Longrightarrow> alike x y
    \<Longrightarrow> alike (PyList (us @ x # xs)) (PyList (ws @ y # ys))"
| begins: "list_all2 same us ws \<Longrightarrow> xs = [] \<or> ys = [] \<Longrightarrow> alike (PyList (us @ xs)) (PyList (ws @ ys))"

inductive precedes :: "'o pyval \<Rightarrow> 'o pyval \<Rightarrow> bool" where
  numbers: "py_num a = Some x \<Longrightarrow> py_num b = Some y \<Longrightarrow> x < y \<Longrightarrow> precedes a b"
| texts: "s < t \<Longrightarrow> precedes (PyStr s) (PyStr t)"
| differ: "list_all2 same us ws \<Longrightarrow> \<not> same x y \<Longrightarrow> precedes x y
    \<Longrightarrow> precedes (PyList (us @ x # xs)) (PyList (ws @ y # ys))"
| begins: "list_all2 same us ws \<Longrightarrow> precedes (PyList us) (PyList (ws @ y # ys))"

text \<open>
  A list contains what is the same as one of its items, a string its parts, a dictionary its keys.
  Nothing but a string can be searched for in a string, nothing mutable in a dictionary.
\<close>

inductive contained :: "'o pyval \<Rightarrow> 'o pyval \<Rightarrow> bool" where
  item: "v \<in> set xs \<Longrightarrow> same u v \<Longrightarrow> contained u (PyList xs)"
| part: "contained (PyStr t) (PyStr (us @ t @ ws))"
| key: "(k, v) \<in> set kvs \<Longrightarrow> same u k \<Longrightarrow> contained u (PyDict kvs)"

inductive_cases contained_listE: "contained u (PyList xs)"
inductive_cases contained_strE: "contained u (PyStr s)"
inductive_cases contained_dictE: "contained u (PyDict kvs)"

fun searchable :: "'o pyval \<Rightarrow> 'o pyval \<Rightarrow> bool" where
  "searchable u (PyList xs) = True"
| "searchable u (PyStr s) = is_py_str u"
| "searchable (PyList xs) (PyDict kvs) = False"
| "searchable (PyDict xs) (PyDict kvs) = False"
| "searchable u (PyDict kvs) = True"
| "searchable u v = False"

subsection \<open>Equality decided\<close>

lemma same_num: "py_num a = Some x \<Longrightarrow> same a b \<longleftrightarrow> py_num b = Some x"
  by (auto intro: same.number elim: same.cases)

lemma same_sym: "same a b \<Longrightarrow> same b a"
proof (induction rule: same.induct)
  case (items xs ys)
  then show ?case by (intro same.items) (simp add: list_all2_conv_all_nth)
next
  case (entries xs ys)
  then show ?case by (intro same.entries) auto
qed (auto intro: same.intros)

lemma map_of_keys: "fst ` set xs = fst ` set ys \<Longrightarrow> map_of xs k = Some v \<Longrightarrow> \<exists>w. map_of ys k = Some w"
  by (metis map_of_eq_None_iff not_Some_eq)

lemma same_iff: "proper a \<Longrightarrow> proper b \<Longrightarrow> same a b \<longleftrightarrow> py_eq a b"
proof (induction a arbitrary: b)
  case (PyList xs)
  show ?case
  proof (cases b)
    case (PyList ys)
    have "same x y \<longleftrightarrow> py_eq x y" if "x \<in> set xs" "y \<in> set ys" for x y
      using that PyList.IH [OF that(1), of y] PyList.prems PyList by (simp add: list_all_iff)
    then have "list_all2 same xs ys \<longleftrightarrow> list_all2 py_eq xs ys" by (intro list.rel_cong) simp_all
    moreover have "py_eq (PyList xs) b \<longleftrightarrow> list_all2 py_eq xs ys" by (simp add: PyList list_all2_iff list_all_iff)
    moreover have "same (PyList xs) b \<longleftrightarrow> list_all2 same xs ys"
      by (auto simp: PyList intro: same.items elim: same_listE)
    ultimately show ?thesis by simp
  qed (auto elim: same_listE)
next
  case (PyDict xs)
  show ?case
  proof (cases b)
    case (PyDict ys)
    have distinct: "distinct (map fst xs)" "distinct (map fst ys)" using PyDict.prems PyDict by simp_all
    have IH: "same v w \<longleftrightarrow> py_eq v w" if "(k, v) \<in> set xs" "(k', w) \<in> set ys" for k v k' w
      using that PyDict.IH(2) [OF that(1), of v w] PyDict.prems PyDict by (force simp: list_all_iff)
    have eq: "py_eq (PyDict xs) b \<longleftrightarrow> length xs = length ys
        \<and> (\<forall>(k, v) \<in> set xs. \<exists>w. (k, w) \<in> set ys \<and> py_eq v w)"
      by (auto simp: PyDict list_all_iff list_ex_iff) fastforce+
    have card: "card (fst ` set xs) = length xs" "card (fst ` set ys) = length ys"
      using distinct distinct_card by (metis length_map list.set_map)+
    show ?thesis
    proof
      assume "same (PyDict xs) b"
      then have keys: "fst ` set xs = fst ` set ys"
        and vals: "\<And>k v w. map_of xs k = Some v \<Longrightarrow> map_of ys k = Some w \<Longrightarrow> same v w"
        by (auto simp: PyDict elim!: same_dictE)
      have "\<exists>w. (k, w) \<in> set ys \<and> py_eq v w" if kv: "(k, v) \<in> set xs" for k v
      proof -
        have v: "map_of xs k = Some v" using kv distinct(1) by simp
        then obtain w where w: "map_of ys k = Some w" using map_of_keys [OF keys] by blast
        then show ?thesis using IH [OF kv map_of_SomeD [OF w]] vals [OF v w] map_of_SomeD [OF w] by blast
      qed
      moreover have "length xs = length ys" using keys card by simp
      ultimately show "py_eq (PyDict xs) b" unfolding eq by blast
    next
      assume "py_eq (PyDict xs) b"
      then have len: "length xs = length ys"
        and sub: "\<And>k v. (k, v) \<in> set xs \<Longrightarrow> \<exists>w. (k, w) \<in> set ys \<and> py_eq v w" unfolding eq by auto
      have "fst ` set xs \<subseteq> fst ` set ys" using sub by force
      then have keys: "fst ` set xs = fst ` set ys" using card len by (simp add: card_subset_eq)
      have "same v w" if v: "map_of xs k = Some v" and w: "map_of ys k = Some w" for k v w
      proof -
        obtain w' where "(k, w') \<in> set ys" "py_eq v w'" using sub [OF map_of_SomeD [OF v]] by blast
        then show ?thesis using w distinct(2) IH [OF map_of_SomeD [OF v] map_of_SomeD [OF w]] by simp
      qed
      then show "same (PyDict xs) b" unfolding PyDict using keys by (auto intro!: same.entries)
    qed
  qed (auto elim: same_dictE)
next
  case PyNone
  then show ?case by (cases b) (auto intro: same.none elim: same_noneE)
next
  case (PyStr s)
  then show ?case by (cases b) (auto intro: same.characters elim: same_strE)
next
  case (PyObj x)
  then show ?case by (cases b) (auto intro: same.object elim: same_objE)
qed (simp_all add: same_num)

subsection \<open>Order decided\<close>

inductive_cases alike_listE: "alike (PyList xs) b"
inductive_cases precedes_listE: "precedes (PyList xs) b"
inductive_cases alike_strE: "alike (PyStr s) b"
inductive_cases precedes_strE: "precedes (PyStr s) b"

lemma alike_Nil [simp]: "alike (PyList []) (PyList ys)" "alike (PyList xs) (PyList [])"
  using alike.begins [of "[]" "[]" "[]" ys] alike.begins [of "[]" "[]" xs "[]"] by simp_all

lemma alike_Cons:
  "alike (PyList (x # xs)) (PyList (y # ys)) \<longleftrightarrow>
     (if same x y then alike (PyList xs) (PyList ys) else alike x y)"
proof
  assume "alike (PyList (x # xs)) (PyList (y # ys))"
  then show "if same x y then alike (PyList xs) (PyList ys) else alike x y"
  proof (cases rule: alike.cases)
    case (differ us ws u w us' ws')
    then show ?thesis by (cases us; cases ws) (auto intro: alike.differ)
  next
    case (begins us ws us' ws')
    then show ?thesis by (cases us; cases ws) (auto intro: alike.begins)
  qed simp_all
next
  assume rest: "if same x y then alike (PyList xs) (PyList ys) else alike x y"
  show "alike (PyList (x # xs)) (PyList (y # ys))"
  proof (cases "same x y")
    case True
    then have "alike (PyList xs) (PyList ys)" using rest by simp
    then show ?thesis
    proof (cases rule: alike.cases)
      case (differ us ws u w us' ws')
      then show ?thesis using alike.differ [of "x # us" "y # ws" u w us' ws'] True by simp
    next
      case (begins us ws us' ws')
      then show ?thesis using alike.begins [of "x # us" "y # ws" us' ws'] True by simp
    qed simp_all
  next
    case False
    then show ?thesis using rest alike.differ [of "[]" "[]" x y xs ys] by simp
  qed
qed

lemma precedes_Nil [simp]:
  "precedes (PyList []) (PyList ys) \<longleftrightarrow> ys \<noteq> []" "\<not> precedes (PyList (x # xs)) (PyList [])"
proof -
  show "precedes (PyList []) (PyList ys) \<longleftrightarrow> ys \<noteq> []"
    using precedes.begins [of "[]" "[]"] by (cases ys) (auto elim: precedes.cases)
  show "\<not> precedes (PyList (x # xs)) (PyList [])" by (auto elim: precedes.cases)
qed

lemma precedes_Cons:
  "precedes (PyList (x # xs)) (PyList (y # ys)) \<longleftrightarrow>
     (if same x y then precedes (PyList xs) (PyList ys) else precedes x y)"
proof
  assume "precedes (PyList (x # xs)) (PyList (y # ys))"
  then show "if same x y then precedes (PyList xs) (PyList ys) else precedes x y"
  proof (cases rule: precedes.cases)
    case (differ us ws u w us' ws')
    then show ?thesis by (cases us; cases ws) (auto intro: precedes.differ)
  next
    case (begins ws w ws')
    then show ?thesis by (cases ws) (auto intro: precedes.begins)
  qed simp_all
next
  assume rest: "if same x y then precedes (PyList xs) (PyList ys) else precedes x y"
  show "precedes (PyList (x # xs)) (PyList (y # ys))"
  proof (cases "same x y")
    case True
    then have "precedes (PyList xs) (PyList ys)" using rest by simp
    then show ?thesis
    proof (cases rule: precedes.cases)
      case (differ us ws u w us' ws')
      then show ?thesis using precedes.differ [of "x # us" "y # ws" u w us' ws'] True by simp
    next
      case (begins ws w ws')
      then show ?thesis using precedes.begins [of "x # xs" "y # ws" w ws'] True by simp
    qed simp_all
  next
    case False
    then show ?thesis using rest precedes.differ [of "[]" "[]" x y xs ys] by simp
  qed
qed

lemma alike_num: "py_num a = Some x \<Longrightarrow> alike a b \<longleftrightarrow> py_num b \<noteq> None"
  by (auto intro: alike.numbers elim: alike.cases)

lemma precedes_num: "py_num a = Some x \<Longrightarrow> py_num b = Some y \<Longrightarrow> precedes a b \<longleftrightarrow> x < y"
  by (auto intro: precedes.numbers elim: precedes.cases)

lemma precedes_str: "precedes (PyStr s) (PyStr t) \<longleftrightarrow> s < t"
  by (auto intro: precedes.texts elim: precedes_strE)

lemma same_str: "same (PyStr s) (PyStr t) \<longleftrightarrow> s = t"
  by (auto intro: same.characters elim: same_strE)

lemma py_less_decides:
  fixes a b :: "'o pyval" and xs ys :: "'o pyval list"
  shows
  "proper a \<Longrightarrow> proper b \<Longrightarrow> py_less a b = (if alike a b then Inr (precedes a b) else type_error)"
  "list_all proper xs \<Longrightarrow> list_all proper ys \<Longrightarrow>
     py_less_list xs ys = (if alike (PyList xs) (PyList ys) then Inr (precedes (PyList xs) (PyList ys)) else type_error)"
proof (induction a b and xs ys rule: py_less_py_less_list.induct)
  case (1 s b)
  show ?case by (cases b) (auto intro: alike.texts precedes.texts elim: alike_strE precedes_strE)
next
  case (2 xs b)
  then show ?case by (cases b) (auto elim: alike_listE)
next
  case (6 x xs y ys)
  then show ?case by (simp add: alike_Cons precedes_Cons same_iff)
qed (auto simp: alike_num precedes_num split: option.split elim: alike.cases)

lemma order_total:
  "alike a b \<Longrightarrow> alike b a \<and> (\<not> precedes b a \<longleftrightarrow> precedes a b \<or> same a b)"
proof (induction rule: alike.induct)
  case (numbers a x b y)
  then show ?case by (auto simp: alike_num precedes_num same_num)
next
  case (texts s t)
  show ?case by (auto simp: precedes_str same_str intro: alike.texts)
next
  case (differ us ws x y xs ys)
  from differ.hyps(1) show ?case
  proof (induction us ws rule: list_all2_induct)
    case Nil
    then show ?case using differ.hyps(2) differ.IH same_sym [of y x]
      by (auto simp: alike_Cons precedes_Cons elim!: same_listE)
  next
    case (Cons u us w ws)
    then show ?case using same_sym [of u w]
      by (auto simp: alike_Cons precedes_Cons intro: same.items elim!: same_listE)
  qed
next
  case (begins us ws xs ys)
  from begins(1) show ?case
  proof (induction us ws rule: list_all2_induct)
    case Nil
    then show ?case using begins(2) by (cases xs; cases ys) (auto intro: same.items elim!: same_listE)
  next
    case (Cons u us w ws)
    then show ?case using same_sym [of u w]
      by (auto simp: alike_Cons precedes_Cons intro: same.items elim!: same_listE)
  qed
qed

subsection \<open>Membership decided\<close>

lemma proper_key: "proper (PyDict kvs) \<Longrightarrow> (k, v) \<in> set kvs \<Longrightarrow> \<exists>s. k = PyStr s"
  by (cases k) (auto simp: list_all_iff)

lemma py_in_decides:
  fixes u v :: "'o pyval"
  assumes "proper u" "proper v"
  shows "py_in u v = (if searchable u v then Inr (contained u v) else type_error)"
proof (cases v)
  case (PyList xs)
  have "contained u v \<longleftrightarrow> (\<exists>x \<in> set xs. same u x)"
    by (auto simp: PyList intro: contained.item elim: contained_listE)
  also have "\<dots> \<longleftrightarrow> list_ex (py_eq u) xs"
    using assms by (auto simp: PyList list_all_iff list_ex_iff same_iff)
  finally show ?thesis by (simp add: PyList)
next
  case (PyStr s)
  have "contained (PyStr t :: 'o pyval) (PyStr s) \<longleftrightarrow> sublist t s" for t
    using contained.part [of t] by (auto simp: sublist_def elim!: contained_strE)
  then show ?thesis by (cases u) (simp_all add: PyStr)
next
  case (PyDict kvs)
  have keys: "same u k \<longleftrightarrow> py_eq u k" if "(k, w) \<in> set kvs" for k w
    using proper_key [OF assms(2) [unfolded PyDict] that] assms(1) by (auto simp: same_iff simp del: py_eq_str)
  have "contained u v \<longleftrightarrow> (\<exists>(k, w) \<in> set kvs. same u k)"
    by (auto simp: PyDict intro: contained.key elim: contained_dictE)
  also have "\<dots> \<longleftrightarrow> list_ex (\<lambda>(k, _). py_eq u k) kvs"
    using keys by (auto simp: list_ex_iff)
  finally show ?thesis by (cases u) (simp_all add: PyDict)
qed simp_all

subsection \<open>Operators and paths\<close>

fun is_same :: "'o qval \<Rightarrow> 'o qval \<Rightarrow> bool" where
  "is_same (QVal a) (QVal b) = same a b"
| "is_same (QId i) (QId j) = (i = j)"
| "is_same _ _ = False"

fun have_order :: "'o qval \<Rightarrow> 'o qval \<Rightarrow> bool" where
  "have_order (QVal a) (QVal b) = alike a b"
| "have_order _ _ = False"

fun is_before :: "'o qval \<Rightarrow> 'o qval \<Rightarrow> bool" where
  "is_before (QVal a) (QVal b) = precedes a b"
| "is_before _ _ = False"

text \<open>An identifier is hashable, and in no list or dictionary of values.\<close>

fun may_contain :: "'o qval \<Rightarrow> 'o qval \<Rightarrow> bool" where
  "may_contain (QVal c) (QVal u) = searchable u c"
| "may_contain (QVal (PyList xs)) (QId i) = True"
| "may_contain (QVal (PyDict kvs)) (QId i) = True"
| "may_contain _ _ = False"

fun is_in :: "'o qval \<Rightarrow> 'o qval \<Rightarrow> bool" where
  "is_in (QVal u) (QVal c) = contained u c"
| "is_in _ _ = False"

text \<open>
  When a filter has an answer for the value \<open>a\<close> of a field and the value \<open>b\<close> it is compared with,
  and when the answer is yes; \<open>mt\<close> is \<open>re.match\<close> from a pattern and a text. A field that is \<open>None\<close>
  satisfies no regular expression and no negation of one.
\<close>

definition regex_answer :: "(string \<Rightarrow> string \<Rightarrow> bool res) \<Rightarrow> 'o qval \<Rightarrow> 'o qval \<Rightarrow> bool \<Rightarrow> bool" where
  "regex_answer mt a b answer \<longleftrightarrow>
     (\<exists>pattern s. b = QVal (PyStr pattern) \<and> a = QVal (PyStr s) \<and> mt pattern s = Inr answer)"

fun operator_defined :: "(string \<Rightarrow> string \<Rightarrow> bool res) \<Rightarrow> operator \<Rightarrow> 'o qval \<Rightarrow> 'o qval \<Rightarrow> bool" where
  "operator_defined mt EQUAL a b = True"
| "operator_defined mt NOT_EQUAL a b = True"
| "operator_defined mt IN a b = may_contain b a"
| "operator_defined mt CONTAINS a b = may_contain a b"
| "operator_defined mt REGEX_MATCHES a b \<longleftrightarrow> a = QVal PyNone \<or> regex_answer mt a b True \<or> regex_answer mt a b False"
| "operator_defined mt NOT_REGEX_MATCHES a b \<longleftrightarrow> a = QVal PyNone \<or> regex_answer mt a b True \<or> regex_answer mt a b False"
| "operator_defined mt _ a b = have_order a b"

fun operator_holds :: "(string \<Rightarrow> string \<Rightarrow> bool res) \<Rightarrow> operator \<Rightarrow> 'o qval \<Rightarrow> 'o qval \<Rightarrow> bool" where
  "operator_holds mt EQUAL a b = is_same a b"
| "operator_holds mt NOT_EQUAL a b = (\<not> is_same a b)"
| "operator_holds mt GREATER_THAN a b = is_before b a"
| "operator_holds mt GREATER_THAN_OR_EQUAL a b = (is_before b a \<or> is_same a b)"
| "operator_holds mt LESS_THAN a b = is_before a b"
| "operator_holds mt LESS_THAN_OR_EQUAL a b = (is_before a b \<or> is_same a b)"
| "operator_holds mt IN a b = is_in a b"
| "operator_holds mt CONTAINS a b = is_in b a"
| "operator_holds mt REGEX_MATCHES a b = regex_answer mt a b True"
| "operator_holds mt NOT_REGEX_MATCHES a b = regex_answer mt a b False"

text \<open>Where the keys and indices below an attribute lead; an index may count from the end.\<close>

inductive leads :: "'o qval \<Rightarrow> path_segment list \<Rightarrow> 'o qval \<Rightarrow> bool" where
  here: "leads v [] v"
| at_key: "(PyStr k, w) \<in> set kvs \<Longrightarrow> leads (QVal w) segs u \<Longrightarrow> leads (QVal (PyDict kvs)) (Key k # segs) u"
| at_index: "n < length xs \<Longrightarrow> i = int n \<or> i = int n - int (length xs) \<Longrightarrow> leads (QVal (xs ! n)) segs u
    \<Longrightarrow> leads (QVal (PyList xs)) (Index i # segs) u"
| at_character: "n < length s \<Longrightarrow> i = int n \<or> i = int n - int (length s) \<Longrightarrow> leads (QVal (PyStr [s ! n])) segs u
    \<Longrightarrow> leads (QVal (PyStr s)) (Index i # segs) u"

inductive_cases leads_NilE: "leads v [] u"
inductive_cases leads_ConsE: "leads v (seg # segs) u"

lemma qval_eq_decides: "proper_qval a \<Longrightarrow> proper_qval b \<Longrightarrow> qval_eq a b = is_same a b"
  by (cases a; cases b) (simp_all add: same_iff)

lemma qval_less_decides:
  "proper_qval a \<Longrightarrow> proper_qval b \<Longrightarrow> qval_less a b = (if have_order a b then Inr (is_before a b) else type_error)"
  by (cases a; cases b) (simp_all add: py_less_decides)

lemma have_order_sym: "have_order a b \<longleftrightarrow> have_order b a"
  by (cases a; cases b) (auto dest: order_total)

lemma is_same_sym: "is_same a b \<longleftrightarrow> is_same b a"
  by (cases a; cases b) (auto dest: same_sym)

lemma qval_less_eq_decides:
  assumes "proper_qval a" "proper_qval b"
  shows "qval_less_eq a b = (if have_order a b then Inr (is_before a b \<or> is_same a b) else type_error)"
proof -
  have "\<not> is_before b a \<longleftrightarrow> is_before a b \<or> is_same a b" if "have_order a b"
    using that by (cases a; cases b) (simp_all add: order_total)
  then show ?thesis
    using assms by (simp add: qval_less_eq_def qval_less_decides have_order_sym [of b a] type_error_def)
qed

lemma qval_in_decides:
  assumes "proper_qval u" "proper_qval c"
  shows "qval_in u c = (if may_contain c u then Inr (is_in u c) else type_error)"
proof (cases u)
  case (QVal v)
  then show ?thesis using assms by (cases c) (simp_all add: py_in_decides)
next
  case (QId i)
  then show ?thesis
  proof (cases c)
    case c: (QVal w)
    then show ?thesis using QId by (cases w) simp_all
  qed simp
qed

end
