(* ===== verification/Memory_Query.thy ===== *)
theory Memory_Query
  imports Query_Meaning
begin

section \<open>Interpreting queries over in-memory records\<close>

text \<open>
  Models \<open>persistence/memory/converters/\<close>: result sets and paths (\<open>types.py\<close>), the clauses
  (\<open>clause.py\<close>), the similarity function (\<open>function.py\<close>), the composition of transformers
  (\<open>helpers.py\<close>) and the registries that tie them together (\<open>query.py\<close>).

  The records are of any type: \<open>memory_env\<close> gives their attributes, their \<open>id\<close>, and
  \<open>re.match\<close> (the standard library's regular expression engine). A transformer may raise, so
  it is a function into \<open>res\<close>. Python's sort raises when it compares two keys that cannot be
  compared; for keys that are numbers, strings or \<open>None\<close> it compares such a pair exactly when
  one exists, which is how \<open>sorted_results\<close> decides. Texts are ASCII, and the score of two texts
  is the exact quotient.
\<close>

record ('r, 'o) memory_env =
  me_attribute :: "'r \<Rightarrow> string \<Rightarrow> 'o qval option"
  me_id :: "'r \<Rightarrow> string"
  me_match :: "string \<Rightarrow> string \<Rightarrow> bool res"

subsection \<open>types.py\<close>

record ('r, 'o) result =
  rs_record :: 'r
  rs_extra :: "(string, 'o qval) dict"

record ('r, 'o) result_set =
  set_results :: "('r, 'o) result list"
  set_extra :: "(string, 'o qval) dict"

type_synonym ('r, 'o) transformer = "('r, 'o) result_set \<Rightarrow> ('r, 'o) result_set res"

definition result_of :: "'r \<Rightarrow> ('r, 'o) result" where
  "result_of r = \<lparr>rs_record = r, rs_extra = []\<rparr>"

definition add_extra :: "string \<Rightarrow> 'o qval \<Rightarrow> ('r, 'o) result \<Rightarrow> ('r, 'o) result" where
  "add_extra key v r = \<lparr>rs_record = rs_record r, rs_extra = AList.update key v (rs_extra r)\<rparr>"

definition invalid_path :: "'a res" where
  "invalid_path = Inl (ValueError ''Invalid projection path'')"

fun descend :: "'o qval \<Rightarrow> path_segment list \<Rightarrow> 'o qval res" where
  "descend v [] = Inr v"
| "descend v (seg # segs) =
     (case qval_getitem v seg of
        Inl (KeyError _) \<Rightarrow> invalid_path
      | Inl err \<Rightarrow> Inl err
      | Inr w \<Rightarrow> descend w segs)"

definition lookup_in_record ::
  "('r, 'o) memory_env \<Rightarrow> ('r, 'o) result \<Rightarrow> path \<Rightarrow> 'o qval res" where
  "lookup_in_record env r p =
     (case me_attribute env (rs_record r) (top_level p) of
        None \<Rightarrow> invalid_path
      | Some v \<Rightarrow> descend v (sub_levels p))"

definition lookup_in_extra :: "('r, 'o) result \<Rightarrow> path \<Rightarrow> 'o qval res" where
  "lookup_in_extra r p =
     (case map_of (rs_extra r) (top_level p) of
        None \<Rightarrow> invalid_path
      | Some v \<Rightarrow> descend v (sub_levels p))"

definition lookup :: "('r, 'o) memory_env \<Rightarrow> ('r, 'o) result \<Rightarrow> path \<Rightarrow> 'o qval res" where
  "lookup env r p =
     (case lookup_in_extra r p of
        Inl (ValueError _) \<Rightarrow> lookup_in_record env r p
      | outcome \<Rightarrow> outcome)"

definition result_set_of :: "'r list \<Rightarrow> ('r, 'o) result_set" where
  "result_set_of records = \<lparr>set_results = map result_of records, set_extra = []\<rparr>"

definition result_records :: "('r, 'o) result_set \<Rightarrow> 'r list" where
  "result_records rs = map rs_record (set_results rs)"

definition with_results ::
  "('r, 'o) result list \<Rightarrow> ('r, 'o) result_set \<Rightarrow> ('r, 'o) result_set" where
  "with_results results rs = \<lparr>set_results = results, set_extra = set_extra rs\<rparr>"

subsection \<open>helpers.py\<close>

definition compose_transformers :: "('r, 'o) transformer list \<Rightarrow> ('r, 'o) transformer" where
  "compose_transformers fs = foldl (\<lambda>f g rs. res_bind (f rs) g) Inr fs"

subsection \<open>clause.py: filters\<close>

definition field_key :: "('r, 'o) memory_env \<Rightarrow> 'u field \<Rightarrow> ('r, 'o) result \<Rightarrow> 'o qval res" where
  "field_key env f r =
     (case f of
        FunctionField fn \<Rightarrow> lookup env r (Path (fn_alias fn) [])
      | PathField p \<Rightarrow> lookup env r p)"

fun regex_matches :: "('r, 'o) memory_env \<Rightarrow> 'o qval \<Rightarrow> 'o qval \<Rightarrow> bool res" where
  "regex_matches env (QVal (PyStr pattern)) (QVal (PyStr value)) = me_match env pattern value"
| "regex_matches env _ _ = type_error"

definition matches ::
  "('r, 'o) memory_env \<Rightarrow> operator \<Rightarrow> path \<Rightarrow> 'o qval \<Rightarrow> ('r, 'o) result \<Rightarrow> bool res" where
  "matches env operator field comparison item =
     res_bind (lookup env item field) (\<lambda>resolved.
       case operator of
         EQUAL \<Rightarrow> Inr (qval_eq resolved comparison)
       | NOT_EQUAL \<Rightarrow> Inr (\<not> qval_eq resolved comparison)
       | GREATER_THAN \<Rightarrow> qval_less comparison resolved
       | GREATER_THAN_OR_EQUAL \<Rightarrow> qval_less_eq comparison resolved
       | LESS_THAN \<Rightarrow> qval_less resolved comparison
       | LESS_THAN_OR_EQUAL \<Rightarrow> qval_less_eq resolved comparison
       | IN \<Rightarrow> qval_in resolved comparison
       | CONTAINS \<Rightarrow> qval_in comparison resolved
       | REGEX_MATCHES \<Rightarrow>
           (if resolved = QVal PyNone then Inr False else regex_matches env comparison resolved)
       | NOT_REGEX_MATCHES \<Rightarrow>
           (if resolved = QVal PyNone then Inr False
            else res_bind (regex_matches env comparison resolved) (\<lambda>b. Inr (\<not> b))))"

definition filter_transformer ::
  "('r, 'o) memory_env \<Rightarrow> operator \<Rightarrow> path \<Rightarrow> 'o qval \<Rightarrow> ('r, 'o) transformer" where
  "filter_transformer env operator field value rs =
     res_bind (res_filter (matches env operator field value) (set_results rs)) (\<lambda>kept.
     Inr (with_results kept rs))"

subsection \<open>clause.py: sorting\<close>

text \<open>\<open>sorted\<close> with a comparison: insertion before the first later element that is not smaller.\<close>

fun insert_stable :: "('a \<Rightarrow> 'a \<Rightarrow> bool) \<Rightarrow> 'a \<Rightarrow> 'a list \<Rightarrow> 'a list" where
  "insert_stable lt x [] = [x]"
| "insert_stable lt x (y # ys) = (if lt y x then y # insert_stable lt x ys else x # y # ys)"

definition stable_sort :: "('a \<Rightarrow> 'a \<Rightarrow> bool) \<Rightarrow> 'a list \<Rightarrow> 'a list" where
  "stable_sort lt xs = foldr (insert_stable lt) xs []"

definition key_less :: "'o qval \<Rightarrow> 'o qval \<Rightarrow> bool" where
  "key_less a b = (case qval_less a b of Inr r \<Rightarrow> r | Inl _ \<Rightarrow> False)"

definition comparable :: "'o qval \<Rightarrow> 'o qval \<Rightarrow> bool" where
  "comparable a b \<longleftrightarrow> is_ok (qval_less a b) \<and> is_ok (qval_less b a)"

fun all_comparable :: "'o qval list \<Rightarrow> bool" where
  "all_comparable [] = True"
| "all_comparable (k # ks) = (list_all (comparable k) ks \<and> all_comparable ks)"

definition order_less :: "sort_order \<Rightarrow> 'o qval \<Rightarrow> 'o qval \<Rightarrow> bool" where
  "order_less ord a b = (case ord of ASC \<Rightarrow> key_less a b | DESC \<Rightarrow> key_less b a)"

definition sorted_results ::
  "('r, 'o) memory_env \<Rightarrow> 'u sort_field \<Rightarrow> ('r, 'o) result list \<Rightarrow> ('r, 'o) result list res" where
  "sorted_results env f results =
     res_bind (res_map (field_key env (sf_field f)) results) (\<lambda>keys.
       if all_comparable keys
       then Inr (map fst (stable_sort (\<lambda>a b. order_less (sf_order f) (snd a) (snd b))
              (zip results keys)))
       else type_error)"

definition sort_transformer ::
  "('r, 'o) memory_env \<Rightarrow> 'u sort_field list \<Rightarrow> ('r, 'o) transformer" where
  "sort_transformer env fs rs =
     res_bind (res_fold (sorted_results env) (rev fs) (set_results rs)) (\<lambda>results.
     Inr (with_results results rs))"

subsection \<open>clause.py: paging\<close>

datatype last_index = LastIndexNotFound | LastIndexNotProvided | LastIndexFound nat

definition determine_last_index ::
  "('r, 'o) memory_env \<Rightarrow> ('r, 'o) result list \<Rightarrow> string option \<Rightarrow> last_index" where
  "determine_last_index env results last_id =
     (case last_id of
        None \<Rightarrow> LastIndexNotProvided
      | Some i \<Rightarrow>
          (case map fst (filter (\<lambda>(_, r). me_id env (rs_record r) = i) (enumerate 0 results)) of
             [index] \<Rightarrow> LastIndexFound index
           | _ \<Rightarrow> LastIndexNotFound))"

definition keyset_transformer ::
  "('r, 'o) memory_env \<Rightarrow> keyset_paging \<Rightarrow> ('r, 'o) transformer" where
  "keyset_transformer env item rs =
     (let results = set_results rs; n = kp_item_count item
      in Inr (with_results
        (case (determine_last_index env results (kp_last_id item), kp_direction item) of
           (LastIndexNotFound, _) \<Rightarrow> []
         | (LastIndexNotProvided, BACKWARDS) \<Rightarrow> []
         | (LastIndexNotProvided, FORWARDS) \<Rightarrow> py_slice results 0 n
         | (LastIndexFound i, FORWARDS) \<Rightarrow> py_slice results (int i + 1) (int i + 1 + n)
         | (LastIndexFound i, BACKWARDS) \<Rightarrow> py_slice results (max (int i - n) 0) (int i)) rs))"

definition offset_transformer :: "offset_paging \<Rightarrow> ('r, 'o) transformer" where
  "offset_transformer item rs =
     Inr (with_results (py_slice (set_results rs) (paging_offset item)
       (paging_offset item + op_item_count item)) rs)"

subsection \<open>function.py\<close>

definition is_word_char :: "char \<Rightarrow> bool" where
  "is_word_char ch \<longleftrightarrow> (let n = of_char ch :: nat in
     (48 \<le> n \<and> n \<le> 57) \<or> (65 \<le> n \<and> n \<le> 90) \<or> n = 95 \<or> (97 \<le> n \<and> n \<le> 122))"

definition lower_char :: "char \<Rightarrow> char" where
  "lower_char ch = (let n = of_char ch :: nat in
     if 65 \<le> n \<and> n \<le> 90 then char_of (n + 32) else ch)"

lemma length_dropWhile_less [termination_simp]: "length (dropWhile P xs) < Suc (length xs)"
  by (simp add: length_dropWhile_le less_Suc_eq_le)

text \<open>\<open>re.split(r"\W+", text)\<close>\<close>

fun split_non_word :: "string \<Rightarrow> string \<Rightarrow> string list" where
  "split_non_word acc [] = [rev acc]"
| "split_non_word acc (ch # cs) =
     (if is_word_char ch then split_non_word (ch # acc) cs
      else rev acc # split_non_word [] (dropWhile (\<lambda>d. \<not> is_word_char d) cs))"

definition ngrams_of_word :: "int \<Rightarrow> string \<Rightarrow> string list" where
  "ngrams_of_word n word =
     map (\<lambda>x. py_slice word x (x + n)) [0..int (length word) - n]"

definition find_ngrams :: "string \<Rightarrow> int \<Rightarrow> string list" where
  "find_ngrams text n =
     (if text = [] then []
      else remdups (concat (map (\<lambda>x. ngrams_of_word n (''  '' @ x @ '' ''))
             (filter (\<lambda>x. x \<noteq> []) (split_non_word [] (map lower_char text))))))"

definition score_similarity :: "string \<Rightarrow> string \<Rightarrow> int \<Rightarrow> rat res" where
  "score_similarity text1 text2 n =
     (let a = find_ngrams text1 n; b = find_ngrams text2 n;
          unique = length (remdups (a @ b)); equal = length (filter (\<lambda>x. x \<in> set b) a)
      in if unique = 0 then Inl ZeroDivisionError else Inr (of_nat equal / of_nat unique))"

definition text_of :: "'o qval \<Rightarrow> string res" where
  \<comment> \<open>\<open>not text\<close> holds of \<open>None\<close> and of the empty string; other values have no \<open>lower\<close>\<close>
  "text_of v =
     (case v of
        QVal (PyStr s) \<Rightarrow> Inr s
      | QVal PyNone \<Rightarrow> Inr []
      | QVal (PyList []) \<Rightarrow> Inr []
      | QVal (PyDict []) \<Rightarrow> Inr []
      | QVal w \<Rightarrow> if py_num w = Some 0 then Inr [] else Inl (AttributeError ''lower'')
      | QId _ \<Rightarrow> Inl (AttributeError ''lower''))"

definition similarity_transformer ::
  "('r, 'o) memory_env \<Rightarrow> string \<Rightarrow> path \<Rightarrow> string \<Rightarrow> ('r, 'o) transformer" where
  "similarity_transformer env name left right rs =
     res_bind (res_map (\<lambda>r.
         res_bind (lookup env r left) (\<lambda>v.
         res_bind (text_of v) (\<lambda>text.
         res_bind (score_similarity text right 3) (\<lambda>score.
         Inr (add_extra name (QVal (PyFloat score)) r))))) (set_results rs)) (\<lambda>results.
     Inr (with_results results rs))"

subsection \<open>query.py: registries and queries\<close>

datatype clause_class =
    FilterClause_class | SortClause_class | KeySetPagingClause_class | OffsetPagingClause_class
  | UserClause_class

fun clause_class_of :: "('o, 'u) clause \<Rightarrow> clause_class" where
  "clause_class_of (FilterClause _ _ _) = FilterClause_class"
| "clause_class_of (SortClause _) = SortClause_class"
| "clause_class_of (KeySetPagingClause _) = KeySetPagingClause_class"
| "clause_class_of (OffsetPagingClause _) = OffsetPagingClause_class"
| "clause_class_of (UserClause _) = UserClause_class"

datatype function_class = Similarity_class | UserFunction_class

fun function_class_of :: "'u query_function \<Rightarrow> function_class" where
  "function_class_of (Similarity _ _ _) = Similarity_class"
| "function_class_of (UserFunction _ _) = UserFunction_class"

datatype query_class = Search_class | Lookup_class | UserQuery_class

fun query_class_of :: "('o, 'u) query \<Rightarrow> query_class" where
  "query_class_of (Search _ _ _) = Search_class"
| "query_class_of (Lookup _) = Lookup_class"
| "query_class_of (UserQuery _) = UserQuery_class"

text \<open>
  Converters look up the registries they refer to when they convert, so each takes the
  registered conversion as an argument.
\<close>

type_synonym ('r, 'o, 'u) function_conversion = "'u query_function \<Rightarrow> ('r, 'o) transformer res"

type_synonym ('r, 'o, 'u) clause_conversion = "('o, 'u) clause \<Rightarrow> ('r, 'o) transformer res"

type_synonym ('r, 'o, 'u) query_conversion = "('o, 'u) query \<Rightarrow> ('r, 'o) transformer res"

record ('r, 'o, 'u) delegating_converter =
  dc_functions :: "(function_class, ('r, 'o, 'u) function_conversion) dict"
  dc_clauses :: "(clause_class,
    ('r, 'o, 'u) function_conversion \<Rightarrow> ('r, 'o, 'u) clause_conversion) dict"
  dc_queries :: "(query_class,
    ('r, 'o, 'u) clause_conversion \<Rightarrow> ('r, 'o, 'u) query_conversion) dict"

definition registry_lookup :: "('k, 'v) dict \<Rightarrow> 'k \<Rightarrow> 'v res" where
  "registry_lookup d k =
     (case map_of d k of
        None \<Rightarrow> Inl (ValueError ''No converter registered for type'')
      | Some v \<Rightarrow> Inr v)"

definition similarity_function_converter ::
  "('r, 'o) memory_env \<Rightarrow> ('r, 'o, 'u) function_conversion" where
  "similarity_function_converter env f =
     (case f of
        Similarity name left right \<Rightarrow> Inr (similarity_transformer env name left right)
      | _ \<Rightarrow> Inl (AttributeError ''left''))"

definition filter_clause_converter :: "('r, 'o) memory_env \<Rightarrow> ('r, 'o, 'u) clause_conversion" where
  "filter_clause_converter env c =
     (case c of
        FilterClause operator field v \<Rightarrow> Inr (filter_transformer env operator field v)
      | _ \<Rightarrow> Inl (AttributeError ''value''))"

definition sort_clause_converter ::
  "('r, 'o) memory_env \<Rightarrow> ('r, 'o, 'u) function_conversion \<Rightarrow> ('r, 'o, 'u) clause_conversion" where
  "sort_clause_converter env convert_fn c =
     (case c of
        SortClause fs \<Rightarrow>
          res_bind (res_map convert_fn
              (concat (map (\<lambda>f. case sf_field f of FunctionField fn \<Rightarrow> [fn] | _ \<Rightarrow> []) fs)))
            (\<lambda>ts. Inr (compose_transformers (ts @ [sort_transformer env fs])))
      | _ \<Rightarrow> Inl (AttributeError ''fields''))"

definition keyset_paging_converter :: "('r, 'o) memory_env \<Rightarrow> ('r, 'o, 'u) clause_conversion" where
  "keyset_paging_converter env c =
     (case c of
        KeySetPagingClause item \<Rightarrow> Inr (keyset_transformer env item)
      | _ \<Rightarrow> Inl (AttributeError ''last_id''))"

definition offset_paging_converter :: "('r, 'o, 'u) clause_conversion" where
  "offset_paging_converter c =
     (case c of
        OffsetPagingClause item \<Rightarrow> Inr (offset_transformer item)
      | _ \<Rightarrow> Inl (AttributeError ''offset''))"

definition search_query_converter ::
  "('r, 'o, 'u) clause_conversion \<Rightarrow> ('r, 'o, 'u) query_conversion" where
  "search_query_converter conv q =
     (case q of
        Search filters sort_by paging \<Rightarrow>
          res_bind (res_map conv (filters @ (case sort_by of None \<Rightarrow> [] | Some c \<Rightarrow> [c]) @
              (case paging of None \<Rightarrow> [] | Some c \<Rightarrow> [c])))
            (\<lambda>ts. Inr (compose_transformers ts))
      | _ \<Rightarrow> Inl (AttributeError ''sort''))"

definition lookup_query_converter ::
  "('r, 'o, 'u) clause_conversion \<Rightarrow> ('r, 'o, 'u) query_conversion" where
  "lookup_query_converter conv q =
     (case q of
        Lookup filters \<Rightarrow> res_bind (res_map conv filters) (\<lambda>ts. Inr (compose_transformers ts))
      | _ \<Rightarrow> Inl (AttributeError ''filters''))"

definition register_function_converter where
  "register_function_converter k conv d =
     d\<lparr>dc_functions := AList.update k conv (dc_functions d)\<rparr>"

definition register_clause_converter where
  "register_clause_converter k conv d = d\<lparr>dc_clauses := AList.update k conv (dc_clauses d)\<rparr>"

definition register_query_converter where
  "register_query_converter k conv d = d\<lparr>dc_queries := AList.update k conv (dc_queries d)\<rparr>"

definition with_default_converters ::
  "('r, 'o) memory_env \<Rightarrow> ('r, 'o, 'u) delegating_converter \<Rightarrow> ('r, 'o, 'u) delegating_converter" where
  "with_default_converters env d =
     register_query_converter Lookup_class lookup_query_converter
       (register_query_converter Search_class search_query_converter
         (register_clause_converter OffsetPagingClause_class (\<lambda>_. offset_paging_converter)
           (register_clause_converter KeySetPagingClause_class (\<lambda>_. keyset_paging_converter env)
             (register_clause_converter SortClause_class (sort_clause_converter env)
               (register_clause_converter FilterClause_class (\<lambda>_. filter_clause_converter env)
                 (register_function_converter Similarity_class
                   (similarity_function_converter env) d))))))"

definition convert_function ::
  "('r, 'o, 'u) delegating_converter \<Rightarrow> ('r, 'o, 'u) function_conversion" where
  "convert_function d f =
     res_bind (registry_lookup (dc_functions d) (function_class_of f)) (\<lambda>conv. conv f)"

definition convert_clause ::
  "('r, 'o, 'u) delegating_converter \<Rightarrow> ('r, 'o, 'u) clause_conversion" where
  "convert_clause d c =
     res_bind (registry_lookup (dc_clauses d) (clause_class_of c)) (\<lambda>conv.
       conv (convert_function d) c)"

definition convert_query ::
  "('r, 'o, 'u) delegating_converter \<Rightarrow> ('r, 'o, 'u) query_conversion" where
  "convert_query d q =
     res_bind (registry_lookup (dc_queries d) (query_class_of q)) (\<lambda>conv.
       conv (convert_clause d) q)"

definition default_query_converter ::
  "('r, 'o) memory_env \<Rightarrow> ('r, 'o, 'u) delegating_converter" where
  "default_query_converter env =
     with_default_converters env \<lparr>dc_functions = [], dc_clauses = [], dc_queries = []\<rparr>"

text \<open>Converting a query and applying it to some records, as the storage adapter does.\<close>

definition run_query ::
  "('r, 'o, 'u) delegating_converter \<Rightarrow> ('o, 'u) query \<Rightarrow> 'r list \<Rightarrow> 'r list res" where
  "run_query d q records =
     res_bind (convert_query d q) (\<lambda>transformer.
     res_bind (transformer (result_set_of records)) (\<lambda>rs. Inr (result_records rs)))"

subsection \<open>Stable sorting\<close>

text \<open>A strict weak order on a set of elements.\<close>

definition weak_order_on :: "'a set \<Rightarrow> ('a \<Rightarrow> 'a \<Rightarrow> bool) \<Rightarrow> bool" where
  "weak_order_on A lt \<longleftrightarrow>
     (\<forall>x \<in> A. \<not> lt x x) \<and>
     (\<forall>x \<in> A. \<forall>y \<in> A. \<forall>z \<in> A. lt x y \<longrightarrow> lt y z \<longrightarrow> lt x z) \<and>
     (\<forall>x \<in> A. \<forall>y \<in> A. \<forall>z \<in> A. lt x z \<longrightarrow> lt x y \<or> lt y z)"

text \<open>\<open>x\<close> comes before \<open>y\<close>: it is smaller, or neither is smaller and \<open>R\<close> says so.\<close>

definition refined :: "('a \<Rightarrow> 'a \<Rightarrow> bool) \<Rightarrow> ('a \<Rightarrow> 'a \<Rightarrow> bool) \<Rightarrow> 'a \<Rightarrow> 'a \<Rightarrow> bool" where
  "refined lt R x y \<longleftrightarrow> lt x y \<or> (\<not> lt y x \<and> R x y)"

lemma mset_insert_stable [simp]: "mset (insert_stable lt x ys) = add_mset x (mset ys)"
  by (induction ys) auto

lemma stable_sort_simps [simp]:
  "stable_sort lt [] = []" "stable_sort lt (x # xs) = insert_stable lt x (stable_sort lt xs)"
  by (simp_all add: stable_sort_def)

lemma mset_stable_sort [simp]: "mset (stable_sort lt xs) = mset xs"
  by (induction xs) simp_all

lemma set_stable_sort [simp]: "set (stable_sort lt xs) = set xs"
  using mset_stable_sort by (metis set_mset_mset)

lemma set_insert_stable [simp]: "set (insert_stable lt x ys) = insert x (set ys)"
  by (induction ys) auto

lemma insert_stable_sorted:
  assumes "weak_order_on A lt" and "x \<in> A" and "set ys \<subseteq> A"
    and "sorted_wrt (refined lt R) ys" and "\<forall>y \<in> set ys. R x y"
  shows "sorted_wrt (refined lt R) (insert_stable lt x ys)"
  using assms(3-)
proof (induction ys)
  case (Cons y ys)
  have mem: "y \<in> A" "\<forall>z \<in> set ys. z \<in> A" using Cons.prems(1) by auto
  show ?case
  proof (cases "lt y x")
    case True
    then have "refined lt R y x" by (simp add: refined_def)
    then show ?thesis using Cons True by auto
  next
    case False
    have "refined lt R x z" if "z \<in> set ys" for z
    proof (cases "lt x z")
      case True
      then show ?thesis by (simp add: refined_def)
    next
      case no: False
      have "\<not> lt z x"
      proof
        assume zx: "lt z x"
        have "refined lt R y z" using Cons.prems(2) that by simp
        then have "lt y z \<or> \<not> lt z y" by (auto simp: refined_def)
        then show False
          using zx False assms(1,2) mem that unfolding weak_order_on_def by blast
      qed
      then show ?thesis using Cons.prems(3) that by (simp add: refined_def)
    qed
    then show ?thesis using False Cons.prems by (auto simp: refined_def)
  qed
qed simp

lemma weak_order_on_subset: "weak_order_on A lt \<Longrightarrow> B \<subseteq> A \<Longrightarrow> weak_order_on B lt"
  unfolding weak_order_on_def by (meson subsetD)

lemma stable_sort_sorted:
  assumes "weak_order_on (set xs) lt" and "sorted_wrt R xs"
  shows "sorted_wrt (refined lt R) (stable_sort lt xs)"
  using assms
proof (induction xs)
  case (Cons x xs)
  have "weak_order_on (set xs) lt"
    by (rule weak_order_on_subset [OF Cons.prems(1)]) auto
  then have "sorted_wrt (refined lt R) (stable_sort lt xs)" using Cons by simp
  then show ?case
    using insert_stable_sorted [OF Cons.prems(1), of x "stable_sort lt xs" R] Cons.prems(2)
    by auto
qed simp

subsection \<open>Sorting by several fields\<close>

text \<open>Keys are orderable when they are all numbers or all strings.\<close>

definition orderable :: "'o qval set \<Rightarrow> bool" where
  "orderable K \<longleftrightarrow> (\<forall>a \<in> K. \<forall>b \<in> K. \<exists>v w. a = QVal v \<and> b = QVal w \<and> same_kind v w)"

definition numeric_keys :: "'o qval set \<Rightarrow> bool" where
  "numeric_keys K \<longleftrightarrow> (\<forall>a \<in> K. \<exists>v x. a = QVal v \<and> py_num v = Some x)"

definition string_keys :: "'o qval set \<Rightarrow> bool" where
  "string_keys K \<longleftrightarrow> (\<forall>a \<in> K. \<exists>s. a = QVal (PyStr s))"

lemma orderable_cases: "orderable K \<Longrightarrow> numeric_keys K \<or> string_keys K"
proof (cases "K = {}")
  case False
  then obtain a where a: "a \<in> K" by auto
  assume ok: "orderable K"
  then obtain v where v: "a = QVal v" "same_kind v v" using a by (fastforce simp: orderable_def)
  have others: "\<exists>w. b = QVal w \<and> same_kind v w" if "b \<in> K" for b
    using ok a that v(1) by (fastforce simp: orderable_def)
  show ?thesis
  proof (cases "py_num v")
    case None
    then have "is_py_str v" using v(2) by (auto simp: same_kind_def)
    then have "string_keys K"
      using others None by (fastforce simp: string_keys_def same_kind_def elim: is_py_str.elims)
    then show ?thesis ..
  next
    case (Some x)
    then have "\<not> is_py_str v" by (cases v) auto
    then have "numeric_keys K"
      using others by (fastforce simp: numeric_keys_def same_kind_def)
    then show ?thesis ..
  qed
qed (auto simp: numeric_keys_def)

definition num_of :: "'o qval \<Rightarrow> rat" where
  "num_of a = (case a of QVal v \<Rightarrow> the (py_num v) | _ \<Rightarrow> 0)"

definition str_of :: "'o qval \<Rightarrow> string" where
  "str_of a = (case a of QVal (PyStr s) \<Rightarrow> s | _ \<Rightarrow> [])"

lemma key_less_num:
  assumes "numeric_keys K" and "a \<in> K" and "b \<in> K"
  shows "key_less a b \<longleftrightarrow> num_of a < num_of b"
proof -
  obtain v x w y where "a = QVal v" "py_num v = Some x" "b = QVal w" "py_num w = Some y"
    using assms unfolding numeric_keys_def by metis
  then show ?thesis by (simp add: key_less_def num_of_def py_less_num)
qed

lemma key_less_str:
  assumes "string_keys K" and "a \<in> K" and "b \<in> K"
  shows "key_less a b \<longleftrightarrow> str_of a < str_of b"
proof -
  obtain s t where "a = QVal (PyStr s)" "b = QVal (PyStr t)"
    using assms unfolding string_keys_def by metis
  then show ?thesis by (simp add: key_less_def str_of_def)
qed

lemma orderable_weak:
  assumes "orderable K"
  shows "weak_order_on K (order_less ord)"
proof -
  consider "numeric_keys K" | "string_keys K" using orderable_cases [OF assms] by blast
  then show ?thesis
  proof cases
    case 1
    then show ?thesis
      by (cases ord) (auto simp: weak_order_on_def order_less_def key_less_num)
  next
    case 2
    then show ?thesis
      by (cases ord) (auto simp: weak_order_on_def order_less_def key_less_str)
  qed
qed

lemma orderable_comparable:
  assumes "orderable K" and "set ks \<subseteq> K"
  shows "all_comparable ks"
  using assms(2)
proof (induction ks)
  case (Cons k ks)
  have "comparable k k'" if "k' \<in> set ks" for k'
  proof -
    have "k \<in> K" "k' \<in> K" using Cons.prems that by auto
    then obtain v w where "k = QVal v" "k' = QVal w" "same_kind v w"
      using assms(1) unfolding orderable_def by blast
    from this(3) show ?thesis
    proof (cases rule: same_kind_cases)
      case (num x y)
      then show ?thesis using \<open>k = _\<close> \<open>k' = _\<close> by (simp add: comparable_def py_less_num)
    next
      case (str s t)
      then show ?thesis using \<open>k = _\<close> \<open>k' = _\<close> by (simp add: comparable_def)
    qed
  qed
  then show ?case using Cons by (simp add: list_all_iff)
qed simp

definition key_of :: "('r, 'o) memory_env \<Rightarrow> 'u sort_field \<Rightarrow> ('r, 'o) result \<Rightarrow> 'o qval" where
  "key_of env f r = (case field_key env (sf_field f) r of Inr k \<Rightarrow> k | Inl _ \<Rightarrow> QVal PyNone)"

definition field_before ::
  "('r, 'o) memory_env \<Rightarrow> 'u sort_field \<Rightarrow> ('r, 'o) result \<Rightarrow> ('r, 'o) result \<Rightarrow> bool" where
  "field_before env f a b = order_less (sf_order f) (key_of env f a) (key_of env f b)"

definition sortable ::
  "('r, 'o) memory_env \<Rightarrow> 'u sort_field \<Rightarrow> ('r, 'o) result set \<Rightarrow> bool" where
  "sortable env f A \<longleftrightarrow>
     (\<forall>r \<in> A. is_ok (field_key env (sf_field f) r)) \<and> orderable (key_of env f ` A)"

text \<open>
  The order a sort clause asks for: by the first field, by the second where the first does not
  decide, and so on, and at the end in the order \<open>R\<close> the results had.
\<close>

fun lexicographic ::
  "('r, 'o) memory_env \<Rightarrow> 'u sort_field list \<Rightarrow> (('r, 'o) result \<Rightarrow> ('r, 'o) result \<Rightarrow> bool)
    \<Rightarrow> ('r, 'o) result \<Rightarrow> ('r, 'o) result \<Rightarrow> bool" where
  "lexicographic env [] R = R"
| "lexicographic env (f # fs) R = refined (field_before env f) (lexicographic env fs R)"

lemma insert_stable_keyed:
  "insert_stable (\<lambda>a b. P (snd a) (snd b)) (x, k x) (map (\<lambda>x. (x, k x)) xs)
     = map (\<lambda>x. (x, k x)) (insert_stable (\<lambda>a b. P (k a) (k b)) x xs)"
  by (induction xs) auto

lemma stable_sort_keyed:
  "stable_sort (\<lambda>a b. P (snd a) (snd b)) (map (\<lambda>x. (x, k x)) xs)
     = map (\<lambda>x. (x, k x)) (stable_sort (\<lambda>a b. P (k a) (k b)) xs)"
  by (induction xs) (simp_all add: insert_stable_keyed)

lemma sorted_results_sortable:
  assumes "sortable env f (set results)"
  shows "sorted_results env f results = Inr (stable_sort (field_before env f) results)"
proof -
  have "field_key env (sf_field f) r = Inr (key_of env f r)" if "r \<in> set results" for r
    using assms that by (auto simp: sortable_def key_of_def is_ok_iff)
  then have keys: "res_map (field_key env (sf_field f)) results = Inr (map (key_of env f) results)"
    by (rule res_map_all_Inr)
  have "all_comparable (map (key_of env f) results)"
    using assms by (intro orderable_comparable [of "key_of env f ` set results"])
      (auto simp: sortable_def)
  moreover have "zip results (map (key_of env f) results)
      = map (\<lambda>r. (r, key_of env f r)) results"
    by (simp add: zip_map2 zip_same_conv_map)
  moreover have "stable_sort (\<lambda>a b. order_less (sf_order f) (snd a) (snd b))
      (map (\<lambda>r. (r, key_of env f r)) results)
      = map (\<lambda>r. (r, key_of env f r)) (stable_sort (field_before env f) results)"
    by (simp add: stable_sort_keyed field_before_def [abs_def])
  ultimately show ?thesis by (simp add: sorted_results_def keys comp_def)
qed

lemma sortable_weak:
  assumes "sortable env f A"
  shows "weak_order_on A (field_before env f)"
proof -
  have w: "weak_order_on (key_of env f ` A) (order_less (sf_order f))"
    using assms orderable_weak by (auto simp: sortable_def)
  show ?thesis
    using w unfolding weak_order_on_def field_before_def ball_simps by blast
qed

lemma sort_fold:
  assumes "\<forall>f \<in> set fs. sortable env f (set results)" and "sorted_wrt R results"
  shows "\<exists>sorted. res_fold (sorted_results env) (rev fs) results = Inr sorted \<and>
     mset sorted = mset results \<and> sorted_wrt (lexicographic env fs R) sorted"
  using assms(1)
proof (induction fs)
  case Nil
  then show ?case using assms(2) by simp
next
  case (Cons f fs)
  then obtain ys where ys: "res_fold (sorted_results env) (rev fs) results = Inr ys"
    "mset ys = mset results" "sorted_wrt (lexicographic env fs R) ys" by auto
  have "set ys = set results" using ys(2) by (metis set_mset_mset)
  then have ok: "sortable env f (set ys)" using Cons.prems by simp
  have "res_fold (sorted_results env) (rev (f # fs)) results
      = Inr (stable_sort (field_before env f) ys)"
    using ys(1) sorted_results_sortable [OF ok] by (simp add: res_fold_append)
  then show ?case
    using ys stable_sort_sorted [OF sortable_weak [OF ok] ys(3)] by simp
qed

text \<open>
  C15. Sorting by several fields: the code sorts once per field, from the last field to the
  first, relying on stability. When every field resolves in every result and its values are
  all numbers or all strings, the outcome is a permutation of the results in lexicographic
  order of the fields, ascending or descending as each field says, and results that agree on
  all fields keep the order they had.
\<close>

theorem sort_clause_lexicographic:
  assumes "\<forall>f \<in> set fs. sortable env f (set (set_results rs))"
    and "sorted_wrt R (set_results rs)"
  shows "\<exists>rs'. sort_transformer env fs rs = Inr rs' \<and>
     mset (set_results rs') = mset (set_results rs) \<and>
     sorted_wrt (lexicographic env fs R) (set_results rs')"
  using sort_fold [OF assms] by (auto simp: sort_transformer_def with_results_def)

text \<open>A sample record type: a record is the list of its attributes.\<close>

definition sample_memory_env :: "((string \<times> unit pyval) list, unit) memory_env" where
  "sample_memory_env =
     \<lparr>me_attribute = (\<lambda>r a. map_option QVal (map_of r a)),
      me_id = (\<lambda>r. case map_of r ''id'' of Some (PyStr s) \<Rightarrow> s | _ \<Rightarrow> []),
      me_match = (\<lambda>pattern v. Inr (prefix pattern v))\<rparr>"

abbreviation sample_row :: "string \<Rightarrow> int \<Rightarrow> string \<Rightarrow> (string \<times> unit pyval) list" where
  "sample_row i n s \<equiv> [(''id'', PyStr i), (''size'', PyInt n), (''name'', PyStr s)]"

abbreviation sample_rows :: "(string \<times> unit pyval) list list" where
  "sample_rows \<equiv> [sample_row ''1'' 2 ''b'', sample_row ''2'' 1 ''b'', sample_row ''3'' 2 ''a'']"

abbreviation sample_order :: "unit sort_field list" where
  "sample_order \<equiv> [\<lparr>sf_field = PathField (Path ''size'' []), sf_order = DESC\<rparr>,
                    \<lparr>sf_field = PathField (Path ''name'' []), sf_order = ASC\<rparr>]"

theorem sort_clause_lexicographic_witness:
  "\<exists>rs'. sort_transformer sample_memory_env sample_order (result_set_of sample_rows) = Inr rs' \<and>
     result_records rs' = [sample_row ''3'' 2 ''a'', sample_row ''1'' 2 ''b'', sample_row ''2'' 1 ''b''] \<and>
     sorted_wrt (lexicographic sample_memory_env sample_order (\<lambda>_ _. True)) (set_results rs')"
proof -
  let ?rs = "result_set_of sample_rows :: ((string \<times> unit pyval) list, unit) result_set"
  have "\<forall>f \<in> set sample_order. sortable sample_memory_env f (set (set_results ?rs))"
    by (simp add: sortable_def orderable_def same_kind_def key_of_def field_key_def lookup_def
        lookup_in_extra_def lookup_in_record_def invalid_path_def sample_memory_env_def
        result_set_of_def result_of_def)
  from sort_clause_lexicographic [OF this, of "\<lambda>_ _. True"]
  obtain rs' where rs': "sort_transformer sample_memory_env sample_order ?rs = Inr rs'"
    "sorted_wrt (lexicographic sample_memory_env sample_order (\<lambda>_ _. True)) (set_results rs')"
    by (auto simp: sorted_wrt_true)
  have "map_sum id result_records (sort_transformer sample_memory_env sample_order ?rs)
      = Inr [sample_row ''3'' 2 ''a'', sample_row ''1'' 2 ''b'', sample_row ''2'' 1 ''b'']"
    by code_simp
  then show ?thesis using rs' by simp
qed

subsection \<open>Key set paging\<close>

abbreviation result_id :: "('r, 'o) memory_env \<Rightarrow> ('r, 'o) result \<Rightarrow> string" where
  "result_id env r \<equiv> me_id env (rs_record r)"

definition keyset_page ::
  "('r, 'o) memory_env \<Rightarrow> ('r, 'o) result_set \<Rightarrow> string option \<Rightarrow> paging_direction \<Rightarrow> int
    \<Rightarrow> ('r, 'o) result list" where
  "keyset_page env rs last_id dir n =
     (case keyset_transformer env
         \<lparr>kp_last_id = last_id, kp_direction = dir, kp_item_count = n\<rparr> rs of
        Inr rs' \<Rightarrow> set_results rs' | Inl _ \<Rightarrow> [])"

lemma filter_enumerate_none:
  "i \<notin> f ` set xs \<Longrightarrow> filter (\<lambda>(_, r). f r = i) (enumerate k xs) = []"
  by (induction xs arbitrary: k) auto

lemma filter_enumerate_one:
  assumes "distinct (map f (xs @ r # ys))"
  shows "map fst (filter (\<lambda>(_, x). f x = f r) (enumerate 0 (xs @ r # ys))) = [length xs]"
proof -
  have "filter (\<lambda>(_, x). f x = f r) (enumerate 0 xs) = []"
    "filter (\<lambda>(_, x). f x = f r) (enumerate (Suc (length xs)) ys) = []"
    using assms by (auto intro!: filter_enumerate_none)
  then show ?thesis by (simp add: enumerate_append_eq)
qed

lemma last_index_found:
  assumes "distinct (map (result_id env) (xs @ r # ys))"
  shows "determine_last_index env (xs @ r # ys) (Some (result_id env r)) = LastIndexFound (length xs)"
  using filter_enumerate_one [OF assms] by (simp add: determine_last_index_def)

lemma last_index_absent:
  assumes "i \<notin> result_id env ` set results"
  shows "determine_last_index env results (Some i) = LastIndexNotFound"
  using filter_enumerate_none [of i "result_id env" results 0] assms
  by (auto simp: determine_last_index_def)

lemma keyset_page_simps:
  assumes "0 \<le> n"
  shows "keyset_page env rs None FORWARDS n = take (nat n) (set_results rs)"
    and "keyset_page env rs None BACKWARDS n = []"
    and "i \<notin> result_id env ` set (set_results rs) \<Longrightarrow> keyset_page env rs (Some i) dir n = []"
    and "distinct (map (result_id env) (set_results rs)) \<Longrightarrow> set_results rs = xs @ r # ys \<Longrightarrow>
      keyset_page env rs (Some (result_id env r)) FORWARDS n = take (nat n) ys"
    and "distinct (map (result_id env) (set_results rs)) \<Longrightarrow> set_results rs = xs @ r # ys \<Longrightarrow>
      keyset_page env rs (Some (result_id env r)) BACKWARDS n = drop (length xs - nat n) xs"
proof -
  note defs = keyset_page_def keyset_transformer_def with_results_def Let_def
  show "keyset_page env rs None FORWARDS n = take (nat n) (set_results rs)"
    "keyset_page env rs None BACKWARDS n = []"
    using assms by (simp_all add: defs determine_last_index_def py_slice_nonneg)
  show "i \<notin> result_id env ` set (set_results rs) \<Longrightarrow> keyset_page env rs (Some i) dir n = []"
    by (simp add: defs last_index_absent)
  assume d: "distinct (map (result_id env) (set_results rs))"
    and s: "set_results rs = xs @ r # ys"
  note found = last_index_found [OF d [unfolded s]]
  have len: "nat (int (length xs) + 1) = Suc (length xs)"
    "nat (int (length xs) + 1 + n) = Suc (length xs) + nat n"
    using assms by auto
  show "keyset_page env rs (Some (result_id env r)) FORWARDS n = take (nat n) ys"
    using assms by (simp add: defs s found py_slice_nonneg len)
  have "nat (max (int (length xs) - n) 0) = length xs - nat n" using assms by auto
  then show "keyset_page env rs (Some (result_id env r)) BACKWARDS n = drop (length xs - nat n) xs"
    by (simp add: defs s found py_slice_nonneg drop_append take_append)
qed

text \<open>
  A client that pages forwards through the results: it asks for the first page, then for the
  page after the last result it has seen, until a page is empty.
\<close>

fun follow_pages ::
  "('r, 'o) memory_env \<Rightarrow> ('r, 'o) result_set \<Rightarrow> int \<Rightarrow> nat \<Rightarrow> string option
    \<Rightarrow> ('r, 'o) result list" where
  "follow_pages env rs n 0 last_id = []"
| "follow_pages env rs n (Suc fuel) last_id =
     (let page = keyset_page env rs last_id FORWARDS n
      in if page = [] then []
         else page @ follow_pages env rs n fuel (Some (result_id env (last page))))"

lemma follow_pages_rest:
  assumes "distinct (map (result_id env) (set_results rs))" and "0 < n"
    and "set_results rs = before @ r # rest" and "length rest < fuel"
  shows "follow_pages env rs n fuel (Some (result_id env r)) = rest"
  using assms(3,4)
proof (induction fuel arbitrary: before r rest)
  case (Suc fuel)
  note page = keyset_page_simps(4) [OF less_imp_le [OF assms(2)] assms(1) Suc.prems(1)]
  show ?case
  proof (cases "rest = []")
    case False
    then have some: "take (nat n) rest \<noteq> []" using assms(2) by simp
    then obtain init x where split: "take (nat n) rest = init @ [x]"
      by (cases "take (nat n) rest" rule: rev_cases) auto
    have whole: "rest = init @ x # drop (nat n) rest"
      using append_take_drop_id [of "nat n" rest] split by simp
    then have "set_results rs = (before @ r # init) @ x # drop (nat n) rest"
      using Suc.prems(1) by simp
    moreover have "length (drop (nat n) rest) < fuel"
      using Suc.prems(2) assms(2) False by (cases rest) auto
    ultimately have "follow_pages env rs n fuel (Some (result_id env x)) = drop (nat n) rest"
      by (rule Suc.IH)
    then show ?thesis using some page split whole [symmetric] by simp
  qed (use page in simp)
qed simp

text \<open>
  C14. Paging by key visits everything once: when ids are distinct, following forward pages of
  any positive size from the first page on returns exactly the results, in order and without
  repetition, and the page before a result ends just before it, so going forwards and back
  again returns to the same place. A page relative to an unknown id is empty.
\<close>

theorem keyset_paging_complete:
  assumes "distinct (map (result_id env) (set_results rs))" and "0 < n"
    and "length (set_results rs) < fuel"
  shows "follow_pages env rs n fuel None = set_results rs \<and>
     (\<forall>xs r ys. set_results rs = xs @ r # ys \<longrightarrow>
        keyset_page env rs (Some (result_id env r)) FORWARDS n = take (nat n) ys \<and>
        keyset_page env rs (Some (result_id env r)) BACKWARDS n = drop (length xs - nat n) xs) \<and>
     (\<forall>i dir. i \<notin> result_id env ` set (set_results rs) \<longrightarrow> keyset_page env rs (Some i) dir n = [])"
proof -
  note P = keyset_page_simps [OF less_imp_le [OF assms(2)]]
  have "follow_pages env rs n fuel None = set_results rs"
  proof (cases "set_results rs = []")
    case True
    then show ?thesis by (cases fuel) (simp_all add: P(1))
  next
    case False
    then have some: "take (nat n) (set_results rs) \<noteq> []" using assms(2) by simp
    then obtain init x where split: "take (nat n) (set_results rs) = init @ [x]"
      by (cases "take (nat n) (set_results rs)" rule: rev_cases) auto
    let ?rest = "drop (nat n) (set_results rs)"
    have whole: "set_results rs = init @ x # ?rest"
      using append_take_drop_id [of "nat n" "set_results rs"] split by simp
    obtain k where k: "fuel = Suc k" using assms(3) by (cases fuel) auto
    have "length ?rest < k" using assms(2,3) k False by (cases "set_results rs") auto
    then have "follow_pages env rs n k (Some (result_id env x)) = ?rest"
      using follow_pages_rest [OF assms(1,2) whole] by blast
    then show ?thesis
      using some split k whole by (simp add: P(1))
  qed
  then show ?thesis using P(3-5) assms(1) by blast
qed

theorem keyset_paging_complete_witness:
  "map rs_record (follow_pages sample_memory_env (result_set_of sample_rows) 2 4 None) = sample_rows \<and>
   map rs_record (keyset_page sample_memory_env (result_set_of sample_rows) (Some ''3'') BACKWARDS 1)
     = [sample_row ''2'' 1 ''b'']"
proof -
  let ?rs = "result_set_of sample_rows :: ((string \<times> unit pyval) list, unit) result_set"
  have "follow_pages sample_memory_env ?rs 2 4 None = set_results ?rs"
    using keyset_paging_complete [of sample_memory_env ?rs 2 4]
    by (simp add: sample_memory_env_def result_set_of_def result_of_def)
  moreover have "map rs_record (keyset_page sample_memory_env ?rs (Some ''3'') BACKWARDS 1)
     = [sample_row ''2'' 1 ''b'']" by code_simp
  ultimately show ?thesis by (simp add: result_set_of_def result_of_def)
qed

subsection \<open>Offset paging\<close>

definition offset_page :: "('r, 'o) result_set \<Rightarrow> int \<Rightarrow> int \<Rightarrow> ('r, 'o) result list" where
  "offset_page rs page n =
     (case offset_transformer \<lparr>op_page_number = page, op_item_count = n\<rparr> rs of
        Inr rs' \<Rightarrow> set_results rs' | Inl _ \<Rightarrow> [])"

lemma offset_page_slice:
  assumes "0 \<le> n"
  shows "offset_page rs (int k + 1) n = take (nat n) (drop (k * nat n) (set_results rs))"
proof -
  have "nat (int k * n + n) - nat (int k * n) = nat n" "nat (int k * n) = k * nat n"
    using assms by (simp_all add: nat_mult_distrib nat_add_distrib)
  then show ?thesis
    using assms
    by (simp add: offset_page_def offset_transformer_def with_results_def paging_offset_def
        py_slice_nonneg)
qed

text \<open>
  Pages by number tile the results: the first \<open>k\<close> pages of \<open>n\<close> items, one after the other,
  are the first \<open>k * n\<close> results, so pages neither overlap nor leave a gap.
\<close>

lemma offset_pages_tile:
  assumes "0 \<le> n"
  shows "concat (map (\<lambda>i. offset_page rs (int i + 1) n) [0..<k])
    = take (k * nat n) (set_results rs)"
proof (induction k)
  case (Suc k)
  have "take (k * nat n) (set_results rs) @ take (nat n) (drop (k * nat n) (set_results rs))
      = take (Suc k * nat n) (set_results rs)"
    using take_add [of "k * nat n" "nat n" "set_results rs"] by (simp add: add.commute)
  then show ?case using Suc by (simp add: offset_page_slice [OF assms])
qed simp

lemma offset_pages_tile_example:
  "concat (map (\<lambda>i. offset_page (result_set_of sample_rows) (int i + 1) 2) [0..<2])
     = set_results (result_set_of sample_rows :: ((string \<times> unit pyval) list, unit) result_set)"
  using offset_pages_tile [of 2 "result_set_of sample_rows" 2]
  by (simp add: result_set_of_def result_of_def numeral_eq_Suc)

subsection \<open>Lookups\<close>

lemma compose_transformers_fold:
  "compose_transformers fs rs = res_fold (\<lambda>f rs. f rs) fs rs"
proof -
  have "foldl (\<lambda>f g rs. res_bind (f rs) g) f0 fs rs
      = res_bind (f0 rs) (res_fold (\<lambda>f rs. f rs) fs)" for f0
  proof (induction fs arbitrary: f0)
    case Nil
    then show ?case by (cases "f0 rs") simp_all
  next
    case (Cons f fs)
    then show ?case by (simp add: res_bind_assoc)
  qed
  from this [of Inr] show ?thesis by (simp add: compose_transformers_def)
qed

lemma default_conversions [simp]:
  "convert_query (default_query_converter env) (Lookup filters)
     = lookup_query_converter (convert_clause (default_query_converter env)) (Lookup filters)"
  "convert_query (default_query_converter env) (Search filters s p)
     = search_query_converter (convert_clause (default_query_converter env)) (Search filters s p)"
  "convert_clause (default_query_converter env) (FilterClause operator field v)
     = Inr (filter_transformer env operator field v)"
  "convert_clause (default_query_converter env) (KeySetPagingClause k)
     = Inr (keyset_transformer env k)"
  "convert_clause (default_query_converter env) (OffsetPagingClause w)
     = Inr (offset_transformer w)"
  by (simp_all add: convert_query_def convert_clause_def default_query_converter_def
      with_default_converters_def register_query_converter_def register_clause_converter_def
      register_function_converter_def registry_lookup_def filter_clause_converter_def
      keyset_paging_converter_def offset_paging_converter_def)

fun clause_passes :: "('r, 'o) memory_env \<Rightarrow> ('r, 'o) result \<Rightarrow> ('o, 'u) clause \<Rightarrow> bool" where
  "clause_passes env r (FilterClause operator field v) = (matches env operator field v r = Inr True)"
| "clause_passes env r _ = False"

fun clause_evaluates :: "('r, 'o) memory_env \<Rightarrow> ('r, 'o) result \<Rightarrow> ('o, 'u) clause \<Rightarrow> bool" where
  "clause_evaluates env r (FilterClause operator field v) = is_ok (matches env operator field v r)"
| "clause_evaluates env r _ = False"

lemma filter_transformer_decided:
  assumes "\<forall>r \<in> set (set_results rs). is_ok (matches env operator field v r)"
  shows "filter_transformer env operator field v rs
    = Inr (with_results (filter (\<lambda>r. matches env operator field v r = Inr True) (set_results rs)) rs)"
proof -
  have "res_filter (matches env operator field v) (set_results rs)
      = Inr (filter (\<lambda>r. matches env operator field v r = Inr True) (set_results rs))"
    using assms by (intro res_filter_all_Inr) (auto simp: is_ok_iff)
  then show ?thesis by (simp add: filter_transformer_def)
qed

lemma filters_fold:
  assumes "\<forall>c \<in> set filters. \<forall>r \<in> set (set_results rs). clause_evaluates env r c"
    and "set_results rs = [] \<Longrightarrow> \<forall>c \<in> set filters. \<exists>operator field v. c = FilterClause operator field v"
  shows "\<exists>ts. res_map (convert_clause (default_query_converter env)) filters = Inr ts \<and>
    res_fold (\<lambda>f rs. f rs) ts rs
      = Inr (with_results (filter (\<lambda>r. list_all (clause_passes env r) filters) (set_results rs)) rs)"
  using assms
proof (induction filters arbitrary: rs)
  case Nil
  then show ?case by (simp add: with_results_def)
next
  case (Cons c filters)
  obtain operator field v where c: "c = FilterClause operator field v"
  proof (cases c)
    case (FilterClause operator field v)
    then show ?thesis using that by blast
  qed (use Cons.prems in \<open>cases "set_results rs"; force\<close>)+
  let ?rs = "with_results (filter (\<lambda>r. matches env operator field v r = Inr True) (set_results rs)) rs"
  have first: "filter_transformer env operator field v rs = Inr ?rs"
    using Cons.prems(1) c by (intro filter_transformer_decided) auto
  have "\<forall>c \<in> set filters. \<exists>operator field v. c = FilterClause operator field v"
  proof (cases "set_results rs = []")
    case True
    then show ?thesis using Cons.prems(2) by simp
  next
    case False
    then obtain r where "r \<in> set (set_results rs)" by (cases "set_results rs") auto
    then have "\<forall>c \<in> set filters. clause_evaluates env r c" using Cons.prems(1) by simp
    then show ?thesis by (metis clause_evaluates.elims(2))
  qed
  then obtain ts where ts: "res_map (convert_clause (default_query_converter env)) filters = Inr ts"
    "res_fold (\<lambda>f rs. f rs) ts ?rs
      = Inr (with_results (filter (\<lambda>r. list_all (clause_passes env r) filters) (set_results ?rs)) ?rs)"
    using Cons.IH [of ?rs] Cons.prems(1) by (auto simp: with_results_def)
  then show ?case using c first by (simp add: with_results_def conj_commute)
qed

lemma run_lookup:
  assumes "\<forall>c \<in> set filters. \<exists>operator field v. c = FilterClause operator field v"
    and "\<forall>c \<in> set filters. \<forall>r \<in> set records. clause_evaluates env (result_of r) c"
  shows "run_query (default_query_converter env) (Lookup filters) records
    = Inr (filter (\<lambda>r. list_all (clause_passes env (result_of r)) filters) records)"
proof -
  let ?rs = "result_set_of records"
  obtain ts where ts: "res_map (convert_clause (default_query_converter env)) filters = Inr ts"
    "res_fold (\<lambda>f rs. f rs) ts ?rs
      = Inr (with_results (filter (\<lambda>r. list_all (clause_passes env r) filters) (set_results ?rs)) ?rs)"
    using filters_fold [of filters ?rs env] assms by (auto simp: result_set_of_def)
  then have "run_query (default_query_converter env) (Lookup filters) records
      = Inr (map rs_record (filter (\<lambda>r. list_all (clause_passes env r) filters)
          (map result_of records)))"
    by (simp add: run_query_def lookup_query_converter_def compose_transformers_fold
        with_results_def result_records_def result_set_of_def)
  then show ?thesis by (simp add: filter_map comp_def result_of_def)
qed

text \<open>
  What a filter asks of a record, by the meaning of comparisons: whether it has an answer, because
  its path leads somewhere and its operator is defined there, and whether the answer is yes.
\<close>

definition resolves :: "('r, 'o) memory_env \<Rightarrow> 'r \<Rightarrow> path \<Rightarrow> 'o qval \<Rightarrow> bool" where
  "resolves env r p a \<longleftrightarrow>
     (\<exists>top. me_attribute env r (top_level p) = Some top \<and> leads top (sub_levels p) a)"

fun clause_defined :: "('r, 'o) memory_env \<Rightarrow> 'r \<Rightarrow> ('o, 'u) clause \<Rightarrow> bool" where
  "clause_defined env r (FilterClause operator p b) \<longleftrightarrow>
     (\<exists>a. resolves env r p a \<and> operator_defined (me_match env) operator a b)"
| "clause_defined env r _ = False"

fun clause_holds :: "('r, 'o) memory_env \<Rightarrow> 'r \<Rightarrow> ('o, 'u) clause \<Rightarrow> bool" where
  "clause_holds env r (FilterClause operator p b) \<longleftrightarrow>
     (\<exists>a. resolves env r p a \<and> operator_holds (me_match env) operator a b)"
| "clause_holds env r _ = False"

text \<open>A filter is only asked of the records that those before it let through.\<close>

fun all_defined :: "('r, 'o) memory_env \<Rightarrow> ('o, 'u) clause list \<Rightarrow> 'r \<Rightarrow> bool" where
  "all_defined env [] r = True"
| "all_defined env (c # cs) r \<longleftrightarrow> clause_defined env r c \<and> (clause_holds env r c \<longrightarrow> all_defined env cs r)"

fun proper_filter :: "('o, 'u) clause \<Rightarrow> bool" where
  "proper_filter (FilterClause operator p b) = proper_qval b"
| "proper_filter _ = False"

definition proper_record :: "('r, 'o) memory_env \<Rightarrow> 'r \<Rightarrow> bool" where
  "proper_record env r \<longleftrightarrow> (\<forall>name v. me_attribute env r name = Some v \<longrightarrow> proper_qval v)"

lemma dict_item_key:
  assumes "proper (PyDict kvs)"
  shows "dict_item kvs (PyStr k) = (case map_of kvs (PyStr k) of None \<Rightarrow> Inl (KeyError ''key'') | Some w \<Rightarrow> Inr w)"
  using assms
proof (induction kvs)
  case (Cons kv kvs)
  obtain s where "fst kv = PyStr s" using Cons.prems by (cases "fst kv") auto
  then show ?case using Cons by (cases kv) (auto simp: dict_item_def)
qed (simp add: dict_item_def)

lemma dict_item_index: "proper (PyDict kvs) \<Longrightarrow> dict_item kvs (PyInt i) = Inl (KeyError ''key'')"
proof (induction kvs)
  case (Cons kv kvs)
  obtain s where "fst kv = PyStr s" using Cons.prems by (cases "fst kv") auto
  then show ?case using Cons by (cases kv) (auto simp: dict_item_def)
qed (simp add: dict_item_def)

lemma py_index_cases:
  "py_index xs i = Inr x \<longleftrightarrow> (\<exists>n < length xs. (i = int n \<or> i = int n - int (length xs)) \<and> x = xs ! n)"
proof (cases "0 \<le> i")
  case True
  then show ?thesis
    by (auto simp: py_index_def resolve_subscript_def split: if_splits option.splits intro: exI [of _ "nat i"])
next
  case False
  have "\<exists>n < length xs. i = int n - int (length xs) \<and> xs ! (length xs - nat (- i)) = xs ! n" if "nat (- i) \<le> length xs"
    using that False by (intro exI [of _ "length xs - nat (- i)"]) auto
  moreover have "length xs - nat (int (length xs) - int n) = n" if "n < length xs" for n using that by linarith
  ultimately show ?thesis
    using False by (auto simp: py_index_def resolve_subscript_def split: if_splits option.splits)
qed

lemma py_index_error: "py_index xs i = Inl e \<Longrightarrow> e = IndexError ''list index out of range''"
  by (auto simp: py_index_def split: option.splits)

lemma leads_proper: "leads v segs u \<Longrightarrow> proper_qval v \<Longrightarrow> proper_qval u"
  by (induction rule: leads.induct) (auto simp: list_all_iff)

lemma getitem_leads:
  assumes "proper_qval v"
  shows "leads v (seg # segs) u \<longleftrightarrow> (\<exists>w. qval_getitem v seg = Inr w \<and> leads w segs u)"
proof (cases v)
  case (QVal x)
  show ?thesis
  proof (cases x)
    case (PyDict kvs)
    then have proper: "proper (PyDict kvs)" "distinct (map fst kvs)" using assms QVal by simp_all
    have "leads (QVal (PyDict kvs)) (Key k # segs) u \<longleftrightarrow> (\<exists>w. map_of kvs (PyStr k) = Some w \<and> leads (QVal w) segs u)" for k
      using proper(2) by (auto intro: leads.at_key map_of_is_SomeI dest: map_of_SomeD elim!: leads_ConsE)
    then show ?thesis
      using proper(1) by (cases seg) (auto simp: QVal PyDict dict_item_key dict_item_index simp del: proper.simps
          split: option.splits elim: leads_ConsE)
  qed (cases seg; auto simp: QVal py_index_cases type_error_def intro: leads.at_index leads.at_character
        elim!: leads_ConsE)+
qed (auto simp: type_error_def elim: leads_ConsE)

lemma getitem_proper: "proper_qval v \<Longrightarrow> qval_getitem v seg = Inr w \<Longrightarrow> proper_qval w"
  using getitem_leads [of v seg "[]" w] leads_proper [of v "[seg]" w] by (auto intro: leads.here)

lemma descend_leads: "proper_qval v \<Longrightarrow> descend v segs = Inr u \<longleftrightarrow> leads v segs u"
proof (induction segs arbitrary: v)
  case Nil
  show ?case by (auto intro: leads.here elim: leads_NilE)
next
  case (Cons seg segs)
  have "descend v (seg # segs) = Inr u \<longleftrightarrow> (\<exists>w. qval_getitem v seg = Inr w \<and> descend w segs = Inr u)"
    by (auto simp: invalid_path_def split: sum.split py_error.split)
  then show ?case
    unfolding getitem_leads [OF Cons.prems] using Cons.IH getitem_proper [OF Cons.prems] by blast
qed

lemma lookup_resolves:
  assumes "proper_record env r"
  shows "lookup env (result_of r) p = Inr a \<longleftrightarrow> resolves env r p a"
    and "resolves env r p a \<Longrightarrow> proper_qval a"
proof -
  have proper: "proper_qval v" if "me_attribute env r (top_level p) = Some v" for v
    using that assms by (simp add: proper_record_def)
  show "lookup env (result_of r) p = Inr a \<longleftrightarrow> resolves env r p a"
    using descend_leads [OF proper, of _ "sub_levels p" a]
    by (auto simp: lookup_def lookup_in_extra_def lookup_in_record_def invalid_path_def result_of_def
        resolves_def split: option.splits)
  show "proper_qval a" if "resolves env r p a"
    using that proper leads_proper by (auto simp: resolves_def)
qed

lemma regex_decides:
  assumes "a \<noteq> QVal PyNone"
  shows "regex_matches env b a = Inr answer \<longleftrightarrow> regex_answer (me_match env) a b answer"
  by (cases "(env, b, a)" rule: regex_matches.cases) (simp_all add: regex_answer_def type_error_def)

text \<open>The code decides this meaning: it raises where a filter has no answer.\<close>

lemma matches_decides:
  assumes "proper_record env r" "proper_qval b"
  shows "case matches env operator p b (result_of r) of
      Inl e \<Rightarrow> \<not> clause_defined env r (FilterClause operator p b)
    | Inr answer \<Rightarrow> clause_defined env r (FilterClause operator p b)
        \<and> answer = clause_holds env r (FilterClause operator p b)"
proof (cases "lookup env (result_of r) p")
  case (Inl e)
  then show ?thesis using lookup_resolves(1) [OF assms(1), of p] by (auto simp: matches_def)
next
  case (Inr a)
  then have at: "resolves env r p a" using lookup_resolves(1) [OF assms(1)] by blast
  have only: "resolves env r p a' \<longleftrightarrow> a' = a" for a'
    using Inr lookup_resolves(1) [OF assms(1), of p a'] by auto
  note proper = lookup_resolves(2) [OF assms(1) at] assms(2)
  note decides = qval_eq_decides [OF proper] qval_less_decides [OF proper] qval_less_decides [OF proper(2,1)]
    qval_less_eq_decides [OF proper] qval_less_eq_decides [OF proper(2,1)] qval_in_decides [OF proper]
    qval_in_decides [OF proper(2,1)]
  show ?thesis
  proof (cases "operator \<in> {REGEX_MATCHES, NOT_REGEX_MATCHES}")
    case True
    show ?thesis
    proof (cases "a = QVal PyNone")
      case False
      note answer = regex_decides [OF False, of env b, symmetric]
      show ?thesis
        using True by (cases "regex_matches env b a") (auto simp: matches_def Inr only False answer)
    qed (use True in \<open>auto simp: matches_def Inr only regex_answer_def\<close>)
  next
    case False
    then show ?thesis
      by (cases operator) (simp_all add: matches_def Inr only decides type_error_def have_order_sym [of b a] is_same_sym [of b a])
  qed
qed

lemma res_filter_cases:
  "case res_filter f xs of
     Inl e \<Rightarrow> \<not> list_all (\<lambda>x. is_ok (f x)) xs
   | Inr ys \<Rightarrow> list_all (\<lambda>x. is_ok (f x)) xs \<and> ys = filter (\<lambda>x. f x = Inr True) xs"
proof (induction xs)
  case (Cons x xs)
  then show ?case by (cases "f x"; cases "res_filter f xs") auto
qed simp

lemma filter_step:
  fixes c :: "('o, 'u) clause"
  assumes c: "c = FilterClause operator p b" and "list_all (proper_record env) rs" "proper_qval b"
    and "set_results st = map result_of rs"
  shows "case filter_transformer env operator p b st of
      Inl e \<Rightarrow> \<not> list_all (\<lambda>r. clause_defined env r c) rs
    | Inr out \<Rightarrow> list_all (\<lambda>r. clause_defined env r c) rs
        \<and> set_results out = map result_of (filter (\<lambda>r. clause_holds env r c) rs)"
proof -
  let ?f = "matches env operator p b"
  have each: "is_ok (?f (result_of r)) \<longleftrightarrow> clause_defined env r c"
    "clause_defined env r c \<Longrightarrow> ?f (result_of r) = Inr True \<longleftrightarrow> clause_holds env r c" if "r \<in> set rs" for r
    using matches_decides [of env r b operator p] assms(2,3) that unfolding c by (auto simp: list_all_iff split: sum.splits)
  have all: "list_all (\<lambda>x. is_ok (?f x)) (map result_of rs) \<longleftrightarrow> list_all (\<lambda>r. clause_defined env r c) rs"
    using each(1) by (simp add: list_all_iff)
  have "filter (\<lambda>x. ?f x = Inr True) (map result_of rs) = map result_of (filter (\<lambda>r. clause_holds env r c) rs)"
    if "list_all (\<lambda>r. clause_defined env r c) rs"
    unfolding filter_map comp_def using that each(2) by (intro arg_cong [of _ _ "map result_of"] filter_cong) (auto simp: list_all_iff)
  then show ?thesis
    using res_filter_cases [of ?f "map result_of rs"] unfolding all
    by (cases "res_filter ?f (map result_of rs)") (simp_all add: filter_transformer_def assms(4) with_results_def)
qed

lemma filters_cases:
  assumes "list_all proper_filter filters" "list_all (proper_record env) rs" "set_results st = map result_of rs"
  shows "\<exists>ts. res_map (convert_clause (default_query_converter env)) filters = Inr ts
    \<and> (case res_fold (\<lambda>f. f) ts st of
         Inl e \<Rightarrow> \<not> list_all (all_defined env filters) rs
       | Inr out \<Rightarrow> list_all (all_defined env filters) rs
           \<and> set_results out = map result_of (filter (\<lambda>r. list_all (clause_holds env r) filters) rs))"
  using assms
proof (induction filters arbitrary: rs st)
  case Nil
  then show ?case by (simp add: list_all_iff)
next
  case (Cons c filters)
  obtain operator p b where c: "c = FilterClause operator p b" "proper_qval b"
    using Cons.prems(1) by (cases c) auto
  let ?rs = "filter (\<lambda>r. clause_holds env r c) rs"
  have proper: "list_all proper_filter filters" "list_all (proper_record env) ?rs"
    using Cons.prems(1,2) by (auto simp: list_all_iff)
  obtain ts where ts: "res_map (convert_clause (default_query_converter env)) filters = Inr ts"
    using Cons.IH [OF proper, of "result_set_of ?rs"] by (auto simp: result_set_of_def)
  note step = filter_step [OF c(1) Cons.prems(2) c(2) Cons.prems(3)]
  show ?case
  proof (cases "filter_transformer env operator p b st")
    case (Inl e)
    then show ?thesis using step ts c(1) by (auto simp: list_all_iff)
  next
    case (Inr out)
    then have out: "list_all (\<lambda>r. clause_defined env r c) rs" "set_results out = map result_of ?rs"
      using step [unfolded Inr sum.case] by blast+
    have "list_all (all_defined env (c # filters)) rs \<longleftrightarrow> list_all (all_defined env filters) ?rs"
      using out(1) by (auto simp: list_all_iff)
    moreover have "filter (\<lambda>r. list_all (clause_holds env r) filters) ?rs
        = filter (\<lambda>r. list_all (clause_holds env r) (c # filters)) rs" by (simp add: conj_commute)
    ultimately show ?thesis
      using Cons.IH [OF proper out(2)] ts Inr
      by (cases "res_fold (\<lambda>f. f) ts out") (simp_all add: c(1) del: clause_defined.simps clause_holds.simps)
  qed
qed

text \<open>
  C16. A lookup returns exactly the matching records, in the order they are stored, by the meaning
  of its filters: paths followed through keys and indices; equality of numbers by value, of lists
  by items and of dictionaries by keys; numbers by size, strings and lists in lexicographic order;
  membership of items, parts and keys; and \<open>re.match\<close>. It raises exactly when some filter has no
  answer, the path leading nowhere or the values having no order, for a record that the filters
  before it let through.
\<close>

theorem lookup_query_exact:
  assumes "list_all proper_filter filters" and "list_all (proper_record env) records"
  shows "case run_query (default_query_converter env) (Lookup filters) records of
      Inl e \<Rightarrow> \<not> list_all (all_defined env filters) records
    | Inr found \<Rightarrow> list_all (all_defined env filters) records
        \<and> found = filter (\<lambda>r. list_all (clause_holds env r) filters) records"
proof -
  obtain ts where "res_map (convert_clause (default_query_converter env)) filters = Inr ts"
    and fold: "case res_fold (\<lambda>f. f) ts (result_set_of records) of
         Inl e \<Rightarrow> \<not> list_all (all_defined env filters) records
       | Inr out \<Rightarrow> list_all (all_defined env filters) records
           \<and> set_results out = map result_of (filter (\<lambda>r. list_all (clause_holds env r) filters) records)"
    using filters_cases [OF assms, of "result_set_of records"] by (auto simp: result_set_of_def)
  then have "run_query (default_query_converter env) (Lookup filters) records
      = res_bind (res_fold (\<lambda>f. f) ts (result_set_of records)) (\<lambda>out. Inr (result_records out))"
    by (simp add: run_query_def lookup_query_converter_def compose_transformers_fold)
  then show ?thesis
    using fold by (cases "res_fold (\<lambda>f. f) ts (result_set_of records)")
      (auto simp: result_records_def comp_def result_of_def)
qed

text \<open>Filters of several kinds on the sample records, and one whose values have no order\<close>

theorem lookup_query_exact_witness:
  "run_query (default_query_converter sample_memory_env)
     (Lookup [FilterClause NOT_EQUAL (Path ''size'' []) (QVal (PyFloat 1)),
              FilterClause LESS_THAN (Path ''name'' []) (QVal (PyStr ''c'')),
              FilterClause IN (Path ''id'' []) (QVal (PyList [PyStr ''1'', PyStr ''2'']))]
        :: (unit, unit) query) sample_rows
   = Inr [sample_row ''1'' 2 ''b'']
   \<and> \<not> is_ok (run_query (default_query_converter sample_memory_env)
     (Lookup [FilterClause LESS_THAN (Path ''name'' []) (QVal (PyInt 1))] :: (unit, unit) query) sample_rows)"
proof -
  let ?cs = "[FilterClause NOT_EQUAL (Path ''size'' []) (QVal (PyFloat 1)),
      FilterClause LESS_THAN (Path ''name'' []) (QVal (PyStr ''c'')),
      FilterClause IN (Path ''id'' []) (QVal (PyList [PyStr ''1'', PyStr ''2'']))] :: (unit, unit) clause list"
    and ?bad = "[FilterClause LESS_THAN (Path ''name'' []) (QVal (PyInt 1))] :: (unit, unit) clause list"
  have rows: "list_all (proper_record sample_memory_env) sample_rows"
    by (auto simp: proper_record_def sample_memory_env_def split: if_splits)
  have at: "resolves sample_memory_env (sample_row i n s) (Path a []) v
      \<longleftrightarrow> map_option QVal (map_of (sample_row i n s) a) = Some v" for i n s a v
    by (auto simp: resolves_def sample_memory_env_def intro: leads.here elim: leads_NilE)
  have listed: "contained (PyStr i) (PyList [PyStr ''1'', PyStr ''2''] :: unit pyval) \<longleftrightarrow> i = ''1'' \<or> i = ''2''" for i
    by (auto simp: same_str intro: contained.item elim!: contained_listE)
  note meaning = at same_num precedes_str listed alike.texts
  have "run_query (default_query_converter sample_memory_env) (Lookup ?cs) sample_rows
      = Inr (filter (\<lambda>r. list_all (clause_holds sample_memory_env r) ?cs) sample_rows)"
    using lookup_query_exact [of ?cs sample_memory_env sample_rows, OF _ rows]
    by (simp add: meaning split: sum.splits)
  moreover have "\<not> alike (PyStr s) (PyInt 1 :: unit pyval)" for s by (auto elim: alike_strE)
  then have "\<not> is_ok (run_query (default_query_converter sample_memory_env) (Lookup ?bad) sample_rows)"
    using lookup_query_exact [of ?bad sample_memory_env sample_rows, OF _ rows]
    by (simp add: meaning is_ok_def split: sum.splits)
  ultimately show ?thesis by (simp add: meaning)
qed

subsection \<open>Similarity\<close>

lemma distinct_find_ngrams [simp]: "distinct (find_ngrams text n)"
  by (simp add: find_ngrams_def)

lemma ngram_counts:
  assumes "distinct a" and "distinct b"
  shows "length (remdups (a @ b)) = card (set a \<union> set b)"
    and "length (filter (\<lambda>x. x \<in> set b) a) = card (set a \<inter> set b)"
proof -
  show "length (remdups (a @ b)) = card (set a \<union> set b)"
    by (metis length_remdups_card_conv set_append)
  have "distinct (filter (\<lambda>x. x \<in> set b) a)" using assms by simp
  then show "length (filter (\<lambda>x. x \<in> set b) a) = card (set a \<inter> set b)"
    by (metis distinct_card set_filter Int_def inter_set_filter)
qed

text \<open>
  The similarity of two texts is a number between 0 and 1, the same in both directions, and
  it is 1 exactly when the texts have the same trigrams. When neither text contains a word the
  code divides by zero.
\<close>

lemma similarity_score_bounds:
  "case score_similarity text1 text2 n of
     Inl err \<Rightarrow> err = ZeroDivisionError \<and> find_ngrams text1 n = [] \<and> find_ngrams text2 n = []
   | Inr q \<Rightarrow> 0 \<le> q \<and> q \<le> 1 \<and> score_similarity text2 text1 n = Inr q \<and>
       (q = 1 \<longleftrightarrow> set (find_ngrams text1 n) = set (find_ngrams text2 n)) \<and>
       find_ngrams text1 n @ find_ngrams text2 n \<noteq> []"
proof -
  let ?a = "set (find_ngrams text1 n)" and ?b = "set (find_ngrams text2 n)"
  note counts = ngram_counts [OF distinct_find_ngrams [of text1 n] distinct_find_ngrams [of text2 n]]
    ngram_counts [OF distinct_find_ngrams [of text2 n] distinct_find_ngrams [of text1 n]]
  have fin: "finite (?a \<union> ?b)" by simp
  show ?thesis
  proof (cases "?a \<union> ?b = {}")
    case True
    then show ?thesis by (simp add: score_similarity_def)
  next
    case False
    then have pos: "card (?a \<union> ?b) > 0" by (simp add: card_gt_0_iff)
    have le: "card (?a \<inter> ?b) \<le> card (?a \<union> ?b)" by (intro card_mono) auto
    have eq: "card (?a \<inter> ?b) = card (?a \<union> ?b) \<longleftrightarrow> ?a = ?b"
    proof
      assume "card (?a \<inter> ?b) = card (?a \<union> ?b)"
      then have "?a \<inter> ?b = ?a \<union> ?b" using card_subset_eq [OF fin] by blast
      then show "?a = ?b" by blast
    qed simp
    have score: "score_similarity text1 text2 n
        = Inr (of_nat (card (?a \<inter> ?b)) / of_nat (card (?a \<union> ?b)))"
      "score_similarity text2 text1 n
        = Inr (of_nat (card (?a \<inter> ?b)) / of_nat (card (?a \<union> ?b)))"
      using pos False unfolding score_similarity_def Let_def counts
      by (simp_all add: Int_commute Un_commute)
    have q: "(of_nat (card (?a \<inter> ?b)) / of_nat (card (?a \<union> ?b)) :: rat) = 1 \<longleftrightarrow> ?a = ?b"
      using pos eq [symmetric] False by (auto simp: divide_eq_1_iff)
    have "find_ngrams text1 n @ find_ngrams text2 n \<noteq> []" using False by auto
    then show ?thesis using score q le pos by (simp add: divide_le_eq)
  qed
qed

lemma similarity_of_empty_texts: "score_similarity [] [] 3 = Inl ZeroDivisionError"
  by code_simp

end
