(* ===== verification/Projections.thy ===== *)
theory Projections
  imports Memory_Query Events_DB
begin

section \<open>Projections, projectors and the projection store\<close>

text \<open>
  Models \<open>types/projection.py\<close>, \<open>projection/projector.py\<close>, \<open>projection/store/store.py\<close>,
  \<open>projection/store/adapters/memory.py\<close> and \<open>processing/consumers/projection.py\<close>.

  A projector is a user's class: its handlers, its initial state and metadata, its id factory
  and its metadata update are the fields of \<open>projector\<close>, as are the two case conversions the
  code imports from \<open>pyheck\<close>. \<open>pr_attribute\<close> is \<open>getattr(self, name, None)\<close>. States and metadata
  are Python values; \<open>None\<close> stands for "not given", as in the code, which replaces it by the
  initial value.
\<close>

subsection \<open>types/projection.py\<close>

record 'o projection =
  pj_id :: string
  pj_name :: string
  pj_source :: event_source_identifier
  pj_state :: "'o pyval"
  pj_metadata :: "'o pyval"

definition serialise_projection_value ::
  "'o ser_methods \<Rightarrow> 'o ser_fallback \<Rightarrow> 'o projection \<Rightarrow> 'o pyval res" where
  \<comment> \<open>\<open>Projection.serialise\<close>\<close>
  "serialise_projection_value ser fallback p =
     res_bind (serialise_to_json_value ser (pj_state p) fallback) (\<lambda>state.
     res_bind (serialise_to_json_value ser (pj_metadata p) fallback) (\<lambda>metadata.
     Inr (PyDict [(PyStr ''id'', PyStr (pj_id p)), (PyStr ''name'', PyStr (pj_name p)),
                  (PyStr ''source'', serialise_identifier (pj_source p)),
                  (PyStr ''state'', state), (PyStr ''metadata'', metadata)])))"

definition summarise_projection :: "'o projection \<Rightarrow> 'o pyval" where
  "summarise_projection p =
     PyDict [(PyStr ''id'', PyStr (pj_id p)), (PyStr ''name'', PyStr (pj_name p)),
             (PyStr ''source'', serialise_identifier (pj_source p))]"

definition serialise_projection ::
  "'o ser_methods \<Rightarrow> 'o ser_fallback \<Rightarrow> 'o projection \<Rightarrow> 'o projection res" where
  "serialise_projection ser fallback p =
     res_bind (serialise_to_json_value ser (pj_state p) fallback) (\<lambda>state.
     res_bind (serialise_to_json_value ser (pj_metadata p) fallback) (\<lambda>metadata.
     Inr \<lparr>pj_id = pj_id p, pj_name = pj_name p, pj_source = pj_source p, pj_state = state,
          pj_metadata = metadata\<rparr>))"

definition deserialise_projection ::
  "('o, 'c) des_methods \<Rightarrow> 'c klass \<Rightarrow> 'c klass \<Rightarrow> 'o projection \<Rightarrow> 'o projection res" where
  "deserialise_projection des state_type metadata_type p =
     res_bind (deserialise_from_json_value des state_type (pj_state p)
         raising_deserialisation_fallback) (\<lambda>state.
     res_bind (deserialise_from_json_value des metadata_type (pj_metadata p)
         raising_deserialisation_fallback) (\<lambda>metadata.
     Inr \<lparr>pj_id = pj_id p, pj_name = pj_name p, pj_source = pj_source p, pj_state = state,
          pj_metadata = metadata\<rparr>))"

subsection \<open>projection/projector.py\<close>

datatype missing_handler_behaviour = RAISE | IGNORE

type_synonym 'o state_handler = "'o pyval \<Rightarrow> 'o event \<Rightarrow> 'o pyval res"

record 'o projector =
  pr_name :: "string option"
  pr_class_name :: string
  pr_missing :: missing_handler_behaviour
  pr_initial_state :: "'o pyval"
  pr_initial_metadata :: "'o pyval"
  pr_id_factory :: "'o pyval \<Rightarrow> event_source_identifier \<Rightarrow> string"
  pr_update_metadata :: "'o pyval \<Rightarrow> 'o pyval \<Rightarrow> 'o event \<Rightarrow> 'o pyval res"
  pr_attribute :: "string \<Rightarrow> 'o state_handler option"
  pr_snake_case :: "string \<Rightarrow> string"
  pr_kebab_case :: "string \<Rightarrow> string"

text \<open>\<open>s.replace(sub, "")\<close>\<close>

function remove_all :: "string \<Rightarrow> string \<Rightarrow> string" where
  "remove_all sub [] = []"
| "remove_all sub (ch # cs) =
     (if sub \<noteq> [] \<and> prefix sub (ch # cs) then remove_all sub (drop (length sub) (ch # cs))
      else ch # remove_all sub cs)"
  by pat_completeness auto
termination
  by (relation "measure (\<lambda>(sub, s). length s)") auto

definition default_name :: "'o projector \<Rightarrow> string" where
  "default_name prj = pr_kebab_case prj (remove_all ''Projector'' (pr_class_name prj))"

definition projection_name :: "'o projector \<Rightarrow> string" where
  "projection_name prj = (case pr_name prj of Some n \<Rightarrow> n | None \<Rightarrow> default_name prj)"

definition resolve_state :: "'o projector \<Rightarrow> 'o pyval \<Rightarrow> 'o pyval" where
  "resolve_state prj state = (if state = PyNone then pr_initial_state prj else state)"

definition resolve_metadata :: "'o projector \<Rightarrow> 'o pyval \<Rightarrow> 'o pyval" where
  "resolve_metadata prj metadata =
     (if metadata = PyNone then pr_initial_metadata prj else metadata)"

definition resolve_handler :: "'o projector \<Rightarrow> 'o event \<Rightarrow> 'o state_handler res" where
  "resolve_handler prj event =
     (case pr_attribute prj (pr_snake_case prj (se_name event)) of
        Some handler \<Rightarrow> Inr handler
      | None \<Rightarrow>
          (case pr_missing prj of
             RAISE \<Rightarrow> Inl (MissingProjectionHandlerError (se_name event))
           | IGNORE \<Rightarrow> Inr (\<lambda>state _. Inr state)))"

definition apply_event :: "'o projector \<Rightarrow> 'o pyval \<Rightarrow> 'o event \<Rightarrow> 'o pyval res" where
  "apply_event prj state event =
     (let st = resolve_state prj state
      in res_bind (resolve_handler prj event) (\<lambda>handler. handler st event))"

definition project_step ::
  "'o projector \<Rightarrow> 'o event \<Rightarrow> 'o pyval \<times> 'o pyval \<Rightarrow> ('o pyval \<times> 'o pyval) res" where
  "project_step prj event sm =
     res_bind (apply_event prj (fst sm) event) (\<lambda>state.
     res_bind (pr_update_metadata prj state (snd sm) event) (\<lambda>metadata.
     Inr (state, metadata)))"

definition project ::
  "'o projector \<Rightarrow> event_source_identifier \<Rightarrow> 'o event gen \<Rightarrow> 'o pyval \<Rightarrow> 'o pyval
    \<Rightarrow> 'o projection res" where
  "project prj identifier events state metadata =
     res_bind (res_fold (project_step prj) (fst events)
         (resolve_state prj state, resolve_metadata prj metadata)) (\<lambda>sm.
       case snd events of
         Some err \<Rightarrow> Inl err
       | None \<Rightarrow>
           Inr \<lparr>pj_id = pr_id_factory prj (fst sm) identifier, pj_name = projection_name prj,
                pj_source = identifier, pj_state = fst sm, pj_metadata = snd sm\<rparr>)"

subsection \<open>projection/store/adapters/memory.py\<close>

record ('o, 'c) projection_env =
  pe_ser :: "'o ser_methods"
  pe_des :: "('o, 'c) des_methods"
  pe_match :: "string \<Rightarrow> string \<Rightarrow> bool res"
  pe_str_fallback :: "'o ser_fallback"
  pe_debug :: bool

type_synonym 'o projections = "(string \<times> string, 'o projection) dict"

definition projection_attribute :: "'o projection \<Rightarrow> string \<Rightarrow> 'o qval option" where
  "projection_attribute p a =
     (if a = ''id'' then Some (QVal (PyStr (pj_id p)))
      else if a = ''name'' then Some (QVal (PyStr (pj_name p)))
      else if a = ''source'' then Some (QId (pj_source p))
      else if a = ''state'' then Some (QVal (pj_state p))
      else if a = ''metadata'' then Some (QVal (pj_metadata p))
      else None)"

definition projection_memory_env :: "('o, 'c) projection_env \<Rightarrow> ('o projection, 'o) memory_env" where
  "projection_memory_env env =
     \<lparr>me_attribute = projection_attribute, me_id = pj_id, me_match = pe_match env\<rparr>"

definition adapter_save ::
  "('o, 'c) projection_env \<Rightarrow> 'o projection \<Rightarrow> 'o projections \<Rightarrow> 'o projections res" where
  "adapter_save env p ps =
     (let key = (pj_name p, pj_id p)
      in case map_of ps key of
           Some existing \<Rightarrow>
             res_bind (serialise_to_json_value (pe_ser env) (pj_state p)
                 raising_serialisation_fallback) (\<lambda>state.
             res_bind (serialise_to_json_value (pe_ser env) (pj_metadata p)
                 raising_serialisation_fallback) (\<lambda>metadata.
             Inr (AList.update key
               \<lparr>pj_id = pj_id existing, pj_name = pj_name existing, pj_source = pj_source existing,
                pj_state = state, pj_metadata = metadata\<rparr> ps)))
         | None \<Rightarrow>
             res_bind (serialise_projection (pe_ser env) raising_serialisation_fallback p) (\<lambda>q.
             Inr (AList.update key q ps)))"

definition find_raw ::
  "('o, 'c) projection_env \<Rightarrow> ('o, 'u) query \<Rightarrow> 'o projections \<Rightarrow> 'o projection list res" where
  "find_raw env q ps =
     run_query (default_query_converter (projection_memory_env env)) q (dict_values ps)"

definition find_one ::
  "('o, 'c) projection_env \<Rightarrow> ('o, 'u) query \<Rightarrow> 'c klass \<Rightarrow> 'c klass \<Rightarrow> 'o projections
    \<Rightarrow> 'o projection option res" where
  "find_one env q state_type metadata_type ps =
     res_bind (find_raw env q ps) (\<lambda>found.
       if length found > 1 then Inl (ValueError ''Expected single projection'')
       else if length found = 0 then Inr None
       else res_bind (py_index found 0) (\<lambda>p.
            res_bind (deserialise_projection (pe_des env) state_type metadata_type p) (\<lambda>q.
            Inr (Some q))))"

definition find_many ::
  "('o, 'c) projection_env \<Rightarrow> ('o, 'u) query \<Rightarrow> 'c klass \<Rightarrow> 'c klass \<Rightarrow> 'o projections
    \<Rightarrow> 'o projection list res" where
  "find_many env q state_type metadata_type ps =
     res_bind (find_raw env q ps) (\<lambda>found.
       res_map (deserialise_projection (pe_des env) state_type metadata_type) found)"

subsection \<open>projection/store/store.py\<close>

text \<open>After saving, the store logs the projection, serialised in full when debugging.\<close>

definition projection_store_save ::
  "('o, 'c) projection_env \<Rightarrow> 'o projection \<Rightarrow> 'o projections \<Rightarrow> 'o projections \<times> unit res" where
  "projection_store_save env p ps =
     (case adapter_save env p ps of
        Inl err \<Rightarrow> (ps, Inl err)
      | Inr ps' \<Rightarrow>
          (ps', if pe_debug env
                then res_bind (serialise_projection_value (pe_ser env) (pe_str_fallback env) p)
                       (\<lambda>_. Inr ())
                else Inr ()))"

definition locate ::
  "('o, 'c) projection_env \<Rightarrow> event_source_identifier \<Rightarrow> string \<Rightarrow> 'c klass \<Rightarrow> 'c klass
    \<Rightarrow> 'o projections \<Rightarrow> 'o projection option res" where
  "locate env source name state_type metadata_type ps =
     find_one env (Lookup [FilterClause EQUAL (Path ''source'' []) (QId source),
                           FilterClause EQUAL (Path ''name'' []) (QVal (PyStr name))]
        :: ('o, unit) query) state_type metadata_type ps"

definition load ::
  "('o, 'c) projection_env \<Rightarrow> string \<Rightarrow> string \<Rightarrow> 'c klass \<Rightarrow> 'c klass
    \<Rightarrow> 'o projections \<Rightarrow> 'o projection option res" where
  "load env i name state_type metadata_type ps =
     find_one env (Lookup [FilterClause EQUAL (Path ''name'' []) (QVal (PyStr name)),
                           FilterClause EQUAL (Path ''id'' []) (QVal (PyStr i))]
        :: ('o, unit) query) state_type metadata_type ps"

definition search ::
  "('o, 'c) projection_env \<Rightarrow> ('o, 'u) clause list \<Rightarrow> ('o, 'u) clause \<Rightarrow> ('o, 'u) clause
    \<Rightarrow> 'c klass \<Rightarrow> 'c klass \<Rightarrow> 'o projections \<Rightarrow> 'o projection list res" where
  "search env filters sort_by paging state_type metadata_type ps =
     find_many env (Search filters (Some sort_by) (Some paging)) state_type metadata_type ps"

subsection \<open>processing/consumers/projection.py\<close>

definition process_event ::
  "('o, 'c) projection_env \<Rightarrow> 'o projector \<Rightarrow> 'c klass \<Rightarrow> 'c klass \<Rightarrow> 'o event
    \<Rightarrow> 'o projections \<Rightarrow> 'o projections \<times> unit res" where
  "process_event env prj state_type metadata_type event ps =
     (let identifier = StreamIdentifier (se_category event) (se_stream event)
      in case locate env identifier (projection_name prj) state_type metadata_type ps of
           Inl err \<Rightarrow> (ps, Inl err)
         | Inr current \<Rightarrow>
             (case project prj identifier
                 (memory_iterate
                    (default_constraint_converter :: ('o event, unit) constraint_converter)
                    [event] [])
                 (case current of None \<Rightarrow> PyNone | Some p \<Rightarrow> pj_state p)
                 (case current of None \<Rightarrow> PyNone | Some p \<Rightarrow> pj_metadata p) of
                Inl err \<Rightarrow> (ps, Inl err)
              | Inr updated \<Rightarrow> projection_store_save env updated ps))"

subsection \<open>Projecting in steps\<close>

lemma project_list:
  "project prj i (es, None) state metadata =
     res_bind (res_fold (project_step prj) es (resolve_state prj state, resolve_metadata prj metadata))
       (\<lambda>sm. Inr \<lparr>pj_id = pr_id_factory prj (fst sm) i, pj_name = projection_name prj,
            pj_source = i, pj_state = fst sm, pj_metadata = snd sm\<rparr>)"
  by (simp add: project_def)

lemma project_append:
  assumes "\<And>p. project prj i (es, None) state metadata = Inr p \<Longrightarrow>
      pj_state p \<noteq> PyNone \<and> pj_metadata p \<noteq> PyNone"
  shows "project prj i (es @ es', None) state metadata =
     res_bind (project prj i (es, None) state metadata) (\<lambda>p.
       project prj i (es', None) (pj_state p) (pj_metadata p))"
proof (cases "res_fold (project_step prj) es (resolve_state prj state, resolve_metadata prj metadata)")
  case (Inr sm)
  then have "fst sm \<noteq> PyNone" "snd sm \<noteq> PyNone" using assms by (auto simp: project_list)
  then have "(resolve_state prj (fst sm), resolve_metadata prj (snd sm)) = sm"
    by (simp add: resolve_state_def resolve_metadata_def)
  then show ?thesis using Inr by (simp add: project_list res_fold_append)
qed (simp add: project_list res_fold_append)

text \<open>
  Projecting in steps is projecting at once: projecting some events and then, from the state
  and metadata reached, the events that follow gives the projection of all of them, the
  exceptions raised included, as long as neither the state nor the metadata reached is \<open>None\<close>,
  which the projector would take for "start afresh".
\<close>

lemma incremental_projection:
  assumes "\<And>p. project prj i (es, None) state metadata = Inr p \<Longrightarrow>
      pj_state p \<noteq> PyNone \<and> pj_metadata p \<noteq> PyNone"
  shows "project prj i (es @ es', None) state metadata =
     res_bind (project prj i (es, None) state metadata) (\<lambda>p.
       project prj i (es', None) (pj_state p) (pj_metadata p))"
  using assms by (rule project_append)

text \<open>A projector that counts the events it is told about.\<close>

definition counting_projector :: "unit projector" where
  "counting_projector =
     \<lparr>pr_name = None, pr_class_name = ''ThingProjector'', pr_missing = RAISE,
      pr_initial_state = PyInt 0, pr_initial_metadata = PyDict [],
      pr_id_factory = (\<lambda>_ i. case i of StreamIdentifier c s \<Rightarrow> c @ ''/'' @ s | _ \<Rightarrow> ''log''),
      pr_update_metadata = (\<lambda>_ metadata _. Inr metadata),
      pr_attribute = (\<lambda>name. if name = ''created''
        then Some (\<lambda>state _. case state of PyInt n \<Rightarrow> Inr (PyInt (n + 1)) | _ \<Rightarrow> type_error)
        else None),
      pr_snake_case = (\<lambda>s. s), pr_kebab_case = (\<lambda>s. s)\<rparr>"

lemma incremental_projection_example:
  "project counting_projector LogIdentifier ([sample_event, sample_event] @ [sample_event], None)
      PyNone PyNone
   = project counting_projector LogIdentifier ([sample_event], None) (PyInt 2) (PyDict [])"
proof -
  have "project counting_projector LogIdentifier ([sample_event, sample_event], None) PyNone PyNone
      = Inr \<lparr>pj_id = ''log'', pj_name = ''Thing'', pj_source = LogIdentifier, pj_state = PyInt 2,
          pj_metadata = PyDict []\<rparr>"
    by code_simp
  with incremental_projection [of counting_projector LogIdentifier "[sample_event, sample_event]"
      PyNone PyNone "[sample_event]"]
  show ?thesis by simp
qed

definition handled :: "'o projector \<Rightarrow> 'o event \<Rightarrow> bool" where
  "handled prj e \<longleftrightarrow> pr_attribute prj (pr_snake_case prj (se_name e)) \<noteq> None"

lemma handled_missing [simp]: "handled (prj\<lparr>pr_missing := b\<rparr>) = handled prj"
  by (simp add: handled_def fun_eq_iff)

lemma skip_unhandled:
  assumes "\<And>st md e. pr_update_metadata prj st md e = Inr md" and "pr_missing prj = IGNORE"
    and "\<And>e h st st'. e \<in> set es \<Longrightarrow> pr_attribute prj (pr_snake_case prj (se_name e)) = Some h \<Longrightarrow>
      h st e = Inr st' \<Longrightarrow> st' \<noteq> PyNone"
    and "st \<noteq> PyNone"
  shows "res_fold (project_step prj) es (st, md)
    = res_fold (project_step prj) (filter (handled prj) es) (st, md)"
  using assms(3,4)
proof (induction es arbitrary: st)
  case (Cons e es)
  have IH: "res_fold (project_step prj) es (st', md)
      = res_fold (project_step prj) (filter (handled prj) es) (st', md)" if "st' \<noteq> PyNone" for st'
    using Cons.IH [of st'] Cons.prems(1) that by auto
  show ?case
  proof (cases "pr_attribute prj (pr_snake_case prj (se_name e))")
    case None
    then have "project_step prj e (st, md) = Inr (st, md)"
      using assms(1,2) Cons.prems(2)
      by (simp add: project_step_def apply_event_def resolve_handler_def resolve_state_def)
    moreover have "\<not> handled prj e" using None by (simp add: handled_def)
    ultimately show ?thesis using IH Cons.prems(2) by simp
  next
    case (Some h)
    then have step: "project_step prj e (st, md) = res_bind (h st e) (\<lambda>st'. Inr (st', md))"
      using assms(1) Cons.prems(2)
      by (simp add: project_step_def apply_event_def resolve_handler_def resolve_state_def)
    have yes: "handled prj e" using Some by (simp add: handled_def)
    show ?thesis
    proof (cases "h st e")
      case (Inr st')
      then show ?thesis using yes Some step IH [of st'] Cons.prems(1) [of e h st st'] by simp
    qed (use yes step in simp)
  qed
qed simp

text \<open>
  Events without a handler: a projector that ignores them projects as if they were not there
  (when it keeps no metadata of its own and its handlers do not return \<open>None\<close>); a projector that
  raises on them projects up to the first such event and then fails with the error that names it.
\<close>

lemma missing_handlers:
  assumes "\<And>st md e. pr_update_metadata prj st md e = Inr md" and "pr_initial_state prj \<noteq> PyNone"
    and "\<And>e h st st'. e \<in> set es \<Longrightarrow> pr_attribute prj (pr_snake_case prj (se_name e)) = Some h \<Longrightarrow>
      h st e = Inr st' \<Longrightarrow> st' \<noteq> PyNone"
  shows "project (prj\<lparr>pr_missing := IGNORE\<rparr>) i (es, None) state metadata
      = project (prj\<lparr>pr_missing := IGNORE\<rparr>) i (filter (handled prj) es, None) state metadata \<and>
    project (prj\<lparr>pr_missing := RAISE\<rparr>) i (es, None) state metadata
      = res_bind (project (prj\<lparr>pr_missing := RAISE\<rparr>) i (takeWhile (handled prj) es, None)
            state metadata)
          (\<lambda>p. case dropWhile (handled prj) es of
             [] \<Rightarrow> Inr p
           | e # _ \<Rightarrow> Inl (MissingProjectionHandlerError (se_name e)))"
proof -
  let ?ign = "prj\<lparr>pr_missing := IGNORE\<rparr>" and ?rs = "prj\<lparr>pr_missing := RAISE\<rparr>"
  have "resolve_state ?ign state \<noteq> PyNone" using assms(2) by (simp add: resolve_state_def)
  then have "res_fold (project_step ?ign) es (resolve_state ?ign state, md)
      = res_fold (project_step ?ign) (filter (handled prj) es) (resolve_state ?ign state, md)" for md
    using skip_unhandled [of ?ign es "resolve_state ?ign state" md] assms(1,3) by simp
  then have ignore: "project ?ign i (es, None) state metadata
      = project ?ign i (filter (handled prj) es, None) state metadata"
    by (simp add: project_list)
  have "res_fold (project_step ?rs) es sm
      = res_bind (res_fold (project_step ?rs) (takeWhile (handled prj) es) sm)
          (\<lambda>sm. case dropWhile (handled prj) es of
             [] \<Rightarrow> Inr sm
           | e # _ \<Rightarrow> Inl (MissingProjectionHandlerError (se_name e)))" for sm
  proof (induction es arbitrary: sm)
    case (Cons e es)
    then show ?case
      by (auto simp: res_bind_assoc project_step_def apply_event_def resolve_handler_def
          handled_def)
  qed simp
  then have "project ?rs i (es, None) state metadata
      = res_bind (project ?rs i (takeWhile (handled prj) es, None) state metadata)
          (\<lambda>p. case dropWhile (handled prj) es of
             [] \<Rightarrow> Inr p
           | e # _ \<Rightarrow> Inl (MissingProjectionHandlerError (se_name e)))"
    by (cases "dropWhile (handled prj) es") (simp_all add: project_list res_bind_assoc
        del: dropWhile_eq_Nil_conv)
  with ignore show ?thesis by blast
qed

lemma missing_handlers_witness:
  "project counting_projector LogIdentifier
     ([sample_event, sample_event\<lparr>se_name := ''gone''\<rparr>, sample_event], None) PyNone PyNone
   = Inl (MissingProjectionHandlerError ''gone'')"
proof -
  let ?es = "[sample_event, sample_event\<lparr>se_name := ''gone''\<rparr>, sample_event]"
  have eq: "counting_projector\<lparr>pr_missing := RAISE\<rparr> = counting_projector"
    by (simp add: counting_projector_def)
  have h1: "pr_update_metadata counting_projector st md e = Inr md" for st md e
    by (simp add: counting_projector_def)
  have h2: "pr_initial_state counting_projector \<noteq> PyNone"
    by (simp add: counting_projector_def)
  have h3: "st' \<noteq> PyNone" if "e \<in> set ?es"
    "pr_attribute counting_projector (pr_snake_case counting_projector (se_name e)) = Some h"
    "h st e = Inr st'" for e h st st'
    using that by (auto simp: counting_projector_def type_error_def split: pyval.splits if_splits)
  have t: "takeWhile (handled counting_projector) ?es = [sample_event]"
    "dropWhile (handled counting_projector) ?es = [sample_event\<lparr>se_name := ''gone''\<rparr>, sample_event]"
    by (simp_all add: handled_def counting_projector_def sample_event_def)
  have "is_ok (project counting_projector LogIdentifier ([sample_event], None) PyNone PyNone)"
    by code_simp
  then obtain p where "project counting_projector LogIdentifier ([sample_event], None) PyNone PyNone
      = Inr p" by (auto simp: is_ok_iff)
  with missing_handlers [of counting_projector ?es LogIdentifier PyNone PyNone, OF h1 h2 h3, unfolded eq t] show ?thesis
    by simp
qed

subsection \<open>The projection store\<close>

text \<open>The keys of the store are the name and id of what is stored under them.\<close>

definition projections_ok :: "'o projections \<Rightarrow> bool" where
  "projections_ok ps \<longleftrightarrow>
     wf_dict ps \<and> list_all (\<lambda>(k, p). k = (pj_name p, pj_id p)) ps"

lemma projection_matches [simp]:
  "matches (projection_memory_env env) EQUAL (Path ''source'' []) (QId i) (result_of p)
     = Inr (pj_source p = i)"
  "matches (projection_memory_env env) EQUAL (Path ''name'' []) (QVal (PyStr n)) (result_of p)
     = Inr (pj_name p = n)"
  "matches (projection_memory_env env) EQUAL (Path ''id'' []) (QVal (PyStr x)) (result_of p)
     = Inr (pj_id p = x)"
  by (simp_all add: matches_def lookup_def lookup_in_extra_def lookup_in_record_def
      invalid_path_def projection_memory_env_def projection_attribute_def result_of_def)

lemma find_raw_locate:
  "find_raw env (Lookup [FilterClause EQUAL (Path ''source'' []) (QId i),
       FilterClause EQUAL (Path ''name'' []) (QVal (PyStr n))]) ps
     = Inr (filter (\<lambda>p. pj_source p = i \<and> pj_name p = n) (dict_values ps))"
  unfolding find_raw_def by (subst run_lookup) simp_all

lemma find_raw_load:
  "find_raw env (Lookup [FilterClause EQUAL (Path ''name'' []) (QVal (PyStr n)),
       FilterClause EQUAL (Path ''id'' []) (QVal (PyStr x))]) ps
     = Inr (filter (\<lambda>p. pj_name p = n \<and> pj_id p = x) (dict_values ps))"
  unfolding find_raw_def by (subst run_lookup) simp_all

lemma filter_by_key:
  assumes "projections_ok ps"
  shows "filter (\<lambda>p. pj_name p = n \<and> pj_id p = x) (dict_values ps)
    = (case map_of ps (n, x) of None \<Rightarrow> [] | Some p \<Rightarrow> [p])"
  using assms
proof (induction ps)
  case (Cons kp ps)
  obtain k p where kp: "kp = (k, p)" by fastforce
  have ok: "projections_ok ps" and k: "k = (pj_name p, pj_id p)" and new: "k \<notin> set (map fst ps)"
    using Cons.prems kp by (auto simp: projections_ok_def wf_dict_def dict_keys_def)
  show ?case
  proof (cases "k = (n, x)")
    case True
    then have "map_of ps (n, x) = None" using new by (simp add: map_of_eq_None_iff)
    then show ?thesis using Cons.IH [OF ok] True k kp by (auto simp: dict_values_def)
  next
    case False
    then show ?thesis using Cons.IH [OF ok] k kp by (auto simp: dict_values_def)
  qed
qed (simp add: dict_values_def)

definition read_back where
  "read_back env st mt found =
     (case found of
        None \<Rightarrow> Inr None
      | Some p \<Rightarrow> res_bind (deserialise_projection (pe_des env) st mt p) (\<lambda>q. Inr (Some q)))"

lemma find_one_of_list:
  assumes "find_raw env q ps = Inr (case found of None \<Rightarrow> [] | Some p \<Rightarrow> [p])"
  shows "find_one env q st mt ps = read_back env st mt found"
  using assms by (cases found) (simp_all add: find_one_def read_back_def py_index_nth)

lemma load_eq:
  "projections_ok ps \<Longrightarrow> load env x n st mt ps = read_back env st mt (map_of ps (n, x))"
  unfolding load_def by (rule find_one_of_list) (simp add: find_raw_load filter_by_key)

lemma adapter_save_cases:
  assumes "projections_ok ps" and "adapter_save env p ps = Inr ps'"
  obtains stored where "serialise_projection (pe_ser env) raising_serialisation_fallback p = Inr stored"
    "ps' = AList.update (pj_name p, pj_id p) (stored\<lparr>pj_source :=
       (case map_of ps (pj_name p, pj_id p) of None \<Rightarrow> pj_source p | Some e \<Rightarrow> pj_source e)\<rparr>) ps"
proof -
  let ?k = "(pj_name p, pj_id p)"
  obtain state metadata where s: "serialise_to_json_value (pe_ser env) (pj_state p)
      raising_serialisation_fallback = Inr state" "serialise_to_json_value (pe_ser env)
      (pj_metadata p) raising_serialisation_fallback = Inr metadata"
    using assms(2)
    by (cases "map_of ps ?k") (auto simp: adapter_save_def serialise_projection_def)
  let ?stored = "\<lparr>pj_id = pj_id p, pj_name = pj_name p, pj_source = pj_source p,
      pj_state = state, pj_metadata = metadata\<rparr>"
  have key: "pj_name e = pj_name p \<and> pj_id e = pj_id p" if "map_of ps ?k = Some e" for e
    using assms(1) map_of_SomeD [OF that] by (auto simp: projections_ok_def list_all_iff)
  have "serialise_projection (pe_ser env) raising_serialisation_fallback p = Inr ?stored"
    using s by (simp add: serialise_projection_def)
  moreover have "ps' = AList.update ?k (?stored\<lparr>pj_source :=
       (case map_of ps ?k of None \<Rightarrow> pj_source p | Some e \<Rightarrow> pj_source e)\<rparr>) ps"
  proof (cases "map_of ps ?k")
    case None
    then show ?thesis using assms(2) calculation by (simp add: adapter_save_def)
  next
    case (Some e)
    then show ?thesis using assms(2) s key [OF Some] by (simp add: adapter_save_def)
  qed
  ultimately show thesis by (rule that)
qed

lemma projections_ok_update:
  assumes "projections_ok ps" and "k = (pj_name v, pj_id v)"
  shows "projections_ok (AList.update k v ps)"
proof -
  have "list_all (\<lambda>(k, q). k = (pj_name q, pj_id q)) (AList.update k v ps)"
    using assms by (induction ps) (auto simp: projections_ok_def wf_dict_def dict_keys_def)
  then show ?thesis using assms(1) by (simp add: projections_ok_def)
qed

lemma projections_ok_save:
  assumes "projections_ok ps" and "adapter_save env p ps = Inr ps'"
  shows "projections_ok ps'"
proof -
  obtain stored where st: "serialise_projection (pe_ser env) raising_serialisation_fallback p = Inr stored"
    "ps' = AList.update (pj_name p, pj_id p) (stored\<lparr>pj_source :=
       (case map_of ps (pj_name p, pj_id p) of None \<Rightarrow> pj_source p | Some e \<Rightarrow> pj_source e)\<rparr>) ps"
    using adapter_save_cases [OF assms] by blast
  then show ?thesis
    using assms(1) by (auto simp: serialise_projection_def intro!: projections_ok_update)
qed

text \<open>
  C13. Saving and loading: after a successful save, loading by name and id returns the saved
  projection read back from its serialised state and metadata, with the source it was first saved
  with, and every other name and id loads as before.
\<close>

theorem projection_save_load:
  assumes "projections_ok ps" and "adapter_save env p ps = Inr ps'"
  shows "projections_ok ps' \<and>
    (\<exists>stored. serialise_projection (pe_ser env) raising_serialisation_fallback p = Inr stored \<and>
       load env (pj_id p) (pj_name p) st mt ps' = read_back env st mt (Some (stored\<lparr>pj_source :=
         (case map_of ps (pj_name p, pj_id p) of None \<Rightarrow> pj_source p | Some e \<Rightarrow> pj_source e)\<rparr>))) \<and>
    (\<forall>n x. (n, x) \<noteq> (pj_name p, pj_id p) \<longrightarrow> load env x n st mt ps' = load env x n st mt ps)"
proof -
  note ok = projections_ok_save [OF assms]
  obtain stored where stored:
    "serialise_projection (pe_ser env) raising_serialisation_fallback p = Inr stored"
    "ps' = AList.update (pj_name p, pj_id p) (stored\<lparr>pj_source :=
       (case map_of ps (pj_name p, pj_id p) of None \<Rightarrow> pj_source p | Some e \<Rightarrow> pj_source e)\<rparr>) ps"
    using adapter_save_cases [OF assms] by blast
  have "map_of ps' = (map_of ps)((pj_name p, pj_id p) \<mapsto> stored\<lparr>pj_source :=
       (case map_of ps (pj_name p, pj_id p) of None \<Rightarrow> pj_source p | Some e \<Rightarrow> pj_source e)\<rparr>)"
    unfolding stored(2) by (rule update_conv')
  then show ?thesis using ok stored(1) by (simp add: load_eq [OF ok] load_eq [OF assms(1)])
qed

definition sample_projection_env :: "(unit, unit) projection_env" where
  "sample_projection_env = \<lparr>pe_ser = (\<lambda>_. None), pe_des = (\<lambda>_. None),
     pe_match = (\<lambda>_ _. Inr True), pe_str_fallback = raising_serialisation_fallback,
     pe_debug = False\<rparr>"

abbreviation sample_projection :: "int \<Rightarrow> unit projection" where
  "sample_projection n \<equiv> \<lparr>pj_id = ''1'', pj_name = ''thing'', pj_source = StreamIdentifier ''c'' ''s'',
     pj_state = PyInt n, pj_metadata = PyDict []\<rparr>"

lemma projections_ok_Nil [simp]: "projections_ok []"
  by (simp add: projections_ok_def)

theorem projection_save_load_witness:
  "load sample_projection_env ''1'' ''thing'' KJsonValueType KJsonValueType
     [((''thing'', ''1''), sample_projection 7)] = Inr (Some (sample_projection 7))"
proof -
  have save: "adapter_save sample_projection_env (sample_projection 7) []
      = Inr [((''thing'', ''1''), sample_projection 7)]"
    by code_simp
  from projection_save_load [OF projections_ok_Nil save, of KJsonValueType KJsonValueType]
  show ?thesis
    by (auto simp: serialise_projection_def read_back_def deserialise_projection_def
        sample_projection_env_def)
qed

subsection \<open>Event by event processing\<close>

text \<open>
  A projector is well behaved on some events when, from any JSON state and metadata other than
  \<open>None\<close>, it handles each of them and again leaves such a state and metadata, and when a
  projection's id is determined by the stream it belongs to.
\<close>

definition present :: "'o pyval \<Rightarrow> bool" where
  "present v \<longleftrightarrow> is_json_value v \<and> v \<noteq> PyNone"

definition well_behaved :: "'o projector \<Rightarrow> (event_source_identifier \<Rightarrow> string) \<Rightarrow> 'o event set \<Rightarrow> bool" where
  "well_behaved prj idf E \<longleftrightarrow>
     present (pr_initial_state prj) \<and> present (pr_initial_metadata prj) \<and>
     (\<forall>st i. pr_id_factory prj st i = idf i) \<and>
     (\<forall>c s c' s'. idf (StreamIdentifier c s) = idf (StreamIdentifier c' s') \<longrightarrow> c = c' \<and> s = s') \<and>
     (\<forall>e \<in> E. \<forall>st md. present st \<and> present md \<longrightarrow>
        (\<exists>st' md'. project_step prj e (st, md) = Inr (st', md') \<and> present st' \<and> present md'))"

fun process_events ::
  "('o, 'c) projection_env \<Rightarrow> 'o projector \<Rightarrow> 'c klass \<Rightarrow> 'c klass \<Rightarrow> 'o event list
    \<Rightarrow> 'o projections \<Rightarrow> 'o projections \<times> unit res" where
  "process_events env prj st mt [] ps = (ps, Inr ())"
| "process_events env prj st mt (e # es) ps =
     (case process_event env prj st mt e ps of
        (ps', Inl err) \<Rightarrow> (ps', Inl err)
      | (ps', Inr _) \<Rightarrow> process_events env prj st mt es ps')"

text \<open>What the store holds after the events \<open>es\<close>: one projection per stream that has any.\<close>

definition stream_projected ::
  "'o projector \<Rightarrow> event_source_identifier \<Rightarrow> 'o event list \<Rightarrow> 'o projection option \<Rightarrow> bool" where
  "stream_projected prj i es found \<longleftrightarrow>
     (case found of
        None \<Rightarrow> es = []
      | Some p \<Rightarrow> es \<noteq> [] \<and> project prj i (es, None) PyNone PyNone = Inr p)"

definition projects_streams ::
  "'o projector \<Rightarrow> (event_source_identifier \<Rightarrow> string) \<Rightarrow> 'o event list \<Rightarrow> 'o projections \<Rightarrow> bool" where
  "projects_streams prj idf es ps \<longleftrightarrow>
     projections_ok ps \<and>
     (\<forall>k p. map_of ps k = Some p \<longrightarrow>
        (\<exists>c s. k = (projection_name prj, idf (StreamIdentifier c s)) \<and>
           pj_source p = StreamIdentifier c s \<and> present (pj_state p) \<and> present (pj_metadata p))) \<and>
     (\<forall>c s. stream_projected prj (StreamIdentifier c s) (stream_of c s es)
        (map_of ps (projection_name prj, idf (StreamIdentifier c s))))"

lemma projects_streamsD:
  assumes "projects_streams prj idf es ps"
  shows "projections_ok ps"
    and "map_of ps k = Some p \<Longrightarrow> \<exists>c s. k = (projection_name prj, idf (StreamIdentifier c s)) \<and>
      pj_source p = StreamIdentifier c s \<and> present (pj_state p) \<and> present (pj_metadata p)"
    and "stream_projected prj (StreamIdentifier c s) (stream_of c s es)
        (map_of ps (projection_name prj, idf (StreamIdentifier c s)))"
  using assms unfolding projects_streams_def by blast+

lemma well_behavedD:
  assumes "well_behaved prj idf E"
  shows "present (pr_initial_state prj)" and "present (pr_initial_metadata prj)"
    and "pr_id_factory prj st i = idf i"
    and "idf (StreamIdentifier c s) = idf (StreamIdentifier c' s') \<Longrightarrow> c = c' \<and> s = s'"
    and "e \<in> E \<Longrightarrow> present st \<Longrightarrow> present md \<Longrightarrow>
      \<exists>st' md'. project_step prj e (st, md) = Inr (st', md') \<and> present st' \<and> present md'"
  using assms unfolding well_behaved_def by blast+

lemma stored_key:
  assumes "projections_ok ps"
  shows "map_of ps k = Some p \<Longrightarrow> k = (pj_name p, pj_id p)"
    and "p \<in> set (dict_values ps) \<Longrightarrow> map_of ps (pj_name p, pj_id p) = Some p"
proof -
  have keys: "k = (pj_name p, pj_id p)" if "(k, p) \<in> set ps" for k p
    using assms that by (auto simp: projections_ok_def list_all_iff)
  then show "map_of ps k = Some p \<Longrightarrow> k = (pj_name p, pj_id p)" by (blast dest: map_of_SomeD)
  assume "p \<in> set (dict_values ps)"
  then obtain k' where "(k', p) \<in> set ps" by (auto simp: dict_values_def)
  with keys have "((pj_name p, pj_id p), p) \<in> set ps" by metis
  moreover have "distinct (map fst ps)"
    using assms by (simp add: projections_ok_def wf_dict_def dict_keys_def)
  ultimately show "map_of ps (pj_name p, pj_id p) = Some p" by (simp add: map_of_is_SomeI)
qed

lemma source_is_key:
  assumes "projects_streams prj idf es ps"
    and inj: "\<And>c s c' s'. idf (StreamIdentifier c s) = idf (StreamIdentifier c' s') \<Longrightarrow> c = c' \<and> s = s'"
  shows "filter (\<lambda>p. pj_source p = StreamIdentifier c s \<and> pj_name p = projection_name prj)
      (dict_values ps)
    = (case map_of ps (projection_name prj, idf (StreamIdentifier c s)) of
         None \<Rightarrow> [] | Some p \<Rightarrow> [p])"
proof -
  have ok: "projections_ok ps" using projects_streamsD(1) [OF assms(1)] .
  have "pj_source p = StreamIdentifier c s \<and> pj_name p = projection_name prj \<longleftrightarrow>
      pj_name p = projection_name prj \<and> pj_id p = idf (StreamIdentifier c s)"
    if mem: "p \<in> set (dict_values ps)" for p
  proof -
    have "map_of ps (pj_name p, pj_id p) = Some p" using stored_key(2) [OF ok mem] .
    then obtain c' s' where c': "(pj_name p, pj_id p) = (projection_name prj, idf (StreamIdentifier c' s'))"
      "pj_source p = StreamIdentifier c' s'"
      using projects_streamsD(2) [OF assms(1)] by blast
    then show ?thesis using c' inj [of c' s' c s] by auto
  qed
  then have "filter (\<lambda>p. pj_source p = StreamIdentifier c s \<and> pj_name p = projection_name prj)
      (dict_values ps) = filter (\<lambda>p. pj_name p = projection_name prj \<and>
        pj_id p = idf (StreamIdentifier c s)) (dict_values ps)"
    by (rule filter_cong [OF refl])
  then show ?thesis using filter_by_key [OF ok] by simp
qed

lemma present_json [simp]: "present v \<Longrightarrow> is_json_value v" and present_some: "present v \<Longrightarrow> v \<noteq> PyNone"
  by (simp_all add: present_def)

lemma locate_stored:
  assumes "projects_streams prj idf es ps"
    and "\<And>c s c' s'. idf (StreamIdentifier c s) = idf (StreamIdentifier c' s') \<Longrightarrow> c = c' \<and> s = s'"
  shows "locate env (StreamIdentifier c s) (projection_name prj) KJsonValueType KJsonValueType ps
    = Inr (map_of ps (projection_name prj, idf (StreamIdentifier c s)))"
proof -
  let ?found = "map_of ps (projection_name prj, idf (StreamIdentifier c s))"
  have "locate env (StreamIdentifier c s) (projection_name prj) KJsonValueType KJsonValueType ps
      = read_back env KJsonValueType KJsonValueType ?found"
    unfolding locate_def
    by (rule find_one_of_list) (simp add: find_raw_locate source_is_key [OF assms])
  moreover have "read_back env KJsonValueType KJsonValueType ?found = Inr ?found"
  proof (cases ?found)
    case (Some p)
    then have "present (pj_state p)" "present (pj_metadata p)"
      using projects_streamsD(2) [OF assms(1) Some] by auto
    then show ?thesis using Some by (simp add: read_back_def deserialise_projection_def)
  qed (simp add: read_back_def)
  ultimately show ?thesis by simp
qed

lemma project_present:
  assumes wb: "well_behaved prj idf E" and sub: "set es \<subseteq> E"
    and st: "state = PyNone \<or> present state" and md: "metadata = PyNone \<or> present metadata"
  shows "\<exists>p. project prj i (es, None) state metadata = Inr p \<and> pj_id p = idf i \<and>
    pj_name p = projection_name prj \<and> pj_source p = i \<and> present (pj_state p) \<and>
    present (pj_metadata p)"
proof -
  have fold: "\<exists>st' md'. res_fold (project_step prj) es (st, md) = Inr (st', md') \<and>
      present st' \<and> present md'"
    if "present st" "present md" for st md
    using sub that
  proof (induction es arbitrary: st md)
    case (Cons e es)
    then obtain st1 md1 where "project_step prj e (st, md) = Inr (st1, md1)" "present st1" "present md1"
      using well_behavedD(5) [OF wb, of e st md] by auto
    then show ?case using Cons.IH [of st1 md1] Cons.prems(1) by simp
  qed simp
  have "present (resolve_state prj state)" "present (resolve_metadata prj metadata)"
    using st md well_behavedD(1,2) [OF wb] present_some
    by (auto simp: resolve_state_def resolve_metadata_def)
  then obtain st' md' where "res_fold (project_step prj) es
      (resolve_state prj state, resolve_metadata prj metadata) = Inr (st', md')"
    "present st'" "present md'" using fold by blast
  then show ?thesis using well_behavedD(3) [OF wb] by (simp add: project_list)
qed

lemma save_present:
  assumes "present (pj_state p)" and "present (pj_metadata p)" and "\<not> pe_debug env"
    and "\<And>e. map_of ps (pj_name p, pj_id p) = Some e \<Longrightarrow>
      pj_source e = pj_source p \<and> pj_name e = pj_name p \<and> pj_id e = pj_id p"
  shows "projection_store_save env p ps = (AList.update (pj_name p, pj_id p) p ps, Inr ())"
proof -
  have eta: "\<lparr>pj_id = pj_id p, pj_name = pj_name p, pj_source = pj_source p,
      pj_state = pj_state p, pj_metadata = pj_metadata p\<rparr> = p" by simp
  show ?thesis
    using assms
    by (cases "map_of ps (pj_name p, pj_id p)")
      (auto simp: projection_store_save_def adapter_save_def serialise_projection_def
        simp del: projection.surjective simp: eta)
qed

lemma projects_streams_snoc:
  assumes wb: "well_behaved prj idf E" and inv: "projects_streams prj idf es ps"
    and i: "i = StreamIdentifier (se_category e) (se_stream e)"
    and p: "project prj i (stream_of (se_category e) (se_stream e) es @ [e], None) PyNone PyNone = Inr p"
      "pj_id p = idf i" "pj_name p = projection_name prj" "pj_source p = i"
      "present (pj_state p)" "present (pj_metadata p)"
  shows "projects_streams prj idf (es @ [e]) (AList.update (projection_name prj, idf i) p ps)"
  unfolding projects_streams_def
proof (intro conjI allI impI)
  show "projections_ok (AList.update (projection_name prj, idf i) p ps)"
    using projects_streamsD(1) [OF inv] p(2,3) by (simp add: projections_ok_update)
next
  fix k q assume "map_of (AList.update (projection_name prj, idf i) p ps) k = Some q"
  then show "\<exists>c s. k = (projection_name prj, idf (StreamIdentifier c s)) \<and>
      pj_source q = StreamIdentifier c s \<and> present (pj_state q) \<and> present (pj_metadata q)"
    using projects_streamsD(2) [OF inv, of k q] p i by (auto split: if_splits)
next
  fix c s
  show "stream_projected prj (StreamIdentifier c s) (stream_of c s (es @ [e]))
      (map_of (AList.update (projection_name prj, idf i) p ps)
        (projection_name prj, idf (StreamIdentifier c s)))"
  proof (cases "c = se_category e \<and> s = se_stream e")
    case True
    then show ?thesis using p(1) i by (simp add: stream_projected_def)
  next
    case False
    then have "idf (StreamIdentifier c s) \<noteq> idf i"
      using well_behavedD(4) [OF wb, of c s] i by auto
    then show ?thesis using projects_streamsD(3) [OF inv, of c s] False by auto
  qed
qed

lemma process_event_projects:
  assumes wb: "well_behaved prj idf E" and e: "e \<in> E" and sub: "set es \<subseteq> E"
    and dbg: "\<not> pe_debug env" and inv: "projects_streams prj idf es ps"
  shows "\<exists>ps'. process_event env prj KJsonValueType KJsonValueType e ps = (ps', Inr ()) \<and>
    projects_streams prj idf (es @ [e]) ps'"
proof -
  define i where "i = StreamIdentifier (se_category e) (se_stream e)"
  define n where "n = projection_name prj"
  let ?mine = "stream_of (se_category e) (se_stream e) es" and ?found = "map_of ps (n, idf i)"
  let ?st = "case ?found of None \<Rightarrow> PyNone | Some p \<Rightarrow> pj_state p"
  let ?md = "case ?found of None \<Rightarrow> PyNone | Some p \<Rightarrow> pj_metadata p"
  note inj = well_behavedD(4) [OF wb]
  have found: "locate env i n KJsonValueType KJsonValueType ps = Inr ?found"
    unfolding i_def n_def by (rule locate_stored [OF inv inj])
  have here: "stream_projected prj i ?mine ?found"
    unfolding i_def n_def by (rule projects_streamsD(3) [OF inv])
  have whole: "project prj i ([e], None) ?st ?md = project prj i (?mine @ [e], None) PyNone PyNone"
  proof (cases ?found)
    case None
    then show ?thesis using here by (simp add: stream_projected_def)
  next
    case (Some p)
    then have p: "project prj i (?mine, None) PyNone PyNone = Inr p"
      using here by (simp add: stream_projected_def)
    have "pj_state p \<noteq> PyNone" "pj_metadata p \<noteq> PyNone"
      using projects_streamsD(2) [OF inv Some] present_some by auto
    then show ?thesis
      using project_append [of prj i ?mine PyNone PyNone "[e]"] p Some by simp
  qed
  have "set (?mine @ [e]) \<subseteq> E" using e sub by auto
  then obtain p where p: "project prj i (?mine @ [e], None) PyNone PyNone = Inr p" "pj_id p = idf i"
    "pj_name p = n" "pj_source p = i" "present (pj_state p)" "present (pj_metadata p)"
    using project_present [OF wb, of "?mine @ [e]" PyNone PyNone i] unfolding n_def by blast
  have same: "pj_source q = pj_source p \<and> pj_name q = pj_name p \<and> pj_id q = pj_id p"
    if q: "map_of ps (pj_name p, pj_id p) = Some q" for q
  proof -
    obtain c s where "(pj_name p, pj_id p) = (projection_name prj, idf (StreamIdentifier c s))"
      "pj_source q = StreamIdentifier c s" using projects_streamsD(2) [OF inv q] by blast
    moreover have "(pj_name p, pj_id p) = (pj_name q, pj_id q)"
      using stored_key(1) [OF projects_streamsD(1) [OF inv] q] .
    moreover have "c = se_category e \<and> s = se_stream e"
      using calculation(1) p(2) inj [of c s "se_category e" "se_stream e"] by (simp add: i_def)
    ultimately show ?thesis using p(4) by (auto simp: i_def)
  qed
  have "process_event env prj KJsonValueType KJsonValueType e ps
      = (AList.update (n, idf i) p ps, Inr ())"
    using found whole p(1) save_present [OF p(5,6) dbg same] p(2,3)
    by (simp add: process_event_def Let_def i_def [symmetric] n_def [symmetric]
        gen_cons_def)
  moreover have "projects_streams prj idf (es @ [e]) (AList.update (n, idf i) p ps)"
    using projects_streams_snoc [OF wb inv i_def p(1,2)] p(3-) unfolding n_def by blast
  ultimately show ?thesis by blast
qed

lemma process_events_projects:
  assumes "well_behaved prj idf E" and "set es \<subseteq> E" and "set es' \<subseteq> E" and "\<not> pe_debug env"
    and "projects_streams prj idf es ps"
  shows "\<exists>ps'. process_events env prj KJsonValueType KJsonValueType es' ps = (ps', Inr ()) \<and>
    projects_streams prj idf (es @ es') ps'"
  using assms(2,3,5)
proof (induction es' arbitrary: es ps)
  case (Cons e es')
  then obtain ps1 where ps1: "process_event env prj KJsonValueType KJsonValueType e ps = (ps1, Inr ())"
    "projects_streams prj idf (es @ [e]) ps1"
    using process_event_projects [OF assms(1) _ _ assms(4)] by (metis list.set_intros(1) subsetD)
  then show ?case using Cons.IH [of "es @ [e]" ps1] Cons.prems by simp
qed simp

text \<open>
  C12. Processing events one by one equals projecting each stream as a whole: after the
  projection processor has consumed any sequence of events, of any streams interleaved in any
  way, it has raised nothing and for every stream the stored projection is what projecting all
  of that stream's events at once gives, and there is none for a stream without events. (The
  projector handles every event and keeps state and metadata JSON values other than \<open>None\<close>, and
  a projection's id is determined by its stream.)
\<close>

theorem event_by_event_projection:
  assumes "well_behaved prj idf (set es)" and "\<not> pe_debug env"
  shows "\<exists>ps. process_events env prj KJsonValueType KJsonValueType es [] = (ps, Inr ()) \<and>
     (\<forall>c s. locate env (StreamIdentifier c s) (projection_name prj) KJsonValueType KJsonValueType ps
        = (if stream_of c s es = [] then Inr None
           else res_bind (project prj (StreamIdentifier c s) (stream_of c s es, None) PyNone PyNone)
             (\<lambda>p. Inr (Some p))))"
proof -
  have "projects_streams prj idf [] []"
    by (simp add: projects_streams_def stream_projected_def)
  then obtain ps where ps: "process_events env prj KJsonValueType KJsonValueType es [] = (ps, Inr ())"
    "projects_streams prj idf es ps"
    using process_events_projects [OF assms(1) _ _ assms(2), of "[]" es "[]"] by auto
  have "locate env (StreamIdentifier c s) (projection_name prj) KJsonValueType KJsonValueType ps
        = (if stream_of c s es = [] then Inr None
           else res_bind (project prj (StreamIdentifier c s) (stream_of c s es, None) PyNone PyNone)
             (\<lambda>p. Inr (Some p)))" for c s
    using locate_stored [OF ps(2) well_behavedD(4) [OF assms(1)], of env c s]
      projects_streamsD(3) [OF ps(2), of c s]
    by (cases "map_of ps (projection_name prj, idf (StreamIdentifier c s))")
      (auto simp: stream_projected_def simp del: selects.simps)
  with ps(1) show ?thesis by blast
qed

text \<open>A projector that wraps its state once per event, with ids that keep streams apart.\<close>

fun stream_key :: "event_source_identifier \<Rightarrow> string" where
  "stream_key (StreamIdentifier c s) = replicate (length c) CHR ''x'' @ ''/'' @ c @ s"
| "stream_key _ = []"

definition nesting_projector :: "unit projector" where
  "nesting_projector = counting_projector
     \<lparr>pr_initial_state := PyList [], pr_id_factory := (\<lambda>_. stream_key),
      pr_attribute := (\<lambda>_. Some (\<lambda>state _. Inr (PyList [state])))\<rparr>"

lemma replicate_separator:
  "replicate n CHR ''x'' @ CHR ''/'' # r = replicate m CHR ''x'' @ CHR ''/'' # r' \<Longrightarrow> n = m"
proof (induction n arbitrary: m)
  case 0
  then show ?case by (cases m) auto
next
  case (Suc n)
  then show ?case by (cases m) auto
qed

lemma stream_key_inj:
  assumes "stream_key (StreamIdentifier c s) = stream_key (StreamIdentifier c' s')"
  shows "c = c' \<and> s = s'"
proof -
  have "length c = length c'" using assms by (auto dest: replicate_separator)
  then show ?thesis using assms by simp
qed

lemma nesting_well_behaved: "well_behaved nesting_projector stream_key E"
  unfolding well_behaved_def
proof (intro conjI allI impI ballI)
  fix c s c' s'
  assume "stream_key (StreamIdentifier c s) = stream_key (StreamIdentifier c' s')"
  then show "c = c'" "s = s'" using stream_key_inj by blast+
qed (auto simp: nesting_projector_def counting_projector_def present_def project_step_def
    apply_event_def resolve_handler_def resolve_state_def)

theorem event_by_event_projection_witness:
  "\<exists>ps. process_events sample_projection_env nesting_projector KJsonValueType KJsonValueType
       [sample_event, sample_event] [] = (ps, Inr ()) \<and>
     locate sample_projection_env (StreamIdentifier ''c'' ''s'') ''Thing'' KJsonValueType
       KJsonValueType ps
     = Inr (Some \<lparr>pj_id = ''x/cs'', pj_name = ''Thing'', pj_source = StreamIdentifier ''c'' ''s'',
         pj_state = PyList [PyList [PyList []]], pj_metadata = PyDict []\<rparr>)"
proof -
  have env: "\<not> pe_debug sample_projection_env" by (simp add: sample_projection_env_def)
  have name: "projection_name nesting_projector = ''Thing''" by code_simp
  have batch: "project nesting_projector (StreamIdentifier ''c'' ''s'') ([sample_event, sample_event], None)
      PyNone PyNone = Inr \<lparr>pj_id = ''x/cs'', pj_name = ''Thing'',
        pj_source = StreamIdentifier ''c'' ''s'', pj_state = PyList [PyList [PyList []]],
        pj_metadata = PyDict []\<rparr>" by code_simp
  have mine: "stream_of ''c'' ''s'' [sample_event, sample_event] = [sample_event, sample_event]"
    by (simp add: sample_event_def)
  from event_by_event_projection [OF nesting_well_behaved env, of "[sample_event, sample_event]"]
  obtain ps where ps: "process_events sample_projection_env nesting_projector KJsonValueType
      KJsonValueType [sample_event, sample_event] [] = (ps, Inr ())"
    "locate sample_projection_env (StreamIdentifier ''c'' ''s'') (projection_name nesting_projector)
       KJsonValueType KJsonValueType ps
     = (if stream_of ''c'' ''s'' [sample_event, sample_event] = [] then Inr None
        else res_bind (project nesting_projector (StreamIdentifier ''c'' ''s'')
            (stream_of ''c'' ''s'' [sample_event, sample_event], None) PyNone PyNone)
          (\<lambda>p. Inr (Some p)))" by blast
  then show ?thesis unfolding mine batch name by auto
qed

end
