(* ===== verification/Postgres_Query.thy ===== *)
theory Postgres_Query
  imports Query_Model
begin

section \<open>The SQL query builder\<close>

text \<open>
  Models \<open>persistence/postgres/query.py\<close>: the expression, condition, sort and query nodes,
  the immutable builder methods of \<open>Query\<close> and \<open>Condition\<close>, and the rendering of every node
  to a parameterised fragment, a pair of SQL text with \<open>%s\<close> placeholders and the list of
  values bound to them.

  SQL text is built with the composables of \<open>psycopg.sql\<close>: \<open>SQL\<close> wraps literal text,
  \<open>Identifier\<close> a name to be quoted, \<open>+\<close> and \<open>join\<close> concatenate. A composed object is the
  list of its parts here; how an identifier is quoted is the parameter \<open>quote\<close>. A bound
  value is a Python value passed as it is or one wrapped in psycopg's \<open>Jsonb\<close>.

  The theorem of this theory relates the two-part rendering to an inline rendering
  (\<open>inline_query\<close>) in which every value stands at the place where it is used: the fragment
  is that text with each value replaced by a placeholder, and the parameters are those values
  in the order of their placeholders. It also says exactly when rendering raises.
\<close>

subsection \<open>Nodes\<close>

datatype sql_part = SQL string | Identifier string

type_synonym sql = "sql_part list"

datatype 'o sql_value = Plain "'o qval" | Jsonb "'o pyval"

type_synonym 'o fragment = "sql option \<times> 'o sql_value list"

datatype comparison_type = TEXT | JSONB

datatype pg_operator =
    PG_EQUALS | PG_NOT_EQUALS | PG_GREATER_THAN | PG_GREATER_THAN_OR_EQUAL | PG_LESS_THAN
  | PG_LESS_THAN_OR_EQUAL | PG_IN | PG_CONTAINS | PG_REGEX_MATCHES | PG_NOT_REGEX_MATCHES
  | PG_IS_NULL | PG_IS_NOT_NULL

fun operator_value :: "pg_operator \<Rightarrow> string" where
  "operator_value PG_EQUALS = ''=''"
| "operator_value PG_NOT_EQUALS = ''!=''"
| "operator_value PG_GREATER_THAN = ''>''"
| "operator_value PG_GREATER_THAN_OR_EQUAL = ''>=''"
| "operator_value PG_LESS_THAN = ''<''"
| "operator_value PG_LESS_THAN_OR_EQUAL = ''<=''"
| "operator_value PG_IN = ''IN''"
| "operator_value PG_CONTAINS = ''@>''"
| "operator_value PG_REGEX_MATCHES = ''~''"
| "operator_value PG_NOT_REGEX_MATCHES = ''!~''"
| "operator_value PG_IS_NULL = ''IS NULL''"
| "operator_value PG_IS_NOT_NULL = ''IS NOT NULL''"

definition comparison_type_of :: "pg_operator \<Rightarrow> comparison_type" where
  "comparison_type_of op =
     (if op \<in> {PG_REGEX_MATCHES, PG_NOT_REGEX_MATCHES, PG_IS_NULL, PG_IS_NOT_NULL}
      then TEXT else JSONB)"

definition has_value :: "pg_operator \<Rightarrow> bool" where
  "has_value op \<longleftrightarrow> op \<notin> {PG_IS_NULL, PG_IS_NOT_NULL}"

datatype set_quantifier = QUANT_ALL | QUANT_DISTINCT

datatype sort_direction = PG_ASC | PG_DESC

fun direction_value :: "sort_direction \<Rightarrow> string" where
  "direction_value PG_ASC = ''ASC''"
| "direction_value PG_DESC = ''DESC''"

definition reverse_direction :: "sort_direction \<Rightarrow> sort_direction" where
  "reverse_direction d = (if d = PG_DESC then PG_ASC else PG_DESC)"

datatype 'o expression =
    FunctionApplication string "'o expression list"
  | Cast "'o expression" string
  | ColumnReference "string option" "string option" string
  | Star "string option" "string option"
  | Constant "'o sql_value"
  | Raw string
  | ConditionExpression "'o sql_condition"
and 'o sql_condition =
    Condition (cond_left: "'o operand option") (cond_right: "'o operand option")
      (cond_operator: "pg_operator option")
and 'o operand =
    ExprOperand "'o expression"
  | ListOperand "'o operand list"
  | QueryOperand "'o pg_query"
and 'o target =
    ResultTarget "'o expression" "string option"
  | StarTarget "string option" "string option"
and 'o sortby =
    SortBy (sortby_expression: "'o expression") (sortby_direction: "sort_direction option")
and 'o pg_query =
    Query
      (common_table_expressions: "('o pg_query \<times> string) list")
      (unions: "('o pg_query list \<times> set_quantifier) option")
      (select_target_list: "'o target list")
      (from_tables: "string list")
      (from_subqueries: "('o pg_query \<times> string) list")
      (where_conditions: "'o sql_condition list")
      (sortby_list: "'o sortby list")
      (limit_value: "int option")
      (offset_value: "int option")

definition null_expression :: "'o expression" where
  "null_expression = Raw ''NULL''"

definition empty_expression :: "'o expression" where
  "empty_expression = Raw ''''"

definition is_ascending :: "'o sortby \<Rightarrow> bool" where
  "is_ascending s \<longleftrightarrow> sortby_direction s = Some PG_ASC \<or> sortby_direction s = None"

definition is_descending :: "'o sortby \<Rightarrow> bool" where
  "is_descending s \<longleftrightarrow> sortby_direction s = Some PG_DESC"

definition reverse_sortby :: "'o sortby \<Rightarrow> 'o sortby" where
  "reverse_sortby s =
     SortBy (sortby_expression s) (map_option reverse_direction (sortby_direction s))"

subsection \<open>Building conditions\<close>

record 'o condition_params =
  p_left :: "'o operand option"
  p_right :: "'o operand option"
  p_operator :: "pg_operator option"

definition no_condition_params :: "'o condition_params" where
  "no_condition_params = \<lparr>p_left = None, p_right = None, p_operator = None\<rparr>"

definition empty_condition :: "'o sql_condition" where
  "empty_condition = Condition None None None"

definition clone_condition :: "'o sql_condition \<Rightarrow> 'o condition_params \<Rightarrow> 'o sql_condition" where
  "clone_condition c kwargs =
     Condition
       (case p_left kwargs of Some l \<Rightarrow> Some l | None \<Rightarrow> cond_left c)
       (case p_right kwargs of Some r \<Rightarrow> Some r | None \<Rightarrow> cond_right c)
       (case p_operator kwargs of Some op \<Rightarrow> Some op | None \<Rightarrow> cond_operator c)"

definition with_left :: "'o operand \<Rightarrow> 'o sql_condition \<Rightarrow> 'o sql_condition" where
  "with_left l c = clone_condition c (no_condition_params\<lparr>p_left := Some l\<rparr>)"

definition with_right :: "'o operand \<Rightarrow> 'o sql_condition \<Rightarrow> 'o sql_condition" where
  "with_right r c = clone_condition c (no_condition_params\<lparr>p_right := Some r\<rparr>)"

definition with_operator :: "pg_operator \<Rightarrow> 'o sql_condition \<Rightarrow> 'o sql_condition" where
  "with_operator op c = clone_condition c (no_condition_params\<lparr>p_operator := Some op\<rparr>)"

definition cond_equals :: "'o sql_condition \<Rightarrow> 'o sql_condition" where
  "cond_equals = with_operator PG_EQUALS"

definition cond_not_equals :: "'o sql_condition \<Rightarrow> 'o sql_condition" where
  "cond_not_equals = with_operator PG_NOT_EQUALS"

definition cond_greater_than :: "'o sql_condition \<Rightarrow> 'o sql_condition" where
  "cond_greater_than = with_operator PG_GREATER_THAN"

definition cond_greater_than_or_equal_to :: "'o sql_condition \<Rightarrow> 'o sql_condition" where
  "cond_greater_than_or_equal_to = with_operator PG_GREATER_THAN_OR_EQUAL"

definition cond_less_than :: "'o sql_condition \<Rightarrow> 'o sql_condition" where
  "cond_less_than = with_operator PG_LESS_THAN"

definition cond_less_than_or_equal_to :: "'o sql_condition \<Rightarrow> 'o sql_condition" where
  "cond_less_than_or_equal_to = with_operator PG_LESS_THAN_OR_EQUAL"

definition cond_regex_matches :: "'o sql_condition \<Rightarrow> 'o sql_condition" where
  "cond_regex_matches = with_operator PG_REGEX_MATCHES"

definition cond_not_regex_matches :: "'o sql_condition \<Rightarrow> 'o sql_condition" where
  "cond_not_regex_matches = with_operator PG_NOT_REGEX_MATCHES"

lemma condition_built [simp]:
  "with_left a (Condition l r op) = Condition (Some a) r op"
  "with_right a (Condition l r op) = Condition l (Some a) op"
  "with_operator op' (Condition l r op) = Condition l r (Some op')"
  by (simp_all add: with_left_def with_right_def with_operator_def clone_condition_def
      no_condition_params_def)

subsection \<open>Building queries\<close>

record 'o query_params =
  q_ctes :: "('o pg_query \<times> string) list option"
  q_unions :: "('o pg_query list \<times> set_quantifier) option option"
  q_targets :: "'o target list option"
  q_tables :: "string list option"
  q_subqueries :: "('o pg_query \<times> string) list option"
  q_conditions :: "'o sql_condition list option"
  q_sortbys :: "'o sortby list option"
  q_limit :: "int option option"
  q_offset :: "int option option"

definition no_query_params :: "'o query_params" where
  "no_query_params =
     \<lparr>q_ctes = None, q_unions = None, q_targets = None, q_tables = None, q_subqueries = None,
      q_conditions = None, q_sortbys = None, q_limit = None, q_offset = None\<rparr>"

definition kwargs_get :: "'a option \<Rightarrow> 'a \<Rightarrow> 'a" where
  "kwargs_get given fallback = (case given of Some v \<Rightarrow> v | None \<Rightarrow> fallback)"

lemma kwargs_get_simps [simp]: "kwargs_get (Some v) d = v" "kwargs_get None d = d"
  by (simp_all add: kwargs_get_def)

definition empty_query :: "'o pg_query" where
  "empty_query = Query [] None [] [] [] [] [] None None"

definition union_query ::
  "'o pg_query \<Rightarrow> 'o pg_query \<Rightarrow> 'o pg_query list \<Rightarrow> set_quantifier \<Rightarrow> 'o pg_query" where
  "union_query query1 query2 more_queries mode =
     Query [] (Some (query1 # query2 # more_queries, mode)) [] [] [] [] [] None None"

definition clone :: "'o pg_query \<Rightarrow> 'o query_params \<Rightarrow> 'o pg_query" where
  "clone q kwargs =
     Query
       (kwargs_get (q_ctes kwargs) (common_table_expressions q))
       (kwargs_get (q_unions kwargs) (unions q))
       (kwargs_get (q_targets kwargs) (select_target_list q))
       (kwargs_get (q_tables kwargs) (from_tables q))
       (kwargs_get (q_subqueries kwargs) (from_subqueries q))
       (kwargs_get (q_conditions kwargs) (where_conditions q))
       (kwargs_get (q_sortbys kwargs) (sortby_list q))
       (kwargs_get (q_limit kwargs) (limit_value q))
       (kwargs_get (q_offset kwargs) (offset_value q))"

datatype 'o column = NamedColumn string | ExprColumn "'o expression" | TargetColumn "'o target"

fun to_result_target_or_star :: "'o column \<Rightarrow> 'o target" where
  "to_result_target_or_star (NamedColumn column) =
     ResultTarget (ColumnReference None None column) None"
| "to_result_target_or_star (ExprColumn column) = ResultTarget column None"
| "to_result_target_or_star (TargetColumn column) = column"

datatype 'o sorting = NamedSort string | SortBySort "'o sortby"

fun to_sortby :: "'o sorting \<Rightarrow> 'o sortby" where
  "to_sortby (NamedSort column) = SortBy (ColumnReference None None column) None"
| "to_sortby (SortBySort s) = s"

definition with_query :: "'o pg_query \<Rightarrow> string \<Rightarrow> 'o pg_query \<Rightarrow> 'o pg_query" where
  "with_query query name q =
     clone q (no_query_params\<lparr>q_ctes := Some (common_table_expressions q @ [(query, name)])\<rparr>)"

definition select :: "'o column list \<Rightarrow> 'o pg_query \<Rightarrow> 'o pg_query" where
  "select target_list q =
     clone q (no_query_params\<lparr>q_targets :=
       Some (select_target_list q @ map to_result_target_or_star target_list)\<rparr>)"

definition select_all :: "'o pg_query \<Rightarrow> 'o pg_query" where
  "select_all q =
     clone q (no_query_params\<lparr>q_targets := Some (select_target_list q @ [StarTarget None None])\<rparr>)"

definition from_table :: "string \<Rightarrow> 'o pg_query \<Rightarrow> 'o pg_query" where
  "from_table table q = clone q (no_query_params\<lparr>q_tables := Some (from_tables q @ [table])\<rparr>)"

definition from_subquery :: "'o pg_query \<Rightarrow> string \<Rightarrow> 'o pg_query \<Rightarrow> 'o pg_query" where
  "from_subquery subquery name q =
     clone q (no_query_params\<lparr>q_subqueries := Some (from_subqueries q @ [(subquery, name)])\<rparr>)"

definition where_query :: "'o sql_condition list \<Rightarrow> 'o pg_query \<Rightarrow> 'o pg_query" where
  "where_query conditions q =
     clone q (no_query_params\<lparr>q_conditions := Some (where_conditions q @ conditions)\<rparr>)"

definition replace_order_by :: "'o sorting list \<Rightarrow> 'o pg_query \<Rightarrow> 'o pg_query" where
  "replace_order_by sortbys q = clone q (no_query_params\<lparr>q_sortbys := Some (map to_sortby sortbys)\<rparr>)"

definition order_by :: "'o sorting list \<Rightarrow> 'o pg_query \<Rightarrow> 'o pg_query" where
  "order_by sortbys q =
     clone q (no_query_params\<lparr>q_sortbys := Some (sortby_list q @ map to_sortby sortbys)\<rparr>)"

definition limit :: "int option \<Rightarrow> 'o pg_query \<Rightarrow> 'o pg_query" where
  "limit n q = clone q (no_query_params\<lparr>q_limit := Some n\<rparr>)"

definition offset :: "int option \<Rightarrow> 'o pg_query \<Rightarrow> 'o pg_query" where
  "offset n q = clone q (no_query_params\<lparr>q_offset := Some n\<rparr>)"

lemma query_built [simp]:
  "with_query query name (Query c u t f s w b l o') = Query (c @ [(query, name)]) u t f s w b l o'"
  "select ts (Query c u t f s w b l o') =
     Query c u (t @ map to_result_target_or_star ts) f s w b l o'"
  "select_all (Query c u t f s w b l o') = Query c u (t @ [StarTarget None None]) f s w b l o'"
  "from_table tb (Query c u t f s w b l o') = Query c u t (f @ [tb]) s w b l o'"
  "from_subquery query name (Query c u t f s w b l o') =
     Query c u t f (s @ [(query, name)]) w b l o'"
  "where_query cs (Query c u t f s w b l o') = Query c u t f s (w @ cs) b l o'"
  "replace_order_by ss (Query c u t f s w b l o') = Query c u t f s w (map to_sortby ss) l o'"
  "order_by ss (Query c u t f s w b l o') = Query c u t f s w (b @ map to_sortby ss) l o'"
  "limit n (Query c u t f s w b l o') = Query c u t f s w b n o'"
  "offset n (Query c u t f s w b l o') = Query c u t f s w b l n"
  by (simp_all add: with_query_def select_def select_all_def from_table_def from_subquery_def
      where_query_def replace_order_by_def order_by_def limit_def offset_def clone_def
      no_query_params_def)

subsection \<open>Rendering to parameterised fragments\<close>

fun sql_join :: "string \<Rightarrow> sql list \<Rightarrow> sql" where
  "sql_join sep [] = []"
| "sql_join sep [x] = x"
| "sql_join sep (x # y # ys) = x @ SQL sep # sql_join sep (y # ys)"

text \<open>The two comprehensions every composite node runs over the fragments of its parts.\<close>

definition fragment_sqls :: "'o fragment list \<Rightarrow> sql list" where
  "fragment_sqls fragments = List.map_filter fst fragments"

definition fragment_params :: "'o fragment list \<Rightarrow> 'o sql_value list" where
  "fragment_params fragments = concat (map snd fragments)"

definition column_fragment ::
  "string option \<Rightarrow> string option \<Rightarrow> sql_part \<Rightarrow> 'o fragment res" where
  "column_fragment schema table name =
     (case (schema, table) of
        (Some s, None) \<Rightarrow>
          Inl (ValueError ''Cannot resolve column reference with schema but no table.'')
      | (Some s, Some t) \<Rightarrow>
          Inr (Some [Identifier s, SQL ''.'', Identifier t, SQL ''.'', name], [])
      | (None, Some t) \<Rightarrow> Inr (Some [Identifier t, SQL ''.'', name], [])
      | (None, None) \<Rightarrow> Inr (Some [name], []))"

definition function_fragment :: "string \<Rightarrow> 'o fragment list \<Rightarrow> 'o fragment" where
  "function_fragment name argument_fragments =
     (Some ([Identifier name, SQL ''('']
            @ sql_join '', '' (fragment_sqls argument_fragments) @ [SQL '')'']),
      fragment_params argument_fragments)"

definition cast_fragment :: "string \<Rightarrow> 'o fragment \<Rightarrow> 'o fragment" where
  "cast_fragment typename expression_fragment =
     (case fst expression_fragment of
        None \<Rightarrow> expression_fragment
      | Some s \<Rightarrow>
          (Some ([SQL ''CAST(''] @ s @ [SQL '' AS '', Identifier typename, SQL '')'']),
           snd expression_fragment))"

definition result_target_fragment :: "string option \<Rightarrow> 'o fragment \<Rightarrow> 'o fragment" where
  "result_target_fragment label expression_fragment =
     (case (label, fst expression_fragment) of
        (Some l, Some s) \<Rightarrow> (Some (s @ [SQL '' AS '', Identifier l]), snd expression_fragment)
      | _ \<Rightarrow> expression_fragment)"

definition sortby_fragment :: "sort_direction option \<Rightarrow> 'o fragment \<Rightarrow> 'o fragment" where
  "sortby_fragment direction expression_fragment =
     (case (fst expression_fragment, direction) of
        (Some s, Some d) \<Rightarrow>
          (Some (s @ [SQL '' '', SQL (direction_value d)]), snd expression_fragment)
      | _ \<Rightarrow> expression_fragment)"

definition subquery_operand_fragment :: "'o fragment \<Rightarrow> 'o fragment" where
  "subquery_operand_fragment fragment =
     (case fst fragment of
        None \<Rightarrow> (None, [])
      | Some s \<Rightarrow> (Some ([SQL ''(''] @ s @ [SQL '')'']), snd fragment))"

definition list_operand_fragment :: "'o fragment list \<Rightarrow> 'o fragment" where
  "list_operand_fragment fragments =
     (Some ([SQL ''(''] @ sql_join '', '' (fragment_sqls fragments) @ [SQL '')'']),
      fragment_params fragments)"

definition condition_fragment :: "pg_operator \<Rightarrow> 'o fragment \<Rightarrow> 'o fragment \<Rightarrow> 'o fragment res" where
  "condition_fragment op left_fragment right_fragment =
     (case (fst left_fragment, fst right_fragment) of
        (Some l, Some r) \<Rightarrow>
          Inr (Some (l @ [SQL '' '', SQL (operator_value op), SQL '' ''] @ r),
               snd left_fragment @ snd right_fragment)
      | _ \<Rightarrow> Inl (ValueError ''Condition not fully specified.''))"

definition common_table_expressions_fragment :: "('o fragment \<times> string) list \<Rightarrow> 'o fragment" where
  "common_table_expressions_fragment fragments =
     (if length fragments = 0 then (None, [])
      else
        (Some ([SQL ''WITH '']
           @ sql_join '', ''
               (List.map_filter
                  (\<lambda>(fragment, name).
                     map_option (\<lambda>s. [Identifier name, SQL '' AS (''] @ s @ [SQL '')'']) (fst fragment))
                  fragments)),
         fragment_params (map fst fragments)))"

definition union_fragment :: "('o fragment list \<times> set_quantifier) option \<Rightarrow> 'o fragment" where
  "union_fragment unions' =
     (case unions' of
        None \<Rightarrow> (None, [])
      | Some (fragments, mode) \<Rightarrow>
          (Some (sql_join
             (if mode = QUANT_DISTINCT then '' UNION DISTINCT '' else '' UNION ALL '')
             (map (\<lambda>s. [SQL ''(''] @ s @ [SQL '')'']) (fragment_sqls fragments))),
           fragment_params fragments))"

definition select_fragment :: "'o fragment list \<Rightarrow> 'o fragment" where
  "select_fragment fragments =
     (if length fragments = 0 then (None, [])
      else (Some ([SQL ''SELECT ''] @ sql_join '', '' (fragment_sqls fragments)),
            fragment_params fragments))"

definition from_fragment :: "string list \<Rightarrow> ('o fragment \<times> string) list \<Rightarrow> 'o fragment" where
  "from_fragment tables fragments =
     (if length tables = 0 \<and> length fragments = 0 then (None, [])
      else
        (Some ([SQL ''FROM '']
           @ sql_join '', ''
               (map (\<lambda>table. [Identifier table]) tables
                @ List.map_filter
                    (\<lambda>(fragment, name).
                       map_option (\<lambda>s. [SQL ''(''] @ s @ [SQL '') AS '', Identifier name])
                         (fst fragment))
                    fragments)),
         fragment_params (map fst fragments)))"

definition where_fragment :: "'o fragment list \<Rightarrow> 'o fragment" where
  "where_fragment fragments =
     (if length fragments = 0 then (None, [])
      else (Some ([SQL ''WHERE ''] @ sql_join '' AND '' (fragment_sqls fragments)),
            fragment_params fragments))"

definition order_by_fragment :: "'o fragment list \<Rightarrow> 'o fragment" where
  "order_by_fragment fragments =
     (if length fragments = 0 then (None, [])
      else (Some ([SQL ''ORDER BY ''] @ sql_join '', '' (fragment_sqls fragments)),
            fragment_params fragments))"

definition limit_fragment :: "int option \<Rightarrow> 'o fragment" where
  "limit_fragment value =
     (case value of
        None \<Rightarrow> (None, [])
      | Some n \<Rightarrow> (Some [SQL ''LIMIT %s''], [Plain (QVal (PyInt n))]))"

definition offset_fragment :: "int option \<Rightarrow> 'o fragment" where
  "offset_fragment value =
     (case value of
        None \<Rightarrow> (None, [])
      | Some n \<Rightarrow> (Some [SQL ''OFFSET %s''], [Plain (QVal (PyInt n))]))"

definition query_fragment :: "'o fragment list \<Rightarrow> 'o fragment" where
  "query_fragment clauses = (Some (sql_join '' '' (fragment_sqls clauses)), fragment_params clauses)"

text \<open>
  The comprehensions that render the parts of a node stop at the first part that raises;
  \<open>res_all\<close> gathers the results of the parts in that way.
\<close>

definition res_all :: "'a res list \<Rightarrow> 'a list res" where
  "res_all rs = res_map (\<lambda>r. r) rs"

definition res_named :: "('a res \<times> string) list \<Rightarrow> ('a \<times> string) list res" where
  "res_named rs = res_map (\<lambda>(r, name). res_bind r (\<lambda>x. Inr (x, name))) rs"

definition res_union :: "('a res list \<times> 'm) option \<Rightarrow> ('a list \<times> 'm) option res" where
  "res_union us =
     (case us of
        None \<Rightarrow> Inr None
      | Some (rs, mode) \<Rightarrow> res_bind (res_all rs) (\<lambda>xs. Inr (Some (xs, mode))))"

definition condition_result ::
  "'o fragment res option \<Rightarrow> 'o fragment res option \<Rightarrow> pg_operator option \<Rightarrow> 'o fragment res" where
  "condition_result l r op =
     (case (l, op, r) of
        (Some left, Some operator, Some right) \<Rightarrow>
          res_bind left (\<lambda>lf. res_bind right (\<lambda>rf. condition_fragment operator lf rf))
      | _ \<Rightarrow> Inl (ValueError ''Condition not fully specified.''))"

definition query_result ::
  "('o fragment res \<times> string) list \<Rightarrow> ('o fragment res list \<times> set_quantifier) option
   \<Rightarrow> 'o fragment res list \<Rightarrow> string list \<Rightarrow> ('o fragment res \<times> string) list
   \<Rightarrow> 'o fragment res list \<Rightarrow> 'o fragment res list \<Rightarrow> int option \<Rightarrow> int option \<Rightarrow> 'o fragment res" where
  "query_result ctes us targets tables subqueries conditions sortbys lim_n off_n =
     res_bind (res_named ctes) (\<lambda>cte_fs.
     res_bind (res_union us) (\<lambda>union_fs.
     res_bind (res_all targets) (\<lambda>target_fs.
     res_bind (res_named subqueries) (\<lambda>subquery_fs.
     res_bind (res_all conditions) (\<lambda>condition_fs.
     res_bind (res_all sortbys) (\<lambda>sortby_fs.
     Inr (query_fragment
       [common_table_expressions_fragment cte_fs, union_fragment union_fs,
        select_fragment target_fs, from_fragment tables subquery_fs,
        where_fragment condition_fs, order_by_fragment sortby_fs,
        limit_fragment lim_n, offset_fragment off_n])))))))"

primrec to_fragment :: "'o expression \<Rightarrow> 'o fragment res"
  and condition_to_fragment :: "'o sql_condition \<Rightarrow> 'o fragment res"
  and operand_fragment :: "'o operand \<Rightarrow> 'o fragment res"
  and target_to_fragment :: "'o target \<Rightarrow> 'o fragment res"
  and sortby_to_fragment :: "'o sortby \<Rightarrow> 'o fragment res"
  and query_to_fragment :: "'o pg_query \<Rightarrow> 'o fragment res" where
  "to_fragment (FunctionApplication name arguments) =
     res_bind (res_all (map to_fragment arguments)) (\<lambda>fs. Inr (function_fragment name fs))"
| "to_fragment (Cast expression typename) =
     res_bind (to_fragment expression) (\<lambda>f. Inr (cast_fragment typename f))"
| "to_fragment (ColumnReference schema table column) =
     column_fragment schema table (Identifier column)"
| "to_fragment (Star schema table) = column_fragment schema table (SQL ''*'')"
| "to_fragment (Constant v) = Inr (Some [SQL ''%s''], [v])"
| "to_fragment (Raw s) = Inr (Some [SQL s], [])"
| "to_fragment (ConditionExpression c) = condition_to_fragment c"
| "condition_to_fragment (Condition l r op) =
     condition_result (map_option operand_fragment l) (map_option operand_fragment r) op"
| "operand_fragment (ExprOperand e) = to_fragment e"
| "operand_fragment (ListOperand parts) =
     res_bind (res_all (map operand_fragment parts)) (\<lambda>fs. Inr (list_operand_fragment fs))"
| "operand_fragment (QueryOperand q) =
     res_bind (query_to_fragment q) (\<lambda>f. Inr (subquery_operand_fragment f))"
| "target_to_fragment (ResultTarget e label) =
     res_bind (to_fragment e) (\<lambda>f. Inr (result_target_fragment label f))"
| "target_to_fragment (StarTarget schema table) = column_fragment schema table (SQL ''*'')"
| "sortby_to_fragment (SortBy e direction) =
     res_bind (to_fragment e) (\<lambda>f. Inr (sortby_fragment direction f))"
| "query_to_fragment (Query ctes us targets tables subqueries conditions sortbys lim_n off_n) =
     query_result (map (map_prod query_to_fragment id) ctes)
       (map_option (map_prod (map query_to_fragment) id) us)
       (map target_to_fragment targets) tables (map (map_prod query_to_fragment id) subqueries)
       (map condition_to_fragment conditions) (map sortby_to_fragment sortbys) lim_n off_n"

definition build :: "'o pg_query \<Rightarrow> (sql \<times> 'o sql_value list) res" where
  "build q =
     res_bind (query_to_fragment q) (\<lambda>(fragment, params).
       case fragment of
         Some composed \<Rightarrow> Inr (composed, params)
       | None \<Rightarrow> Inl (ValueError ''Empty query.''))"

subsection \<open>The inline rendering\<close>

datatype 'o token = Text string | Name string | Bound "'o sql_value"

definition as_string :: "(string \<Rightarrow> string) \<Rightarrow> sql \<Rightarrow> string" where
  "as_string quote s = concat (map (\<lambda>part. case part of SQL t \<Rightarrow> t | Identifier n \<Rightarrow> quote n) s)"

definition token_text :: "(string \<Rightarrow> string) \<Rightarrow> 'o token list \<Rightarrow> string" where
  "token_text quote ts =
     concat (map (\<lambda>t. case t of Text s \<Rightarrow> s | Name n \<Rightarrow> quote n | Bound v \<Rightarrow> ''%s'') ts)"

definition bound_values :: "'o token list \<Rightarrow> 'o sql_value list" where
  "bound_values ts = List.map_filter (\<lambda>t. case t of Bound v \<Rightarrow> Some v | _ \<Rightarrow> None) ts"

fun token_join :: "string \<Rightarrow> 'o token list list \<Rightarrow> 'o token list" where
  "token_join sep [] = []"
| "token_join sep [x] = x"
| "token_join sep (x # y # ys) = x @ Text sep # token_join sep (y # ys)"

definition column_tokens :: "string option \<Rightarrow> string option \<Rightarrow> 'o token \<Rightarrow> 'o token list" where
  "column_tokens schema table name =
     (case schema of Some s \<Rightarrow> [Name s, Text ''.''] | None \<Rightarrow> [])
     @ (case table of Some t \<Rightarrow> [Name t, Text ''.''] | None \<Rightarrow> []) @ [name]"

definition parens :: "'o token list \<Rightarrow> 'o token list" where
  "parens ts = Text ''('' # ts @ [Text '')'']"

definition keyword_list :: "string \<Rightarrow> string \<Rightarrow> 'o token list list \<Rightarrow> 'o token list list" where
  "keyword_list keyword sep tss = (if tss = [] then [] else [Text keyword # token_join sep tss])"

definition query_tokens ::
  "('o token list \<times> string) list \<Rightarrow> ('o token list list \<times> set_quantifier) option
   \<Rightarrow> 'o token list list \<Rightarrow> string list \<Rightarrow> ('o token list \<times> string) list
   \<Rightarrow> 'o token list list \<Rightarrow> 'o token list list \<Rightarrow> int option \<Rightarrow> int option \<Rightarrow> 'o token list" where
  "query_tokens ctes us targets tables subqueries conditions sortbys lim_n off_n =
     token_join '' ''
       (keyword_list ''WITH '' '', ''
          (map (\<lambda>(ts, name). [Name name, Text '' AS ''] @ parens ts) ctes)
        @ (case us of
             None \<Rightarrow> []
           | Some (tss, mode) \<Rightarrow>
               [token_join
                  (if mode = QUANT_DISTINCT then '' UNION DISTINCT '' else '' UNION ALL '')
                  (map parens tss)])
        @ keyword_list ''SELECT '' '', '' targets
        @ keyword_list ''FROM '' '', ''
            (map (\<lambda>table. [Name table]) tables
             @ map (\<lambda>(ts, name). parens ts @ [Text '' AS '', Name name]) subqueries)
        @ keyword_list ''WHERE '' '' AND '' conditions
        @ keyword_list ''ORDER BY '' '', '' sortbys
        @ (case lim_n of None \<Rightarrow> [] | Some n \<Rightarrow> [[Text ''LIMIT '', Bound (Plain (QVal (PyInt n)))]])
        @ (case off_n of None \<Rightarrow> [] | Some n \<Rightarrow> [[Text ''OFFSET '', Bound (Plain (QVal (PyInt n)))]]))"

primrec inline_expression :: "'o expression \<Rightarrow> 'o token list"
  and inline_condition :: "'o sql_condition \<Rightarrow> 'o token list"
  and inline_operand :: "'o operand \<Rightarrow> 'o token list"
  and inline_target :: "'o target \<Rightarrow> 'o token list"
  and inline_sortby :: "'o sortby \<Rightarrow> 'o token list"
  and inline_query :: "'o pg_query \<Rightarrow> 'o token list" where
  "inline_expression (FunctionApplication name arguments) =
     Name name # parens (token_join '', '' (map inline_expression arguments))"
| "inline_expression (Cast e typename) =
     [Text ''CAST''] @ parens (inline_expression e @ [Text '' AS '', Name typename])"
| "inline_expression (ColumnReference schema table column) = column_tokens schema table (Name column)"
| "inline_expression (Star schema table) = column_tokens schema table (Text ''*'')"
| "inline_expression (Constant v) = [Bound v]"
| "inline_expression (Raw s) = [Text s]"
| "inline_expression (ConditionExpression c) = inline_condition c"
| "inline_condition (Condition l r op) =
     (case map_option inline_operand l of Some ts \<Rightarrow> ts | None \<Rightarrow> [])
     @ Text (case op of Some operator \<Rightarrow> '' '' @ operator_value operator @ '' '' | None \<Rightarrow> '''')
     # (case map_option inline_operand r of Some ts \<Rightarrow> ts | None \<Rightarrow> [])"
| "inline_operand (ExprOperand e) = inline_expression e"
| "inline_operand (ListOperand parts) = parens (token_join '', '' (map inline_operand parts))"
| "inline_operand (QueryOperand q) = parens (inline_query q)"
| "inline_target (ResultTarget e label) =
     inline_expression e @ (case label of Some l \<Rightarrow> [Text '' AS '', Name l] | None \<Rightarrow> [])"
| "inline_target (StarTarget schema table) = column_tokens schema table (Text ''*'')"
| "inline_sortby (SortBy e direction) =
     inline_expression e
     @ (case direction of Some d \<Rightarrow> [Text ('' '' @ direction_value d)] | None \<Rightarrow> [])"
| "inline_query (Query ctes us targets tables subqueries conditions sortbys lim_n off_n) =
     query_tokens (map (map_prod inline_query id) ctes)
       (map_option (map_prod (map inline_query) id) us)
       (map inline_target targets) tables (map (map_prod inline_query id) subqueries)
       (map inline_condition conditions) (map inline_sortby sortbys) lim_n off_n"

text \<open>
  What the rendering requires: no column or star with a schema but no table, and conditions
  with both operands and an operator, in every part of the query.
\<close>

definition column_ok :: "string option \<Rightarrow> string option \<Rightarrow> bool" where
  "column_ok schema table \<longleftrightarrow> schema = None \<or> table \<noteq> None"

primrec expression_ok :: "'o expression \<Rightarrow> bool"
  and condition_ok :: "'o sql_condition \<Rightarrow> bool"
  and operand_ok :: "'o operand \<Rightarrow> bool"
  and target_ok :: "'o target \<Rightarrow> bool"
  and sortby_ok :: "'o sortby \<Rightarrow> bool"
  and query_ok :: "'o pg_query \<Rightarrow> bool" where
  "expression_ok (FunctionApplication name arguments) = list_all id (map expression_ok arguments)"
| "expression_ok (Cast e typename) = expression_ok e"
| "expression_ok (ColumnReference schema table column) = column_ok schema table"
| "expression_ok (Star schema table) = column_ok schema table"
| "expression_ok (Constant v) = True"
| "expression_ok (Raw s) = True"
| "expression_ok (ConditionExpression c) = condition_ok c"
| "condition_ok (Condition l r op) =
     (map_option operand_ok l = Some True \<and> map_option operand_ok r = Some True \<and> op \<noteq> None)"
| "operand_ok (ExprOperand e) = expression_ok e"
| "operand_ok (ListOperand parts) = list_all id (map operand_ok parts)"
| "operand_ok (QueryOperand q) = query_ok q"
| "target_ok (ResultTarget e label) = expression_ok e"
| "target_ok (StarTarget schema table) = column_ok schema table"
| "sortby_ok (SortBy e direction) = expression_ok e"
| "query_ok (Query ctes us targets tables subqueries conditions sortbys lim_n off_n) =
     (list_all fst (map (map_prod query_ok id) ctes)
      \<and> (case map_option (map_prod (map query_ok) id) us of
           None \<Rightarrow> True | Some (oks, mode) \<Rightarrow> list_all id oks)
      \<and> list_all id (map target_ok targets)
      \<and> list_all fst (map (map_prod query_ok id) subqueries)
      \<and> list_all id (map condition_ok conditions) \<and> list_all id (map sortby_ok sortbys))"

subsection \<open>The fragment is the inline rendering with its values taken out\<close>

lemma as_string_simps [simp]:
  "as_string quote [] = []"
  "as_string quote (SQL t # s) = t @ as_string quote s"
  "as_string quote (Identifier n # s) = quote n @ as_string quote s"
  "as_string quote (s @ s') = as_string quote s @ as_string quote s'"
  by (simp_all add: as_string_def)

lemma token_text_simps [simp]:
  "token_text quote [] = []"
  "token_text quote (Text t # ts) = t @ token_text quote ts"
  "token_text quote (Name n # ts) = quote n @ token_text quote ts"
  "token_text quote (Bound v # ts) = ''%s'' @ token_text quote ts"
  "token_text quote (ts @ ts') = token_text quote ts @ token_text quote ts'"
  by (simp_all add: token_text_def)

lemma bound_values_simps [simp]:
  "bound_values [] = []"
  "bound_values (Text t # ts) = bound_values ts"
  "bound_values (Name n # ts) = bound_values ts"
  "bound_values (Bound v # ts) = v # bound_values ts"
  "bound_values (ts @ ts') = bound_values ts @ bound_values ts'"
  by (simp_all add: bound_values_def map_filter_def)

definition fits :: "'o fragment \<Rightarrow> 'o token list \<Rightarrow> bool" where
  "fits f ts \<longleftrightarrow>
     (\<exists>s. fst f = Some s \<and> (\<forall>quote. as_string quote s = token_text quote ts))
     \<and> snd f = bound_values ts"

definition renders :: "'o fragment res \<Rightarrow> bool \<Rightarrow> 'o token list \<Rightarrow> bool" where
  "renders r ok ts \<longleftrightarrow> (if ok then \<exists>f. r = Inr f \<and> fits f ts else \<exists>m. r = Inl (ValueError m))"

lemma fitsE:
  assumes "fits f ts"
  obtains s where "f = (Some s, bound_values ts)" "\<And>quote. as_string quote s = token_text quote ts"
  using assms by (cases f) (auto simp: fits_def)

lemma fits_intro:
  "(\<And>quote. as_string quote s = token_text quote ts) \<Longrightarrow> ps = bound_values ts \<Longrightarrow> fits (Some s, ps) ts"
  by (simp add: fits_def)

lemma fragment_sqls_Cons [simp]:
  "fragment_sqls ((Some s, ps) # fs) = s # fragment_sqls fs"
  "fragment_sqls ((None, ps) # fs) = fragment_sqls fs" "fragment_sqls [] = []"
  by (simp_all add: fragment_sqls_def map_filter_def)

lemma fragment_params_Cons [simp]:
  "fragment_params (f # fs) = snd f @ fragment_params fs" "fragment_params [] = []"
  by (simp_all add: fragment_params_def)

lemma token_join_texts:
  assumes "list_all2 (\<lambda>s ts. \<forall>quote. as_string quote s = token_text quote ts) ss tss"
  shows "as_string quote (sql_join sep ss) = token_text quote (token_join sep tss)"
  using assms
proof (induction sep ss arbitrary: tss rule: sql_join.induct)
  case (3 sep x y ys)
  then obtain t t' ts where "tss = t # t' # ts" by (auto simp: list_all2_Cons1)
  with 3 show ?case by auto
qed (auto simp: list_all2_Cons1)

lemma bound_values_join [simp]: "bound_values (token_join sep tss) = concat (map bound_values tss)"
  by (induction sep tss rule: token_join.induct) auto

lemma fits_list:
  assumes "list_all2 fits fs tss"
  shows "list_all2 (\<lambda>s ts. \<forall>quote. as_string quote s = token_text quote ts) (fragment_sqls fs) tss"
    and "fragment_params fs = concat (map bound_values tss)"
  using assms by (induction rule: list_all2_induct) (auto elim!: fitsE)

lemma fits_join:
  assumes "list_all2 fits fs tss"
  shows "as_string quote (sql_join sep (fragment_sqls fs)) = token_text quote (token_join sep tss)"
    and "fragment_params fs = bound_values (token_join sep tss)"
  using fits_list [OF assms] by (simp_all add: token_join_texts)

lemma res_all_renders:
  assumes "\<And>x. x \<in> set xs \<Longrightarrow> renders (f x) (ok x) (g x)"
  shows "if list_all id (map ok xs)
         then \<exists>fs. res_all (map f xs) = Inr fs \<and> list_all2 fits fs (map g xs)
         else \<exists>m. res_all (map f xs) = Inl (ValueError m)"
  using assms
proof (induction xs)
  case (Cons x xs)
  have head: "renders (f x) (ok x) (g x)" by (rule Cons.prems) simp
  have tail: "if list_all id (map ok xs)
           then \<exists>fs. res_map (\<lambda>r. r) (map f xs) = Inr fs \<and> list_all2 fits fs (map g xs)
           else \<exists>m. res_map (\<lambda>r. r) (map f xs) = Inl (ValueError m)"
    unfolding res_all_def [symmetric] by (rule Cons.IH) (rule Cons.prems, simp)
  show ?case
  proof (cases "ok x")
    case True
    with head obtain y where "f x = Inr y" "fits y (g x)" by (auto simp: renders_def)
    with tail True show ?thesis by (cases "list_all id (map ok xs)") (auto simp: res_all_def id_def)
  qed (use head in \<open>auto simp: res_all_def id_def renders_def\<close>)
qed (simp add: res_all_def)

definition named_fits ::
  "('a \<Rightarrow> 'o token list) \<Rightarrow> ('a \<times> string) list \<Rightarrow> ('o fragment \<times> string) list \<Rightarrow> bool" where
  "named_fits g xs y \<longleftrightarrow> (\<exists>fs. y = zip fs (map snd xs) \<and> list_all2 fits fs (map (g \<circ> fst) xs))"

lemma named_fits_Cons:
  "fits f (g q) \<Longrightarrow> named_fits g xs y \<Longrightarrow> named_fits g ((q, name) # xs) ((f, name) # y)"
  unfolding named_fits_def by (elim exE, rule_tac x = "f # fs" in exI) simp

lemma res_named_renders:
  assumes "\<And>x. x \<in> set xs \<Longrightarrow> renders (f (fst x)) (ok (fst x)) (g (fst x))"
  shows "if list_all fst (map (map_prod ok id) xs)
         then \<exists>y. res_named (map (map_prod f id) xs) = Inr y \<and> named_fits g xs y
         else \<exists>m. res_named (map (map_prod f id) xs) = Inl (ValueError m)"
  using assms
proof (induction xs)
  case (Cons x xs)
  let ?rest = "res_map (\<lambda>(r, name). res_bind r (\<lambda>x. Inr (x, name))) (map (map_prod f id) xs)"
  have head: "renders (f (fst x)) (ok (fst x)) (g (fst x))" by (rule Cons.prems) simp
  have tail: "if list_all fst (map (map_prod ok id) xs)
           then \<exists>y. ?rest = Inr y \<and> named_fits g xs y
           else \<exists>m. ?rest = Inl (ValueError m)"
    unfolding res_named_def [symmetric] by (rule Cons.IH) (rule Cons.prems, simp)
  obtain q name where x: "x = (q, name)" by (cases x)
  show ?case
  proof (cases "ok q")
    case True
    with head x obtain f' where f': "f q = Inr f'" "fits f' (g q)" by (auto simp: renders_def)
    then show ?thesis
      using tail named_fits_Cons [where f = f' and q = q and g = g and xs = xs and name = name] x True
      by (cases "list_all fst (map (map_prod ok id) xs)")
        (auto simp: res_named_def id_def)
  qed (use head x in \<open>auto simp: res_named_def renders_def\<close>)
qed (simp add: res_named_def named_fits_def)

lemma renders_column:
  "renders (column_fragment schema table (Identifier c)) (column_ok schema table)
     (column_tokens schema table (Name c))"
  "renders (column_fragment schema table (SQL t)) (column_ok schema table)
     (column_tokens schema table (Text t))"
  by (auto simp: renders_def column_fragment_def column_ok_def column_tokens_def fits_def
      split: option.splits)

lemma fits_function:
  "list_all2 fits fs tss
   \<Longrightarrow> fits (function_fragment name fs) (Name name # parens (token_join '', '' tss))"
  by (auto simp: function_fragment_def parens_def fits_def fits_join simp del: bound_values_join)

lemma fits_list_operand:
  "list_all2 fits fs tss \<Longrightarrow> fits (list_operand_fragment fs) (parens (token_join '', '' tss))"
  by (auto simp: list_operand_fragment_def parens_def fits_def fits_join simp del: bound_values_join)

lemma fits_cast:
  "fits f ts \<Longrightarrow> fits (cast_fragment n f) ([Text ''CAST''] @ parens (ts @ [Text '' AS '', Name n]))"
  by (auto simp: cast_fragment_def parens_def elim!: fitsE intro!: fits_intro)

lemma fits_subquery: "fits f ts \<Longrightarrow> fits (subquery_operand_fragment f) (parens ts)"
  by (auto simp: subquery_operand_fragment_def parens_def elim!: fitsE intro!: fits_intro)

lemma fits_target:
  "fits f ts \<Longrightarrow>
   fits (result_target_fragment label f)
     (ts @ (case label of Some l \<Rightarrow> [Text '' AS '', Name l] | None \<Rightarrow> []))"
  by (auto simp: result_target_fragment_def elim!: fitsE intro!: fits_intro split: option.split)

lemma fits_sortby:
  "fits f ts \<Longrightarrow>
   fits (sortby_fragment direction f)
     (ts @ (case direction of Some d \<Rightarrow> [Text ('' '' @ direction_value d)] | None \<Rightarrow> []))"
  by (auto simp: sortby_fragment_def elim!: fitsE intro!: fits_intro split: option.split)

lemma fits_condition:
  "fits l lts \<Longrightarrow> fits r rts \<Longrightarrow>
   \<exists>f. condition_fragment op l r = Inr f
       \<and> fits f (lts @ Text ('' '' @ operator_value op @ '' '') # rts)"
  by (auto simp: condition_fragment_def elim!: fitsE intro!: fits_intro)

lemma renders_condition:
  assumes "\<And>x. l = Some x \<Longrightarrow> renders (f x) (ok x) (g x)"
    and "\<And>x. r = Some x \<Longrightarrow> renders (f x) (ok x) (g x)"
  shows "renders (condition_result (map_option f l) (map_option f r) op)
    (map_option ok l = Some True \<and> map_option ok r = Some True \<and> op \<noteq> None)
    ((case map_option g l of Some ts \<Rightarrow> ts | None \<Rightarrow> [])
     @ Text (case op of Some operator \<Rightarrow> '' '' @ operator_value operator @ '' '' | None \<Rightarrow> '''')
     # (case map_option g r of Some ts \<Rightarrow> ts | None \<Rightarrow> []))"
proof (cases "\<exists>x y oper. l = Some x \<and> r = Some y \<and> op = Some oper")
  case True
  then obtain x y oper where eqs: "l = Some x" "r = Some y" "op = Some oper" by blast
  have "renders (f x) (ok x) (g x)" "renders (f y) (ok y) (g y)" using assms eqs by auto
  then consider m where "\<not> (ok x \<and> ok y)" "res_bind (f x) (\<lambda>_. f y) = Inl (ValueError m)"
    | lf rf where "ok x" "ok y" "f x = Inr lf" "f y = Inr rf" "fits lf (g x)" "fits rf (g y)"
    unfolding renders_def by (cases "ok x"; cases "ok y") auto
  then show ?thesis
  proof cases
    case 1
    then show ?thesis
      by (cases "f x"; cases "f y") (auto simp: renders_def condition_result_def eqs)
  next
    case 2
    then show ?thesis
      using fits_condition [of lf "g x" rf "g y" oper]
      by (auto simp: renders_def condition_result_def eqs)
  qed
next
  case False
  then show ?thesis
    by (cases l; cases r; cases op) (auto simp: renders_def condition_result_def)
qed

text \<open>A clause of a query: absent, or the text of one keyword and its list.\<close>

definition fits_clause :: "'o fragment \<Rightarrow> 'o token list list \<Rightarrow> bool" where
  "fits_clause f tss \<longleftrightarrow> (tss = [] \<and> f = (None, [])) \<or> (\<exists>ts. tss = [ts] \<and> fits f ts)"

lemma fits_clauses:
  "list_all2 fits_clause cs tsss
   \<Longrightarrow> \<exists>fs. fragment_sqls cs = fragment_sqls fs \<and> fragment_params cs = fragment_params fs
          \<and> list_all2 fits fs (concat tsss)"
proof (induction rule: list_all2_induct)
  case (Cons c cs tss tsss)
  then obtain fs where fs: "fragment_sqls cs = fragment_sqls fs"
    "fragment_params cs = fragment_params fs" "list_all2 fits fs (concat tsss)" by blast
  show ?case
  proof (cases "tss = []")
    case True
    with Cons.hyps fs show ?thesis by (auto simp: fits_clause_def)
  next
    case False
    with Cons.hyps obtain ts where ts: "tss = [ts]" "fits c ts" by (auto simp: fits_clause_def)
    then obtain s where "c = (Some s, bound_values ts)" by (auto elim: fitsE)
    with fs ts show ?thesis by (intro exI [of _ "c # fs"]) simp
  qed
qed auto

lemma fits_query:
  assumes "list_all2 fits_clause cs tsss"
  shows "fits (query_fragment cs) (token_join '' '' (concat tsss))"
proof -
  from fits_clauses [OF assms] obtain fs where
    "fragment_sqls cs = fragment_sqls fs" "fragment_params cs = fragment_params fs"
    "list_all2 fits fs (concat tsss)" by blast
  then show ?thesis by (simp add: query_fragment_def fits_def fits_join del: bound_values_join)
qed

lemma fits_keyword_list:
  assumes "list_all2 fits fs tss"
  shows "fits_clause
     (if length fs = 0 then (None, [])
      else (Some ([SQL keyword] @ sql_join sep (fragment_sqls fs)), fragment_params fs))
     (keyword_list keyword sep tss)"
  using assms list_all2_lengthD [OF assms]
  by (auto simp: fits_clause_def keyword_list_def fits_def fits_join simp del: bound_values_join)

lemma fits_named:
  assumes "list_all2 fits fs tss" "length names = length fs"
    and "\<And>f ts name. fits f ts \<Longrightarrow> \<exists>s. h (f, name) = Some s \<and>
           fits (Some s, snd f) (k (ts, name))"
  shows "\<exists>fs'. List.map_filter h (zip fs names) = fragment_sqls fs'
          \<and> fragment_params (map fst (zip fs names)) = fragment_params fs'
          \<and> list_all2 fits fs' (map k (zip tss names))"
  using assms(1,2)
proof (induction fs tss arbitrary: names rule: list_all2_induct)
  case (Cons f fs ts tss)
  then obtain n ns where names: "names = n # ns" by (cases names) auto
  from Cons.IH [of ns] Cons.prems names obtain fs' where fs':
    "List.map_filter h (zip fs ns) = fragment_sqls fs'"
    "fragment_params (map fst (zip fs ns)) = fragment_params fs'"
    "list_all2 fits fs' (map k (zip tss ns))" by auto
  from assms(3) [OF Cons.hyps(1), of n] obtain s where s: "h (f, n) = Some s"
    "fits (Some s, snd f) (k (ts, n))" by blast
  with fs' names show ?case
    by (intro exI [of _ "(Some s, snd f) # fs'"]) (auto simp: map_filter_def)
qed (auto simp: map_filter_def)

lemma renders_bind:
  assumes "if c then \<exists>y. r = Inr y \<and> P y else \<exists>m. r = Inl (ValueError m)"
    and "\<And>y. P y \<Longrightarrow> renders (k y) d ts"
  shows "renders (res_bind r k) (c \<and> d) ts"
  using assms by (cases c) (auto simp: renders_def)

lemma renders_map:
  assumes "renders r ok ts" "\<And>f. fits f ts \<Longrightarrow> fits (h f) ts'"
  shows "renders (res_bind r (\<lambda>f. Inr (h f))) ok ts'"
  using renders_bind [of ok r "\<lambda>f. fits f ts" "\<lambda>f. Inr (h f)" True ts'] assms
  by (auto simp: renders_def)

lemma renders_list:
  assumes "\<And>x. x \<in> set xs \<Longrightarrow> renders (f x) (ok x) (g x)"
    and "\<And>fs. list_all2 fits fs (map g xs) \<Longrightarrow> fits (h fs) ts"
  shows "renders (res_bind (res_all (map f xs)) (\<lambda>fs. Inr (h fs))) (list_all id (map ok xs)) ts"
proof -
  have "renders (res_bind (res_all (map f xs)) (\<lambda>fs. Inr (h fs)))
      (list_all id (map ok xs) \<and> True) ts"
    by (rule renders_bind [OF res_all_renders [OF assms(1)]]) (auto simp: renders_def assms(2))
  then show ?thesis by simp
qed

lemma fits_ctes:
  assumes "named_fits g xs y"
  shows "fits_clause (common_table_expressions_fragment y)
     (keyword_list ''WITH '' '', ''
        (map (\<lambda>(ts, name). [Name name, Text '' AS ''] @ parens ts) (map (map_prod g id) xs)))"
proof -
  from assms obtain fs where y: "y = zip fs (map snd xs)"
    and fits: "list_all2 fits fs (map (g \<circ> fst) xs)" by (auto simp: named_fits_def)
  have len: "length (map snd xs) = length fs" using list_all2_lengthD [OF fits] by simp
  have zip: "zip (map (g \<circ> fst) xs) (map snd xs) = map (map_prod g id) xs"
    by (induction xs) auto
  obtain fs' where fs': "List.map_filter
       (\<lambda>(fragment, name). map_option (\<lambda>s. [Identifier name, SQL '' AS (''] @ s @ [SQL '')'']) (fst fragment))
       (zip fs (map snd xs)) = fragment_sqls fs'"
    "fragment_params (map fst (zip fs (map snd xs))) = fragment_params fs'"
    "list_all2 fits fs' (map (\<lambda>(ts, name). [Name name, Text '' AS ''] @ parens ts) (map (map_prod g id) xs))"
    using fits_named [OF fits len, where
        h = "\<lambda>(fragment, name). map_option (\<lambda>s. [Identifier name, SQL '' AS (''] @ s @ [SQL '')''])
               (fst fragment)"
        and k = "\<lambda>(ts, name). [Name name, Text '' AS ''] @ parens ts"]
    unfolding zip by (force simp: parens_def elim!: fitsE intro!: fits_intro)
  then show ?thesis
    using fits_keyword_list [OF fs'(3), of "''WITH ''" "'', ''"] list_all2_lengthD [OF fs'(3)] len
    by (cases "xs = []") (auto simp: y common_table_expressions_fragment_def)
qed

lemma fits_tables:
  "list_all2 fits (map (\<lambda>table. (Some [Identifier table], [])) tables)
     (map (\<lambda>table. [Name table]) tables)"
  by (induction tables) (auto simp: fits_def)

lemma fragment_append [simp]:
  "fragment_sqls (fs @ fs') = fragment_sqls fs @ fragment_sqls fs'"
  "fragment_params (fs @ fs') = fragment_params fs @ fragment_params fs'"
  by (simp_all add: fragment_sqls_def fragment_params_def map_filter_def)

lemma fragment_tables [simp]:
  "fragment_sqls (map (\<lambda>table. (Some [Identifier table], [])) tables)
     = map (\<lambda>table. [Identifier table]) tables"
  "fragment_params (map (\<lambda>table. (Some [Identifier table], [])) tables) = []"
  by (induction tables) auto

lemma fits_from:
  assumes "named_fits g xs y"
  shows "fits_clause (from_fragment tables y)
     (keyword_list ''FROM '' '', ''
        (map (\<lambda>table. [Name table]) tables
         @ map (\<lambda>(ts, name). parens ts @ [Text '' AS '', Name name]) (map (map_prod g id) xs)))"
proof -
  from assms obtain fs where y: "y = zip fs (map snd xs)"
    and fits: "list_all2 fits fs (map (g \<circ> fst) xs)" by (auto simp: named_fits_def)
  have len: "length (map snd xs) = length fs" using list_all2_lengthD [OF fits] by simp
  have zip: "zip (map (g \<circ> fst) xs) (map snd xs) = map (map_prod g id) xs"
    by (induction xs) auto
  obtain fs' where fs': "List.map_filter
       (\<lambda>(fragment, name). map_option (\<lambda>s. [SQL ''(''] @ s @ [SQL '') AS '', Identifier name]) (fst fragment))
       (zip fs (map snd xs)) = fragment_sqls fs'"
    "fragment_params (map fst (zip fs (map snd xs))) = fragment_params fs'"
    "list_all2 fits fs' (map (\<lambda>(ts, name). parens ts @ [Text '' AS '', Name name]) (map (map_prod g id) xs))"
    using fits_named [OF fits len, where
        h = "\<lambda>(fragment, name). map_option (\<lambda>s. [SQL ''(''] @ s @ [SQL '') AS '', Identifier name])
               (fst fragment)"
        and k = "\<lambda>(ts, name). parens ts @ [Text '' AS '', Name name]"]
    unfolding zip by (force simp: parens_def elim!: fitsE intro!: fits_intro)
  from list_all2_appendI [OF fits_tables fs'(3)] show ?thesis
    using fits_keyword_list [OF list_all2_appendI [OF fits_tables [of tables] fs'(3)], of "''FROM ''" "'', ''"]
      fs' list_all2_lengthD [OF fs'(3)] len
    by (cases "xs = []") (auto simp: y from_fragment_def)
qed

lemma fits_union:
  assumes "list_all2 fits fs tss"
  shows "fits_clause (union_fragment (Some (fs, mode)))
     [token_join (if mode = QUANT_DISTINCT then '' UNION DISTINCT '' else '' UNION ALL '')
        (map parens tss)]"
proof -
  have "list_all2 (\<lambda>s ts. \<forall>quote. as_string quote s = token_text quote ts)
      (map (\<lambda>s. [SQL ''(''] @ s @ [SQL '')'']) (fragment_sqls fs)) (map parens tss)"
    using fits_list(1) [OF assms] by (auto simp: list_all2_conv_all_nth parens_def)
  moreover have "concat (map bound_values (map parens tss)) = concat (map bound_values tss)"
    by (induction tss) (auto simp: parens_def)
  ultimately show ?thesis
    using fits_list(2) [OF assms]
    by (simp add: fits_clause_def union_fragment_def fits_def token_join_texts)
qed

lemma fits_limits:
  "fits_clause (limit_fragment n)
     (case n of None \<Rightarrow> [] | Some n \<Rightarrow> [[Text ''LIMIT '', Bound (Plain (QVal (PyInt n)))]])"
  "fits_clause (offset_fragment n)
     (case n of None \<Rightarrow> [] | Some n \<Rightarrow> [[Text ''OFFSET '', Bound (Plain (QVal (PyInt n)))]])"
  by (auto simp: fits_clause_def limit_fragment_def offset_fragment_def fits_def split: option.split)

lemma renders_union:
  assumes "\<And>qs mode q. us = Some (qs, mode) \<Longrightarrow> q \<in> set qs \<Longrightarrow> renders (f q) (ok q) (g q)"
  shows "if (case map_option (map_prod (map ok) id) us of None \<Rightarrow> True | Some (oks, m) \<Rightarrow> list_all id oks)
     then \<exists>x. res_union (map_option (map_prod (map f) id) us) = Inr x \<and>
       fits_clause (union_fragment x)
         (case map_option (map_prod (map g) id) us of
            None \<Rightarrow> []
          | Some (tss, mode) \<Rightarrow>
              [token_join (if mode = QUANT_DISTINCT then '' UNION DISTINCT '' else '' UNION ALL '')
                 (map parens tss)])
     else \<exists>m. res_union (map_option (map_prod (map f) id) us) = Inl (ValueError m)"
proof (cases us)
  case None
  then show ?thesis by (simp add: res_union_def fits_clause_def union_fragment_def)
next
  case (Some u)
  obtain qs mode where u: "u = (qs, mode)" by (cases u)
  have "if list_all id (map ok qs)
        then \<exists>fs. res_all (map f qs) = Inr fs \<and> list_all2 fits fs (map g qs)
        else \<exists>m. res_all (map f qs) = Inl (ValueError m)"
    by (rule res_all_renders) (use assms Some u in simp)
  then show ?thesis
    using fits_union [of _ "map g qs" mode]
    by (cases "list_all id (map ok qs)") (auto simp: Some u res_union_def)
qed

lemma renders_query:
  assumes ctes: "\<And>x. x \<in> set ctes \<Longrightarrow> renders (f (fst x)) (ok (fst x)) (g (fst x))"
    and unions: "\<And>qs mode q. us = Some (qs, mode) \<Longrightarrow> q \<in> set qs \<Longrightarrow> renders (f q) (ok q) (g q)"
    and targets: "\<And>x. x \<in> set targets \<Longrightarrow> renders (ft x) (okt x) (gt x)"
    and subqueries: "\<And>x. x \<in> set subqueries \<Longrightarrow> renders (f (fst x)) (ok (fst x)) (g (fst x))"
    and conditions: "\<And>x. x \<in> set conditions \<Longrightarrow> renders (fc x) (okc x) (gc x)"
    and sortbys: "\<And>x. x \<in> set sortbys \<Longrightarrow> renders (fs x) (oks x) (gs x)"
  shows "renders
     (query_result (map (map_prod f id) ctes) (map_option (map_prod (map f) id) us)
        (map ft targets) tables (map (map_prod f id) subqueries) (map fc conditions)
        (map fs sortbys) lim_n off_n)
     (list_all fst (map (map_prod ok id) ctes)
      \<and> (case map_option (map_prod (map ok) id) us of
           None \<Rightarrow> True | Some (oks, mode) \<Rightarrow> list_all id oks)
      \<and> list_all id (map okt targets) \<and> list_all fst (map (map_prod ok id) subqueries)
      \<and> list_all id (map okc conditions) \<and> list_all id (map oks sortbys))
     (query_tokens (map (map_prod g id) ctes) (map_option (map_prod (map g) id) us)
        (map gt targets) tables (map (map_prod g id) subqueries) (map gc conditions)
        (map gs sortbys) lim_n off_n)" (is "renders _ ?ok ?tokens")
proof -
  note c = res_named_renders [of ctes f ok g, OF ctes] and u = renders_union [of us f ok g, OF unions]
    and t = res_all_renders [of targets ft okt gt, OF targets] 
    and s = res_named_renders [of subqueries f ok g, OF subqueries]
    and w = res_all_renders [of conditions fc okc gc, OF conditions]
    and o = res_all_renders [of sortbys fs oks gs, OF sortbys]
  have "renders
     (query_result (map (map_prod f id) ctes) (map_option (map_prod (map f) id) us)
        (map ft targets) tables (map (map_prod f id) subqueries) (map fc conditions)
        (map fs sortbys) lim_n off_n)
     (list_all fst (map (map_prod ok id) ctes)
      \<and> (case map_option (map_prod (map ok) id) us of
           None \<Rightarrow> True | Some (oks, mode) \<Rightarrow> list_all id oks)
      \<and> list_all id (map okt targets) \<and> list_all fst (map (map_prod ok id) subqueries)
      \<and> list_all id (map okc conditions) \<and> list_all id (map oks sortbys) \<and> True) ?tokens"
    unfolding query_result_def
  proof (rule renders_bind [OF c], assumption, rule renders_bind [OF u], assumption, assumption,
      rule renders_bind [OF t], assumption, rule renders_bind [OF s], assumption,
      rule renders_bind [OF w], assumption, rule renders_bind [OF o], assumption)
    fix cf uf tf sf wf sof
    assume "named_fits g ctes cf" "named_fits g subqueries sf"
      and "fits_clause (union_fragment uf)
         (case map_option (map_prod (map g) id) us of
            None \<Rightarrow> []
          | Some (tss, mode) \<Rightarrow>
              [token_join (if mode = QUANT_DISTINCT then '' UNION DISTINCT '' else '' UNION ALL '')
                 (map parens tss)])"
      and "list_all2 fits tf (map gt targets)" "list_all2 fits wf (map gc conditions)"
        "list_all2 fits sof (map gs sortbys)"
    then have "fits (query_fragment
       [common_table_expressions_fragment cf, union_fragment uf,
        select_fragment tf, from_fragment tables sf,
        where_fragment wf, order_by_fragment sof,
        limit_fragment lim_n, offset_fragment off_n]) ?tokens"
      unfolding query_tokens_def select_fragment_def where_fragment_def order_by_fragment_def
      by (intro fits_query [where tsss = "[_, _, _, _, _, _, _, _]", simplified concat.simps append_Nil2]
          list.rel_intros fits_ctes fits_from fits_keyword_list fits_limits) assumption+
    then show "renders (Inr (query_fragment
       [common_table_expressions_fragment cf, union_fragment uf,
        select_fragment tf, from_fragment tables sf,
        where_fragment wf, order_by_fragment sof,
        limit_fragment lim_n, offset_fragment off_n])) True ?tokens"
      by (simp add: renders_def)
  qed
  then show ?thesis by simp
qed

text \<open>The rendering of every node, by induction over the mutually recursive nodes.\<close>

lemma rendering:
  fixes e :: "'o expression" and c :: "'o sql_condition" and p :: "'o operand" and t :: "'o target"
    and b :: "'o sortby" and q :: "'o pg_query"
  shows "renders (to_fragment e) (expression_ok e) (inline_expression e)"
  "renders (condition_to_fragment c) (condition_ok c) (inline_condition c)"
  "renders (operand_fragment p) (operand_ok p) (inline_operand p)"
  "renders (target_to_fragment t) (target_ok t) (inline_target t)"
  "renders (sortby_to_fragment b) (sortby_ok b) (inline_sortby b)"
  "renders (query_to_fragment q) (query_ok q) (inline_query q)"
proof (induction e and c and p and t and b and q)
  case (FunctionApplication name arguments)
  then show ?case by (auto intro!: renders_list fits_function)
next
  case (Cast e typename)
  then show ?case unfolding to_fragment.simps expression_ok.simps inline_expression.simps
    by (rule renders_map) (rule fits_cast)
next
  case (Condition l r op)
  then show ?case unfolding condition_to_fragment.simps condition_ok.simps inline_condition.simps
    by (intro renders_condition) auto
next
  case (ListOperand parts)
  then show ?case by (auto intro!: renders_list fits_list_operand)
next
  case (QueryOperand q)
  then show ?case by (auto intro!: renders_map fits_subquery)
next
  case (ResultTarget e label)
  then show ?case unfolding target_to_fragment.simps target_ok.simps inline_target.simps
    by (rule renders_map) (rule fits_target)
next
  case (SortBy e direction)
  then show ?case unfolding sortby_to_fragment.simps sortby_ok.simps inline_sortby.simps
    by (rule renders_map) (rule fits_sortby)
next
  case (Query ctes us targets tables subqueries conditions sortbys lim_n off_n)
  show ?case unfolding query_to_fragment.simps query_ok.simps inline_query.simps
    by (rule renders_query) (use Query in \<open>auto\<close>)
qed (auto simp: renders_column, simp_all add: renders_def fits_def)

lemma build_renderable:
  assumes "query_ok q"
  shows "\<exists>s. build q = Inr (s, bound_values (inline_query q))
            \<and> (\<forall>quote. as_string quote s = token_text quote (inline_query q))"
proof -
  obtain f where "query_to_fragment q = Inr f" "fits f (inline_query q)"
    using rendering(6) [of q] assms by (auto simp: renders_def)
  then show ?thesis by (auto simp: build_def elim!: fitsE)
qed

text \<open>
  C18. Building a query either raises \<open>ValueError\<close>, exactly when some part of it has an
  incomplete condition or a column with a schema but no table, or returns SQL text and
  parameters that agree: the text is the inline rendering of the query with \<open>%s\<close> in place of
  each value, and the parameters are those values in the order in which they occur in it,
  through every nested expression, list, subquery, union and common table expression.
  The branch of \<open>build\<close> for an empty query is never taken.
\<close>

theorem build_binds_values_in_order:
  "if query_ok q
   then \<exists>s. build q = Inr (s, bound_values (inline_query q))
            \<and> (\<forall>quote. as_string quote s = token_text quote (inline_query q))
   else \<exists>m. build q = Inl (ValueError m) \<and> query_to_fragment q = Inl (ValueError m)"
proof (cases "query_ok q")
  case True
  then show ?thesis using build_renderable by simp
next
  case False
  then show ?thesis using rendering(6) [of q] by (auto simp: renders_def build_def)
qed

text \<open>A query with a subquery in a condition, evaluated.\<close>

lemma build_example:
  "build
     (limit (Some 10)
       (where_query
          [with_right
             (QueryOperand (select [NamedColumn ''id''] (from_table ''last'' empty_query)))
             (cond_greater_than (with_left (ExprOperand (ColumnReference None None ''id''))
                empty_condition)),
           with_right (ExprOperand (Constant (Plain (QVal (PyStr ''bob'')))))
             (cond_equals (with_left (ExprOperand (ColumnReference None (Some ''t'') ''name''))
                empty_condition))]
          (from_table ''t'' (select_all empty_query)))) =
   Inr ([SQL ''SELECT '', SQL ''*'', SQL '' '', SQL ''FROM '', Identifier ''t'', SQL '' '',
         SQL ''WHERE '', Identifier ''id'', SQL '' '', SQL ''>'', SQL '' '',
         SQL ''('', SQL ''SELECT '', Identifier ''id'', SQL '' '', SQL ''FROM '', Identifier ''last'',
         SQL '')'', SQL '' AND '', Identifier ''t'', SQL ''.'', Identifier ''name'', SQL '' '',
         SQL ''='', SQL '' '', SQL ''%s'', SQL '' '', SQL ''LIMIT %s''],
        [Plain (QVal (PyStr ''bob'')), Plain (QVal (PyInt 10))] :: unit sql_value list)"
  by code_simp

end
