(* ===== verification/Postgres_Converters.thy ===== *)
theory Postgres_Converters
  imports Memory_Query Postgres_Query
begin

section \<open>Converting queries to SQL\<close>

text \<open>
  Models \<open>persistence/postgres/converters/\<close>: expressions and values for paths
  (\<open>helpers.py\<close>), the appliers and converters of the clauses (\<open>clause.py\<close>), of the similarity
  function (\<open>function.py\<close>) and of queries (\<open>query.py\<close>), and \<open>CombinedQueryApplier\<close>
  (\<open>appliers.py\<close>). An applier takes a query builder to a query builder and may raise.

  The keyset paging clause is the intricate part. Given the sort of the builder it adds the
  \<open>id\<close> as the last sort key and selects the rows after, or before, the row with the last id:
  by one comparison of rows when all sort keys have the same direction, and by a union of one
  query per sort key when they do not.

  The mixed case keys a dictionary by sort expressions. A frozen dataclass hashes the tuple of
  its attributes, so an expression that holds a list cannot be a key; \<open>hash_expression\<close> says
  which. Function arguments and operand lists are lists here, as the converters build them;
  whether a constant can be hashed is the parameter \<open>hashable\<close>. Keys are compared structurally.
\<close>

subsection \<open>settings.py, helpers.py\<close>

record table_settings =
  table_name :: string

abbreviation column :: "string \<Rightarrow> 'o expression" where
  "column name \<equiv> ColumnReference None None name"

fun sub_level_value :: "path_segment \<Rightarrow> 'o sql_value" where
  "sub_level_value (Key k) = Plain (QVal (PyStr k))"
| "sub_level_value (Index i) = Plain (QVal (PyInt i))"

definition expression_for_path :: "path \<Rightarrow> pg_operator option \<Rightarrow> 'o expression" where
  "expression_for_path p operator =
     (if is_nested p then
        FunctionApplication
          (case operator of
             Some op \<Rightarrow>
               if comparison_type_of op = TEXT then ''jsonb_extract_path_text''
               else ''jsonb_extract_path''
           | None \<Rightarrow> ''jsonb_extract_path'')
          (column (top_level p) # map (\<lambda>seg. Constant (sub_level_value seg)) (sub_levels p))
      else column (top_level p))"

definition expression_for_function :: "'u query_function \<Rightarrow> 'o expression" where
  "expression_for_function f = column (fn_alias f)"

definition expression_for_field :: "'u field \<Rightarrow> pg_operator option \<Rightarrow> 'o expression" where
  "expression_for_field field operator =
     (case field of
        PathField p \<Rightarrow> expression_for_path p operator
      | FunctionField f \<Rightarrow> expression_for_function f)"

definition value_for_nested_path :: "'o qval \<Rightarrow> 'o expression" where
  "value_for_nested_path v =
     (let expression = Constant (Plain v);
          expression =
            (case v of QVal (PyStr _) \<Rightarrow> Cast expression ''text'' | _ \<Rightarrow> expression)
      in FunctionApplication ''to_jsonb'' [expression])"

text \<open>\<open>value.serialise()\<close>: an identifier's, or a user object's if it has one.\<close>

definition serialise_value :: "'o ser_methods \<Rightarrow> 'o qval \<Rightarrow> 'o pyval res" where
  "serialise_value ser v =
     (case v of
        QId i \<Rightarrow> Inr (serialise_identifier i)
      | QVal (PyObj x) \<Rightarrow>
          (case ser x of
             Some serialise \<Rightarrow> serialise raising_serialisation_fallback
           | None \<Rightarrow> Inl (AttributeError ''serialise''))
      | _ \<Rightarrow> Inl (AttributeError ''serialise''))"

definition value_for_path ::
  "'o ser_methods \<Rightarrow> 'o qval \<Rightarrow> path \<Rightarrow> pg_operator \<Rightarrow> 'o expression res" where
  "value_for_path ser v p operator =
     (if \<not> has_value operator then Inr empty_expression
      else if p = Path ''source'' [] then
        res_bind (serialise_value ser v) (\<lambda>serialised. Inr (Constant (Jsonb serialised)))
      else if is_nested p then
        if comparison_type_of operator = TEXT then Inr (Constant (Plain v))
        else Inr (value_for_nested_path v)
      else Inr (Constant (Plain v)))"

text \<open>\<open>is_multi_valued\<close>, with the elements of the sequence.\<close>

fun multi_values :: "'o qval \<Rightarrow> 'o qval list option" where
  "multi_values (QVal (PyList vs)) = Some (map QVal vs)"
| "multi_values _ = None"

subsection \<open>clause.py: filters and sorts\<close>

type_synonym 'o applier = "'o pg_query \<Rightarrow> 'o pg_query res"

definition filter_operator ::
  "(operator, pg_operator) dict \<Rightarrow> operator \<Rightarrow> 'o qval \<Rightarrow> pg_operator res" where
  "filter_operator operators operator v =
     (case map_of operators operator of
        None \<Rightarrow> Inl (ValueError ''Unsupported operator'')
      | Some op \<Rightarrow>
          Inr (case (op, v) of
                 (PG_EQUALS, QVal PyNone) \<Rightarrow> PG_IS_NULL
               | (PG_NOT_EQUALS, QVal PyNone) \<Rightarrow> PG_IS_NOT_NULL
               | _ \<Rightarrow> op))"

definition is_empty_expression :: "'o expression \<Rightarrow> bool" where
  "is_empty_expression e = (case e of Raw s \<Rightarrow> s = '''' | _ \<Rightarrow> False)"

definition filter_value ::
  "'o ser_methods \<Rightarrow> path \<Rightarrow> pg_operator \<Rightarrow> 'o qval \<Rightarrow> 'o operand res" where
  "filter_value ser p operator v =
     (case multi_values v of
        Some vs \<Rightarrow>
          res_bind (res_map (\<lambda>w. value_for_path ser w p operator) vs) (\<lambda>es.
            Inr (ListOperand (map ExprOperand (filter (\<lambda>e. \<not> is_empty_expression e) es))))
      | None \<Rightarrow> res_bind (value_for_path ser v p operator) (\<lambda>e. Inr (ExprOperand e)))"

definition filter_applier ::
  "'o ser_methods \<Rightarrow> (operator, pg_operator) dict \<Rightarrow> operator \<Rightarrow> path \<Rightarrow> 'o qval \<Rightarrow> 'o applier" where
  "filter_applier ser operators operator p v target =
     res_bind (filter_operator operators operator v) (\<lambda>op.
     res_bind (filter_value ser p op v) (\<lambda>right.
     Inr (where_query
       [with_right right
          (with_operator op
            (with_left (ExprOperand (expression_for_path p (Some op))) empty_condition))] target)))"

definition default_operators :: "(operator, pg_operator) dict" where
  "default_operators =
     [(EQUAL, PG_EQUALS), (NOT_EQUAL, PG_NOT_EQUALS), (LESS_THAN, PG_LESS_THAN),
      (LESS_THAN_OR_EQUAL, PG_LESS_THAN_OR_EQUAL), (GREATER_THAN, PG_GREATER_THAN),
      (GREATER_THAN_OR_EQUAL, PG_GREATER_THAN_OR_EQUAL), (IN, PG_IN), (CONTAINS, PG_CONTAINS),
      (REGEX_MATCHES, PG_REGEX_MATCHES), (NOT_REGEX_MATCHES, PG_NOT_REGEX_MATCHES)]"

definition pg_sort_direction :: "sort_order \<Rightarrow> sort_direction" where
  "pg_sort_direction order = (case order of ASC \<Rightarrow> PG_ASC | DESC \<Rightarrow> PG_DESC)"

definition pg_sortby :: "'u sort_field \<Rightarrow> 'o sortby" where
  "pg_sortby field =
     SortBy (expression_for_field (sf_field field) None) (Some (pg_sort_direction (sf_order field)))"

definition sort_applier :: "'u sort_field list \<Rightarrow> 'o applier" where
  "sort_applier sort_fields target =
     Inr (order_by (map (\<lambda>f. SortBySort (pg_sortby f)) sort_fields) target)"

definition combined_applier :: "'o applier list \<Rightarrow> 'o applier" where
  "combined_applier appliers target = res_fold (\<lambda>applier t. applier t) appliers target"

subsection \<open>clause.py: the queries of keyset paging\<close>

definition row_comparison_condition ::
  "'o expression list \<Rightarrow> pg_operator \<Rightarrow> string \<Rightarrow> 'o sql_condition" where
  "row_comparison_condition columns operator table =
     with_right (QueryOperand (from_table table (select_all empty_query)))
       (with_operator operator
         (with_left (ListOperand (map ExprOperand columns)) empty_condition))"

definition field_comparison_condition ::
  "'o expression \<Rightarrow> pg_operator \<Rightarrow> 'o expression \<Rightarrow> 'o sql_condition" where
  "field_comparison_condition col operator v =
     with_right (ExprOperand v)
       (with_operator operator (with_left (ExprOperand col) empty_condition))"

definition record_query ::
  "'o expression \<Rightarrow> 'o expression list \<Rightarrow> table_settings \<Rightarrow> 'o pg_query" where
  "record_query id_value columns settings =
     limit (Some 1)
       (where_query [field_comparison_condition (column ''id'') PG_EQUALS id_value]
         (from_table (table_name settings) (select (map ExprColumn columns) empty_query)))"

definition last_id_constant :: "keyset_paging \<Rightarrow> 'o expression" where
  "last_id_constant paging =
     Constant (Plain (QVal (case kp_last_id paging of Some i \<Rightarrow> PyStr i | None \<Rightarrow> PyNone)))"

definition first_page_no_sort_query :: "'o pg_query \<Rightarrow> keyset_paging \<Rightarrow> 'o pg_query" where
  "first_page_no_sort_query builder paging =
     limit (Some (kp_item_count paging)) (order_by [NamedSort ''id''] builder)"

definition first_page_existing_sort_query ::
  "'o pg_query \<Rightarrow> keyset_paging \<Rightarrow> sort_direction \<Rightarrow> 'o pg_query" where
  "first_page_existing_sort_query builder paging direction =
     limit (Some (kp_item_count paging))
       (replace_order_by
         (map SortBySort (sortby_list builder @ [SortBy (column ''id'') (Some direction)])) builder)"

definition subsequent_page_no_sort_row_selection_query ::
  "'o pg_query \<Rightarrow> keyset_paging \<Rightarrow> 'o pg_query" where
  "subsequent_page_no_sort_row_selection_query builder paging =
     (let op = (if is_forwards paging then PG_GREATER_THAN else PG_LESS_THAN);
          direction = (if is_forwards paging then PG_ASC else PG_DESC)
      in limit (Some (kp_item_count paging))
           (order_by [SortBySort (SortBy (column ''id'') (Some direction))]
             (where_query [field_comparison_condition (column ''id'') op (last_id_constant paging)]
               builder)))"

definition subsequent_page_no_sort_paging_forwards_query ::
  "'o pg_query \<Rightarrow> keyset_paging \<Rightarrow> 'o pg_query" where
  "subsequent_page_no_sort_paging_forwards_query query paging =
     subsequent_page_no_sort_row_selection_query query paging"

definition subsequent_page_no_sort_paging_backwards_query ::
  "'o pg_query \<Rightarrow> keyset_paging \<Rightarrow> 'o pg_query" where
  "subsequent_page_no_sort_paging_backwards_query query paging =
     limit (Some (kp_item_count paging))
       (order_by [NamedSort ''id'']
         (from_subquery (subsequent_page_no_sort_row_selection_query query paging) ''page''
           (select_all empty_query)))"

definition first_page_existing_sort_all_asc_query ::
  "'o pg_query \<Rightarrow> keyset_paging \<Rightarrow> 'o pg_query" where
  "first_page_existing_sort_all_asc_query builder paging =
     first_page_existing_sort_query builder paging PG_ASC"

definition first_page_existing_sort_all_desc_query ::
  "'o pg_query \<Rightarrow> keyset_paging \<Rightarrow> 'o pg_query" where
  "first_page_existing_sort_all_desc_query builder paging =
     first_page_existing_sort_query builder paging PG_DESC"

definition first_page_existing_sort_mixed_query ::
  "'o pg_query \<Rightarrow> keyset_paging \<Rightarrow> 'o pg_query" where
  "first_page_existing_sort_mixed_query builder paging =
     first_page_existing_sort_query builder paging PG_ASC"

text \<open>The sort of the builder with the \<open>id\<close> as its last key.\<close>

definition paged_sort :: "'o pg_query \<Rightarrow> sort_direction \<Rightarrow> 'o sortby list" where
  "paged_sort query direction = sortby_list query @ [SortBy (column ''id'') (Some direction)]"

definition subsequent_page_existing_sort_all_asc_forwards_query ::
  "'o pg_query \<Rightarrow> keyset_paging \<Rightarrow> table_settings \<Rightarrow> 'o pg_query" where
  "subsequent_page_existing_sort_all_asc_forwards_query query paging settings =
     (let sorts = paged_sort query PG_ASC; expressions = map sortby_expression sorts
      in limit (Some (kp_item_count paging))
           (replace_order_by (map SortBySort sorts)
             (where_query [row_comparison_condition expressions PG_GREATER_THAN ''last'']
               (with_query (record_query (last_id_constant paging) expressions settings) ''last''
                 query))))"

definition subsequent_page_existing_sort_all_asc_backwards_query ::
  "'o pg_query \<Rightarrow> keyset_paging \<Rightarrow> table_settings \<Rightarrow> 'o pg_query" where
  "subsequent_page_existing_sort_all_asc_backwards_query query paging settings =
     (let sorts = paged_sort query PG_ASC;
          record_sort = map (\<lambda>s. SortBy (sortby_expression s) (Some PG_DESC)) sorts;
          expressions = map sortby_expression sorts
      in limit (Some (kp_item_count paging))
           (order_by (map SortBySort sorts)
             (from_subquery
               (limit (Some (kp_item_count paging))
                 (replace_order_by (map SortBySort record_sort)
                   (where_query [row_comparison_condition expressions PG_LESS_THAN ''last'']
                     query)))
               ''page''
               (select_all
                 (with_query (record_query (last_id_constant paging) expressions settings) ''last''
                   empty_query)))))"

definition subsequent_page_existing_sort_all_desc_forwards_query ::
  "'o pg_query \<Rightarrow> keyset_paging \<Rightarrow> table_settings \<Rightarrow> 'o pg_query" where
  "subsequent_page_existing_sort_all_desc_forwards_query query paging settings =
     (let sorts = paged_sort query PG_DESC; expressions = map sortby_expression sorts
      in limit (Some (kp_item_count paging))
           (replace_order_by (map SortBySort sorts)
             (where_query [row_comparison_condition expressions PG_LESS_THAN ''last'']
               (with_query (record_query (last_id_constant paging) expressions settings) ''last''
                 query))))"

definition subsequent_page_existing_sort_all_desc_backwards_query ::
  "'o pg_query \<Rightarrow> keyset_paging \<Rightarrow> table_settings \<Rightarrow> 'o pg_query" where
  "subsequent_page_existing_sort_all_desc_backwards_query query paging settings =
     (let sorts = paged_sort query PG_DESC;
          record_sort = map (\<lambda>s. SortBy (sortby_expression s) (Some PG_ASC)) sorts;
          expressions = map sortby_expression sorts
      in limit (Some (kp_item_count paging))
           (order_by (map SortBySort sorts)
             (from_subquery
               (limit (Some (kp_item_count paging))
                 (replace_order_by (map SortBySort record_sort)
                   (where_query [row_comparison_condition expressions PG_GREATER_THAN ''last'']
                     query)))
               ''page''
               (select_all
                 (with_query (record_query (last_id_constant paging) expressions settings) ''last''
                   empty_query)))))"

subsection \<open>clause.py: mixed sort directions\<close>

text \<open>\<open>hash(expression)\<close>\<close>

definition unhashable_type :: "'a res" where
  "unhashable_type = Inl (TypeError ''unhashable type'')"

primrec hash_expression :: "('o sql_value \<Rightarrow> bool) \<Rightarrow> 'o expression \<Rightarrow> unit res"
  and hash_condition :: "('o sql_value \<Rightarrow> bool) \<Rightarrow> 'o sql_condition \<Rightarrow> unit res"
  and hash_operand :: "('o sql_value \<Rightarrow> bool) \<Rightarrow> 'o operand \<Rightarrow> unit res" where
  "hash_expression hashable (FunctionApplication name arguments) = unhashable_type"
| "hash_expression hashable (Cast e typename) = hash_expression hashable e"
| "hash_expression hashable (ColumnReference schema table name) = Inr ()"
| "hash_expression hashable (Star schema table) = Inr ()"
| "hash_expression hashable (Constant v) = (if hashable v then Inr () else unhashable_type)"
| "hash_expression hashable (Raw s) = Inr ()"
| "hash_expression hashable (ConditionExpression c) = hash_condition hashable c"
| "hash_condition hashable (Condition l r op) =
     res_bind (case map_option (hash_operand hashable) l of Some h \<Rightarrow> h | None \<Rightarrow> Inr ()) (\<lambda>_.
       case map_option (hash_operand hashable) r of Some h \<Rightarrow> h | None \<Rightarrow> Inr ())"
| "hash_operand hashable (ExprOperand e) = hash_expression hashable e"
| "hash_operand hashable (ListOperand parts) = unhashable_type"
| "hash_operand hashable (QueryOperand q) = unhashable_type"

text \<open>\<open>{sortby.expression: operator for sortby in sorts}\<close>\<close>

definition sort_operators ::
  "('o sql_value \<Rightarrow> bool) \<Rightarrow> 'o sortby list \<Rightarrow> ('o expression, pg_operator) dict res" where
  "sort_operators hashable sorts =
     res_fold (\<lambda>s d.
         res_bind (hash_expression hashable (sortby_expression s)) (\<lambda>_.
         Inr (AList.update (sortby_expression s)
           (if sortby_direction s = Some PG_ASC then PG_GREATER_THAN else PG_LESS_THAN) d)))
       sorts []"

definition operator_for ::
  "('o expression, pg_operator) dict \<Rightarrow> 'o expression \<Rightarrow> pg_operator res" where
  "operator_for operators e =
     (case map_of operators e of Some op \<Rightarrow> Inr op | None \<Rightarrow> Inl (KeyError ''expression''))"

definition ordering_column_sets ::
  "('o expression, pg_operator) dict \<Rightarrow> 'o expression list
   \<Rightarrow> ('o expression \<times> pg_operator) list list res" where
  "ordering_column_sets operators expressions =
     res_map (\<lambda>i.
         res_map (\<lambda>j.
             if j < i - 1 then Inr (expressions ! j, PG_EQUALS)
             else res_bind (operator_for operators (expressions ! j)) (\<lambda>op. Inr (expressions ! j, op)))
           [0..<i])
       [1..<length expressions + 1]"

definition record_select_conditions ::
  "('o expression \<times> pg_operator) list \<Rightarrow> 'o sql_condition list" where
  "record_select_conditions ordering_column_set =
     map (\<lambda>(col, operator).
         with_right (QueryOperand (from_table ''last'' (select [ExprColumn col] empty_query)))
           (with_operator operator (with_left (ExprOperand col) empty_condition)))
       ordering_column_set"

definition record_select_query ::
  "'o pg_query \<Rightarrow> keyset_paging \<Rightarrow> 'o sortby list \<Rightarrow> 'o sql_condition list \<Rightarrow> 'o pg_query" where
  "record_select_query query paging sorts conditions =
     limit (Some (kp_item_count paging))
       (replace_order_by (map SortBySort sorts) (where_query conditions query))"

text \<open>\<open>Query.union(*queries, mode=ALL)\<close>: the first two arguments are positional.\<close>

definition union_all :: "'o pg_query list \<Rightarrow> 'o pg_query res" where
  "union_all queries =
     (case queries of
        query1 # query2 # more_queries \<Rightarrow> Inr (union_query query1 query2 more_queries QUANT_ALL)
      | _ \<Rightarrow> Inl (TypeError ''union() missing required positional argument''))"

definition subsequent_page_existing_sort_mixed_forwards_query ::
  "('o sql_value \<Rightarrow> bool) \<Rightarrow> 'o pg_query \<Rightarrow> keyset_paging \<Rightarrow> table_settings \<Rightarrow> 'o pg_query res" where
  "subsequent_page_existing_sort_mixed_forwards_query hashable query paging settings =
     (let sorts = paged_sort query PG_ASC; expressions = map sortby_expression sorts
      in res_bind (sort_operators hashable sorts) (\<lambda>operators.
         res_bind (ordering_column_sets operators expressions) (\<lambda>column_sets.
         res_bind
           (union_all
             (map (\<lambda>cs. record_select_query query paging sorts (record_select_conditions cs))
               column_sets)) (\<lambda>u.
         Inr (limit (Some (kp_item_count paging))
           (order_by (map SortBySort sorts)
             (with_query (record_query (last_id_constant paging) expressions settings) ''last''
               u)))))))"

definition subsequent_page_existing_sort_mixed_backwards_query ::
  "('o sql_value \<Rightarrow> bool) \<Rightarrow> 'o pg_query \<Rightarrow> keyset_paging \<Rightarrow> table_settings \<Rightarrow> 'o pg_query res" where
  "subsequent_page_existing_sort_mixed_backwards_query hashable query paging settings =
     (let sorts = paged_sort query PG_ASC; record_sort = map reverse_sortby sorts;
          expressions = map sortby_expression sorts
      in res_bind (sort_operators hashable record_sort) (\<lambda>operators.
         res_bind (ordering_column_sets operators expressions) (\<lambda>column_sets.
         res_bind
           (union_all
             (map (\<lambda>cs. record_select_query query paging record_sort (record_select_conditions cs))
               column_sets)) (\<lambda>u.
         Inr (limit (Some (kp_item_count paging))
           (order_by (map SortBySort sorts)
             (from_subquery
               (limit (Some (kp_item_count paging)) (order_by (map SortBySort record_sort) u))
               ''page''
               (select_all
                 (with_query (record_query (last_id_constant paging) expressions settings) ''last''
                   empty_query)))))))))"

definition keyset_applier ::
  "('o sql_value \<Rightarrow> bool) \<Rightarrow> keyset_paging \<Rightarrow> table_settings \<Rightarrow> 'o applier" where
  "keyset_applier hashable clause settings target =
     (let has_existing_sort = length (sortby_list target) > 0;
          all_sort_asc = list_all is_ascending (sortby_list target);
          all_sort_desc = list_all is_descending (sortby_list target)
      in if is_forwards clause then
           if has_existing_sort then
             if all_sort_asc then
               Inr (subsequent_page_existing_sort_all_asc_forwards_query target clause settings)
             else if all_sort_desc then
               Inr (subsequent_page_existing_sort_all_desc_forwards_query target clause settings)
             else
               subsequent_page_existing_sort_mixed_forwards_query hashable target clause settings
           else Inr (subsequent_page_no_sort_paging_forwards_query target clause)
         else if is_backwards clause then
           if has_existing_sort then
             if all_sort_asc then
               Inr (subsequent_page_existing_sort_all_asc_backwards_query target clause settings)
             else if all_sort_desc then
               Inr (subsequent_page_existing_sort_all_desc_backwards_query target clause settings)
             else
               subsequent_page_existing_sort_mixed_backwards_query hashable target clause settings
           else Inr (subsequent_page_no_sort_paging_backwards_query target clause)
         else
           if has_existing_sort then
             if all_sort_asc then Inr (first_page_existing_sort_all_asc_query target clause)
             else if all_sort_desc then Inr (first_page_existing_sort_all_desc_query target clause)
             else Inr (first_page_existing_sort_mixed_query target clause)
           else Inr (first_page_no_sort_query target clause))"

definition offset_applier :: "offset_paging \<Rightarrow> 'o applier" where
  "offset_applier clause target =
     (if op_page_number clause = 1 then Inr (limit (Some (op_item_count clause)) target)
      else Inr (offset (Some (paging_offset clause)) (limit (Some (op_item_count clause)) target)))"

subsection \<open>function.py, query.py\<close>

definition similarity_applier :: "string \<Rightarrow> path \<Rightarrow> string \<Rightarrow> 'o applier" where
  "similarity_applier name left right target =
     Inr (select
       [TargetColumn (ResultTarget
          (FunctionApplication ''similarity''
            [Cast (expression_for_path left None) ''text'', Constant (Plain (QVal (PyStr right)))])
          (Some name))] target)"

record ('o, 'u) pg_converter =
  pc_functions :: "(function_class, 'u query_function \<Rightarrow> 'o applier res) dict"
  pc_clauses :: "(clause_class,
    ('u query_function \<Rightarrow> 'o applier res) \<Rightarrow> ('o, 'u) clause \<Rightarrow> 'o applier res) dict"
  pc_queries :: "(query_class, (('o, 'u) clause \<Rightarrow> 'o applier res) \<Rightarrow> ('o, 'u) query
    \<Rightarrow> (sql \<times> 'o sql_value list) res) dict"
  pc_settings :: table_settings

definition pg_similarity_function_converter :: "'u query_function \<Rightarrow> 'o applier res" where
  "pg_similarity_function_converter f =
     (case f of
        Similarity name left right \<Rightarrow> Inr (similarity_applier name left right)
      | _ \<Rightarrow> Inl (AttributeError ''left''))"

definition pg_filter_clause_converter ::
  "'o ser_methods \<Rightarrow> (operator, pg_operator) dict \<Rightarrow> ('o, 'u) clause \<Rightarrow> 'o applier res" where
  "pg_filter_clause_converter ser operators c =
     (case c of
        FilterClause operator p v \<Rightarrow> Inr (filter_applier ser operators operator p v)
      | _ \<Rightarrow> Inl (AttributeError ''field''))"

definition pg_sort_clause_converter ::
  "('u query_function \<Rightarrow> 'o applier res) \<Rightarrow> ('o, 'u) clause \<Rightarrow> 'o applier res" where
  "pg_sort_clause_converter convert_fn c =
     (case c of
        SortClause fs \<Rightarrow>
          res_bind (res_map convert_fn
              (concat (map (\<lambda>f. case sf_field f of FunctionField fn \<Rightarrow> [fn] | _ \<Rightarrow> []) fs)))
            (\<lambda>appliers. Inr (combined_applier (appliers @ [sort_applier fs])))
      | _ \<Rightarrow> Inl (AttributeError ''fields''))"

definition pg_keyset_paging_converter ::
  "('o sql_value \<Rightarrow> bool) \<Rightarrow> table_settings \<Rightarrow> ('o, 'u) clause \<Rightarrow> 'o applier res" where
  "pg_keyset_paging_converter hashable settings c =
     (case c of
        KeySetPagingClause item \<Rightarrow> Inr (keyset_applier hashable item settings)
      | _ \<Rightarrow> Inl (AttributeError ''last_id''))"

definition pg_offset_paging_converter :: "('o, 'u) clause \<Rightarrow> 'o applier res" where
  "pg_offset_paging_converter c =
     (case c of
        OffsetPagingClause item \<Rightarrow> Inr (offset_applier item)
      | _ \<Rightarrow> Inl (AttributeError ''page_number''))"

definition apply_converted ::
  "(('o, 'u) clause \<Rightarrow> 'o applier res) \<Rightarrow> ('o, 'u) clause \<Rightarrow> 'o applier" where
  "apply_converted conv c builder = res_bind (conv c) (\<lambda>applier. applier builder)"

definition pg_search_query_converter ::
  "table_settings \<Rightarrow> (('o, 'u) clause \<Rightarrow> 'o applier res) \<Rightarrow> ('o, 'u) query
   \<Rightarrow> (sql \<times> 'o sql_value list) res" where
  "pg_search_query_converter settings conv item =
     (case item of
        Search filters sort_by paging \<Rightarrow>
          res_bind (res_fold (apply_converted conv) filters
            (from_table (table_name settings) (select_all empty_query))) (\<lambda>builder.
          res_bind (case sort_by of Some c \<Rightarrow> apply_converted conv c builder | None \<Rightarrow> Inr builder)
            (\<lambda>builder.
          res_bind (case paging of Some c \<Rightarrow> apply_converted conv c builder | None \<Rightarrow> Inr builder)
            build))
      | _ \<Rightarrow> Inl (AttributeError ''sort''))"

definition pg_lookup_query_converter ::
  "table_settings \<Rightarrow> (('o, 'u) clause \<Rightarrow> 'o applier res) \<Rightarrow> ('o, 'u) query
   \<Rightarrow> (sql \<times> 'o sql_value list) res" where
  "pg_lookup_query_converter settings conv item =
     (case item of
        Lookup filters \<Rightarrow>
          res_bind (res_fold (apply_converted conv) filters
            (from_table (table_name settings) (select_all empty_query))) build
      | _ \<Rightarrow> Inl (AttributeError ''filters''))"

definition pg_register_function_converter where
  "pg_register_function_converter k conv d =
     d\<lparr>pc_functions := AList.update k conv (pc_functions d)\<rparr>"

definition pg_register_clause_converter where
  "pg_register_clause_converter k conv d = d\<lparr>pc_clauses := AList.update k conv (pc_clauses d)\<rparr>"

definition pg_register_query_converter where
  "pg_register_query_converter k conv d = d\<lparr>pc_queries := AList.update k conv (pc_queries d)\<rparr>"

definition new_pg_converter :: "table_settings \<Rightarrow> ('o, 'u) pg_converter" where
  "new_pg_converter settings =
     \<lparr>pc_functions = [], pc_clauses = [], pc_queries = [], pc_settings = settings\<rparr>"

definition pg_with_default_function_converters ::
  "('o, 'u) pg_converter \<Rightarrow> ('o, 'u) pg_converter" where
  "pg_with_default_function_converters d =
     pg_register_function_converter Similarity_class pg_similarity_function_converter d"

definition pg_with_default_clause_converters ::
  "'o ser_methods \<Rightarrow> ('o sql_value \<Rightarrow> bool) \<Rightarrow> ('o, 'u) pg_converter \<Rightarrow> ('o, 'u) pg_converter" where
  "pg_with_default_clause_converters ser hashable d =
     pg_register_clause_converter OffsetPagingClause_class (\<lambda>_. pg_offset_paging_converter)
       (pg_register_clause_converter KeySetPagingClause_class
         (\<lambda>_. pg_keyset_paging_converter hashable (pc_settings d))
         (pg_register_clause_converter SortClause_class pg_sort_clause_converter
           (pg_register_clause_converter FilterClause_class
             (\<lambda>_. pg_filter_clause_converter ser default_operators) d)))"

definition pg_with_default_query_converters ::
  "('o, 'u) pg_converter \<Rightarrow> ('o, 'u) pg_converter" where
  "pg_with_default_query_converters d =
     pg_register_query_converter Lookup_class (pg_lookup_query_converter (pc_settings d))
       (pg_register_query_converter Search_class (pg_search_query_converter (pc_settings d)) d)"

definition pg_with_default_converters ::
  "'o ser_methods \<Rightarrow> ('o sql_value \<Rightarrow> bool) \<Rightarrow> ('o, 'u) pg_converter \<Rightarrow> ('o, 'u) pg_converter" where
  "pg_with_default_converters ser hashable d =
     pg_with_default_query_converters
       (pg_with_default_clause_converters ser hashable (pg_with_default_function_converters d))"

definition pg_convert_function ::
  "('o, 'u) pg_converter \<Rightarrow> 'u query_function \<Rightarrow> 'o applier res" where
  "pg_convert_function d f =
     res_bind (registry_lookup (pc_functions d) (function_class_of f)) (\<lambda>conv. conv f)"

definition pg_convert_clause :: "('o, 'u) pg_converter \<Rightarrow> ('o, 'u) clause \<Rightarrow> 'o applier res" where
  "pg_convert_clause d c =
     res_bind (registry_lookup (pc_clauses d) (clause_class_of c)) (\<lambda>conv.
       conv (pg_convert_function d) c)"

definition apply_clause :: "('o, 'u) pg_converter \<Rightarrow> ('o, 'u) clause \<Rightarrow> 'o applier" where
  "apply_clause d = apply_converted (pg_convert_clause d)"

definition pg_convert_query ::
  "('o, 'u) pg_converter \<Rightarrow> ('o, 'u) query \<Rightarrow> (sql \<times> 'o sql_value list) res" where
  "pg_convert_query d q =
     res_bind (registry_lookup (pc_queries d) (query_class_of q)) (\<lambda>conv.
       conv (pg_convert_clause d) q)"

definition default_pg_converter ::
  "'o ser_methods \<Rightarrow> ('o sql_value \<Rightarrow> bool) \<Rightarrow> table_settings \<Rightarrow> ('o, 'u) pg_converter" where
  "default_pg_converter ser hashable settings =
     pg_with_default_converters ser hashable (new_pg_converter settings)"

subsection \<open>Appliers keep a builder renderable\<close>

lemma expression_for_path_ok [simp]: "expression_ok (expression_for_path p op)"
  by (simp add: expression_for_path_def column_ok_def list_all_iff)

lemma expression_for_field_ok [simp]: "expression_ok (expression_for_field f op)"
  by (simp add: expression_for_field_def expression_for_function_def column_ok_def split: field.split)

lemma value_for_path_ok: "value_for_path ser v p op = Inr e \<Longrightarrow> expression_ok e"
  by (auto simp: value_for_path_def value_for_nested_path_def empty_expression_def Let_def
      split: if_splits qval.splits pyval.splits)

lemma res_map_results: "res_map f xs = Inr ys \<Longrightarrow> list_all2 (\<lambda>x y. f x = Inr y) xs ys"
  by (induction xs arbitrary: ys) auto

lemma res_map_in: "res_map f xs = Inr ys \<Longrightarrow> y \<in> set ys \<Longrightarrow> \<exists>x \<in> set xs. f x = Inr y"
  by (induction xs arbitrary: ys) auto

lemma filter_value_ok:
  assumes "filter_value ser p op v = Inr r"
  shows "operand_ok r"
proof (cases "multi_values v")
  case None
  then show ?thesis using assms by (auto simp: filter_value_def dest: value_for_path_ok)
next
  case (Some vs)
  then obtain es where es: "res_map (\<lambda>w. value_for_path ser w p op) vs = Inr es"
    and r: "r = ListOperand (map ExprOperand (filter (\<lambda>e. \<not> is_empty_expression e) es))"
    using assms by (auto simp: filter_value_def)
  from es have "list_all2 (\<lambda>w e. value_for_path ser w p op = Inr e) vs es"
    by (rule res_map_results)
  then have "list_all expression_ok es"
    by (induction rule: list_all2_induct) (auto dest: value_for_path_ok)
  then show ?thesis by (auto simp: r list_all_iff)
qed

lemma builder_ok [simp]:
  "query_ok empty_query"
  "query_ok (with_query query name q) \<longleftrightarrow> query_ok q \<and> query_ok query"
  "query_ok (select ts q) \<longleftrightarrow> query_ok q \<and> list_all (target_ok \<circ> to_result_target_or_star) ts"
  "query_ok (select_all q) \<longleftrightarrow> query_ok q"
  "query_ok (from_table tb q) \<longleftrightarrow> query_ok q"
  "query_ok (from_subquery query name q) \<longleftrightarrow> query_ok q \<and> query_ok query"
  "query_ok (where_query cs q) \<longleftrightarrow> query_ok q \<and> list_all condition_ok cs"
  "query_ok (order_by ss q) \<longleftrightarrow> query_ok q \<and> list_all (sortby_ok \<circ> to_sortby) ss"
  "query_ok (limit n q) \<longleftrightarrow> query_ok q"
  "query_ok (offset n q) \<longleftrightarrow> query_ok q"
  by (cases q; auto simp: column_ok_def empty_query_def list.pred_map o_def)+

lemma replace_order_by_ok:
  "query_ok q \<Longrightarrow> list_all (sortby_ok \<circ> to_sortby) ss \<Longrightarrow> query_ok (replace_order_by ss q)"
  by (cases q) (auto simp: list.pred_map o_def)

lemma sortby_list_ok: "query_ok q \<Longrightarrow> list_all sortby_ok (sortby_list q)"
  by (cases q) (auto simp: list.pred_map o_def)


lemma filter_applier_ok: "filter_applier ser ops op p v q = Inr q' \<Longrightarrow> query_ok q \<Longrightarrow> query_ok q'"
  by (auto simp: filter_applier_def empty_condition_def dest: filter_value_ok)

lemma sort_applier_ok: "sort_applier fs q = Inr q' \<Longrightarrow> query_ok q \<Longrightarrow> query_ok q'"
  by (auto simp: sort_applier_def pg_sortby_def list_all_iff)

lemma offset_applier_ok: "offset_applier c q = Inr q' \<Longrightarrow> query_ok q \<Longrightarrow> query_ok q'"
  by (auto simp: offset_applier_def split: if_splits)

lemma similarity_applier_ok: "similarity_applier n l r q = Inr q' \<Longrightarrow> query_ok q \<Longrightarrow> query_ok q'"
  by (auto simp: similarity_applier_def)

lemma paged_sort_ok:
  "query_ok q \<Longrightarrow> list_all sortby_ok (paged_sort q d)"
  "query_ok q \<Longrightarrow> list_all (sortby_ok \<circ> to_sortby) (map SortBySort (paged_sort q d))"
  "query_ok q \<Longrightarrow> list_all expression_ok (map sortby_expression (paged_sort q d))"
  "query_ok q \<Longrightarrow> list_all (sortby_ok \<circ> to_sortby)
     (map SortBySort (map (\<lambda>s. SortBy (sortby_expression s) d') (paged_sort q d)))"
  "query_ok q \<Longrightarrow> list_all (sortby_ok \<circ> to_sortby)
     (map SortBySort (map reverse_sortby (paged_sort q d)))"
proof -
  assume "query_ok q"
  then have all: "list_all sortby_ok (paged_sort q d)"
    by (simp add: sortby_list_ok paged_sort_def column_ok_def)
  have ok: "expression_ok (sortby_expression s) \<longleftrightarrow> sortby_ok s" for s :: "'a sortby"
    by (cases s) simp
  show "list_all sortby_ok (paged_sort q d)"
    "list_all (sortby_ok \<circ> to_sortby) (map SortBySort (paged_sort q d))"
    "list_all expression_ok (map sortby_expression (paged_sort q d))"
    "list_all (sortby_ok \<circ> to_sortby)
       (map SortBySort (map (\<lambda>s. SortBy (sortby_expression s) d') (paged_sort q d)))"
    "list_all (sortby_ok \<circ> to_sortby) (map SortBySort (map reverse_sortby (paged_sort q d)))"
    using all by (simp_all add: list.pred_map o_def ok reverse_sortby_def)
qed

lemma condition_builders_ok [simp]:
  "condition_ok (field_comparison_condition e op v) \<longleftrightarrow> expression_ok e \<and> expression_ok v"
  "condition_ok (row_comparison_condition es op t) \<longleftrightarrow> list_all expression_ok es"
  by (auto simp: field_comparison_condition_def row_comparison_condition_def empty_condition_def
      list.pred_map o_def)

lemma last_id_ok [simp]: "expression_ok (last_id_constant paging)"
  by (simp add: last_id_constant_def)

lemma record_query_ok [simp]:
  "query_ok (record_query v es st) \<longleftrightarrow> expression_ok v \<and> list_all expression_ok es"
  by (auto simp: record_query_def list.pred_map o_def column_ok_def)

lemma record_select_query_ok:
  assumes "query_ok q" "list_all (sortby_ok \<circ> to_sortby) (map SortBySort sorts)"
    "list_all (expression_ok \<circ> fst) cs"
  shows "query_ok (record_select_query q paging sorts (record_select_conditions cs))"
proof -
  have "list_all condition_ok (record_select_conditions cs)"
    using assms(3) by (auto simp: record_select_conditions_def empty_condition_def list_all_iff)
  then show ?thesis using assms
    by (simp add: record_select_query_def replace_order_by_ok)
qed

lemma ordering_column_sets_ok:
  assumes "ordering_column_sets d es = Inr css" "list_all expression_ok es"
  shows "list_all (list_all (expression_ok \<circ> fst)) css"
proof -
  have "expression_ok (fst c)" if "cs \<in> set css" "c \<in> set cs" for cs c
  proof -
    from res_map_in [OF assms(1) [unfolded ordering_column_sets_def] that(1)]
    obtain i where "i \<in> set [1..<length es + 1]"
      and cs: "res_map (\<lambda>j. if j < i - 1 then Inr (es ! j, PG_EQUALS)
        else res_bind (operator_for d (es ! j)) (\<lambda>op. Inr (es ! j, op))) [0..<i] = Inr cs"
      by blast
    then have i: "i \<le> length es" by (simp only: set_upt) simp
    from res_map_in [OF cs that(2)] obtain j where "j < i" "fst c = es ! j"
      by (auto split: if_splits)
    with i assms(2) show ?thesis by (auto simp: list_all_iff)
  qed
  then show ?thesis by (auto simp: list_all_iff)
qed

lemma union_all_ok: "union_all qs = Inr u \<Longrightarrow> list_all query_ok qs \<Longrightarrow> query_ok u"
  by (auto simp: union_all_def union_query_def list_all_iff split: list.splits)

lemma mixed_union_ok:
  assumes "ordering_column_sets d (map sortby_expression (paged_sort q dir)) = Inr css"
    and "union_all (map (\<lambda>cs. record_select_query q paging sorts (record_select_conditions cs)) css) = Inr u"
    and "query_ok q" "list_all (sortby_ok \<circ> to_sortby) (map SortBySort sorts)"
  shows "query_ok u"
  by (rule union_all_ok [OF assms(2)])
    (use ordering_column_sets_ok [OF assms(1) paged_sort_ok(3)] assms(3,4) in
      \<open>auto simp: list_all_iff [of query_ok] list_all_iff [of "list_all _"] intro: record_select_query_ok\<close>)

lemma keyset_pages_ok:
  assumes "query_ok q"
  shows "query_ok (subsequent_page_existing_sort_all_asc_forwards_query q c st)"
    "query_ok (subsequent_page_existing_sort_all_desc_forwards_query q c st)"
    "query_ok (subsequent_page_existing_sort_all_asc_backwards_query q c st)"
    "query_ok (subsequent_page_existing_sort_all_desc_backwards_query q c st)"
    "query_ok (subsequent_page_no_sort_row_selection_query q c)"
    "query_ok (subsequent_page_no_sort_paging_backwards_query q c)"
    "query_ok (first_page_existing_sort_query q c dir)"
    "query_ok (first_page_no_sort_query q c)"
  using assms paged_sort_ok [OF assms]
  by (simp_all add: subsequent_page_existing_sort_all_asc_forwards_query_def
      subsequent_page_existing_sort_all_desc_forwards_query_def
      subsequent_page_existing_sort_all_asc_backwards_query_def
      subsequent_page_existing_sort_all_desc_backwards_query_def
      subsequent_page_no_sort_paging_backwards_query_def
      subsequent_page_no_sort_row_selection_query_def
      first_page_existing_sort_query_def first_page_no_sort_query_def column_ok_def
      paged_sort_def [symmetric] replace_order_by_ok Let_def
      del: map_map list.map_comp)

lemma keyset_mixed_pages_ok:
  assumes "query_ok q"
  shows "subsequent_page_existing_sort_mixed_forwards_query hashable q c st = Inr q' \<Longrightarrow> query_ok q'"
    "subsequent_page_existing_sort_mixed_backwards_query hashable q c st = Inr q' \<Longrightarrow> query_ok q'"
  using assms paged_sort_ok [OF assms]
  by (auto simp: subsequent_page_existing_sort_mixed_forwards_query_def
      subsequent_page_existing_sort_mixed_backwards_query_def Let_def
      simp del: map_map list.map_comp dest: mixed_union_ok)

lemmas keyset_page_wrappers =
  subsequent_page_no_sort_paging_forwards_query_def first_page_existing_sort_all_asc_query_def
  first_page_existing_sort_all_desc_query_def first_page_existing_sort_mixed_query_def

lemma keyset_applier_ok:
  assumes "keyset_applier hashable c st q = Inr q'" "query_ok q"
  shows "query_ok q'"
  using assms(1) keyset_pages_ok [OF assms(2)] keyset_mixed_pages_ok [OF assms(2)]
  unfolding keyset_applier_def Let_def
  by (auto simp: keyset_page_wrappers split: if_splits)


lemma default_pg_clauses:
  "pg_convert_clause (default_pg_converter ser hashable settings) (FilterClause op p v)
     = Inr (filter_applier ser default_operators op p v)"
  "pg_convert_clause (default_pg_converter ser hashable settings) (SortClause fs)
     = pg_sort_clause_converter (pg_convert_function (default_pg_converter ser hashable settings))
         (SortClause fs)"
  "pg_convert_clause (default_pg_converter ser hashable settings) (KeySetPagingClause k)
     = Inr (keyset_applier hashable k settings)"
  "pg_convert_clause (default_pg_converter ser hashable settings) (OffsetPagingClause w)
     = Inr (offset_applier w)"
  "pg_convert_clause (default_pg_converter ser hashable settings) (UserClause u)
     = Inl (ValueError ''No converter registered for type'')"
  "pg_convert_function (default_pg_converter ser hashable settings) (Similarity n l r)
     = Inr (similarity_applier n l r)"
  "pg_convert_function (default_pg_converter ser hashable settings) (UserFunction n u)
     = Inl (ValueError ''No converter registered for type'')"
  "pg_convert_query (default_pg_converter ser hashable settings) (Search filters so pa)
     = pg_search_query_converter settings
         (pg_convert_clause (default_pg_converter ser hashable settings)) (Search filters so pa)"
  "pg_convert_query (default_pg_converter ser hashable settings) (Lookup filters)
     = pg_lookup_query_converter settings
         (pg_convert_clause (default_pg_converter ser hashable settings)) (Lookup filters)"
  by (simp_all add: pg_convert_clause_def pg_convert_function_def pg_convert_query_def
      default_pg_converter_def pg_with_default_converters_def pg_with_default_query_converters_def
      pg_with_default_clause_converters_def pg_with_default_function_converters_def
      pg_register_query_converter_def pg_register_clause_converter_def
      pg_register_function_converter_def new_pg_converter_def registry_lookup_def
      pg_filter_clause_converter_def pg_keyset_paging_converter_def pg_offset_paging_converter_def
      pg_similarity_function_converter_def)

lemma combined_applier_ok:
  assumes "combined_applier appliers q = Inr q'" "query_ok q"
    and "\<And>a q q'. a \<in> set appliers \<Longrightarrow> a q = Inr q' \<Longrightarrow> query_ok q \<Longrightarrow> query_ok q'"
  shows "query_ok q'"
  using assms unfolding combined_applier_def
proof (induction appliers arbitrary: q)
  case (Cons a appliers)
  then obtain q1 where "a q = Inr q1" "res_fold (\<lambda>applier t. applier t) appliers q1 = Inr q'"
    by auto
  moreover have "query_ok q1" using Cons.prems(2,3) \<open>a q = Inr q1\<close> by auto
  ultimately show ?case using Cons.IH [of q1] Cons.prems(3) by (metis list.set_intros(2))
qed simp

lemma function_applier_ok:
  assumes "pg_convert_function (default_pg_converter ser hashable settings) f = Inr a"
    "a q = Inr q'" "query_ok q"
  shows "query_ok q'"
  using assms
  by (cases f) (auto simp: default_pg_clauses dest: similarity_applier_ok)

lemma apply_clause_ok:
  assumes "apply_clause (default_pg_converter ser hashable settings) c q = Inr q'" "query_ok q"
  shows "query_ok q'"
proof (cases c)
  case (SortClause fs)
  let ?convert = "pg_convert_function (default_pg_converter ser hashable settings)"
  from assms(1) SortClause obtain appliers where
    appliers: "res_map ?convert
        (concat (map (\<lambda>f. case sf_field f of FunctionField fn \<Rightarrow> [fn] | _ \<Rightarrow> []) fs)) = Inr appliers"
    and applied: "combined_applier (appliers @ [sort_applier fs]) q = Inr q'"
    by (auto simp: apply_clause_def apply_converted_def default_pg_clauses
        pg_sort_clause_converter_def)
  show ?thesis
  proof (rule combined_applier_ok [OF applied assms(2)])
    fix a q q' assume "a \<in> set (appliers @ [sort_applier fs])" "a q = Inr q'" "query_ok q"
    then show "query_ok q'"
      by (auto dest: sort_applier_ok res_map_in [OF appliers] intro: function_applier_ok)
  qed
qed (use assms in
    \<open>auto simp: apply_clause_def apply_converted_def default_pg_clauses
      dest: filter_applier_ok keyset_applier_ok offset_applier_ok\<close>)

lemma apply_clauses_ok:
  assumes "res_fold (apply_clause (default_pg_converter ser hashable settings)) cs q = Inr q'"
    and "query_ok q"
  shows "query_ok q'"
  using assms by (induction cs arbitrary: q) (auto dest: apply_clause_ok)

definition base_query :: "table_settings \<Rightarrow> 'o pg_query" where
  "base_query settings = from_table (table_name settings) (select_all empty_query)"

definition search_clauses ::
  "('o, 'u) clause list \<Rightarrow> ('o, 'u) clause option \<Rightarrow> ('o, 'u) clause option \<Rightarrow> ('o, 'u) clause list" where
  "search_clauses filters sort_by paging =
     filters @ (case sort_by of Some c \<Rightarrow> [c] | None \<Rightarrow> [])
     @ (case paging of Some c \<Rightarrow> [c] | None \<Rightarrow> [])"

lemma convert_search_fold:
  "pg_convert_query (default_pg_converter ser hashable settings) (Search filters sort_by paging) =
     res_bind (res_fold (apply_clause (default_pg_converter ser hashable settings))
       (search_clauses filters sort_by paging) (base_query settings)) build"
  by (cases sort_by; cases paging)
    (simp_all add: default_pg_clauses pg_search_query_converter_def base_query_def
      search_clauses_def res_fold_append apply_clause_def res_bind_assoc)

text \<open>
  Converting a search with the default converter applies its filters, its sort and its
  paging, in that order, to \<open>SELECT * FROM table\<close>. If a clause raises, so does the conversion,
  with the same error; otherwise the conversion returns, and its SQL text and parameters are
  those of the inline rendering of the built query: no combination of clauses produces a query
  that cannot be rendered, or one whose parameters are out of step with its placeholders.
\<close>

lemma search_conversion:
  "case res_fold (apply_clause (default_pg_converter ser hashable settings))
          (search_clauses filters sort_by paging) (base_query settings) of
     Inl e \<Rightarrow>
       pg_convert_query (default_pg_converter ser hashable settings) (Search filters sort_by paging)
       = Inl e
   | Inr q \<Rightarrow>
       (\<exists>s. pg_convert_query (default_pg_converter ser hashable settings)
              (Search filters sort_by paging) = Inr (s, bound_values (inline_query q))
            \<and> (\<forall>quote. as_string quote s = token_text quote (inline_query q)))"
proof (cases "res_fold (apply_clause (default_pg_converter ser hashable settings))
          (search_clauses filters sort_by paging) (base_query settings)")
  case (Inr q)
  moreover have "query_ok q" using apply_clauses_ok [OF Inr] by (simp add: base_query_def)
  ultimately show ?thesis using build_renderable by (simp add: convert_search_fold)
qed (simp add: convert_search_fold)

end
