(* ===== verification/Postgres_Paging.thy ===== *)
theory Postgres_Paging
  imports Postgres_Converters
begin

section \<open>Keyset paging in SQL\<close>

text \<open>
  What the page queries of \<open>persistence/postgres/converters/clause.py\<close> select: every row after
  (or before) the row with the last id exactly once, for any mixture of sort directions; and
  the sorts for which the conversion goes wrong, by a nested path or by \<open>id\<close> itself.
\<close>

subsection \<open>What a keyset page selects\<close>

text \<open>
  The conditions a page query adds compare the sort columns of a candidate row with those of
  the row with the last id. \<open>cmp\<close> gives the outcome of these comparisons, column by column;
  rows are compared by the first column in which they differ. \<open>condition_holds\<close> evaluates the
  three shapes of condition the page queries use, and only when their right-hand side really is
  the last id, the same column of the last row, or the whole last row.
\<close>

datatype ordering = LT | EQ | GT

fun row_order :: "('o expression \<Rightarrow> ordering) \<Rightarrow> 'o expression list \<Rightarrow> ordering" where
  "row_order cmp [] = EQ"
| "row_order cmp (e # es) = (if cmp e = EQ then row_order cmp es else cmp e)"

fun op_holds :: "pg_operator \<Rightarrow> ordering \<Rightarrow> bool" where
  "op_holds PG_EQUALS r = (r = EQ)"
| "op_holds PG_GREATER_THAN r = (r = GT)"
| "op_holds PG_LESS_THAN r = (r = LT)"
| "op_holds _ r = False"

fun operand_columns :: "'o operand list \<Rightarrow> 'o expression list" where
  "operand_columns (ExprOperand e # ps) = e # operand_columns ps"
| "operand_columns _ = []"

fun condition_holds :: "keyset_paging \<Rightarrow> ('o expression \<Rightarrow> ordering) \<Rightarrow> 'o sql_condition \<Rightarrow> bool" where
  "condition_holds paging cmp (Condition (Some (ExprOperand e)) (Some (ExprOperand v)) (Some op)) =
     (e = column ''id'' \<and> v = last_id_constant paging \<and> op_holds op (cmp e))"
| "condition_holds paging cmp (Condition (Some (ExprOperand e)) (Some (QueryOperand q)) (Some op)) =
     (q = from_table ''last'' (select [ExprColumn e] empty_query) \<and> op_holds op (cmp e))"
| "condition_holds paging cmp (Condition (Some (ListOperand ps)) (Some (QueryOperand q)) (Some op)) =
     (q = from_table ''last'' (select_all empty_query) \<and> op_holds op (row_order cmp (operand_columns ps)))"
| "condition_holds paging cmp _ = False"

text \<open>
  The queries that select rows in a page query: those of its union, or of the union in its
  subquery, or the subquery, or itself. \<open>selections\<close> counts those that select the row, given
  that the row satisfies the first \<open>k\<close> conditions, which are the filters.
\<close>

definition page_core :: "'o pg_query \<Rightarrow> 'o pg_query" where
  "page_core q = (case from_subqueries q of [(page, _)] \<Rightarrow> page | _ \<Rightarrow> q)"

definition page_branches :: "'o pg_query \<Rightarrow> 'o pg_query list" where
  "page_branches q = (case unions (page_core q) of Some (qs, _) \<Rightarrow> qs | None \<Rightarrow> [page_core q])"

definition selections ::
  "keyset_paging \<Rightarrow> ('o expression \<Rightarrow> ordering) \<Rightarrow> nat \<Rightarrow> 'o pg_query \<Rightarrow> nat" where
  "selections paging cmp k q =
     length (filter (\<lambda>b. list_all (condition_holds paging cmp) (drop k (where_conditions b)))
       (page_branches q))"

text \<open>A row comes after, or before, the last row in a sort order.\<close>

fun follows :: "('o expression \<Rightarrow> ordering) \<Rightarrow> 'o sortby list \<Rightarrow> bool" where
  "follows cmp [] = False"
| "follows cmp (s # ss) =
     (case cmp (sortby_expression s) of
        EQ \<Rightarrow> follows cmp ss | GT \<Rightarrow> is_ascending s | LT \<Rightarrow> \<not> is_ascending s)"

fun precedes :: "('o expression \<Rightarrow> ordering) \<Rightarrow> 'o sortby list \<Rightarrow> bool" where
  "precedes cmp [] = False"
| "precedes cmp (s # ss) =
     (case cmp (sortby_expression s) of
        EQ \<Rightarrow> precedes cmp ss | LT \<Rightarrow> is_ascending s | GT \<Rightarrow> \<not> is_ascending s)"

definition page_order :: "'o pg_query \<Rightarrow> 'o sortby list" where
  "page_order target =
     paged_sort target
       (if list_all is_ascending (sortby_list target) then PG_ASC
        else if list_all is_descending (sortby_list target) then PG_DESC else PG_ASC)"

definition sort_keys :: "'o sortby list \<Rightarrow> ('o expression \<times> bool) list" where
  "sort_keys ss = map (\<lambda>s. (sortby_expression s, is_ascending s)) ss"

definition reversed_keys :: "'o sortby list \<Rightarrow> ('o expression \<times> bool) list" where
  "reversed_keys ss = map (\<lambda>s. (sortby_expression s, \<not> is_ascending s)) ss"

lemma row_order_asc:
  assumes "list_all is_ascending ss"
  shows "row_order cmp (map sortby_expression ss) = GT \<longleftrightarrow> follows cmp ss"
    "row_order cmp (map sortby_expression ss) = LT \<longleftrightarrow> precedes cmp ss"
  using assms by (induction ss) (auto split: ordering.splits)

lemma row_order_desc:
  assumes "list_all is_descending ss"
  shows "row_order cmp (map sortby_expression ss) = LT \<longleftrightarrow> follows cmp ss"
    "row_order cmp (map sortby_expression ss) = GT \<longleftrightarrow> precedes cmp ss"
  using assms
  by (induction ss) (auto simp: is_descending_def is_ascending_def split: ordering.splits)

lemma operand_columns_map [simp]: "operand_columns (map ExprOperand es) = es"
  by (induction es) auto

lemma row_condition_holds [simp]:
  "condition_holds paging cmp (row_comparison_condition es op ''last'')
     \<longleftrightarrow> op_holds op (row_order cmp es)"
  by (simp add: row_comparison_condition_def empty_condition_def)

lemma id_condition_holds [simp]:
  "condition_holds paging cmp (field_comparison_condition (column ''id'') op (last_id_constant paging))
     \<longleftrightarrow> op_holds op (cmp (column ''id''))"
  by (simp add: field_comparison_condition_def empty_condition_def)

lemma select_conditions_hold:
  "list_all (condition_holds paging cmp) (record_select_conditions cs)
     \<longleftrightarrow> list_all (\<lambda>(e, op). op_holds op (cmp e)) cs"
  by (induction cs) (auto simp: record_select_conditions_def empty_condition_def)

text \<open>The sets of conditions of the mixed case, one per sort key.\<close>

fun column_sets :: "('e \<times> pg_operator) list \<Rightarrow> ('e \<times> pg_operator) list list" where
  "column_sets [] = []"
| "column_sets ((e, op) # cs) = [(e, op)] # map (\<lambda>c. (e, PG_EQUALS) # c) (column_sets cs)"

lemma column_sets_upt:
  "map (\<lambda>i. map (\<lambda>j. (es ! j, if j < i - 1 then PG_EQUALS else f (es ! j))) [0..<i])
     [1..<length es + 1] = column_sets (map (\<lambda>e. (e, f e)) es)"
proof (induction es)
  case (Cons e es)
  have outer: "[1..<length (e # es) + 1] = 1 # map Suc [1..<length es + 1]"
    by (simp add: map_Suc_upt upt_conv_Cons del: upt_Suc)
  have inner: "map (\<lambda>j. ((e # es) ! j, if j < Suc i - 1 then PG_EQUALS else f ((e # es) ! j))) [0..<Suc i]
      = (e, PG_EQUALS) # map (\<lambda>j. (es ! j, if j < i - 1 then PG_EQUALS else f (es ! j))) [0..<i]"
    if "i \<in> set [1..<length es + 1]" for i
  proof -
    have "[0..<Suc i] = 0 # map Suc [0..<i]" by (simp add: map_Suc_upt upt_conv_Cons del: upt_Suc)
    moreover have "i > 0" using that by (simp del: upt_Suc)
    ultimately show ?thesis by (auto simp: o_def simp del: upt_Suc)
  qed
  show ?case
    unfolding outer using inner Cons.IH [symmetric]
    by (simp add: o_def upt_conv_Cons [of 0 "Suc 0"] del: upt_Suc)
qed simp

lemma ordering_column_sets_eq:
  assumes "\<And>e. e \<in> set es \<Longrightarrow> map_of d e = Some (f e)"
  shows "ordering_column_sets d es = Inr (column_sets (map (\<lambda>e. (e, f e)) es))"
proof -
  have "ordering_column_sets d es = Inr (map (\<lambda>i. map (\<lambda>j. (es ! j, if j < i - 1 then PG_EQUALS
      else f (es ! j))) [0..<i]) [1..<length es + 1])"
    unfolding ordering_column_sets_def
  proof (rule res_map_all_Inr, rule res_map_all_Inr)
    fix i j assume "i \<in> set [1..<length es + 1]" "j \<in> set [0..<i]"
    then have "es ! j \<in> set es" by (simp del: upt_Suc)
    then show "(if j < i - 1 then Inr (es ! j, PG_EQUALS)
         else res_bind (operator_for d (es ! j)) (\<lambda>op. Inr (es ! j, op)))
       = Inr (es ! j, if j < i - 1 then PG_EQUALS else f (es ! j))"
      using assms by (simp add: operator_for_def)
  qed
  then show ?thesis by (simp only: column_sets_upt)
qed

definition key_operator :: "'o sortby \<Rightarrow> pg_operator" where
  "key_operator s = (if sortby_direction s = Some PG_ASC then PG_GREATER_THAN else PG_LESS_THAN)"

lemma sort_operators_fold:
  assumes "\<forall>s \<in> set ss. hash_expression hashable (sortby_expression s) = Inr ()"
    and "distinct (map sortby_expression ss)"
  shows "\<exists>d. sort_operators hashable ss = Inr d
    \<and> (\<forall>s \<in> set ss. map_of d (sortby_expression s) = Some (key_operator s))"
proof -
  have "\<exists>d'. res_fold (\<lambda>s d. res_bind (hash_expression hashable (sortby_expression s)) (\<lambda>_.
         Inr (AList.update (sortby_expression s)
           (if sortby_direction s = Some PG_ASC then PG_GREATER_THAN else PG_LESS_THAN) d))) ss d = Inr d'
     \<and> (\<forall>s \<in> set ss. map_of d' (sortby_expression s) = Some (key_operator s))
     \<and> (\<forall>e. e \<notin> sortby_expression ` set ss \<longrightarrow> map_of d' e = map_of d e)" for d
    using assms
  proof (induction ss arbitrary: d)
    case (Cons s ss)
    let ?d = "AList.update (sortby_expression s)
      (if sortby_direction s = Some PG_ASC then PG_GREATER_THAN else PG_LESS_THAN) d"
    from Cons.IH [of ?d] Cons.prems obtain d' where
      "res_fold (\<lambda>s d. res_bind (hash_expression hashable (sortby_expression s)) (\<lambda>_.
         Inr (AList.update (sortby_expression s)
           (if sortby_direction s = Some PG_ASC then PG_GREATER_THAN else PG_LESS_THAN) d))) ss ?d = Inr d'"
      "\<forall>s \<in> set ss. map_of d' (sortby_expression s) = Some (key_operator s)"
      "\<forall>e. e \<notin> sortby_expression ` set ss \<longrightarrow> map_of d' e = map_of ?d e" by auto
    with Cons.prems show ?case by (intro exI [of _ d']) (auto simp: key_operator_def)
  qed simp
  then show ?thesis unfolding sort_operators_def by blast
qed


lemma mixed_columns:
  assumes "\<forall>s \<in> set ss. hash_expression hashable (sortby_expression s) = Inr ()"
    and "distinct (map sortby_expression ss)" and "map sortby_expression ss = es"
  shows "\<exists>d. sort_operators hashable ss = Inr d
    \<and> ordering_column_sets d es = Inr (column_sets (map (\<lambda>s. (sortby_expression s, key_operator s)) ss))"
proof -
  obtain d where d: "sort_operators hashable ss = Inr d"
    "\<And>s. s \<in> set ss \<Longrightarrow> map_of d (sortby_expression s) = Some (key_operator s)"
    using sort_operators_fold [OF assms(1,2)] by blast
  have "ordering_column_sets d es = Inr (column_sets (map (\<lambda>e. (e, the (map_of d e))) es))"
    by (rule ordering_column_sets_eq) (use d(2) assms(3) in auto)
  moreover have "map (\<lambda>e. (e, the (map_of d e))) es = map (\<lambda>s. (sortby_expression s, key_operator s)) ss"
    using d(2) assms(3) by auto
  ultimately show ?thesis using d(1) by metis
qed

lemma column_sets_count:
  assumes "\<forall>s \<in> set ss. sortby_direction s \<noteq> None"
  shows "length (filter (list_all (\<lambda>(e, op). op_holds op (cmp e)))
      (column_sets (map (\<lambda>s. (sortby_expression s, key_operator s)) ss)))
    = (if follows cmp ss then 1 else 0)"
  using assms
proof (induction ss)
  case (Cons s ss)
  let ?P = "list_all (\<lambda>(e, op). op_holds op (cmp e))"
  let ?sets = "column_sets (map (\<lambda>s. (sortby_expression s, key_operator s)) ss)"
  have "filter ?P (map (\<lambda>c. (sortby_expression s, PG_EQUALS) # c) ?sets)
      = (if cmp (sortby_expression s) = EQ
         then map (\<lambda>c. (sortby_expression s, PG_EQUALS) # c) (filter ?P ?sets) else [])"
    by (simp add: filter_map o_def)
  moreover have "op_holds (key_operator s) (cmp (sortby_expression s)) \<longleftrightarrow>
      cmp (sortby_expression s) = (if is_ascending s then GT else LT)"
    using Cons.prems by (auto simp: key_operator_def is_ascending_def)
  ultimately show ?case using Cons by (auto split: ordering.splits)
qed simp

lemma reverse_sortby_simps [simp]:
  "sortby_expression (reverse_sortby s) = sortby_expression s"
  "sortby_direction (reverse_sortby s) = map_option reverse_direction (sortby_direction s)"
  by (simp_all add: reverse_sortby_def)

lemma reverse_ascending:
  "sortby_direction s \<noteq> None \<Longrightarrow> is_ascending (reverse_sortby s) \<longleftrightarrow> \<not> is_ascending s"
  by (auto simp: is_ascending_def reverse_direction_def) (metis sort_direction.exhaust)

lemma follows_reversed:
  assumes "\<forall>s \<in> set ss. sortby_direction s \<noteq> None"
  shows "follows cmp (map reverse_sortby ss) \<longleftrightarrow> precedes cmp ss"
  using assms by (induction ss) (auto simp: reverse_ascending split: ordering.splits)

lemma column_sets_length [simp]: "length (column_sets cs) = length cs"
  by (induction cs rule: column_sets.induct) auto

lemma record_select_query_parts [simp]:
  "where_conditions (record_select_query q paging ss cs) = where_conditions q @ cs"
  "sortby_list (record_select_query q paging ss cs) = ss"
  "limit_value (record_select_query q paging ss cs) = Some (kp_item_count paging)"
  by (cases q; simp add: record_select_query_def o_def)+

lemma union_all_two:
  assumes "2 \<le> length qs"
  shows "union_all qs = Inr (Query [] (Some (qs, QUANT_ALL)) [] [] [] [] [] None None)"
proof -
  obtain q1 qs' where "qs = q1 # qs'" using assms by (cases qs) auto
  moreover obtain q2 more where "qs' = q2 # more" using assms calculation by (cases qs') auto
  ultimately show ?thesis by (simp add: union_all_def union_query_def)
qed

lemma mixed_union:
  assumes "\<forall>s \<in> set ss. hash_expression hashable (sortby_expression s) = Inr ()"
    and "distinct (map sortby_expression ss)" and "map sortby_expression ss = es"
    and "\<forall>s \<in> set ss. sortby_direction s \<noteq> None" and "2 \<le> length ss"
  shows "\<exists>d css qs. sort_operators hashable ss = Inr d \<and> ordering_column_sets d es = Inr css
    \<and> union_all (map (\<lambda>cs. record_select_query q paging ss (record_select_conditions cs)) css)
        = Inr (Query [] (Some (qs, QUANT_ALL)) [] [] [] [] [] None None)
    \<and> length (filter (\<lambda>b. list_all (condition_holds paging cmp)
          (drop (length (where_conditions q)) (where_conditions b))) qs)
        = (if follows cmp ss then 1 else 0)
    \<and> (\<forall>b \<in> set qs. sortby_list b = ss \<and> limit_value b = Some (kp_item_count paging))"
proof -
  let ?css = "column_sets (map (\<lambda>s. (sortby_expression s, key_operator s)) ss)"
  let ?qs = "map (\<lambda>cs. record_select_query q paging ss (record_select_conditions cs)) ?css"
  obtain d where d: "sort_operators hashable ss = Inr d" "ordering_column_sets d es = Inr ?css"
    using mixed_columns [OF assms(1-3)] by blast
  have "union_all ?qs = Inr (Query [] (Some (?qs, QUANT_ALL)) [] [] [] [] [] None None)"
    by (rule union_all_two) (use assms(5) in simp)
  moreover have "length (filter (\<lambda>b. list_all (condition_holds paging cmp)
          (drop (length (where_conditions q)) (where_conditions b))) ?qs)
        = (if follows cmp ss then 1 else 0)"
    using column_sets_count [OF assms(4)] by (simp add: filter_map o_def select_conditions_hold)
  ultimately show ?thesis using d
    by (intro exI [of _ d] exI [of _ ?css] exI [of _ ?qs]) auto
qed


definition selects_neighbours ::
  "keyset_paging \<Rightarrow> ('o expression \<Rightarrow> ordering) \<Rightarrow> nat \<Rightarrow> 'o sortby list \<Rightarrow> bool \<Rightarrow> 'o pg_query \<Rightarrow> bool" where
  "selects_neighbours paging cmp k order forwards q \<longleftrightarrow>
     selections paging cmp k q
       = (if (if forwards then follows cmp order else precedes cmp order) then 1 else 0)
     \<and> (\<forall>b \<in> set (page_branches q). limit_value b = Some (kp_item_count paging)
          \<and> sort_keys (sortby_list b) = (if forwards then sort_keys order else reversed_keys order))
     \<and> sort_keys (sortby_list q) = sort_keys order
     \<and> limit_value q = Some (kp_item_count paging)"

lemmas neighbour_defs = selects_neighbours_def selections_def page_branches_def page_core_def

lemma reversed_uniform:
  "list_all is_ascending ss
   \<Longrightarrow> sort_keys (map (\<lambda>s. SortBy (sortby_expression s) (Some PG_DESC)) ss) = reversed_keys ss"
  "list_all is_descending ss
   \<Longrightarrow> sort_keys (map (\<lambda>s. SortBy (sortby_expression s) (Some PG_ASC)) ss) = reversed_keys ss"
  by (auto simp: sort_keys_def reversed_keys_def list_all_iff is_ascending_def is_descending_def)

lemma no_sort_page:
  assumes "target = Query c None t f [] w [] l off"
  shows "is_forwards paging \<Longrightarrow> selects_neighbours paging cmp (length w)
      (paged_sort target PG_ASC) True (subsequent_page_no_sort_paging_forwards_query target paging)"
    "\<not> is_forwards paging \<Longrightarrow> selects_neighbours paging cmp (length w)
      (paged_sort target PG_ASC) False (subsequent_page_no_sort_paging_backwards_query target paging)"
  by (auto simp: assms neighbour_defs subsequent_page_no_sort_paging_forwards_query_def
      subsequent_page_no_sort_paging_backwards_query_def paged_sort_def sort_keys_def
      reversed_keys_def subsequent_page_no_sort_row_selection_query_def empty_query_def
      is_ascending_def split: ordering.splits)

lemma ascending_page:
  assumes "target = Query c None t f [] w b l off" "list_all is_ascending b"
  shows "selects_neighbours paging cmp (length w) (paged_sort target PG_ASC) True
      (subsequent_page_existing_sort_all_asc_forwards_query target paging settings)"
    "selects_neighbours paging cmp (length w) (paged_sort target PG_ASC) False
      (subsequent_page_existing_sort_all_asc_backwards_query target paging settings)"
proof -
  have asc: "list_all is_ascending (paged_sort target PG_ASC)"
    using assms by (simp add: paged_sort_def is_ascending_def is_descending_def)
  note holds = row_order_asc [OF asc, of cmp] reversed_uniform(1) [OF asc]
  show "selects_neighbours paging cmp (length w) (paged_sort target PG_ASC) True
      (subsequent_page_existing_sort_all_asc_forwards_query target paging settings)"
    using holds
    by (auto simp: assms(1) neighbour_defs subsequent_page_existing_sort_all_asc_forwards_query_def
        Let_def o_def)
  show "selects_neighbours paging cmp (length w) (paged_sort target PG_ASC) False
      (subsequent_page_existing_sort_all_asc_backwards_query target paging settings)"
    using holds
    by (auto simp: assms(1) neighbour_defs subsequent_page_existing_sort_all_asc_backwards_query_def
        Let_def o_def empty_query_def)
qed

lemma descending_page:
  assumes "target = Query c None t f [] w b l off" "list_all is_descending b"
  shows "selects_neighbours paging cmp (length w) (paged_sort target PG_DESC) True
      (subsequent_page_existing_sort_all_desc_forwards_query target paging settings)"
    "selects_neighbours paging cmp (length w) (paged_sort target PG_DESC) False
      (subsequent_page_existing_sort_all_desc_backwards_query target paging settings)"
proof -
  have desc: "list_all is_descending (paged_sort target PG_DESC)"
    using assms by (simp add: paged_sort_def is_ascending_def is_descending_def)
  note holds = row_order_desc [OF desc, of cmp] reversed_uniform(2) [OF desc]
  show "selects_neighbours paging cmp (length w) (paged_sort target PG_DESC) True
      (subsequent_page_existing_sort_all_desc_forwards_query target paging settings)"
    using holds
    by (auto simp: assms(1) neighbour_defs subsequent_page_existing_sort_all_desc_forwards_query_def
        Let_def o_def)
  show "selects_neighbours paging cmp (length w) (paged_sort target PG_DESC) False
      (subsequent_page_existing_sort_all_desc_backwards_query target paging settings)"
    using holds
    by (auto simp: assms(1) neighbour_defs subsequent_page_existing_sort_all_desc_backwards_query_def
        Let_def o_def empty_query_def)
qed


lemma mixed_page:
  assumes "target = Query c None t f [] w b l off" "b \<noteq> []"
    and "\<forall>s \<in> set b. sortby_direction s \<noteq> None \<and> hash_expression hashable (sortby_expression s) = Inr ()"
    and "distinct (column ''id'' # map sortby_expression b)"
  shows "\<exists>q. subsequent_page_existing_sort_mixed_forwards_query hashable target paging settings = Inr q
      \<and> selects_neighbours paging cmp (length w) (paged_sort target PG_ASC) True q"
    "\<exists>q. subsequent_page_existing_sort_mixed_backwards_query hashable target paging settings = Inr q
      \<and> selects_neighbours paging cmp (length w) (paged_sort target PG_ASC) False q"
proof -
  let ?ss = "paged_sort target PG_ASC"
  let ?rs = "map reverse_sortby ?ss"
  have hash: "\<forall>s \<in> set ?ss. hash_expression hashable (sortby_expression s) = Inr ()"
    and dir: "\<forall>s \<in> set ?ss. sortby_direction s \<noteq> None"
    and dist: "distinct (map sortby_expression ?ss)" and len: "2 \<le> length ?ss"
    using assms by (auto simp: paged_sort_def Suc_le_eq)
  have hash': "\<forall>s \<in> set ?rs. hash_expression hashable (sortby_expression s) = Inr ()"
    and dir': "\<forall>s \<in> set ?rs. sortby_direction s \<noteq> None"
    and es': "map sortby_expression ?rs = map sortby_expression ?ss" and len': "2 \<le> length ?rs"
    using hash dir len by auto
  have keys: "sort_keys ?rs = reversed_keys ?ss"
    using dir by (auto simp: sort_keys_def reversed_keys_def reverse_ascending)
  from mixed_union [OF hash dist refl dir len, of target paging cmp]
  show "\<exists>q. subsequent_page_existing_sort_mixed_forwards_query hashable target paging settings = Inr q
      \<and> selects_neighbours paging cmp (length w) ?ss True q"
    by (auto simp: subsequent_page_existing_sort_mixed_forwards_query_def Let_def neighbour_defs
        assms(1) o_def)
  from mixed_union [OF hash' dist [folded es'] es' dir' len', of target paging cmp]
  show "\<exists>q. subsequent_page_existing_sort_mixed_backwards_query hashable target paging settings = Inr q
      \<and> selects_neighbours paging cmp (length w) ?ss False q"
    using keys follows_reversed [OF dir, of cmp]
    by (auto simp: subsequent_page_existing_sort_mixed_backwards_query_def Let_def neighbour_defs
        assms(1) empty_query_def o_def)
qed

text \<open>
  C19. A keyset page after a known last id, from a builder with sorts of distinct columns other
  than \<open>id\<close>: whatever the mixture of directions, forwards or backwards, the page query selects
  a row that satisfies the filters exactly once if the row comes strictly after (before, when
  paging backwards) the last row in the sort order extended by \<open>id\<close>, and not at all otherwise.
  Each selecting query takes the rows nearest the last row first, so that its limit keeps the
  right ones, and the page itself is limited and in the sort order.
\<close>

theorem keyset_pages_select_neighbours:
  assumes "kp_last_id paging = Some i" and "unions target = None" and "from_subqueries target = []"
    and "\<forall>s \<in> set (sortby_list target). sortby_direction s \<noteq> None
           \<and> hash_expression hashable (sortby_expression s) = Inr ()"
    and "distinct (column ''id'' # map sortby_expression (sortby_list target))"
  shows "\<exists>q. keyset_applier hashable paging settings target = Inr q
    \<and> selections paging cmp (length (where_conditions target)) q
        = (if (if kp_direction paging = FORWARDS then follows cmp (page_order target)
               else precedes cmp (page_order target)) then 1 else 0)
    \<and> (\<forall>b \<in> set (page_branches q). limit_value b = Some (kp_item_count paging)
         \<and> sort_keys (sortby_list b) =
             (if kp_direction paging = FORWARDS then sort_keys (page_order target)
              else reversed_keys (page_order target)))
    \<and> sort_keys (sortby_list q) = sort_keys (page_order target)
    \<and> limit_value q = Some (kp_item_count paging)"
proof -
  obtain c t f w b l off where target: "target = Query c None t f [] w b l off"
    using assms(2,3) by (cases target) auto
  have fwd: "is_forwards paging \<longleftrightarrow> kp_direction paging = FORWARDS"
    and bwd: "is_backwards paging \<longleftrightarrow> kp_direction paging \<noteq> FORWARDS"
    using assms(1) by (cases "kp_direction paging"; auto simp: is_forwards_def is_backwards_def)+
  have "\<exists>q. keyset_applier hashable paging settings target = Inr q
    \<and> selects_neighbours paging cmp (length w) (page_order target) (kp_direction paging = FORWARDS) q"
  proof (cases "b = []")
    case True
    then show ?thesis
      using no_sort_page [of target c t f w l off paging cmp] target fwd bwd
      by (auto simp: keyset_applier_def page_order_def)
  next
    case False
    note mixed = mixed_page [OF target False, of hashable paging settings cmp]
    have hyps: "\<forall>s \<in> set b. sortby_direction s \<noteq> None \<and>
        hash_expression hashable (sortby_expression s) = Inr ()"
      "distinct (column ''id'' # map sortby_expression b)" using assms(4,5) target by auto
    consider "list_all is_ascending b" | "\<not> list_all is_ascending b" "list_all is_descending b"
      | "\<not> list_all is_ascending b" "\<not> list_all is_descending b" by blast
    then show ?thesis
    proof cases
      case 1
      then show ?thesis
        using ascending_page [OF target 1, of paging cmp settings] False target fwd bwd
        by (auto simp: keyset_applier_def page_order_def)
    next
      case 2
      then show ?thesis
        using descending_page [OF target 2(2), of paging cmp settings] False target fwd bwd
        by (auto simp: keyset_applier_def page_order_def)
    next
      case 3
      then show ?thesis
        using mixed [OF hyps] False target fwd bwd
        by (auto simp: keyset_applier_def page_order_def)
    qed
  qed
  then show ?thesis unfolding selects_neighbours_def by (simp add: target)
qed


definition sample_paging :: "paging_direction \<Rightarrow> keyset_paging" where
  "sample_paging direction =
     \<lparr>kp_last_id = Some ''row-7'', kp_direction = direction, kp_item_count = 10\<rparr>"

definition sample_sorted :: "(string \<times> sort_direction) list \<Rightarrow> unit pg_query" where
  "sample_sorted keys =
     order_by (map (\<lambda>(name, d). SortBySort (SortBy (column name) (Some d))) keys)
       (from_table ''projections'' (select_all empty_query))"

definition sample_cmp :: "string \<Rightarrow> ordering \<Rightarrow> unit expression \<Rightarrow> ordering" where
  "sample_cmp name r e = (case e of ColumnReference None None n \<Rightarrow> if n = name then r else EQ | _ \<Rightarrow> EQ)"

theorem keyset_pages_select_neighbours_witness:
  "\<exists>q. keyset_applier (\<lambda>_. True) (sample_paging FORWARDS) \<lparr>table_name = ''projections''\<rparr>
         (sample_sorted [(''name'', PG_DESC), (''version'', PG_ASC)]) = Inr q
       \<and> selections (sample_paging FORWARDS) (sample_cmp ''version'' GT) 0 q = 1"
proof -
  let ?t = "sample_sorted [(''name'', PG_DESC), (''version'', PG_ASC)]"
  have "follows (sample_cmp ''version'' GT) (page_order ?t)" by code_simp
  moreover have "kp_last_id (sample_paging FORWARDS) = Some ''row-7''" "unions ?t = None"
    "from_subqueries ?t = []" "where_conditions ?t = []" "kp_direction (sample_paging FORWARDS) = FORWARDS"
    by (simp_all add: sample_sorted_def sample_paging_def empty_query_def)
  moreover have "\<forall>s \<in> set (sortby_list ?t). sortby_direction s \<noteq> None
      \<and> hash_expression (\<lambda>_. True) (sortby_expression s) = Inr ()"
    "distinct (column ''id'' # map sortby_expression (sortby_list ?t))"
    by (simp_all add: sample_sorted_def empty_query_def)
  ultimately show ?thesis
    using keyset_pages_select_neighbours [of "sample_paging FORWARDS" "''row-7''" ?t "\<lambda>_. True"
        "\<lparr>table_name = ''projections''\<rparr>" "sample_cmp ''version'' GT"] by auto
qed

text \<open>
  The hypothesis on \<open>id\<close> is needed: with the sort \<open>name ASC, id DESC\<close> the dictionary entry for
  the last key, \<open>id ASC\<close>, overwrites that of \<open>id DESC\<close>, and the page after a row selects the
  row of the same name that comes before it.
\<close>

lemma mixed_sort_by_id_selects_wrong_row:
  "(case keyset_applier (\<lambda>_. True) (sample_paging FORWARDS) \<lparr>table_name = ''projections''\<rparr>
           (sample_sorted [(''name'', PG_ASC), (''id'', PG_DESC)]) of
      Inr q \<Rightarrow> selections (sample_paging FORWARDS) (sample_cmp ''id'' GT) 0 q = 1
    | Inl _ \<Rightarrow> False)
   \<and> \<not> follows (sample_cmp ''id'' GT)
        (page_order (sample_sorted [(''name'', PG_ASC), (''id'', PG_DESC)]))
   \<and> precedes (sample_cmp ''id'' GT)
        (page_order (sample_sorted [(''name'', PG_ASC), (''id'', PG_DESC)]))"
  by code_simp

subsection \<open>Mixed sorts by nested paths\<close>

lemma hash_expression_result:
  fixes e :: "'o expression" and c :: "'o sql_condition" and p :: "'o operand" and t :: "'o target"
    and b :: "'o sortby" and q :: "'o pg_query"
  shows "hash_expression hashable e = Inr () \<or> hash_expression hashable e = unhashable_type"
    "hash_condition hashable c = Inr () \<or> hash_condition hashable c = unhashable_type"
    "hash_operand hashable p = Inr () \<or> hash_operand hashable p = unhashable_type"
    and "t = t" "b = b" "q = q"
proof (induction e and c and p and t and b and q)
  case (Condition l r op)
  then show ?case by (cases l; cases r) (auto simp: unhashable_type_def)
qed auto


lemma sort_operators_unhashable:
  assumes "s \<in> set ss" "hash_expression hashable (sortby_expression s) = unhashable_type"
  shows "sort_operators hashable ss = unhashable_type"
proof -
  have "res_fold (\<lambda>s d. res_bind (hash_expression hashable (sortby_expression s)) (\<lambda>_.
         Inr (AList.update (sortby_expression s)
           (if sortby_direction s = Some PG_ASC then PG_GREATER_THAN else PG_LESS_THAN) d))) ss d
       = unhashable_type" for d
    using assms
  proof (induction ss arbitrary: d)
    case (Cons s' ss)
    then show ?case
      using hash_expression_result(1) [of hashable "sortby_expression s'"]
      by (auto simp: unhashable_type_def)
  qed simp
  then show ?thesis by (simp add: sort_operators_def)
qed

text \<open>
  Keyset paging past the first page fails for a sort that mixes directions and has a nested
  path among its keys, whatever the table holds: the expression for the path holds its arguments
  in a list, so it cannot be a dictionary key and the conversion raises \<open>TypeError\<close>. The same
  sort pages normally when its directions agree.
\<close>

lemma mixed_nested_sort_raises:
  fixes target :: "'o pg_query"
  assumes "sort_applier sort_fields (base_query settings) = Inr target"
    and "f \<in> set sort_fields" "sf_field f = PathField p" "is_nested p"
    and "g \<in> set sort_fields" "sf_order g = ASC" "h \<in> set sort_fields" "sf_order h = DESC"
    and "kp_last_id paging = Some i"
  shows "keyset_applier hashable paging settings target = Inl (TypeError ''unhashable type'')"
proof -
  have sorts: "sortby_list target = map pg_sortby sort_fields"
    using assms(1) by (auto simp: sort_applier_def base_query_def empty_query_def o_def)
  have "\<not> is_ascending (pg_sortby h :: 'o sortby)" "\<not> is_descending (pg_sortby g :: 'o sortby)"
    using assms(6,8)
    by (simp_all add: is_ascending_def is_descending_def pg_sortby_def pg_sort_direction_def)
  then have mixed: "\<not> list_all is_ascending (sortby_list target)"
    "\<not> list_all is_descending (sortby_list target)"
    using assms(5,7) unfolding sorts by (auto simp: list_all_iff)
  have "hash_expression hashable (sortby_expression (pg_sortby f)) = unhashable_type"
    using assms(3,4) by (simp add: pg_sortby_def expression_for_field_def expression_for_path_def)
  then have ops: "sort_operators hashable (paged_sort target PG_ASC) = unhashable_type"
    "sort_operators hashable (map reverse_sortby (paged_sort target PG_ASC)) = unhashable_type"
    using assms(2) sort_operators_unhashable [of "pg_sortby f" "paged_sort target PG_ASC"]
      sort_operators_unhashable [of "reverse_sortby (pg_sortby f)"
        "map reverse_sortby (paged_sort target PG_ASC)"]
    by (auto simp: paged_sort_def sorts)
  have "sortby_list target \<noteq> []" using assms(2) sorts by auto
  moreover have "is_forwards paging \<or> is_backwards paging"
    using assms(9) by (cases "kp_direction paging") (auto simp: is_forwards_def is_backwards_def)
  ultimately show ?thesis
    using mixed ops
    by (auto simp: keyset_applier_def subsequent_page_existing_sort_mixed_forwards_query_def
        subsequent_page_existing_sort_mixed_backwards_query_def unhashable_type_def Let_def)
qed

lemma mixed_nested_sort_raises_witness:
  "keyset_applier (\<lambda>_. True) (sample_paging BACKWARDS) \<lparr>table_name = ''projections''\<rparr>
     (order_by
        [SortBySort (pg_sortby \<lparr>sf_field = PathField (Path ''state'' [Key ''value'']), sf_order = ASC\<rparr>),
         SortBySort (pg_sortby \<lparr>sf_field = PathField (Path ''name'' []), sf_order = DESC\<rparr>)]
        (base_query \<lparr>table_name = ''projections''\<rparr>) :: unit pg_query)
   = Inl (TypeError ''unhashable type'')"
proof -
  let ?f = "\<lparr>sf_field = PathField (Path ''state'' [Key ''value'']), sf_order = ASC\<rparr> :: unit sort_field"
  let ?g = "\<lparr>sf_field = PathField (Path ''name'' []), sf_order = DESC\<rparr> :: unit sort_field"
  show ?thesis
    using mixed_nested_sort_raises [of "[?f, ?g]" "\<lparr>table_name = ''projections''\<rparr>" _ ?f
        "Path ''state'' [Key ''value'']" ?f ?g "sample_paging BACKWARDS" "''row-7''" "\<lambda>_. True"]
    by (simp add: sort_applier_def sample_paging_def is_nested_def pg_sortby_def
        expression_for_field_def expression_for_path_def comparison_type_of_def)
qed

end
