(* ===== verification/Consumer_State.thy ===== *)
theory Consumer_State
  imports Event_Store
begin

section \<open>The persisted state of event consumers\<close>

text \<open>
  Models \<open>processing/consumers/state/\<close>: the state of a consumer and its JSON form, the
  converter between events and states, and \<open>EventConsumerStateStore\<close>, which keeps the states of
  a consumer's partitions in memory and appends them, every so many events, as events to the
  streams of a category of the event store.

  A state is a JSON object, held as the list of its items. The store object is a record of its
  dictionaries; the category's streams live in the adapter, which the methods take and return.
  \<open>_persistence_lags\<close> is a \<open>defaultdict\<close>: reading a missing partition inserts it. The time a
  new event is made at is the parameter \<open>now\<close>, by partition.
\<close>

subsection \<open>state/base.py: EventConsumerState\<close>

type_synonym 'o json_items = "('o pyval \<times> 'o pyval) list"

text \<open>\<open>isinstance(value, int)\<close>, which holds of booleans, and the number\<close>

fun as_int :: "'o pyval \<Rightarrow> int option" where
  "as_int (PyInt i) = Some i"
| "as_int (PyBool b) = Some (if b then 1 else 0)"
| "as_int _ = None"

definition merge_items :: "'o json_items \<Rightarrow> 'o json_items \<Rightarrow> 'o json_items" where
  \<comment> \<open>\<open>{**a, **b}\<close>\<close>
  "merge_items a b = fold (\<lambda>(k, v) d. AList.update k v d) b a"

definition normalise_state :: "'o json_items option \<Rightarrow> 'o pyval option \<Rightarrow> 'o json_items" where
  "normalise_state state maybe_last_sequence_number =
     (let items = (case state of Some kvs \<Rightarrow> kvs | None \<Rightarrow> [])
      in case maybe_last_sequence_number of
           Some v \<Rightarrow>
             if as_int v \<noteq> None then AList.update (PyStr ''last_sequence_number'') v items else items
         | None \<Rightarrow> items)"

definition deserialise_state :: "'o pyval \<Rightarrow> 'o json_items res" where
  "deserialise_state value =
     (case value of
        PyDict kvs \<Rightarrow>
          if \<not> is_json_object value then Inl (ValueError ''Cannot deserialise'')
          else
            (let last = map_of kvs (PyStr ''last_sequence_number'')
             in case map_of kvs (PyStr ''state'') of
                  None \<Rightarrow> Inr (normalise_state None last)
                | Some PyNone \<Rightarrow> Inr (normalise_state None last)
                | Some (PyDict items) \<Rightarrow>
                    if is_json_object (PyDict items) then Inr (normalise_state (Some items) last)
                    else Inl (ValueError ''Cannot deserialise'')
                | Some _ \<Rightarrow> Inl (ValueError ''Cannot deserialise''))
      | _ \<Rightarrow> Inl (ValueError ''Cannot deserialise''))"

definition serialise_state :: "'o json_items \<Rightarrow> 'o pyval" where
  "serialise_state state = PyDict [(PyStr ''state'', PyDict state)]"

subsection \<open>state/types.py, state/memory.py: converters\<close>

record ('o, 'e, 'q) state_converter =
  event_to_state :: "'e \<Rightarrow> 'o json_items"
  initial_state :: "'o json_items"
  state_to_query_constraint :: "'o json_items \<Rightarrow> 'q query_constraint option"

definition stored_event_to_state :: "('n, 'p) stored_event \<Rightarrow> 'o json_items" where
  "stored_event_to_state event =
     [(PyStr ''last_sequence_number'', PyInt (se_sequence_number event))]"

definition stored_event_initial_state :: "'o json_items" where
  "stored_event_initial_state = [(PyStr ''last_sequence_number'', PyNone)]"

definition stored_event_state_to_query_constraint ::
  "'o json_items \<Rightarrow> 'q query_constraint option" where
  "stored_event_state_to_query_constraint state =
     (case map_of state (PyStr ''last_sequence_number'') of
        None \<Rightarrow> None
      | Some v \<Rightarrow> map_option sequence_number_after (as_int v))"

definition stored_event_converter :: "('o, ('n, 'p) stored_event, 'q) state_converter" where
  "stored_event_converter =
     \<lparr>event_to_state = stored_event_to_state, initial_state = stored_event_initial_state,
      state_to_query_constraint = stored_event_state_to_query_constraint\<rparr>"

subsection \<open>state/base.py: EventConsumerStateStore\<close>

record 'o consumer_store =
  cst_category :: string
  cst_interval :: "int option"
  cst_lags :: "(string, int) dict"
  cst_states :: "(string, 'o json_items option) dict"
  cst_positions :: "(string, int option) dict"

definition new_consumer_store :: "string \<Rightarrow> int option \<Rightarrow> 'o consumer_store" where
  "new_consumer_store category interval =
     \<lparr>cst_category = category, cst_interval = interval, cst_lags = [], cst_states = [],
      cst_positions = []\<rparr>"

text \<open>\<open>self._persistence_lags[partition]\<close>\<close>

definition read_lag :: "string \<Rightarrow> 'o consumer_store \<Rightarrow> int \<times> 'o consumer_store" where
  "read_lag part store =
     (case map_of (cst_lags store) part of
        Some lag \<Rightarrow> (lag, store)
      | None \<Rightarrow> (0, store\<lparr>cst_lags := AList.update part 0 (cst_lags store)\<rparr>))"

text \<open>\<open>self._states.get(partition, None)\<close>, \<open>self._positions.get(partition, None)\<close>\<close>

definition state_of :: "string \<Rightarrow> 'o consumer_store \<Rightarrow> 'o json_items option" where
  "state_of part store =
     (case map_of (cst_states store) part of Some s \<Rightarrow> s | None \<Rightarrow> None)"

definition position_of :: "string \<Rightarrow> 'o consumer_store \<Rightarrow> int option" where
  "position_of part store =
     (case map_of (cst_positions store) part of Some p \<Rightarrow> p | None \<Rightarrow> None)"

definition record_processed ::
  "('o, 'e, 'q) state_converter \<Rightarrow> 'e \<Rightarrow> 'o json_items option \<Rightarrow> string
    \<Rightarrow> 'o consumer_store \<Rightarrow> 'o consumer_store \<times> 'o json_items" where
  "record_processed conv event extra_state part store =
     (let combined = merge_items (event_to_state conv event)
            (case extra_state of Some kvs \<Rightarrow> kvs | None \<Rightarrow> []);
          store1 = store\<lparr>cst_states := AList.update part (Some combined) (cst_states store)\<rparr>;
          (lag, store2) = read_lag part store1
      in (store2\<lparr>cst_lags := AList.update part (lag + 1) (cst_lags store2)\<rparr>, combined))"

definition reset_state ::
  "('o, 'e, 'q) state_converter \<Rightarrow> 'o json_items option \<Rightarrow> string
    \<Rightarrow> 'o consumer_store \<Rightarrow> 'o consumer_store" where
  "reset_state conv extra_state part store =
     store\<lparr>cst_states := AList.update part
             (Some (merge_items (initial_state conv)
               (case extra_state of Some kvs \<Rightarrow> kvs | None \<Rightarrow> []))) (cst_states store),
           cst_lags := AList.update part 0 (cst_lags store)\<rparr>"

definition state_changed_event :: "(string \<Rightarrow> datetime) \<Rightarrow> string \<Rightarrow> 'o json_items \<Rightarrow> 'o raw_event" where
  "state_changed_event now part state =
     make_new_event (PyStr ''state-changed'') (serialise_state state) None None (now part)"

definition save_condition :: "int option \<Rightarrow> 'w condition" where
  "save_condition position =
     (case position of None \<Rightarrow> stream_is_empty | Some p \<Rightarrow> position_is (Some p))"

text \<open>The body of the loop of \<open>save\<close>, for one partition.\<close>

definition save_partition ::
  "'o store_env \<Rightarrow> (string \<Rightarrow> datetime) \<Rightarrow> string \<Rightarrow> ('o, 'w) memory_adapter \<Rightarrow> 'o consumer_store
    \<Rightarrow> ('o, 'w) memory_adapter \<times> 'o consumer_store \<times> unit res" where
  "save_partition env now part ad store =
     (case state_of part store of
        None \<Rightarrow> (ad, store, Inr ())
      | Some state \<Rightarrow>
          (let (lag, store1) = read_lag part store
           in if lag = 0 then (ad, store1, Inr ())
              else
                (let stream = StreamIdentifier (cst_category store1) part;
                     position =
                       (case position_of part store1 of
                          Some p \<Rightarrow> Inr (Some p)
                        | None \<Rightarrow>
                            res_bind (source_latest ad (EventStream stream)) (\<lambda>latest.
                              Inr (map_option se_position latest)))
                 in case position of
                      Inl err \<Rightarrow> (ad, store1, Inl err)
                    | Inr pos \<Rightarrow>
                        (case stream_publish env ad stream [state_changed_event now part state]
                                (save_condition pos) of
                           (ad', Inl err) \<Rightarrow> (ad', store1, Inl err)
                         | (ad', Inr stored) \<Rightarrow>
                             (case stored of
                                [] \<Rightarrow> (ad', store1, Inl (IndexError ''list index out of range''))
                              | first # _ \<Rightarrow>
                                  (ad', store1\<lparr>cst_positions :=
                                      AList.update part (Some (se_position first)) (cst_positions store1),
                                    cst_lags := AList.update part 0 (cst_lags store1)\<rparr>, Inr ()))))))"

fun save_partitions ::
  "'o store_env \<Rightarrow> (string \<Rightarrow> datetime) \<Rightarrow> string list \<Rightarrow> ('o, 'w) memory_adapter
    \<Rightarrow> 'o consumer_store \<Rightarrow> ('o, 'w) memory_adapter \<times> 'o consumer_store \<times> unit res" where
  "save_partitions env now [] ad store = (ad, store, Inr ())"
| "save_partitions env now (part # partitions) ad store =
     (case save_partition env now part ad store of
        (ad', store', Inl err) \<Rightarrow> (ad', store', Inl err)
      | (ad', store', Inr _) \<Rightarrow> save_partitions env now partitions ad' store')"

definition save_state ::
  "'o store_env \<Rightarrow> (string \<Rightarrow> datetime) \<Rightarrow> string option \<Rightarrow> ('o, 'w) memory_adapter
    \<Rightarrow> 'o consumer_store \<Rightarrow> ('o, 'w) memory_adapter \<times> 'o consumer_store \<times> unit res" where
  "save_state env now part ad store =
     save_partitions env now
       (case part of None \<Rightarrow> dict_keys (cst_lags store) | Some p \<Rightarrow> [p]) ad store"

definition save_if_needed ::
  "'o store_env \<Rightarrow> (string \<Rightarrow> datetime) \<Rightarrow> string \<Rightarrow> ('o, 'w) memory_adapter
    \<Rightarrow> 'o consumer_store \<Rightarrow> ('o, 'w) memory_adapter \<times> 'o consumer_store \<times> unit res" where
  "save_if_needed env now part ad store =
     (case cst_interval store of
        None \<Rightarrow> (ad, store, Inr ())
      | Some interval \<Rightarrow>
          if interval = 0 then (ad, store, Inr ())
          else
            (let (lag, store1) = read_lag part store
             in if lag \<ge> interval then save_state env now (Some part) ad store1
                else (ad, store1, Inr ())))"

definition load_state ::
  "('o, 'w) memory_adapter \<Rightarrow> string \<Rightarrow> 'o consumer_store
    \<Rightarrow> 'o consumer_store \<times> 'o json_items option res" where
  "load_state ad part store =
     (case state_of part store of
        Some state \<Rightarrow> (store, Inr (Some state))
      | None \<Rightarrow>
          (case source_latest ad (store_stream (cst_category store) part) of
             Inl err \<Rightarrow> (store, Inl err)
           | Inr None \<Rightarrow>
               (store\<lparr>cst_states := AList.update part None (cst_states store),
                      cst_positions := AList.update part None (cst_positions store)\<rparr>, Inr None)
           | Inr (Some event) \<Rightarrow>
               (case deserialise_state (se_payload event) of
                  Inl err \<Rightarrow> (store, Inl err)
                | Inr state \<Rightarrow>
                    (store\<lparr>cst_states := AList.update part (Some state) (cst_states store),
                           cst_positions := AList.update part (Some (se_position event))
                             (cst_positions store)\<rparr>, Inr (Some state)))))"

definition load_to_query_constraint ::
  "('o, 'e, 'q) state_converter \<Rightarrow> ('o, 'w) memory_adapter \<Rightarrow> string \<Rightarrow> 'o consumer_store
    \<Rightarrow> 'o consumer_store \<times> 'q query_constraint option res" where
  "load_to_query_constraint conv ad part store =
     (case load_state ad part store of
        (store', Inl err) \<Rightarrow> (store', Inl err)
      | (store', Inr None) \<Rightarrow> (store', Inr None)
      | (store', Inr (Some state)) \<Rightarrow> (store', Inr (state_to_query_constraint conv state)))"

subsection \<open>Saving and loading\<close>

definition store_ok :: "('o, 'w) memory_adapter \<Rightarrow> bool" where
  "store_ok ad \<longleftrightarrow> adapter_inv ad \<and> ad_conditions ad = default_condition_converter"

lemma json_serialises [simp]:
  "is_json_value v \<Longrightarrow> serialise_to_json_value ser v fallback = Inr v"
  by (cases v) (simp_all add: serialise_to_json_value_def)

lemma deserialise_serialised:
  "is_json_object (PyDict s) \<Longrightarrow> deserialise_state (serialise_state s) = Inr s"
  by (simp add: deserialise_state_def serialise_state_def normalise_state_def)

lemma publish_state:
  assumes "store_ok ad" and "is_json_object (PyDict s)"
    and "built_in_condition cond" and "condition_holds cond (stream_latest ad c p)"
  obtains ad' stored e where
    "stream_publish env ad (StreamIdentifier c p) [state_changed_event now p s] cond = (ad', Inr [stored])"
    "store_ok ad'" "db_log (ad_db ad') = db_log (ad_db ad) @ [e]" "selects (StreamIdentifier c p) e"
    "se_payload e = serialise_state s" "se_position e = stream_length ad c p"
    "se_position stored = stream_length ad c p"
proof -
  let ?ev = "state_changed_event now p s"
  let ?env = "save_env.truncate env"
  have ev: "ne_name ?ev = PyStr ''state-changed''" "ne_payload ?ev = serialise_state s"
    by (simp_all add: state_changed_event_def make_new_event_def Let_def)
  have json: "is_json_value (serialise_state s)" using assms(2) by (simp add: serialise_state_def)
  obtain ad' r where sv: "save_to_stream ?env ad c p [?ev] cond = (ad', r)" by fastforce
  have "\<exists>e. serialise_stored ?env (make_stored_event ?env c p (stream_length ad c p) (ad_sequence ad) ?ev)
      = Inr e \<and> se_payload e = serialise_state s"
    using json by (simp add: serialise_stored_def make_stored_event_def ev serialise_to_string_def)
  then obtain e where e: "serialise_stored ?env
      (make_stored_event ?env c p (stream_length ad c p) (ad_sequence ad) ?ev) = Inr e"
    "se_payload e = serialise_state s" by blast
  then have spec: "spec_events ?env c p (stream_length ad c p) (ad_sequence ad) [?ev] = Inr [e]"
    by simp
  note cases = save_to_stream_cases [OF _ _ assms(3) sv]
  have r: "r = Inr [make_stored_event ?env c p (stream_length ad c p) (ad_sequence ad) ?ev]"
    and log: "db_log (ad_db ad') = db_log (ad_db ad) @ [e]" and inv: "adapter_inv ad'"
    using cases assms(1,4) spec
    by (simp_all add: store_ok_def del: spec_events_simps selects.simps)
  have reg: "ad_conditions ad' = default_condition_converter"
    using saved_conditions [OF sv] assms(1) by (simp add: store_ok_def)
  have pub: "stream_publish env ad (StreamIdentifier c p) [?ev] cond
      = (ad', Inr [make_stored_event ?env c p (stream_length ad c p) (ad_sequence ad) ?ev])"
    using json
    by (simp add: stream_publish_def save_def sv r serialise_new_event_def ev summarise_event_def
        serialise_event_def make_stored_event_def)
  show thesis
    by (rule that [OF pub])
      (use inv reg log e spec_events_all_fields [OF spec] in
        \<open>auto simp: store_ok_def make_stored_event_def simp del: selects.simps\<close>)
qed

definition outside :: "string \<Rightarrow> ('o, 'w) memory_adapter \<Rightarrow> 'o event list" where
  "outside c ad = filter (\<lambda>e. se_category e \<noteq> c) (db_log (ad_db ad))"

text \<open>
  What a partition of a consumer holds: the state last persisted (as its stream has it), the
  current state, and the number of events recorded since the last save; and what the other categories hold.
\<close>

definition persisted :: "('o, 'w) memory_adapter \<Rightarrow> string \<Rightarrow> string \<Rightarrow> 'o json_items res option" where
  "persisted ad c p = map_option (deserialise_state \<circ> se_payload) (stream_latest ad c p)"

definition tracks ::
  "string \<Rightarrow> 'o event list \<Rightarrow> ('o, 'w) memory_adapter \<Rightarrow> 'o consumer_store
    \<Rightarrow> 'o json_items option \<Rightarrow> 'o json_items option \<Rightarrow> int \<Rightarrow> bool" where
  "tracks p rest ad store saved current lag \<longleftrightarrow>
     store_ok ad \<and> outside (cst_category store) ad = rest
     \<and> persisted ad (cst_category store) p = map_option Inr saved
     \<and> state_of p store = current \<and> fst (read_lag p store) = lag \<and> lag \<ge> 0
     \<and> position_of p store \<in> {None, map_option se_position (stream_latest ad (cst_category store) p)}
     \<and> (\<forall>s. current = Some s \<longrightarrow> is_json_object (PyDict s))
     \<and> wf_dict (cst_lags store) \<and> set (dict_keys (cst_lags store)) \<subseteq> {p}"

lemma read_lag_store:
  assumes "read_lag p store = (lag, store')"
  shows "cst_category store' = cst_category store" "cst_interval store' = cst_interval store"
    "state_of q store' = state_of q store" "position_of q store' = position_of q store"
    "map_of (cst_lags store') p = Some lag"
    "wf_dict (cst_lags store) \<Longrightarrow> wf_dict (cst_lags store')"
    "set (dict_keys (cst_lags store')) = insert p (set (dict_keys (cst_lags store)))"
  using assms
  by (auto simp: read_lag_def state_of_def position_of_def dict_keys_def dom_map_of_conv_image_fst [symmetric]
      dom_def set_map split: option.splits)


lemma latest_appended:
  assumes "db_log (ad_db ad') = db_log (ad_db ad) @ [e]" "selects (StreamIdentifier c p) e"
  shows "stream_latest ad' c p = Some e"
  using assms by (simp del: selects.simps)

lemma stream_is_scannable: "scannable (StreamIdentifier c p)"
  by (simp add: scannable_def is_event_sequence_identifier_def)

lemma latest_of_stream:
  "store_ok ad \<Longrightarrow> source_latest ad (EventStream (StreamIdentifier c p)) = Inr (stream_latest ad c p)"
  using source_latest_eq [of ad "EventStream (StreamIdentifier c p)"] stream_is_scannable
  by (simp add: store_ok_def del: selects.simps)

lemma save_condition_holds:
  "built_in_condition (save_condition pos)"
  "condition_holds (save_condition pos) latest \<longleftrightarrow> map_option se_position latest = pos"
  by (cases pos; simp add: save_condition_def stream_is_empty_def position_is_def)+

lemma save_partition_tracks:
  assumes "tracks p rest ad store saved current lag"
  obtains ad' store' where "save_partition env now p ad store = (ad', store', Inr ())"
    "cst_category store' = cst_category store" "cst_interval store' = cst_interval store"
    "tracks p rest ad' store' (if lag = 0 \<or> current = None then saved else current)
       current (if current = None then lag else 0)"
proof -
  note T = assms [unfolded tracks_def]
  show thesis
  proof (cases current)
    case None
    then show thesis
      using that [of ad store] T assms by (cases "lag = 0") (simp_all add: save_partition_def)
  next
    case (Some s)
    obtain store1 where rl: "read_lag p store = (lag, store1)"
      using T by (cases "read_lag p store") auto
    note R = read_lag_store [OF rl]
    have T1: "tracks p rest ad store1 saved current lag"
      using T R rl by (auto simp: tracks_def read_lag_def split: option.splits)
    show thesis
    proof (cases "lag = 0")
      case True
      then show thesis
        using that [of ad store1] T T1 rl R Some by (simp add: save_partition_def)
    next
      case False
      let ?c = "cst_category store"
      let ?pos = "map_option se_position (stream_latest ad ?c p)"
      have pos: "(case position_of p store1 of Some q \<Rightarrow> Inr (Some q)
          | None \<Rightarrow> res_bind (source_latest ad (EventStream (StreamIdentifier (cst_category store1) p)))
              (\<lambda>latest. Inr (map_option se_position latest))) = Inr ?pos"
        using T R(1,4) latest_of_stream [of ad ?c p]
        by (auto simp del: selects.simps split: option.split)
      obtain ad' stored e where pub: "stream_publish env ad (StreamIdentifier ?c p)
          [state_changed_event now p s] (save_condition ?pos) = (ad', Inr [stored])"
        "store_ok ad'" "db_log (ad_db ad') = db_log (ad_db ad) @ [e]"
        "selects (StreamIdentifier ?c p) e" "se_payload e = serialise_state s"
        "se_position e = stream_length ad ?c p" "se_position stored = stream_length ad ?c p"
        using publish_state [of ad s "save_condition ?pos" ?c p env now] T Some
        by (auto simp: save_condition_holds)
      let ?store = "store1\<lparr>cst_positions := AList.update p (Some (se_position stored)) (cst_positions store1),
        cst_lags := AList.update p 0 (cst_lags store1)\<rparr>"
      have save: "save_partition env now p ad store = (ad', ?store, Inr ())"
        using T Some False rl R(1) pos pub(1) by (simp add: save_partition_def Let_def del: selects.simps)
      have latest: "stream_latest ad' ?c p = Some e" by (rule latest_appended [OF pub(3,4)])
      have "outside ?c ad' = outside ?c ad" using pub(3,4) by (simp add: outside_def)
      then have "tracks p rest ad' ?store (Some s) current 0"
        unfolding tracks_def
        using T T1 R Some pub latest deserialise_serialised [of s]
        by (auto simp: persisted_def state_of_def position_of_def read_lag_def tracks_def
            dict_keys_update simp del: selects.simps)
      then show thesis using that [OF save] False R(1,2) Some by simp
    qed
  qed
qed


lemma save_state_tracks:
  assumes "tracks p rest ad store saved current lag" and "part = None \<or> part = Some p"
  obtains ad' store' where "save_state env now part ad store = (ad', store', Inr ())"
    "cst_category store' = cst_category store" "cst_interval store' = cst_interval store"
    "tracks p rest ad' store' (if lag = 0 \<or> current = None then saved else current)
       current (if current = None then lag else 0)"
proof -
  have keys: "dict_keys (cst_lags store) = [] \<and> lag = 0 \<or> dict_keys (cst_lags store) = [p]"
  proof (cases "dict_keys (cst_lags store)")
    case Nil
    then have "cst_lags store = []" by (simp add: dict_keys_def)
    then show ?thesis using assms(1) by (simp add: tracks_def read_lag_def dict_keys_def)
  next
    case (Cons k ks)
    have "distinct (dict_keys (cst_lags store))" "set (dict_keys (cst_lags store)) \<subseteq> {p}"
      using assms(1) by (simp_all add: tracks_def wf_dict_def)
    then show ?thesis using Cons by (cases ks) auto
  qed
  show thesis
  proof (cases "part = None \<and> dict_keys (cst_lags store) = []")
    case True
    then have "save_state env now part ad store = (ad, store, Inr ())" "lag = 0"
      using keys by (auto simp: save_state_def)
    then show thesis using that [of ad store] assms(1) by (cases current) simp_all
  next
    case False
    then have parts: "(case part of None \<Rightarrow> dict_keys (cst_lags store) | Some q \<Rightarrow> [q]) = [p]"
      using assms(2) keys by auto
    obtain ad' store' where "save_partition env now p ad store = (ad', store', Inr ())"
      "cst_category store' = cst_category store" "cst_interval store' = cst_interval store"
      "tracks p rest ad' store' (if lag = 0 \<or> current = None then saved else current)
         current (if current = None then lag else 0)"
      using save_partition_tracks [OF assms(1), of env now] by blast
    then show thesis using that [of ad' store'] by (simp add: save_state_def parts)
  qed
qed

lemma read_lag_tracks:
  assumes "tracks p rest ad store saved current lag"
  obtains store1 where "read_lag p store = (lag, store1)"
    "cst_category store1 = cst_category store" "cst_interval store1 = cst_interval store"
    "tracks p rest ad store1 saved current lag"
proof -
  obtain store1 where rl: "read_lag p store = (lag, store1)"
    using assms by (cases "read_lag p store") (auto simp: tracks_def)
  note R = read_lag_store [OF rl]
  have "tracks p rest ad store1 saved current lag"
    using assms R rl by (auto simp: tracks_def read_lag_def split: option.splits)
  then show thesis using that rl R(1,2) by blast
qed

text \<open>Whether \<open>save_if_needed\<close> saves.\<close>

definition needs_save :: "int option \<Rightarrow> int \<Rightarrow> bool" where
  "needs_save interval lag =
     (case interval of None \<Rightarrow> False | Some n \<Rightarrow> n \<noteq> 0 \<and> lag \<ge> n)"

lemma save_if_needed_tracks:
  assumes "tracks p rest ad store saved (Some s) lag"
  obtains ad' store' where "save_if_needed env now p ad store = (ad', store', Inr ())"
    "cst_category store' = cst_category store" "cst_interval store' = cst_interval store"
    "tracks p rest ad' store'
       (if needs_save (cst_interval store) lag \<and> lag \<noteq> 0 then Some s else saved) (Some s)
       (if needs_save (cst_interval store) lag then 0 else lag)"
proof (cases "cst_interval store = None \<or> cst_interval store = Some 0")
  case True
  then have "save_if_needed env now p ad store = (ad, store, Inr ())"
    "\<not> needs_save (cst_interval store) lag" by (auto simp: save_if_needed_def needs_save_def)
  then show thesis using that assms by simp
next
  case False
  then obtain n where n: "cst_interval store = Some n" "n \<noteq> 0" by auto
  obtain store1 where s1: "read_lag p store = (lag, store1)"
    "cst_category store1 = cst_category store" "cst_interval store1 = cst_interval store"
    "tracks p rest ad store1 saved (Some s) lag" using read_lag_tracks [OF assms] by blast
  show thesis
  proof (cases "lag \<ge> n")
    case True
    obtain ad' store' where "save_state env now (Some p) ad store1 = (ad', store', Inr ())"
      "cst_category store' = cst_category store1" "cst_interval store' = cst_interval store1"
      "tracks p rest ad' store' (if lag = 0 then saved else Some s) (Some s) 0"
      by (rule save_state_tracks [OF s1(4), of "Some p" env now]) auto
    then show thesis using that [of ad' store'] True n s1
      by (cases "lag = 0") (simp_all add: save_if_needed_def needs_save_def)
  next
    case False
    then show thesis using that [of ad store1] n s1 by (simp add: save_if_needed_def needs_save_def)
  qed
qed

lemma merge_items_Nil [simp]: "merge_items kvs [] = kvs"
  by (simp add: merge_items_def)

lemma record_processed_tracks:
  assumes "tracks p rest ad store saved current lag" "is_json_object (PyDict (event_to_state conv event))"
  shows "tracks p rest ad (fst (record_processed conv event None p store)) saved
      (Some (event_to_state conv event)) (lag + 1)
    \<and> cst_category (fst (record_processed conv event None p store)) = cst_category store
    \<and> cst_interval (fst (record_processed conv event None p store)) = cst_interval store"
  using assms
  by (auto simp: tracks_def record_processed_def read_lag_def state_of_def position_of_def Let_def
      dict_keys_update persisted_def split: option.splits prod.splits)

lemma load_state_tracks:
  assumes "store_ok ad" and "persisted ad c p = map_option Inr saved"
    and "\<forall>s. saved = Some s \<longrightarrow> is_json_object (PyDict s)"
  obtains store' where "load_state ad p (new_consumer_store c interval) = (store', Inr saved)"
    "cst_category store' = c" "cst_interval store' = interval"
    "tracks p (outside c ad) ad store' saved saved 0"
proof -
  have latest: "source_latest ad (store_stream c p) = Inr (stream_latest ad c p)"
    using latest_of_stream [OF assms(1)] by (simp add: store_stream_def)
  show thesis
  proof (cases "stream_latest ad c p")
    case None
    then show thesis
      using that assms latest
      by (auto simp: load_state_def new_consumer_store_def state_of_def position_of_def tracks_def
          read_lag_def persisted_def dict_keys_def simp del: selects.simps)
  next
    case (Some e)
    then obtain s where "saved = Some s" "deserialise_state (se_payload e) = Inr s"
      using assms(2) by (cases saved) (auto simp: persisted_def)
    then show thesis
      using that assms latest Some
      by (auto simp: load_state_def new_consumer_store_def state_of_def position_of_def tracks_def
          read_lag_def persisted_def dict_keys_def simp del: selects.simps)
  qed
qed


lemma unmet_publish:
  assumes "store_ok ad" "built_in_condition cond" "\<not> condition_holds cond (stream_latest ad c p)"
    and "is_json_object (PyDict s)"
  shows "\<exists>m. stream_publish env ad (StreamIdentifier c p) [state_changed_event now p s] cond
    = (ad, Inl (UnmetWriteConditionError m))"
proof -
  obtain ad' r where sv: "save_to_stream (save_env.truncate env) ad c p
      [state_changed_event now p s] cond = (ad', r)" by fastforce
  then have "ad' = ad" "\<exists>m. r = Inl (UnmetWriteConditionError m)"
    using save_to_stream_cases [OF _ _ assms(2) sv] assms(1,3)
    by (simp_all add: store_ok_def del: spec_events_simps selects.simps)
  moreover have "is_json_value (serialise_state s)" using assms(4) by (simp add: serialise_state_def)
  ultimately show ?thesis
    using sv by (auto simp: stream_publish_def save_def serialise_new_event_def
        state_changed_event_def make_new_event_def Let_def)
qed

lemma loaded_latest:
  assumes "store_ok ad" "stream_latest ad c p = Some e" "deserialise_state (se_payload e) = Inr s"
  shows "snd (load_state ad p (new_consumer_store c i)) = Inr (Some s)"
  using assms latest_of_stream [OF assms(1), of c p]
  by (simp add: load_state_def new_consumer_store_def state_of_def store_stream_def
      del: selects.simps)

text \<open>
  C20. Saving a partition whose state changed: if the stream still ends where this store last
  saw it (or the store has not looked yet), the state is appended and any store created later
  over the same category loads exactly this state. If another process saved in between, the
  save raises \<open>UnmetWriteConditionError\<close>, the category is unchanged, and the store keeps its
  state, its position and its count of unsaved events.
\<close>

theorem state_save_guarded:
  assumes "store_ok ad" and "state_of p store = Some s" and "is_json_object (PyDict s)"
    and "fst (read_lag p store) \<noteq> 0"
  shows "if position_of p store
            \<in> {None, map_option se_position (stream_latest ad (cst_category store) p)}
     then \<exists>ad' store'. save_partition env now p ad store = (ad', store', Inr ())
            \<and> store_ok ad' \<and> fst (read_lag p store') = 0
            \<and> (\<forall>i. snd (load_state ad' p (new_consumer_store (cst_category store) i)) = Inr (Some s))
     else \<exists>store' m. save_partition env now p ad store = (ad, store', Inl (UnmetWriteConditionError m))
            \<and> state_of p store' = Some s \<and> position_of p store' = position_of p store
            \<and> fst (read_lag p store') = fst (read_lag p store)"
proof -
  obtain lag store1 where rl: "read_lag p store = (lag, store1)" by fastforce
  note R = read_lag_store [OF rl]
  let ?c = "cst_category store"
  let ?pos = "map_option se_position (stream_latest ad ?c p)"
  have at: "(case position_of p store1 of Some q \<Rightarrow> Inr (Some q)
      | None \<Rightarrow> res_bind (source_latest ad (EventStream (StreamIdentifier (cst_category store1) p)))
          (\<lambda>latest. Inr (map_option se_position latest)))
      = Inr (if position_of p store = None then ?pos else position_of p store)"
    using R(1,4) latest_of_stream [OF assms(1), of ?c p]
    by (auto simp del: selects.simps split: option.split)
  have lag: "lag \<noteq> 0" using assms(4) rl by simp
  show ?thesis
  proof (cases "position_of p store \<in> {None, ?pos}")
    case True
    then have pos: "(if position_of p store = None then ?pos else position_of p store) = ?pos" by auto
    obtain ad' stored e where pub: "stream_publish env ad (StreamIdentifier ?c p)
        [state_changed_event now p s] (save_condition ?pos) = (ad', Inr [stored])"
      "store_ok ad'" "db_log (ad_db ad') = db_log (ad_db ad) @ [e]"
      "selects (StreamIdentifier ?c p) e" "se_payload e = serialise_state s"
      "se_position e = stream_length ad ?c p" "se_position stored = stream_length ad ?c p"
      using publish_state [of ad s "save_condition ?pos" ?c p env now] assms(1,3)
      by (auto simp: save_condition_holds)
    have "snd (load_state ad' p (new_consumer_store ?c i)) = Inr (Some s)" for i
      using loaded_latest [OF pub(2) latest_appended [OF pub(3,4)]] pub(5)
        deserialise_serialised [OF assms(3)] by simp
    moreover have "save_partition env now p ad store = (ad', store1\<lparr>cst_positions :=
        AList.update p (Some (se_position stored)) (cst_positions store1),
        cst_lags := AList.update p 0 (cst_lags store1)\<rparr>, Inr ())"
      using at unfolding pos
      by (simp add: save_partition_def assms(2) rl R(1) lag pub(1) Let_def del: selects.simps)
    ultimately show ?thesis using True pub(2) by (auto simp: read_lag_def simp del: selects.simps)
  next
    case False
    then have pos: "(if position_of p store = None then ?pos else position_of p store)
        = position_of p store" by auto
    have "\<not> condition_holds (save_condition (position_of p store)) (stream_latest ad ?c p)"
      using False by (metis insertCI save_condition_holds(2))
    then obtain m where "stream_publish env ad (StreamIdentifier ?c p) [state_changed_event now p s]
        (save_condition (position_of p store)) = (ad, Inl (UnmetWriteConditionError m))"
      using unmet_publish [OF assms(1) save_condition_holds(1) _ assms(3)] by blast
    then have "save_partition env now p ad store = (ad, store1, Inl (UnmetWriteConditionError m))"
      using at unfolding pos
      by (simp add: save_partition_def assms(2) rl R(1) lag Let_def del: selects.simps)
    moreover have "fst (read_lag p store1) = lag" using R(5) by (simp add: read_lag_def)
    ultimately show ?thesis using False R(3,4) assms(2) rl by (simp del: selects.simps)
  qed
qed


definition sample_state :: "unit json_items" where
  "sample_state = [(PyStr ''last_sequence_number'', PyInt 7)]"

definition sample_store :: "unit consumer_store" where
  "sample_store = fst (record_processed (stored_event_converter :: (unit, unit event, unit) state_converter)
     \<lparr>se_id = ''i'', se_name = ''n'', se_stream = ''s'', se_category = ''c'', se_position = 0,
      se_sequence_number = 7, se_payload = PyNone, se_observed_at = 0, se_occurred_at = 0\<rparr>
     None ''default'' (new_consumer_store ''state'' (Some 1)))"

theorem state_save_guarded_witness:
  "\<exists>ad' store'. save_partition sample_store_env (\<lambda>_. 0) ''default'' sample_adapter sample_store
       = (ad', store', Inr ())
     \<and> snd (load_state ad' ''default'' (new_consumer_store ''state'' None)) = Inr (Some sample_state)"
proof -
  have ok: "store_ok sample_adapter" by (simp add: store_ok_def)
  have store: "state_of ''default'' sample_store = Some sample_state"
    "fst (read_lag ''default'' sample_store) \<noteq> 0" "position_of ''default'' sample_store = None"
    "cst_category sample_store = ''state''"
    by (simp_all add: sample_store_def sample_state_def record_processed_def read_lag_def
        new_consumer_store_def stored_event_converter_def stored_event_to_state_def state_of_def
        position_of_def Let_def)
  have "is_json_object (PyDict sample_state)" by (simp add: sample_state_def)
  from state_save_guarded [OF ok store(1) this store(2), of sample_store_env "\<lambda>_. 0"] store(3,4)
  show ?thesis by (auto simp del: selects.simps)
qed

text \<open>A reset is not saved: it clears the count of unsaved events that \<open>save\<close> looks at.\<close>

lemma reset_is_not_saved:
  "save_partition env now p ad (reset_state conv extra p store)
     = (ad, reset_state conv extra p store, Inr ())"
  by (simp add: save_partition_def reset_state_def state_of_def read_lag_def)

end
