(* ===== verification/Source_Consumer.thy ===== *)
theory Source_Consumer
  imports Consumer_State
begin

section \<open>Consuming an event source\<close>

text \<open>
  Models \<open>processing/consumers/source.py\<close> and \<open>processing/consumers/types.py\<close>: the manager that
  acknowledges events and commits the consumer's state, the event iterators, the three kinds of
  processor, and \<open>EventSourceConsumer.consume_all\<close>.

  The world of a consumer run is the adapter that holds its persisted state, the state store
  object, the processor's own state and the manager's counters. The source is a function from
  constraints to a generator; its contract is the locale \<open>event_source\<close>. A processor of single
  events is a function on its state that may raise. A processor that drives the iterator itself
  is a program: a step function on its state that says what it does next (\<open>request\<close>), run with
  fuel, since it may never finish; a run that uses up its fuel is one that was cut off.

  The automatically committing iterator acknowledges an event when the next one is asked for: an
  event whose processing raised, or after which the processor stopped, is not acknowledged.
\<close>

subsection \<open>The processor manager\<close>

record ('o, 'w, 'x) world =
  wo_adapter :: "('o, 'w) memory_adapter"
  wo_store :: "'o consumer_store"
  wo_processor :: 'x
  wo_consumed :: int
  wo_processed :: int

abbreviation default_partition :: string where
  "default_partition \<equiv> ''default''"

definition increment_consumed :: "('o, 'w, 'x) world \<Rightarrow> ('o, 'w, 'x) world" where
  "increment_consumed w = w\<lparr>wo_consumed := wo_consumed w + 1\<rparr>"

fun acknowledge ::
  "('o, 'e, 'q) state_converter \<Rightarrow> 'e list \<Rightarrow> ('o, 'w, 'x) world \<Rightarrow> ('o, 'w, 'x) world" where
  "acknowledge conv [] w = w"
| "acknowledge conv (event # events) w =
     acknowledge conv events
       (w\<lparr>wo_store := fst (record_processed conv event None default_partition (wo_store w)),
          wo_processed := wo_processed w + 1\<rparr>)"

definition commit ::
  "'o store_env \<Rightarrow> (string \<Rightarrow> datetime) \<Rightarrow> bool \<Rightarrow> ('o, 'w, 'x) world
    \<Rightarrow> ('o, 'w, 'x) world \<times> unit res" where
  "commit env now force w =
     (let (ad, store, r) =
            (if force then save_state env now None (wo_adapter w) (wo_store w)
             else save_if_needed env now default_partition (wo_adapter w) (wo_store w))
      in (w\<lparr>wo_adapter := ad, wo_store := store\<rparr>, r))"

subsection \<open>Processing events one by one\<close>

type_synonym ('e, 'x) event_processor = "'e \<Rightarrow> 'x \<Rightarrow> 'x \<times> unit res"

text \<open>
  \<open>process_callback_event_iterator\<close>: the loop over the automatically committing iterator. After
  the processor returns, the iterator resumes: it acknowledges the event, commits if needed and
  counts the event as consumed.
\<close>

fun callback_loop ::
  "'o store_env \<Rightarrow> (string \<Rightarrow> datetime) \<Rightarrow> ('o, 'e, 'q) state_converter \<Rightarrow> ('e, 'x) event_processor
    \<Rightarrow> 'e list \<Rightarrow> py_error option \<Rightarrow> ('o, 'w, 'x) world \<Rightarrow> ('o, 'w, 'x) world \<times> unit res" where
  "callback_loop env now conv process [] ending w =
     (w, case ending of None \<Rightarrow> Inr () | Some err \<Rightarrow> Inl err)"
| "callback_loop env now conv process (event # events) ending w =
     (case process event (wo_processor w) of
        (x, Inl err) \<Rightarrow> (w\<lparr>wo_processor := x\<rparr>, Inl err)
      | (x, Inr _) \<Rightarrow>
          (case commit env now False (acknowledge conv [event] (w\<lparr>wo_processor := x\<rparr>)) of
             (w', Inl err) \<Rightarrow> (w', Inl err)
           | (w', Inr _) \<Rightarrow>
               callback_loop env now conv process events ending (increment_consumed w')))"

definition process_callback_event_iterator ::
  "'o store_env \<Rightarrow> (string \<Rightarrow> datetime) \<Rightarrow> ('o, 'e, 'q) state_converter \<Rightarrow> ('e, 'x) event_processor
    \<Rightarrow> bool \<Rightarrow> 'e gen \<Rightarrow> ('o, 'w, 'x) world \<Rightarrow> ('o, 'w, 'x) world \<times> unit res" where
  "process_callback_event_iterator env now conv process save_state_after_consumption source w =
     (case callback_loop env now conv process (fst source) (snd source) w of
        (w', Inl err) \<Rightarrow> (w', Inl err)
      | (w', Inr _) \<Rightarrow>
          if save_state_after_consumption then commit env now True w' else (w', Inr ()))"

subsection \<open>Processors that drive the iterator\<close>

datatype 'e request =
    NextEvent
  | Acknowledge "'e list"
  | Commit bool
  | Return
  | Raise py_error

text \<open>
  A program says what it does next; for \<open>NextEvent\<close> it is then given the event, or \<open>None\<close> at the
  end of the iteration. An exception of the iterator or of a commit ends the program.
\<close>

record ('e, 'x) iterator_processor =
  ip_step :: "'x \<Rightarrow> 'x \<times> 'e request"
  ip_deliver :: "'e option \<Rightarrow> 'x \<Rightarrow> 'x"

text \<open>
  \<open>process_managed_event_iterator\<close> with \<open>base_event_iterator\<close>: \<open>pending\<close> tells whether an event
  was yielded that the iterator has not yet counted.
\<close>

fun managed_loop ::
  "'o store_env \<Rightarrow> (string \<Rightarrow> datetime) \<Rightarrow> ('o, 'e, 'q) state_converter
    \<Rightarrow> ('e, 'x) iterator_processor \<Rightarrow> nat \<Rightarrow> 'e list \<Rightarrow> py_error option \<Rightarrow> bool
    \<Rightarrow> ('o, 'w, 'x) world \<Rightarrow> ('o, 'w, 'x) world \<times> unit res option" where
  "managed_loop env now conv proc 0 events ending pending w = (w, None)"
| "managed_loop env now conv proc (Suc fuel) events ending pending w =
     (let (x, request) = ip_step proc (wo_processor w); w1 = w\<lparr>wo_processor := x\<rparr>
      in case request of
           Return \<Rightarrow> (w1, Some (Inr ()))
         | Raise err \<Rightarrow> (w1, Some (Inl err))
         | Acknowledge es \<Rightarrow>
             managed_loop env now conv proc fuel events ending pending (acknowledge conv es w1)
         | Commit force \<Rightarrow>
             (case commit env now force w1 of
                (w2, Inl err) \<Rightarrow> (w2, Some (Inl err))
              | (w2, Inr _) \<Rightarrow> managed_loop env now conv proc fuel events ending pending w2)
         | NextEvent \<Rightarrow>
             (let w2 = (if pending then increment_consumed w1 else w1)
              in case events of
                   event # rest \<Rightarrow>
                     managed_loop env now conv proc fuel rest ending True
                       (w2\<lparr>wo_processor := ip_deliver proc (Some event) (wo_processor w2)\<rparr>)
                 | [] \<Rightarrow>
                     (case ending of
                        Some err \<Rightarrow> (w2, Some (Inl err))
                      | None \<Rightarrow>
                          managed_loop env now conv proc fuel [] None False
                            (w2\<lparr>wo_processor := ip_deliver proc None (wo_processor w2)\<rparr>))))"

text \<open>
  \<open>process_auto_commit_event_iterator\<close> with \<open>auto_commit_event_iterator\<close>: the processor only sees
  the events; asking for the next one acknowledges the pending one and commits if needed.
\<close>

fun auto_commit_loop ::
  "'o store_env \<Rightarrow> (string \<Rightarrow> datetime) \<Rightarrow> ('o, 'e, 'q) state_converter
    \<Rightarrow> ('e, 'x) iterator_processor \<Rightarrow> nat \<Rightarrow> 'e list \<Rightarrow> py_error option \<Rightarrow> 'e option
    \<Rightarrow> ('o, 'w, 'x) world \<Rightarrow> ('o, 'w, 'x) world \<times> unit res option" where
  "auto_commit_loop env now conv proc 0 events ending pending w = (w, None)"
| "auto_commit_loop env now conv proc (Suc fuel) events ending pending w =
     (let (x, request) = ip_step proc (wo_processor w); w1 = w\<lparr>wo_processor := x\<rparr>
      in case request of
           Return \<Rightarrow> (w1, Some (Inr ()))
         | Raise err \<Rightarrow> (w1, Some (Inl err))
         | Acknowledge es \<Rightarrow> (w1, Some (Inl (AttributeError ''acknowledge'')))
         | Commit force \<Rightarrow> (w1, Some (Inl (AttributeError ''commit'')))
         | NextEvent \<Rightarrow>
             (let (w2, resumed) =
                    (case pending of
                       None \<Rightarrow> (w1, Inr ())
                     | Some event \<Rightarrow>
                         (case commit env now False (acknowledge conv [event] w1) of
                            (w', Inl err) \<Rightarrow> (w', Inl err)
                          | (w', Inr _) \<Rightarrow> (increment_consumed w', Inr ())))
              in case resumed of
                   Inl err \<Rightarrow> (w2, Some (Inl err))
                 | Inr _ \<Rightarrow>
                     (case events of
                        event # rest \<Rightarrow>
                          auto_commit_loop env now conv proc fuel rest ending (Some event)
                            (w2\<lparr>wo_processor := ip_deliver proc (Some event) (wo_processor w2)\<rparr>)
                      | [] \<Rightarrow>
                          (case ending of
                             Some err \<Rightarrow> (w2, Some (Inl err))
                           | None \<Rightarrow>
                               auto_commit_loop env now conv proc fuel [] None None
                                 (w2\<lparr>wo_processor := ip_deliver proc None (wo_processor w2)\<rparr>)))))"

subsection \<open>EventSourceConsumer\<close>

datatype ('e, 'x) processor =
    ManagedEventIteratorProcessor "('e, 'x) iterator_processor"
  | AutoCommitEventIteratorProcessor "('e, 'x) iterator_processor"
  | EventProcessor "('e, 'x) event_processor"
  | OtherProcessor

definition process_event_iterator ::
  "'o store_env \<Rightarrow> (string \<Rightarrow> datetime) \<Rightarrow> ('o, 'e, 'q) state_converter \<Rightarrow> nat
    \<Rightarrow> ('e, 'x) processor \<Rightarrow> bool \<Rightarrow> 'e gen \<Rightarrow> ('o, 'w, 'x) world
    \<Rightarrow> ('o, 'w, 'x) world \<times> unit res option" where
  "process_event_iterator env now conv fuel processor save_state_after_consumption source w =
     (case processor of
        ManagedEventIteratorProcessor proc \<Rightarrow>
          managed_loop env now conv proc fuel (fst source) (snd source) False w
      | AutoCommitEventIteratorProcessor proc \<Rightarrow>
          auto_commit_loop env now conv proc fuel (fst source) (snd source) None w
      | EventProcessor process \<Rightarrow>
          (let (w', r) = process_callback_event_iterator env now conv process
                 save_state_after_consumption source w
           in (w', Some r))
      | OtherProcessor \<Rightarrow> (w, Some (Inl (TypeError ''Unsupported processor type''))))"

definition consume_all ::
  "'o store_env \<Rightarrow> (string \<Rightarrow> datetime) \<Rightarrow> ('o, 'e, 'q) state_converter \<Rightarrow> nat
    \<Rightarrow> ('e, 'x) processor \<Rightarrow> bool \<Rightarrow> ('q query_constraint list \<Rightarrow> 'e gen) \<Rightarrow> ('o, 'w, 'x) world
    \<Rightarrow> ('o, 'w, 'x) world \<times> unit res option" where
  "consume_all env now conv fuel processor save_state_after_consumption iterate w =
     (case load_to_query_constraint conv (wo_adapter w) default_partition (wo_store w) of
        (store, Inl err) \<Rightarrow> (w\<lparr>wo_store := store\<rparr>, Some (Inl err))
      | (store, Inr query_constraint) \<Rightarrow>
          process_event_iterator env now conv fuel processor save_state_after_consumption
            (iterate (case query_constraint of Some c \<Rightarrow> [c] | None \<Rightarrow> []))
            (w\<lparr>wo_store := store, wo_consumed := 0, wo_processed := 0\<rparr>))"

subsection \<open>Runs of a consumer\<close>

text \<open>
  The events a processor gets through, from the first of a list to one it raises at: the events
  it processed, its state then, and the exception.
\<close>

fun process_run ::
  "('e, 'x) event_processor \<Rightarrow> 'e list \<Rightarrow> 'x \<Rightarrow> 'e list \<times> 'x \<times> py_error option" where
  "process_run process [] x = ([], x, None)"
| "process_run process (e # es) x =
     (case process e x of
        (x', Inl err) \<Rightarrow> ([], x', Some err)
      | (x', Inr _) \<Rightarrow> (let (processed, x2, err) = process_run process es x' in (e # processed, x2, err)))"

lemma process_run_prefix:
  "process_run process es x = (processed, x', err) \<Longrightarrow> \<exists>rest. es = processed @ rest \<and> (err = None \<longrightarrow> rest = [])"
proof (induction es arbitrary: x processed)
  case (Cons e es)
  show ?case
  proof (cases "process e x")
    case (Pair y r)
    then show ?thesis
      using Cons by (cases r; cases "process_run process es y") auto
  qed
qed auto

text \<open>
  The state after a loop over \<open>processed\<close> events, of which the first \<open>k\<close> are covered by the last save.
\<close>

definition tracked_upto ::
  "('o, 'e, 'q) state_converter \<Rightarrow> 'o event list \<Rightarrow> 'o json_items option \<Rightarrow> 'o json_items option \<Rightarrow> int
    \<Rightarrow> 'e list \<Rightarrow> nat \<Rightarrow> ('o, 'w, 'x) world \<Rightarrow> bool" where
  "tracked_upto conv rest saved current lag processed k w \<longleftrightarrow>
     k \<le> length processed \<and>
     tracks default_partition rest (wo_adapter w) (wo_store w)
       (if k = 0 then saved else Some (event_to_state conv (processed ! (k - 1))))
       (if processed = [] then current else Some (event_to_state conv (last processed)))
       ((if k = 0 then lag else 0) + int (length processed - k))"

lemma commit_tracks:
  assumes "tracks default_partition rest (wo_adapter w) (wo_store w) saved (Some s) lag"
  obtains w' where "commit env now False w = (w', Inr ())"
    "wo_processor w' = wo_processor w" "cst_interval (wo_store w') = cst_interval (wo_store w)"
    "cst_category (wo_store w') = cst_category (wo_store w)"
    "tracks default_partition rest (wo_adapter w') (wo_store w')
       (if needs_save (cst_interval (wo_store w)) lag \<and> lag \<noteq> 0 then Some s else saved) (Some s)
       (if needs_save (cst_interval (wo_store w)) lag then 0 else lag)"
proof -
  obtain ad store where "save_if_needed env now default_partition (wo_adapter w) (wo_store w) = (ad, store, Inr ())"
    "cst_category store = cst_category (wo_store w)" "cst_interval store = cst_interval (wo_store w)"
    "tracks default_partition rest ad store
       (if needs_save (cst_interval (wo_store w)) lag \<and> lag \<noteq> 0 then Some s else saved) (Some s)
       (if needs_save (cst_interval (wo_store w)) lag then 0 else lag)"
    using save_if_needed_tracks [OF assms, of env now] by blast
  then show thesis
    using that [of "w\<lparr>wo_adapter := ad, wo_store := store\<rparr>"] by (simp add: commit_def)
qed

lemma force_commit_tracks:
  assumes "tracks default_partition rest (wo_adapter w) (wo_store w) saved current lag"
  obtains w' where "commit env now True w = (w', Inr ())" "wo_processor w' = wo_processor w"
    "cst_category (wo_store w') = cst_category (wo_store w)"
    "tracks default_partition rest (wo_adapter w') (wo_store w')
       (if lag = 0 \<or> current = None then saved else current) current (if current = None then lag else 0)"
proof -
  obtain ad store where "save_state env now None (wo_adapter w) (wo_store w) = (ad, store, Inr ())"
    "cst_category store = cst_category (wo_store w)"
    "tracks default_partition rest ad store (if lag = 0 \<or> current = None then saved else current) current
       (if current = None then lag else 0)"
    using save_state_tracks [OF assms, of None env now] by blast
  then show thesis
    using that [of "w\<lparr>wo_adapter := ad, wo_store := store\<rparr>"] by (simp add: commit_def)
qed

lemma acknowledge_tracks:
  assumes "tracks default_partition rest (wo_adapter w) (wo_store w) saved current lag"
    and "is_json_object (PyDict (event_to_state conv e))"
  shows "tracks default_partition rest (wo_adapter (acknowledge conv [e] w))
      (wo_store (acknowledge conv [e] w)) saved (Some (event_to_state conv e)) (lag + 1)"
    "cst_interval (wo_store (acknowledge conv [e] w)) = cst_interval (wo_store w)"
    "cst_category (wo_store (acknowledge conv [e] w)) = cst_category (wo_store w)"
    "wo_processor (acknowledge conv [e] w) = wo_processor w"
  using record_processed_tracks [OF assms] by simp_all

lemma callback_loop_tracks:
  assumes "tracks default_partition rest (wo_adapter w) (wo_store w) saved current lag"
    and "\<forall>e \<in> set es. is_json_object (PyDict (event_to_state conv e))"
    and "process_run process es (wo_processor w) = (processed, x', err)"
  shows "\<exists>w' k. callback_loop env now conv process es None w
      = (w', case err of None \<Rightarrow> Inr () | Some e \<Rightarrow> Inl e)
    \<and> wo_processor w' = x' \<and> cst_category (wo_store w') = cst_category (wo_store w)
    \<and> tracked_upto conv rest saved current lag processed k w'
    \<and> (\<forall>n. cst_interval (wo_store w) = Some n \<and> 0 < n \<and> lag < n
         \<longrightarrow> (if k = 0 then lag else 0) + int (length processed - k) < n)"
  using assms
proof (induction es arbitrary: w saved current lag processed)
  case Nil
  then show ?case by (auto simp: tracked_upto_def)
next
  case (Cons e es)
  obtain y r where p: "process e (wo_processor w) = (y, r)" by fastforce
  show ?case
  proof (cases r)
    case (Inl er)
    then show ?thesis using Cons.prems p by (auto simp: tracked_upto_def)
  next
    case (Inr u)
    obtain processed' where run: "process_run process es y = (processed', x', err)" "processed = e # processed'"
      using Cons.prems(3) p Inr by (cases "process_run process es y") auto
    let ?w1 = "w\<lparr>wo_processor := y\<rparr>"
    let ?s = "event_to_state conv e"
    have t1: "tracks default_partition rest (wo_adapter ?w1) (wo_store ?w1) saved current lag"
      using Cons.prems(1) by simp
    note ack = acknowledge_tracks [OF t1, of conv e]
    have json: "is_json_object (PyDict ?s)" using Cons.prems(2) by simp
    let ?save = "needs_save (cst_interval (wo_store w)) (lag + 1)"
    have lag0: "0 \<le> lag" using Cons.prems(1) by (simp add: tracks_def)
    obtain w2 where w2: "commit env now False (acknowledge conv [e] ?w1) = (w2, Inr ())"
      "wo_processor w2 = y" "cst_interval (wo_store w2) = cst_interval (wo_store w)"
      "cst_category (wo_store w2) = cst_category (wo_store w)"
      "tracks default_partition rest (wo_adapter w2) (wo_store w2) (if ?save then Some ?s else saved) (Some ?s)
         (if ?save then 0 else lag + 1)"
      using commit_tracks [OF ack(1) [OF json], of env now] ack(2-4) [OF json] lag0
      by (auto simp: add_eq_0_iff_both_eq_0)
    let ?w3 = "increment_consumed w2"
    have t3: "tracks default_partition rest (wo_adapter ?w3) (wo_store ?w3) (if ?save then Some ?s else saved)
        (Some ?s) (if ?save then 0 else lag + 1)"
      using w2(5) by (simp add: increment_consumed_def)
    have es: "\<forall>e \<in> set es. is_json_object (PyDict (event_to_state conv e))"
      using Cons.prems(2) by simp
    let ?lag = "if ?save then 0 else lag + 1"
    have run3: "process_run process es (wo_processor ?w3) = (processed', x', err)"
      using run(1) w2(2) by (simp add: increment_consumed_def)
    obtain w' k0 where IH: "callback_loop env now conv process es None ?w3
        = (w', case err of None \<Rightarrow> Inr () | Some e \<Rightarrow> Inl e)"
      "wo_processor w' = x'" "cst_category (wo_store w') = cst_category (wo_store ?w3)"
      "tracked_upto conv rest (if ?save then Some ?s else saved) (Some ?s) ?lag processed' k0 w'"
      "\<forall>n. cst_interval (wo_store ?w3) = Some n \<and> 0 < n \<and> ?lag < n
         \<longrightarrow> (if k0 = 0 then ?lag else 0) + int (length processed' - k0) < n"
      using Cons.IH [OF t3 es run3] by blast
    let ?k = "if k0 = 0 then (if ?save then 1 else 0) else Suc k0"
    have "callback_loop env now conv process (e # es) None w
        = (w', case err of None \<Rightarrow> Inr () | Some e \<Rightarrow> Inl e)"
      using p Inr w2(1) IH(1) by simp
    moreover have "cst_category (wo_store w') = cst_category (wo_store w)"
      using IH(3) w2(4) by (simp add: increment_consumed_def)
    moreover have "tracked_upto conv rest saved current lag processed ?k w'"
      using IH(4) by (cases k0; cases "processed' = []") (auto simp: tracked_upto_def run(2) algebra_simps)
    moreover have "(if ?k = 0 then lag else 0) + int (length processed - ?k) < n"
      if n: "cst_interval (wo_store w) = Some n \<and> 0 < n \<and> lag < n" for n
    proof -
      have "?lag < n" using n by (auto simp: needs_save_def)
      then have "(if k0 = 0 then ?lag else 0) + int (length processed' - k0) < n"
        using IH(5) n w2(3) by (simp add: increment_consumed_def)
      then show ?thesis by (cases k0) (auto simp: run(2) split: if_splits)
    qed
    ultimately show ?thesis using IH(2) by blast
  qed
qed


subsection \<open>Resuming\<close>

text \<open>
  The events of category \<open>src\<close> that a consumer started afresh, with its state in category \<open>st\<close>,
  goes on to read.
\<close>

definition unread :: "('o, 'w) memory_adapter \<Rightarrow> string \<Rightarrow> string \<Rightarrow> 'o event list" where
  "unread ad src st =
     (case snd (load_to_query_constraint
              (stored_event_converter :: ('o, 'o event, unit) state_converter) ad default_partition
              (new_consumer_store st None)) of
        Inl _ \<Rightarrow> []
      | Inr query_constraint \<Rightarrow>
          fst (source_iterate ad (store_category src)
            (case query_constraint of Some c \<Rightarrow> [c] | None \<Rightarrow> [])))"

definition after_state :: "'o json_items option \<Rightarrow> ('n, 'p) stored_event \<Rightarrow> bool" where
  "after_state saved e =
     (case saved of
        None \<Rightarrow> True
      | Some s \<Rightarrow>
          (case stored_event_state_to_query_constraint s :: unit query_constraint option of
             None \<Rightarrow> True | Some c \<Rightarrow> meets e c))"

lemma deserialised_json: "deserialise_state v = Inr s \<Longrightarrow> is_json_object (PyDict s)"
proof -
  have upd: "list_all P (AList.update k x d)" if "list_all P d" "P (k, x)"
    for P and k :: "'a pyval" and x :: "'a pyval" and d
    using that by (induction d) auto
  have val: "is_json_value x"
    if "list_all (\<lambda>kv. is_py_str (fst kv) \<and> is_json_value (snd kv)) kvs" "map_of kvs k = Some x"
    for kvs :: "('a pyval \<times> 'a pyval) list" and k x
    using map_of_SomeD [OF that(2)] that(1) by (auto simp: list_all_iff)
  assume "deserialise_state v = Inr s"
  then show ?thesis
    by (auto simp: deserialise_state_def normalise_state_def Let_def intro!: upd dest: val
        split: pyval.splits if_splits option.splits)
qed

lemma category_is_scannable: "scannable (CategoryIdentifier c)"
  by (simp add: scannable_def is_event_sequence_identifier_def)

lemma category_iterate:
  assumes "store_ok ad" "list_all built_in_constraint cs"
  shows "source_iterate ad (store_category src) cs
    = (filter (\<lambda>e. list_all (meets e) cs) (filter (\<lambda>e. se_category e = src) (db_log (ad_db ad))), None)"
proof -
  have "selects (CategoryIdentifier src) = (\<lambda>e. se_category e = src)" by (rule ext) simp
  then show ?thesis
    using assms category_is_scannable [of src]
    by (simp add: source_iterate_def adapter_scan_def db_scan_events_refines store_category_def
        memory_iterate_default store_ok_def adapter_inv_def)
qed

lemma constraint_built_in:
  "stored_event_state_to_query_constraint s = Some c \<Longrightarrow> built_in_constraint c"
  by (auto simp: stored_event_state_to_query_constraint_def sequence_number_after_def
      split: option.splits)

lemma iterate_after:
  assumes "store_ok ad"
  shows "source_iterate ad (store_category src)
      (case Option.bind saved stored_event_state_to_query_constraint of
         Some c \<Rightarrow> [c :: unit query_constraint] | None \<Rightarrow> [])
    = (filter (after_state saved) (filter (\<lambda>e. se_category e = src) (db_log (ad_db ad))), None)"
proof (cases "Option.bind saved stored_event_state_to_query_constraint :: unit query_constraint option")
  case None
  then have "after_state saved = (\<lambda>e :: 'a event. True)"
    by (cases saved) (auto simp: after_state_def fun_eq_iff)
  then show ?thesis using None category_iterate [OF assms, of "[]"] by simp
next
  case (Some c)
  then obtain s where s: "saved = Some s" "stored_event_state_to_query_constraint s = Some c"
    by (cases saved) auto
  have "after_state saved = (\<lambda>e :: 'a event. meets e c)"
    using s by (simp add: after_state_def fun_eq_iff)
  then show ?thesis
    using Some category_iterate [OF assms, of "[c]"] constraint_built_in [OF s(2)] by simp
qed

lemma outside_category:
  "src \<noteq> st \<Longrightarrow> filter (\<lambda>e. se_category e = src) (outside st ad)
     = filter (\<lambda>e. se_category e = src) (db_log (ad_db ad))"
  by (auto simp: outside_def intro!: filter_cong)

lemma load_constraint:
  assumes "store_ok ad" "persisted ad st default_partition = map_option Inr saved"
    and "\<forall>s. saved = Some s \<longrightarrow> is_json_object (PyDict s)"
  obtains store where "load_to_query_constraint (stored_event_converter :: ('o, 'o event, unit) state_converter)
      ad default_partition (new_consumer_store st interval)
    = (store, Inr (Option.bind saved stored_event_state_to_query_constraint))"
    "cst_category store = st" "cst_interval store = interval"
    "tracks default_partition (outside st ad) ad store saved saved 0"
proof -
  obtain store where "load_state ad default_partition (new_consumer_store st interval) = (store, Inr saved)"
    "cst_category store = st" "cst_interval store = interval"
    "tracks default_partition (outside st ad) ad store saved saved 0"
    using load_state_tracks [OF assms] by blast
  then show thesis
    using that [of store]
    by (cases saved) (simp_all add: load_to_query_constraint_def stored_event_converter_def)
qed

lemma unread_eq:
  assumes "store_ok ad" "persisted ad st default_partition = map_option Inr saved"
    and "\<forall>s. saved = Some s \<longrightarrow> is_json_object (PyDict s)" and "src \<noteq> st"
  shows "unread ad src st
    = filter (after_state saved) (filter (\<lambda>e. se_category e = src) (outside st ad))"
proof -
  obtain store where "load_to_query_constraint (stored_event_converter :: ('a, 'a event, unit) state_converter)
      ad default_partition (new_consumer_store st None)
    = (store, Inr (Option.bind saved stored_event_state_to_query_constraint))"
    using load_constraint [OF assms(1-3), of None] by blast
  then show ?thesis
    using assms(1,4) by (simp add: unread_def iterate_after outside_category)
qed

lemma log_sorted:
  "store_ok ad \<Longrightarrow> sorted_wrt (<) (map se_sequence_number (db_log (ad_db ad)))"
  by (simp add: store_ok_def adapter_inv_def db_log_index_seq)

lemma after_drop:
  assumes "sorted_wrt (<) (map se_sequence_number (xs :: ('n, 'p) stored_event list))" "0 < k" "k \<le> length xs"
  shows "filter (\<lambda>e. se_sequence_number (xs ! (k - 1)) < se_sequence_number e) xs = drop k xs"
proof -
  have split: "xs = take k xs @ drop k xs" by simp
  have "filter (\<lambda>e. se_sequence_number (xs ! (k - 1)) < se_sequence_number e) (take k xs) = []"
    unfolding filter_empty_conv
  proof
    fix e assume "e \<in> set (take k xs)"
    then obtain j where j: "j < k" "e = xs ! j" by (auto simp: in_set_conv_nth)
    then have "j = k - 1 \<or> j < k - 1" by linarith
    then have "j = k - 1 \<or> se_sequence_number e < se_sequence_number (xs ! (k - 1))"
      using assms j by (auto simp: sorted_wrt_iff_nth_less)
    then show "\<not> se_sequence_number (xs ! (k - 1)) < se_sequence_number e" using j(2) by auto
  qed
  moreover have "filter (\<lambda>e. se_sequence_number (xs ! (k - 1)) < se_sequence_number e) (drop k xs) = drop k xs"
    using assms by (auto simp: filter_id_conv in_set_conv_nth sorted_wrt_iff_nth_less)
  ultimately show ?thesis by (subst split) (simp only: filter_append append_Nil)
qed


lemma stored_states_json: "is_json_object (PyDict (event_to_state (stored_event_converter ::
    ('o, 'o event, unit) state_converter) e))"
  by (simp add: stored_event_converter_def stored_event_to_state_def)

lemma unread_after_progress:
  assumes "store_ok ad" "src \<noteq> st"
    and es: "es = filter (after_state saved) (filter (\<lambda>e. se_category e = src) (outside st ad))"
    and "0 < k" "k \<le> length es"
  shows "filter (after_state (Some (stored_event_to_state (es ! (k - 1)))))
      (filter (\<lambda>e. se_category e = src) (outside st ad)) = drop k es"
proof -
  let ?C = "filter (\<lambda>e. se_category e = src) (outside st ad)"
  define n where "n = se_sequence_number (es ! (k - 1))"
  have "sorted_wrt (<) (map se_sequence_number ?C)"
    using log_sorted [OF assms(1)] by (simp add: outside_def sorted_wrt_map sorted_wrt_filter)
  then have sorted: "sorted_wrt (<) (map se_sequence_number es)"
    unfolding es by (simp add: sorted_wrt_map sorted_wrt_filter del: filter_filter)
  have kth: "after_state saved (es ! (k - 1))"
    using assms(4,5) es nth_mem [of "k - 1" es] by auto
  have mono: "after_state saved e" if "n < se_sequence_number e" for e :: "'a event"
    using kth that
    by (auto simp: n_def after_state_def stored_event_state_to_query_constraint_def
        sequence_number_after_def split: option.splits)
  have "filter (after_state (Some (stored_event_to_state (es ! (k - 1))))) ?C
      = filter (\<lambda>e. n < se_sequence_number e) ?C"
    by (rule filter_cong)
      (simp_all add: n_def after_state_def stored_event_to_state_def sequence_number_after_def
        stored_event_state_to_query_constraint_def)
  also have "\<dots> = filter (\<lambda>e. n < se_sequence_number e) es"
    unfolding es filter_filter by (rule filter_cong) (use mono in auto)
  also have "\<dots> = drop k es" unfolding n_def by (rule after_drop [OF sorted assms(4,5)])
  finally show ?thesis .
qed

lemma loadable_state:
  assumes "store_ok ad" "is_ok (snd (load_state ad p (new_consumer_store st None)))"
  obtains saved where "persisted ad st p = map_option Inr saved"
    "\<forall>s. saved = Some s \<longrightarrow> is_json_object (PyDict s)"
proof (cases "stream_latest ad st p")
  case None
  then show thesis using that [of None] by (simp add: persisted_def)
next
  case (Some e)
  have "load_state ad p (new_consumer_store st None)
      = (case deserialise_state (se_payload e) of
           Inl err \<Rightarrow> (new_consumer_store st None, Inl err)
         | Inr state \<Rightarrow> ((new_consumer_store st None)\<lparr>cst_states := [(p, Some state)],
             cst_positions := [(p, Some (se_position e))]\<rparr>, Inr (Some state)))"
    using latest_of_stream [OF assms(1), of st p] Some
    by (simp add: load_state_def new_consumer_store_def state_of_def store_stream_def
        del: selects.simps split: sum.split)
  then obtain s where "deserialise_state (se_payload e) = Inr s"
    using assms(2) by (cases "deserialise_state (se_payload e)") auto
  then show thesis
    using that [of "Some s"] Some deserialised_json [of "se_payload e" s]
    by (simp add: persisted_def del: selects.simps)
qed

text \<open>The end of a run in terms of the state store, and what is unread then.\<close>

lemma unread_of_tracked:
  assumes "tracked_upto (stored_event_converter :: ('o, 'o event, unit) state_converter)
      (outside st ad) saved saved 0 processed k w'"
    and "cst_category (wo_store w') = st" "src \<noteq> st" "es = processed @ rest"
    and es: "es = filter (after_state saved) (filter (\<lambda>e. se_category e = src) (outside st ad))"
    and "\<forall>s. saved = Some s \<longrightarrow> is_json_object (PyDict s)"
  shows "unread (wo_adapter w') src st = drop k es \<and> store_ok (wo_adapter w')"
proof -
  have T: "store_ok (wo_adapter w')" "outside st (wo_adapter w') = outside st ad"
    "persisted (wo_adapter w') st default_partition = map_option Inr
       (if k = 0 then saved else Some (stored_event_to_state (processed ! (k - 1))))"
    "k \<le> length processed"
    using assms(1,2)
    by (auto simp: tracked_upto_def tracks_def stored_event_converter_def split: if_splits)
  let ?saved = "if k = 0 then saved else Some (stored_event_to_state (es ! (k - 1)))"
  have nth: "k \<noteq> 0 \<Longrightarrow> processed ! (k - 1) = es ! (k - 1)"
    using T(4) assms(4) by (simp add: nth_append)
  have "unread (wo_adapter w') src st
      = filter (after_state ?saved) (filter (\<lambda>e. se_category e = src) (outside st (wo_adapter w')))"
    by (rule unread_eq [OF T(1) _ _ assms(3)])
      (use T(3) nth assms(6) in \<open>auto simp: stored_event_to_state_def split: if_splits\<close>)
  also have "\<dots> = drop k es"
  proof (cases "k = 0")
    case True
    then show ?thesis using es T(2) by (simp del: filter_filter)
  next
    case False
    have "k \<le> length es" using T(4) assms(4) by simp
    then show ?thesis
      using unread_after_progress [OF T(1) assms(3), of es saved k] es False
      unfolding T(2) by (simp del: filter_filter)
  qed
  finally show ?thesis using T(1) by simp
qed

text \<open>The loop over all the events, and the commit that may follow it\<close>

lemma whole_loop:
  fixes w :: "('o, 'w, 'x) world"
  assumes "tracks default_partition rest (wo_adapter w) (wo_store w) saved saved 0"
    and "process_run process es (wo_processor w) = (processed, x', err)"
  obtains w' k where "callback_loop env now (stored_event_converter :: ('o, 'o event, unit) state_converter) process es None w
      = (w', case err of None \<Rightarrow> Inr () | Some e \<Rightarrow> Inl e)" "wo_processor w' = x'"
    "cst_category (wo_store w') = cst_category (wo_store w)"
    "tracked_upto (stored_event_converter :: ('o, 'o event, unit) state_converter) rest saved saved 0 processed k w'"
    "\<forall>n. cst_interval (wo_store w) = Some n \<and> 0 < n \<longrightarrow> int (length processed - k) < n"
proof -
  let ?conv = "stored_event_converter :: ('o, 'o event, unit) state_converter"
  have "\<forall>e \<in> set es. is_json_object (PyDict (event_to_state ?conv e))" using stored_states_json by blast
  from callback_loop_tracks [OF assms(1) this assms(2), of env now] show thesis using that by auto
qed

lemma final_commit:
  assumes "tracked_upto conv rest saved saved 0 processed k w"
  obtains w' where "commit env now True w = (w', Inr ())" "wo_processor w' = wo_processor w"
    "cst_category (wo_store w') = cst_category (wo_store w)"
    "tracked_upto conv rest saved saved 0 processed (length processed) w'"
proof -
  let ?lag = "int (length processed - k)"
    and ?current = "if processed = [] then saved else Some (event_to_state conv (last processed))"
    and ?saved = "if k = 0 then saved else Some (event_to_state conv (processed ! (k - 1)))"
  have t: "tracks default_partition rest (wo_adapter w) (wo_store w) ?saved ?current ?lag"
    and k: "k \<le> length processed" using assms by (auto simp: tracked_upto_def)
  obtain w' where c: "commit env now True w = (w', Inr ())" "wo_processor w' = wo_processor w"
    "cst_category (wo_store w') = cst_category (wo_store w)"
    "tracks default_partition rest (wo_adapter w') (wo_store w') (if ?lag = 0 \<or> ?current = None then ?saved else ?current)
      ?current (if ?current = None then ?lag else 0)"
    using force_commit_tracks [OF t, of env now] by blast
  have "tracked_upto conv rest saved saved 0 processed (length processed) w'"
    using c(4) k
    by (cases "processed = []"; cases "k = length processed")
      (auto simp: tracked_upto_def last_conv_nth split: if_splits)
  then show thesis using that c by blast
qed

text \<open>
  C21. A consumer run over a category, whatever its outcome, loses nothing and repeats little.
  The processor is given the unread events in order, each once, up to the first it raises at,
  and the run raises what it raised. Afterwards a consumer started afresh resumes with a suffix
  of those events that includes every event that was not processed; what it is given again is
  fewer than the persistence interval, and nothing if the run completed and saved its state.
\<close>

theorem consumer_resumes:
  fixes ad :: "('o, 'w) memory_adapter"
  assumes "store_ok ad" and "src \<noteq> st"
    and "is_ok (snd (load_state ad default_partition (new_consumer_store st None)))"
    and "process_run process (unread ad src st) x = (processed, x', err)"
  shows "\<exists>w'. consume_all env now (stored_event_converter :: ('o, 'o event, unit) state_converter) fuel
        (EventProcessor process) save_after (source_iterate ad (store_category src))
        \<lparr>wo_adapter = ad, wo_store = new_consumer_store st interval, wo_processor = x,
         wo_consumed = 0, wo_processed = 0\<rparr>
      = (w', Some (case err of None \<Rightarrow> Inr () | Some e \<Rightarrow> Inl e))
    \<and> wo_processor w' = x' \<and> store_ok (wo_adapter w')
    \<and> (\<exists>k \<le> length processed. unread (wo_adapter w') src st = drop k (unread ad src st)
         \<and> (\<forall>n. interval = Some n \<and> 0 < n \<longrightarrow> int (length processed - k) < n)
         \<and> (err = None \<and> save_after \<longrightarrow> k = length processed))"
proof -
  let ?conv = "stored_event_converter :: ('o, 'o event, unit) state_converter"
  obtain saved where saved: "persisted ad st default_partition = map_option Inr saved"
    "\<forall>s. saved = Some s \<longrightarrow> is_json_object (PyDict s)" using loadable_state [OF assms(1,3)] by blast
  let ?es = "filter (after_state saved) (filter (\<lambda>e. se_category e = src) (outside st ad))"
  have es: "unread ad src st = ?es" by (rule unread_eq [OF assms(1) saved assms(2)])
  obtain store where store: "load_to_query_constraint ?conv ad default_partition
      (new_consumer_store st interval)
      = (store, Inr (Option.bind saved stored_event_state_to_query_constraint))"
    "cst_category store = st" "cst_interval store = interval"
    "tracks default_partition (outside st ad) ad store saved saved 0"
    using load_constraint [OF assms(1) saved] by blast
  let ?w = "\<lparr>wo_adapter = ad, wo_store = store, wo_processor = x, wo_consumed = 0, wo_processed = 0\<rparr>"
  have run: "process_run process ?es (wo_processor ?w) = (processed, x', err)"
    using assms(4) es by simp
  obtain rest where rest: "?es = processed @ rest" "err = None \<longrightarrow> rest = []"
    using process_run_prefix [OF run] by blast
  have tracks: "tracks default_partition (outside st ad) (wo_adapter ?w) (wo_store ?w) saved saved 0"
    using store(4) by simp
  obtain w1 k where loop: "callback_loop env now ?conv process ?es None ?w
      = (w1, case err of None \<Rightarrow> Inr () | Some e \<Rightarrow> Inl e)" "wo_processor w1 = x'"
    "cst_category (wo_store w1) = st" "tracked_upto ?conv (outside st ad) saved saved 0 processed k w1"
    "\<forall>n. interval = Some n \<and> 0 < n \<longrightarrow> int (length processed - k) < n"
    by (rule whole_loop [OF tracks run, of env now]) (rule that, simp_all add: store(2,3) del: filter_filter)
  let ?start = "\<lparr>wo_adapter = ad, wo_store = new_consumer_store st interval, wo_processor = x,
     wo_consumed = 0, wo_processed = 0\<rparr>"
  have consume: "consume_all env now ?conv fuel (EventProcessor process) save_after
      (source_iterate ad (store_category src)) ?start
    = (case callback_loop env now ?conv process ?es None ?w of
         (w', Inl err) \<Rightarrow> (w', Some (Inl err))
       | (w', Inr _) \<Rightarrow>
           if save_after then (let (w2, r) = commit env now True w' in (w2, Some r)) else (w', Some (Inr ())))"
    using store(1) iterate_after [OF assms(1), of src saved]
    by (simp add: consume_all_def process_event_iterator_def process_callback_event_iterator_def
        outside_category [OF assms(2)] del: filter_filter split: prod.split sum.split)
  note end1 = unread_of_tracked [OF loop(4,3) assms(2) rest(1) refl saved(2)]
  show ?thesis
  proof (cases "err = None \<and> save_after")
    case False
    then have "consume_all env now ?conv fuel (EventProcessor process) save_after
        (source_iterate ad (store_category src)) ?start
        = (w1, Some (case err of None \<Rightarrow> Inr () | Some e \<Rightarrow> Inl e))"
      unfolding consume loop(1) by (cases err) auto
    then show ?thesis
      using loop(2,4,5) end1 False unfolding es tracked_upto_def by blast
  next
    case True
    obtain w2 where w2: "commit env now True w1 = (w2, Inr ())" "wo_processor w2 = wo_processor w1"
      "cst_category (wo_store w2) = cst_category (wo_store w1)"
      "tracked_upto ?conv (outside st ad) saved saved 0 processed (length processed) w2"
      by (rule final_commit [OF loop(4), of env now])
    note end2 = unread_of_tracked [OF w2(4) _ assms(2) rest(1) refl saved(2)]
    have "consume_all env now ?conv fuel (EventProcessor process) save_after
        (source_iterate ad (store_category src)) ?start = (w2, Some (Inr ()))"
      unfolding consume loop(1) using True w2(1) by simp
    then show ?thesis
      using end2 w2(2,3) loop(2,3) True unfolding es by (auto simp del: filter_filter)
  qed
qed


definition counting_processor :: "('e, int) event_processor" where
  "counting_processor e n = (n + 1, Inr ())"

theorem consumer_resumes_witness:
  "\<exists>(ad :: (unit, unit) memory_adapter) w'. consume_all sample_store_env (\<lambda>_. 0)
       (stored_event_converter :: (unit, unit event, unit) state_converter) 0
       (EventProcessor counting_processor) True (source_iterate ad (store_category ''c''))
       \<lparr>wo_adapter = ad, wo_store = new_consumer_store ''state'' (Some 100), wo_processor = 0,
        wo_consumed = 0, wo_processed = 0\<rparr> = (w', Some (Inr ()))
     \<and> wo_processor w' = 1 \<and> unread (wo_adapter w') ''c'' ''state'' = []"
proof -
  let ?ad = "fst (sample_publish sample_adapter ''created'')"
  have "is_ok (snd (sample_publish sample_adapter ''created''))" by code_simp
  then obtain st where p0: "sample_publish sample_adapter ''created'' = (?ad, Inr st)"
    by (cases "sample_publish sample_adapter ''created''") (auto simp: is_ok_iff)
  have ok: "store_ok ?ad"
    using published_events [OF adapter_inv_new sample_conditions _ p0]
      saved_conditions [OF stream_publish_saved [OF p0]] by (auto simp: store_ok_def)
  have load: "is_ok (snd (load_state ?ad default_partition (new_consumer_store ''state'' None)))"
    by code_simp
  have "map se_sequence_number (unread ?ad ''c'' ''state'') = [0]" by code_simp
  then obtain e where e: "unread ?ad ''c'' ''state'' = [e]" by auto
  have run: "process_run counting_processor (unread ?ad ''c'' ''state'') 0 = ([e], 1, None)"
    by (simp add: e counting_processor_def)
  from consumer_resumes [OF ok _ load run, of sample_store_env "\<lambda>_. 0" 0 True "Some 100"] e
  show ?thesis by (intro exI [of _ ?ad]) auto
qed

end
