(* ===== verification/Broker_State.thy ===== *)
theory Broker_State
  imports Event_Types
begin

section \<open>Broker state: subscribers, subscriptions, statuses\<close>

text \<open>
  Models \<open>processing/broker/types.py\<close>, the subscriber instance store
  (\<open>processing/broker/subscribers/stores/instances/memory.py\<close>), the state stores of the
  distributed broker in memory (\<open>strategies/distributed/subscribers/stores/state/memory.py\<close>,
  \<open>strategies/distributed/subscriptions/stores/state/memory.py\<close> and their \<open>base.py\<close>) and
  \<open>processing/process/\<close>.

  A store object is a record of its attributes; its methods take and return it. The clock's
  reading is the argument \<open>now\<close>. What the coordinator relies on is the locale
  \<open>subscription_state_store\<close>, interpreted on the store in memory.
\<close>

subsection \<open>processing/broker/types.py\<close>

datatype event_subscriber_key = EventSubscriberKey (sk_group: string) (sk_id: string)

datatype event_subscriber_health = HEALTHY | UNHEALTHY

text \<open>A subscriber object: what the stores read of it. Its own state extends the record.\<close>

record event_subscriber =
  sb_group :: string
  sb_id :: string
  sb_requests :: "event_source_identifier list"

definition sb_key :: "'a event_subscriber_scheme \<Rightarrow> event_subscriber_key" where
  "sb_key s = EventSubscriberKey (sb_group s) (sb_id s)"

subsection \<open>Subscriber instances\<close>

type_synonym 'a instance_store = "(event_subscriber_key, 'a event_subscriber_scheme) dict"

definition instances_add ::
  "'a event_subscriber_scheme \<Rightarrow> 'a instance_store \<Rightarrow> 'a instance_store" where
  "instances_add s store = AList.update (sb_key s) s store"

definition instances_remove ::
  "'a event_subscriber_scheme \<Rightarrow> 'a instance_store \<Rightarrow> 'a instance_store" where
  "instances_remove s store =
     (if sb_key s \<notin> set (dict_keys store) then store else AList.delete (sb_key s) store)"

definition instances_get ::
  "event_subscriber_key \<Rightarrow> 'a instance_store \<Rightarrow> 'a event_subscriber_scheme option" where
  "instances_get key store = map_of store key"

definition instances_list :: "'a instance_store \<Rightarrow> 'a event_subscriber_scheme list" where
  "instances_list store = dict_values store"

subsection \<open>Subscriber states\<close>

record subscriber_state =
  ss_group :: string
  ss_id :: string
  ss_node_id :: string
  ss_requests :: "event_source_identifier list"
  ss_last_seen :: datetime

datatype event_subscription_key = EventSubscriptionKey (xk_group: string) (xk_id: string)

definition ss_key :: "subscriber_state \<Rightarrow> event_subscriber_key" where
  "ss_key s = EventSubscriberKey (ss_group s) (ss_id s)"

definition ss_subscription_key :: "subscriber_state \<Rightarrow> event_subscription_key" where
  "ss_subscription_key s = EventSubscriptionKey (ss_group s) (ss_id s)"

record subscriber_store =
  sts_node_id :: string
  sts_subscribers :: "subscriber_state list"

definition seen_now ::
  "datetime \<Rightarrow> string \<Rightarrow> 'a event_subscriber_scheme \<Rightarrow> subscriber_state" where
  \<comment> \<open>the \<open>EventSubscriberState\<close> that \<open>add\<close> and \<open>heartbeat\<close> construct\<close>
  "seen_now now node s =
     \<lparr>ss_group = sb_group s, ss_id = sb_id s, ss_node_id = node, ss_requests = sb_requests s,
      ss_last_seen = now\<rparr>"

text \<open>\<open>next((index, candidate) for ... if subscriber.key == candidate.key)\<close>\<close>

fun index_of_key :: "event_subscriber_key \<Rightarrow> subscriber_state list \<Rightarrow> nat option" where
  "index_of_key key [] = None"
| "index_of_key key (c # cs) =
     (if key = ss_key c then Some 0 else map_option Suc (index_of_key key cs))"

definition subscriber_heartbeat ::
  "datetime \<Rightarrow> 'a event_subscriber_scheme \<Rightarrow> subscriber_store \<Rightarrow> subscriber_store" where
  "subscriber_heartbeat now s store =
     (case index_of_key (sb_key s) (sts_subscribers store) of
        None \<Rightarrow> store
      | Some i \<Rightarrow>
          store\<lparr>sts_subscribers := (sts_subscribers store)[i := seen_now now (sts_node_id store) s]\<rparr>)"

definition subscriber_add ::
  "datetime \<Rightarrow> 'a event_subscriber_scheme \<Rightarrow> subscriber_store \<Rightarrow> subscriber_store" where
  "subscriber_add now s store =
     (case find (\<lambda>c. sb_key s = ss_key c) (sts_subscribers store) of
        Some existing \<Rightarrow> subscriber_heartbeat now s store
      | None \<Rightarrow>
          store\<lparr>sts_subscribers := sts_subscribers store @ [seen_now now (sts_node_id store) s]\<rparr>)"

definition subscriber_remove ::
  "'a event_subscriber_scheme \<Rightarrow> subscriber_store \<Rightarrow> subscriber_store" where
  "subscriber_remove s store =
     (case find (\<lambda>c. sb_key s = ss_key c) (sts_subscribers store) of
        None \<Rightarrow> store
      | Some existing \<Rightarrow> store\<lparr>sts_subscribers := remove1 existing (sts_subscribers store)\<rparr>)"

definition subscriber_list ::
  "datetime \<Rightarrow> string option \<Rightarrow> timedelta option \<Rightarrow> subscriber_store \<Rightarrow> subscriber_state list" where
  "subscriber_list now subscriber_group max_time_since_last_seen store =
     (let in_group =
            (case subscriber_group of
               None \<Rightarrow> sts_subscribers store
             | Some g \<Rightarrow> filter (\<lambda>s. ss_group s = g) (sts_subscribers store))
      in case max_time_since_last_seen of
           None \<Rightarrow> in_group
         | Some age \<Rightarrow> filter (\<lambda>s. ss_last_seen s > now - age) in_group)"

text \<open>
  \<open>purge\<close> removes from the list it iterates over: the list's iterator is an index, so after a
  removal the element that moved into the gap is passed over.
\<close>

function purge_loop :: "datetime \<Rightarrow> nat \<Rightarrow> subscriber_state list \<Rightarrow> subscriber_state list" where
  "purge_loop cutoff_time i ss =
     (if i < length ss
      then purge_loop cutoff_time (Suc i)
             (if ss_last_seen (ss ! i) \<le> cutoff_time then remove1 (ss ! i) ss else ss)
      else ss)"
  by pat_completeness auto
termination
  by (relation "measure (\<lambda>(_, i, ss). length ss - i)") (auto simp: length_remove1 diff_less_mono2)

declare purge_loop.simps [simp del]

definition subscriber_purge :: "datetime \<Rightarrow> timedelta \<Rightarrow> subscriber_store \<Rightarrow> subscriber_store" where
  "subscriber_purge now max_time_since_last_seen store =
     store\<lparr>sts_subscribers :=
       purge_loop (now - max_time_since_last_seen) 0 (sts_subscribers store)\<rparr>"

subsection \<open>Subscription states\<close>

record subscription_state =
  xs_group :: string
  xs_id :: string
  xs_node_id :: string
  xs_sources :: "event_source_identifier list"

definition xs_key :: "subscription_state \<Rightarrow> event_subscription_key" where
  "xs_key x = EventSubscriptionKey (xs_group x) (xs_id x)"

definition xs_subscriber_key :: "subscription_state \<Rightarrow> event_subscriber_key" where
  "xs_subscriber_key x = EventSubscriberKey (xs_group x) (xs_id x)"

datatype change_type = ADD | REMOVE | REPLACE

record subscription_change =
  ch_type :: change_type
  ch_subscription :: subscription_state

abbreviation ch_key :: "subscription_change \<Rightarrow> event_subscription_key" where
  "ch_key c \<equiv> xs_key (ch_subscription c)"

record subscription_store =
  sxs_node_id :: string
  sxs_subscriptions :: "(event_subscription_key, subscription_state) dict"

definition subscription_list :: "subscription_store \<Rightarrow> subscription_state list" where
  "subscription_list store = dict_values (sxs_subscriptions store)"

definition subscription_get ::
  "event_subscription_key \<Rightarrow> subscription_store \<Rightarrow> subscription_state option" where
  "subscription_get key store = map_of (sxs_subscriptions store) key"

definition put_subscription :: "subscription_state \<Rightarrow> subscription_store \<Rightarrow> subscription_store" where
  \<comment> \<open>\<open>self._subscriptions[subscription.key] = EventSubscriptionState(...)\<close>\<close>
  "put_subscription x store =
     store\<lparr>sxs_subscriptions := AList.update (xs_key x)
       \<lparr>xs_group = xs_group x, xs_id = xs_id x, xs_node_id = sxs_node_id store,
        xs_sources = xs_sources x\<rparr> (sxs_subscriptions store)\<rparr>"

definition subscription_add ::
  "subscription_state \<Rightarrow> subscription_store \<Rightarrow> subscription_store res" where
  "subscription_add x store =
     (if subscription_get (xs_key x) store \<noteq> None
      then Inl (ValueError ''Can't add existing subscription.'')
      else Inr (put_subscription x store))"

definition subscription_remove ::
  "subscription_state \<Rightarrow> subscription_store \<Rightarrow> subscription_store res" where
  "subscription_remove x store =
     (if subscription_get (xs_key x) store = None
      then Inl (ValueError ''Can't remove missing subscription.'')
      else Inr (store\<lparr>sxs_subscriptions := AList.delete (xs_key x) (sxs_subscriptions store)\<rparr>))"

definition subscription_replace ::
  "subscription_state \<Rightarrow> subscription_store \<Rightarrow> subscription_store res" where
  "subscription_replace x store =
     (if subscription_get (xs_key x) store = None
      then Inl (ValueError ''Can't replace missing subscription.'')
      else Inr (put_subscription x store))"

definition apply_change ::
  "subscription_change \<Rightarrow> subscription_store \<Rightarrow> subscription_store res" where
  "apply_change c store =
     (case ch_type c of
        ADD \<Rightarrow> subscription_add (ch_subscription c) store
      | REPLACE \<Rightarrow> subscription_replace (ch_subscription c) store
      | REMOVE \<Rightarrow> subscription_remove (ch_subscription c) store)"

text \<open>The loop of \<open>apply\<close> changes the store in place: what it did before it raised stays.\<close>

fun apply_loop ::
  "subscription_change list \<Rightarrow> subscription_store \<Rightarrow> subscription_store \<times> unit res" where
  "apply_loop [] store = (store, Inr ())"
| "apply_loop (c # cs) store =
     (case apply_change c store of
        Inl err \<Rightarrow> (store, Inl err)
      | Inr store' \<Rightarrow> apply_loop cs store')"

definition subscription_apply ::
  "subscription_change list \<Rightarrow> subscription_store \<Rightarrow> subscription_store \<times> unit res" where
  "subscription_apply changes store =
     (if card (ch_key ` set changes) \<noteq> length changes
      then (store, Inl (ValueError ''Multiple changes present for same subscription key.''))
      else apply_loop changes store)"

subsection \<open>processing/process/\<close>

datatype process_status =
  INITIALISED | STARTING | WAITING | RUNNING | STOPPING | STOPPED | ERRORED

definition determine_multi_process_status :: "process_status list \<Rightarrow> process_status" where
  "determine_multi_process_status statuses =
     (if \<exists>s \<in> set statuses. s = ERRORED then ERRORED
      else if \<forall>s \<in> set statuses. s = STOPPED then STOPPED
      else if \<exists>s \<in> set statuses. s = STOPPING then STOPPING
      else if \<exists>s \<in> set statuses. s = STOPPED then STOPPING
      else if \<exists>s \<in> set statuses. s = STARTING then STARTING
      else if \<forall>s \<in> set statuses. s = INITIALISED then INITIALISED
      else if \<forall>s \<in> set statuses. s = WAITING then WAITING
      else if \<forall>s \<in> set statuses. s = RUNNING \<or> s = WAITING then RUNNING
      else if \<forall>s \<in> set statuses. s = INITIALISED \<or> s = WAITING \<or> s = RUNNING then STARTING
      else if \<exists>s \<in> set statuses. s = RUNNING then RUNNING
      else if \<exists>s \<in> set statuses. s = WAITING then WAITING
      else INITIALISED)"

subsection \<open>Subscriber states: the registry they implement\<close>

definition subscribers_wf :: "subscriber_store \<Rightarrow> bool" where
  "subscribers_wf store \<longleftrightarrow> distinct (map ss_key (sts_subscribers store))"

text \<open>What is registered under a key: the requests and the time last seen.\<close>

definition registry ::
  "subscriber_store \<Rightarrow> event_subscriber_key \<rightharpoonup> event_source_identifier list \<times> datetime" where
  "registry store key =
     map_option (\<lambda>s. (ss_requests s, ss_last_seen s)) (find (\<lambda>s. ss_key s = key) (sts_subscribers store))"

lemma ss_key_seen_now [simp]: "ss_key (seen_now now node s) = sb_key s"
  by (simp add: ss_key_def sb_key_def seen_now_def)

lemma seen_now_sel [simp]:
  "ss_requests (seen_now now node s) = sb_requests s" "ss_last_seen (seen_now now node s) = now"
  by (simp_all add: seen_now_def)

lemma index_of_key_None: "index_of_key key ss = None \<longleftrightarrow> key \<notin> ss_key ` set ss"
  by (induction ss) auto

lemma index_of_key_Some:
  "index_of_key key ss = Some i \<Longrightarrow> i < length ss \<and> ss_key (ss ! i) = key"
  by (induction ss arbitrary: i) (auto split: if_splits)

lemma find_key_None: "find (\<lambda>c. key = ss_key c) ss = None \<longleftrightarrow> key \<notin> ss_key ` set ss"
  by (auto simp: find_None_iff)

lemma find_key_distinct:
  "distinct (map ss_key ss) \<Longrightarrow> s \<in> set ss \<Longrightarrow> find (\<lambda>c. ss_key c = ss_key s) ss = Some s"
  by (induction ss) (auto simp: rev_image_eqI)

lemma find_key_update:
  assumes "i < length ss" "ss_key (ss ! i) = ss_key s"
    and "distinct (map ss_key ss)"
  shows "find (\<lambda>c. ss_key c = key) (ss[i := s])
    = (if key = ss_key s then Some s else find (\<lambda>c. ss_key c = key) ss)"
  using assms
proof (induction ss arbitrary: i)
  case (Cons c cs)
  have "c \<noteq> cs ! j" "ss_key c \<noteq> ss_key (cs ! j)" if "j < length cs" for j
    using Cons.prems(3) that by (auto simp: image_iff)
  with Cons show ?case by (cases i) (auto simp: find_None_iff, metis)
qed simp

lemma find_key_remove1:
  assumes "s \<in> set ss" "distinct (map ss_key ss)"
  shows "find (\<lambda>c. ss_key c = key) (remove1 s ss)
    = (if key = ss_key s then None else find (\<lambda>c. ss_key c = key) ss)"
  using assms by (induction ss) (auto simp: find_None_iff, metis imageI)

lemma distinct_keys_update:
  "distinct (map ss_key ss) \<Longrightarrow> i < length ss \<Longrightarrow> ss_key (ss ! i) = ss_key s
    \<Longrightarrow> map ss_key (ss[i := s]) = map ss_key ss"
  by (simp add: list_update_same_conv map_update)

lemma distinct_keys_remove1:
  "distinct (map ss_key ss) \<Longrightarrow> distinct (map ss_key (remove1 s ss))"
  by (induction ss) (use notin_set_remove1 in fastforce)+

lemma registry_heartbeat:
  assumes "subscribers_wf store"
  shows "subscribers_wf (subscriber_heartbeat now s store)"
    and "registry (subscriber_heartbeat now s store)
      = (if registry store (sb_key s) = None then registry store
         else (registry store)(sb_key s \<mapsto> (sb_requests s, now)))"
proof -
  note wf = assms [unfolded subscribers_wf_def]
  show "subscribers_wf (subscriber_heartbeat now s store)"
    using wf by (auto simp: subscribers_wf_def subscriber_heartbeat_def distinct_keys_update
        dest!: index_of_key_Some split: option.split)
  have none: "registry store (sb_key s) = None \<longleftrightarrow> index_of_key (sb_key s) (sts_subscribers store) = None"
    by (force simp: registry_def index_of_key_None find_None_iff)
  show "registry (subscriber_heartbeat now s store)
      = (if registry store (sb_key s) = None then registry store
         else (registry store)(sb_key s \<mapsto> (sb_requests s, now)))"
    unfolding none
    by (cases "index_of_key (sb_key s) (sts_subscribers store)")
      (auto simp: subscriber_heartbeat_def registry_def find_key_update [OF _ _ wf]
        dest!: index_of_key_Some)
qed

lemma registry_add:
  assumes "subscribers_wf store"
  shows "subscribers_wf (subscriber_add now s store)"
    and "registry (subscriber_add now s store) = (registry store)(sb_key s \<mapsto> (sb_requests s, now))"
proof -
  have none: "find (\<lambda>c. sb_key s = ss_key c) (sts_subscribers store) = None
      \<longleftrightarrow> registry store (sb_key s) = None"
    by (auto simp: registry_def find_None_iff)
  show "subscribers_wf (subscriber_add now s store)"
    using registry_heartbeat(1) [OF assms] assms find_key_None [of "sb_key s" "sts_subscribers store"]
    by (auto simp: subscriber_add_def subscribers_wf_def split: option.split)
  show "registry (subscriber_add now s store) = (registry store)(sb_key s \<mapsto> (sb_requests s, now))"
  proof (cases "find (\<lambda>c. sb_key s = ss_key c) (sts_subscribers store)")
    case None
    then have "find (\<lambda>c. ss_key c = sb_key s) (sts_subscribers store) = None"
      by (auto simp: find_None_iff)
    then show ?thesis
      using None
      by (auto simp: subscriber_add_def registry_def find_append fun_eq_iff split: option.split)
  next
    case (Some c)
    then show ?thesis
      using registry_heartbeat(2) [OF assms, of now s] none
      by (auto simp: subscriber_add_def simp del: fun_upd_apply)
  qed
qed

lemma registry_remove:
  assumes "subscribers_wf store"
  shows "subscribers_wf (subscriber_remove s store)"
    and "registry (subscriber_remove s store) = (registry store)(sb_key s := None)"
proof -
  note wf = assms [unfolded subscribers_wf_def]
  show "subscribers_wf (subscriber_remove s store)"
    using wf by (auto simp: subscribers_wf_def subscriber_remove_def distinct_keys_remove1 split: option.split)
  show "registry (subscriber_remove s store) = (registry store)(sb_key s := None)"
  proof (cases "find (\<lambda>c. sb_key s = ss_key c) (sts_subscribers store)")
    case None
    then have "registry store (sb_key s) = None" by (auto simp: registry_def find_None_iff)
    then show ?thesis using None by (simp add: subscriber_remove_def fun_upd_idem)
  next
    case (Some c)
    with find_SomeD [OF Some] show ?thesis
      by (auto simp: subscriber_remove_def registry_def find_key_remove1 [OF _ wf] fun_eq_iff)
  qed
qed

text \<open>One pass of \<open>purge\<close>, written out: it drops a stale subscriber and passes over the next one.\<close>

fun purge_pass :: "datetime \<Rightarrow> subscriber_state list \<Rightarrow> subscriber_state list" where
  "purge_pass cutoff [] = []"
| "purge_pass cutoff [s] = (if ss_last_seen s \<le> cutoff then [] else [s])"
| "purge_pass cutoff (s # t # ss) =
     (if ss_last_seen s \<le> cutoff then t # purge_pass cutoff ss else s # purge_pass cutoff (t # ss))"

lemma purge_loop_pass:
  "distinct (before @ ss) \<Longrightarrow> purge_loop cutoff (length before) (before @ ss) = before @ purge_pass cutoff ss"
proof (induction cutoff ss arbitrary: before rule: purge_pass.induct)
  case (1 cutoff)
  then show ?case by (simp add: purge_loop.simps)
next
  case (2 cutoff s)
  then show ?case
    by (auto simp: purge_loop.simps [of _ "length before"] purge_loop.simps [of _ "Suc (length before)"]
        remove1_append)
next
  case (3 cutoff s t ss)
  show ?case
  proof (cases "ss_last_seen s \<le> cutoff")
    case True
    then have "purge_loop cutoff (length before) (before @ s # t # ss)
        = purge_loop cutoff (length (before @ [t])) ((before @ [t]) @ ss)"
      using 3(3) by (subst purge_loop.simps) (simp add: remove1_append)
    then show ?thesis using 3(1) [OF True, of "before @ [t]"] 3(3) True by auto
  next
    case False
    then have "purge_loop cutoff (length before) (before @ s # t # ss)
        = purge_loop cutoff (length (before @ [s])) ((before @ [s]) @ t # ss)"
      by (subst purge_loop.simps) simp
    then show ?thesis using 3(2) [OF False, of "before @ [s]"] 3(3) False by auto
  qed
qed

lemma purge_is_pass:
  "subscribers_wf store \<Longrightarrow> sts_subscribers (subscriber_purge now age store)
    = purge_pass (now - age) (sts_subscribers store)"
  using purge_loop_pass [of "[]" "sts_subscribers store" "now - age"]
  by (simp add: subscriber_purge_def subscribers_wf_def distinct_map)

lemma purge_pass_live:
  "filter (\<lambda>s. cutoff < ss_last_seen s) (purge_pass cutoff ss) = filter (\<lambda>s. cutoff < ss_last_seen s) ss"
  by (induction cutoff ss rule: purge_pass.induct) auto

lemma purge_pass_stale:
  "2 * length (filter (\<lambda>s. ss_last_seen s \<le> cutoff) (purge_pass cutoff ss))
     \<le> length (filter (\<lambda>s. ss_last_seen s \<le> cutoff) ss)"
  by (induction cutoff ss rule: purge_pass.induct) auto

lemma set_purge_pass: "set (purge_pass cutoff ss) \<subseteq> set ss"
  by (induction cutoff ss rule: purge_pass.induct) auto

lemma distinct_purge_pass:
  "distinct (map ss_key ss) \<Longrightarrow> distinct (map ss_key (purge_pass cutoff ss))"
proof (induction cutoff ss rule: purge_pass.induct)
  case (3 cutoff s t ss)
  have "ss_key s \<notin> ss_key ` set (purge_pass cutoff (t # ss))" "ss_key t \<notin> ss_key ` set (purge_pass cutoff ss)"
    using 3(3) set_purge_pass [of cutoff "t # ss"] set_purge_pass [of cutoff ss] by auto
  with 3 show ?case by auto
qed simp_all

lemma purge_wf: "subscribers_wf store \<Longrightarrow> subscribers_wf (subscriber_purge now age store)"
  using purge_is_pass [of store now age] by (simp add: subscribers_wf_def distinct_purge_pass)

lemma registry_Some:
  "subscribers_wf store \<Longrightarrow> registry store key = Some (requests, seen) \<longleftrightarrow>
     (\<exists>s \<in> set (sts_subscribers store). ss_key s = key \<and> ss_requests s = requests \<and> ss_last_seen s = seen)"
  using find_key_distinct [of "sts_subscribers store"]
  by (auto simp: registry_def subscribers_wf_def dest: find_SomeD)

lemma registry_purge_Some:
  assumes "subscribers_wf store"
    and "registry (subscriber_purge now age store) key = Some (requests, seen)"
  shows "registry store key = Some (requests, seen)"
  using assms(2) set_purge_pass [of "now - age" "sts_subscribers store"]
  unfolding registry_Some [OF purge_wf [OF assms(1)]] registry_Some [OF assms(1)] purge_is_pass [OF assms(1)]
  by auto

lemma registry_purge_live:
  assumes "subscribers_wf store" "registry store key = Some (requests, seen)" "now - age < seen"
  shows "registry (subscriber_purge now age store) key = Some (requests, seen)"
proof -
  obtain s where s: "s \<in> set (sts_subscribers store)" "ss_key s = key" "ss_requests s = requests"
    "ss_last_seen s = seen" using assms(2) unfolding registry_Some [OF assms(1)] by blast
  then have "s \<in> set (filter (\<lambda>s. now - age < ss_last_seen s) (purge_pass (now - age) (sts_subscribers store)))"
    unfolding purge_pass_live using assms(3) by simp
  then show ?thesis
    using s unfolding registry_Some [OF purge_wf [OF assms(1)]] purge_is_pass [OF assms(1)] by auto
qed

lemma purges_clear:
  "subscribers_wf store
    \<Longrightarrow> length (filter (\<lambda>s. ss_last_seen s \<le> now - age) (sts_subscribers store)) < 2 ^ k
    \<Longrightarrow> sts_subscribers ((subscriber_purge now age ^^ k) store)
      = filter (\<lambda>s. now - age < ss_last_seen s) (sts_subscribers store)"
proof (induction k arbitrary: store)
  case 0
  then show ?case by (auto simp: filter_empty_conv not_le intro!: filter_True [symmetric])
next
  case (Suc k)
  have "length (filter (\<lambda>s. ss_last_seen s \<le> now - age)
      (sts_subscribers (subscriber_purge now age store))) < 2 ^ k"
    using purge_pass_stale [of "now - age" "sts_subscribers store"] Suc.prems
    by (simp add: purge_is_pass)
  then show ?case
    using Suc.IH [OF purge_wf [OF Suc.prems(1)]]
    by (simp add: funpow_swap1 purge_is_pass [OF Suc.prems(1)] purge_pass_live del: funpow.simps)
      (simp add: funpow_swap1 funpow.simps purge_is_pass [OF Suc.prems(1)] purge_pass_live)
qed

text \<open>
  C22. The subscriber state store implements a registry of keys. Adding a subscriber registers its
  requests under its key as seen now; a heartbeat does so only for a registered key; removing
  unregisters the key. Purging forgets no subscriber seen within the given age and changes no
  entry it keeps. Listing with a maximum age returns exactly the registered keys seen within it,
  each once, and every operation keeps at most one entry per key.
\<close>

theorem subscriber_store_is_registry:
  assumes "subscribers_wf store"
  shows "registry (subscriber_add now s store) = (registry store)(sb_key s \<mapsto> (sb_requests s, now))
    \<and> registry (subscriber_heartbeat now s store)
        = (if registry store (sb_key s) = None then registry store
           else (registry store)(sb_key s \<mapsto> (sb_requests s, now)))
    \<and> registry (subscriber_remove s store) = (registry store)(sb_key s := None)
    \<and> registry (subscriber_purge now age store) \<subseteq>\<^sub>m registry store
    \<and> (\<forall>key requests seen. registry store key = Some (requests, seen) \<and> now - age < seen
         \<longrightarrow> registry (subscriber_purge now age store) key = Some (requests, seen))
    \<and> distinct (map ss_key (subscriber_list now None (Some age) store))
    \<and> set (map ss_key (subscriber_list now None (Some age) store))
        = {key. \<exists>requests seen. registry store key = Some (requests, seen) \<and> now - age < seen}
    \<and> list_all subscribers_wf [subscriber_add now s store, subscriber_heartbeat now s store,
         subscriber_remove s store, subscriber_purge now age store]"
proof (intro conjI)
  show "registry (subscriber_purge now age store) \<subseteq>\<^sub>m registry store"
    unfolding map_le_def using registry_purge_Some [OF assms] by (metis domIff option.exhaust surj_pair)
  show "distinct (map ss_key (subscriber_list now None (Some age) store))"
    using assms by (simp add: subscriber_list_def subscribers_wf_def distinct_map_filter)
  show "set (map ss_key (subscriber_list now None (Some age) store))
      = {key. \<exists>requests seen. registry store key = Some (requests, seen) \<and> now - age < seen}"
    by (auto simp: subscriber_list_def registry_Some [OF assms])
  show "list_all subscribers_wf [subscriber_add now s store, subscriber_heartbeat now s store,
      subscriber_remove s store, subscriber_purge now age store]"
    by (simp add: registry_add(1) registry_heartbeat(1) registry_remove(1) purge_wf assms)
qed (use registry_add(2) registry_heartbeat(2) registry_remove(2) registry_purge_live assms in blast)+

definition sample_subscriber :: "string \<Rightarrow> event_subscriber" where
  "sample_subscriber i =
     \<lparr>sb_group = ''g'', sb_id = i, sb_requests = [CategoryIdentifier ''c'', CategoryIdentifier ''d'']\<rparr>"

definition sample_subscribers :: subscriber_store where
  "sample_subscribers =
     subscriber_add 10 (sample_subscriber ''b'')
       (subscriber_add 0 (sample_subscriber ''a'') \<lparr>sts_node_id = ''n'', sts_subscribers = []\<rparr>)"

theorem subscriber_store_is_registry_witness:
  "registry (subscriber_purge 10 5 sample_subscribers) (EventSubscriberKey ''g'' ''b'')
     = Some ([CategoryIdentifier ''c'', CategoryIdentifier ''d''], 10)"
proof -
  have wf: "subscribers_wf sample_subscribers" by code_simp
  have "registry sample_subscribers (EventSubscriberKey ''g'' ''b'')
      = Some ([CategoryIdentifier ''c'', CategoryIdentifier ''d''], 10)" by code_simp
  then show ?thesis
    using subscriber_store_is_registry [OF wf, of 10 "sample_subscriber ''a''" 5] by auto
qed

text \<open>
  C23. A purge at least halves the number of stale subscribers and removes no other; it need not
  remove them all, since it removes from the list it iterates over. A store with \<open>n\<close> stale
  subscribers is clear of them after as many purges as \<open>n\<close> has binary digits.
\<close>

theorem purge_halves_stale:
  assumes "subscribers_wf store"
  shows "length (filter (\<lambda>s. ss_last_seen s \<le> now - age) (sts_subscribers (subscriber_purge now age store)))
      \<le> length (filter (\<lambda>s. ss_last_seen s \<le> now - age) (sts_subscribers store)) div 2
    \<and> filter (\<lambda>s. now - age < ss_last_seen s) (sts_subscribers (subscriber_purge now age store))
      = filter (\<lambda>s. now - age < ss_last_seen s) (sts_subscribers store)
    \<and> (\<forall>k. length (filter (\<lambda>s. ss_last_seen s \<le> now - age) (sts_subscribers store)) < 2 ^ k
         \<longrightarrow> sts_subscribers ((subscriber_purge now age ^^ k) store)
           = filter (\<lambda>s. now - age < ss_last_seen s) (sts_subscribers store))"
proof (intro conjI allI impI)
  show "length (filter (\<lambda>s. ss_last_seen s \<le> now - age) (sts_subscribers (subscriber_purge now age store)))
      \<le> length (filter (\<lambda>s. ss_last_seen s \<le> now - age) (sts_subscribers store)) div 2"
    using purge_pass_stale [of "now - age" "sts_subscribers store"] by (simp add: purge_is_pass [OF assms])
  show "filter (\<lambda>s. now - age < ss_last_seen s) (sts_subscribers (subscriber_purge now age store))
      = filter (\<lambda>s. now - age < ss_last_seen s) (sts_subscribers store)"
    by (simp add: purge_is_pass [OF assms] purge_pass_live)
qed (rule purges_clear [OF assms])

theorem purge_halves_stale_witness:
  "map ss_id (sts_subscribers (subscriber_purge 100 5 sample_subscribers)) = [''b'']
     \<and> sts_subscribers ((subscriber_purge 100 5 ^^ 2) sample_subscribers) = []"
proof -
  have wf: "subscribers_wf sample_subscribers" by code_simp
  have "length (filter (\<lambda>s. ss_last_seen s \<le> 100 - 5) (sts_subscribers sample_subscribers)) < 2 ^ 2"
    "filter (\<lambda>s. 100 - 5 < ss_last_seen s) (sts_subscribers sample_subscribers) = []"
    by code_simp+
  moreover have "map ss_id (sts_subscribers (subscriber_purge 100 5 sample_subscribers)) = [''b'']"
    by code_simp
  ultimately show ?thesis using purge_halves_stale [OF wf, of 100 5] by auto
qed

subsection \<open>Subscription states: the contract of a store\<close>

text \<open>The sources allocated under each key, and what a list of changes makes of them.\<close>

definition allocation ::
  "subscription_state list \<Rightarrow> event_subscription_key \<rightharpoonup> event_source_identifier list" where
  "allocation subscriptions key = map_option xs_sources (find (\<lambda>x. xs_key x = key) subscriptions)"

definition changed_allocation ::
  "subscription_change list \<Rightarrow> (event_subscription_key \<rightharpoonup> event_source_identifier list)
    \<Rightarrow> event_subscription_key \<rightharpoonup> event_source_identifier list" where
  "changed_allocation changes allocated key =
     (case find (\<lambda>c. ch_key c = key) changes of
        None \<Rightarrow> allocated key
      | Some c \<Rightarrow> (if ch_type c = REMOVE then None else Some (xs_sources (ch_subscription c))))"

definition changes_apply :: "subscription_change list \<Rightarrow> subscription_state list \<Rightarrow> bool" where
  \<comment> \<open>one change per key; only missing subscriptions are added, only present ones replaced or removed\<close>
  "changes_apply changes subscriptions \<longleftrightarrow>
     distinct (map ch_key changes)
     \<and> (\<forall>c \<in> set changes. ch_type c = ADD \<longleftrightarrow> ch_key c \<notin> xs_key ` set subscriptions)"

text \<open>What the coordinator and the observer rely on.\<close>

locale subscription_state_store =
  fixes store_inv :: "'s \<Rightarrow> bool"
    and list_subscriptions :: "'s \<Rightarrow> subscription_state list"
    and apply_changes :: "subscription_change list \<Rightarrow> 's \<Rightarrow> 's \<times> unit res"
  assumes keys_distinct: "store_inv s \<Longrightarrow> distinct (map xs_key (list_subscriptions s))"
    and applied: "store_inv s \<Longrightarrow> changes_apply changes (list_subscriptions s) \<Longrightarrow>
      \<exists>s'. apply_changes changes s = (s', Inr ()) \<and> store_inv s'
        \<and> allocation (list_subscriptions s') = changed_allocation changes (allocation (list_subscriptions s))"

definition subscriptions_wf :: "subscription_store \<Rightarrow> bool" where
  "subscriptions_wf store \<longleftrightarrow>
     wf_dict (sxs_subscriptions store) \<and> (\<forall>(k, x) \<in> set (sxs_subscriptions store). xs_key x = k)"

lemma subscriptions_wf_keys:
  "subscriptions_wf store \<Longrightarrow> map xs_key (subscription_list store) = dict_keys (sxs_subscriptions store)"
  by (auto simp: subscriptions_wf_def subscription_list_def dict_keys_def dict_values_def)

lemma subscription_get_find:
  "subscriptions_wf store \<Longrightarrow>
     subscription_get key store = find (\<lambda>x. xs_key x = key) (subscription_list store)"
proof -
  have "\<forall>(k, x) \<in> set d. xs_key x = k
      \<Longrightarrow> map_of d key = find (\<lambda>x. xs_key x = key) (map snd d)" for d
    by (induction d) auto
  then show "subscriptions_wf store \<Longrightarrow> ?thesis"
    by (simp add: subscriptions_wf_def subscription_get_def subscription_list_def dict_values_def)
qed

lemma allocation_get:
  "subscriptions_wf store \<Longrightarrow>
     allocation (subscription_list store) = (\<lambda>key. map_option xs_sources (subscription_get key store))"
  by (auto simp: allocation_def subscription_get_find)

lemma subscription_get_None:
  "subscriptions_wf store \<Longrightarrow>
     subscription_get key store = None \<longleftrightarrow> key \<notin> xs_key ` set (subscription_list store)"
  by (auto simp: subscription_get_find find_None_iff)

lemma update_entries: "set (AList.update k v d) \<subseteq> insert (k, v) (set d)"
  by (induction d) auto

lemma delete_set: "set (AList.delete k d) = {(k', v) \<in> set d. k' \<noteq> k}"
  by (induction d) auto

lemma put_subscription_wf:
  assumes "subscriptions_wf store"
  shows "subscriptions_wf (put_subscription x store)"
    and "subscription_get key (put_subscription x store)
      = (if key = xs_key x then Some (x\<lparr>xs_node_id := sxs_node_id store\<rparr>) else subscription_get key store)"
proof -
  let ?x = "x\<lparr>xs_node_id := sxs_node_id store\<rparr>"
  have put: "put_subscription x store
      = store\<lparr>sxs_subscriptions := AList.update (xs_key x) ?x (sxs_subscriptions store)\<rparr>"
    by (cases x) (simp add: put_subscription_def)
  have "\<forall>(k, y) \<in> set (AList.update (xs_key x) ?x (sxs_subscriptions store)). xs_key y = k"
    using update_entries [of "xs_key x" ?x "sxs_subscriptions store"] assms
    by (auto simp: subscriptions_wf_def xs_key_def)
  then show "subscriptions_wf (put_subscription x store)"
    using assms by (simp add: put subscriptions_wf_def)
  show "subscription_get key (put_subscription x store)
      = (if key = xs_key x then Some ?x else subscription_get key store)"
    by (simp add: put subscription_get_def)
qed

lemma delete_subscription_wf:
  assumes "subscriptions_wf store"
  shows "subscriptions_wf (store\<lparr>sxs_subscriptions := AList.delete k (sxs_subscriptions store)\<rparr>)"
    and "subscription_get key (store\<lparr>sxs_subscriptions := AList.delete k (sxs_subscriptions store)\<rparr>)
      = (if key = k then None else subscription_get key store)"
  using assms
  by (auto simp: subscriptions_wf_def subscription_get_def delete_set)

lemma apply_change_effect:
  assumes "subscriptions_wf store" and "ch_type c = ADD \<longleftrightarrow> subscription_get (ch_key c) store = None"
  shows "\<exists>store'. apply_change c store = Inr store' \<and> subscriptions_wf store'
    \<and> (\<forall>key. subscription_get key store' = (if key = ch_key c
         then if ch_type c = REMOVE then None else Some ((ch_subscription c)\<lparr>xs_node_id := sxs_node_id store\<rparr>)
         else subscription_get key store))"
  using assms put_subscription_wf [OF assms(1)] delete_subscription_wf [OF assms(1)]
  by (cases "ch_type c")
    (auto simp: apply_change_def subscription_add_def subscription_replace_def subscription_remove_def)

lemma apply_loop_effect:
  assumes "subscriptions_wf store" "distinct (map ch_key cs)"
    and "\<forall>c \<in> set cs. ch_type c = ADD \<longleftrightarrow> subscription_get (ch_key c) store = None"
  shows "\<exists>store'. apply_loop cs store = (store', Inr ()) \<and> subscriptions_wf store'
    \<and> (\<forall>key. map_option xs_sources (subscription_get key store')
        = changed_allocation cs (\<lambda>key. map_option xs_sources (subscription_get key store)) key)"
  using assms
proof (induction cs arbitrary: store)
  case (Cons c cs)
  have add: "ch_type c = ADD \<longleftrightarrow> subscription_get (ch_key c) store = None" using Cons.prems(3) by simp
  obtain store1 where s1: "apply_change c store = Inr store1" "subscriptions_wf store1"
    "\<forall>key. subscription_get key store1 = (if key = ch_key c
       then if ch_type c = REMOVE then None else Some ((ch_subscription c)\<lparr>xs_node_id := sxs_node_id store\<rparr>)
       else subscription_get key store)"
    using apply_change_effect [OF Cons.prems(1) add] by (elim exE conjE) (rule that; assumption)
  have keys: "ch_key d \<noteq> ch_key c" if "d \<in> set cs" for d
  proof -
    have "ch_key c \<notin> set (map ch_key cs)" using Cons.prems(2) by simp
    moreover have "ch_key d \<in> set (map ch_key cs)" using that by simp
    ultimately show ?thesis by metis
  qed
  then have "\<forall>d \<in> set cs. ch_type d = ADD \<longleftrightarrow> subscription_get (ch_key d) store1 = None"
    using Cons.prems(3) s1(3) by simp
  then obtain store' where s': "apply_loop cs store1 = (store', Inr ())" "subscriptions_wf store'"
    "\<forall>key. map_option xs_sources (subscription_get key store')
      = changed_allocation cs (\<lambda>key. map_option xs_sources (subscription_get key store1)) key"
    using Cons.IH [OF s1(2)] Cons.prems(2) by auto
  have "find (\<lambda>d. ch_key d = ch_key c) cs = None" using keys by (simp add: find_None_iff)
  then show ?case
    using s1(1,3) s' by (auto simp: changed_allocation_def split: option.split)
qed (simp add: changed_allocation_def)

interpretation memory_subscriptions:
  subscription_state_store subscriptions_wf subscription_list subscription_apply
proof
  fix s :: subscription_store and changes
  assume wf: "subscriptions_wf s"
  show "distinct (map xs_key (subscription_list s))"
    using wf subscriptions_wf_keys [OF wf] by (simp add: subscriptions_wf_def wf_dict_def)
  assume "changes_apply changes (subscription_list s)"
  then have ok: "distinct (map ch_key changes)"
    "\<forall>c \<in> set changes. ch_type c = ADD \<longleftrightarrow> subscription_get (ch_key c) s = None"
    by (auto simp: changes_apply_def subscription_get_None [OF wf])
  have "card (ch_key ` set changes) = length changes"
    using distinct_card [OF ok(1)] by simp
  then show "\<exists>s'. subscription_apply changes s = (s', Inr ()) \<and> subscriptions_wf s'
      \<and> allocation (subscription_list s') = changed_allocation changes (allocation (subscription_list s))"
    using apply_loop_effect [OF wf ok]
    by (auto simp: subscription_apply_def allocation_get wf fun_eq_iff)
qed

subsection \<open>Statuses\<close>

lemma all_statuses:
  "(\<forall>s \<in> S. P s) \<longleftrightarrow>
     (INITIALISED \<in> S \<longrightarrow> P INITIALISED) \<and> (STARTING \<in> S \<longrightarrow> P STARTING) \<and> (WAITING \<in> S \<longrightarrow> P WAITING)
     \<and> (RUNNING \<in> S \<longrightarrow> P RUNNING) \<and> (STOPPING \<in> S \<longrightarrow> P STOPPING) \<and> (STOPPED \<in> S \<longrightarrow> P STOPPED)
     \<and> (ERRORED \<in> S \<longrightarrow> P ERRORED)" (is "_ \<longleftrightarrow> ?each")
proof
  assume ?each
  then show "\<forall>s \<in> S. P s"
  proof (intro ballI)
    fix s assume "s \<in> S"
    with \<open>?each\<close> show "P s" by (cases s) auto
  qed
qed simp

text \<open>
  The status of several processes depends only on which statuses occur: an error wins; if all
  stopped they are stopped, and if some are stopping or stopped they are stopping; initialised
  processes only are initialised, and any process not yet under way makes the whole starting;
  otherwise they are running as soon as one runs, and else waiting. (The code's last three cases
  never apply.)
\<close>

lemma multi_process_status_cases:
  "determine_multi_process_status statuses =
     (let S = set statuses
      in if ERRORED \<in> S then ERRORED
         else if S \<subseteq> {STOPPED} then STOPPED
         else if STOPPING \<in> S \<or> STOPPED \<in> S then STOPPING
         else if S \<subseteq> {INITIALISED} then INITIALISED
         else if STARTING \<in> S \<or> INITIALISED \<in> S then STARTING
         else if RUNNING \<in> S then RUNNING
         else WAITING)"
proof -
  have sub: "S \<subseteq> {x} \<longleftrightarrow> (\<forall>s \<in> S. s = x)" for S :: "process_status set" and x by auto
  have ex: "(\<exists>s \<in> S. s = x) \<longleftrightarrow> x \<in> S" for S :: "process_status set" and x by auto
  show ?thesis
    unfolding determine_multi_process_status_def Let_def sub ex all_statuses by simp
qed

end
