(* ===== verification/Broker_Coordinator.thy ===== *)
theory Broker_Coordinator
  imports Broker_State
begin

section \<open>The subscription coordinator: distributing sources among subscribers\<close>

text \<open>
  Models \<open>processing/broker/strategies/distributed/coordinator.py\<close>: \<open>chunk\<close>, the status summaries
  and \<open>distribute\<close>, which decides who is allocated what and applies the changes to the subscription
  state store. The leadership loop of \<open>coordinate\<close> is in the theory of the locks.

  The code iterates over sets, whose order Python leaves open: the orders are functions
  (\<open>set_orders\<close>) from the elements put in to the elements in the order of iteration, of which the
  theorems assume only that they list each element once.
\<close>

subsection \<open>chunk and groupby\<close>

definition every_nth :: "'a list \<Rightarrow> nat \<Rightarrow> nat \<Rightarrow> 'a list" where
  \<comment> \<open>\<open>values[i::n]\<close>\<close>
  "every_nth xs i n = map (\<lambda>q. xs ! (i + q * n)) [0..<(length xs - i + n - 1) div n]"

definition chunk :: "'a list \<Rightarrow> nat \<Rightarrow> 'a list list" where
  "chunk xs chunks = map (\<lambda>i. every_nth xs i chunks) [0..<chunks]"

text \<open>\<open>itertools.groupby\<close>: runs of elements with the same key\<close>

fun groupby :: "('a \<Rightarrow> 'k) \<Rightarrow> 'a list \<Rightarrow> ('k \<times> 'a list) list" where
  "groupby key [] = []"
| "groupby key (x # xs) =
     (case groupby key xs of
        (k, ys) # groups \<Rightarrow>
          if key x = k then (k, x # ys) # groups else (key x, [x]) # (k, ys) # groups
      | [] \<Rightarrow> [(key x, [x])])"

subsection \<open>Status summaries\<close>

definition subscription_status ::
  "subscription_state list \<Rightarrow> (string, (string, 'o pyval list) dict) dict" where
  "subscription_status subscriptions =
     fold (\<lambda>x existing.
       AList.update (xs_group x)
         (AList.update (xs_id x) (map serialise_identifier (xs_sources x))
           (case map_of existing (xs_group x) of None \<Rightarrow> [] | Some d \<Rightarrow> d)) existing)
     subscriptions []"

definition subscriber_group_status ::
  "subscriber_state list \<Rightarrow> (string, (string, 'o pyval list) dict) dict" where
  "subscriber_group_status subscribers =
     fold (\<lambda>s latest.
       AList.update (ss_group s)
         (AList.update (ss_id s) (map serialise_identifier (ss_requests s))
           (case map_of latest (ss_group s) of None \<Rightarrow> [] | Some d \<Rightarrow> d)) latest)
     subscribers []"

definition subscription_change_summary :: "subscription_change list \<Rightarrow> nat \<times> nat \<times> nat" where
  \<comment> \<open>additions, removals, replacements\<close>
  "subscription_change_summary changes =
     (length (filter (\<lambda>c. ch_type c = ADD) changes),
      length (filter (\<lambda>c. ch_type c = REMOVE) changes),
      length (filter (\<lambda>c. ch_type c = REPLACE) changes))"

subsection \<open>distribute\<close>

record set_orders =
  so_requests :: "event_source_identifier list list \<Rightarrow> event_source_identifier list list"
  so_subscribers :: "subscriber_state list \<Rightarrow> subscriber_state list"
  so_sources :: "event_source_identifier list \<Rightarrow> event_source_identifier list"

text \<open>\<open>set(xs) - set(ys)\<close>\<close>

definition set_difference :: "('a list \<Rightarrow> 'a list) \<Rightarrow> 'a list \<Rightarrow> 'a list \<Rightarrow> 'a list" where
  "set_difference order xs ys = order (filter (\<lambda>x. x \<notin> set ys) (order xs))"

text \<open>
  The request a group is given: a longest one. \<open>next\<close> on an empty iterator would raise
  \<open>StopIteration\<close>, which a coroutine turns into a \<open>RuntimeError\<close>.
\<close>

definition group_target :: "set_orders \<Rightarrow> subscriber_state list \<Rightarrow> event_source_identifier list res" where
  "group_target orders subscribers =
     (case sorted_by_desc length (so_requests orders (map ss_requests subscribers)) of
        [] \<Rightarrow> Inl (RuntimeError ''coroutine raised StopIteration'')
      | target # _ \<Rightarrow> Inr target)"

definition remove_change :: "subscription_state \<Rightarrow> subscription_change" where
  "remove_change x = \<lparr>ch_type = REMOVE, ch_subscription = x\<rparr>"

definition eligible_change ::
  "set_orders \<Rightarrow> (event_subscription_key, subscription_state) dict \<Rightarrow> string
    \<Rightarrow> event_source_identifier list \<Rightarrow> event_source_identifier list \<Rightarrow> subscriber_state
    \<Rightarrow> subscription_change" where
  "eligible_change orders subscription_map subscriber_group removed_event_sources new_chunk s =
     (case map_of subscription_map (ss_subscription_key s) of
        None \<Rightarrow>
          \<lparr>ch_type = ADD, ch_subscription =
             \<lparr>xs_group = subscriber_group, xs_id = ss_id s, xs_node_id = ss_node_id s,
              xs_sources = new_chunk\<rparr>\<rparr>
      | Some subscription \<Rightarrow>
          \<lparr>ch_type = REPLACE, ch_subscription =
             \<lparr>xs_group = subscriber_group, xs_id = ss_id s, xs_node_id = ss_node_id s,
              xs_sources = set_difference (so_sources orders) (xs_sources subscription)
                removed_event_sources @ new_chunk\<rparr>\<rparr>)"

definition group_changes ::
  "set_orders \<Rightarrow> (event_subscription_key, subscription_state) dict
    \<Rightarrow> (event_subscriber_key, subscriber_state) dict \<Rightarrow> string \<times> subscriber_state list
    \<Rightarrow> subscription_change list res" where
  "group_changes orders subscription_map subscriber_map group_of =
     (let (subscriber_group, subscribers) = group_of
      in res_bind (group_target orders subscribers) (\<lambda>target_event_sources.
        (let subscriptions =
               List.map_filter (\<lambda>s. map_of subscription_map (ss_subscription_key s)) subscribers;
             ineligible_subscribers = so_subscribers orders
               (filter (\<lambda>s. ss_requests s \<noteq> target_event_sources) subscribers);
             eligible_subscribers = so_subscribers orders
               (filter (\<lambda>s. ss_requests s = target_event_sources) subscribers);
             eligible_subscriber_map = dict_by ss_key eligible_subscribers;
             all_allocated_event_sources =
               concat (map xs_sources
                 (filter (\<lambda>x. xs_subscriber_key x \<in> set (dict_keys subscriber_map)) subscriptions));
             correctly_allocated_event_sources =
               filter (\<lambda>src. src \<in> set target_event_sources)
                 (concat (map xs_sources
                   (filter (\<lambda>x. xs_subscriber_key x \<in> set (dict_keys eligible_subscriber_map))
                     subscriptions)));
             removed_event_sources =
               filter (\<lambda>src. src \<notin> set target_event_sources) all_allocated_event_sources;
             new_event_sources =
               set_difference (so_sources orders) target_event_sources correctly_allocated_event_sources;
             new_event_source_chunks = chunk new_event_sources (length eligible_subscribers)
         in Inr (map remove_change
                  (List.map_filter (\<lambda>s. map_of subscription_map (ss_subscription_key s))
                    ineligible_subscribers)
                @ map (\<lambda>(index, s).
                    eligible_change orders subscription_map subscriber_group removed_event_sources
                      (new_event_source_chunks ! index) s)
                  (List.enumerate 0 eligible_subscribers)))))"

definition distribution_changes ::
  "set_orders \<Rightarrow> subscription_state list \<Rightarrow> subscriber_state list \<Rightarrow> subscription_change list res" where
  "distribution_changes orders subscriptions listed_subscribers =
     (let subscription_map = dict_by xs_key subscriptions;
          subscribers = sorted_by ss_group listed_subscribers;
          subscriber_map = dict_by ss_key subscribers;
          removals = map remove_change
            (filter (\<lambda>x. xs_subscriber_key x \<notin> set (dict_keys subscriber_map)) subscriptions)
      in res_bind
           (res_map (group_changes orders subscription_map subscriber_map) (groupby ss_group subscribers))
           (\<lambda>changes. Inr (removals @ concat changes)))"

definition distribute ::
  "set_orders \<Rightarrow> datetime \<Rightarrow> timedelta \<Rightarrow> subscriber_store \<Rightarrow> subscription_store
    \<Rightarrow> subscription_store \<times> unit res" where
  "distribute orders now subscriber_max_time_since_last_seen subscriber_states subscription_states =
     (case distribution_changes orders (subscription_list subscription_states)
             (subscriber_list now None (Some subscriber_max_time_since_last_seen) subscriber_states) of
        Inl err \<Rightarrow> (subscription_states, Inl err)
      | Inr changes \<Rightarrow> subscription_apply changes subscription_states)"

subsection \<open>Chunks\<close>

lemma less_ceiling_iff: "0 < n \<Longrightarrow> q < (m + n - 1) div n \<longleftrightarrow> q * n < (m :: nat)"
proof -
  assume n: "0 < n"
  have "q < (m + n - 1) div n \<longleftrightarrow> Suc q * n \<le> m + n - 1"
    using less_eq_div_iff_mult_less_eq [OF n, of "Suc q" "m + n - 1"] by (simp only: Suc_le_eq)
  then show ?thesis using n by auto
qed

lemma stride_bound:
  "i < n \<Longrightarrow> q < (length xs - i + n - 1) div n \<longleftrightarrow> i + q * n < length xs"
  using less_ceiling_iff [of n q "length xs - i"] by (simp add: less_diff_conv add.commute)

lemma set_every_nth:
  assumes "i < n"
  shows "set (every_nth xs i n) = {xs ! j |j. j < length xs \<and> j mod n = i}"
proof -
  have "{0..<(length xs - i + n - 1) div n} = {q. i + q * n < length xs}"
    unfolding set_eq_iff atLeastLessThan_iff mem_Collect_eq stride_bound [OF assms] by simp
  then have "set (every_nth xs i n) = (\<lambda>q. xs ! (i + q * n)) ` {q. i + q * n < length xs}"
    by (simp add: every_nth_def)
  moreover have "(\<lambda>q. i + q * n) ` {q. i + q * n < length xs} = {j. j < length xs \<and> j mod n = i}"
  proof (intro set_eqI iffI)
    fix j assume "j \<in> {j. j < length xs \<and> j mod n = i}"
    then show "j \<in> (\<lambda>q. i + q * n) ` {q. i + q * n < length xs}"
      by (intro image_eqI [of _ _ "j div n"]) auto
  qed (use assms in auto)
  then have "(\<lambda>j. xs ! j) ` (\<lambda>q. i + q * n) ` {q. i + q * n < length xs}
      = (\<lambda>j. xs ! j) ` {j. j < length xs \<and> j mod n = i}" by simp
  ultimately show ?thesis by (auto simp: image_image)
qed

lemma distinct_every_nth:
  assumes "distinct xs" "i < n"
  shows "distinct (every_nth xs i n)"
proof -
  have "i + q * n < length xs" if "q < (length xs - i + n - 1) div n" for q
    using stride_bound [OF assms(2), of q xs] that by blast
  then show ?thesis
    using assms by (auto simp: every_nth_def distinct_map inj_on_def nth_eq_iff_index_eq)
qed

lemma chunks_cover: "0 < n \<Longrightarrow> (\<Union>i<n. set (chunk xs n ! i)) = set xs"
proof -
  assume n: "0 < n"
  have "(\<Union>i<n. {xs ! j |j. j < length xs \<and> j mod n = i}) = {xs ! j |j. j < length xs}"
    using n by fastforce
  moreover have "set xs = {xs ! j |j. j < length xs}" by (simp add: set_conv_nth)
  ultimately show ?thesis by (simp add: chunk_def set_every_nth)
qed

lemma chunks_disjoint:
  assumes "distinct xs" "i < n" "j < n" "i \<noteq> j"
  shows "set (chunk xs n ! i) \<inter> set (chunk xs n ! j) = {}"
  using assms by (auto simp: chunk_def set_every_nth nth_eq_iff_index_eq)

lemma chunks_balanced:
  assumes "i < n" "j < n"
  shows "length (chunk xs n ! i) \<le> length (chunk xs n ! j) + 1"
proof -
  have "(length xs - i + n - 1) div n \<le> (length xs - j + n - 1 + n) div n"
    using assms by (intro div_le_mono) auto
  also have "\<dots> = (length xs - j + n - 1) div n + 1"
    using assms by (metis Suc_eq_plus1 div_add_self2 gr_implies_not0)
  finally show ?thesis using assms by (simp add: chunk_def every_nth_def)
qed

lemma distinct_chunk: "distinct xs \<Longrightarrow> i < n \<Longrightarrow> distinct (chunk xs n ! i)"
  by (simp add: chunk_def distinct_every_nth)

lemma length_chunk [simp]: "length (chunk xs n) = n"
  by (simp add: chunk_def)

subsection \<open>Sets, groups and targets\<close>

definition iterates_set :: "('a list \<Rightarrow> 'a list) \<Rightarrow> bool" where
  "iterates_set order \<longleftrightarrow> (\<forall>xs. distinct (order xs) \<and> set (order xs) = set xs)"

definition set_orders_ok :: "set_orders \<Rightarrow> bool" where
  "set_orders_ok orders \<longleftrightarrow> iterates_set (so_requests orders) \<and> iterates_set (so_subscribers orders)
     \<and> iterates_set (so_sources orders)"

lemma iterates_setD [simp]:
  "iterates_set order \<Longrightarrow> set (order xs) = set xs" "iterates_set order \<Longrightarrow> distinct (order xs)"
  by (simp_all add: iterates_set_def)

lemma set_orders_okD [simp]:
  "set_orders_ok orders \<Longrightarrow> iterates_set (so_requests orders)"
  "set_orders_ok orders \<Longrightarrow> iterates_set (so_subscribers orders)"
  "set_orders_ok orders \<Longrightarrow> iterates_set (so_sources orders)"
  by (simp_all add: set_orders_ok_def)

lemma set_set_difference [simp]:
  "iterates_set order \<Longrightarrow> set (set_difference order xs ys) = set xs - set ys"
  "iterates_set order \<Longrightarrow> distinct (set_difference order xs ys)"
  by (auto simp: set_difference_def)

lemma set_map_filter: "set (List.map_filter f xs) = {y. \<exists>x \<in> set xs. f x = Some y}"
  by (induction xs) (auto simp: List.map_filter_simps split: option.split)

lemma keys_dict_by [simp]: "set (dict_keys (dict_by key xs)) = key ` set xs"
  using dict_by_None_iff [of key xs] by (auto simp: dict_keys_def map_of_eq_None_iff)

lemma group_target_longest:
  assumes "iterates_set (so_requests orders)" "G \<noteq> []"
  obtains T where "group_target orders G = Inr T" "T \<in> ss_requests ` set G"
    "\<forall>s \<in> set G. length (ss_requests s) \<le> length T"
proof -
  let ?L = "sorted_by_desc length (so_requests orders (map ss_requests G))"
  have set: "set ?L = ss_requests ` set G" using assms(1) by simp
  then obtain T rest where L: "?L = T # rest" using assms(2) by (cases ?L) auto
  have "\<forall>r \<in> set ?L. length r \<le> length T"
    using sorted_sorted_by_desc [of length "so_requests orders (map ss_requests G)"]
    unfolding L by (auto simp: sorted_append)
  then have "\<forall>s \<in> set G. length (ss_requests s) \<le> length T" unfolding set by simp
  moreover have "T \<in> ss_requests ` set G" using set L by auto
  ultimately show thesis using that L by (simp add: group_target_def)
qed

text \<open>Two subscriber keys, one content.\<close>

lemma subscription_key_eq:
  "ss_subscription_key s = xs_key x \<longleftrightarrow> ss_key s = xs_subscriber_key x"
  "ss_subscription_key s = ss_subscription_key t \<longleftrightarrow> ss_key s = ss_key t"
  by (auto simp: ss_subscription_key_def xs_key_def ss_key_def xs_subscriber_key_def)

lemma subscriber_keys_in:
  "xs_key x \<in> ss_subscription_key ` S \<longleftrightarrow> xs_subscriber_key x \<in> ss_key ` S"
proof -
  have "xs_key x = ss_subscription_key s \<longleftrightarrow> xs_subscriber_key x = ss_key s" for s
    using subscription_key_eq(1) [of s x] by auto
  then show ?thesis by (simp add: image_iff)
qed

definition held :: "(event_subscription_key \<rightharpoonup> event_source_identifier list) \<Rightarrow> event_subscription_key
    \<Rightarrow> event_source_identifier set" where
  "held allocated key = (case allocated key of None \<Rightarrow> {} | Some sources \<Rightarrow> set sources)"

lemma held_subscription:
  assumes "distinct (map xs_key X)"
  shows "held (allocation X) key = (\<Union>x \<in> {x \<in> set X. xs_key x = key}. set (xs_sources x))"
proof -
  have "find (\<lambda>x. xs_key x = key) X = Some x" if "x \<in> set X" "xs_key x = key" for x
    using assms that by (induction X) (auto simp: image_iff)
  moreover have "held (allocation X) key
      = (case find (\<lambda>x. xs_key x = key) X of None \<Rightarrow> {} | Some x \<Rightarrow> set (xs_sources x))"
    by (simp add: held_def allocation_def split: option.split)
  ultimately show ?thesis
  proof (cases "find (\<lambda>x. xs_key x = key) X")
    case None
    then have none: "{x \<in> set X. xs_key x = key} = {}" by (auto simp: find_None_iff)
    show ?thesis unfolding none using None by (simp add: held_def allocation_def)
  qed (auto simp: held_def allocation_def dest: find_SomeD)
qed

lemma map_of_subscriptions:
  assumes "distinct (map xs_key X)"
  shows "map_of (dict_by xs_key X) key = Some x \<longleftrightarrow> x \<in> set X \<and> xs_key x = key"
  using dict_by_distinct [OF assms] dict_by_Some [of xs_key X key] by blast

lemma held_map:
  assumes "distinct (map xs_key X)"
  shows "held (allocation X) key
    = (case map_of (dict_by xs_key X) key of None \<Rightarrow> {} | Some x \<Rightarrow> set (xs_sources x))"
proof (cases "map_of (dict_by xs_key X) key")
  case None
  then have none: "{x \<in> set X. xs_key x = key} = {}" by (auto simp: dict_by_None_iff)
  show ?thesis unfolding held_subscription [OF assms] none using None by simp
next
  case (Some x)
  have "y \<in> set X \<and> xs_key y = key \<longleftrightarrow> y = x" for y
    using map_of_subscriptions [OF assms, of key y] Some by auto
  then have one: "{x \<in> set X. xs_key x = key} = {x}" by auto
  show ?thesis unfolding held_subscription [OF assms] one using Some by simp
qed

lemma changed_member:
  assumes "distinct (map ch_key cs)" "c \<in> set cs"
  shows "changed_allocation cs A (ch_key c)
    = (if ch_type c = REMOVE then None else Some (xs_sources (ch_subscription c)))"
proof -
  have "find (\<lambda>d. ch_key d = ch_key c) cs = Some c"
    using assms by (induction cs) (auto simp: image_iff)
  then show ?thesis by (simp add: changed_allocation_def)
qed

lemma changed_other: "key \<notin> ch_key ` set cs \<Longrightarrow> changed_allocation cs A key = A key"
proof -
  assume "key \<notin> ch_key ` set cs"
  then have "find (\<lambda>d. ch_key d = key) cs = None" by (auto simp: find_None_iff)
  then show ?thesis by (simp add: changed_allocation_def)
qed

subsection \<open>The changes of a group\<close>

text \<open>
  What distributing does to a group \<open>G\<close> with target \<open>T\<close>, given the allocation \<open>A\<close> before:
  subscribers that ask for something else hold nothing, those that ask for the target keep what
  they held of it and share what none of them held; shares differ by at most one source.
\<close>

definition eligible :: "event_source_identifier list \<Rightarrow> subscriber_state list \<Rightarrow> subscriber_state set" where
  "eligible T G = {s \<in> set G. ss_requests s = T}"

definition distributes ::
  "event_source_identifier list \<Rightarrow> subscriber_state list
    \<Rightarrow> (event_subscription_key \<rightharpoonup> event_source_identifier list)
    \<Rightarrow> (event_subscription_key \<rightharpoonup> event_source_identifier list) \<Rightarrow> bool" where
  "distributes T G A A' \<longleftrightarrow>
     (\<forall>s \<in> set G. ss_requests s \<noteq> T \<longrightarrow> A' (ss_subscription_key s) = None)
     \<and> (let K = ss_subscription_key ` eligible T G in
          (\<forall>k \<in> K. \<exists>sources. A' k = Some sources \<and> distinct sources)
          \<and> (\<exists>share. (\<forall>k \<in> K. held A' k = held A k \<inter> set T \<union> share k)
          \<and> (\<Union>k \<in> K. share k) = set T - (\<Union>k \<in> K. held A k)
          \<and> (\<forall>k \<in> K. \<forall>k' \<in> K. k \<noteq> k' \<longrightarrow> share k \<inter> share k' = {})
          \<and> (\<forall>k \<in> K. \<forall>k' \<in> K. card (share k) \<le> card (share k') + 1)))"

lemma shares_of_chunks:
  assumes "distinct E" "E \<noteq> []" "distinct N"
    and "\<And>i. i < length E \<Longrightarrow> share (E ! i) = set (chunk N (length E) ! i)"
  shows "(\<Union>s \<in> set E. share s) = set N"
    and "\<forall>s \<in> set E. \<forall>t \<in> set E. s \<noteq> t \<longrightarrow> share s \<inter> share t = {}"
    and "\<forall>s \<in> set E. \<forall>t \<in> set E. card (share s) \<le> card (share t) + 1"
proof -
  have "set E = (!) E ` {..<length E}" by (auto simp: set_conv_nth)
  then have "(\<Union>s \<in> set E. share s) = (\<Union>i<length E. set (chunk N (length E) ! i))"
    using assms(4) by auto
  then show "(\<Union>s \<in> set E. share s) = set N" using chunks_cover [of "length E" N] assms(2) by simp
  show "\<forall>s \<in> set E. \<forall>t \<in> set E. s \<noteq> t \<longrightarrow> share s \<inter> share t = {}"
    using chunks_disjoint [OF assms(3)] assms(4) by (metis in_set_conv_nth)
  have "card (share (E ! i)) = length (chunk N (length E) ! i)" if "i < length E" for i
    using assms(4) that distinct_chunk [OF assms(3)] by (simp add: distinct_card)
  then show "\<forall>s \<in> set E. \<forall>t \<in> set E. card (share s) \<le> card (share t) + 1"
    using chunks_balanced by (metis in_set_conv_nth)
qed

lemma eligible_changeD:
  assumes "ss_group s = g" "iterates_set (so_sources orders)"
  shows "ch_key (eligible_change orders sm g gone new s) = ss_subscription_key s"
    and "ch_type (eligible_change orders sm g gone new s) = ADD \<longleftrightarrow> map_of sm (ss_subscription_key s) = None"
    and "ch_type (eligible_change orders sm g gone new s) \<noteq> REMOVE"
    and "xs_sources (ch_subscription (eligible_change orders sm g gone new s))
      = (case map_of sm (ss_subscription_key s) of None \<Rightarrow> []
         | Some x \<Rightarrow> set_difference (so_sources orders) (xs_sources x) gone) @ new"
  using assms
  by (auto simp: eligible_change_def xs_key_def ss_subscription_key_def split: option.split)

text \<open>The parts of \<open>group_changes\<close>, by their elements.\<close>

lemma group_subscriptions:
  assumes "distinct (map xs_key X)"
  shows "set (List.map_filter (\<lambda>s. map_of (dict_by xs_key X) (ss_subscription_key s)) G)
    = {x \<in> set X. xs_key x \<in> ss_subscription_key ` set G}"
  using map_of_subscriptions [OF assms] by (auto simp: set_map_filter)

lemma group_allocated:
  assumes "distinct (map xs_key X)" "set L \<subseteq> set G" "\<forall>s \<in> set G. ss_key s \<in> keys \<longleftrightarrow> s \<in> set L"
  shows "set (concat (map xs_sources (filter (\<lambda>x. xs_subscriber_key x \<in> keys)
      (List.map_filter (\<lambda>s. map_of (dict_by xs_key X) (ss_subscription_key s)) G))))
    = (\<Union>s \<in> set L. held (allocation X) (ss_subscription_key s))"
  using assms(2,3) unfolding held_subscription [OF assms(1)]
  by (fastforce simp: group_subscriptions [OF assms(1)] subscription_key_eq image_iff eq_commute [of "xs_key _"])

lemma group_removals:
  assumes "distinct (map xs_key X)"
  shows "map ch_key (map remove_change
      (List.map_filter (\<lambda>s. map_of (dict_by xs_key X) (ss_subscription_key s)) I))
    = filter (\<lambda>k. k \<in> xs_key ` set X) (map ss_subscription_key I)"
proof (induction I)
  case (Cons s I)
  then show ?case
    using map_of_subscriptions [OF assms, of "ss_subscription_key s"]
    by (auto simp: List.map_filter_simps remove_change_def dict_by_None_iff image_iff split: option.split)
      metis
qed (simp add: List.map_filter_simps)

text \<open>
  What the changes of a group come to, from which subscribers are eligible for its target (\<open>E\<close>) and
  which are not (\<open>I\<close>): \<open>gone\<close> are the sources no longer in the target, \<open>new\<close> those that are to be shared.
\<close>

lemma group_distributes:
  fixes removals changes :: "subscription_change list"
  assumes ok: "set_orders_ok orders" and X: "distinct (map xs_key X)"
    and inj: "inj_on ss_subscription_key (set G)"
    and setE: "set E = eligible T G" "distinct E" and setI: "set I = {s \<in> set G. ss_requests s \<noteq> T}" "distinct I"
    and E: "E \<noteq> []" and group: "\<And>i. i < length E \<Longrightarrow> ss_group (E ! i) = g"
    and gone: "set gone = (\<Union>s \<in> set G. held (allocation X) (ss_subscription_key s)) - set T"
    and new: "set new = set T - (\<Union>s \<in> set E. held (allocation X) (ss_subscription_key s))" "distinct new"
    and change_def: "\<And>i. change i = eligible_change orders (dict_by xs_key X) g gone (chunk new (length E) ! i) (E ! i)"
    and changes: "changes = map change [0..<length E]"
    and change_keys: "map ch_key changes = map ss_subscription_key E"
    and removal_keys: "map ch_key removals = filter (\<lambda>k. k \<in> xs_key ` set X) (map ss_subscription_key I)"
    and removal_type: "\<forall>c \<in> set removals. ch_type c = REMOVE"
    and distinct: "distinct (map ch_key (removals @ changes))"
  shows "distributes T G (allocation X) (changed_allocation (removals @ changes) (allocation X))"
proof -
  let ?A = "allocation X" and ?sm = "dict_by xs_key X"
  let ?A' = "changed_allocation (removals @ changes) ?A"
  have keysE: "distinct (map ss_subscription_key E)" "map ss_subscription_key E \<noteq> []"
    using setE inj E by (auto simp: distinct_map eligible_def intro: inj_on_subset)
  define share where "share k = (\<Union>i \<in> {i. i < length E \<and> map ss_subscription_key E ! i = k}.
    set (chunk new (length E) ! i))" for k
  have share: "share (map ss_subscription_key E ! i) = set (chunk new (length (map ss_subscription_key E)) ! i)"
    if "i < length (map ss_subscription_key E)" for i
    using that nth_eq_iff_index_eq [OF keysE(1)] by (auto simp: share_def)
  have "?A' (ss_subscription_key s) = None" if "s \<in> set I" for s
  proof (cases "ss_subscription_key s \<in> xs_key ` set X")
    case True
    then have "ss_subscription_key s \<in> set (map ch_key removals)" using that removal_keys by simp
    then obtain c where "c \<in> set removals" "ch_key c = ss_subscription_key s" by auto
    then show ?thesis using changed_member [OF distinct, of c ?A] removal_type by simp
  next
    case False
    then have "?A (ss_subscription_key s) = None"
      by (auto simp: allocation_def find_None_iff image_iff dest: sym)
    moreover have "ss_subscription_key s \<notin> set (map ch_key removals @ map ch_key changes)"
      using False that inj setE setI unfolding removal_keys change_keys by (auto simp: eligible_def dest: inj_onD)
    ultimately show ?thesis using changed_other [of "ss_subscription_key s" "removals @ changes" ?A] by auto
  qed
  moreover have "(\<exists>sources. ?A' (ss_subscription_key s) = Some sources \<and> distinct sources)
      \<and> held ?A' (ss_subscription_key s) = held ?A (ss_subscription_key s) \<inter> set T \<union> share (ss_subscription_key s)" if "s \<in> set E" for s
  proof -
    obtain i where i: "i < length E" "s = E ! i" using \<open>s \<in> set E\<close> by (auto simp: in_set_conv_nth)
    let ?k = "ss_subscription_key s"
    let ?kept = "case map_of ?sm ?k of None \<Rightarrow> []
      | Some x \<Rightarrow> set_difference (so_sources orders) (xs_sources x) gone"
    have "change i \<in> set (removals @ changes)" using i(1) by (simp add: changes)
    note changed_member [OF distinct this, of ?A]
    then have A': "?A' ?k = Some (?kept @ chunk new (length E) ! i)"
      using eligible_changeD [OF group [OF i(1)]] ok by (simp add: change_def i(2))
    have "set ?kept = held ?A ?k - set gone" "distinct ?kept"
      using ok by (auto simp: held_map [OF X] split: option.split)
    moreover have "held ?A ?k \<subseteq> (\<Union>s \<in> set G. held ?A (ss_subscription_key s))"
      using \<open>s \<in> set E\<close> setE(1) by (auto simp: eligible_def)
    moreover have "set (chunk new (length E) ! i) \<inter> held ?A ?k = {}"
      using chunks_cover [of "length E" new] i \<open>s \<in> set E\<close> new(1) by fastforce
    ultimately show ?thesis
      using A' gone share [of i] i distinct_chunk [OF new(2) i(1)] by (auto simp: held_def [of ?A'])
  qed
  ultimately show ?thesis
    unfolding distributes_def Let_def using shares_of_chunks [OF keysE new(2) share]
    unfolding set_map setE(1) new(1) setI by (intro conjI exI [of _ share]) auto
qed

lemma group_changes_effect:
  assumes ok: "set_orders_ok orders" and X: "distinct (map xs_key X)"
    and G: "G \<noteq> []" "distinct (map ss_key G)" "\<forall>s \<in> set G. ss_group s = g"
    and live: "ss_key ` set G \<subseteq> set (dict_keys um)"
  obtains T cs where "group_target orders G = Inr T"
    "group_changes orders (dict_by xs_key X) um (g, G) = Inr cs" "distinct (map ch_key cs)"
    "\<forall>c \<in> set cs. ch_key c \<in> ss_subscription_key ` set G
       \<and> (ch_type c = ADD \<longleftrightarrow> ch_key c \<notin> xs_key ` set X)"
    "distributes T G (allocation X) (changed_allocation cs (allocation X))"
proof -
  let ?A = "allocation X" and ?sm = "dict_by xs_key X"
  obtain T where T: "group_target orders G = Inr T" "T \<in> ss_requests ` set G"
    by (rule group_target_longest [of orders G]) (use ok G(1) in auto)
  define I where "I = so_subscribers orders (filter (\<lambda>s. ss_requests s \<noteq> T) G)"
  define E where "E = so_subscribers orders (filter (\<lambda>s. ss_requests s = T) G)"
  define subs where "subs = List.map_filter (\<lambda>s. map_of ?sm (ss_subscription_key s)) G"
  define alloc where
    "alloc = concat (map xs_sources (filter (\<lambda>x. xs_subscriber_key x \<in> set (dict_keys um)) subs))"
  define correct where "correct = filter (\<lambda>src. src \<in> set T)
    (concat (map xs_sources (filter (\<lambda>x. xs_subscriber_key x \<in> set (dict_keys (dict_by ss_key E))) subs)))"
  define gone where "gone = filter (\<lambda>src. src \<notin> set T) alloc"
  define new where "new = set_difference (so_sources orders) T correct"
  define removals where
    "removals = map remove_change (List.map_filter (\<lambda>s. map_of ?sm (ss_subscription_key s)) I)"
  define changes where "changes = map (\<lambda>(i, s). eligible_change orders ?sm g gone
    (chunk new (length E) ! i) s) (List.enumerate 0 E)"
  have "group_changes orders ?sm um (g, G) = Inr (removals @ changes)"
    unfolding group_changes_def Let_def prod.case T res_bind_simps
    by (simp only: removals_def changes_def new_def gone_def correct_def alloc_def subs_def E_def I_def)
  then have eq: "group_changes orders ?sm um (g, G) = Inr (removals @ changes)" .
  have setE: "set E = eligible T G" "distinct E" and setI: "set I = {s \<in> set G. ss_requests s \<noteq> T}" "distinct I"
    using ok by (auto simp: E_def I_def eligible_def)
  have "E \<noteq> []" using setE(1) T(2) by (auto simp: eligible_def)
  have inj: "inj_on ss_subscription_key (set G)"
    using G(2) by (auto simp: inj_on_def subscription_key_eq distinct_map)
  have "set alloc = (\<Union>s \<in> set G. held ?A (ss_subscription_key s))"
    unfolding alloc_def subs_def by (rule group_allocated [OF X]) (use live in auto)
  then have gone: "set gone = (\<Union>s \<in> set G. held ?A (ss_subscription_key s)) - set T"
    by (auto simp: gone_def)
  have "set correct = (\<Union>s \<in> set E. held ?A (ss_subscription_key s)) \<inter> set T"
  proof -
    have "\<forall>s \<in> set G. ss_key s \<in> set (dict_keys (dict_by ss_key E)) \<longleftrightarrow> s \<in> set E"
      using G(2) setE(1) by (auto simp: distinct_map eligible_def dest: inj_onD)
    then show ?thesis
      using group_allocated [OF X, of E G "set (dict_keys (dict_by ss_key E))"] setE(1)
      by (auto simp: correct_def subs_def eligible_def)
  qed
  then have new: "set new = set T - (\<Union>s \<in> set E. held ?A (ss_subscription_key s))" "distinct new"
    using ok by (auto simp: new_def)
  have group: "ss_group (E ! i) = g" if "i < length E" for i
    using nth_mem [OF that] setE(1) G(3) by (auto simp: eligible_def)
  define change where
    "change i = eligible_change orders ?sm g gone (chunk new (length E) ! i) (E ! i)" for i
  have changes: "changes = map change [0..<length E]"
    by (auto simp: changes_def change_def intro!: nth_equalityI simp: nth_enumerate_eq)
  have change_keys: "map ch_key changes = map ss_subscription_key E"
    using group eligible_changeD(1) ok by (auto simp: changes change_def intro!: nth_equalityI)
  have removal_keys: "map ch_key removals = filter (\<lambda>k. k \<in> xs_key ` set X) (map ss_subscription_key I)"
    unfolding removals_def by (rule group_removals [OF X])
  have removal_type: "\<forall>c \<in> set removals. ch_type c = REMOVE" by (auto simp: removals_def remove_change_def)
  have distinct: "distinct (map ch_key (removals @ changes))"
    unfolding map_append change_keys removal_keys distinct_append
    using inj setE setI by (auto simp: distinct_map inj_on_def eligible_def)
  let ?A' = "changed_allocation (removals @ changes) ?A"
  have keys: "\<forall>c \<in> set (removals @ changes). ch_key c \<in> ss_subscription_key ` set G
       \<and> (ch_type c = ADD \<longleftrightarrow> ch_key c \<notin> xs_key ` set X)"
  proof
    fix c assume "c \<in> set (removals @ changes)"
    then consider "c \<in> set removals" | i where "i < length E" "c = change i"
      by (auto simp: changes)
    then show "ch_key c \<in> ss_subscription_key ` set G \<and> (ch_type c = ADD \<longleftrightarrow> ch_key c \<notin> xs_key ` set X)"
    proof cases
      case 1
      then have "ch_key c \<in> set (map ch_key removals)" by simp
      then show ?thesis using 1 removal_type setI(1) unfolding removal_keys by auto
    next
      case 2
      then have "E ! i \<in> set G" using setE(1) nth_mem [OF 2(1)] by (auto simp: eligible_def)
      then show ?thesis
        using 2 eligible_changeD(1,2) [OF group [OF 2(1)]] ok by (simp add: change_def dict_by_None_iff)
    qed
  qed
  have "distributes T G ?A ?A'"
    by (rule group_distributes [OF ok X inj setE setI \<open>E \<noteq> []\<close> group gone new change_def changes change_keys
        removal_keys removal_type distinct])
  then show thesis using that T(1) eq distinct keys by blast
qed

subsection \<open>The changes of all groups\<close>

lemma groupby_cases:
  obtains "groupby key xs = []" | k ys gs where "groupby key xs = (k, ys) # gs"
  by (cases "groupby key xs") auto

lemma groupby_groups: "(k, ys) \<in> set (groupby key xs) \<Longrightarrow> ys \<noteq> [] \<and> (\<forall>y \<in> set ys. key y = k)"
proof (induction xs arbitrary: k ys)
  case (Cons x xs)
  show ?case
  proof (cases rule: groupby_cases [of key xs])
    case (2 j zs gs)
    then have "zs \<noteq> [] \<and> (\<forall>z \<in> set zs. key z = j)" using Cons.IH [of j zs] by simp
    then show ?thesis using Cons.prems Cons.IH [of k ys] 2 by (auto split: if_splits)
  qed (use Cons.prems in simp)
qed simp

lemma groupby_concat: "concat (map snd (groupby key xs)) = xs"
proof (induction xs)
  case (Cons x xs)
  then show ?case by (cases rule: groupby_cases [of key xs]) simp_all
qed simp

lemma groupby_keys: "set (map fst (groupby key xs)) = key ` set xs"
proof (induction xs)
  case (Cons x xs)
  show ?case
  proof (cases rule: groupby_cases [of key xs])
    case (2 k ys gs)
    then have "key ` set xs = insert k (set (map fst gs))" using Cons.IH by simp
    then show ?thesis using 2 by simp
  qed (use Cons.IH in simp)
qed simp

lemma groupby_sorted:
  fixes key :: "'a \<Rightarrow> 'k :: linorder"
  shows "sorted (map key xs) \<Longrightarrow> sorted_wrt (<) (map fst (groupby key xs))"
proof (induction xs)
  case (Cons x xs)
  then have le: "\<forall>k \<in> set (map fst (groupby key xs)). key x \<le> k" unfolding groupby_keys by simp
  from Cons have IH: "sorted_wrt (<) (map fst (groupby key xs))" by simp
  show ?case
  proof (cases rule: groupby_cases [of key xs])
    case (2 k ys gs)
    then show ?thesis using le IH by (cases "key x = k") auto
  qed simp
qed simp

lemma filter_groups:
  "distinct (map fst gs) \<Longrightarrow> (k, ys) \<in> set gs \<Longrightarrow> \<forall>(j, zs) \<in> set gs. \<forall>z \<in> set zs. key z = j
    \<Longrightarrow> filter (\<lambda>x. key x = k) (concat (map snd gs)) = ys"
proof (induction gs)
  case (Cons g gs)
  obtain j zs where g: "g = (j, zs)" by (cases g)
  show ?case
  proof (cases "j = k")
    case True
    then have "ys = zs" using Cons.prems(1,2) g by (force simp: image_iff)
    moreover have "filter (\<lambda>x. key x = k) (concat (map snd gs)) = []"
      using Cons.prems(1,3) g True by (fastforce simp: filter_empty_conv)
    ultimately show ?thesis using Cons.prems(3) g True by simp
  next
    case False
    then have "filter (\<lambda>x. key x = k) zs = []" using Cons.prems(3) g by (auto simp: filter_empty_conv)
    then show ?thesis using Cons g False by simp
  qed
qed simp

lemma groupby_filter:
  assumes "distinct (map fst (groupby key xs))" "(k, ys) \<in> set (groupby key xs)"
  shows "ys = filter (\<lambda>x. key x = k) xs"
  using filter_groups [OF assms, of key] groupby_groups [of _ _ key xs] by (auto simp: groupby_concat)

lemma changed_sub:
  assumes "distinct (map ch_key cs)" "distinct (map ch_key ds)" "set ds \<subseteq> set cs"
    and "\<forall>c \<in> set cs. ch_key c = key \<longrightarrow> c \<in> set ds"
  shows "changed_allocation cs A key = changed_allocation ds A key"
proof (cases "\<exists>c \<in> set cs. ch_key c = key")
  case True
  then obtain c where "c \<in> set cs" "c \<in> set ds" "ch_key c = key" using assms(4) by blast
  then show ?thesis using changed_member [OF assms(1)] changed_member [OF assms(2)] by metis
next
  case False
  then have "key \<notin> ch_key ` set cs" "key \<notin> ch_key ` set ds" using assms(3) by blast+
  then show ?thesis by (simp add: changed_other)
qed

lemma distributes_cong:
  "distributes T G A A' \<Longrightarrow> (\<And>s. s \<in> set G \<Longrightarrow> A'' (ss_subscription_key s) = A' (ss_subscription_key s))
    \<Longrightarrow> distributes T G A A''"
  by (simp add: distributes_def eligible_def held_def [of A''] held_def [of A'])

lemma sorted_group:
  assumes "(g, G) \<in> set (groupby ss_group (sorted_by ss_group L))"
  shows "G = filter (\<lambda>s. ss_group s = g) L" "G \<noteq> []" "\<forall>s \<in> set G. ss_group s = g"
proof -
  have "sorted_wrt (<) (map fst (groupby ss_group (sorted_by ss_group L)))"
    by (rule groupby_sorted) (rule sorted_sorted_by)
  then have "distinct (map fst (groupby ss_group (sorted_by ss_group L)))"
    using strict_sorted_iff by blast
  from groupby_filter [OF this assms] show "G = filter (\<lambda>s. ss_group s = g) L"
    by (simp add: sorted_by_stable)
  show "G \<noteq> []" "\<forall>s \<in> set G. ss_group s = g" using groupby_groups [OF assms] by simp_all
qed

lemma res_map_witness:
  "\<forall>x \<in> set xs. \<exists>y. f x = Inr y \<and> P x y \<Longrightarrow> \<exists>ys. res_map f xs = Inr ys \<and> list_all2 P xs ys"
  using res_map_list_all2 [of xs f P] by blast

text \<open>The changes of the groups, put together: each group is changed as by its own changes.\<close>

lemma concat_changes_distinct:
  assumes "list_all2 (\<lambda>(g, G) cs. distinct (map ch_key cs) \<and> (\<forall>c \<in> set cs. xk_group (ch_key c) = g)) gs css"
    and "distinct (map fst gs)"
  shows "distinct (map ch_key (concat css))
    \<and> (\<forall>c \<in> set (concat css). xk_group (ch_key c) \<in> set (map fst gs))"
  using assms
proof (induction rule: list_all2_induct)
  case (Cons g gs cs css)
  then have "ch_key c \<noteq> ch_key d" if "c \<in> set cs" "d \<in> set (concat css)" for c d
    using that by (cases g) (force simp: image_iff)
  with Cons show ?case by (cases g) (auto simp del: set_concat)
qed simp

lemma keys_disjoint:
  "(\<And>c. c \<in> set cs \<Longrightarrow> ch_key c \<notin> K) \<Longrightarrow> (\<And>d. d \<in> set ds \<Longrightarrow> ch_key d \<in> K)
    \<Longrightarrow> set (map ch_key cs) \<inter> set (map ch_key ds) = {}"
  by (auto, metis)

lemma in_concat_nth: "c \<in> set (concat css) \<Longrightarrow> \<exists>i < length css. c \<in> set (css ! i)"
proof -
  assume "c \<in> set (concat css)"
  then obtain cs where "cs \<in> set css" "c \<in> set cs" by auto
  then show ?thesis by (metis in_set_conv_nth)
qed

definition group_done ::
  "set_orders \<Rightarrow> subscription_state list \<Rightarrow> string \<times> subscriber_state list \<Rightarrow> subscription_change list \<Rightarrow> bool" where
  "group_done orders X = (\<lambda>(g, G) cs. distinct (map ch_key cs)
      \<and> (\<forall>c \<in> set cs. xk_group (ch_key c) = g)
      \<and> (\<forall>c \<in> set cs. ch_key c \<in> ss_subscription_key ` set G \<and> (ch_type c = ADD \<longleftrightarrow> ch_key c \<notin> xs_key ` set X))
      \<and> (\<exists>T. group_target orders G = Inr T \<and> distributes T G (allocation X) (changed_allocation cs (allocation X))))"

lemma group_done_exists:
  assumes ok: "set_orders_ok orders" and X: "distinct (map xs_key X)" and L: "distinct (map ss_key L)"
    and member: "(g, G) \<in> set (groupby ss_group (sorted_by ss_group L))"
  shows "\<exists>cs. group_changes orders (dict_by xs_key X) (dict_by ss_key (sorted_by ss_group L)) (g, G) = Inr cs
    \<and> group_done orders X (g, G) cs"
proof -
  let ?um = "dict_by ss_key (sorted_by ss_group L)"
  note G = sorted_group [OF member]
  have "distinct (map ss_key G)" "ss_key ` set G \<subseteq> set (dict_keys ?um)"
    using L by (auto simp: G(1) distinct_map_filter)
  from group_changes_effect [OF ok X G(2) this(1) G(3) this(2)]
  obtain T cs where cs: "group_target orders G = Inr T"
    "group_changes orders (dict_by xs_key X) ?um (g, G) = Inr cs" "distinct (map ch_key cs)"
    "\<forall>c \<in> set cs. ch_key c \<in> ss_subscription_key ` set G \<and> (ch_type c = ADD \<longleftrightarrow> ch_key c \<notin> xs_key ` set X)"
    "distributes T G (allocation X) (changed_allocation cs (allocation X))" .
  moreover have "\<forall>c \<in> set cs. xk_group (ch_key c) = g"
    using cs(4) G(3) by (auto simp: ss_subscription_key_def)
  ultimately show ?thesis unfolding group_done_def by blast
qed

lemma change_of_group:
  assumes "length css = length gs" "distinct (map fst gs)"
    and "\<And>i c. i < length css \<Longrightarrow> c \<in> set (css ! i) \<Longrightarrow> xk_group (ch_key c) = fst (gs ! i)"
    and "i < length css" "c \<in> set (concat css)" "xk_group (ch_key c) = fst (gs ! i)"
  shows "c \<in> set (css ! i)"
proof -
  obtain j where j: "j < length css" "c \<in> set (css ! j)" using in_concat_nth [OF assms(5)] by blast
  then have "map fst gs ! j = map fst gs ! i" using assms(1,4,6) assms(3) [OF j] by simp
  then have "j = i" using nth_eq_iff_index_eq [OF assms(2)] assms(1,4) j(1) by simp
  then show ?thesis using j(2) by simp
qed

lemma changed_none:
  assumes "distinct (map ch_key cs)" "\<forall>x \<in> set X. xs_key x \<notin> K \<longrightarrow> remove_change x \<in> set cs"
    and "\<forall>c \<in> set cs. ch_key c \<in> K \<or> ch_key c \<in> xs_key ` set X" "key \<notin> K"
  shows "changed_allocation cs (allocation X) key = None"
proof (cases "key \<in> xs_key ` set X")
  case True
  then obtain x where x: "x \<in> set X" "xs_key x = key" by blast
  then have "remove_change x \<in> set cs" using assms(2,4) by blast
  from changed_member [OF assms(1) this, of "allocation X"] show ?thesis using x(2) by (simp add: remove_change_def)
next
  case False
  then have "key \<notin> ch_key ` set cs" using assms(3,4) by blast
  moreover have "allocation X key = None" using False by (auto simp: allocation_def find_None_iff image_iff dest: sym)
  ultimately show ?thesis by (simp add: changed_other)
qed

lemma distribution_effect:
  assumes ok: "set_orders_ok orders" and X: "distinct (map xs_key X)" and L: "distinct (map ss_key L)"
  obtains changes where "distribution_changes orders X L = Inr changes" "changes_apply changes X"
    "\<forall>g \<in> ss_group ` set L. \<exists>T. group_target orders (filter (\<lambda>s. ss_group s = g) L) = Inr T
       \<and> distributes T (filter (\<lambda>s. ss_group s = g) L) (allocation X)
           (changed_allocation changes (allocation X))"
    "\<forall>key. key \<notin> ss_subscription_key ` set L \<longrightarrow> changed_allocation changes (allocation X) key = None"
proof -
  let ?S = "sorted_by ss_group L" and ?A = "allocation X" and ?sm = "dict_by xs_key X"
  let ?um = "dict_by ss_key ?S" and ?gs = "groupby ss_group (sorted_by ss_group L)"
  define P where "P = group_done orders X"
  have "\<exists>cs. group_changes orders ?sm ?um (g, G) = Inr cs \<and> P (g, G) cs" if "(g, G) \<in> set ?gs" for g G
    unfolding P_def by (rule group_done_exists [OF ok X L that])
  then obtain css where css: "res_map (group_changes orders ?sm ?um) ?gs = Inr css" "list_all2 P ?gs css"
    using res_map_witness [of ?gs "group_changes orders ?sm ?um" P] by fast
  define removals where
    "removals = map remove_change (filter (\<lambda>x. xs_subscriber_key x \<notin> set (dict_keys ?um)) X)"
  let ?changes = "removals @ concat css"
  have eq: "distribution_changes orders X L = Inr ?changes"
    unfolding distribution_changes_def Let_def css(1) res_bind_simps removals_def ..
  have len: "length css = length ?gs" using css(2) by (simp add: list_all2_lengthD)
  have P: "P (?gs ! i) (css ! i)" if "i < length css" for i
    using css(2) that len by (simp add: list_all2_nthD)
  have fsts: "distinct (map fst ?gs)"
    using groupby_sorted [OF sorted_sorted_by] strict_sorted_iff by blast
  have "list_all2 (\<lambda>(g, G) cs. distinct (map ch_key cs) \<and> (\<forall>c \<in> set cs. xk_group (ch_key c) = g)) ?gs css"
    by (rule list_all2_mono [OF css(2)]) (auto simp: P_def group_done_def)
  moreover from list_all2_nthD2 [OF this]
  have group_of: "xk_group (ch_key c) = fst (?gs ! i)" if "i < length css" "c \<in> set (css ! i)" for i c
    using that by fastforce
  ultimately have P': "list_all2 (\<lambda>(g, G) cs. distinct (map ch_key cs)
      \<and> (\<forall>c \<in> set cs. xk_group (ch_key c) = g)) ?gs css" by simp
  note css_distinct = conjunct1 [OF concat_changes_distinct [OF P' fsts]]
  have live: "ch_key c \<in> ss_subscription_key ` set L \<and> (ch_type c = ADD \<longleftrightarrow> ch_key c \<notin> xs_key ` set X)"
    if c: "c \<in> set (concat css)" for c
  proof -
    obtain i where i: "i < length css" "c \<in> set (css ! i)" using in_concat_nth [OF c] by blast
    obtain g G where G: "?gs ! i = (g, G)" by fastforce
    then have "(g, G) \<in> set ?gs" using i(1) len by (metis nth_mem)
    then have "set G \<subseteq> set L" using sorted_group(1) by fastforce
    then show ?thesis using P [OF i(1)] i(2) unfolding G P_def group_done_def by blast
  qed
  have gone: "ch_type c = REMOVE \<and> ch_key c \<in> xs_key ` set X \<and> ch_key c \<notin> ss_subscription_key ` set L"
    if "c \<in> set removals" for c
  proof -
    obtain x where x: "x \<in> set X" "xs_subscriber_key x \<notin> ss_key ` set L" "c = remove_change x"
      using \<open>c \<in> set removals\<close> by (auto simp: removals_def)
    then have "xs_key x \<notin> ss_subscription_key ` set L" by (simp add: subscriber_keys_in)
    then show ?thesis using x by (simp add: remove_change_def)
  qed
  have "distinct (map ch_key removals)" using X by (simp add: removals_def comp_def remove_change_def distinct_map_filter)
  moreover have "set (map ch_key removals) \<inter> set (map ch_key (concat css)) = {}"
    by (rule keys_disjoint [of _ "ss_subscription_key ` set L"]) (use gone live in blast)+
  ultimately have distinct: "distinct (map ch_key ?changes)"
    using css_distinct unfolding map_append distinct_append by blast
  then have changes: "changes_apply ?changes X"
    using live gone unfolding changes_apply_def set_append by (metis Un_iff change_type.distinct(1))
  have "\<exists>T. group_target orders (filter (\<lambda>s. ss_group s = g) L) = Inr T
       \<and> distributes T (filter (\<lambda>s. ss_group s = g) L) ?A (changed_allocation ?changes ?A)"
    if "g \<in> ss_group ` set L" for g
  proof -
    have "g \<in> set (map fst ?gs)" unfolding groupby_keys using that by simp
    then obtain G where "(g, G) \<in> set ?gs" by auto
    then obtain i where i: "i < length css" "?gs ! i = (g, G)" using len by (auto simp: in_set_conv_nth)
    note G = sorted_group [OF \<open>(g, G) \<in> set ?gs\<close>]
    obtain T where T: "group_target orders G = Inr T" "distributes T G ?A (changed_allocation (css ! i) ?A)"
      "distinct (map ch_key (css ! i))" using P [OF i(1)] unfolding i(2) P_def group_done_def by blast
    have "changed_allocation ?changes ?A (ss_subscription_key s) = changed_allocation (css ! i) ?A (ss_subscription_key s)"
      if "s \<in> set G" for s
    proof (rule changed_sub [OF distinct T(3)])
      show "\<forall>c \<in> set ?changes. ch_key c = ss_subscription_key s \<longrightarrow> c \<in> set (css ! i)"
      proof (intro ballI impI)
        fix c assume c: "c \<in> set ?changes" "ch_key c = ss_subscription_key s"
        have "s \<in> set L" using that G(1) by simp
        then have "c \<notin> set removals" using gone [of c] c(2) by (metis imageI)
        then have "c \<in> set (concat css)" using c(1) by (metis Un_iff set_append)
        moreover have "xk_group (ch_key c) = fst (?gs ! i)"
          using bspec [OF G(3) that] by (simp only: i(2) fst_conv c(2) ss_subscription_key_def event_subscription_key.sel)
        ultimately show "c \<in> set (css ! i)"
          by (intro change_of_group [where css = css and gs = ?gs, OF len fsts _ i(1)]) (rule group_of)
      qed
    qed (use i(1) in auto)
    then show ?thesis using T(1) distributes_cong [OF T(2)] unfolding G(1) by blast
  qed
  moreover have "changed_allocation ?changes ?A key = None" if "key \<notin> ss_subscription_key ` set L" for key
  proof (rule changed_none [OF distinct _ _ that])
    show "\<forall>x \<in> set X. xs_key x \<notin> ss_subscription_key ` set L \<longrightarrow> remove_change x \<in> set ?changes"
      by (simp add: removals_def subscriber_keys_in)
    show "\<forall>c \<in> set ?changes. ch_key c \<in> ss_subscription_key ` set L \<or> ch_key c \<in> xs_key ` set X"
      using gone live unfolding set_append by blast
  qed
  ultimately show thesis using that eq changes by blast
qed

subsection \<open>What a distribution achieves\<close>

definition target_of :: "set_orders \<Rightarrow> subscriber_state list \<Rightarrow> string \<Rightarrow> event_source_identifier list" where
  "target_of orders live g =
     (case group_target orders (filter (\<lambda>s. ss_group s = g) live) of Inl _ \<Rightarrow> [] | Inr T \<Rightarrow> T)"

text \<open>No source is held twice within a group.\<close>

definition exclusive :: "(event_subscription_key \<rightharpoonup> event_source_identifier list) \<Rightarrow> bool" where
  "exclusive A \<longleftrightarrow> (\<forall>k k'. k \<noteq> k' \<and> xk_group k = xk_group k' \<longrightarrow> held A k \<inter> held A k' = {})"

text \<open>The effect of one distribution to the live subscribers on the allocation.\<close>

definition distributed_to ::
  "set_orders \<Rightarrow> subscriber_state list
    \<Rightarrow> (event_subscription_key \<rightharpoonup> event_source_identifier list)
    \<Rightarrow> (event_subscription_key \<rightharpoonup> event_source_identifier list) \<Rightarrow> bool" where
  "distributed_to orders live A A' \<longleftrightarrow>
     (\<forall>g \<in> ss_group ` set live. distributes (target_of orders live g) (filter (\<lambda>s. ss_group s = g) live) A A')
     \<and> (\<forall>key. key \<notin> ss_subscription_key ` set live \<longrightarrow> A' key = None)"

context subscription_state_store
begin

lemma distributed:
  assumes "set_orders_ok orders" "store_inv s" "distinct (map ss_key live)"
  obtains changes s' where "distribution_changes orders (list_subscriptions s) live = Inr changes"
    "apply_changes changes s = (s', Inr ())" "store_inv s'"
    "distributed_to orders live (allocation (list_subscriptions s)) (allocation (list_subscriptions s'))"
proof -
  obtain changes where changes: "distribution_changes orders (list_subscriptions s) live = Inr changes"
    "changes_apply changes (list_subscriptions s)"
    "\<forall>g \<in> ss_group ` set live. \<exists>T. group_target orders (filter (\<lambda>s. ss_group s = g) live) = Inr T
       \<and> distributes T (filter (\<lambda>s. ss_group s = g) live) (allocation (list_subscriptions s))
           (changed_allocation changes (allocation (list_subscriptions s)))"
    "\<forall>key. key \<notin> ss_subscription_key ` set live
       \<longrightarrow> changed_allocation changes (allocation (list_subscriptions s)) key = None"
    by (rule distribution_effect [OF assms(1) keys_distinct [OF assms(2)] assms(3)])
  then have "distributed_to orders live (allocation (list_subscriptions s))
      (changed_allocation changes (allocation (list_subscriptions s)))"
    by (auto simp: distributed_to_def target_of_def)
  then show thesis using applied [OF assms(2) changes(2)] changes(1) that by metis
qed

end

lemma target_of_live:
  assumes "set_orders_ok orders" "s \<in> set live"
  shows "target_of orders live (ss_group s) \<in> ss_requests ` {t \<in> set live. ss_group t = ss_group s}"
    and "length (ss_requests s) \<le> length (target_of orders live (ss_group s))"
proof -
  let ?G = "filter (\<lambda>t. ss_group t = ss_group s) live"
  have "?G \<noteq> []" using assms(2) by (auto simp: filter_empty_conv)
  then obtain T where "group_target orders ?G = Inr T" "T \<in> ss_requests ` set ?G"
    "\<forall>s \<in> set ?G. length (ss_requests s) \<le> length T"
    using group_target_longest [of orders ?G] assms(1) by (metis set_orders_okD(1))
  then show "target_of orders live (ss_group s) \<in> ss_requests ` {t \<in> set live. ss_group t = ss_group s}"
    and "length (ss_requests s) \<le> length (target_of orders live (ss_group s))"
    using assms(2) by (auto simp: target_of_def)
qed

lemma distributes_dom:
  assumes "distributes T G A A'" "s \<in> set G"
  shows "A' (ss_subscription_key s) \<noteq> None \<longleftrightarrow> ss_requests s = T"
proof (cases "ss_requests s = T")
  case True
  then have "ss_subscription_key s \<in> ss_subscription_key ` eligible T G"
    using assms(2) by (simp add: eligible_def)
  moreover have "\<forall>k \<in> ss_subscription_key ` eligible T G. \<exists>sources. A' k = Some sources \<and> distinct sources"
    using assms(1) unfolding distributes_def Let_def by (elim conjE)
  ultimately have "\<exists>sources. A' (ss_subscription_key s) = Some sources \<and> distinct sources" by (rule bspec [rotated])
  then show ?thesis using True by auto
qed (use assms in \<open>simp add: distributes_def\<close>)

lemma distributed_group:
  "distributed_to orders live A A' \<Longrightarrow> g \<in> ss_group ` set live
    \<Longrightarrow> distributes (target_of orders live g) (filter (\<lambda>s. ss_group s = g) live) A A'"
  unfolding distributed_to_def by (elim conjE) (rule bspec)

lemma distributed_others:
  "distributed_to orders live A A' \<Longrightarrow> A' k \<noteq> None \<Longrightarrow> k \<in> ss_subscription_key ` set live"
  unfolding distributed_to_def by (rule ccontr) simp

text \<open>The subscribers that are given sources, and what they hold afterwards.\<close>

lemma distributed_subscribers:
  assumes "distributed_to orders live A A'"
  shows "dom A' = ss_subscription_key ` {s \<in> set live. ss_requests s = target_of orders live (ss_group s)}"
proof -
  have "A' (ss_subscription_key s) \<noteq> None \<longleftrightarrow> ss_requests s = target_of orders live (ss_group s)"
    if "s \<in> set live" for s
    using that distributes_dom [OF distributed_group [OF assms imageI [OF that]], of s] by simp
  moreover have "dom A' \<subseteq> ss_subscription_key ` set live" using distributed_others [OF assms] by auto
  ultimately show ?thesis by blast
qed

lemma distributed_keys:
  assumes "distributed_to orders live A A'" "g \<in> ss_group ` set live"
  shows "ss_subscription_key ` eligible (target_of orders live g) (filter (\<lambda>s. ss_group s = g) live)
    = {k \<in> dom A'. xk_group k = g}"
  unfolding distributed_subscribers [OF assms(1)] by (auto simp: eligible_def ss_subscription_key_def)

lemma distributed_shares:
  assumes "distributed_to orders live A A'" "g \<in> ss_group ` set live"
  defines "K \<equiv> {k \<in> dom A'. xk_group k = g}" and "T \<equiv> set (target_of orders live g)"
  obtains share where
    "\<forall>k \<in> K. distinct (the (A' k))" "\<forall>k \<in> K. held A' k = held A k \<inter> T \<union> share k"
    "(\<Union>k \<in> K. share k) = T - (\<Union>k \<in> K. held A k)"
    "\<forall>k \<in> K. \<forall>k' \<in> K. k \<noteq> k' \<longrightarrow> share k \<inter> share k' = {}"
    "\<forall>k \<in> K. \<forall>k' \<in> K. card (share k) \<le> card (share k') + 1"
proof -
  note D = distributed_group [OF assms(1,2), unfolded distributes_def Let_def distributed_keys [OF assms(1,2)],
      folded K_def T_def]
  from D have "\<forall>k \<in> K. \<exists>sources. A' k = Some sources \<and> distinct sources" by (elim conjE)
  then have "\<forall>k \<in> K. distinct (the (A' k))" by auto
  then show thesis using D by (elim conjE exE) (rule that; assumption)
qed

lemma distributed_holdings:
  assumes "distributed_to orders live A A'" "g \<in> ss_group ` set live"
  defines "K \<equiv> {k \<in> dom A'. xk_group k = g}" and "T \<equiv> set (target_of orders live g)"
  shows "(\<Union>k \<in> K. held A' k) = T"
    and "\<forall>k \<in> K. held A k \<inter> T \<subseteq> held A' k"
    and "\<forall>k \<in> K. \<forall>k' \<in> K. card (held A' k - held A k) \<le> card (held A' k' - held A k') + 1"
    and "exclusive A \<Longrightarrow> \<forall>k \<in> K. \<forall>k' \<in> K. k \<noteq> k' \<longrightarrow> held A' k \<inter> held A' k' = {}"
proof -
  obtain share where share: "\<forall>k \<in> K. held A' k = held A k \<inter> T \<union> share k"
    "(\<Union>k \<in> K. share k) = T - (\<Union>k \<in> K. held A k)"
    "\<forall>k \<in> K. \<forall>k' \<in> K. k \<noteq> k' \<longrightarrow> share k \<inter> share k' = {}"
    "\<forall>k \<in> K. \<forall>k' \<in> K. card (share k) \<le> card (share k') + 1"
    by (rule distributed_shares [OF assms(1,2), folded K_def T_def])
  have new: "share k \<subseteq> T" "\<forall>k' \<in> K. share k \<inter> held A k' = {}" if "k \<in> K" for k
    using share(2) that by blast+
  show "(\<Union>k \<in> K. held A' k) = T" using share(1,2) by auto
  show "\<forall>k \<in> K. held A k \<inter> T \<subseteq> held A' k" using share(1) by auto
  have "held A' k - held A k = share k" if "k \<in> K" for k
    using share(1) new(2) [OF that] that by auto
  then show "\<forall>k \<in> K. \<forall>k' \<in> K. card (held A' k - held A k) \<le> card (held A' k' - held A k') + 1"
    using share(4) by simp
  show "\<forall>k \<in> K. \<forall>k' \<in> K. k \<noteq> k' \<longrightarrow> held A' k \<inter> held A' k' = {}" if "exclusive A"
  proof (intro ballI impI)
    fix k k' assume k: "k \<in> K" "k' \<in> K" "k \<noteq> k'"
    then have "held A k \<inter> held A k' = {}" using that by (auto simp: exclusive_def K_def)
    moreover have "share k \<inter> share k' = {}" "share k \<inter> held A k' = {}" "share k' \<inter> held A k = {}"
      using share(3) new(2) k by blast+
    ultimately show "held A' k \<inter> held A' k' = {}" using share(1) k by auto
  qed
qed

lemma distributed_in_group:
  assumes "distributed_to orders live A A'" "k \<in> dom A'"
  shows "xk_group k \<in> ss_group ` set live"
proof -
  obtain s where "s \<in> set live" "k = ss_subscription_key s"
    using distributed_others [OF assms(1), of k] assms(2) by blast
  then show ?thesis by (simp add: ss_subscription_key_def)
qed

lemma distributed_exclusive:
  assumes "distributed_to orders live A A'" "exclusive A"
  shows "exclusive A'"
  unfolding exclusive_def
proof (intro allI impI)
  fix k k' :: event_subscription_key
  assume k: "k \<noteq> k' \<and> xk_group k = xk_group k'"
  show "held A' k \<inter> held A' k' = {}"
  proof (cases "k \<in> dom A' \<and> k' \<in> dom A'")
    case True
    then have "xk_group k \<in> ss_group ` set live" using distributed_in_group [OF assms(1)] by blast
    from distributed_holdings(4) [OF assms(1) this assms(2)] show ?thesis using k True by simp
  qed (auto simp: held_def dom_def split: option.splits)
qed

lemma live_wf: "subscribers_wf subscribers \<Longrightarrow> distinct (map ss_key (subscriber_list now g age subscribers))"
  by (auto simp: subscriber_list_def subscribers_wf_def Let_def distinct_map_filter split: option.split)

lemma distribute_effect:
  assumes "set_orders_ok orders" "subscribers_wf subscribers" "subscriptions_wf before"
  obtains after where "distribute orders now age subscribers before = (after, Inr ())" "subscriptions_wf after"
    "distributed_to orders (subscriber_list now None (Some age) subscribers)
       (allocation (subscription_list before)) (allocation (subscription_list after))"
proof -
  obtain changes after where "distribution_changes orders (subscription_list before)
      (subscriber_list now None (Some age) subscribers) = Inr changes"
    "subscription_apply changes before = (after, Inr ())" "subscriptions_wf after"
    "distributed_to orders (subscriber_list now None (Some age) subscribers)
       (allocation (subscription_list before)) (allocation (subscription_list after))"
    by (rule memory_subscriptions.distributed [OF assms(1,3) live_wf [OF assms(2)]])
  then show thesis using that by (simp add: distribute_def)
qed

text \<open>
  C24. A distribution never fails, and allocates every source exactly once. In each group of live
  subscribers the target is one of the longest requests; the subscribers that ask for exactly it,
  and no others, hold subscriptions afterwards; together they hold the target's sources; each
  keeps the sources of the target it held before, and what is newly shared out differs by at most
  one source between them. If no source was held twice within a group before, none is after.
\<close>

theorem distribute_allocates:
  assumes "set_orders_ok orders" "subscribers_wf subscribers" "subscriptions_wf before"
  shows "\<exists>after. distribute orders now age subscribers before = (after, Inr ()) \<and> subscriptions_wf after
    \<and> (let live = subscriber_list now None (Some age) subscribers;
           A = allocation (subscription_list before); A' = allocation (subscription_list after)
       in dom A' = ss_subscription_key ` {s \<in> set live. ss_requests s = target_of orders live (ss_group s)}
        \<and> (\<forall>s \<in> set live.
             let T = target_of orders live (ss_group s); K = {k \<in> dom A'. xk_group k = ss_group s}
             in T \<in> ss_requests ` {t \<in> set live. ss_group t = ss_group s}
              \<and> length (ss_requests s) \<le> length T
              \<and> (\<Union>k \<in> K. held A' k) = set T
              \<and> (\<forall>k \<in> K. held A k \<inter> set T \<subseteq> held A' k)
              \<and> (\<forall>k \<in> K. \<forall>k' \<in> K. card (held A' k - held A k) \<le> card (held A' k' - held A k') + 1))
        \<and> (exclusive A \<longrightarrow> exclusive A'))"
proof -
  let ?live = "subscriber_list now None (Some age) subscribers"
  obtain after where after: "distribute orders now age subscribers before = (after, Inr ())"
    "subscriptions_wf after"
    "distributed_to orders ?live (allocation (subscription_list before)) (allocation (subscription_list after))"
    by (rule distribute_effect [OF assms])
  note D = distributed_subscribers [OF after(3)] distributed_exclusive [OF after(3)]
    and G = distributed_holdings(1-3) [OF after(3) imageI]
  show ?thesis
    unfolding Let_def
    by (intro exI [of _ after] conjI ballI after(1,2) impI D target_of_live [OF assms(1)] G(1)
        G(2) [THEN bspec] G(3) [THEN bspec, THEN bspec])
qed

text \<open>Iterating over a set in the order of first insertion is one possible order.\<close>

definition insertion_orders :: set_orders where
  "insertion_orders = \<lparr>so_requests = remdups, so_subscribers = remdups, so_sources = remdups\<rparr>"

lemma insertion_orders_ok [simp]: "set_orders_ok insertion_orders"
  by (simp add: insertion_orders_def set_orders_ok_def iterates_set_def)

theorem distribute_allocates_witness:
  "\<exists>after. distribute insertion_orders 10 60 sample_subscribers \<lparr>sxs_node_id = ''n'', sxs_subscriptions = []\<rparr>
       = (after, Inr ())
     \<and> dom (allocation (subscription_list after))
       = {EventSubscriptionKey ''g'' ''a'', EventSubscriptionKey ''g'' ''b''}
     \<and> exclusive (allocation (subscription_list after))"
proof -
  let ?before = "\<lparr>sxs_node_id = ''n'', sxs_subscriptions = []\<rparr>"
  let ?live = "subscriber_list 10 None (Some 60) sample_subscribers"
  have wf: "subscribers_wf sample_subscribers" by code_simp
  have before: "subscriptions_wf ?before" "exclusive (allocation (subscription_list ?before))"
    by (simp_all add: subscriptions_wf_def exclusive_def subscription_list_def dict_values_def allocation_def held_def)
  have "ss_subscription_key ` set (filter (\<lambda>s. ss_requests s
      = target_of insertion_orders ?live (ss_group s)) ?live)
      = {EventSubscriptionKey ''g'' ''a'', EventSubscriptionKey ''g'' ''b''}"
    by code_simp
  then show ?thesis
    using distribute_allocates [OF insertion_orders_ok wf before(1), of 10 60] before(2)
    unfolding Let_def set_filter by metis
qed

text \<open>What a distribution depends on: who is live and what each asks for.\<close>

definition subscribes :: "subscriber_state \<Rightarrow> event_subscriber_key \<times> event_source_identifier list" where
  "subscribes s = (ss_key s, ss_requests s)"

lemma requests_cong:
  "map subscribes live = map subscribes live'
    \<Longrightarrow> map ss_requests (filter (\<lambda>s. ss_group s = g) live) = map ss_requests (filter (\<lambda>s. ss_group s = g) live')"
proof (induction live arbitrary: live')
  case (Cons s live)
  then show ?case by (cases live') (auto simp: subscribes_def ss_key_def)
qed simp

lemma target_of_cong:
  "map subscribes live = map subscribes live' \<Longrightarrow> target_of orders live g = target_of orders live' g"
  using requests_cong [of live live' g] by (simp add: target_of_def group_target_def)

lemma subscribed_keys_cong:
  assumes "map subscribes live = map subscribes live'"
  shows "ss_subscription_key ` {s \<in> set live. ss_requests s = target_of orders live (ss_group s)}
    = ss_subscription_key ` {s \<in> set live'. ss_requests s = target_of orders live' (ss_group s)}"
proof -
  have "ss_subscription_key ` {s \<in> set l. ss_requests s = target_of orders live (ss_group s)}
      = (\<lambda>(k, r). EventSubscriptionKey (sk_group k) (sk_id k)) `
          {(k, r) \<in> set (map subscribes l). r = target_of orders live (sk_group k)}" for l
    by (force simp: subscribes_def ss_key_def ss_subscription_key_def)
  from this [of live] this [of live'] show ?thesis
    unfolding assms target_of_cong [OF assms] by simp
qed

text \<open>
  Another process iterates over its sets in another order, which matters where two requests of a
  group are longest.
\<close>

definition single_longest :: "subscriber_state list \<Rightarrow> bool" where
  "single_longest live \<longleftrightarrow>
     (\<forall>s \<in> set live. \<forall>t \<in> set live. ss_group s = ss_group t
        \<and> (\<forall>u \<in> set live. ss_group u = ss_group s \<longrightarrow>
             length (ss_requests u) \<le> length (ss_requests s) \<and> length (ss_requests u) \<le> length (ss_requests t))
        \<longrightarrow> ss_requests s = ss_requests t)"

lemma target_of_single:
  assumes "set_orders_ok orders" "set_orders_ok orders'" "single_longest live" "u \<in> set live"
  shows "target_of orders' live (ss_group u) = target_of orders live (ss_group u)"
proof -
  obtain s t where s: "s \<in> set live" "ss_group s = ss_group u" "ss_requests s = target_of orders live (ss_group u)"
    and t: "t \<in> set live" "ss_group t = ss_group u" "ss_requests t = target_of orders' live (ss_group u)"
    using target_of_live(1) [OF assms(1,4)] target_of_live(1) [OF assms(2,4)] by auto
  have "length (ss_requests v) \<le> length (ss_requests s) \<and> length (ss_requests v) \<le> length (ss_requests t)"
    if "v \<in> set live" "ss_group v = ss_group s" for v
    using target_of_live(2) [OF assms(1) that(1)] target_of_live(2) [OF assms(2) that(1)] that(2) s t by simp
  then show ?thesis using assms(3) s t by (metis single_longest_def)
qed

text \<open>
  C25. Distributions are stable: as long as the same subscribers are live and ask for the same
  sources, distributing again succeeds and moves nothing, whatever was allocated before the first
  time. The second time may be in another process, where sets are iterated over in another order,
  if no two requests of a group are longest.
\<close>

theorem distribute_stable:
  assumes "set_orders_ok orders" "subscribers_wf subscribers" "subscribers_wf subscribers'"
    and "subscriptions_wf before"
    and "distribute orders now age subscribers before = (middle, Inr ())"
    and "map subscribes (subscriber_list now' None (Some age) subscribers')
      = map subscribes (subscriber_list now None (Some age) subscribers)"
    and "set_orders_ok orders'"
    and "so_requests orders' = so_requests orders
      \<or> single_longest (subscriber_list now None (Some age) subscribers)"
  shows "\<exists>after. distribute orders' now' age subscribers' middle = (after, Inr ())
    \<and> dom (allocation (subscription_list after)) = dom (allocation (subscription_list middle))
    \<and> held (allocation (subscription_list after)) = held (allocation (subscription_list middle))"
proof -
  let ?live = "subscriber_list now None (Some age) subscribers"
  let ?live' = "subscriber_list now' None (Some age) subscribers'"
  let ?A = "allocation (subscription_list middle)"
  have mid: "subscriptions_wf middle" "distributed_to orders ?live (allocation (subscription_list before)) ?A"
    using distribute_effect [OF assms(1,2,4), of now age] assms(5) by auto
  obtain after where after: "distribute orders' now' age subscribers' middle = (after, Inr ())"
    "distributed_to orders' ?live' ?A (allocation (subscription_list after))"
    by (rule distribute_effect [OF assms(7,3) mid(1), of now' age])
  let ?A' = "allocation (subscription_list after)"
  have target: "target_of orders' ?live (ss_group s) = target_of orders ?live (ss_group s)" if "s \<in> set ?live" for s
    using assms(8) target_of_single [OF assms(1,7) _ that] by (auto simp: target_of_def group_target_def)
  have dom: "dom ?A' = dom ?A"
    unfolding distributed_subscribers [OF after(2)] distributed_subscribers [OF mid(2)] subscribed_keys_cong [OF assms(6)]
    using target by (intro arg_cong [of _ _ "image ss_subscription_key"]) auto
  have "held ?A' k = held ?A k" for k
  proof (cases "k \<in> dom ?A")
    case True
    let ?g = "xk_group k"
    have g': "?g \<in> ss_group ` set ?live'" and g: "?g \<in> ss_group ` set ?live"
      using distributed_in_group [OF after(2), of k] distributed_in_group [OF mid(2), of k] True dom
      by blast+
    have T: "(\<Union>k \<in> {k \<in> dom ?A. xk_group k = ?g}. held ?A k) = set (target_of orders' ?live' ?g)"
      using distributed_holdings(1) [OF mid(2) g] target_of_cong [OF assms(6), of orders'] target g by auto
    obtain share where "\<forall>k \<in> {k \<in> dom ?A. xk_group k = ?g}. held ?A' k
        = held ?A k \<inter> set (target_of orders' ?live' ?g) \<union> share k"
      "(\<Union>k \<in> {k \<in> dom ?A. xk_group k = ?g}. share k) = {}"
      by (rule distributed_shares [OF after(2) g', unfolded dom T]) auto
    moreover have "held ?A k \<subseteq> set (target_of orders' ?live' ?g)" using T True by blast
    ultimately show ?thesis using True by auto
  next
    case False
    then show ?thesis using dom by (auto simp: held_def domIff split: option.split)
  qed
  then show ?thesis using after(1) dom by blast
qed

theorem distribute_stable_witness:
  "\<exists>middle after. distribute insertion_orders 10 60 sample_subscribers
         \<lparr>sxs_node_id = ''n'', sxs_subscriptions = []\<rparr> = (middle, Inr ())
     \<and> distribute (insertion_orders\<lparr>so_sources := rev \<circ> remdups\<rparr>) 10 60 sample_subscribers middle = (after, Inr ())
     \<and> held (allocation (subscription_list after)) = held (allocation (subscription_list middle))
     \<and> held (allocation (subscription_list middle)) (EventSubscriptionKey ''g'' ''a'') = {CategoryIdentifier ''c''}"
proof -
  let ?before = "\<lparr>sxs_node_id = ''n'', sxs_subscriptions = []\<rparr>"
  let ?middle = "fst (distribute insertion_orders 10 60 sample_subscribers ?before)"
  have wf: "subscribers_wf sample_subscribers" by code_simp
  have before: "subscriptions_wf ?before" by (simp add: subscriptions_wf_def)
  obtain m where "distribute insertion_orders 10 60 sample_subscribers ?before = (m, Inr ())"
    by (rule distribute_effect [OF insertion_orders_ok wf before])
  then have middle: "distribute insertion_orders 10 60 sample_subscribers ?before = (?middle, Inr ())"
    by (metis fst_conv)
  have "map_option xs_sources (find (\<lambda>x. xs_key x = EventSubscriptionKey ''g'' ''a'') (subscription_list ?middle))
      = Some [CategoryIdentifier ''c'']" by code_simp
  then have "held (allocation (subscription_list ?middle)) (EventSubscriptionKey ''g'' ''a'')
      = {CategoryIdentifier ''c''}" by (auto simp: held_def allocation_def)
  then show ?thesis
    using distribute_stable [OF insertion_orders_ok wf wf before middle refl, of "insertion_orders\<lparr>so_sources := rev \<circ> remdups\<rparr>"]
      middle by (simp add: insertion_orders_def set_orders_ok_def iterates_set_def) blast
qed

end
