(* ===== verification/Broker_Observer.thy ===== *)
theory Broker_Observer
  imports Broker_Coordinator Event_Store
begin

section \<open>Subscribers, the subscription observer and the subscriber manager\<close>

text \<open>
  Models \<open>processing/consumers/subscription.py\<close> (the subscriber that consumes the sources it
  accepted), \<open>strategies/distributed/difference.py\<close> and \<open>observer.py\<close> (which bring the local
  subscribers' sources in line with the subscription states), the rounds of
  \<open>strategies/distributed/subscribers/manager.py\<close>, and the distribution round of
  \<open>strategies/singleton/broker.py\<close>, all under \<open>processing/broker/\<close> but the first.

  Subscriber objects are entries of the instance store, so that changing one changes the entry of
  its key. A delegate is whatever the delegate factory makes of a source. Each service loop sleeps
  between rounds; what is modelled here is a round, at a given time, and the theory
  \<open>Broker_Lifecycle\<close> has the loops.
\<close>

subsection \<open>consumers/subscription.py\<close>

record 'd subscription_consumer = event_subscriber +
  sc_delegates :: "(event_source_identifier, 'd) dict"

definition subscriber_health :: "'d subscription_consumer \<Rightarrow> event_subscriber_health" where
  "subscriber_health s = HEALTHY"

definition make_subscriber ::
  "string \<Rightarrow> string option \<Rightarrow> string \<Rightarrow> event_source_identifier \<Rightarrow> 'd subscription_consumer" where
  \<comment> \<open>\<open>uuid\<close> is the identifier \<open>uuid4\<close> draws\<close>
  "make_subscriber subscriber_group subscriber_id uuid subscription_request =
     \<lparr>sb_group = subscriber_group, sb_id = (case subscriber_id of Some i \<Rightarrow> i | None \<Rightarrow> uuid),
      sb_requests = [subscription_request], sc_delegates = []\<rparr>"

definition accept_source ::
  "(store_source \<Rightarrow> 'd) \<Rightarrow> store_source \<Rightarrow> 'd subscription_consumer \<Rightarrow> 'd subscription_consumer" where
  "accept_source delegate_factory source s =
     (if source_identifier source \<in> set (dict_keys (sc_delegates s)) then s
      else s\<lparr>sc_delegates :=
        AList.update (source_identifier source) (delegate_factory source) (sc_delegates s)\<rparr>)"

definition withdraw_source ::
  "store_source \<Rightarrow> 'd subscription_consumer \<Rightarrow> 'd subscription_consumer" where
  "withdraw_source source s =
     (if source_identifier source \<in> set (dict_keys (sc_delegates s))
      then s\<lparr>sc_delegates := AList.delete (source_identifier source) (sc_delegates s)\<rparr>
      else s)"

text \<open>\<open>consume_all\<close>: each delegate consumes, in the order accepted; the first exception ends it.\<close>

fun consume_delegates ::
  "('d \<Rightarrow> 'w \<Rightarrow> 'w \<times> unit res) \<Rightarrow> (event_source_identifier, 'd) dict \<Rightarrow> 'w \<Rightarrow> 'w \<times> unit res" where
  "consume_delegates consume [] w = (w, Inr ())"
| "consume_delegates consume ((_, delegate) # delegates) w =
     (case consume delegate w of
        (w', Inl err) \<Rightarrow> (w', Inl err)
      | (w', Inr _) \<Rightarrow> consume_delegates consume delegates w')"

definition subscription_consume_all ::
  "('d \<Rightarrow> 'w \<Rightarrow> 'w \<times> unit res) \<Rightarrow> 'd subscription_consumer \<Rightarrow> 'w \<Rightarrow> 'w \<times> unit res" where
  "subscription_consume_all consume s w = consume_delegates consume (sc_delegates s) w"

subsection \<open>difference.py\<close>

record subscription_delta =
  sd_group :: string
  sd_id :: string
  sd_source :: event_source_identifier

definition sd_key :: "subscription_delta \<Rightarrow> event_subscription_key" where
  "sd_key c = EventSubscriptionKey (sd_group c) (sd_id c)"

definition sd_subscriber_key :: "subscription_delta \<Rightarrow> event_subscriber_key" where
  "sd_subscriber_key c = EventSubscriberKey (sd_group c) (sd_id c)"

definition deltas :: "subscription_state \<Rightarrow> event_source_identifier list \<Rightarrow> subscription_delta list" where
  "deltas x sources = map (\<lambda>src. \<lparr>sd_group = xs_group x, sd_id = xs_id x, sd_source = src\<rparr>) sources"

text \<open>
  The elements added to the sets \<open>allocations\<close> and \<open>revocations\<close>. The order in which the code
  adds them cannot be seen: it iterates over sets, and the results are sets.
\<close>

definition subscription_diff ::
  "subscription_state list \<Rightarrow> subscription_state list
    \<Rightarrow> subscription_delta list \<times> subscription_delta list" where
  "subscription_diff existing updated =
     (let existing_map = dict_by xs_key existing;
          updated_map = dict_by xs_key updated;
          new_subscriptions = filter (\<lambda>x. xs_key x \<notin> set (dict_keys existing_map)) updated;
          old_subscriptions = filter (\<lambda>x. xs_key x \<notin> set (dict_keys updated_map)) existing;
          updated_subscriptions = filter (\<lambda>x. xs_key x \<in> set (dict_keys existing_map)) updated;
          existing_sources = (\<lambda>x. case map_of existing_map (xs_key x) of
            None \<Rightarrow> [] | Some e \<Rightarrow> xs_sources e)
      in (concat (map (\<lambda>x. deltas x (xs_sources x)) new_subscriptions)
            @ concat (map (\<lambda>x. deltas x
                (filter (\<lambda>src. src \<notin> set (existing_sources x)) (xs_sources x))) updated_subscriptions),
          concat (map (\<lambda>x. deltas x (xs_sources x)) old_subscriptions)
            @ concat (map (\<lambda>x. deltas x
                (filter (\<lambda>src. src \<notin> set (xs_sources x)) (existing_sources x))) updated_subscriptions)))"

subsection \<open>observer.py\<close>

type_synonym 'd consumers = "(event_subscriber_key, 'd subscription_consumer) dict"

record 'd observer =
  ob_subscribers :: "'d consumers"
  ob_existing :: "subscription_state list"

text \<open>The loops over revocations and allocations: \<open>change\<close> withdraws or accepts.\<close>

fun change_sources ::
  "source_constructors \<Rightarrow> (store_source \<Rightarrow> 'd subscription_consumer \<Rightarrow> 'd subscription_consumer)
    \<Rightarrow> subscription_delta list \<Rightarrow> 'd consumers \<Rightarrow> 'd consumers \<times> unit res" where
  "change_sources constructors change [] subscribers = (subscribers, Inr ())"
| "change_sources constructors change (c # cs) subscribers =
     (case map_of subscribers (sd_subscriber_key c) of
        None \<Rightarrow> change_sources constructors change cs subscribers
      | Some s \<Rightarrow>
          (case construct_source constructors (sd_source c) of
             Inl err \<Rightarrow> (subscribers, Inl err)
           | Inr source \<Rightarrow>
               change_sources constructors change cs
                 (AList.update (sd_subscriber_key c) (change source s) subscribers)))"

definition synchronise ::
  "source_constructors \<Rightarrow> (store_source \<Rightarrow> 'd) \<Rightarrow> (subscription_delta list \<Rightarrow> subscription_delta list)
    \<Rightarrow> subscription_store \<Rightarrow> 'd observer \<Rightarrow> 'd observer \<times> unit res" where
  "synchronise constructors delegate_factory order subscription_states ob =
     (let updated = subscription_list subscription_states;
          (allocations, revocations) = subscription_diff (ob_existing ob) updated
      in case change_sources constructors withdraw_source (order revocations) (ob_subscribers ob) of
           (subscribers, Inl err) \<Rightarrow> (ob\<lparr>ob_subscribers := subscribers\<rparr>, Inl err)
         | (subscribers, Inr _) \<Rightarrow>
             (case change_sources constructors (accept_source delegate_factory) (order allocations)
                     subscribers of
                (subscribers', Inl err) \<Rightarrow> (ob\<lparr>ob_subscribers := subscribers'\<rparr>, Inl err)
              | (subscribers', Inr _) \<Rightarrow>
                  (ob\<lparr>ob_subscribers := subscribers', ob_existing := updated\<rparr>, Inr ())))"

subsection \<open>subscribers/manager.py\<close>

definition manager_register :: "datetime \<Rightarrow> 'd consumers \<Rightarrow> subscriber_store \<Rightarrow> subscriber_store" where
  "manager_register now subscribers states =
     fold (subscriber_add now) (instances_list subscribers) states"

definition manager_unregister :: "'d consumers \<Rightarrow> subscriber_store \<Rightarrow> subscriber_store" where
  "manager_unregister subscribers states = fold subscriber_remove (instances_list subscribers) states"

definition heartbeat_round ::
  "('d subscription_consumer \<Rightarrow> event_subscriber_health) \<Rightarrow> datetime \<Rightarrow> 'd consumers
    \<Rightarrow> subscriber_store \<Rightarrow> subscriber_store" where
  "heartbeat_round health now subscribers states =
     fold (\<lambda>s states. if health s = HEALTHY then subscriber_heartbeat now s states else states)
       (instances_list subscribers) states"

subsection \<open>strategies/singleton/broker.py\<close>

fun accept_requests ::
  "source_constructors \<Rightarrow> (store_source \<Rightarrow> 'd) \<Rightarrow> event_source_identifier list
    \<Rightarrow> 'd subscription_consumer \<Rightarrow> 'd subscription_consumer \<times> unit res" where
  "accept_requests constructors delegate_factory [] s = (s, Inr ())"
| "accept_requests constructors delegate_factory (request # requests) s =
     (case construct_source constructors request of
        Inl err \<Rightarrow> (s, Inl err)
      | Inr source \<Rightarrow>
          accept_requests constructors delegate_factory requests (accept_source delegate_factory source s))"

fun singleton_round ::
  "source_constructors \<Rightarrow> (store_source \<Rightarrow> 'd) \<Rightarrow> 'd consumers \<Rightarrow> 'd consumers \<times> unit res" where
  "singleton_round constructors delegate_factory [] = ([], Inr ())"
| "singleton_round constructors delegate_factory ((key, s) # subscribers) =
     (case accept_requests constructors delegate_factory (sb_requests s) s of
        (s', Inl err) \<Rightarrow> ((key, s') # subscribers, Inl err)
      | (s', Inr _) \<Rightarrow>
          (let (subscribers', r) = singleton_round constructors delegate_factory subscribers
           in ((key, s') # subscribers', r)))"

subsection \<open>What a difference contains\<close>

lemma set_deltas:
  "c \<in> set (deltas x srcs) \<longleftrightarrow> sd_key c = xs_key x \<and> sd_source c \<in> set srcs"
  by (cases c) (auto simp: deltas_def sd_key_def xs_key_def)

lemma held_absent: "key \<notin> xs_key ` set X \<Longrightarrow> held (allocation X) key = {}"
proof -
  assume "key \<notin> xs_key ` set X"
  then have "find (\<lambda>x. xs_key x = key) X = None" by (auto simp: find_None_iff)
  then show ?thesis by (simp add: held_def allocation_def)
qed

lemma held_present: "distinct (map xs_key X) \<Longrightarrow> x \<in> set X \<Longrightarrow> held (allocation X) (xs_key x) = set (xs_sources x)"
  using dict_by_distinct [of xs_key X x] by (simp add: held_map)

lemma in_held:
  "distinct (map xs_key X) \<Longrightarrow> src \<in> held (allocation X) key
    \<longleftrightarrow> (\<exists>x \<in> set X. xs_key x = key \<and> src \<in> set (xs_sources x))"
  by (auto simp: held_subscription)

lemma subscription_diff_exact:
  assumes E: "distinct (map xs_key existing)" and U: "distinct (map xs_key updated)"
    and diff: "subscription_diff existing updated = (allocations, revocations)"
  shows "set allocations = {c. sd_source c \<in> held (allocation updated) (sd_key c)
      \<and> sd_source c \<notin> held (allocation existing) (sd_key c)}"
    and "set revocations = {c. sd_source c \<in> held (allocation existing) (sd_key c)
      \<and> sd_source c \<notin> held (allocation updated) (sd_key c)}"
proof -
  define old where "old x = (case map_of (dict_by xs_key existing) (xs_key x) of None \<Rightarrow> [] | Some e \<Rightarrow> xs_sources e)" for x
  have old: "set (old x) = held (allocation existing) (xs_key x)" for x
    by (simp add: old_def held_map [OF E] split: option.split)
  have A: "allocations = concat (map (\<lambda>x. deltas x (xs_sources x)) (filter (\<lambda>x. xs_key x \<notin> xs_key ` set existing) updated))
      @ concat (map (\<lambda>x. deltas x (filter (\<lambda>src. src \<notin> set (old x)) (xs_sources x)))
          (filter (\<lambda>x. xs_key x \<in> xs_key ` set existing) updated))"
    and R: "revocations = concat (map (\<lambda>x. deltas x (xs_sources x)) (filter (\<lambda>x. xs_key x \<notin> xs_key ` set updated) existing))
      @ concat (map (\<lambda>x. deltas x (filter (\<lambda>src. src \<notin> set (xs_sources x)) (old x)))
          (filter (\<lambda>x. xs_key x \<in> xs_key ` set existing) updated))"
    using diff by (simp_all add: subscription_diff_def Let_def old_def)
  have new: "c \<in> set allocations \<longleftrightarrow> (\<exists>x \<in> set updated. sd_key c = xs_key x \<and> sd_source c \<in> set (xs_sources x)
      \<and> sd_source c \<notin> held (allocation existing) (xs_key x))" for c
    unfolding A by (auto simp: set_deltas old held_absent)
  show "set allocations = {c. sd_source c \<in> held (allocation updated) (sd_key c)
      \<and> sd_source c \<notin> held (allocation existing) (sd_key c)}"
    unfolding set_eq_iff mem_Collect_eq new in_held [OF U] by metis
  have gone: "c \<in> set revocations \<longleftrightarrow> (\<exists>x \<in> set existing. sd_key c = xs_key x \<and> sd_source c \<in> set (xs_sources x)
      \<and> xs_key x \<notin> xs_key ` set updated)
    \<or> (\<exists>x \<in> set updated. sd_key c = xs_key x \<and> sd_source c \<notin> set (xs_sources x)
      \<and> sd_source c \<in> held (allocation existing) (xs_key x))" for c
    unfolding R using held_absent [of "xs_key _" existing] by (fastforce simp: set_deltas old)
  show "set revocations = {c. sd_source c \<in> held (allocation existing) (sd_key c)
      \<and> sd_source c \<notin> held (allocation updated) (sd_key c)}"
  proof (intro set_eqI)
    fix c
    show "c \<in> set revocations \<longleftrightarrow> c \<in> {c. sd_source c \<in> held (allocation existing) (sd_key c)
      \<and> sd_source c \<notin> held (allocation updated) (sd_key c)}"
    proof (cases "sd_key c \<in> xs_key ` set updated")
      case True
      then obtain x where x: "x \<in> set updated" "sd_key c = xs_key x" by blast
      then show ?thesis
        using held_present [OF U x(1)] held_present [OF U] unfolding gone mem_Collect_eq x(2)
        by (metis imageI)
    next
      case False
      then show ?thesis
        using held_absent [OF False] unfolding gone by (auto simp: in_held [OF E] image_iff) metis
    qed
  qed
qed

subsection \<open>Withdrawing and accepting\<close>

definition consumed :: "'d consumers \<Rightarrow> event_subscriber_key \<Rightarrow> event_source_identifier set" where
  "consumed subscribers key =
     (case map_of subscribers key of None \<Rightarrow> {} | Some s \<Rightarrow> set (dict_keys (sc_delegates s)))"

definition constructs :: "source_constructors \<Rightarrow> event_source_identifier \<Rightarrow> bool" where
  "constructs constructors src \<longleftrightarrow>
     (\<exists>source. construct_source constructors src = Inr source \<and> source_identifier source = src)"

lemma store_constructs:
  "constructs event_store_source_factory src \<longleftrightarrow>
     (case src of LogPartitionIdentifier _ \<Rightarrow> False | CategoryPartitionIdentifier _ _ \<Rightarrow> False | _ \<Rightarrow> True)"
  by (cases src)
    (simp_all add: constructs_def construct_source_def event_store_source_factory_def register_constructor_def
      construct_event_log_def construct_event_category_def construct_event_stream_def)

lemma keys_delete [simp]: "set (dict_keys (AList.delete k d)) = set (dict_keys d) - {k}"
  by (auto simp: dict_keys_def delete_keys)

lemma keys_update [simp]: "set (dict_keys (AList.update k v d)) = insert k (set (dict_keys d))"
  by (auto simp: dict_keys_update)

lemma withdraw_delegates:
  "set (dict_keys (sc_delegates (withdraw_source source s)))
    = set (dict_keys (sc_delegates s)) - {source_identifier source}"
  by (auto simp: withdraw_source_def)

lemma accept_delegates:
  "set (dict_keys (sc_delegates (accept_source fac source s)))
    = insert (source_identifier source) (set (dict_keys (sc_delegates s)))"
  by (auto simp: accept_source_def)

text \<open>The sources that a list of changes names for a subscriber\<close>

definition named :: "subscription_delta list \<Rightarrow> event_subscriber_key \<Rightarrow> event_source_identifier set" where
  "named cs key = sd_source ` {c \<in> set cs. sd_subscriber_key c = key}"

definition changed_consumers ::
  "(event_source_identifier set \<Rightarrow> event_source_identifier \<Rightarrow> event_source_identifier set)
    \<Rightarrow> subscription_delta list \<Rightarrow> 'd consumers \<Rightarrow> 'd consumers \<Rightarrow> bool" where
  "changed_consumers combine cs subscribers subscribers' \<longleftrightarrow>
     dom (map_of subscribers') = dom (map_of subscribers)
     \<and> (\<forall>key \<in> dom (map_of subscribers). consumed subscribers' key
       = fold (\<lambda>c srcs. combine srcs (sd_source c)) (filter (\<lambda>c. sd_subscriber_key c = key) cs)
           (consumed subscribers key))"

lemma change_sources_effect:
  assumes "\<And>source s. set (dict_keys (sc_delegates (change source s)))
      = combine (set (dict_keys (sc_delegates s))) (source_identifier source)"
  shows "\<forall>c \<in> set cs. constructs constructors (sd_source c) \<Longrightarrow>
    \<exists>subscribers'. change_sources constructors change cs subscribers = (subscribers', Inr ())
      \<and> changed_consumers combine cs subscribers subscribers'"
proof (induction cs arbitrary: subscribers)
  case Nil
  then show ?case by (simp add: changed_consumers_def)
next
  case (Cons c cs)
  show ?case
  proof (cases "map_of subscribers (sd_subscriber_key c)")
    case None
    obtain subscribers' where s': "change_sources constructors change cs subscribers = (subscribers', Inr ())"
      "changed_consumers combine cs subscribers subscribers'" using Cons by auto
    have "sd_subscriber_key c \<noteq> key" if "key \<in> dom (map_of subscribers)" for key using that None by auto
    then show ?thesis using s' None by (simp add: changed_consumers_def)
  next
    case (Some s)
    obtain source where source: "construct_source constructors (sd_source c) = Inr source"
      "source_identifier source = sd_source c" using Cons.prems by (auto simp: constructs_def)
    let ?subs = "AList.update (sd_subscriber_key c) (change source s) subscribers"
    have consumed: "consumed ?subs key = (if sd_subscriber_key c = key
        then combine (consumed subscribers key) (sd_source c) else consumed subscribers key)" for key
      using Some source(2) assms by (auto simp: consumed_def)
    have dom: "dom (map_of ?subs) = dom (map_of subscribers)" using Some by auto
    obtain subscribers' where s': "change_sources constructors change cs ?subs = (subscribers', Inr ())"
      "changed_consumers combine cs ?subs subscribers'" using Cons by auto
    have "changed_consumers combine (c # cs) subscribers subscribers'"
      using s'(2) unfolding changed_consumers_def dom consumed by simp
    then show ?thesis using Some source(1) s'(1) by simp
  qed
qed

lemma fold_withdraw: "fold (\<lambda>c srcs. srcs - {f c}) cs S = S - f ` set cs"
  by (induction cs arbitrary: S) auto

lemma fold_accept: "fold (\<lambda>c srcs. insert (f c) srcs) cs S = S \<union> f ` set cs"
  by (induction cs arbitrary: S) auto

lemma change_named:
  assumes "\<forall>c \<in> set cs. constructs constructors (sd_source c)"
  shows "\<exists>subscribers'. change_sources constructors withdraw_source cs subscribers = (subscribers', Inr ())
      \<and> dom (map_of subscribers') = dom (map_of subscribers)
      \<and> (\<forall>key \<in> dom (map_of subscribers). consumed subscribers' key = consumed subscribers key - named cs key)"
    and "\<exists>subscribers'. change_sources constructors (accept_source fac) cs subscribers = (subscribers', Inr ())
      \<and> dom (map_of subscribers') = dom (map_of subscribers)
      \<and> (\<forall>key \<in> dom (map_of subscribers). consumed subscribers' key = consumed subscribers key \<union> named cs key)"
  using change_sources_effect [of withdraw_source "\<lambda>S x. S - {x}", OF withdraw_delegates assms, of subscribers]
    change_sources_effect [of "accept_source fac" "\<lambda>S x. insert x S", OF accept_delegates assms, of subscribers]
  unfolding changed_consumers_def fold_withdraw fold_accept set_filter named_def by blast+

subsection \<open>Synchronising\<close>

definition subscription_key_of :: "event_subscriber_key \<Rightarrow> event_subscription_key" where
  "subscription_key_of key = EventSubscriptionKey (sk_group key) (sk_id key)"

text \<open>Every local subscriber consumes what the observer last saw allocated to it.\<close>

definition in_sync :: "'d observer \<Rightarrow> bool" where
  "in_sync ob \<longleftrightarrow> distinct (map xs_key (ob_existing ob))
     \<and> (\<forall>key \<in> dom (map_of (ob_subscribers ob)).
          consumed (ob_subscribers ob) key = held (allocation (ob_existing ob)) (subscription_key_of key))"

definition all_construct :: "source_constructors \<Rightarrow> subscription_state list \<Rightarrow> bool" where
  "all_construct constructors subscriptions \<longleftrightarrow>
     (\<forall>x \<in> set subscriptions. \<forall>src \<in> set (xs_sources x). constructs constructors src)"

lemma sd_subscriber_key: "sd_subscriber_key c = key \<longleftrightarrow> sd_key c = subscription_key_of key"
  by (cases key) (auto simp: sd_subscriber_key_def sd_key_def subscription_key_of_def)

lemma named_deltas:
  assumes "set cs = {c. sd_source c \<in> P (sd_key c) \<and> sd_source c \<notin> Q (sd_key c)}"
  shows "named cs key = P (subscription_key_of key) - Q (subscription_key_of key)"
proof -
  have "src \<in> named cs key" if "src \<in> P (subscription_key_of key)" "src \<notin> Q (subscription_key_of key)" for src
  proof -
    let ?c = "\<lparr>sd_group = sk_group key, sd_id = sk_id key, sd_source = src\<rparr>"
    have "sd_key ?c = subscription_key_of key" by (simp add: sd_key_def subscription_key_of_def)
    then have "?c \<in> {c \<in> set cs. sd_subscriber_key c = key}" using that assms by (simp add: sd_subscriber_key)
    then show ?thesis unfolding named_def by (intro image_eqI [of _ _ ?c]) auto
  qed
  moreover have "named cs key \<subseteq> P (subscription_key_of key) - Q (subscription_key_of key)"
    using assms by (auto simp: named_def sd_subscriber_key)
  ultimately show ?thesis by blast
qed

lemma held_constructs:
  "distinct (map xs_key X) \<Longrightarrow> all_construct constructors X \<Longrightarrow> src \<in> held (allocation X) key
    \<Longrightarrow> constructs constructors src"
  by (auto simp: in_held all_construct_def)

lemma synchronise_effect:
  assumes "iterates_set order" "subscriptions_wf states" "in_sync ob"
    and "all_construct constructors (ob_existing ob)" "all_construct constructors (subscription_list states)"
  obtains ob' where "synchronise constructors fac order states ob = (ob', Inr ())" "in_sync ob'"
    "ob_existing ob' = subscription_list states"
    "dom (map_of (ob_subscribers ob')) = dom (map_of (ob_subscribers ob))"
proof -
  let ?E = "allocation (ob_existing ob)" and ?U = "allocation (subscription_list states)"
  have E: "distinct (map xs_key (ob_existing ob))" using assms(3) by (simp add: in_sync_def)
  have U: "distinct (map xs_key (subscription_list states))" by (rule memory_subscriptions.keys_distinct [OF assms(2)])
  obtain allocations revocations where
    diff: "subscription_diff (ob_existing ob) (subscription_list states) = (allocations, revocations)" by fastforce
  note exact = subscription_diff_exact [OF E U diff]
  have "set (order revocations) = {c. sd_source c \<in> held ?E (sd_key c) \<and> sd_source c \<notin> held ?U (sd_key c)}"
    "set (order allocations) = {c. sd_source c \<in> held ?U (sd_key c) \<and> sd_source c \<notin> held ?E (sd_key c)}"
    using exact assms(1) by simp_all
  note named = named_deltas [OF this(1)] named_deltas [OF this(2)]
  have "\<forall>c \<in> set (order revocations). constructs constructors (sd_source c)"
    "\<forall>c \<in> set (order allocations). constructs constructors (sd_source c)"
    using exact assms(1,4,5) held_constructs [OF E] held_constructs [OF U] by auto
  note changes = change_named(1) [OF this(1), of "ob_subscribers ob"] change_named(2) [OF this(2), of fac]
  obtain subs1 where s1: "change_sources constructors withdraw_source (order revocations) (ob_subscribers ob) = (subs1, Inr ())"
    "dom (map_of subs1) = dom (map_of (ob_subscribers ob))"
    "\<forall>key \<in> dom (map_of (ob_subscribers ob)).
       consumed subs1 key = consumed (ob_subscribers ob) key - named (order revocations) key"
    using changes(1) by blast
  obtain subs2 where s2: "change_sources constructors (accept_source fac) (order allocations) subs1 = (subs2, Inr ())"
    "dom (map_of subs2) = dom (map_of subs1)"
    "\<forall>key \<in> dom (map_of subs1). consumed subs2 key = consumed subs1 key \<union> named (order allocations) key"
    using changes(2) [of subs1] by blast
  let ?ob' = "ob\<lparr>ob_subscribers := subs2, ob_existing := subscription_list states\<rparr>"
  have "synchronise constructors fac order states ob = (?ob', Inr ())"
    by (simp add: synchronise_def diff s1(1) s2(1))
  moreover have "in_sync ?ob'"
    using assms(3) s1(2,3) s2(2,3) U by (auto simp: in_sync_def named)
  ultimately show thesis using that s1(2) s2(2) by simp
qed

definition synchronised_nodes ::
  "source_constructors \<Rightarrow> (store_source \<Rightarrow> 'd) \<Rightarrow> (subscription_delta list \<Rightarrow> subscription_delta list)
    \<Rightarrow> subscription_store \<Rightarrow> 'd observer list \<Rightarrow> ('d observer \<times> unit res) list" where
  "synchronised_nodes constructors fac order states nodes = map (synchronise constructors fac order states) nodes"

lemma synchronised_consumes:
  assumes "in_sync ob'" "ob_existing ob' = subscription_list states"
    and "dom (map_of (ob_subscribers ob')) = dom (map_of (ob_subscribers ob))"
  shows "consumed (ob_subscribers ob') key
    = (if key \<in> dom (map_of (ob_subscribers ob))
       then held (allocation (subscription_list states)) (subscription_key_of key) else {})"
proof (cases "key \<in> dom (map_of (ob_subscribers ob))")
  case False
  then have "map_of (ob_subscribers ob') key = None" using assms(3) by blast
  then show ?thesis using False by (simp add: consumed_def)
qed (use assms in \<open>auto simp: in_sync_def\<close>)

lemma nodes_synchronise:
  assumes "iterates_set order" "subscriptions_wf states"
    and "\<forall>ob \<in> set nodes. in_sync ob \<and> all_construct constructors (ob_existing ob)"
    and "all_construct constructors (subscription_list states)"
  obtains nodes' where "synchronised_nodes constructors fac order states nodes = map (\<lambda>ob'. (ob', Inr ())) nodes'"
    "list_all in_sync nodes'" "length nodes' = length nodes"
    "\<forall>i < length nodes. \<forall>key. consumed (ob_subscribers (nodes' ! i)) key
       = (if key \<in> dom (map_of (ob_subscribers (nodes ! i)))
          then held (allocation (subscription_list states)) (subscription_key_of key) else {})"
proof -
  let ?next = "\<lambda>ob. fst (synchronise constructors fac order states ob)"
  have step: "synchronise constructors fac order states ob = (?next ob, Inr ()) \<and> in_sync (?next ob)
      \<and> (\<forall>key. consumed (ob_subscribers (?next ob)) key
        = (if key \<in> dom (map_of (ob_subscribers ob))
           then held (allocation (subscription_list states)) (subscription_key_of key) else {}))"
    if "ob \<in> set nodes" for ob
  proof -
    have ob: "in_sync ob" "all_construct constructors (ob_existing ob)"
      using bspec [OF assms(3) that] by (rule conjunct1, rule conjunct2)
    obtain ob' where "synchronise constructors fac order states ob = (ob', Inr ())" "in_sync ob'"
      "ob_existing ob' = subscription_list states"
      "dom (map_of (ob_subscribers ob')) = dom (map_of (ob_subscribers ob))"
      by (rule synchronise_effect [OF assms(1,2) ob assms(4)])
    then show ?thesis using synchronised_consumes [of ob' states ob] by simp
  qed
  show thesis
    by (rule that [of "map ?next nodes"])
      (use step in \<open>auto simp: synchronised_nodes_def list_all_iff\<close>)
qed

text \<open>
  C26. Each source has one consumer. Distribute to the live subscribers, then let every node's
  observer synchronise, from nodes that were in step with what they last saw and an allocation in
  which no source was held twice. If every live subscriber belongs to exactly one of the nodes and
  all the sources can be constructed, nothing fails, each node is in step again, and each source
  of a group's target is consumed by exactly one subscriber of that group, at exactly one node.
\<close>

theorem each_source_one_consumer:
  fixes nodes :: "'d observer list"
  assumes "set_orders_ok orders" "iterates_set order" "subscribers_wf subscribers" "subscriptions_wf before"
    and "exclusive (allocation (subscription_list before))"
    and "distribute orders now age subscribers before = (after, Inr ())"
    and "live = subscriber_list now None (Some age) subscribers"
    and "\<forall>ob \<in> set nodes. in_sync ob \<and> all_construct constructors (ob_existing ob)"
    and "all_construct constructors (subscription_list after)"
    and "\<forall>s \<in> set live. \<exists>!i. i < length nodes \<and> ss_key s \<in> dom (map_of (ob_subscribers (nodes ! i)))"
  shows "\<exists>nodes'. synchronised_nodes constructors fac order after nodes = map (\<lambda>ob'. (ob', Inr ())) nodes'
    \<and> list_all in_sync nodes'
    \<and> (\<forall>s \<in> set live. \<forall>src \<in> set (target_of orders live (ss_group s)).
         \<exists>!(i, key). i < length nodes \<and> sk_group key = ss_group s
           \<and> src \<in> consumed (ob_subscribers (nodes' ! i)) key)"
proof -
  let ?A' = "allocation (subscription_list after)"
  have after: "subscriptions_wf after" "distributed_to orders live (allocation (subscription_list before)) ?A'"
    using distribute_effect [OF assms(1,3,4), of now age] assms(6,7) by auto
  obtain nodes' where nodes': "synchronised_nodes constructors fac order after nodes = map (\<lambda>ob'. (ob', Inr ())) nodes'"
    "list_all in_sync nodes'" "length nodes' = length nodes"
    "\<forall>i < length nodes. \<forall>key. consumed (ob_subscribers (nodes' ! i)) key
       = (if key \<in> dom (map_of (ob_subscribers (nodes ! i))) then held ?A' (subscription_key_of key) else {})"
    by (rule nodes_synchronise [OF assms(2) after(1) assms(8,9), of fac])
  have "\<exists>!(i, key). i < length nodes \<and> sk_group key = ss_group s \<and> src \<in> consumed (ob_subscribers (nodes' ! i)) key"
    if s: "s \<in> set live" "src \<in> set (target_of orders live (ss_group s))" for s src
  proof -
    obtain k where k: "k \<in> dom ?A'" "xk_group k = ss_group s" "src \<in> held ?A' k"
      using distributed_holdings(1) [OF after(2) imageI [OF s(1)]] s(2) by blast
    obtain t where t: "t \<in> set live" "k = ss_subscription_key t"
      using distributed_others [OF after(2), of k] k(1) by blast
    have tk: "subscription_key_of (ss_key t) = k" "sk_group (ss_key t) = ss_group s"
      using t(2) k(2) by (simp_all add: subscription_key_of_def ss_key_def ss_subscription_key_def)
    obtain i where i: "i < length nodes" "ss_key t \<in> dom (map_of (ob_subscribers (nodes ! i)))"
      "\<forall>j < length nodes. ss_key t \<in> dom (map_of (ob_subscribers (nodes ! j))) \<longrightarrow> j = i"
      using assms(10) t(1) by metis
    have "consumed (ob_subscribers (nodes' ! i)) (ss_key t) = held ?A' k"
      using nodes'(4) [THEN spec, THEN mp, OF i(1), THEN spec, of "ss_key t"] i(2) tk(1) by simp
    then have found: "src \<in> consumed (ob_subscribers (nodes' ! i)) (ss_key t)" using k(3) by simp
    show ?thesis
    proof (rule ex1I [of _ "(i, ss_key t)"], goal_cases)
      case 1
      show ?case unfolding prod.case by (intro conjI i(1) tk(2) found)
    next
      case (2 p)
      obtain j key where p: "p = (j, key)" by fastforce
      then have j: "j < length nodes" "sk_group key = ss_group s" "key \<in> dom (map_of (ob_subscribers (nodes ! j)))"
        "src \<in> held ?A' (subscription_key_of key)" using 2 nodes'(4) by (auto split: if_splits)
      have "subscription_key_of key = k"
        using distributed_exclusive [OF after(2) assms(5)] j(2,4) k(2,3)
        unfolding exclusive_def by (metis disjoint_iff event_subscription_key.sel(1) subscription_key_of_def)
      then have "key = ss_key t" using tk(1) by (cases key; cases "ss_key t") (auto simp: subscription_key_of_def)
      then show ?case using j i(3) p by simp
    qed
  qed
  then show ?thesis using nodes'(1,2) by blast
qed

definition sample_node :: "string list \<Rightarrow> store_source observer" where
  "sample_node ids =
     \<lparr>ob_subscribers = map (\<lambda>i. (EventSubscriberKey ''g'' i,
        \<lparr>sb_group = ''g'', sb_id = i, sb_requests = sb_requests (sample_subscriber i), sc_delegates = []\<rparr>)) ids,
      ob_existing = []\<rparr>"

lemma sample_node_in_sync: "in_sync (sample_node ids)"
proof -
  have "consumed (ob_subscribers (sample_node ids)) key = {}" for key
    by (auto simp: consumed_def sample_node_def dict_keys_def dest!: map_of_SomeD split: option.split)
  then show ?thesis by (simp add: in_sync_def) (simp add: sample_node_def held_def allocation_def)
qed

lemma sample_node_keys: "dom (map_of (ob_subscribers (sample_node ids))) = EventSubscriberKey ''g'' ` set ids"
  by (simp add: sample_node_def dom_map_of_conv_image_fst image_image)

lemma sample_nodes_keys:
  "(i < length [sample_node [''a''], sample_node [''b'']]
      \<and> key \<in> dom (map_of (ob_subscribers ([sample_node [''a''], sample_node [''b'']] ! i))))
    \<longleftrightarrow> (i = 0 \<and> key = EventSubscriberKey ''g'' ''a'') \<or> (i = 1 \<and> key = EventSubscriberKey ''g'' ''b'')"
proof (cases "i < 2")
  case True
  then consider "i = 0" | "i = 1" by linarith
  then show ?thesis using sample_node_keys [of "[''a'']"] sample_node_keys [of "[''b'']"] by cases auto
qed auto

theorem each_source_one_consumer_witness:
  "\<exists>after nodes'. distribute insertion_orders 10 60 sample_subscribers
       \<lparr>sxs_node_id = ''n'', sxs_subscriptions = []\<rparr> = (after, Inr ())
     \<and> synchronised_nodes event_store_source_factory id remdups after [sample_node [''a''], sample_node [''b'']]
       = map (\<lambda>ob'. (ob', Inr ())) nodes'
     \<and> (\<exists>!(i, key). i < 2 \<and> sk_group key = ''g''
          \<and> CategoryIdentifier ''d'' \<in> consumed (ob_subscribers (nodes' ! i)) key)"
proof -
  let ?before = "\<lparr>sxs_node_id = ''n'', sxs_subscriptions = []\<rparr>"
  let ?nodes = "[sample_node [''a''], sample_node [''b'']]"
  let ?live = "subscriber_list 10 None (Some 60) sample_subscribers"
  have wf: "subscribers_wf sample_subscribers" by code_simp
  have before: "subscriptions_wf ?before" "exclusive (allocation (subscription_list ?before))"
    by (simp_all add: subscriptions_wf_def exclusive_def subscription_list_def dict_values_def allocation_def held_def)
  obtain after where after: "distribute insertion_orders 10 60 sample_subscribers ?before = (after, Inr ())"
    by (rule distribute_effect [OF insertion_orders_ok wf before(1)])
  have "map xs_sources (subscription_list (fst (distribute insertion_orders 10 60 sample_subscribers ?before)))
      = [[CategoryIdentifier ''c''], [CategoryIdentifier ''d'']]" by code_simp
  then have "map xs_sources (subscription_list after) = [[CategoryIdentifier ''c''], [CategoryIdentifier ''d'']]"
    unfolding after fst_conv .
  then have sources: "set (map xs_sources (subscription_list after))
      = {[CategoryIdentifier ''c''], [CategoryIdentifier ''d'']}" by simp
  have construct: "all_construct event_store_source_factory (subscription_list after)"
    unfolding all_construct_def
  proof (intro ballI)
    fix x src assume x: "x \<in> set (subscription_list after)" "src \<in> set (xs_sources x)"
    then have "xs_sources x \<in> set (map xs_sources (subscription_list after))" by simp
    then show "constructs event_store_source_factory src"
      unfolding sources using x(2) by (auto simp: store_constructs)
  qed
  have live: "map ss_key ?live = [EventSubscriberKey ''g'' ''a'', EventSubscriberKey ''g'' ''b'']"
    "map ss_group ?live = [''g'', ''g'']"
    "set (target_of insertion_orders ?live ''g'') = {CategoryIdentifier ''c'', CategoryIdentifier ''d''}"
    by code_simp+
  have "\<forall>s \<in> set ?live. \<exists>!i. i < length ?nodes \<and> ss_key s \<in> dom (map_of (ob_subscribers (?nodes ! i)))"
  proof
    fix s assume "s \<in> set ?live"
    then have "ss_key s \<in> set (map ss_key ?live)" by simp
    then have "ss_key s = EventSubscriberKey ''g'' ''a'' \<or> ss_key s = EventSubscriberKey ''g'' ''b''"
      unfolding live(1) by simp
    then show "\<exists>!i. i < length ?nodes \<and> ss_key s \<in> dom (map_of (ob_subscribers (?nodes ! i)))"
    proof
      assume "ss_key s = EventSubscriberKey ''g'' ''a''"
      then show ?thesis unfolding sample_nodes_keys by simp
    next
      assume "ss_key s = EventSubscriberKey ''g'' ''b''"
      then show ?thesis unfolding sample_nodes_keys by simp
    qed
  qed
  note nodes = each_source_one_consumer [OF insertion_orders_ok _ wf before after refl _ construct this,
      of remdups id]
  have "\<exists>s \<in> set ?live. ss_group s = ''g''" by code_simp
  then obtain s where s: "s \<in> set ?live" "ss_group s = ''g''" by blast
  have "iterates_set (remdups :: subscription_delta list \<Rightarrow> subscription_delta list)"
    by (simp add: iterates_set_def)
  moreover have "\<forall>ob \<in> set ?nodes. in_sync ob \<and> all_construct event_store_source_factory (ob_existing ob)"
    by (simp add: sample_node_in_sync) (simp add: sample_node_def all_construct_def)
  ultimately obtain nodes' where nodes': "synchronised_nodes event_store_source_factory id remdups after ?nodes
      = map (\<lambda>ob'. (ob', Inr ())) nodes'"
    "\<forall>s \<in> set ?live. \<forall>src \<in> set (target_of insertion_orders ?live (ss_group s)).
       \<exists>!(i, key). i < length ?nodes \<and> sk_group key = ss_group s
         \<and> src \<in> consumed (ob_subscribers (nodes' ! i)) key"
    using nodes by blast
  have target: "CategoryIdentifier ''d'' \<in> set (target_of insertion_orders ?live (ss_group s))"
    unfolding s(2) live(3) by simp
  have len: "length ?nodes = 2" by simp
  show ?thesis
    by (intro exI [of _ after] exI [of _ nodes'] conjI after nodes'(1)
        bspec [OF bspec [OF nodes'(2) s(1)] target, unfolded s(2) len])
qed

end
