(* ===== verification/Leadership.thy ===== *)
theory Leadership
  imports Broker_Coordinator
begin

section \<open>Locks in memory, and the coordinators' leadership\<close>

text \<open>
  Models \<open>processing/locks/memory.py\<close> and \<open>locks/base.py\<close>, the timeout arithmetic of
  \<open>locks/postgres.py\<close>, and \<open>coordinate\<close> in \<open>broker/strategies/distributed/coordinator.py\<close>: the
  loop in which nodes take turns in leading and distributing.

  \<open>asyncio.Lock\<close> is modelled from the standard library: a flag and a queue of waiters, where a
  release wakes the first waiter but lets it run only later. A step of a task is what it does
  between two suspensions; steps of different tasks interleave freely. Lock objects are numbered
  in the order of their creation, since \<open>_locks\<close> makes and forgets them.
\<close>

subsection \<open>asyncio.Lock and the dictionary of locks\<close>

record lock_manager =
  lm_locks :: "(string, nat) dict"
  lm_next :: nat
  lm_locked :: "nat \<Rightarrow> bool"
  lm_waiters :: "nat \<Rightarrow> (nat \<times> bool) list"

definition new_lock_manager :: lock_manager where
  "new_lock_manager = \<lparr>lm_locks = [], lm_next = 0, lm_locked = (\<lambda>_. False), lm_waiters = (\<lambda>_. [])\<rparr>"

definition get_lock :: "string \<Rightarrow> lock_manager \<Rightarrow> nat \<times> lock_manager" where
  \<comment> \<open>\<open>self._locks[lock_name]\<close> of a \<open>defaultdict\<close>\<close>
  "get_lock lock_name lm =
     (case map_of (lm_locks lm) lock_name of
        Some control \<Rightarrow> (control, lm)
      | None \<Rightarrow>
          (lm_next lm, lm\<lparr>lm_locks := AList.update lock_name (lm_next lm) (lm_locks lm),
                          lm_next := lm_next lm + 1\<rparr>))"

definition pop_lock :: "string \<Rightarrow> lock_manager \<Rightarrow> lock_manager" where
  "pop_lock lock_name lm =
     (if lock_name \<in> set (dict_keys (lm_locks lm))
      then lm\<lparr>lm_locks := AList.delete lock_name (lm_locks lm)\<rparr> else lm)"

definition set_locked :: "nat \<Rightarrow> bool \<Rightarrow> lock_manager \<Rightarrow> lock_manager" where
  "set_locked control b lm = lm\<lparr>lm_locked := (lm_locked lm)(control := b)\<rparr>"

definition set_waiters :: "nat \<Rightarrow> (nat \<times> bool) list \<Rightarrow> lock_manager \<Rightarrow> lock_manager" where
  "set_waiters control ws lm = lm\<lparr>lm_waiters := (lm_waiters lm)(control := ws)\<rparr>"

definition wake_up_first :: "nat \<Rightarrow> lock_manager \<Rightarrow> lock_manager" where
  "wake_up_first control lm =
     (case lm_waiters lm control of
        [] \<Rightarrow> lm
      | (task, _) # ws \<Rightarrow> set_waiters control ((task, True) # ws) lm)"

definition release_lock :: "nat \<Rightarrow> lock_manager \<Rightarrow> lock_manager" where
  "release_lock control lm = wake_up_first control (set_locked control False lm)"

subsection \<open>locks/memory.py\<close>

text \<open>
  Where a task stands: about to look its lock up after \<open>sleep(0)\<close> (by \<open>try_lock\<close> or by
  \<open>wait_for_lock\<close>), queued on a lock, in the body with the lock, in the body without it, or past
  the body.
\<close>

datatype lock_task =
    Trying string
  | Waiting string
  | Queued string nat
  | Held string nat
  | Refused string
  | TimedOut string
  | Released

definition acquire ::
  "nat \<Rightarrow> string \<Rightarrow> nat \<Rightarrow> lock_manager \<Rightarrow> lock_manager \<times> lock_task" where
  "acquire task lock_name control lm =
     (if \<not> lm_locked lm control \<and> lm_waiters lm control = []
      then (set_locked control True lm, Held lock_name control)
      else (set_waiters control (lm_waiters lm control @ [(task, False)]) lm, Queued lock_name control))"

text \<open>
  A step of a task, with \<open>timeout\<close> if its timeout expires now: \<open>None\<close> if it cannot take one. The
  waiter of a task that times out leaves the queue, and hands a wake-up it had on.
\<close>

fun lock_step :: "nat \<Rightarrow> bool \<Rightarrow> lock_manager \<Rightarrow> lock_task \<Rightarrow> (lock_manager \<times> lock_task) option" where
  "lock_step task timeout lm (Trying lock_name) =
     (let (control, lm1) = get_lock lock_name lm
      in Some (if lm_locked lm1 control then (lm1, Refused lock_name)
               else acquire task lock_name control lm1))"
| "lock_step task timeout lm (Waiting lock_name) =
     (let (control, lm1) = get_lock lock_name lm in Some (acquire task lock_name control lm1))"
| "lock_step task timeout lm (Queued lock_name control) =
     (let woken = (task, True) \<in> set (lm_waiters lm control);
          lm1 = set_waiters control (filter (\<lambda>(t, _). t \<noteq> task) (lm_waiters lm control)) lm
      in if timeout
         then Some (if woken \<and> \<not> lm_locked lm1 control then wake_up_first control lm1 else lm1,
                    TimedOut lock_name)
         else if woken then Some (set_locked control True lm1, Held lock_name control)
         else None)"
| "lock_step task timeout lm (Held lock_name control) =
     Some (pop_lock lock_name (release_lock control lm), Released)"
| "lock_step task timeout lm (Refused lock_name) = Some (lm, Released)"
| "lock_step task timeout lm (TimedOut lock_name) = Some (pop_lock lock_name lm, Released)"
| "lock_step task timeout lm Released = None"

type_synonym lock_world = "lock_manager \<times> (nat \<Rightarrow> lock_task)"

text \<open>
  The states that tasks reach: every task starts outside of any lock, may request one when it is
  outside, and steps.
\<close>

inductive lock_reachable :: "(lock_task \<Rightarrow> bool) \<Rightarrow> lock_world \<Rightarrow> bool" for requests where
  start: "lock_reachable requests (new_lock_manager, \<lambda>_. Released)"
| request: "lock_reachable requests (lm, tasks) \<Longrightarrow> tasks t = Released \<Longrightarrow> requests r
    \<Longrightarrow> lock_reachable requests (lm, tasks(t := r))"
| step: "lock_reachable requests (lm, tasks) \<Longrightarrow> lock_step t timeout lm (tasks t) = Some (lm', task')
    \<Longrightarrow> lock_reachable requests (lm', tasks(t := task'))"

definition try_request :: "lock_task \<Rightarrow> bool" where
  "try_request r = (case r of Trying _ \<Rightarrow> True | _ \<Rightarrow> False)"

definition any_request :: "lock_task \<Rightarrow> bool" where
  "any_request r = (case r of Trying _ \<Rightarrow> True | Waiting _ \<Rightarrow> True | _ \<Rightarrow> False)"

text \<open>A run along a schedule of tasks, each with whether its timeout expires.\<close>

fun run_locks :: "(nat \<times> bool) list \<Rightarrow> lock_world \<Rightarrow> lock_world option" where
  "run_locks [] w = Some w"
| "run_locks ((t, timeout) # schedule) (lm, tasks) =
     (case lock_step t timeout lm (tasks t) of
        None \<Rightarrow> None
      | Some (lm', task') \<Rightarrow> run_locks schedule (lm', tasks(t := task')))"

subsection \<open>Mutual exclusion of \<open>try_lock\<close>\<close>

fun try_task :: "lock_task \<Rightarrow> bool" where
  "try_task (Waiting _) = False"
| "try_task (Queued _ _) = False"
| "try_task (TimedOut _) = False"
| "try_task _ = True"

definition exclusion_inv :: "lock_manager \<Rightarrow> (nat \<Rightarrow> lock_task) \<Rightarrow> bool" where
  "exclusion_inv lm tasks \<longleftrightarrow>
     (\<forall>name control. map_of (lm_locks lm) name = Some control \<longrightarrow> control < lm_next lm)
     \<and> inj_on (map_of (lm_locks lm)) (dom (map_of (lm_locks lm)))
     \<and> (\<forall>control. lm_waiters lm control = [])
     \<and> (\<forall>t. try_task (tasks t))
     \<and> (\<forall>t name control. tasks t = Held name control
          \<longrightarrow> map_of (lm_locks lm) name = Some control \<and> lm_locked lm control)
     \<and> (\<forall>t t' name name' control. tasks t = Held name control \<longrightarrow> tasks t' = Held name' control \<longrightarrow> t = t')
     \<and> (\<forall>control. lm_locked lm control \<longrightarrow> (\<exists>t name. tasks t = Held name control))"

lemma exclusionD:
  assumes "exclusion_inv lm tasks"
  shows "map_of (lm_locks lm) name = Some control \<Longrightarrow> control < lm_next lm"
    and "inj_on (map_of (lm_locks lm)) (dom (map_of (lm_locks lm)))"
    and "lm_waiters lm control = []"
    and "try_task (tasks t)"
    and "tasks t = Held name control \<Longrightarrow> map_of (lm_locks lm) name = Some control"
    and "tasks t = Held name control \<Longrightarrow> lm_locked lm control"
    and "tasks t = Held name control \<Longrightarrow> tasks t' = Held name' control \<Longrightarrow> t = t'"
    and "lm_locked lm control \<Longrightarrow> \<exists>t name. tasks t = Held name control"
  using assms unfolding exclusion_inv_def by (elim conjE; simp)+

lemma exclusion_start: "exclusion_inv new_lock_manager (\<lambda>_. Released)"
  by (simp add: exclusion_inv_def new_lock_manager_def)

text \<open>A task that holds no lock may become any other task that holds none.\<close>

lemma exclusion_other:
  assumes "exclusion_inv lm tasks" "\<forall>name control. tasks t \<noteq> Held name control"
    and "try_task r" "\<forall>name control. r \<noteq> Held name control"
  shows "exclusion_inv lm (tasks(t := r))"
proof -
  have held: "(tasks(t := r)) u = Held name control \<longleftrightarrow> tasks u = Held name control" for u name control
    using assms(2,4) by simp
  show ?thesis
    unfolding exclusion_inv_def held
    using exclusionD [OF assms(1)] assms(3) by (intro conjI allI impI) auto
qed

lemma exclusion_acquire:
  assumes "exclusion_inv lm tasks" "\<forall>name control. tasks t \<noteq> Held name control"
    and "map_of (lm_locks lm) name = Some control" "\<not> lm_locked lm control"
  shows "exclusion_inv (set_locked control True lm) (tasks(t := Held name control))"
proof -
  note D = exclusionD [OF assms(1)]
  have free: "tasks u \<noteq> Held n control" for u n using D(6) [of u n control] assms(4) by blast
  have held: "(tasks(t := Held name control)) u = Held n c
      \<longleftrightarrow> (if u = t then n = name \<and> c = control else tasks u = Held n c)" for u n c by auto
  have "\<exists>u n. (tasks(t := Held name control)) u = Held n c" if c: "lm_locked (set_locked control True lm) c" for c
  proof (cases "c = control")
    case False
    then obtain u n where "tasks u = Held n c" using D(8) [of c] c by (auto simp: set_locked_def)
    then show ?thesis using assms(2) unfolding held by metis
  qed auto
  then show ?thesis
    unfolding exclusion_inv_def held
    using D free assms(3) by (auto simp: set_locked_def split: if_splits)
qed

lemma exclusion_new:
  assumes "exclusion_inv lm tasks" "map_of (lm_locks lm) name = None"
  shows "exclusion_inv (lm\<lparr>lm_locks := AList.update name (lm_next lm) (lm_locks lm), lm_next := lm_next lm + 1\<rparr>) tasks"
    and "\<not> lm_locked lm (lm_next lm)"
proof -
  note D = exclusionD [OF assms(1)]
  show "\<not> lm_locked lm (lm_next lm)" using D(1,5,8) by (metis less_irrefl)
  have "inj_on (map_of (AList.update name (lm_next lm) (lm_locks lm)))
      (dom (map_of (AList.update name (lm_next lm) (lm_locks lm))))"
    using D(1,2) by (auto simp: inj_on_def dom_def) (metis less_irrefl)+
  moreover have "n \<noteq> name" if "tasks u = Held n c" for u n c using D(5) [OF that] assms(2) by auto
  ultimately show "exclusion_inv (lm\<lparr>lm_locks := AList.update name (lm_next lm) (lm_locks lm),
      lm_next := lm_next lm + 1\<rparr>) tasks"
    unfolding exclusion_inv_def using D by (auto simp: less_Suc_eq)
qed

lemma key_in: "map_of d k = Some v \<Longrightarrow> k \<in> set (dict_keys d)"
  by (auto simp: dict_keys_def dest!: map_of_SomeD intro: rev_image_eqI)

lemma exclusion_release:
  assumes "exclusion_inv lm tasks" "tasks t = Held name control"
  shows "exclusion_inv (pop_lock name (release_lock control lm)) (tasks(t := Released))"
proof -
  note D = exclusionD [OF assms(1)]
  have "release_lock control lm = set_locked control False lm"
    unfolding release_lock_def wake_up_first_def set_locked_def by (simp add: D(3))
  then have lm': "pop_lock name (release_lock control lm)
      = lm\<lparr>lm_locked := (lm_locked lm)(control := False), lm_locks := AList.delete name (lm_locks lm)\<rparr>"
    using key_in [OF D(5) [OF assms(2)]] unfolding pop_lock_def set_locked_def by simp
  have held: "(tasks(t := Released)) u = Held n c \<longleftrightarrow> u \<noteq> t \<and> tasks u = Held n c" for u n c by auto
  have other: "c \<noteq> control" "n \<noteq> name" if "u \<noteq> t" "tasks u = Held n c" for u n c
  proof -
    show c: "c \<noteq> control" using that D(7) assms(2) by blast
    have "n = name \<Longrightarrow> Some c = Some control" using D(5) [OF that(2)] D(5) [OF assms(2)] by simp
    then show "n \<noteq> name" using c by blast
  qed
  show ?thesis
    unfolding exclusion_inv_def held lm'
  proof (intro conjI allI impI)
    fix c assume "lm_locked (lm\<lparr>lm_locked := (lm_locked lm)(control := False),
        lm_locks := AList.delete name (lm_locks lm)\<rparr>) c"
    then have c: "c \<noteq> control" "lm_locked lm c" by (auto split: if_splits)
    then obtain u n where "tasks u = Held n c" using D(8) by blast
    then show "\<exists>u n. u \<noteq> t \<and> tasks u = Held n c" using assms(2) c(1) by (metis lock_task.inject(4))
  qed (use D in \<open>auto simp: inj_on_def dom_def dest: other split: if_splits\<close>)
qed

lemma exclusion_trying:
  assumes "exclusion_inv lm tasks" "tasks t = Trying name"
    and "lock_step t timeout lm (Trying name) = Some (lm', task')"
  shows "exclusion_inv lm' (tasks(t := task'))"
proof -
  have free: "\<forall>n c. tasks t \<noteq> Held n c" using assms(2) by simp
  obtain control lm1 where got: "get_lock name lm = (control, lm1)" by fastforce
  have got_inv: "exclusion_inv lm1 tasks" "map_of (lm_locks lm1) name = Some control"
    using exclusion_new(1) [OF assms(1), of name] assms(1) got
    by (auto simp: get_lock_def split: option.splits)
  show ?thesis
  proof (cases "lm_locked lm1 control")
    case True
    then have "lm' = lm1" "task' = Refused name" using assms(3) got by auto
    then show ?thesis using exclusion_other [OF got_inv(1) free, of "Refused name"] by simp
  next
    case False
    then have "lm' = set_locked control True lm1" "task' = Held name control"
      using assms(3) got exclusionD(3) [OF got_inv(1)] by (auto simp: acquire_def)
    then show ?thesis using exclusion_acquire [OF got_inv(1) free got_inv(2) False] by simp
  qed
qed

lemma exclusion_step:
  assumes "exclusion_inv lm tasks" "lock_step t timeout lm (tasks t) = Some (lm', task')"
  shows "exclusion_inv lm' (tasks(t := task'))"
proof (cases "tasks t")
  case (Trying name)
  then show ?thesis using exclusion_trying [OF assms(1) Trying] assms(2) by simp
next
  case (Held name control)
  then show ?thesis using exclusion_release [OF assms(1) Held] assms(2) by simp
next
  case (Refused name)
  then have "lm' = lm" "task' = Released" using assms(2) by simp_all
  then show ?thesis using exclusion_other [OF assms(1), of t Released] Refused by simp
qed (use assms(2) exclusionD(4) [OF assms(1), of t] in auto)

lemma exclusion_reachable: "lock_reachable try_request (lm, tasks) \<Longrightarrow> exclusion_inv lm tasks"
proof (induction "(lm, tasks)" arbitrary: lm tasks rule: lock_reachable.induct)
  case start
  show ?case by (rule exclusion_start)
next
  case (request lm tasks t r)
  then show ?case
    using exclusion_other [of lm tasks t r] by (auto simp: try_request_def split: lock_task.splits)
next
  case (step lm tasks t timeout lm' task')
  then show ?case by (blast intro: exclusion_step)
qed

text \<open>
  C28. Any number of tasks that use \<open>try_lock\<close> only, stepping in any order: at most one of them
  is in its body with the lock of a name, and a task that finds the name free gets the lock.
\<close>

theorem try_lock_excludes:
  assumes "lock_reachable try_request (lm, tasks)"
  shows "(\<forall>t t' name control control'. tasks t = Held name control \<and> tasks t' = Held name control' \<longrightarrow> t = t')
    \<and> (\<forall>t name. tasks t = Trying name \<longrightarrow>
         (\<exists>lm' task'. lock_step t False lm (tasks t) = Some (lm', task')
            \<and> (if \<exists>t' control. tasks t' = Held name control then task' = Refused name
               else \<exists>control. task' = Held name control)))"
proof (intro conjI allI impI)
  note inv = exclusion_reachable [OF assms]
  note D = exclusionD [OF inv]
  show "t = t'" if "tasks t = Held name control \<and> tasks t' = Held name control'" for t t' name control control'
    using D(5) D(7) that by (metis option.inject)
  fix t name assume t: "tasks t = Trying name"
  show "\<exists>lm' task'. lock_step t False lm (tasks t) = Some (lm', task')
      \<and> (if \<exists>t' control. tasks t' = Held name control then task' = Refused name
         else \<exists>control. task' = Held name control)"
  proof (cases "map_of (lm_locks lm) name")
    case None
    then have "\<nexists>t' control. tasks t' = Held name control" using D(5) by (metis option.distinct(1))
    then show ?thesis using t None exclusion_new(2) [OF inv None] D(3) by (simp add: get_lock_def acquire_def)
  next
    case (Some control)
    have "lm_locked lm control \<longleftrightarrow> (\<exists>t' c. tasks t' = Held name c)"
    proof
      assume "lm_locked lm control"
      then obtain t' n where t': "tasks t' = Held n control" using D(8) by blast
      then have "n = name" using D(5) [OF t'] Some inj_onD [OF D(2), of n name] by (simp add: domI)
      then show "\<exists>t' c. tasks t' = Held name c" using t' by blast
    next
      assume "\<exists>t' c. tasks t' = Held name c"
      then obtain t' c where t': "tasks t' = Held name c" by blast
      then have "c = control" using D(5) [OF t'] Some by simp
      then show "lm_locked lm control" using D(6) [OF t'] by simp
    qed
    then show ?thesis using t Some D(3) by (simp add: get_lock_def acquire_def)
  qed
qed

theorem try_lock_excludes_witness:
  "\<exists>lm tasks. lock_reachable try_request (lm, tasks)
     \<and> (\<exists>control. tasks 0 = Held ''x'' control) \<and> tasks 1 = Trying ''x''
     \<and> (\<exists>lm'. lock_step 1 False lm (tasks 1) = Some (lm', Refused ''x''))"
proof -
  let ?tasks = "(\<lambda>_ :: nat. Released)(0 := Trying ''x'')" and ?step = "lock_step 0 False new_lock_manager (Trying ''x'')"
  obtain lm task where step: "?step = Some (lm, task)" "task = Held ''x'' 0"
    by (simp add: new_lock_manager_def get_lock_def acquire_def)
  have requested: "lock_reachable try_request (new_lock_manager, ?tasks)"
    by (rule lock_reachable.request [OF lock_reachable.start]) (simp_all add: try_request_def)
  have held: "lock_reachable try_request (lm, ?tasks(0 := task))"
    by (rule lock_reachable.step [OF requested, of 0 False]) (use step(1) in simp)
  have "lock_reachable try_request (lm, ?tasks(0 := task, 1 := Trying ''x''))"
    by (rule lock_reachable.request [OF held]) (simp_all add: try_request_def)
  note both = this
  let ?both = "?tasks(0 := task, 1 := Trying ''x'')"
  have held0: "?both 0 = Held ''x'' 0" and trying1: "?both 1 = Trying ''x''" using step(2) by simp_all
  then obtain lm' where "lock_step 1 False lm (?both 1) = Some (lm', Refused ''x'')"
    using conjunct2 [OF try_lock_excludes [OF both], rule_format, OF trying1] by (metis (no_types, lifting))
  then show ?thesis using both held0 trying1 by blast
qed

subsection \<open>\<open>wait_for_lock\<close> does not exclude\<close>

lemmas lock_simps = new_lock_manager_def get_lock_def acquire_def release_lock_def wake_up_first_def
  pop_lock_def set_locked_def set_waiters_def dict_keys_def

lemma run_reachable:
  "lock_reachable requests w \<Longrightarrow> run_locks schedule w = Some w' \<Longrightarrow> lock_reachable requests w'"
proof (induction schedule arbitrary: w)
  case (Cons e schedule)
  obtain t timeout lm tasks where e: "e = (t, timeout)" "w = (lm, tasks)" by (cases e; cases w) blast
  then obtain lm' task' where step: "lock_step t timeout lm (tasks t) = Some (lm', task')"
    "run_locks schedule (lm', tasks(t := task')) = Some w'"
    using Cons.prems(2) by (auto split: option.splits)
  have "lock_reachable requests (lm', tasks(t := task'))"
    by (rule lock_reachable.step [of requests lm tasks t timeout]) (use Cons.prems(1) e(2) step(1) in simp_all)
  then show ?case using Cons.IH step(2) by blast
qed simp

lemma run_reaches:
  "lock_reachable requests w
    \<Longrightarrow> (case run_locks schedule w of None \<Rightarrow> False | Some (_, tasks) \<Rightarrow> P tasks)
    \<Longrightarrow> \<exists>lm tasks. lock_reachable requests (lm, tasks) \<and> P tasks"
  using run_reachable [of requests w schedule] by (auto split: option.splits prod.splits)

text \<open>
  Tasks that wait for a lock can hold it together. A task leaves the lock's name out of the
  dictionary when it releases the lock, or when its own wait has timed out, even though others
  hold the lock or wait for it; the next task to ask for the name gets a fresh lock. Both ways
  lead to a reachable state in which two tasks are in their bodies with the lock of one name.
\<close>

lemma wait_for_lock_does_not_exclude:
  "(\<exists>lm tasks. lock_reachable any_request (lm, tasks)
      \<and> (\<exists>control control'. tasks 1 = Held ''x'' control \<and> tasks 2 = Held ''x'' control'))
   \<and> (\<exists>lm tasks. lock_reachable any_request (lm, tasks)
      \<and> (\<exists>control control'. tasks 0 = Held ''x'' control \<and> tasks 2 = Held ''x'' control'))"
proof (intro conjI)
  let ?start = "(new_lock_manager, (\<lambda>_. Released)(0 := Waiting ''x'', 1 := Waiting ''x'', 2 := Trying ''x''))"
  have requested: "lock_reachable any_request ?start"
    by (intro lock_reachable.request [where t = 2] lock_reachable.request [where t = 1]
        lock_reachable.request [where t = 0] lock_reachable.start) (simp_all add: any_request_def)
  \<comment> \<open>0 holds, 1 waits, 0 releases, 2 takes a fresh lock, 1 is woken\<close>
  show "\<exists>lm tasks. lock_reachable any_request (lm, tasks)
      \<and> (\<exists>control control'. tasks 1 = Held ''x'' control \<and> tasks 2 = Held ''x'' control')"
  proof -
    have "case run_locks [(0, False), (1, False), (0, False), (2, False), (1, False)] ?start of
        None \<Rightarrow> False | Some (_, tasks) \<Rightarrow> tasks 1 = Held ''x'' 0 \<and> tasks 2 = Held ''x'' 1"
      by (simp add: lock_simps)
    from run_reaches [OF requested this] show ?thesis by blast
  qed
  \<comment> \<open>0 holds, 1 waits and times out, 2 takes a fresh lock\<close>
  show "\<exists>lm tasks. lock_reachable any_request (lm, tasks)
      \<and> (\<exists>control control'. tasks 0 = Held ''x'' control \<and> tasks 2 = Held ''x'' control')"
  proof -
    have "case run_locks [(0, False), (1, False), (1, True), (1, False), (2, False)] ?start of
        None \<Rightarrow> False | Some (_, tasks) \<Rightarrow> tasks 0 = Held ''x'' 0 \<and> tasks 2 = Held ''x'' 1"
      by (simp add: lock_simps)
    from run_reaches [OF requested this] show ?thesis by blast
  qed
qed

subsection \<open>The leadership of coordinators\<close>

text \<open>
  Nodes that share a lock manager and the state stores run \<open>coordinate\<close>. Where a node stands:
  not started, attempting to take the lock, leading since a time between distributions,
  distributing with changes it worked out, resting until its next attempt, or finished.

  A distribution is two steps, since it suspends in between: it reads both stores and works the
  changes out, and it applies them. \<open>seconds_since\<close> is exact here: times are in nanoseconds.
  The interval between steps (\<open>sleep\<close>) is up to the environment.
\<close>

definition leader_lock :: string where
  "leader_lock = ''logicblocks.event.processing.broker.strategies.distributed.coordinator''
     @ ''.DefaultEventSubscriptionCoordinator''"

datatype coordinator_pc =
    NotStarted
  | Attempting
  | Leading int
  | Distributing int "subscription_change list"
  | Resting
  | Finished

record coordinator =
  co_status :: process_status
  co_pc :: coordinator_pc

definition new_coordinator :: coordinator where
  "new_coordinator = \<lparr>co_status = INITIALISED, co_pc = NotStarted\<rparr>"

record cluster =
  cl_locks :: lock_manager
  cl_tasks :: "nat \<Rightarrow> lock_task"
  cl_nodes :: "nat \<Rightarrow> coordinator"
  cl_subscribers :: subscriber_store
  cl_subscriptions :: subscription_store

definition enter :: "nat \<Rightarrow> process_status \<Rightarrow> coordinator_pc \<Rightarrow> cluster \<Rightarrow> cluster" where
  "enter n status pc w = w\<lparr>cl_nodes := (cl_nodes w)(n := \<lparr>co_status = status, co_pc = pc\<rparr>)\<rparr>"

definition set_task :: "nat \<Rightarrow> lock_task \<Rightarrow> cluster \<Rightarrow> cluster" where
  "set_task n task w = w\<lparr>cl_tasks := (cl_tasks w)(n := task)\<rparr>"

text \<open>A step of the node's use of \<open>try_lock\<close>; leaving the body of \<open>async with\<close>\<close>

definition take_lock_step :: "nat \<Rightarrow> cluster \<Rightarrow> cluster option" where
  "take_lock_step n w =
     (case lock_step n False (cl_locks w) (cl_tasks w n) of
        None \<Rightarrow> None
      | Some (lm, task) \<Rightarrow> Some (set_task n task (w\<lparr>cl_locks := lm\<rparr>)))"

definition leave_lock :: "nat \<Rightarrow> cluster \<Rightarrow> cluster" where
  "leave_lock n w =
     (case cl_tasks w n of
        Held _ _ \<Rightarrow> (case take_lock_step n w of None \<Rightarrow> w | Some w' \<Rightarrow> w')
      | _ \<Rightarrow> set_task n Released w)"

text \<open>What the environment does to a node: lets it run on, fails its distribution, cancels it.\<close>

datatype coordinator_event = Continue int | Fail | Cancel

fun coordinate_step ::
  "set_orders \<Rightarrow> int \<Rightarrow> datetime \<Rightarrow> timedelta \<Rightarrow> nat \<Rightarrow> coordinator_event \<Rightarrow> cluster \<Rightarrow> cluster option" where
  "coordinate_step orders leadership_max_duration now age n Cancel w =
     (if co_pc (cl_nodes w n) \<in> {NotStarted, Finished} then None
      else Some (enter n STOPPED Finished (leave_lock n w)))"
| "coordinate_step orders leadership_max_duration now age n Fail w =
     (case co_pc (cl_nodes w n) of
        Leading _ \<Rightarrow> Some (enter n ERRORED Finished (leave_lock n w))
      | Distributing _ _ \<Rightarrow> Some (enter n ERRORED Finished (leave_lock n w))
      | _ \<Rightarrow> None)"
| "coordinate_step orders leadership_max_duration now age n (Continue now_ns) w =
     (case co_pc (cl_nodes w n) of
        NotStarted \<Rightarrow> Some (enter n WAITING Attempting (set_task n (Trying leader_lock) w))
      | Attempting \<Rightarrow>
          (case take_lock_step n w of
             None \<Rightarrow> None
           | Some w' \<Rightarrow>
               (case cl_tasks w' n of
                  Held _ _ \<Rightarrow> Some (enter n RUNNING (Leading now_ns) w')
                | Refused _ \<Rightarrow> Some (enter n WAITING Resting (leave_lock n w'))
                | _ \<Rightarrow> Some w'))
      | Leading lock_acquired_ns \<Rightarrow>
          (if now_ns - lock_acquired_ns > leadership_max_duration
           then Some (enter n WAITING Resting (leave_lock n w))
           else (case distribution_changes orders (subscription_list (cl_subscriptions w))
                        (subscriber_list now None (Some age) (cl_subscribers w)) of
                   Inl _ \<Rightarrow> Some (enter n ERRORED Finished (leave_lock n w))
                 | Inr changes \<Rightarrow> Some (enter n RUNNING (Distributing lock_acquired_ns changes) w)))
      | Distributing lock_acquired_ns changes \<Rightarrow>
          (case subscription_apply changes (cl_subscriptions w) of
             (subscriptions, Inl _) \<Rightarrow>
               Some (enter n ERRORED Finished (leave_lock n (w\<lparr>cl_subscriptions := subscriptions\<rparr>)))
           | (subscriptions, Inr _) \<Rightarrow>
               Some (enter n RUNNING (Leading lock_acquired_ns) (w\<lparr>cl_subscriptions := subscriptions\<rparr>)))
      | Resting \<Rightarrow> Some (enter n WAITING Attempting (set_task n (Trying leader_lock) w))
      | Finished \<Rightarrow> None)"

definition new_cluster :: "subscriber_store \<Rightarrow> subscription_store \<Rightarrow> cluster" where
  "new_cluster subscribers subscriptions =
     \<lparr>cl_locks = new_lock_manager, cl_tasks = (\<lambda>_. Released), cl_nodes = (\<lambda>_. new_coordinator),
      cl_subscribers = subscribers, cl_subscriptions = subscriptions\<rparr>"

text \<open>
  What a cluster reaches from an empty subscription store: its nodes step in any order, a node whose
  \<open>coordinate\<close> ended calls it again, as the error handler of a broker makes it, and the
  subscribers change as they like, within what their store keeps.
\<close>

definition coordinate_again :: "nat \<Rightarrow> cluster \<Rightarrow> cluster" where
  "coordinate_again n w =
     (if co_pc (cl_nodes w n) = Finished then enter n (co_status (cl_nodes w n)) NotStarted w else w)"

inductive cluster_reachable :: "set_orders \<Rightarrow> int \<Rightarrow> timedelta \<Rightarrow> cluster \<Rightarrow> bool"
  for orders leadership_max_duration age where
  start: "subscribers_wf subscribers
    \<Longrightarrow> cluster_reachable orders leadership_max_duration age
          (new_cluster subscribers \<lparr>sxs_node_id = node, sxs_subscriptions = []\<rparr>)"
| node: "cluster_reachable orders leadership_max_duration age w
    \<Longrightarrow> coordinate_step orders leadership_max_duration now age n event w = Some w'
    \<Longrightarrow> cluster_reachable orders leadership_max_duration age w'"
| again: "cluster_reachable orders leadership_max_duration age w
    \<Longrightarrow> cluster_reachable orders leadership_max_duration age (coordinate_again n w)"
| subscribers: "cluster_reachable orders leadership_max_duration age w \<Longrightarrow> subscribers_wf subscribers
    \<Longrightarrow> cluster_reachable orders leadership_max_duration age (w\<lparr>cl_subscribers := subscribers\<rparr>)"

fun node_inv :: "set_orders \<Rightarrow> subscription_store \<Rightarrow> process_status \<Rightarrow> coordinator_pc \<Rightarrow> lock_task \<Rightarrow> bool" where
  "node_inv orders store status NotStarted task \<longleftrightarrow>
     status \<in> {INITIALISED, STOPPED, ERRORED} \<and> task = Released"
| "node_inv orders store status Attempting task \<longleftrightarrow> status = WAITING \<and> task = Trying leader_lock"
| "node_inv orders store status (Leading _) task \<longleftrightarrow> status = RUNNING \<and> (\<exists>c. task = Held leader_lock c)"
| "node_inv orders store status (Distributing _ changes) task \<longleftrightarrow>
     status = RUNNING \<and> (\<exists>c. task = Held leader_lock c)
     \<and> (\<exists>live. distinct (map ss_key live) \<and> distribution_changes orders (subscription_list store) live = Inr changes)"
| "node_inv orders store status Resting task \<longleftrightarrow> status = WAITING \<and> task = Released"
| "node_inv orders store status Finished task \<longleftrightarrow> status \<in> {STOPPED, ERRORED} \<and> task = Released"

abbreviation node_ok :: "set_orders \<Rightarrow> cluster \<Rightarrow> nat \<Rightarrow> bool" where
  "node_ok orders w n \<equiv> node_inv orders (cl_subscriptions w) (co_status (cl_nodes w n)) (co_pc (cl_nodes w n))
     (cl_tasks w n)"

definition cluster_inv :: "set_orders \<Rightarrow> cluster \<Rightarrow> bool" where
  "cluster_inv orders w \<longleftrightarrow> exclusion_inv (cl_locks w) (cl_tasks w) \<and> (\<forall>n. node_ok orders w n)
     \<and> subscribers_wf (cl_subscribers w) \<and> subscriptions_wf (cl_subscriptions w)
     \<and> exclusive (allocation (subscription_list (cl_subscriptions w)))"

text \<open>A step of a node that leaves the subscriptions alone\<close>

lemma node_stepI:
  assumes "cluster_inv orders w" "exclusion_inv (cl_locks w') (cl_tasks w')" "node_ok orders w' n"
    and "\<And>m. m \<noteq> n \<Longrightarrow> cl_tasks w' m = cl_tasks w m \<and> cl_nodes w' m = cl_nodes w m"
    and "cl_subscriptions w' = cl_subscriptions w" "cl_subscribers w' = cl_subscribers w"
  shows "cluster_inv orders w'"
proof -
  have "node_ok orders w' m" for m
    using assms(1,3,5) assms(4) [of m] by (cases "m = n") (simp_all add: cluster_inv_def)
  then show ?thesis using assms(1,2,5,6) by (simp add: cluster_inv_def)
qed

lemma leave_lock_effect:
  assumes "exclusion_inv (cl_locks w) (cl_tasks w)"
  shows "exclusion_inv (cl_locks (leave_lock n w)) (cl_tasks (leave_lock n w))"
    and "cl_tasks (leave_lock n w) = (cl_tasks w)(n := Released)"
    and "cl_nodes (leave_lock n w) = cl_nodes w"
    and "cl_subscriptions (leave_lock n w) = cl_subscriptions w"
    and "cl_subscribers (leave_lock n w) = cl_subscribers w"
proof -
  have "exclusion_inv (cl_locks w) ((cl_tasks w)(n := Released))" if "\<forall>name control. cl_tasks w n \<noteq> Held name control"
    by (rule exclusion_other [OF assms that]) simp_all
  then show "exclusion_inv (cl_locks (leave_lock n w)) (cl_tasks (leave_lock n w))"
    using exclusion_release [OF assms, of n]
    by (auto simp: leave_lock_def take_lock_step_def set_task_def split: lock_task.split)
qed (auto simp: leave_lock_def take_lock_step_def set_task_def split: lock_task.split)

lemma leave_step:
  assumes "cluster_inv orders w" "node_inv orders (cl_subscriptions w) status pc Released"
  shows "cluster_inv orders (enter n status pc (leave_lock n w))"
proof -
  have inv: "exclusion_inv (cl_locks w) (cl_tasks w)" using assms(1) by (simp add: cluster_inv_def)
  show ?thesis
    by (rule node_stepI [OF assms(1), of _ n])
      (use leave_lock_effect [OF inv, of n] assms(2) in \<open>simp_all add: enter_def\<close>)
qed

lemma attempt_step:
  assumes "cluster_inv orders w" "cl_tasks w n = Released"
  shows "cluster_inv orders (enter n WAITING Attempting (set_task n (Trying leader_lock) w))"
proof -
  have "exclusion_inv (cl_locks w) ((cl_tasks w)(n := Trying leader_lock))"
    using assms exclusion_other [of "cl_locks w" "cl_tasks w" n "Trying leader_lock"] by (simp add: cluster_inv_def)
  then show ?thesis
    by (intro node_stepI [OF assms(1), of _ n]) (simp_all add: enter_def set_task_def)
qed

lemma trying_outcome:
  assumes "exclusion_inv lm tasks" "tasks t = Trying name"
  obtains lm' task' where "lock_step t timeout lm (tasks t) = Some (lm', task')"
    "exclusion_inv lm' (tasks(t := task'))" "task' = Refused name \<or> (\<exists>control. task' = Held name control)"
proof -
  obtain lm' task' where step: "lock_step t timeout lm (Trying name) = Some (lm', task')"
    by (cases "lock_step t timeout lm (Trying name)") (auto split: prod.splits)
  have "lm_waiters (snd (get_lock name lm)) control = []" for control
    using exclusionD(3) [OF assms(1)] by (simp add: get_lock_def split: option.split)
  then have "task' = Refused name \<or> (\<exists>control. task' = Held name control)"
    using step by (auto simp: acquire_def split: prod.splits if_splits)
  then show thesis using that step exclusion_trying [OF assms step] assms(2) by simp
qed

lemma take_step:
  assumes "cluster_inv orders w" "co_pc (cl_nodes w n) = Attempting"
    and "coordinate_step orders duration now age n (Continue now_ns) w = Some w'"
  shows "cluster_inv orders w'"
proof -
  have inv: "exclusion_inv (cl_locks w) (cl_tasks w)" and "node_ok orders w n"
    using assms(1) by (simp_all add: cluster_inv_def)
  then have trying: "cl_tasks w n = Trying leader_lock" using assms(2) by simp
  obtain lm task where step: "lock_step n False (cl_locks w) (cl_tasks w n) = Some (lm, task)"
    "exclusion_inv lm ((cl_tasks w)(n := task))" "task = Refused leader_lock \<or> (\<exists>c. task = Held leader_lock c)"
    by (rule trying_outcome [OF inv trying])
  let ?w = "set_task n task (w\<lparr>cl_locks := lm\<rparr>)"
  have taken: "take_lock_step n w = Some ?w" by (simp add: take_lock_step_def step(1))
  have inv': "exclusion_inv (cl_locks ?w) (cl_tasks ?w)" using step(2) by (simp add: set_task_def)
  note leave = leave_lock_effect [OF inv', of n]
  show ?thesis
  proof (rule node_stepI [OF assms(1), of _ n])
    show "exclusion_inv (cl_locks w') (cl_tasks w')"
      using assms(2,3) step(3) inv' leave(1) taken by (auto simp: enter_def set_task_def)
    show "node_ok orders w' n" "cl_subscriptions w' = cl_subscriptions w" "cl_subscribers w' = cl_subscribers w"
      using assms(2,3) step(3) leave taken by (auto simp: enter_def set_task_def)
    show "cl_tasks w' m = cl_tasks w m \<and> cl_nodes w' m = cl_nodes w m" if "m \<noteq> n" for m
      using assms(2,3) step(3) leave taken that by (auto simp: enter_def set_task_def)
  qed
qed

text \<open>Only one node holds the lock, so no other works with the subscriptions it changes.\<close>

lemma single_leader:
  assumes "cluster_inv orders w" "co_status (cl_nodes w n) = RUNNING" "co_status (cl_nodes w m) = RUNNING"
  shows "n = m"
proof -
  have "\<exists>c. cl_tasks w k = Held leader_lock c" if "co_status (cl_nodes w k) = RUNNING" for k
  proof -
    have "node_ok orders w k" using assms(1) by (simp add: cluster_inv_def)
    then show ?thesis using that by (cases "co_pc (cl_nodes w k)") auto
  qed
  then obtain c d where held: "cl_tasks w n = Held leader_lock c" "cl_tasks w m = Held leader_lock d"
    using assms(2,3) by blast
  have inv: "exclusion_inv (cl_locks w) (cl_tasks w)" using assms(1) by (simp add: cluster_inv_def)
  show ?thesis using exclusionD(5,7) [OF inv] held by (metis option.inject)
qed

lemma changes_succeed:
  assumes "set_orders_ok orders" "cluster_inv orders w" "co_pc (cl_nodes w n) = Distributing acquired changes"
  obtains after where "subscription_apply changes (cl_subscriptions w) = (after, Inr ())" "subscriptions_wf after"
    "exclusive (allocation (subscription_list after))"
proof -
  have inv: "subscriptions_wf (cl_subscriptions w)" "exclusive (allocation (subscription_list (cl_subscriptions w)))"
    "node_ok orders w n" using assms(2) by (simp_all add: cluster_inv_def)
  obtain live where live: "distinct (map ss_key live)"
    "distribution_changes orders (subscription_list (cl_subscriptions w)) live = Inr changes"
    using inv(3) assms(3) by auto
  obtain changes' after where "distribution_changes orders (subscription_list (cl_subscriptions w)) live = Inr changes'"
    "subscription_apply changes' (cl_subscriptions w) = (after, Inr ())" "subscriptions_wf after"
    "distributed_to orders live (allocation (subscription_list (cl_subscriptions w))) (allocation (subscription_list after))"
    by (rule memory_subscriptions.distributed [OF assms(1) inv(1) live(1)])
  then show thesis using that live(2) distributed_exclusive [OF _ inv(2)] by auto
qed

lemma apply_step:
  assumes "set_orders_ok orders" "cluster_inv orders w" "co_pc (cl_nodes w n) = Distributing acquired changes"
    and "coordinate_step orders duration now age n (Continue now_ns) w = Some w'"
  shows "cluster_inv orders w'"
proof -
  obtain after where after: "subscription_apply changes (cl_subscriptions w) = (after, Inr ())"
    "subscriptions_wf after" "exclusive (allocation (subscription_list after))"
    by (rule changes_succeed [OF assms(1-3)])
  have w': "w' = enter n RUNNING (Leading acquired) (w\<lparr>cl_subscriptions := after\<rparr>)"
    using assms(3,4) after(1) by simp
  have nodes: "node_ok orders w m" for m using assms(2) by (simp add: cluster_inv_def)
  have running: "co_status (cl_nodes w n) = RUNNING" using nodes [of n] assms(3) by simp
  have "node_ok orders w' m" for m
  proof (cases "m = n")
    case True
    then show ?thesis using nodes [of n] assms(3) by (auto simp: w' enter_def)
  next
    case False
    then have "co_status (cl_nodes w m) \<noteq> RUNNING" using single_leader [OF assms(2) running] by blast
    then show ?thesis using nodes [of m] False by (cases "co_pc (cl_nodes w m)") (auto simp: w' enter_def)
  qed
  then show ?thesis using assms(2) after(2,3) by (simp add: cluster_inv_def w' enter_def)
qed

lemma cluster_step_inv:
  assumes "set_orders_ok orders" "cluster_inv orders w"
    and "coordinate_step orders duration now age n event w = Some w'"
  shows "cluster_inv orders w'"
proof -
  have ok: "node_ok orders w n" "subscribers_wf (cl_subscribers w)" "exclusion_inv (cl_locks w) (cl_tasks w)"
    using assms(2) by (simp_all add: cluster_inv_def)
  note leave = leave_step [OF assms(2), where n = n]
  show ?thesis
  proof (cases event)
    case Cancel
    then show ?thesis using assms(3) leave [where status = STOPPED and pc = Finished] by (simp split: if_splits)
  next
    case Fail
    then show ?thesis using assms(3) leave [where status = ERRORED and pc = Finished] by (simp split: coordinator_pc.splits)
  next
    case (Continue now_ns)
    show ?thesis
    proof (cases "co_pc (cl_nodes w n)")
      case (Leading acquired)
      let ?live = "subscriber_list now None (Some age) (cl_subscribers w)"
      have "cluster_inv orders (enter n RUNNING (Distributing acquired changes) w)"
        if "distribution_changes orders (subscription_list (cl_subscriptions w)) ?live = Inr changes" for changes
        by (rule node_stepI [OF assms(2), of _ n])
          (use ok Leading that live_wf [OF ok(2)] in \<open>auto simp: enter_def\<close>)
      then show ?thesis
        using assms(3) Continue Leading leave [where status = WAITING and pc = Resting]
          leave [where status = ERRORED and pc = Finished]
        by (auto split: if_splits sum.splits)
    next
      case NotStarted
      then have "cl_tasks w n = Released" using ok(1) by simp
      then have "cluster_inv orders (enter n WAITING Attempting (set_task n (Trying leader_lock) w))"
        by (rule attempt_step [OF assms(2)])
      then show ?thesis using assms(3) NotStarted by (simp add: Continue)
    next
      case Attempting
      show ?thesis by (rule take_step [OF assms(2) Attempting assms(3) [unfolded Continue]])
    next
      case (Distributing acquired changes)
      show ?thesis by (rule apply_step [OF assms(1,2) Distributing assms(3) [unfolded Continue]])
    next
      case Resting
      then have "cl_tasks w n = Released" using ok(1) by simp
      then have "cluster_inv orders (enter n WAITING Attempting (set_task n (Trying leader_lock) w))"
        by (rule attempt_step [OF assms(2)])
      then show ?thesis using assms(3) Resting by (simp add: Continue)
    next
      case Finished
      then show ?thesis using assms(3) by (simp add: Continue)
    qed
  qed
qed

lemma cluster_reachable_inv:
  assumes "set_orders_ok orders"
  shows "cluster_reachable orders duration age w \<Longrightarrow> cluster_inv orders w"
proof (induction rule: cluster_reachable.induct)
  case (start subscribers node)
  then show ?case
    using exclusion_start
    by (auto simp: cluster_inv_def new_cluster_def new_coordinator_def subscriptions_wf_def exclusive_def
        subscription_list_def dict_values_def allocation_def held_def)
next
  case (node w now n event w')
  then show ?case by (blast intro: cluster_step_inv [OF assms])
next
  case (again w n)
  show ?case
  proof (cases "co_pc (cl_nodes w n) = Finished")
    case True
    have inv: "exclusion_inv (cl_locks w) (cl_tasks w)" "node_ok orders w n"
      using again.IH by (simp_all add: cluster_inv_def)
    show ?thesis
      by (rule node_stepI [OF again.IH, of _ n]) (use True inv in \<open>simp_all add: coordinate_again_def enter_def\<close>)
  qed (use again.IH in \<open>simp add: coordinate_again_def\<close>)
next
  case (subscribers w subscribers)
  then show ?case by (simp add: cluster_inv_def)
qed

text \<open>
  C29. Coordinators that share the stores and the lock manager, stepping in any order, ending and
  being called again, while the subscribers change: at most one node is running, so at most one works out or applies a
  distribution at a time; the changes that a node worked out still apply in full when it gets to
  apply them; and no event source is ever allocated twice.
\<close>

theorem one_leader:
  assumes "set_orders_ok orders" "cluster_reachable orders leadership_max_duration age w"
  shows "(\<forall>n m. co_status (cl_nodes w n) = RUNNING \<and> co_status (cl_nodes w m) = RUNNING \<longrightarrow> n = m)
    \<and> (\<forall>n acquired changes. co_pc (cl_nodes w n) = Distributing acquired changes \<longrightarrow>
         (\<exists>after. subscription_apply changes (cl_subscriptions w) = (after, Inr ())
            \<and> subscriptions_wf after \<and> exclusive (allocation (subscription_list after))))
    \<and> exclusive (allocation (subscription_list (cl_subscriptions w)))"
proof (intro conjI allI impI)
  note inv = cluster_reachable_inv [OF assms]
  show "n = m" if "co_status (cl_nodes w n) = RUNNING \<and> co_status (cl_nodes w m) = RUNNING" for n m
    using single_leader [OF inv] that by blast
  show "exclusive (allocation (subscription_list (cl_subscriptions w)))" using inv by (simp add: cluster_inv_def)
  fix n acquired changes assume "co_pc (cl_nodes w n) = Distributing acquired changes"
  from changes_succeed [OF assms(1) inv this]
  show "\<exists>after. subscription_apply changes (cl_subscriptions w) = (after, Inr ())
      \<and> subscriptions_wf after \<and> exclusive (allocation (subscription_list after))" by blast
qed

text \<open>A run along a schedule of nodes and events\<close>

fun run_cluster ::
  "set_orders \<Rightarrow> int \<Rightarrow> datetime \<Rightarrow> timedelta \<Rightarrow> (nat \<times> coordinator_event) list \<Rightarrow> cluster \<Rightarrow> cluster option" where
  "run_cluster orders leadership_max_duration now age [] w = Some w"
| "run_cluster orders leadership_max_duration now age ((n, event) # schedule) w =
     (case coordinate_step orders leadership_max_duration now age n event w of
        None \<Rightarrow> None
      | Some w' \<Rightarrow> run_cluster orders leadership_max_duration now age schedule w')"

lemma run_cluster_reachable:
  "cluster_reachable orders duration age w \<Longrightarrow> run_cluster orders duration now age schedule w = Some w'
    \<Longrightarrow> cluster_reachable orders duration age w'"
proof (induction schedule arbitrary: w)
  case (Cons e schedule)
  obtain n event where e: "e = (n, event)" by (cases e)
  then obtain w1 where step: "coordinate_step orders duration now age n event w = Some w1"
    "run_cluster orders duration now age schedule w1 = Some w'" using Cons.prems(2) by (auto split: option.splits)
  show ?case by (rule Cons.IH [OF cluster_reachable.node [OF Cons.prems(1) step(1)] step(2)])
qed simp

definition sample_schedule :: "(nat \<times> coordinator_event) list" where
  "sample_schedule = [(0, Continue 0), (1, Continue 0), (0, Continue 1), (1, Continue 2), (0, Continue 3)]"

theorem one_leader_witness:
  "\<exists>w changes after. run_cluster insertion_orders 900 10 60 sample_schedule
         (new_cluster sample_subscribers \<lparr>sxs_node_id = ''n'', sxs_subscriptions = []\<rparr>) = Some w
     \<and> co_pc (cl_nodes w 0) = Distributing 1 changes
     \<and> map ch_type changes = [ADD, ADD]
     \<and> subscription_apply changes (cl_subscriptions w) = (after, Inr ())
     \<and> co_status (cl_nodes w 1) \<noteq> RUNNING"
proof -
  let ?run = "run_cluster insertion_orders 900 10 60 sample_schedule
    (new_cluster sample_subscribers \<lparr>sxs_node_id = ''n'', sxs_subscriptions = []\<rparr>)"
  have "subscribers_wf sample_subscribers" by code_simp
  note start = cluster_reachable.start [OF this, of insertion_orders 900 60 "''n''"]
  have eval: "case ?run of None \<Rightarrow> False
    | Some w \<Rightarrow> (case co_pc (cl_nodes w 0) of
          Distributing acquired changes \<Rightarrow> acquired = 1 \<and> map ch_type changes = [ADD, ADD] | _ \<Rightarrow> False)
        \<and> co_status (cl_nodes w 0) = RUNNING" by code_simp
  then obtain w where w: "?run = Some w" "co_status (cl_nodes w 0) = RUNNING"
    and pc: "case co_pc (cl_nodes w 0) of
          Distributing acquired changes \<Rightarrow> acquired = 1 \<and> map ch_type changes = [ADD, ADD] | _ \<Rightarrow> False"
    by (auto split: option.splits)
  obtain changes where changes: "co_pc (cl_nodes w 0) = Distributing 1 changes" "map ch_type changes = [ADD, ADD]"
    using pc by (auto split: coordinator_pc.splits)
  note leader = one_leader [OF insertion_orders_ok run_cluster_reachable [OF start w(1)]]
  show ?thesis using leader w changes by (metis zero_neq_one)
qed

subsection \<open>The timeout of locks/postgres.py\<close>

text \<open>
  \<open>timeout.microseconds / 1000 if timeout else 0\<close>, in microseconds rather than milliseconds: the
  server waits forever on 0. \<open>timedelta.microseconds\<close> is the part below a second, and a zero
  \<open>timedelta\<close> is false.
\<close>

definition lock_timeout_micros :: "timedelta option \<Rightarrow> int" where
  "lock_timeout_micros timeout =
     (case timeout of None \<Rightarrow> 0 | Some t \<Rightarrow> if t \<noteq> 0 then t mod 1000000 else 0)"

text \<open>A timeout of whole seconds is no timeout; one below a second is what was asked for.\<close>

lemma lock_timeout_seconds: "lock_timeout_micros (Some (seconds * 1000000)) = 0"
  by (simp add: lock_timeout_micros_def)

lemma lock_timeout_below: "0 \<le> t \<Longrightarrow> t < 1000000 \<Longrightarrow> lock_timeout_micros (Some t) = t"
  by (simp add: lock_timeout_micros_def)

end
