(* ===== verification/Error_Handling.thy ===== *)
theory Error_Handling
  imports Py_Prelude
begin

section \<open>Error handling of services\<close>

text \<open>
  Models \<open>processing/services/error.py\<close>: decisions, handlers, the type mappings that choose a
  handler by the class of an exception, and the loop of a service that retries until a decision
  ends it.

  An exception has a class and arguments. The linearised ancestors of a class, \<open>__mro__\<close>, are the
  parameter \<open>mro\<close>. Callbacks, factories and the service itself are the user's: functions that
  change a state of type \<open>'s\<close> and may raise.
\<close>

record py_exception =
  ex_class :: string
  ex_args :: "string list"
  ex_code :: int

type_synonym ('s, 'r) outcome = "'s \<times> (py_exception + 'r)"

type_synonym ('s, 'r) user_fun = "py_exception \<Rightarrow> 's \<Rightarrow> ('s, 'r) outcome"

definition call_bind :: "('s, 'r) outcome \<Rightarrow> ('r \<Rightarrow> 's \<Rightarrow> ('s, 'q) outcome) \<Rightarrow> ('s, 'q) outcome" where
  "call_bind r f = (case r of (s, Inl e) \<Rightarrow> (s, Inl e) | (s, Inr x) \<Rightarrow> f x s)"

definition is_exception :: "(string \<Rightarrow> string list) \<Rightarrow> py_exception \<Rightarrow> bool" where
  \<comment> \<open>\<open>isinstance(exception, Exception)\<close>\<close>
  "is_exception mro e \<longleftrightarrow> ''Exception'' \<in> set (mro (ex_class e))"

definition system_exit :: "int \<Rightarrow> py_exception" where
  "system_exit code = \<lparr>ex_class = ''SystemExit'', ex_args = [], ex_code = code\<rparr>"

definition value_error :: "string \<Rightarrow> py_exception" where
  "value_error message = \<lparr>ex_class = ''ValueError'', ex_args = [message], ex_code = 0\<rparr>"

subsection \<open>Decisions and handlers\<close>

text \<open>\<open>UnknownDecision\<close> stands for a decision of another class than the library's four.\<close>

datatype 'a error_decision =
    ExitErrorHandlerDecision int
  | RaiseErrorHandlerDecision py_exception
  | ContinueErrorHandlerDecision 'a
  | RetryErrorHandlerDecision
  | UnknownDecision

text \<open>
  \<open>ErrorHandlingDefinition\<close> is a handler with its callback. \<open>OtherErrorHandler\<close> stands for a
  handler class of the user's.
\<close>

datatype ('s, 'a) error_handler =
    ExitErrorHandler "('s, int) user_fun"
  | RaiseErrorHandler "('s, py_exception) user_fun option"
  | ContinueErrorHandler "('s, 'a) user_fun"
  | RetryErrorHandler
  | TypeMappingErrorHandler
      "(string \<times> ('s, 'a) error_handler \<times> ('s, unit) user_fun) list" "('s, 'a) error_handler"
  | OtherErrorHandler "('s, 'a error_decision) user_fun"

type_synonym ('s, 'a) handling_definition = "('s, 'a) error_handler \<times> ('s, unit) user_fun"

type_synonym ('s, 'a) type_mappings = "(string, ('s, 'a) handling_definition) dict"

definition default_exit_code_factory :: "('s, int) user_fun" where
  "default_exit_code_factory e s = (s, Inr 1)"

definition default_exception_factory :: "('s, py_exception) user_fun" where
  "default_exception_factory e s = (s, Inr e)"

definition no_callback :: "('s, unit) user_fun" where
  "no_callback e s = (s, Inr ())"

text \<open>The first class of the list that is mapped\<close>

fun first_mapped :: "string list \<Rightarrow> (string, 'd) dict \<Rightarrow> 'd option" where
  "first_mapped [] mappings = None"
| "first_mapped (c # cs) mappings =
     (case map_of mappings c of Some d \<Rightarrow> Some d | None \<Rightarrow> first_mapped cs mappings)"

lemma first_mapped_in: "first_mapped cs mappings = Some d \<Longrightarrow> \<exists>c \<in> set cs. map_of mappings c = Some d"
  by (induction cs) (auto split: option.splits)

lemma first_mapped_size [termination_simp]:
  assumes "first_mapped cs mappings = Some (h, cb)"
  shows "size h < Suc (size_list (\<lambda>x. Suc (Suc (size (fst (snd x))))) mappings + n)"
proof -
  obtain c where "(c, h, cb) \<in> set mappings" using first_mapped_in [OF assms] by (auto dest: map_of_SomeD)
  then show ?thesis by (induction mappings) auto
qed

fun handle :: "(string \<Rightarrow> string list) \<Rightarrow> ('s, 'a) error_handler \<Rightarrow> ('s, 'a error_decision) user_fun" where
  "handle mro (ExitErrorHandler exit_code_factory) e s =
     call_bind (exit_code_factory e s) (\<lambda>code s. (s, Inr (ExitErrorHandlerDecision code)))"
| "handle mro (RaiseErrorHandler exception_factory) e s =
     call_bind (case exception_factory of None \<Rightarrow> (s, Inr e) | Some factory \<Rightarrow> factory e s)
       (\<lambda>resolved s. (s, Inr (RaiseErrorHandlerDecision resolved)))"
| "handle mro (ContinueErrorHandler value_factory) e s =
     (if is_exception mro e
      then call_bind (value_factory e s) (\<lambda>value s. (s, Inr (ContinueErrorHandlerDecision value)))
      else (s, Inr (RaiseErrorHandlerDecision e)))"
| "handle mro RetryErrorHandler e s =
     (if is_exception mro e then (s, Inr RetryErrorHandlerDecision)
      else (s, Inr (RaiseErrorHandlerDecision e)))"
| "handle mro (TypeMappingErrorHandler type_mappings default_error_handler) e s =
     (case first_mapped (mro (ex_class e)) type_mappings of
        Some (handler, callback) \<Rightarrow> call_bind (callback e s) (\<lambda>_ s. handle mro handler e s)
      | None \<Rightarrow> handle mro default_error_handler e s)"
| "handle mro (OtherErrorHandler h) e s = h e s"

subsection \<open>The service loop\<close>

definition execute_once ::
  "(string \<Rightarrow> string list) \<Rightarrow> ('s, 'a) error_handler \<Rightarrow> ('s \<Rightarrow> ('s, 'a) outcome) \<Rightarrow> 's
    \<Rightarrow> 's \<times> (py_exception + 'a) option" where
  \<comment> \<open>the body of the loop: \<open>None\<close> to go around again\<close>
  "execute_once mro error_handler do_execute s =
     (case do_execute s of
        (s, Inr value) \<Rightarrow> (s, Some (Inr value))
      | (s, Inl e) \<Rightarrow>
          (case handle mro error_handler e s of
             (s, Inl e') \<Rightarrow> (s, Some (Inl e'))
           | (s, Inr (RaiseErrorHandlerDecision e')) \<Rightarrow> (s, Some (Inl e'))
           | (s, Inr (ContinueErrorHandlerDecision value)) \<Rightarrow> (s, Some (Inr value))
           | (s, Inr (ExitErrorHandlerDecision code)) \<Rightarrow> (s, Some (Inl (system_exit code)))
           | (s, Inr RetryErrorHandlerDecision) \<Rightarrow> (s, None)
           | (s, Inr UnknownDecision) \<Rightarrow> (s, Some (Inl (value_error ''Unknown error handler decision'')))))"

partial_function (option) execute_service ::
  "(string \<Rightarrow> string list) \<Rightarrow> ('s, 'a) error_handler \<Rightarrow> ('s \<Rightarrow> ('s, 'a) outcome) \<Rightarrow> 's
    \<Rightarrow> ('s, 'a) outcome option" where
  "execute_service mro error_handler do_execute s =
     (case execute_once mro error_handler do_execute s of
        (s', Some r) \<Rightarrow> Some (s', r)
      | (s', None) \<Rightarrow> execute_service mro error_handler do_execute s')"

subsection \<open>Type mappings\<close>

text \<open>
  What a user gives for one kind of decision: nothing, a sequence of classes, or a dictionary of
  classes with, not necessarily, a callback and a factory.
\<close>

datatype ('s, 'r) mapping_value =
    NoMapping
  | TypeSequence "string list"
  | MappingDict "string list" "('s, unit) user_fun option" "('s, 'r) user_fun option"

record ('s, 'r) type_mapping_dict =
  tm_types :: "string list"
  tm_callback :: "('s, unit) user_fun"
  tm_factory :: "('s, 'r) user_fun"

fun resolve_exception_types :: "('s, 'r) mapping_value \<Rightarrow> string list" where
  "resolve_exception_types (TypeSequence types) = types"
| "resolve_exception_types NoMapping = []"
| "resolve_exception_types (MappingDict types callback factory) = types"

fun resolve_callback :: "('s, 'r) mapping_value \<Rightarrow> ('s, unit) user_fun res" where
  "resolve_callback (MappingDict types callback factory) =
     (case callback of None \<Rightarrow> Inl (KeyError ''callback'') | Some c \<Rightarrow> Inr c)"
| "resolve_callback _ = Inr no_callback"

definition resolved_dict ::
  "('s, 'r) mapping_value \<Rightarrow> ('s, 'r) user_fun res \<Rightarrow> ('s, 'r) type_mapping_dict option res" where
  "resolved_dict v factory =
     res_bind (resolve_callback v) (\<lambda>callback. res_bind factory (\<lambda>factory.
       Inr (Some \<lparr>tm_types = resolve_exception_types v, tm_callback = callback, tm_factory = factory\<rparr>)))"

fun factory_or :: "string \<Rightarrow> ('s, 'r) user_fun res \<Rightarrow> ('s, 'r) mapping_value \<Rightarrow> ('s, 'r) user_fun res" where
  "factory_or key otherwise (MappingDict types callback factory) =
     (case factory of None \<Rightarrow> Inl (KeyError key) | Some f \<Rightarrow> Inr f)"
| "factory_or key otherwise _ = otherwise"

definition resolve_exit_fatally_type_mapping_dict ::
  "('s, int) mapping_value \<Rightarrow> ('s, int) type_mapping_dict option res" where
  "resolve_exit_fatally_type_mapping_dict v =
     (case v of
        NoMapping \<Rightarrow> Inr None
      | _ \<Rightarrow> resolved_dict v (factory_or ''exit_code_factory'' (Inr default_exit_code_factory) v))"

definition resolve_raise_exception_type_mapping_dict ::
  "('s, py_exception) mapping_value \<Rightarrow> ('s, py_exception) type_mapping_dict option res" where
  "resolve_raise_exception_type_mapping_dict v =
     (case v of
        NoMapping \<Rightarrow> Inr None
      | _ \<Rightarrow> resolved_dict v (factory_or ''exception_factory'' (Inr default_exception_factory) v))"

definition resolve_continue_execution_type_mapping_dict ::
  "('s, 'a) mapping_value \<Rightarrow> ('s, 'a) type_mapping_dict option res" where
  \<comment> \<open>a sequence has no item \<open>"value_factory"\<close>\<close>
  "resolve_continue_execution_type_mapping_dict v =
     (case v of
        NoMapping \<Rightarrow> Inr None
      | _ \<Rightarrow> resolved_dict v (factory_or ''value_factory''
             (Inl (TypeError ''list indices must be integers or slices, not str'')) v))"

definition resolve_retry_execution_type_mapping_dict ::
  "('s, unit) mapping_value \<Rightarrow> ('s, unit) type_mapping_dict option res" where
  "resolve_retry_execution_type_mapping_dict v =
     (case v of NoMapping \<Rightarrow> Inr None | _ \<Rightarrow> resolved_dict v (Inr no_callback))"

text \<open>\<open>{exception_type: ErrorHandlingDefinition(...) for exception_type in types}\<close>\<close>

definition definitions_of ::
  "(('s, 'r) user_fun \<Rightarrow> ('s, 'a) error_handler) \<Rightarrow> ('s, 'r) type_mapping_dict option
    \<Rightarrow> ('s, 'a) type_mappings" where
  "definitions_of handler d =
     (case d of
        None \<Rightarrow> []
      | Some d \<Rightarrow> fold (\<lambda>c. AList.update c (handler (tm_factory d), tm_callback d)) (tm_types d) [])"

definition resolve_exit_fatally_type_mappings :: "('s, int) mapping_value \<Rightarrow> ('s, 'a) type_mappings res" where
  "resolve_exit_fatally_type_mappings v =
     res_bind (resolve_exit_fatally_type_mapping_dict v) (\<lambda>d. Inr (definitions_of ExitErrorHandler d))"

definition resolve_raise_exception_type_mappings ::
  "('s, py_exception) mapping_value \<Rightarrow> ('s, 'a) type_mappings res" where
  "resolve_raise_exception_type_mappings v =
     res_bind (resolve_raise_exception_type_mapping_dict v)
       (\<lambda>d. Inr (definitions_of (\<lambda>f. RaiseErrorHandler (Some f)) d))"

definition resolve_continue_execution_type_mappings ::
  "('s, 'a) mapping_value \<Rightarrow> ('s, 'a) type_mappings res" where
  "resolve_continue_execution_type_mappings v =
     res_bind (resolve_continue_execution_type_mapping_dict v)
       (\<lambda>d. Inr (definitions_of ContinueErrorHandler d))"

definition resolve_retry_execution_type_mappings :: "('s, unit) mapping_value \<Rightarrow> ('s, 'a) type_mappings res" where
  "resolve_retry_execution_type_mappings v =
     res_bind (resolve_retry_execution_type_mapping_dict v)
       (\<lambda>d. Inr (definitions_of (\<lambda>_. RetryErrorHandler) d))"

text \<open>\<open>{**a, **b}\<close>\<close>

definition dict_merge :: "('k, 'v) dict \<Rightarrow> ('k, 'v) dict \<Rightarrow> ('k, 'v) dict" where
  "dict_merge a b = fold (\<lambda>(k, v). AList.update k v) b a"

definition error_handler_type_mappings ::
  "('s, int) mapping_value \<Rightarrow> ('s, py_exception) mapping_value \<Rightarrow> ('s, 'a) mapping_value
    \<Rightarrow> ('s, unit) mapping_value \<Rightarrow> ('s, 'a) type_mappings res" where
  "error_handler_type_mappings exit_fatally raise_exception continue_execution retry_execution =
     res_bind (resolve_exit_fatally_type_mappings exit_fatally) (\<lambda>a.
     res_bind (resolve_raise_exception_type_mappings raise_exception) (\<lambda>b.
     res_bind (resolve_continue_execution_type_mappings continue_execution) (\<lambda>c.
     res_bind (resolve_retry_execution_type_mappings retry_execution) (\<lambda>d.
       Inr (dict_merge (dict_merge (dict_merge (dict_merge [] a) b) c) d)))))"

text \<open>The functions that make the dictionaries; \<open>exit_code_factory\<close> has a default.\<close>

definition callback_or_none :: "('s, unit) user_fun option \<Rightarrow> ('s, unit) user_fun" where
  "callback_or_none callback = (case callback of None \<Rightarrow> no_callback | Some c \<Rightarrow> c)"

definition exit_fatally_type_mapping ::
  "string list \<Rightarrow> ('s, int) user_fun option \<Rightarrow> ('s, unit) user_fun option \<Rightarrow> ('s, int) mapping_value" where
  "exit_fatally_type_mapping types exit_code_factory callback =
     MappingDict types (Some (callback_or_none callback))
       (Some (case exit_code_factory of None \<Rightarrow> default_exit_code_factory | Some f \<Rightarrow> f))"

definition raise_exception_type_mapping ::
  "string list \<Rightarrow> ('s, py_exception) user_fun \<Rightarrow> ('s, unit) user_fun option
    \<Rightarrow> ('s, py_exception) mapping_value" where
  "raise_exception_type_mapping types exception_factory callback =
     MappingDict types (Some (callback_or_none callback)) (Some exception_factory)"

definition continue_execution_type_mapping ::
  "string list \<Rightarrow> ('s, 'a) user_fun \<Rightarrow> ('s, unit) user_fun option \<Rightarrow> ('s, 'a) mapping_value" where
  "continue_execution_type_mapping types value_factory callback =
     MappingDict types (Some (callback_or_none callback)) (Some value_factory)"

definition retry_execution_type_mapping ::
  "string list \<Rightarrow> ('s, unit) user_fun option \<Rightarrow> ('s, unit) mapping_value" where
  "retry_execution_type_mapping types callback = MappingDict types (Some (callback_or_none callback)) None"

subsection \<open>What a mapping decides\<close>

lemma map_of_fold_update:
  "map_of (fold (\<lambda>c. AList.update c d) cs m) c = (if c \<in> set cs then Some d else map_of m c)"
  by (induction cs arbitrary: m) auto

lemma map_of_definitions:
  "map_of (definitions_of handler d) c =
     (case d of None \<Rightarrow> None
      | Some d \<Rightarrow> if c \<in> set (tm_types d) then Some (handler (tm_factory d), tm_callback d) else None)"
  by (simp add: definitions_of_def map_of_fold_update split: option.split)

lemma wf_fold_update: "wf_dict m \<Longrightarrow> wf_dict (fold (\<lambda>c. AList.update c d) cs m)"
  by (induction cs arbitrary: m) auto

lemma wf_definitions: "wf_dict (definitions_of handler d)"
  by (simp add: definitions_of_def wf_fold_update split: option.split)

lemma map_of_merge:
  "wf_dict b \<Longrightarrow> map_of (dict_merge a b) c = (case map_of b c of None \<Rightarrow> map_of a c | Some v \<Rightarrow> Some v)"
proof (induction b arbitrary: a)
  case (Cons p b)
  obtain k v where p: "p = (k, v)" by (cases p)
  have fresh: "map_of b k = None" using Cons.prems by (auto simp: p wf_dict_def dict_keys_def map_of_eq_None_iff)
  have merge: "dict_merge a ((k, v) # b) = dict_merge (AList.update k v a) b" by (simp add: dict_merge_def)
  show ?case
    using Cons.IH [of "AList.update k v a"] Cons.prems fresh
    by (auto simp: merge p wf_dict_def dict_keys_def split: option.split)
qed (simp add: dict_merge_def)

lemma map_of_merge_if:
  "wf_dict b \<and> map_of b c = (if P then Some v else None)
    \<Longrightarrow> map_of (dict_merge a b) c = (if P then Some v else map_of a c)"
  by (simp add: map_of_merge)

lemma first_mapped_find:
  "first_mapped cs mappings =
     (case find (\<lambda>c. map_of mappings c \<noteq> None) cs of None \<Rightarrow> None | Some c \<Rightarrow> map_of mappings c)"
  by (induction cs) (auto split: option.splits)

text \<open>What is given, with the defaults where it is not; which gifts are complete.\<close>

fun given_callback :: "('s, 'r) mapping_value \<Rightarrow> ('s, unit) user_fun" where
  "given_callback (MappingDict types (Some callback) factory) = callback"
| "given_callback _ = no_callback"

fun given_factory :: "('s, 'r) user_fun \<Rightarrow> ('s, 'r) mapping_value \<Rightarrow> ('s, 'r) user_fun" where
  "given_factory otherwise (MappingDict types callback (Some factory)) = factory"
| "given_factory otherwise _ = otherwise"

fun has_callback :: "('s, 'r) mapping_value \<Rightarrow> bool" where
  "has_callback (MappingDict types callback factory) \<longleftrightarrow> callback \<noteq> None"
| "has_callback _ \<longleftrightarrow> True"

fun has_factory :: "('s, 'r) mapping_value \<Rightarrow> bool" where
  "has_factory (MappingDict types callback factory) \<longleftrightarrow> factory \<noteq> None"
| "has_factory _ \<longleftrightarrow> True"

fun is_sequence :: "('s, 'r) mapping_value \<Rightarrow> bool" where
  "is_sequence (TypeSequence types) \<longleftrightarrow> True"
| "is_sequence _ \<longleftrightarrow> False"

definition policy ::
  "('s, int) mapping_value \<Rightarrow> ('s, py_exception) mapping_value \<Rightarrow> ('s, 'a) mapping_value
    \<Rightarrow> ('s, unit) mapping_value \<Rightarrow> string \<Rightarrow> ('s, 'a) handling_definition option" where
  "policy exit_fatally raise_exception continue_execution retry_execution c =
     (if c \<in> set (resolve_exception_types retry_execution)
      then Some (RetryErrorHandler, given_callback retry_execution)
      else if c \<in> set (resolve_exception_types continue_execution)
      then Some (ContinueErrorHandler (given_factory undefined continue_execution), given_callback continue_execution)
      else if c \<in> set (resolve_exception_types raise_exception)
      then Some (RaiseErrorHandler (Some (given_factory default_exception_factory raise_exception)),
                 given_callback raise_exception)
      else if c \<in> set (resolve_exception_types exit_fatally)
      then Some (ExitErrorHandler (given_factory default_exit_code_factory exit_fatally), given_callback exit_fatally)
      else None)"

lemmas resolve_dict_defs = resolve_exit_fatally_type_mapping_dict_def resolve_raise_exception_type_mapping_dict_def
  resolve_continue_execution_type_mapping_dict_def resolve_retry_execution_type_mapping_dict_def
  resolve_exit_fatally_type_mappings_def resolve_raise_exception_type_mappings_def
  resolve_continue_execution_type_mappings_def resolve_retry_execution_type_mappings_def

text \<open>Each kind of decision: when its mappings resolve, and to what.\<close>

lemma exit_mappings:
  "is_ok (resolve_exit_fatally_type_mappings v) \<longleftrightarrow> has_callback v \<and> has_factory v"
  "resolve_exit_fatally_type_mappings v = Inr m \<Longrightarrow> wf_dict m \<and> map_of m c =
     (if c \<in> set (resolve_exception_types v)
      then Some (ExitErrorHandler (given_factory default_exit_code_factory v), given_callback v) else None)"
  by (cases v; auto simp: resolve_dict_defs resolved_dict_def map_of_definitions wf_definitions is_ok_iff
      split: option.splits)+

lemma raise_mappings:
  "is_ok (resolve_raise_exception_type_mappings v) \<longleftrightarrow> has_callback v \<and> has_factory v"
  "resolve_raise_exception_type_mappings v = Inr m \<Longrightarrow> wf_dict m \<and> map_of m c =
     (if c \<in> set (resolve_exception_types v)
      then Some (RaiseErrorHandler (Some (given_factory default_exception_factory v)), given_callback v) else None)"
  by (cases v; auto simp: resolve_dict_defs resolved_dict_def map_of_definitions wf_definitions is_ok_iff
      split: option.splits)+

lemma continue_mappings:
  "is_ok (resolve_continue_execution_type_mappings v) \<longleftrightarrow> has_callback v \<and> has_factory v \<and> \<not> is_sequence v"
  "resolve_continue_execution_type_mappings v = Inr m \<Longrightarrow> wf_dict m \<and> map_of m c =
     (if c \<in> set (resolve_exception_types v)
      then Some (ContinueErrorHandler (given_factory undefined v), given_callback v) else None)"
  by (cases v; auto simp: resolve_dict_defs resolved_dict_def map_of_definitions wf_definitions is_ok_iff
      split: option.splits)+

lemma retry_mappings:
  "is_ok (resolve_retry_execution_type_mappings v) \<longleftrightarrow> has_callback v"
  "resolve_retry_execution_type_mappings v = Inr m \<Longrightarrow> wf_dict m \<and> map_of m c =
     (if c \<in> set (resolve_exception_types v) then Some (RetryErrorHandler, given_callback v) else None)"
  by (cases v; auto simp: resolve_dict_defs resolved_dict_def map_of_definitions wf_definitions is_ok_iff
      split: option.splits)+

lemma map_of_mappings:
  assumes "error_handler_type_mappings exit_fatally raise_exception continue_execution retry_execution = Inr mappings"
  shows "map_of mappings = policy exit_fatally raise_exception continue_execution retry_execution"
proof
  fix c
  obtain a b d e where m: "resolve_exit_fatally_type_mappings exit_fatally = Inr a"
      "resolve_raise_exception_type_mappings raise_exception = Inr b"
      "resolve_continue_execution_type_mappings continue_execution = Inr d"
      "resolve_retry_execution_type_mappings retry_execution = Inr e"
    and mappings: "mappings = dict_merge (dict_merge (dict_merge (dict_merge [] a) b) d) e"
    using assms by (auto simp: error_handler_type_mappings_def)
  note parts = exit_mappings(2) [OF m(1), of c] raise_mappings(2) [OF m(2), of c]
    continue_mappings(2) [OF m(3), of c] retry_mappings(2) [OF m(4), of c]
  note merged = parts [THEN map_of_merge_if]
  show "map_of mappings c = policy exit_fatally raise_exception continue_execution retry_execution c"
    unfolding mappings policy_def merged map_of.simps ..
qed

lemma is_ok_bind: "(\<And>x. is_ok (f x) \<longleftrightarrow> P) \<Longrightarrow> is_ok (res_bind r f) \<longleftrightarrow> is_ok r \<and> P"
  by (cases r) auto

lemma mappings_ok:
  "is_ok (error_handler_type_mappings exit_fatally raise_exception continue_execution retry_execution) \<longleftrightarrow>
     has_callback exit_fatally \<and> has_factory exit_fatally \<and> has_callback raise_exception \<and> has_factory raise_exception
     \<and> has_callback continue_execution \<and> has_factory continue_execution \<and> \<not> is_sequence continue_execution
     \<and> has_callback retry_execution"
  unfolding error_handler_type_mappings_def
  by (rule trans, (rule is_ok_bind)+, rule is_ok_simps(1) [THEN eqTrueI])
    (auto simp: exit_mappings(1) raise_mappings(1) continue_mappings(1) retry_mappings(1))

text \<open>
  C30. The mappings of a service resolve exactly when every dictionary given has its callback, and
  its factory where the kind uses one, and the continue mapping is a dictionary. Then an exception
  is decided by the nearest of its ancestors that any kind names: the first in \<open>__mro__\<close>. For a
  class that several kinds name, retry goes before continue, continue before raise and raise
  before exit. The callback runs once, before the handler, and an exception that it raises takes the
  place of the decision. An exception without a named ancestor goes to the default handler.
\<close>

theorem mapped_handling:
  fixes exit_fatally :: "('s, int) mapping_value" and continue_execution :: "('s, 'a) mapping_value"
  shows "(is_ok (error_handler_type_mappings exit_fatally raise_exception continue_execution retry_execution) \<longleftrightarrow>
      has_callback exit_fatally \<and> has_factory exit_fatally \<and> has_callback raise_exception \<and> has_factory raise_exception
      \<and> has_callback continue_execution \<and> has_factory continue_execution \<and> \<not> is_sequence continue_execution
      \<and> has_callback retry_execution)
    \<and> (\<forall>mappings. error_handler_type_mappings exit_fatally raise_exception continue_execution retry_execution
          = Inr mappings \<longrightarrow>
        handle mro (TypeMappingErrorHandler mappings default_error_handler) e s =
          (case find (\<lambda>c. policy exit_fatally raise_exception continue_execution retry_execution c \<noteq> None)
                  (mro (ex_class e)) of
             None \<Rightarrow> handle mro default_error_handler e s
           | Some c \<Rightarrow>
               (case the (policy exit_fatally raise_exception continue_execution retry_execution c) of
                  (handler, callback) \<Rightarrow> call_bind (callback e s) (\<lambda>_ s. handle mro handler e s))))"
proof (intro conjI allI impI)
  let ?policy = "policy exit_fatally raise_exception continue_execution retry_execution"
  fix mappings
  assume m: "error_handler_type_mappings exit_fatally raise_exception continue_execution retry_execution = Inr mappings"
  have "?policy c \<noteq> None" if "find (\<lambda>c. ?policy c \<noteq> None) (mro (ex_class e)) = Some c" for c
    using find_SomeD [OF that] by blast
  then show "handle mro (TypeMappingErrorHandler mappings default_error_handler) e s =
      (case find (\<lambda>c. ?policy c \<noteq> None) (mro (ex_class e)) of
         None \<Rightarrow> handle mro default_error_handler e s
       | Some c \<Rightarrow> (case the (?policy c) of
           (handler, callback) \<Rightarrow> call_bind (callback e s) (\<lambda>_ s. handle mro handler e s)))"
    unfolding handle.simps first_mapped_find map_of_mappings [OF m] by (fastforce split: option.split prod.split)
qed (rule mappings_ok)

text \<open>A class whose ancestors are given, for the witnesses\<close>

definition sample_mro :: "string \<Rightarrow> string list" where
  "sample_mro c =
     (if c = ''KeyError'' then [''KeyError'', ''LookupError'', ''Exception'', ''BaseException'', ''object'']
      else if c = ''CancelledError'' then [''CancelledError'', ''BaseException'', ''object'']
      else [c, ''Exception'', ''BaseException'', ''object''])"

definition sample_error :: "string \<Rightarrow> py_exception" where
  "sample_error c = \<lparr>ex_class = c, ex_args = [], ex_code = 0\<rparr>"

definition sample_mappings :: "(string list, nat) type_mappings res" where
  "sample_mappings = error_handler_type_mappings (TypeSequence [''BaseException'', ''LookupError''])
     (TypeSequence [''Exception'']) NoMapping
     (retry_execution_type_mapping [''LookupError''] (Some (\<lambda>e s. (s @ [ex_class e], Inr ()))))"

theorem mapped_handling_witness:
  "case sample_mappings of
     Inl _ \<Rightarrow> False
   | Inr mappings \<Rightarrow>
       handle sample_mro (TypeMappingErrorHandler mappings (RaiseErrorHandler None)) (sample_error ''KeyError'') []
         = ([''KeyError''], Inr RetryErrorHandlerDecision)
       \<and> handle sample_mro (TypeMappingErrorHandler mappings (RaiseErrorHandler None)) (sample_error ''CancelledError'') []
         = ([], Inr (ExitErrorHandlerDecision 1))"
proof -
  have "is_ok sample_mappings"
    unfolding sample_mappings_def by (simp add: conjunct1 [OF mapped_handling] retry_execution_type_mapping_def)
  then obtain mappings where m: "sample_mappings = Inr mappings" by (auto simp: is_ok_iff)
  note rule = conjunct2 [OF mapped_handling, rule_format, OF m [unfolded sample_mappings_def], of sample_mro]
  show ?thesis
    unfolding m sum.case rule
    by (simp add: sample_mro_def sample_error_def policy_def retry_execution_type_mapping_def callback_or_none_def
        call_bind_def is_exception_def no_callback_def default_exit_code_factory_def)
qed

subsection \<open>What the loop of a service comes to\<close>

text \<open>The state after a number of attempts that were all to be retried\<close>

fun retried ::
  "(string \<Rightarrow> string list) \<Rightarrow> ('s, 'a) error_handler \<Rightarrow> ('s \<Rightarrow> ('s, 'a) outcome) \<Rightarrow> nat \<Rightarrow> 's \<Rightarrow> 's option" where
  "retried mro h do_execute 0 s = Some s"
| "retried mro h do_execute (Suc n) s =
     (case execute_once mro h do_execute s of (s', None) \<Rightarrow> retried mro h do_execute n s' | (s', Some r) \<Rightarrow> None)"

text \<open>Handlers that are made of the library's own\<close>

fun library_handler :: "('s, 'a) error_handler \<Rightarrow> bool" where
  "library_handler (OtherErrorHandler h) \<longleftrightarrow> False"
| "library_handler (TypeMappingErrorHandler mappings default_error_handler) \<longleftrightarrow>
     list_all (\<lambda>(c, h, callback). library_handler h) mappings \<and> library_handler default_error_handler"
| "library_handler _ \<longleftrightarrow> True"

lemma retried_executes:
  "retried mro h do_execute n s = Some s' \<Longrightarrow> execute_service mro h do_execute s = execute_service mro h do_execute s'"
proof (induction n arbitrary: s)
  case (Suc n)
  then obtain s1 where "execute_once mro h do_execute s = (s1, None)" "retried mro h do_execute n s1 = Some s'"
    by (auto split: prod.splits option.splits)
  then show ?case using Suc.IH [of s1] by (simp add: execute_service.simps [of mro h do_execute s])
qed simp

lemma retried_Suc:
  "retried mro h do_execute n s = Some s1 \<Longrightarrow> retried mro h do_execute (Suc n) s =
     (case execute_once mro h do_execute s1 of (s2, None) \<Rightarrow> Some s2 | (s2, Some r) \<Rightarrow> None)"
proof (induction n arbitrary: s)
  case (Suc n)
  then obtain s' where "execute_once mro h do_execute s = (s', None)" "retried mro h do_execute n s' = Some s1"
    by (auto split: prod.splits option.splits)
  then show ?case using Suc.IH [of s'] by simp
qed simp

lemma executed_retried:
  assumes "execute_service mro h do_execute s = Some r"
  shows "\<exists>n s'. retried mro h do_execute n s = Some s' \<and> execute_once mro h do_execute s' = (fst r, Some (snd r))"
proof (rule execute_service.raw_induct [where P = "\<lambda>mro h do_execute s r. \<exists>n s'.
      retried mro h do_execute n s = Some s' \<and> execute_once mro h do_execute s' = (fst r, Some (snd r))", OF _ assms])
  fix rec mro h do_execute s r
  assume IH: "\<And>mro h do_execute s r. rec mro h do_execute s = Some r
      \<Longrightarrow> \<exists>n s'. retried mro h do_execute n s = Some s' \<and> execute_once mro h do_execute s' = (fst r, Some (snd r))"
    and eq: "(case execute_once mro h do_execute s of (s', None) \<Rightarrow> rec mro h do_execute s'
      | (s', Some r) \<Rightarrow> Some (s', r)) = Some r"
  obtain s1 o1 where once: "execute_once mro h do_execute s = (s1, o1)" by fastforce
  show "\<exists>n s'. retried mro h do_execute n s = Some s' \<and> execute_once mro h do_execute s' = (fst r, Some (snd r))"
  proof (cases o1)
    case None
    then obtain n s' where "retried mro h do_execute n s1 = Some s'"
      "execute_once mro h do_execute s' = (fst r, Some (snd r))" using IH [of mro h do_execute s1 r] eq once by auto
    then show ?thesis using once None by (intro exI [of _ "Suc n"] exI [of _ s']) simp
  next
    case (Some v)
    then show ?thesis using eq once by (intro exI [of _ 0] exI [of _ s]) auto
  qed
qed

lemma first_mapped_handler:
  "first_mapped cs mappings = Some (handler, callback) \<Longrightarrow> list_all (\<lambda>(c, h, callback). P h) mappings \<Longrightarrow> P handler"
  by (auto simp: list_all_iff dest!: first_mapped_in map_of_SomeD)

lemma library_handler_final:
  "library_handler h \<Longrightarrow> \<not> is_exception mro e \<Longrightarrow> handle mro h e s = (s', Inr d)
    \<Longrightarrow> (\<exists>code. d = ExitErrorHandlerDecision code) \<or> (\<exists>e'. d = RaiseErrorHandlerDecision e')"
proof (induction mro h e s arbitrary: s' d rule: handle.induct)
  case (5 mro mappings h e s)
  show ?case
  proof (cases "first_mapped (mro (ex_class e)) mappings")
    case None
    then show ?thesis using 5 by simp
  next
    case (Some p)
    obtain handler callback where p: "p = (handler, callback)" by (cases p)
    have "library_handler handler"
      using first_mapped_handler [OF Some [unfolded p], of library_handler] "5.prems"(1) by simp
    then show ?thesis using 5 Some p by (auto simp: call_bind_def split: prod.splits sum.splits)
  qed
qed (auto simp: call_bind_def split: prod.splits sum.splits option.splits)

text \<open>
  C31. A service ends exactly when some attempt is not to be retried, and then with what the first
  such attempt decides: a value returned, or an exception raised (\<open>SystemExit\<close> for an exit).
  Otherwise it goes on for ever. Where the handlers are the library's, however their mappings are
  nested, an exception outside \<open>Exception\<close>, such as a cancellation, always ends the service with an
  exception: it is neither retried nor replaced by a value.
\<close>

theorem service_execution:
  "(\<forall>s' r. execute_service mro h do_execute s = Some (s', r) \<longleftrightarrow>
      (\<exists>n s1. retried mro h do_execute n s = Some s1 \<and> execute_once mro h do_execute s1 = (s', Some r)))
   \<and> (execute_service mro h do_execute s = None \<longleftrightarrow> (\<forall>n. retried mro h do_execute n s \<noteq> None))
   \<and> (library_handler h \<longrightarrow> (\<forall>n s1 s2 e. retried mro h do_execute n s = Some s1 \<and> do_execute s1 = (s2, Inl e)
        \<and> \<not> is_exception mro e \<longrightarrow> (\<exists>s3 e'. execute_service mro h do_execute s = Some (s3, Inl e'))))"
proof (intro conjI allI impI)
  have settled: "execute_service mro h do_execute s = Some (s', r)"
    if "retried mro h do_execute n s = Some s1" "execute_once mro h do_execute s1 = (s', Some r)" for n s1 s' r
    using retried_executes [OF that(1)] that(2) by (simp add: execute_service.simps [of mro h do_execute s1])
  show ended: "execute_service mro h do_execute s = Some (s', r) \<longleftrightarrow>
      (\<exists>n s1. retried mro h do_execute n s = Some s1 \<and> execute_once mro h do_execute s1 = (s', Some r))" for s' r
    using settled executed_retried [of mro h do_execute s "(s', r)"] by auto
  show "execute_service mro h do_execute s = None \<longleftrightarrow> (\<forall>n. retried mro h do_execute n s \<noteq> None)"
  proof
    assume none: "execute_service mro h do_execute s = None"
    show "\<forall>n. retried mro h do_execute n s \<noteq> None"
    proof
      fix n show "retried mro h do_execute n s \<noteq> None"
      proof (induction n)
        case (Suc n)
        then obtain s1 where s1: "retried mro h do_execute n s = Some s1" by blast
        obtain s2 o1 where once: "execute_once mro h do_execute s1 = (s2, o1)" by fastforce
        then have "o1 = None" using settled [OF s1] none by (cases o1) auto
        then show ?case using retried_Suc [OF s1] once by simp
      qed simp
    qed
  next
    assume forever: "\<forall>n. retried mro h do_execute n s \<noteq> None"
    show "execute_service mro h do_execute s = None"
    proof (rule ccontr)
      assume "execute_service mro h do_execute s \<noteq> None"
      then obtain n s1 where "retried mro h do_execute n s = Some s1"
        "snd (execute_once mro h do_execute s1) \<noteq> None" using executed_retried by fastforce
      then have "retried mro h do_execute (Suc n) s = None" using retried_Suc by (fastforce split: prod.splits)
      then show False using forever by blast
    qed
  qed
  fix n s1 s2 e
  assume lib: "library_handler h"
    and fails: "retried mro h do_execute n s = Some s1 \<and> do_execute s1 = (s2, Inl e) \<and> \<not> is_exception mro e"
  have "\<exists>s3 e'. execute_once mro h do_execute s1 = (s3, Some (Inl e'))"
    using fails library_handler_final [OF lib, of mro e s2]
    by (cases "handle mro h e s2") (auto simp: execute_once_def split: sum.splits)
  then show "\<exists>s3 e'. execute_service mro h do_execute s = Some (s3, Inl e')" using fails settled by blast
qed

definition sample_service :: "nat \<Rightarrow> (nat, string) outcome" where
  "sample_service n = (n + 1, Inl (sample_error (if n < 3 then ''KeyError'' else ''CancelledError'')))"

theorem service_execution_witness:
  "\<exists>s e. execute_service sample_mro RetryErrorHandler sample_service 0 = Some (s, Inl e)"
proof -
  have "retried sample_mro (RetryErrorHandler :: (nat, string) error_handler) sample_service 3 0 = Some 3
      \<and> sample_service 3 = (4, Inl (sample_error ''CancelledError''))
      \<and> \<not> is_exception sample_mro (sample_error ''CancelledError'')"
    by (simp add: numeral_3_eq_3 execute_once_def sample_service_def sample_error_def sample_mro_def is_exception_def)
  then show ?thesis
    using service_execution [of sample_mro "RetryErrorHandler :: (nat, string) error_handler" sample_service 0]
    by (metis library_handler.simps(6))
qed

end
