(* ===== verification/Broker_Lifecycle.thy ===== *)
theory Broker_Lifecycle
  imports Broker_Observer Leadership
begin

section \<open>The life of a broker\<close>

text \<open>
  Models \<open>strategies/distributed/broker.py\<close>, the loops of \<open>subscribers/manager.py\<close> and
  \<open>observer.py\<close> beside it, and the loop of \<open>strategies/singleton/broker.py\<close>: how a broker starts,
  runs its tasks until one of them fails or it is cancelled, stops, and is executed again by its
  error handler.

  Brokers that share the stores and the lock manager are a world, \<open>brokers\<close>, over the \<open>cluster\<close> of
  their coordinators. A \<open>broker_step\<close> is what one of them does between two of its sleeps, at the
  time of the world's clock; the steps of different brokers, and of the tasks of one, interleave.
  The four loops run as tasks of two groups (\<open>asyncio.TaskGroup\<close>): \<open>maintain\<close> groups heartbeats and
  purges, and \<open>_do_execute\<close> groups \<open>maintain\<close>, \<open>coordinate\<close> and \<open>observe\<close>. A group whose task
  fails cancels the others and then fails itself. A round is one step: it is not cut by a
  cancellation in its middle.
\<close>

subsection \<open>Settings\<close>

record manager_config =
  mc_node_id :: string
  mc_heartbeat_interval :: timedelta
  mc_purge_interval :: timedelta
  mc_subscriber_max_age :: timedelta

record coordinator_config =
  cc_node_id :: string
  cc_max_time_since_last_seen :: timedelta
  cc_distribution_interval :: timedelta
  cc_leadership_max_duration :: timedelta
  cc_leadership_attempt_interval :: timedelta

record observer_config =
  oc_node_id :: string
  oc_synchronisation_interval :: timedelta

text \<open>What the brokers of a world are given: the settings, and the parameters of their rounds\<close>

record 'd broker_env =
  be_manager :: manager_config
  be_coordinator :: coordinator_config
  be_observer :: observer_config
  be_orders :: set_orders
  be_constructors :: source_constructors
  be_delegate_factory :: "store_source \<Rightarrow> 'd"
  be_delta_order :: "subscription_delta list \<Rightarrow> subscription_delta list"

subsection \<open>The state of a broker\<close>

datatype broker_task = Heartbeats | Purges | Coordination | Observation

text \<open>
  A task is scheduled and has not run yet, or suspended; either way it may run from some time on.
  Or it has ended, with an exception or, as no loop returns, by cancellation.
\<close>

datatype group_task_state = Scheduled datetime | Suspended datetime | Ended bool

text \<open>How the last execution ended, if there was one: cancelled, or with a group of exceptions\<close>

datatype execution_outcome = NeverExecuted | ExecutionCancelled | ExecutionFailed "broker_task list"

datatype broker_phase =
    Outside execution_outcome
  | Inside bool \<comment> \<open>whether its cancellation was requested\<close>

record 'd broker =
  bk_observer :: "'d observer"
  bk_observer_status :: process_status
  bk_tasks :: "broker_task \<Rightarrow> group_task_state"
  bk_phase :: broker_phase

record 'd brokers =
  bw_clock :: datetime
  bw_cluster :: cluster
  bw_nodes :: "nat \<Rightarrow> 'd broker"

definition new_broker :: "'d broker" where
  "new_broker =
     \<lparr>bk_observer = \<lparr>ob_subscribers = [], ob_existing = []\<rparr>, bk_observer_status = INITIALISED,
      bk_tasks = (\<lambda>_. Ended False), bk_phase = Outside NeverExecuted\<rparr>"

definition new_brokers :: "datetime \<Rightarrow> string \<Rightarrow> 'd brokers" where
  "new_brokers now node =
     \<lparr>bw_clock = now,
      bw_cluster = new_cluster \<lparr>sts_node_id = node, sts_subscribers = []\<rparr>
        \<lparr>sxs_node_id = node, sxs_subscriptions = []\<rparr>,
      bw_nodes = (\<lambda>_. new_broker)\<rparr>"

definition broker_status :: "nat \<Rightarrow> 'd brokers \<Rightarrow> process_status" where
  "broker_status n w =
     determine_multi_process_status
       [co_status (cl_nodes (bw_cluster w) n), bk_observer_status (bw_nodes w n)]"

definition broker_subscribers :: "nat \<Rightarrow> 'd brokers \<Rightarrow> 'd consumers" where
  "broker_subscribers n w = ob_subscribers (bk_observer (bw_nodes w n))"

subsection \<open>Task groups\<close>

definition task_ready :: "datetime \<Rightarrow> 'd broker \<Rightarrow> broker_task \<Rightarrow> bool" where
  "task_ready now b t \<longleftrightarrow>
     (case bk_phase b of
        Outside _ \<Rightarrow> False
      | Inside _ \<Rightarrow>
          (case bk_tasks b t of Scheduled due \<Rightarrow> due \<le> now | Suspended due \<Rightarrow> due \<le> now | Ended _ \<Rightarrow> False))"

fun task_over :: "group_task_state \<Rightarrow> bool" where
  "task_over (Ended _) = True"
| "task_over _ = False"

definition maintenance_over :: "'d broker \<Rightarrow> bool" where
  "maintenance_over b \<longleftrightarrow> task_over (bk_tasks b Heartbeats) \<and> task_over (bk_tasks b Purges)"

text \<open>
  The group of \<open>_do_execute\<close> cancels its tasks when it is cancelled itself or when one has failed;
  \<open>maintain\<close> fails when both its tasks are over, unless it was cancelled.
\<close>

definition execution_aborting :: "'d broker \<Rightarrow> bool" where
  "execution_aborting b \<longleftrightarrow> bk_phase b = Inside True \<or> bk_tasks b Coordination = Ended True
     \<or> bk_tasks b Observation = Ended True \<or> maintenance_over b"

definition maintenance_aborting :: "'d broker \<Rightarrow> bool" where
  "maintenance_aborting b \<longleftrightarrow> execution_aborting b \<or> bk_tasks b Heartbeats = Ended True
     \<or> bk_tasks b Purges = Ended True"

definition task_aborting :: "'d broker \<Rightarrow> broker_task \<Rightarrow> bool" where
  "task_aborting b t \<longleftrightarrow>
     (if t \<in> {Heartbeats, Purges} then maintenance_aborting b else execution_aborting b)"

definition failed_tasks :: "'d broker \<Rightarrow> broker_task list" where
  "failed_tasks b = filter (\<lambda>t. bk_tasks b t = Ended True) [Heartbeats, Purges, Coordination, Observation]"

definition group_outcome :: "'d broker \<Rightarrow> execution_outcome" where
  "group_outcome b = (if failed_tasks b = [] then ExecutionCancelled else ExecutionFailed (failed_tasks b))"

definition all_over :: "'d broker \<Rightarrow> bool" where
  "all_over b \<longleftrightarrow> maintenance_over b \<and> task_over (bk_tasks b Coordination) \<and> task_over (bk_tasks b Observation)"

subsection \<open>Steps\<close>

text \<open>
  What may happen to a broker. The health of subscribers is theirs to say, and may be different at
  every heartbeat; a store, or a subscriber's \<open>health\<close>, may raise.
\<close>

datatype 'd broker_event =
    Register "'d subscription_consumer"
  | Execute
  | Beat "'d subscription_consumer \<Rightarrow> event_subscriber_health"
  | BeatFails "'d subscription_consumer \<Rightarrow> event_subscriber_health" nat \<comment> \<open>after so many subscribers\<close>
  | Purge
  | PurgeFails
  | Observe
  | ObserveFails
  | Coordinate coordinator_event
  | RequestCancel
  | CancelTask broker_task
  | Stop

definition set_broker :: "nat \<Rightarrow> 'd broker \<Rightarrow> 'd brokers \<Rightarrow> 'd brokers" where
  "set_broker n b w = w\<lparr>bw_nodes := (bw_nodes w)(n := b)\<rparr>"

definition set_task_state :: "broker_task \<Rightarrow> group_task_state \<Rightarrow> 'd broker \<Rightarrow> 'd broker" where
  "set_task_state t state b = b\<lparr>bk_tasks := (bk_tasks b)(t := state)\<rparr>"

definition on_subscribers :: "(subscriber_store \<Rightarrow> subscriber_store) \<Rightarrow> 'd brokers \<Rightarrow> 'd brokers" where
  "on_subscribers f w =
     w\<lparr>bw_cluster := (bw_cluster w)\<lparr>cl_subscribers := f (cl_subscribers (bw_cluster w))\<rparr>\<rparr>"

text \<open>\<open>register\<close> and the manager's \<open>add\<close>\<close>

definition broker_register :: "nat \<Rightarrow> 'd subscription_consumer \<Rightarrow> 'd brokers \<Rightarrow> 'd brokers" where
  "broker_register n s w =
     (let b = bw_nodes w n; ob = bk_observer b
      in set_broker n (b\<lparr>bk_observer := ob\<lparr>ob_subscribers := instances_add s (ob_subscribers ob)\<rparr>\<rparr>) w)"

text \<open>\<open>_do_execute\<close> up to the tasks it creates; the manager's \<open>start\<close> registers the subscribers.\<close>

definition begin_execution :: "nat \<Rightarrow> 'd brokers \<Rightarrow> 'd brokers" where
  "begin_execution n w =
     (let b = bw_nodes w n;
          w1 = on_subscribers (manager_register (bw_clock w) (ob_subscribers (bk_observer b))) w
      in set_broker n (b\<lparr>bk_tasks := (\<lambda>_. Scheduled (bw_clock w)), bk_phase := Inside False\<rparr>)
           (w1\<lparr>bw_cluster := coordinate_again n (bw_cluster w1)\<rparr>))"

text \<open>The \<open>finally\<close> of \<open>_do_execute\<close>; the manager's \<open>stop\<close> unregisters the subscribers.\<close>

definition end_execution :: "nat \<Rightarrow> 'd brokers \<Rightarrow> 'd brokers" where
  "end_execution n w =
     (let b = bw_nodes w n
      in set_broker n (b\<lparr>bk_phase := Outside (group_outcome b)\<rparr>)
           (on_subscribers (manager_unregister (ob_subscribers (bk_observer b))) w))"

text \<open>The rounds of \<open>heartbeat\<close> and \<open>purge\<close>, and a round of heartbeats that raises\<close>

definition beat :: "'d broker_env \<Rightarrow> nat \<Rightarrow> ('d subscription_consumer \<Rightarrow> event_subscriber_health) \<Rightarrow> 'd brokers \<Rightarrow> 'd brokers" where
  "beat env n health w =
     set_broker n
       (set_task_state Heartbeats (Suspended (bw_clock w + mc_heartbeat_interval (be_manager env))) (bw_nodes w n))
       (on_subscribers (heartbeat_round health (bw_clock w) (broker_subscribers n w)) w)"

definition beat_fails :: "nat \<Rightarrow> ('d subscription_consumer \<Rightarrow> event_subscriber_health) \<Rightarrow> nat \<Rightarrow> 'd brokers \<Rightarrow> 'd brokers" where
  "beat_fails n health k w =
     set_broker n (set_task_state Heartbeats (Ended True) (bw_nodes w n))
       (on_subscribers (heartbeat_round health (bw_clock w) (take k (broker_subscribers n w))) w)"

definition purge_round :: "'d broker_env \<Rightarrow> nat \<Rightarrow> 'd brokers \<Rightarrow> 'd brokers" where
  "purge_round env n w =
     set_broker n
       (set_task_state Purges (Suspended (bw_clock w + mc_purge_interval (be_manager env))) (bw_nodes w n))
       (on_subscribers (subscriber_purge (bw_clock w) (mc_subscriber_max_age (be_manager env))) w)"

text \<open>
  A round of \<open>observe\<close>, with the status it sets before the first; an exception ends the loop with
  the status \<open>ERRORED\<close>.
\<close>

definition observe_round :: "'d broker_env \<Rightarrow> nat \<Rightarrow> 'd brokers \<Rightarrow> 'd brokers" where
  "observe_round env n w =
     (let b = bw_nodes w n
      in case synchronise (be_constructors env) (be_delegate_factory env) (be_delta_order env)
                (cl_subscriptions (bw_cluster w)) (bk_observer b) of
           (ob, Inl _) \<Rightarrow>
             set_broker n (set_task_state Observation (Ended True) (b\<lparr>bk_observer := ob, bk_observer_status := ERRORED\<rparr>)) w
         | (ob, Inr _) \<Rightarrow>
             set_broker n
               (set_task_state Observation
                 (Suspended (bw_clock w + oc_synchronisation_interval (be_observer env)))
                 (b\<lparr>bk_observer := ob, bk_observer_status := RUNNING\<rparr>)) w)"

definition observe_fails :: "nat \<Rightarrow> 'd brokers \<Rightarrow> 'd brokers" where
  "observe_fails n w =
     set_broker n (set_task_state Observation (Ended True) ((bw_nodes w n)\<lparr>bk_observer_status := ERRORED\<rparr>)) w"

text \<open>
  A step of \<open>coordinate\<close>, which sleeps after a distribution and while it does not lead. Its
  durations are compared in nanoseconds.
\<close>

definition coordination_sleep :: "'d broker_env \<Rightarrow> coordinator_pc \<Rightarrow> coordinator_pc \<Rightarrow> timedelta" where
  "coordination_sleep env before after =
     (case (before, after) of
        (Distributing _ _, Leading _) \<Rightarrow> cc_distribution_interval (be_coordinator env)
      | (_, Resting) \<Rightarrow> cc_leadership_attempt_interval (be_coordinator env)
      | _ \<Rightarrow> 0)"

definition broker_coordinates :: "'d broker_env \<Rightarrow> nat \<Rightarrow> coordinator_event \<Rightarrow> 'd brokers \<Rightarrow> 'd brokers option" where
  "broker_coordinates env n event w =
     (case coordinate_step (be_orders env) (cc_leadership_max_duration (be_coordinator env) * 1000) (bw_clock w)
             (cc_max_time_since_last_seen (be_coordinator env)) n event (bw_cluster w) of
        None \<Rightarrow> None
      | Some cluster \<Rightarrow>
          (let before = co_pc (cl_nodes (bw_cluster w) n); after = co_pc (cl_nodes cluster n);
               state = (if after = Finished then Ended (event \<noteq> Cancel)
                        else Suspended (bw_clock w + coordination_sleep env before after))
           in Some (set_broker n (set_task_state Coordination state (bw_nodes w n)) (w\<lparr>bw_cluster := cluster\<rparr>))))"

text \<open>
  Cancelling a task: one that has not run yet never does, and leaves its status as it is; \<open>observe\<close>
  and \<open>coordinate\<close> set theirs to \<open>STOPPED\<close>.
\<close>

definition cancel_group_task :: "'d broker_env \<Rightarrow> nat \<Rightarrow> broker_task \<Rightarrow> 'd brokers \<Rightarrow> 'd brokers option" where
  "cancel_group_task env n t w =
     (let b = bw_nodes w n; over = set_task_state t (Ended False) b
      in case bk_tasks b t of
           Ended _ \<Rightarrow> None
         | Scheduled _ \<Rightarrow> Some (set_broker n over w)
         | Suspended _ \<Rightarrow>
             (case t of
                Coordination \<Rightarrow> broker_coordinates env n Cancel w
              | Observation \<Rightarrow> Some (set_broker n (over\<lparr>bk_observer_status := STOPPED\<rparr>) w)
              | _ \<Rightarrow> Some (set_broker n over w)))"

fun broker_step :: "'d broker_env \<Rightarrow> nat \<Rightarrow> 'd broker_event \<Rightarrow> 'd brokers \<Rightarrow> 'd brokers option" where
  "broker_step env n (Register s) w = Some (broker_register n s w)"
| "broker_step env n Execute w =
     (case bk_phase (bw_nodes w n) of Outside _ \<Rightarrow> Some (begin_execution n w) | Inside _ \<Rightarrow> None)"
| "broker_step env n (Beat health) w =
     (if task_ready (bw_clock w) (bw_nodes w n) Heartbeats then Some (beat env n health w) else None)"
| "broker_step env n (BeatFails health k) w =
     (if task_ready (bw_clock w) (bw_nodes w n) Heartbeats then Some (beat_fails n health k w) else None)"
| "broker_step env n Purge w =
     (if task_ready (bw_clock w) (bw_nodes w n) Purges then Some (purge_round env n w) else None)"
| "broker_step env n PurgeFails w =
     (if task_ready (bw_clock w) (bw_nodes w n) Purges
      then Some (set_broker n (set_task_state Purges (Ended True) (bw_nodes w n)) w) else None)"
| "broker_step env n Observe w =
     (if task_ready (bw_clock w) (bw_nodes w n) Observation then Some (observe_round env n w) else None)"
| "broker_step env n ObserveFails w =
     (if task_ready (bw_clock w) (bw_nodes w n) Observation then Some (observe_fails n w) else None)"
| "broker_step env n (Coordinate event) w =
     (if task_ready (bw_clock w) (bw_nodes w n) Coordination \<and> event \<noteq> Cancel
      then broker_coordinates env n event w else None)"
| "broker_step env n RequestCancel w =
     (case bk_phase (bw_nodes w n) of
        Inside _ \<Rightarrow> Some (set_broker n ((bw_nodes w n)\<lparr>bk_phase := Inside True\<rparr>) w)
      | Outside _ \<Rightarrow> None)"
| "broker_step env n (CancelTask t) w =
     (case bk_phase (bw_nodes w n) of
        Inside _ \<Rightarrow> if task_aborting (bw_nodes w n) t then cancel_group_task env n t w else None
      | Outside _ \<Rightarrow> None)"
| "broker_step env n Stop w =
     (case bk_phase (bw_nodes w n) of
        Inside _ \<Rightarrow> if all_over (bw_nodes w n) then Some (end_execution n w) else None
      | Outside _ \<Rightarrow> None)"

subsection \<open>strategies/singleton/broker.py\<close>

record 'd singleton =
  si_subscribers :: "'d consumers"
  si_status :: process_status

text \<open>Running \<open>_do_execute\<close> up to its first sleep, or on from a sleep to the next\<close>

definition singleton_rounds :: "source_constructors \<Rightarrow> (store_source \<Rightarrow> 'd) \<Rightarrow> 'd singleton \<Rightarrow> 'd singleton \<times> unit res" where
  "singleton_rounds constructors delegate_factory b =
     (case singleton_round constructors delegate_factory (si_subscribers b) of
        (subscribers, Inl err) \<Rightarrow> (\<lparr>si_subscribers = subscribers, si_status = ERRORED\<rparr>, Inl err)
      | (subscribers, Inr _) \<Rightarrow> (\<lparr>si_subscribers = subscribers, si_status = RUNNING\<rparr>, Inr ()))"

definition singleton_register :: "'d subscription_consumer \<Rightarrow> 'd singleton \<Rightarrow> 'd singleton" where
  "singleton_register s b = b\<lparr>si_subscribers := instances_add s (si_subscribers b)\<rparr>"

definition singleton_cancelled :: "'d singleton \<Rightarrow> 'd singleton \<times> unit res" where
  "singleton_cancelled b = (b\<lparr>si_status := STOPPED\<rparr>, Inl CancelledError)"

subsection \<open>What a world reaches\<close>

text \<open>
  The keys of subscribers are their own: no two brokers register the same one. \<open>healthy\<close> names the
  subscribers that are healthy whenever they are asked, and \<open>slack\<close>, if there is a bound, how
  late a heartbeat may be: time does not pass the moment a heartbeat is due by more.
\<close>

fun admissible :: "(event_subscriber_key \<Rightarrow> bool) \<Rightarrow> nat \<Rightarrow> 'd broker_event \<Rightarrow> 'd brokers \<Rightarrow> bool" where
  "admissible healthy n (Register s) w \<longleftrightarrow> (\<forall>m. m \<noteq> n \<longrightarrow> sb_key s \<notin> dom (map_of (broker_subscribers m w)))"
| "admissible healthy n (Beat health) w \<longleftrightarrow> (\<forall>s. healthy (sb_key s) \<longrightarrow> health s = HEALTHY)"
| "admissible healthy n (BeatFails health k) w \<longleftrightarrow> (\<forall>s. healthy (sb_key s) \<longrightarrow> health s = HEALTHY)"
| "admissible healthy n _ w \<longleftrightarrow> True"

fun due_at :: "group_task_state \<Rightarrow> datetime option" where
  "due_at (Scheduled due) = Some due"
| "due_at (Suspended due) = Some due"
| "due_at (Ended _) = None"

definition heartbeat_due :: "nat \<Rightarrow> 'd brokers \<Rightarrow> datetime option" where
  "heartbeat_due n w = due_at (bk_tasks (bw_nodes w n) Heartbeats)"

definition timely :: "timedelta option \<Rightarrow> datetime \<Rightarrow> 'd brokers \<Rightarrow> bool" where
  "timely slack now w \<longleftrightarrow>
     (\<forall>n due s. heartbeat_due n w = Some due \<longrightarrow> slack = Some s \<longrightarrow> now \<le> due + s)"

inductive broker_reachable ::
  "'d broker_env \<Rightarrow> (event_subscriber_key \<Rightarrow> bool) \<Rightarrow> timedelta option \<Rightarrow> 'd brokers \<Rightarrow> bool"
  for env healthy slack where
  start: "broker_reachable env healthy slack (new_brokers now node)"
| step: "broker_reachable env healthy slack w \<Longrightarrow> admissible healthy n event w
    \<Longrightarrow> broker_step env n event w = Some w' \<Longrightarrow> broker_reachable env healthy slack w'"
| time: "broker_reachable env healthy slack w \<Longrightarrow> bw_clock w \<le> t \<Longrightarrow> timely slack t w
    \<Longrightarrow> broker_reachable env healthy slack (w\<lparr>bw_clock := t\<rparr>)"

subsection \<open>The rounds on the registry\<close>

definition consumers_wf :: "'d consumers \<Rightarrow> bool" where
  "consumers_wf subscribers \<longleftrightarrow> (\<forall>(key, s) \<in> set subscribers. sb_key s = key)"

lemma consumers_keys: "consumers_wf subscribers \<Longrightarrow> sb_key ` set (instances_list subscribers) = dom (map_of subscribers)"
  unfolding consumers_wf_def instances_list_def dict_values_def dom_map_of_conv_image_fst
  by (force simp: image_image split_beta)

lemma consumers_take: "consumers_wf subscribers \<Longrightarrow> consumers_wf (take k subscribers)"
  by (auto simp: consumers_wf_def dest!: in_set_takeD)

lemma register_effect:
  assumes "subscribers_wf store"
  shows "subscribers_wf (fold (subscriber_add now) ss store)
    \<and> (key \<notin> sb_key ` set ss \<longrightarrow> registry (fold (subscriber_add now) ss store) key = registry store key)
    \<and> (key \<in> sb_key ` set ss \<or> (\<exists>requests. registry store key = Some (requests, now))
         \<longrightarrow> (\<exists>requests. registry (fold (subscriber_add now) ss store) key = Some (requests, now)))"
  using assms
proof (induction ss arbitrary: store)
  case (Cons s ss)
  show ?case
    using Cons.IH [OF registry_add(1) [OF Cons.prems, of now s]]
    by (cases "key = sb_key s") (simp_all add: registry_add(2) [OF Cons.prems])
qed simp

lemma unregister_effect:
  assumes "subscribers_wf store"
  shows "subscribers_wf (fold subscriber_remove ss store)
    \<and> registry (fold subscriber_remove ss store) key = (if key \<in> sb_key ` set ss then None else registry store key)"
  using assms
proof (induction ss arbitrary: store)
  case (Cons s ss)
  show ?case
    using Cons.IH [OF registry_remove(1) [OF Cons.prems]] by (auto simp: registry_remove(2) [OF Cons.prems])
qed simp

abbreviation beat_one :: "('d subscription_consumer \<Rightarrow> event_subscriber_health) \<Rightarrow> datetime
    \<Rightarrow> 'd subscription_consumer \<Rightarrow> subscriber_store \<Rightarrow> subscriber_store" where
  "beat_one health now s states \<equiv> (if health s = HEALTHY then subscriber_heartbeat now s states else states)"

lemma beat_effect:
  assumes "subscribers_wf store"
  shows "subscribers_wf (fold (beat_one health now) ss store)
    \<and> (registry (fold (beat_one health now) ss store) key = None \<longleftrightarrow> registry store key = None)
    \<and> (key \<notin> sb_key ` set ss \<longrightarrow> registry (fold (beat_one health now) ss store) key = registry store key)
    \<and> (\<forall>requests seen. registry (fold (beat_one health now) ss store) key = Some (requests, seen)
         \<longrightarrow> seen = now \<or> registry store key = Some (requests, seen)
              \<and> (\<forall>s \<in> set ss. sb_key s = key \<longrightarrow> health s \<noteq> HEALTHY))"
  using assms
proof (induction ss arbitrary: store)
  case (Cons s ss)
  show ?case
  proof (cases "health s = HEALTHY")
    case True
    note hb = registry_heartbeat [OF Cons.prems, of now s]
    show ?thesis using Cons.IH [OF hb(1)] True by (auto simp: hb(2) split: if_splits)
  next
    case False
    then show ?thesis using Cons.IH [OF Cons.prems] by auto
  qed
qed simp

lemma purge_effect:
  assumes "subscribers_wf store"
  shows "subscribers_wf (subscriber_purge now age store)"
    and "registry (subscriber_purge now age store) key \<noteq> None
      \<Longrightarrow> registry (subscriber_purge now age store) key = registry store key"
  using purge_wf [OF assms] registry_purge_Some [OF assms] by fastforce+

text \<open>Synchronising changes what the subscribers consume, not who they are.\<close>

lemma change_sources_keys:
  assumes "\<And>source s. sb_key (change source s) = sb_key s" "consumers_wf subscribers"
  shows "consumers_wf (fst (change_sources constructors change cs subscribers))
    \<and> dom (map_of (fst (change_sources constructors change cs subscribers))) = dom (map_of subscribers)"
  using assms(2)
proof (induction cs arbitrary: subscribers)
  case (Cons c cs)
  have "consumers_wf (AList.update k (change source s) subscribers)
      \<and> dom (map_of (AList.update k (change source s) subscribers)) = dom (map_of subscribers)"
    if "map_of subscribers k = Some s" for k s source
  proof -
    have "sb_key s = k" using Cons.prems map_of_SomeD [OF that] by (auto simp: consumers_wf_def)
    then show ?thesis
      using Cons.prems update_entries [of k "change source s" subscribers] that
      by (auto simp: consumers_wf_def assms(1))
  qed
  note update = this
  show ?case
  proof (cases "map_of subscribers (sd_subscriber_key c)")
    case (Some s)
    show ?thesis
    proof (cases "construct_source constructors (sd_source c)")
      case (Inr source)
      then show ?thesis
        using Cons.IH [OF conjunct1 [OF update [OF Some, of source]], unfolded conjunct2 [OF update [OF Some]]] Some
        by simp
    qed (use Cons.prems Some in simp)
  qed (use Cons in simp)
qed simp

lemma accept_key [simp]: "sb_key (accept_source fac source s) = sb_key s"
  by (simp add: accept_source_def sb_key_def)

lemma withdraw_key [simp]: "sb_key (withdraw_source source s) = sb_key s"
  by (simp add: withdraw_source_def sb_key_def)

lemma synchronise_keys:
  assumes "consumers_wf (ob_subscribers ob)"
  shows "consumers_wf (ob_subscribers (fst (synchronise constructors fac order states ob)))
    \<and> dom (map_of (ob_subscribers (fst (synchronise constructors fac order states ob)))) = dom (map_of (ob_subscribers ob))"
proof -
  obtain allocations revocations where
    diff: "subscription_diff (ob_existing ob) (subscription_list states) = (allocations, revocations)" by fastforce
  obtain subs1 r1 where s1: "change_sources constructors withdraw_source (order revocations) (ob_subscribers ob) = (subs1, r1)"
    by fastforce
  obtain subs2 r2 where s2: "change_sources constructors (accept_source fac) (order allocations) subs1 = (subs2, r2)"
    by fastforce
  have 1: "consumers_wf subs1 \<and> dom (map_of subs1) = dom (map_of (ob_subscribers ob))"
    using change_sources_keys [where change = withdraw_source and cs = "order revocations" and constructors = constructors, OF withdraw_key assms] by (simp add: s1)
  then have "consumers_wf subs2 \<and> dom (map_of subs2) = dom (map_of subs1)"
    using change_sources_keys [where change = "accept_source fac" and cs = "order allocations" and subscribers = subs1
        and constructors = constructors, OF accept_key] by (simp add: s2)
  with 1 show ?thesis by (cases r1; cases r2) (simp_all add: synchronise_def diff s1 s2)
qed

text \<open>A step of one coordinator leaves the others and the subscribers alone.\<close>

lemma leave_lock_frame [simp]:
  "cl_nodes (leave_lock n w) = cl_nodes w" "cl_subscribers (leave_lock n w) = cl_subscribers w"
  by (auto simp: leave_lock_def take_lock_step_def set_task_def split: lock_task.split option.split prod.split)

lemma take_lock_frame:
  "take_lock_step n w = Some w' \<Longrightarrow> cl_nodes w' = cl_nodes w \<and> cl_subscribers w' = cl_subscribers w"
  by (auto simp: take_lock_step_def set_task_def split: option.splits)

lemma enter_frame [simp]:
  "cl_nodes (enter n status pc w) = (cl_nodes w)(n := \<lparr>co_status = status, co_pc = pc\<rparr>)"
  "cl_subscribers (enter n status pc w) = cl_subscribers w"
  by (simp_all add: enter_def)

lemma coordinate_step_frame:
  assumes "coordinate_step orders duration now age n event w = Some w'"
  shows "cl_subscribers w' = cl_subscribers w" and "m \<noteq> n \<Longrightarrow> cl_nodes w' m = cl_nodes w m"
    and "co_pc (cl_nodes w' n) \<noteq> NotStarted"
    and "event = Cancel \<Longrightarrow> co_pc (cl_nodes w' n) = Finished"
  using assms
  by (cases event; cases "co_pc (cl_nodes w n)";
      auto simp: set_task_def dest!: take_lock_frame split: if_splits option.splits sum.splits prod.splits lock_task.splits)+

subsection \<open>Who is registered\<close>

abbreviation broker_store :: "'d brokers \<Rightarrow> subscriber_store" where
  "broker_store w \<equiv> cl_subscribers (bw_cluster w)"

abbreviation subscriber_keys :: "nat \<Rightarrow> 'd brokers \<Rightarrow> event_subscriber_key set" where
  "subscriber_keys n w \<equiv> dom (map_of (broker_subscribers n w))"

fun inside :: "broker_phase \<Rightarrow> bool" where
  "inside (Inside _) = True"
| "inside (Outside _) = False"

definition executing :: "nat \<Rightarrow> 'd brokers \<Rightarrow> bool" where
  "executing n w \<longleftrightarrow> inside (bk_phase (bw_nodes w n))"

lemma set_broker_sel [simp]:
  "bw_nodes (set_broker n b w) = (bw_nodes w)(n := b)"
  "bw_cluster (set_broker n b w) = bw_cluster w" "bw_clock (set_broker n b w) = bw_clock w"
  by (simp_all add: set_broker_def)

lemma on_subscribers_sel [simp]:
  "bw_nodes (on_subscribers f w) = bw_nodes w" "bw_clock (on_subscribers f w) = bw_clock w"
  "broker_store (on_subscribers f w) = f (broker_store w)"
  "cl_nodes (bw_cluster (on_subscribers f w)) = cl_nodes (bw_cluster w)"
  by (simp_all add: on_subscribers_def)

lemma set_task_state_sel [simp]:
  "bk_observer (set_task_state t state b) = bk_observer b" "bk_phase (set_task_state t state b) = bk_phase b"
  "bk_observer_status (set_task_state t state b) = bk_observer_status b"
  "bk_tasks (set_task_state t state b) = (bk_tasks b)(t := state)"
  by (simp_all add: set_task_state_def)

lemma coordinate_again_sel [simp]:
  "cl_subscribers (coordinate_again n c) = cl_subscribers c"
  "m \<noteq> n \<Longrightarrow> cl_nodes (coordinate_again n c) m = cl_nodes c m"
  by (simp_all add: coordinate_again_def)

definition names_inv :: "'d brokers \<Rightarrow> bool" where
  "names_inv w \<longleftrightarrow> subscribers_wf (broker_store w)
     \<and> (\<forall>n. consumers_wf (broker_subscribers n w))
     \<and> (\<forall>m n. m \<noteq> n \<longrightarrow> subscriber_keys m w \<inter> subscriber_keys n w = {})
     \<and> (\<forall>key. registry (broker_store w) key \<noteq> None \<longrightarrow> (\<exists>n. executing n w \<and> key \<in> subscriber_keys n w))"

lemma names_keep:
  assumes "names_inv w" "subscribers_wf (broker_store w')"
    and "\<And>key. registry (broker_store w') key \<noteq> None \<Longrightarrow> registry (broker_store w) key \<noteq> None"
    and "\<And>m. consumers_wf (broker_subscribers m w)
      \<Longrightarrow> consumers_wf (broker_subscribers m w') \<and> subscriber_keys m w' = subscriber_keys m w"
    and "\<And>m. executing m w \<Longrightarrow> executing m w'"
  shows "names_inv w'"
  using assms unfolding names_inv_def by metis

lemma dom_update: "dom (map_of (AList.update k v d)) = insert k (dom (map_of d))"
  unfolding update_conv' dom_fun_upd by simp

lemma names_register:
  assumes "names_inv w" "admissible healthy n (Register s) w"
  shows "names_inv (broker_register n s w)"
proof -
  let ?w = "broker_register n s w"
  have keys: "subscriber_keys m ?w = (if m = n then insert (sb_key s) (subscriber_keys m w) else subscriber_keys m w)" for m
    by (simp add: broker_register_def broker_subscribers_def instances_add_def Let_def dom_update)
  have "consumers_wf (broker_subscribers m ?w)" if "consumers_wf (broker_subscribers m w)" for m
    using that update_entries [of "sb_key s" s "broker_subscribers n w"]
    by (auto simp: broker_register_def broker_subscribers_def instances_add_def Let_def consumers_wf_def)
  moreover have "executing m ?w = executing m w" "broker_store ?w = broker_store w" for m
    by (simp_all add: executing_def broker_register_def Let_def)
  moreover have "\<exists>m. executing m w \<and> key \<in> subscriber_keys m ?w" if "registry (broker_store w) key \<noteq> None" for key
    using that assms(1) unfolding names_inv_def keys by (metis insertCI)
  ultimately show ?thesis
    using assms unfolding names_inv_def keys by (auto split: if_splits)
qed

lemma names_begin:
  assumes "names_inv w" "\<not> executing n w"
  shows "names_inv (begin_execution n w)"
proof -
  let ?w = "begin_execution n w" and ?ss = "instances_list (broker_subscribers n w)"
  have inv: "subscribers_wf (broker_store w)" "consumers_wf (broker_subscribers n w)"
    using assms(1) by (auto simp: names_inv_def)
  note effect = register_effect [OF inv(1), of "bw_clock w" ?ss]
  have store: "broker_store ?w = fold (subscriber_add (bw_clock w)) ?ss (broker_store w)"
    by (simp add: begin_execution_def Let_def manager_register_def broker_subscribers_def)
  have same: "broker_subscribers m ?w = broker_subscribers m w" for m
    by (simp add: begin_execution_def broker_subscribers_def Let_def)
  have executing: "executing m ?w \<longleftrightarrow> m = n \<or> executing m w" for m
    by (simp add: begin_execution_def executing_def Let_def)
  have "\<exists>m. executing m ?w \<and> key \<in> subscriber_keys m w" if "registry (broker_store ?w) key \<noteq> None" for key
    using that effect [of key] assms(1) unfolding store executing names_inv_def consumers_keys [OF inv(2)] by metis
  then show ?thesis
    using assms(1) effect unfolding names_inv_def store same by blast
qed

lemma names_end:
  assumes "names_inv w"
  shows "names_inv (end_execution n w)"
    and "key \<in> subscriber_keys n w \<Longrightarrow> registry (broker_store (end_execution n w)) key = None"
    and "m \<noteq> n \<Longrightarrow> key \<in> subscriber_keys m w
      \<Longrightarrow> registry (broker_store (end_execution n w)) key = registry (broker_store w) key"
proof -
  let ?w = "end_execution n w" and ?ss = "instances_list (broker_subscribers n w)"
  have inv: "subscribers_wf (broker_store w)" "consumers_wf (broker_subscribers n w)"
    using assms(1) by (auto simp: names_inv_def)
  note effect = unregister_effect [OF inv(1), of ?ss]
  have store: "broker_store ?w = fold subscriber_remove ?ss (broker_store w)"
    by (simp add: end_execution_def Let_def manager_unregister_def broker_subscribers_def)
  have same: "broker_subscribers m ?w = broker_subscribers m w" for m
    by (simp add: end_execution_def broker_subscribers_def Let_def)
  have executing: "executing m ?w \<longleftrightarrow> m \<noteq> n \<and> executing m w" for m
    by (simp add: end_execution_def executing_def Let_def)
  have registry: "registry (broker_store ?w) key = (if key \<in> subscriber_keys n w then None else registry (broker_store w) key)" for key
    using effect [of key] unfolding store consumers_keys [OF inv(2)] by blast
  have "\<exists>m. executing m ?w \<and> key \<in> subscriber_keys m w" if "registry (broker_store ?w) key \<noteq> None" for key
    using that assms(1) unfolding names_inv_def registry executing by (metis (no_types, lifting))
  then show "names_inv ?w"
    using assms(1) conjunct1 [OF effect] unfolding names_inv_def same store by blast
  show "registry (broker_store ?w) key = None" if "key \<in> subscriber_keys n w" using that by (simp add: registry)
  show "registry (broker_store ?w) key = registry (broker_store w) key" if "m \<noteq> n" "key \<in> subscriber_keys m w"
    using that assms(1) unfolding registry names_inv_def by (metis disjoint_iff)
qed

lemma names_store:
  assumes "names_inv w" "bk_observer b = bk_observer (bw_nodes w n)" "bk_phase b = bk_phase (bw_nodes w n)"
    and "subscribers_wf (f (broker_store w))"
    and "\<And>key. registry (f (broker_store w)) key \<noteq> None \<Longrightarrow> registry (broker_store w) key \<noteq> None"
  shows "names_inv (set_broker n b (on_subscribers f w))"
  by (rule names_keep [OF assms(1)]) (use assms in \<open>auto simp: broker_subscribers_def executing_def\<close>)

lemma names_node:
  assumes "names_inv w" "bk_observer b = bk_observer (bw_nodes w n)"
    and "inside (bk_phase (bw_nodes w n)) \<Longrightarrow> inside (bk_phase b)"
    and "cl_subscribers cluster = broker_store w"
  shows "names_inv (set_broker n b (w\<lparr>bw_cluster := cluster\<rparr>))"
  by (rule names_keep [OF assms(1)]) (use assms in \<open>auto simp: broker_subscribers_def executing_def names_inv_def\<close>)

lemma names_local:
  assumes "names_inv w" "bk_observer b = bk_observer (bw_nodes w n)"
    and "inside (bk_phase (bw_nodes w n)) \<Longrightarrow> inside (bk_phase b)"
  shows "names_inv (set_broker n b w)"
  using names_node [OF assms, of "bw_cluster w"] by simp

lemma names_beat:
  assumes "names_inv w" "bk_observer b = bk_observer (bw_nodes w n)" "bk_phase b = bk_phase (bw_nodes w n)"
  shows "names_inv (set_broker n b (on_subscribers (heartbeat_round health now ss) w))"
proof -
  have "subscribers_wf (broker_store w)" using assms(1) by (simp add: names_inv_def)
  note effect = beat_effect [OF this, of health now "instances_list ss"]
  show ?thesis
    by (rule names_store [OF assms]) (use effect in \<open>simp_all add: heartbeat_round_def\<close>)
qed

lemma names_observe:
  assumes "names_inv w"
  shows "names_inv (observe_round env n w)"
proof (rule names_keep [OF assms])
  let ?w = "observe_round env n w"
  obtain ob r where sync: "synchronise (be_constructors env) (be_delegate_factory env) (be_delta_order env)
      (cl_subscriptions (bw_cluster w)) (bk_observer (bw_nodes w n)) = (ob, r)" by fastforce
  have store: "broker_store ?w = broker_store w" by (simp add: observe_round_def sync Let_def split: sum.split)
  show "subscribers_wf (broker_store ?w)" using assms by (simp add: store names_inv_def)
  show "registry (broker_store ?w) key \<noteq> None \<Longrightarrow> registry (broker_store w) key \<noteq> None" for key by (simp add: store)
  show "executing m w \<Longrightarrow> executing m ?w" for m
    by (auto simp: observe_round_def sync executing_def Let_def split: sum.split)
  have other: "broker_subscribers m ?w = (if m = n then ob_subscribers ob else broker_subscribers m w)" for m
    by (auto simp: observe_round_def sync broker_subscribers_def Let_def split: sum.split)
  show "consumers_wf (broker_subscribers m ?w) \<and> subscriber_keys m ?w = subscriber_keys m w"
    if "consumers_wf (broker_subscribers m w)" for m
    using that synchronise_keys [of "bk_observer (bw_nodes w n)" "be_constructors env" "be_delegate_factory env"
        "be_delta_order env" "cl_subscriptions (bw_cluster w)"]
    unfolding other by (cases "m = n") (simp_all add: sync broker_subscribers_def)
qed

lemma names_coordinate:
  assumes "names_inv w" "broker_coordinates env n event w = Some w'"
  shows "names_inv w'"
proof -
  obtain cluster where step: "coordinate_step (be_orders env) (cc_leadership_max_duration (be_coordinator env) * 1000)
      (bw_clock w) (cc_max_time_since_last_seen (be_coordinator env)) n event (bw_cluster w) = Some cluster"
    using assms(2) by (auto simp: broker_coordinates_def split: option.splits)
  obtain state where "w' = set_broker n (set_task_state Coordination state (bw_nodes w n)) (w\<lparr>bw_cluster := cluster\<rparr>)"
    using assms(2) step by (auto simp: broker_coordinates_def Let_def)
  then show ?thesis
    using names_node [OF assms(1), of "set_task_state Coordination state (bw_nodes w n)" n cluster]
      coordinate_step_frame(1) [OF step] by simp
qed

lemma names_step:
  assumes "names_inv w" "admissible healthy n event w" "broker_step env n event w = Some w'"
  shows "names_inv w'"
proof (cases event)
  case (Register s)
  then show ?thesis using assms(3) names_register [OF assms(1) assms(2) [unfolded Register]] by auto
next
  case Execute
  then show ?thesis
    using assms(3) names_begin [OF assms(1), of n] by (auto simp: executing_def split: broker_phase.splits)
next
  case (Beat health)
  then show ?thesis using assms(3) by (auto simp: beat_def intro: names_beat [OF assms(1)] split: if_splits)
next
  case (BeatFails health k)
  then show ?thesis using assms(3) by (auto simp: beat_fails_def intro: names_beat [OF assms(1)] split: if_splits)
next
  case Purge
  have "subscribers_wf (broker_store w)" using assms(1) by (simp add: names_inv_def)
  note effect = purge_effect [OF this]
  have "names_inv (purge_round env n w)"
    unfolding purge_round_def by (rule names_store [OF assms(1)]) (simp_all add: effect(1), metis effect(2) option.distinct(1) surj_pair)
  then show ?thesis using assms(3) Purge by (auto split: if_splits)
next
  case PurgeFails
  then show ?thesis using assms(3) names_local [OF assms(1)] by (auto split: if_splits)
next
  case Observe
  then show ?thesis using assms(3) names_observe [OF assms(1)] by (auto split: if_splits)
next
  case ObserveFails
  then show ?thesis using assms(3) names_local [OF assms(1)] by (auto simp: observe_fails_def split: if_splits)
next
  case (Coordinate e)
  then show ?thesis using assms(3) names_coordinate [OF assms(1)] by (auto split: if_splits)
next
  case RequestCancel
  then show ?thesis using assms(3) names_local [OF assms(1)] by (auto split: broker_phase.splits)
next
  case (CancelTask t)
  then show ?thesis
    using assms(3) names_local [OF assms(1)] names_coordinate [OF assms(1), of env n Cancel w']
    by (auto simp: cancel_group_task_def Let_def split: broker_phase.splits if_splits group_task_state.splits broker_task.splits)
next
  case Stop
  then show ?thesis using assms(3) names_end(1) [OF assms(1)] by (auto split: broker_phase.splits if_splits)
qed

lemma names_reachable: "broker_reachable env healthy slack w \<Longrightarrow> names_inv w"
proof (induction rule: broker_reachable.induct)
  case (start now node)
  show ?case
    by (simp add: names_inv_def new_brokers_def new_cluster_def new_broker_def broker_subscribers_def
        subscribers_wf_def consumers_wf_def registry_def)
next
  case (step w n event w')
  show ?case by (rule names_step [OF step.IH step.hyps(2,3)])
next
  case (time w t)
  then show ?case by (simp add: names_inv_def broker_subscribers_def executing_def)
qed

subsection \<open>The coordinators and the tasks\<close>

abbreviation broker_cluster_reachable :: "'d broker_env \<Rightarrow> cluster \<Rightarrow> bool" where
  "broker_cluster_reachable env \<equiv> cluster_reachable (be_orders env)
     (cc_leadership_max_duration (be_coordinator env) * 1000) (cc_max_time_since_last_seen (be_coordinator env))"

lemma coordinates_cluster:
  assumes "broker_coordinates env n event w = Some w'"
  shows "\<exists>duration age. duration = cc_leadership_max_duration (be_coordinator env) * 1000
    \<and> age = cc_max_time_since_last_seen (be_coordinator env)
    \<and> coordinate_step (be_orders env) duration (bw_clock w) age n event (bw_cluster w) = Some (bw_cluster w')"
  using assms by (auto simp: broker_coordinates_def Let_def split: option.splits)

lemma coordinates_nodes:
  assumes "broker_coordinates env n event w = Some w'"
  shows "bw_nodes w' = (bw_nodes w)(n := set_task_state Coordination
      (if co_pc (cl_nodes (bw_cluster w') n) = Finished then Ended (event \<noteq> Cancel)
       else Suspended (bw_clock w + coordination_sleep env (co_pc (cl_nodes (bw_cluster w) n))
         (co_pc (cl_nodes (bw_cluster w') n)))) (bw_nodes w n))
    \<and> bw_clock w' = bw_clock w"
  using assms by (auto simp: broker_coordinates_def Let_def split: option.splits)

lemma broker_step_cluster:
  assumes "broker_step env n event w = Some w'"
  shows "bw_cluster w' = (bw_cluster w)\<lparr>cl_subscribers := broker_store w'\<rparr>
    \<or> bw_cluster w' = coordinate_again n ((bw_cluster w)\<lparr>cl_subscribers := broker_store w'\<rparr>)
    \<or> (\<exists>e. broker_coordinates env n e w = Some w')"
proof (cases event)
  case Execute
  then show ?thesis using assms by (auto simp: begin_execution_def on_subscribers_def Let_def split: broker_phase.splits)
next
  case (CancelTask t)
  then show ?thesis
    using assms by (auto simp: cancel_group_task_def Let_def split: broker_phase.splits if_splits group_task_state.splits broker_task.splits)
qed (use assms in \<open>auto simp: broker_register_def beat_def beat_fails_def purge_round_def observe_round_def
    observe_fails_def end_execution_def on_subscribers_def Let_def
    split: broker_phase.splits if_splits prod.splits sum.splits\<close>)

lemma cluster_of_brokers: "broker_reachable env healthy slack w \<Longrightarrow> broker_cluster_reachable env (bw_cluster w)"
proof (induction rule: broker_reachable.induct)
  case (start now node)
  show ?case
    by (simp add: new_brokers_def cluster_reachable.start subscribers_wf_def)
next
  case (step w n event w')
  have "subscribers_wf (broker_store w')"
    using names_step [OF names_reachable [OF step.hyps(1)] step.hyps(2,3)] by (simp add: names_inv_def)
  note subscribers = cluster_reachable.subscribers [OF step.IH this]
  from broker_step_cluster [OF step.hyps(3)] show ?case
  proof (elim disjE exE)
    assume "bw_cluster w' = (bw_cluster w)\<lparr>cl_subscribers := broker_store w'\<rparr>"
    then show ?thesis using subscribers by metis
  next
    assume "bw_cluster w' = coordinate_again n ((bw_cluster w)\<lparr>cl_subscribers := broker_store w'\<rparr>)"
    then show ?thesis using cluster_reachable.again [OF subscribers] by metis
  next
    fix e assume "broker_coordinates env n e w = Some w'"
    from coordinates_cluster [OF this] show ?thesis using cluster_reachable.node [OF step.IH] by blast
  qed
qed simp

text \<open>How the tasks of a broker fit its phase, its statuses and its coordinator\<close>

fun observation_fits :: "group_task_state \<Rightarrow> process_status \<Rightarrow> bool" where
  "observation_fits (Suspended _) status \<longleftrightarrow> status = RUNNING"
| "observation_fits _ status \<longleftrightarrow> status \<in> {INITIALISED, STOPPED, ERRORED}"

fun coordination_fits :: "group_task_state \<Rightarrow> coordinator_pc \<Rightarrow> bool" where
  "coordination_fits (Suspended _) pc \<longleftrightarrow> pc \<notin> {NotStarted, Finished}"
| "coordination_fits (Scheduled _) pc \<longleftrightarrow> pc = NotStarted"
| "coordination_fits (Ended _) pc \<longleftrightarrow> pc \<in> {NotStarted, Finished}"

definition tasks_fit :: "'d broker \<Rightarrow> coordinator_pc \<Rightarrow> bool" where
  "tasks_fit b pc \<longleftrightarrow> (\<not> inside (bk_phase b) \<longrightarrow> all_over b)
     \<and> observation_fits (bk_tasks b Observation) (bk_observer_status b)
     \<and> coordination_fits (bk_tasks b Coordination) pc"

abbreviation broker_pc :: "nat \<Rightarrow> 'd brokers \<Rightarrow> coordinator_pc" where
  "broker_pc n w \<equiv> co_pc (cl_nodes (bw_cluster w) n)"

definition tasks_inv :: "'d brokers \<Rightarrow> bool" where
  "tasks_inv w \<longleftrightarrow> (\<forall>n. tasks_fit (bw_nodes w n) (broker_pc n w))"

lemma tasks_node:
  assumes "tasks_inv w" "\<And>m. m \<noteq> n \<Longrightarrow> bw_nodes w' m = bw_nodes w m \<and> broker_pc m w' = broker_pc m w"
    and "tasks_fit (bw_nodes w' n) (broker_pc n w')"
  shows "tasks_inv w'"
  unfolding tasks_inv_def using assms(1,2,3) unfolding tasks_inv_def by metis

lemma coordinate_again_pc:
  "coordination_fits (Ended failed) pc \<Longrightarrow> co_pc (cl_nodes c n) = pc
    \<Longrightarrow> co_pc (cl_nodes (coordinate_again n c) n) = NotStarted"
  by (auto simp: coordinate_again_def)

lemma tasks_coordinate:
  assumes "tasks_inv w" "broker_coordinates env n event w = Some w'"
    and "inside (bk_phase (bw_nodes w n))"
  shows "tasks_inv w'"
proof -
  obtain duration age where step:
    "coordinate_step (be_orders env) duration (bw_clock w) age n event (bw_cluster w) = Some (bw_cluster w')"
    using coordinates_cluster [OF assms(2)] by blast
  note w' = conjunct1 [OF coordinates_nodes [OF assms(2)]]
  show ?thesis
  proof (rule tasks_node [OF assms(1), of n])
    show "bw_nodes w' m = bw_nodes w m \<and> broker_pc m w' = broker_pc m w" if "m \<noteq> n" for m
      using that coordinate_step_frame(2) [OF step that] by (simp add: w')
    have "tasks_fit (bw_nodes w n) (broker_pc n w)" using assms(1) by (simp add: tasks_inv_def)
    moreover have "broker_pc n w' \<noteq> NotStarted"
      by (rule coordinate_step_frame(3) [OF step])
    ultimately show "tasks_fit (bw_nodes w' n) (broker_pc n w')"
      using assms(3) by (auto simp: tasks_fit_def w')
  qed
qed

lemma task_ready_inside: "task_ready now b t \<Longrightarrow> inside (bk_phase b)"
  by (auto simp: task_ready_def split: broker_phase.splits)

lemma tasks_same_pc:
  assumes "tasks_inv w" "bw_nodes w' = (bw_nodes w)(n := b)" "cl_nodes (bw_cluster w') = cl_nodes (bw_cluster w)"
    and "tasks_fit (bw_nodes w n) (broker_pc n w) \<Longrightarrow> tasks_fit b (broker_pc n w)"
  shows "tasks_inv w'"
  by (rule tasks_node [OF assms(1), of n]) (use assms in \<open>simp_all add: tasks_inv_def\<close>)

lemma tasks_begin:
  assumes "tasks_inv w" "\<not> inside (bk_phase (bw_nodes w n))"
  shows "tasks_inv (begin_execution n w)"
proof (rule tasks_node [OF assms(1), of n])
  let ?w = "begin_execution n w"
  show "bw_nodes ?w m = bw_nodes w m \<and> broker_pc m ?w = broker_pc m w" if "m \<noteq> n" for m
    using that by (simp add: begin_execution_def Let_def)
  have fit: "tasks_fit (bw_nodes w n) (broker_pc n w)" using assms(1) by (simp add: tasks_inv_def)
  then obtain f g where over: "bk_tasks (bw_nodes w n) Coordination = Ended f" "bk_tasks (bw_nodes w n) Observation = Ended g"
    using assms(2) by (auto simp: tasks_fit_def all_over_def elim!: task_over.elims)
  then show "tasks_fit (bw_nodes ?w n) (broker_pc n ?w)"
    using fit by (auto simp: tasks_fit_def begin_execution_def Let_def coordinate_again_def)
qed

lemma tasks_step:
  assumes "tasks_inv w" "broker_step env n event w = Some w'"
  shows "tasks_inv w'"
proof (cases event)
  case (Register s)
  then show ?thesis
    using assms(2) by (auto simp: broker_register_def Let_def tasks_fit_def all_over_def maintenance_over_def
        intro!: tasks_same_pc [OF assms(1)])
next
  case Execute
  then show ?thesis using assms(2) tasks_begin [OF assms(1), of n] by (auto split: broker_phase.splits)
next
  case (Beat health)
  then show ?thesis
    using assms(2)
    by (auto dest: task_ready_inside simp: beat_def tasks_fit_def intro!: tasks_same_pc [OF assms(1)] split: if_splits)
next
  case (BeatFails health k)
  then show ?thesis
    using assms(2)
    by (auto dest: task_ready_inside simp: beat_fails_def tasks_fit_def intro!: tasks_same_pc [OF assms(1)] split: if_splits)
next
  case Purge
  then show ?thesis
    using assms(2)
    by (auto dest: task_ready_inside simp: purge_round_def tasks_fit_def intro!: tasks_same_pc [OF assms(1)] split: if_splits)
next
  case PurgeFails
  then show ?thesis
    using assms(2)
    by (auto dest: task_ready_inside simp: tasks_fit_def intro!: tasks_same_pc [OF assms(1)] split: if_splits)
next
  case Observe
  then show ?thesis
    using assms(2)
    by (auto dest: task_ready_inside simp: observe_round_def Let_def tasks_fit_def intro!: tasks_same_pc [OF assms(1)]
        split: if_splits prod.splits sum.splits)
next
  case ObserveFails
  then show ?thesis
    using assms(2)
    by (auto dest: task_ready_inside simp: observe_fails_def tasks_fit_def intro!: tasks_same_pc [OF assms(1)] split: if_splits)
next
  case (Coordinate e)
  then show ?thesis
    using assms(2) tasks_coordinate [OF assms(1)] by (auto dest: task_ready_inside split: if_splits)
next
  case RequestCancel
  then show ?thesis
    using assms(2) by (auto simp: tasks_fit_def intro!: tasks_same_pc [OF assms(1)] split: broker_phase.splits)
next
  case (CancelTask t)
  then have inside: "inside (bk_phase (bw_nodes w n))" using assms(2) by (auto split: broker_phase.splits)
  have "tasks_inv w'" if "broker_coordinates env n Cancel w = Some w'"
    by (rule tasks_coordinate [OF assms(1) that inside])
  then show ?thesis
    using assms(2) CancelTask inside
    by (cases t) (auto simp: cancel_group_task_def Let_def tasks_fit_def intro!: tasks_same_pc [OF assms(1)]
        split: broker_phase.splits if_splits group_task_state.splits)
next
  case Stop
  then show ?thesis
    using assms(2) by (auto simp: end_execution_def Let_def tasks_fit_def all_over_def maintenance_over_def
        intro!: tasks_same_pc [OF assms(1)] split: broker_phase.splits if_splits)
qed

lemma tasks_reachable: "broker_reachable env healthy slack w \<Longrightarrow> tasks_inv w"
proof (induction rule: broker_reachable.induct)
  case (start now node)
  show ?case
    by (simp add: tasks_inv_def tasks_fit_def new_brokers_def new_broker_def new_cluster_def new_coordinator_def
        all_over_def maintenance_over_def)
next
  case (step w n event w')
  show ?case by (rule tasks_step [OF step.IH step.hyps(3)])
qed (simp add: tasks_inv_def)

text \<open>
  Cancelling the tasks of a group that aborts, one after the other. \<open>run_broker\<close> is a run of one
  broker while the others and the clock stand still.
\<close>

fun run_broker :: "'d broker_env \<Rightarrow> nat \<Rightarrow> 'd broker_event list \<Rightarrow> 'd brokers \<Rightarrow> 'd brokers option" where
  "run_broker env n [] w = Some w"
| "run_broker env n (event # events) w =
     (case broker_step env n event w of None \<Rightarrow> None | Some w' \<Rightarrow> run_broker env n events w')"

lemma run_broker_append:
  "run_broker env n (events @ events') w =
     (case run_broker env n events w of None \<Rightarrow> None | Some w' \<Rightarrow> run_broker env n events' w')"
  by (induction events arbitrary: w) (auto split: option.split)

lemma cancel_one:
  assumes "broker_reachable env healthy slack w" "executing n w" "task_aborting (bw_nodes w n) t"
  obtains events w' failed where "run_broker env n events w = Some w'" "broker_reachable env healthy slack w'" "executing n w'"
    "bk_phase (bw_nodes w' n) = bk_phase (bw_nodes w n)" "subscriber_keys n w' = subscriber_keys n w"
    "bk_tasks (bw_nodes w' n) = (bk_tasks (bw_nodes w n))(t := Ended failed)"
    "\<forall>failed'. bk_tasks (bw_nodes w n) t = Ended failed' \<longrightarrow> failed = failed'"
proof (cases "task_over (bk_tasks (bw_nodes w n) t)")
  case True
  then obtain failed where over: "bk_tasks (bw_nodes w n) t = Ended failed"
    by (cases "bk_tasks (bw_nodes w n) t") simp_all
  show thesis
    by (rule that [of "[]" w failed]) (use over assms(1,2) in \<open>simp_all add: fun_upd_idem\<close>)
next
  case False
  obtain cancelled where phase: "bk_phase (bw_nodes w n) = Inside cancelled"
    using assms(2) by (auto simp: executing_def elim!: inside.elims)
  have fit: "coordination_fits (bk_tasks (bw_nodes w n) Coordination) (broker_pc n w)"
    using tasks_reachable [OF assms(1)] by (simp add: tasks_inv_def tasks_fit_def)
  have "\<exists>w'. cancel_group_task env n t w = Some w' \<and> bk_phase (bw_nodes w' n) = bk_phase (bw_nodes w n)
      \<and> bk_observer (bw_nodes w' n) = bk_observer (bw_nodes w n)
      \<and> bk_tasks (bw_nodes w' n) = (bk_tasks (bw_nodes w n))(t := Ended False)"
    using False fit
    by (cases t; cases "bk_tasks (bw_nodes w n) t") (simp_all add: cancel_group_task_def Let_def broker_coordinates_def)
  then obtain w' where w': "cancel_group_task env n t w = Some w'" "bk_phase (bw_nodes w' n) = bk_phase (bw_nodes w n)"
    "bk_observer (bw_nodes w' n) = bk_observer (bw_nodes w n)"
    "bk_tasks (bw_nodes w' n) = (bk_tasks (bw_nodes w n))(t := Ended False)" by blast
  then have step: "broker_step env n (CancelTask t) w = Some w'" using phase assms(3) by simp
  show thesis
    by (rule that [of "[CancelTask t]" w' False])
      (use step w' assms(2) False broker_reachable.step [OF assms(1) _ step] in \<open>auto simp: executing_def broker_subscribers_def\<close>)
qed

lemma abort_ends:
  assumes "broker_reachable env healthy slack w" "executing n w" "maintenance_aborting (bw_nodes w n)"
  shows "\<exists>events w'. run_broker env n events w = Some w' \<and> broker_reachable env healthy slack w'
    \<and> executing n w' \<and> all_over (bw_nodes w' n) \<and> subscriber_keys n w' = subscriber_keys n w"
proof -
  have "task_aborting (bw_nodes w n) Heartbeats" using assms(3) by (simp add: task_aborting_def)
  then obtain e1 w1 f1 where 1: "run_broker env n e1 w = Some w1" "broker_reachable env healthy slack w1" "executing n w1"
    "bk_phase (bw_nodes w1 n) = bk_phase (bw_nodes w n)" "subscriber_keys n w1 = subscriber_keys n w"
    "bk_tasks (bw_nodes w1 n) = (bk_tasks (bw_nodes w n))(Heartbeats := Ended f1)"
    "\<forall>f'. bk_tasks (bw_nodes w n) Heartbeats = Ended f' \<longrightarrow> f1 = f'"
    by (rule cancel_one [OF assms(1,2)])
  have "task_aborting (bw_nodes w1 n) Purges"
    using assms(3) 1(7)
    by (auto simp: task_aborting_def maintenance_aborting_def execution_aborting_def maintenance_over_def 1(4,6))
  then obtain e2 w2 f2 where 2: "run_broker env n e2 w1 = Some w2" "broker_reachable env healthy slack w2" "executing n w2"
    "bk_phase (bw_nodes w2 n) = bk_phase (bw_nodes w1 n)" "subscriber_keys n w2 = subscriber_keys n w1"
    "bk_tasks (bw_nodes w2 n) = (bk_tasks (bw_nodes w1 n))(Purges := Ended f2)"
    "\<forall>f'. bk_tasks (bw_nodes w1 n) Purges = Ended f' \<longrightarrow> f2 = f'"
    by (rule cancel_one [OF 1(2,3)])
  have "task_aborting (bw_nodes w2 n) Observation"
    by (simp add: task_aborting_def execution_aborting_def maintenance_over_def 1(6) 2(6))
  then obtain e3 w3 f3 where 3: "run_broker env n e3 w2 = Some w3" "broker_reachable env healthy slack w3" "executing n w3"
    "bk_phase (bw_nodes w3 n) = bk_phase (bw_nodes w2 n)" "subscriber_keys n w3 = subscriber_keys n w2"
    "bk_tasks (bw_nodes w3 n) = (bk_tasks (bw_nodes w2 n))(Observation := Ended f3)"
    "\<forall>f'. bk_tasks (bw_nodes w2 n) Observation = Ended f' \<longrightarrow> f3 = f'"
    by (rule cancel_one [OF 2(2,3)])
  have "task_aborting (bw_nodes w3 n) Coordination"
    by (simp add: task_aborting_def execution_aborting_def maintenance_over_def 1(6) 2(6) 3(6))
  then obtain e4 w4 f4 where 4: "run_broker env n e4 w3 = Some w4" "broker_reachable env healthy slack w4" "executing n w4"
    "bk_phase (bw_nodes w4 n) = bk_phase (bw_nodes w3 n)" "subscriber_keys n w4 = subscriber_keys n w3"
    "bk_tasks (bw_nodes w4 n) = (bk_tasks (bw_nodes w3 n))(Coordination := Ended f4)"
    "\<forall>f'. bk_tasks (bw_nodes w3 n) Coordination = Ended f' \<longrightarrow> f4 = f'"
    by (rule cancel_one [OF 3(2,3)])
  have "run_broker env n (e1 @ e2 @ e3 @ e4) w = Some w4"
    by (simp add: run_broker_append 1(1) 2(1) 3(1) 4(1))
  moreover have "all_over (bw_nodes w4 n)"
    by (simp add: all_over_def maintenance_over_def 1(6) 2(6) 3(6) 4(6))
  moreover have "subscriber_keys n w4 = subscriber_keys n w" by (simp only: 4(5) 3(5) 2(5) 1(5))
  ultimately show ?thesis using 4(2,3) by blast
qed

lemma stop_ends:
  assumes "broker_reachable env healthy slack w" "executing n w" "all_over (bw_nodes w n)"
  shows "broker_step env n Stop w = Some (end_execution n w)" "\<not> executing n (end_execution n w)"
    and "key \<in> subscriber_keys n w \<Longrightarrow> registry (broker_store (end_execution n w)) key = None"
proof -
  show "broker_step env n Stop w = Some (end_execution n w)"
    using assms(2,3) by (auto simp: executing_def elim!: inside.elims)
  show "\<not> executing n (end_execution n w)" by (simp add: end_execution_def executing_def Let_def)
  show "registry (broker_store (end_execution n w)) key = None" if "key \<in> subscriber_keys n w"
    by (rule names_end(2) [OF names_reachable [OF assms(1)] that])
qed

lemma outside_status:
  assumes "set_orders_ok (be_orders env)" "broker_reachable env healthy slack w" "\<not> executing n w"
  shows "all_over (bw_nodes w n)" "broker_status n w \<in> {INITIALISED, STOPPING, STOPPED, ERRORED}"
proof -
  have fit: "tasks_fit (bw_nodes w n) (broker_pc n w)" using tasks_reachable [OF assms(2)] by (simp add: tasks_inv_def)
  then show over: "all_over (bw_nodes w n)" using assms(3) by (simp add: tasks_fit_def executing_def)
  then obtain f g where "bk_tasks (bw_nodes w n) Coordination = Ended f" "bk_tasks (bw_nodes w n) Observation = Ended g"
    by (auto simp: all_over_def elim!: task_over.elims)
  then have "bk_observer_status (bw_nodes w n) \<in> {INITIALISED, STOPPED, ERRORED}" "broker_pc n w \<in> {NotStarted, Finished}"
    using fit by (auto simp: tasks_fit_def)
  moreover have "node_ok (be_orders env) (bw_cluster w) n"
    using cluster_reachable_inv [OF assms(1) cluster_of_brokers [OF assms(2)]] by (simp add: cluster_inv_def)
  ultimately show "broker_status n w \<in> {INITIALISED, STOPPING, STOPPED, ERRORED}"
    by (auto simp: broker_status_def determine_multi_process_status_def)
qed

text \<open>
  C39. The life of brokers that share the stores and the lock manager, in whatever way they are
  executed, fail, are cancelled and are executed again. A broker that is not being executed has no
  subscriber registered, its tasks are over and its status is neither waiting nor running. One that
  is being executed and whose cancellation was requested, or of whose tasks one failed, can be
  brought to its end by cancelling the other tasks, and then has no subscriber registered. And no
  source is ever allocated twice.
\<close>

theorem broker_lifecycle:
  assumes "set_orders_ok (be_orders env)" "broker_reachable env healthy slack w"
  shows "(\<forall>n. \<not> executing n w \<longrightarrow>
        (\<forall>key \<in> dom (map_of (broker_subscribers n w)). registry (cl_subscribers (bw_cluster w)) key = None)
        \<and> all_over (bw_nodes w n) \<and> broker_status n w \<in> {INITIALISED, STOPPING, STOPPED, ERRORED})
    \<and> (\<forall>n. executing n w \<and> maintenance_aborting (bw_nodes w n) \<longrightarrow>
        (\<exists>events w'. run_broker env n (events @ [Stop]) w = Some w' \<and> \<not> executing n w'
          \<and> (\<forall>key \<in> dom (map_of (broker_subscribers n w)). registry (cl_subscribers (bw_cluster w')) key = None)))
    \<and> exclusive (allocation (subscription_list (cl_subscriptions (bw_cluster w))))"
proof (intro conjI allI impI ballI)
  note names = names_reachable [OF assms(2)]
  show "exclusive (allocation (subscription_list (cl_subscriptions (bw_cluster w))))"
    using cluster_reachable_inv [OF assms(1) cluster_of_brokers [OF assms(2)]] by (simp add: cluster_inv_def)
  show "registry (broker_store w) key = None" if "\<not> executing n w" "key \<in> subscriber_keys n w" for n key
    using names that unfolding names_inv_def by (metis disjoint_iff)
  show "all_over (bw_nodes w n)" "broker_status n w \<in> {INITIALISED, STOPPING, STOPPED, ERRORED}"
    if "\<not> executing n w" for n by (rule outside_status [OF assms that])+
  fix n assume "executing n w \<and> maintenance_aborting (bw_nodes w n)"
  then obtain events w1 where w1: "run_broker env n events w = Some w1" "broker_reachable env healthy slack w1"
    "executing n w1" "all_over (bw_nodes w1 n)" "subscriber_keys n w1 = subscriber_keys n w"
    using abort_ends [OF assms(2)] by metis
  note stop = stop_ends [OF w1(2-4)]
  have "run_broker env n (events @ [Stop]) w = Some (end_execution n w1)"
    using stop(1) by (simp add: run_broker_append w1(1))
  then show "\<exists>events w'. run_broker env n (events @ [Stop]) w = Some w' \<and> \<not> executing n w'
      \<and> (\<forall>key \<in> subscriber_keys n w. registry (broker_store w') key = None)"
    using stop(2,3) w1(5) by metis
qed

subsection \<open>Heartbeats in time\<close>

definition beat_ok :: "'d broker_env \<Rightarrow> (event_subscriber_key \<Rightarrow> bool) \<Rightarrow> timedelta option \<Rightarrow> nat \<Rightarrow> 'd brokers \<Rightarrow> bool" where
  "beat_ok env healthy slack n w \<longleftrightarrow>
     (\<forall>due. heartbeat_due n w = Some due \<longrightarrow>
        (\<forall>s. slack = Some s \<longrightarrow> bw_clock w \<le> due + s)
        \<and> (\<forall>key \<in> subscriber_keys n w. \<forall>requests seen. healthy key \<longrightarrow>
             registry (broker_store w) key = Some (requests, seen)
             \<longrightarrow> due \<le> seen + mc_heartbeat_interval (be_manager env)))"

text \<open>What a step does to the registrations: of the broker's own subscribers and of others\<close>

lemma coordinates_store:
  assumes "broker_coordinates env n event w = Some w'"
  shows "broker_store w' = broker_store w"
  using coordinates_cluster [OF assms] coordinate_step_frame(1) by blast

fun stored_by :: "'d broker_env \<Rightarrow> nat \<Rightarrow> 'd broker_event \<Rightarrow> 'd brokers \<Rightarrow> subscriber_store" where
  "stored_by env n Execute w = fold (subscriber_add (bw_clock w)) (instances_list (broker_subscribers n w)) (broker_store w)"
| "stored_by env n (Beat health) w = fold (beat_one health (bw_clock w)) (instances_list (broker_subscribers n w)) (broker_store w)"
| "stored_by env n (BeatFails health k) w =
     fold (beat_one health (bw_clock w)) (instances_list (take k (broker_subscribers n w))) (broker_store w)"
| "stored_by env n Purge w = subscriber_purge (bw_clock w) (mc_subscriber_max_age (be_manager env)) (broker_store w)"
| "stored_by env n Stop w = fold subscriber_remove (instances_list (broker_subscribers n w)) (broker_store w)"
| "stored_by env n _ w = broker_store w"

lemma step_store:
  assumes "broker_step env n event w = Some w'"
  shows "broker_store w' = stored_by env n event w"
  using assms
  by (cases event) (auto simp: broker_register_def begin_execution_def beat_def beat_fails_def purge_round_def
      observe_round_def observe_fails_def end_execution_def cancel_group_task_def Let_def broker_subscribers_def
      manager_register_def manager_unregister_def heartbeat_round_def dest: coordinates_store
      split: broker_phase.splits if_splits prod.splits sum.splits group_task_state.splits broker_task.splits)

lemma step_others:
  assumes "broker_step env n event w = Some w'"
  shows "bw_clock w' = bw_clock w \<and> (m \<noteq> n \<longrightarrow> bw_nodes w' m = bw_nodes w m)"
  using assms
  by (cases event) (auto simp: broker_register_def begin_execution_def beat_def beat_fails_def purge_round_def
      observe_round_def observe_fails_def end_execution_def cancel_group_task_def Let_def dest: coordinates_nodes
      split: broker_phase.splits if_splits prod.splits sum.splits group_task_state.splits broker_task.splits)

lemma stored_registry:
  fixes w :: "'d brokers"
  assumes "names_inv w"
  shows "key \<notin> subscriber_keys n w \<Longrightarrow> event \<noteq> Purge
      \<Longrightarrow> registry (stored_by env n event w) key = registry (broker_store w) key"
    and "event \<notin> {Execute, Stop} \<Longrightarrow> registry (stored_by env n event w) key \<noteq> None \<Longrightarrow> registry (broker_store w) key \<noteq> None"
    and "event \<notin> {Purge, Stop} \<Longrightarrow> registry (broker_store w) key \<noteq> None \<Longrightarrow> registry (stored_by env n event w) key \<noteq> None"
proof -
  have inv: "subscribers_wf (broker_store w)" "consumers_wf (broker_subscribers n w)"
    using assms by (auto simp: names_inv_def)
  let ?ss = "instances_list (broker_subscribers n w)"
  have keys: "sb_key ` set ?ss = subscriber_keys n w" by (rule consumers_keys [OF inv(2)])
  have part: "sb_key ` set (instances_list (take k (broker_subscribers n w))) \<subseteq> subscriber_keys n w" for k
    unfolding keys [symmetric] instances_list_def dict_values_def
    by (intro image_mono) (auto dest: in_set_takeD simp: take_map [symmetric])
  let ?add = "registry (fold (subscriber_add (bw_clock w)) ?ss (broker_store w)) key"
  have add: "key \<notin> subscriber_keys n w \<Longrightarrow> ?add = registry (broker_store w) key"
    "registry (broker_store w) key \<noteq> None \<Longrightarrow> ?add \<noteq> None"
    using register_effect [OF inv(1), of "bw_clock w" ?ss key, unfolded keys]
    by (simp, cases "key \<in> subscriber_keys n w", auto simp del: domIff)
  have remove: "key \<notin> subscriber_keys n w \<Longrightarrow> registry (fold subscriber_remove ?ss (broker_store w)) key = registry (broker_store w) key"
    using unregister_effect [OF inv(1), of ?ss key, unfolded keys] by simp
  have beats: "registry (fold (beat_one health now) ss (broker_store w)) key = None \<longleftrightarrow> registry (broker_store w) key = None"
    "key \<notin> sb_key ` set ss \<Longrightarrow> registry (fold (beat_one health now) ss (broker_store w)) key = registry (broker_store w) key"
    for health now and ss :: "'d subscription_consumer list" using beat_effect [OF inv(1), of health now ss key] by simp_all
  have purge: "registry (subscriber_purge now age (broker_store w)) key \<noteq> None \<Longrightarrow> registry (broker_store w) key \<noteq> None" for now age
    using purge_effect(2) [OF inv(1), of now age key] by simp
  show "registry (stored_by env n event w) key = registry (broker_store w) key"
    if outsider: "key \<notin> subscriber_keys n w" "event \<noteq> Purge"
  proof -
    have "key \<notin> sb_key ` set (instances_list (take k (broker_subscribers n w)))" for k using part outsider(1) by blast
    note first = beats(2) [OF this]
    show ?thesis
      using outsider add(1) [OF outsider(1)] remove [OF outsider(1)] beats(2) [of ?ss, unfolded keys, OF outsider(1)]
        first by (cases event) (simp_all only: stored_by.simps not_True_eq_False simp_thms)
  qed
  show "registry (broker_store w) key \<noteq> None"
    if "event \<notin> {Execute, Stop}" "registry (stored_by env n event w) key \<noteq> None"
    using that purge beats(1) by (cases event) (simp_all del: not_None_eq)
  show "registry (stored_by env n event w) key \<noteq> None"
    if "event \<notin> {Purge, Stop}" "registry (broker_store w) key \<noteq> None"
    using that add(2) beats(1) by (cases event) (simp_all del: not_None_eq)
qed

lemma stored_others:
  assumes "names_inv w" "m \<noteq> n" "key \<in> subscriber_keys m w"
  shows "registry (stored_by env n event w) key \<in> {None, registry (broker_store w) key}"
proof (cases "event = Purge")
  case True
  have "subscribers_wf (broker_store w)" using assms(1) by (simp add: names_inv_def)
  then show ?thesis using purge_effect(2) [of "broker_store w"] True by (metis insert_iff stored_by.simps(4))
next
  case False
  have "key \<notin> subscriber_keys n w" using assms unfolding names_inv_def by (metis disjoint_iff)
  then show ?thesis using stored_registry(1) [OF assms(1) _ False] by simp
qed

lemma beat_other:
  assumes "names_inv w" "broker_step env n event w = Some w'" "m \<noteq> n" "beat_ok env healthy slack m w"
  shows "beat_ok env healthy slack m w'"
proof -
  have same: "bw_nodes w' m = bw_nodes w m" "bw_clock w' = bw_clock w" using step_others [OF assms(2)] assms(3) by simp_all
  then have keys: "subscriber_keys m w' = subscriber_keys m w" "heartbeat_due m w' = heartbeat_due m w"
    by (simp_all add: broker_subscribers_def heartbeat_due_def)
  show ?thesis
    using assms(4) stored_others [OF assms(1,3), of _ env event]
    unfolding beat_ok_def keys same(2) step_store [OF assms(2)] by (metis empty_iff insert_iff option.distinct(1))
qed

lemma beat_begin:
  assumes "names_inv w" "0 \<le> mc_heartbeat_interval (be_manager env)" "\<forall>s. slack = Some s \<longrightarrow> 0 \<le> s"
  shows "beat_ok env healthy slack n (begin_execution n w)"
    and "key \<in> subscriber_keys n w \<Longrightarrow> registry (broker_store (begin_execution n w)) key \<noteq> None"
proof -
  let ?w = "begin_execution n w"
  have inv: "subscribers_wf (broker_store w)" "consumers_wf (broker_subscribers n w)"
    using assms(1) by (auto simp: names_inv_def)
  have sel: "broker_store ?w = fold (subscriber_add (bw_clock w)) (instances_list (broker_subscribers n w)) (broker_store w)"
    "subscriber_keys n ?w = subscriber_keys n w" "heartbeat_due n ?w = Some (bw_clock w)" "bw_clock ?w = bw_clock w"
    by (simp_all add: begin_execution_def Let_def manager_register_def broker_subscribers_def heartbeat_due_def)
  have seen: "\<exists>requests. registry (broker_store ?w) key = Some (requests, bw_clock w)" if "key \<in> subscriber_keys n w" for key
    using register_effect [OF inv(1), of "bw_clock w" "instances_list (broker_subscribers n w)" key] that
    unfolding sel(1) consumers_keys [OF inv(2)] by blast
  have "bw_clock w \<le> since + mc_heartbeat_interval (be_manager env)"
    if "key \<in> subscriber_keys n w" "registry (broker_store ?w) key = Some (requests, since)" for key requests since
    using seen [OF that(1)] that(2) assms(2) by auto
  then show "beat_ok env healthy slack n ?w"
    using assms(3) unfolding beat_ok_def sel(2,3,4) by simp
  show "registry (broker_store ?w) key \<noteq> None" if "key \<in> subscriber_keys n w" using seen [OF that] by auto
qed

lemma beat_beats:
  assumes "names_inv w" "0 \<le> mc_heartbeat_interval (be_manager env)" "\<forall>s. slack = Some s \<longrightarrow> 0 \<le> s"
    and "\<forall>s. healthy (sb_key s) \<longrightarrow> health s = HEALTHY"
  shows "beat_ok env healthy slack n (beat env n health w)"
proof -
  let ?w = "beat env n health w" and ?ss = "instances_list (broker_subscribers n w)"
  have inv: "subscribers_wf (broker_store w)" "consumers_wf (broker_subscribers n w)"
    using assms(1) by (auto simp: names_inv_def)
  have sel: "broker_store ?w = fold (beat_one health (bw_clock w)) ?ss (broker_store w)"
    "subscriber_keys n ?w = subscriber_keys n w"
    "heartbeat_due n ?w = Some (bw_clock w + mc_heartbeat_interval (be_manager env))" "bw_clock ?w = bw_clock w"
    by (simp_all add: beat_def heartbeat_round_def broker_subscribers_def heartbeat_due_def)
  have "seen = bw_clock w"
    if own: "key \<in> subscriber_keys n w" "healthy key" "registry (broker_store ?w) key = Some (requests, seen)"
    for key requests seen
  proof -
    have "key \<in> sb_key ` set ?ss" unfolding consumers_keys [OF inv(2)] by (rule own(1))
    then obtain s where s: "s \<in> set ?ss" "sb_key s = key" by (elim imageE) simp
    have "healthy (sb_key s)" unfolding s(2) by (rule own(2))
    then have "health s = HEALTHY" by (rule assms(4) [rule_format])
    moreover have "registry (fold (beat_one health (bw_clock w)) ?ss (broker_store w)) key = Some (requests, seen)"
      using own(3) by (simp only: sel(1))
    ultimately show ?thesis
      using conjunct2 [OF conjunct2 [OF conjunct2 [OF beat_effect [OF inv(1), of health "bw_clock w" ?ss key]]]] s
      by blast
  qed
  then show ?thesis
    using assms(2,3) unfolding beat_ok_def sel(2,3,4) by auto
qed

text \<open>Steps that leave the heartbeats and the subscribers of their broker alone\<close>

lemma beat_same:
  assumes "broker_step env n event w = Some w'" "beat_ok env healthy slack n w"
    and "heartbeat_due n w' \<in> {None, heartbeat_due n w}" "subscriber_keys n w' = subscriber_keys n w"
    and "\<And>key. registry (broker_store w') key \<in> {None, registry (broker_store w) key}"
  shows "beat_ok env healthy slack n w'"
proof -
  have "bw_clock w' = bw_clock w" using step_others [OF assms(1)] by simp
  then show ?thesis using assms(2-5) unfolding beat_ok_def by (metis empty_iff insert_iff option.distinct(1))
qed

lemma beat_over: "heartbeat_due n w = None \<Longrightarrow> beat_ok env healthy slack n w"
  by (simp add: beat_ok_def)

lemma beat_register:
  assumes "names_inv w" "beat_ok env healthy slack n w" "admissible healthy n (Register s) w"
  shows "beat_ok env healthy slack n (broker_register n s w)"
proof -
  let ?w = "broker_register n s w"
  have sel: "broker_store ?w = broker_store w" "heartbeat_due n ?w = heartbeat_due n w" "bw_clock ?w = bw_clock w"
    "subscriber_keys n ?w = insert (sb_key s) (subscriber_keys n w)"
    by (simp_all add: broker_register_def broker_subscribers_def heartbeat_due_def Let_def instances_add_def dom_update)
  have "sb_key s \<in> subscriber_keys n w" if "registry (broker_store w) (sb_key s) = Some x" for x
    using assms(1,3) that unfolding names_inv_def by (metis admissible.simps(1) option.distinct(1))
  then show ?thesis using assms(2) unfolding beat_ok_def sel by blast
qed

lemma step_due:
  assumes "broker_step env n event w = Some w'"
    and "case event of Register s \<Rightarrow> False | Execute \<Rightarrow> False | Beat health \<Rightarrow> False | _ \<Rightarrow> True"
  shows "heartbeat_due n w' \<in> {None, heartbeat_due n w}"
  using assms
  by (cases event) (auto simp: heartbeat_due_def beat_fails_def purge_round_def observe_round_def observe_fails_def
      end_execution_def cancel_group_task_def Let_def dest: coordinates_nodes
      split: broker_phase.splits if_splits prod.splits sum.splits group_task_state.splits broker_task.splits)

lemma step_keys:
  assumes "names_inv w" "broker_step env n event w = Some w'"
    and "case event of Register s \<Rightarrow> False | _ \<Rightarrow> True"
  shows "subscriber_keys n w' = subscriber_keys n w"
proof (cases event)
  case Observe
  obtain ob r where sync: "synchronise (be_constructors env) (be_delegate_factory env) (be_delta_order env)
      (cl_subscriptions (bw_cluster w)) (bk_observer (bw_nodes w n)) = (ob, r)" by fastforce
  have "consumers_wf (ob_subscribers (bk_observer (bw_nodes w n)))"
    using assms(1) by (simp add: names_inv_def broker_subscribers_def)
  then have "dom (map_of (ob_subscribers ob)) = dom (map_of (ob_subscribers (bk_observer (bw_nodes w n))))"
    using synchronise_keys [of "bk_observer (bw_nodes w n)" "be_constructors env" "be_delegate_factory env"
        "be_delta_order env" "cl_subscriptions (bw_cluster w)"] by (simp add: sync)
  moreover have "broker_subscribers n w' = ob_subscribers ob"
    using assms(2) Observe
    by (cases r) (auto simp: observe_round_def sync broker_subscribers_def Let_def split: if_splits)
  ultimately show ?thesis by (simp only: broker_subscribers_def)
qed (use assms(2,3) in \<open>auto simp: begin_execution_def beat_def beat_fails_def purge_round_def
      observe_fails_def end_execution_def cancel_group_task_def Let_def broker_subscribers_def dest!: coordinates_nodes
      split: broker_phase.splits if_splits group_task_state.splits broker_task.splits\<close>)

lemma stored_own:
  fixes w :: "'d brokers"
  assumes "names_inv w" "case event of Execute \<Rightarrow> False | Beat health \<Rightarrow> False | BeatFails health k \<Rightarrow> False | _ \<Rightarrow> True"
  shows "registry (stored_by env n event w) key \<in> {None, registry (broker_store w) key}"
proof -
  have wf: "subscribers_wf (broker_store w)" using assms(1) by (simp add: names_inv_def)
  have purge: "registry (subscriber_purge now age (broker_store w)) key \<in> {None, registry (broker_store w) key}" for now age
    using purge_effect(2) [OF wf] by (metis insert_iff)
  have remove: "registry (fold subscriber_remove ss (broker_store w)) key \<in> {None, registry (broker_store w) key}"
    for ss :: "'d subscription_consumer list" using unregister_effect [OF wf, of ss key] by simp
  show ?thesis
    by (cases event) (use assms(2) in \<open>simp_all add: purge [simplified] remove [simplified]\<close>)
qed

lemma beats_step:
  assumes "names_inv w" "\<forall>m. beat_ok env healthy slack m w"
    and "0 \<le> mc_heartbeat_interval (be_manager env)" "\<forall>s. slack = Some s \<longrightarrow> 0 \<le> s"
    and "admissible healthy n event w" "broker_step env n event w = Some w'"
  shows "beat_ok env healthy slack m w'"
proof (cases "m = n")
  case False
  show ?thesis by (rule beat_other [OF assms(1,6) False spec [OF assms(2)]])
next
  case True
  have same: ?thesis if "case event of Register s \<Rightarrow> False | Execute \<Rightarrow> False | Beat health \<Rightarrow> False
      | BeatFails health k \<Rightarrow> False | _ \<Rightarrow> True"
    unfolding True
  proof (rule beat_same [OF assms(6) spec [OF assms(2)]])
    show "heartbeat_due n w' \<in> {None, heartbeat_due n w}" by (rule step_due [OF assms(6)]) (use that in \<open>cases event; simp\<close>)
    show "subscriber_keys n w' = subscriber_keys n w" by (rule step_keys [OF assms(1,6)]) (use that in \<open>cases event; simp\<close>)
    show "registry (broker_store w') key \<in> {None, registry (broker_store w) key}" for key
      unfolding step_store [OF assms(6)] by (rule stored_own [OF assms(1)]) (use that in \<open>cases event; simp\<close>)
  qed
  show ?thesis
  proof (cases event)
    case (Register s)
    then show ?thesis using beat_register [OF assms(1) spec [OF assms(2)]] assms(5,6) True by auto
  next
    case Execute
    then show ?thesis
      using beat_begin(1) [OF assms(1,3,4)] assms(6) True by (auto split: broker_phase.splits)
  next
    case (Beat health)
    then show ?thesis using beat_beats [OF assms(1,3,4), of healthy health] assms(5,6) True by (auto split: if_splits)
  next
    case (BeatFails health k)
    then show ?thesis
      using assms(6) True by (intro beat_over) (auto simp: beat_fails_def heartbeat_due_def split: if_splits)
  qed (use same in simp_all)
qed

lemma beats_reachable:
  assumes "0 \<le> mc_heartbeat_interval (be_manager env)" "\<forall>s. slack = Some s \<longrightarrow> 0 \<le> s"
  shows "broker_reachable env healthy slack w \<Longrightarrow> \<forall>n. beat_ok env healthy slack n w"
proof (induction rule: broker_reachable.induct)
  case (start now node)
  show ?case by (simp add: beat_ok_def heartbeat_due_def new_brokers_def new_broker_def)
next
  case (step w n event w')
  show ?case using beats_step [OF names_reachable [OF step.hyps(1)] step.IH assms step.hyps(2,3)] by blast
next
  case (time w t)
  have "heartbeat_due n (w\<lparr>bw_clock := t\<rparr>) = heartbeat_due n w"
    "broker_subscribers n (w\<lparr>bw_clock := t\<rparr>) = broker_subscribers n w" for n
    by (simp_all add: heartbeat_due_def broker_subscribers_def)
  then show ?case using time.IH time.hyps(3) by (simp add: beat_ok_def timely_def)
qed

lemma seen_in_time:
  assumes "names_inv w" "beat_ok env healthy (Some slack) n w" "heartbeat_due n w = Some due"
    and "key \<in> subscriber_keys n w" "healthy key" "registry (broker_store w) key = Some (requests, seen)"
  defines "late \<equiv> mc_heartbeat_interval (be_manager env) + slack"
  shows "bw_clock w \<le> seen + late"
    and "late < age \<Longrightarrow> key \<in> ss_key ` set (subscriber_list (bw_clock w) None (Some age) (broker_store w))"
    and "late < mc_subscriber_max_age (be_manager env) \<Longrightarrow> broker_step env m event w = Some w'
      \<Longrightarrow> registry (broker_store w') key \<noteq> None"
proof -
  have wf: "subscribers_wf (broker_store w)" using assms(1) by (simp add: names_inv_def)
  show seen: "bw_clock w \<le> seen + late" using assms(2-6) unfolding beat_ok_def late_def by fastforce
  obtain s where s: "s \<in> set (sts_subscribers (broker_store w))" "ss_key s = key" "ss_last_seen s = seen"
    using assms(6) registry_Some [OF wf] by blast
  show "key \<in> ss_key ` set (subscriber_list (bw_clock w) None (Some age) (broker_store w))" if "late < age"
    by (rule image_eqI [of _ _ s]) (use s seen that in \<open>simp_all add: subscriber_list_def\<close>)
  show "registry (broker_store w') key \<noteq> None"
    if late: "late < mc_subscriber_max_age (be_manager env)" and step: "broker_step env m event w = Some w'"
  proof (cases "event \<in> {Purge, Stop}")
    case False
    then show ?thesis using stored_registry(3) [OF assms(1)] assms(6) unfolding step_store [OF step] by simp
  next
    case True
    show ?thesis
    proof (cases "event = Purge")
      case True
      have "bw_clock w - mc_subscriber_max_age (be_manager env) < seen" using seen late by simp
      from registry_purge_live [OF wf assms(6) this] show ?thesis unfolding step_store [OF step] True by simp
    next
      case False
      then have stop: "event = Stop" using True by simp
      have "m \<noteq> n"
        using step assms(3) by (auto simp: stop heartbeat_due_def all_over_def maintenance_over_def
            elim!: task_over.elims split: broker_phase.splits if_splits)
      then have "key \<notin> subscriber_keys m w" using assms(1,4) unfolding names_inv_def by (metis disjoint_iff)
      then show ?thesis using stored_registry(1) [OF assms(1) _ False] assms(6) unfolding step_store [OF step] by simp
    qed
  qed
qed

lemma unregistered_step:
  assumes "names_inv w" "executing n w" "key \<in> subscriber_keys n w" "registry (broker_store w) key = None"
    and "broker_step env m event w = Some w'"
  shows "registry (broker_store w') key = None"
proof (cases "event \<in> {Execute, Stop}")
  case False
  then show ?thesis using stored_registry(2) [OF assms(1)] assms(4) unfolding step_store [OF assms(5)] by blast
next
  case True
  show ?thesis
  proof (cases "m = n")
    case False
    then have "key \<notin> subscriber_keys m w" using assms(1,3) unfolding names_inv_def by (metis disjoint_iff)
    moreover have "event \<noteq> Purge" using True by auto
    ultimately show ?thesis using stored_registry(1) [OF assms(1)] assms(4) unfolding step_store [OF assms(5)] by simp
  next
    case own: True
    then have "event = Stop" using True assms(2,5) by (auto simp: executing_def split: broker_phase.splits)
    then show ?thesis
      using assms(5) names_end(2) [OF assms(1,3)] own by (auto split: broker_phase.splits if_splits)
  qed
qed

text \<open>
  C40. Heartbeats in time. A broker that begins to be executed registers its subscribers. If its
  heartbeats are at most \<open>slack\<close> late then, as long as they go on, each of its subscribers that is
  healthy and registered was last seen no longer ago than the heartbeat interval and the slack; so
  if that is less than the age the coordinator admits, it is among those sources are distributed to,
  and if it is less than the maximum age, no step of any broker, a purge in particular, removes it.
  But one that is not registered, because it was added later or was purged while it was unhealthy,
  is never registered while the execution goes on: heartbeats do not bring it back.
\<close>

theorem healthy_subscribers_stay:
  assumes "0 \<le> mc_heartbeat_interval (be_manager env)" "0 \<le> slack"
    and "broker_reachable env healthy (Some slack) w"
  shows "(\<forall>n w' key. broker_step env n Execute w = Some w' \<longrightarrow> key \<in> dom (map_of (broker_subscribers n w))
        \<longrightarrow> registry (cl_subscribers (bw_cluster w')) key \<noteq> None)
    \<and> (\<forall>n due key requests seen. heartbeat_due n w = Some due \<longrightarrow> key \<in> dom (map_of (broker_subscribers n w))
        \<longrightarrow> healthy key \<longrightarrow> registry (cl_subscribers (bw_cluster w)) key = Some (requests, seen) \<longrightarrow>
        (let late = mc_heartbeat_interval (be_manager env) + slack
         in bw_clock w \<le> seen + late
          \<and> (late < cc_max_time_since_last_seen (be_coordinator env) \<longrightarrow>
               key \<in> ss_key ` set (subscriber_list (bw_clock w) None
                 (Some (cc_max_time_since_last_seen (be_coordinator env))) (cl_subscribers (bw_cluster w))))
          \<and> (late < mc_subscriber_max_age (be_manager env) \<longrightarrow>
               (\<forall>m event w'. broker_step env m event w = Some w'
                  \<longrightarrow> registry (cl_subscribers (bw_cluster w')) key \<noteq> None))))
    \<and> (\<forall>n key m event w'. executing n w \<longrightarrow> key \<in> dom (map_of (broker_subscribers n w))
        \<longrightarrow> registry (cl_subscribers (bw_cluster w)) key = None \<longrightarrow> broker_step env m event w = Some w'
        \<longrightarrow> registry (cl_subscribers (bw_cluster w')) key = None)"
proof (intro conjI allI impI)
  note names = names_reachable [OF assms(3)]
  have slack: "\<forall>s. Some slack = Some s \<longrightarrow> 0 \<le> s" using assms(2) by simp
  note beats = beats_reachable [OF assms(1) slack assms(3)]
  show "registry (broker_store w') key \<noteq> None"
    if "broker_step env n Execute w = Some w'" "key \<in> subscriber_keys n w" for n w' key
    using that beat_begin(2) [OF names assms(1) slack that(2)] by (auto split: broker_phase.splits)
  show "let late = mc_heartbeat_interval (be_manager env) + slack
         in bw_clock w \<le> seen + late
          \<and> (late < cc_max_time_since_last_seen (be_coordinator env) \<longrightarrow>
               key \<in> ss_key ` set (subscriber_list (bw_clock w) None
                 (Some (cc_max_time_since_last_seen (be_coordinator env))) (broker_store w)))
          \<and> (late < mc_subscriber_max_age (be_manager env) \<longrightarrow>
               (\<forall>m event w'. broker_step env m event w = Some w' \<longrightarrow> registry (broker_store w') key \<noteq> None))"
    if "heartbeat_due n w = Some due" "key \<in> subscriber_keys n w" "healthy key"
      "registry (broker_store w) key = Some (requests, seen)" for n due key requests seen
    using seen_in_time [OF names spec [OF beats] that] unfolding Let_def by blast
  show "registry (broker_store w') key = None"
    if "executing n w" "key \<in> subscriber_keys n w" "registry (broker_store w) key = None"
      "broker_step env m event w = Some w'" for n key m event w'
    by (rule unregistered_step [OF names that])
qed

definition sample_env :: "store_source broker_env" where
  "sample_env =
     \<lparr>be_manager = \<lparr>mc_node_id = ''n'', mc_heartbeat_interval = 10000000, mc_purge_interval = 60000000,
        mc_subscriber_max_age = 600000000\<rparr>,
      be_coordinator = \<lparr>cc_node_id = ''n'', cc_max_time_since_last_seen = 60000000,
        cc_distribution_interval = 20000000, cc_leadership_max_duration = 900000000,
        cc_leadership_attempt_interval = 5000000\<rparr>,
      be_observer = \<lparr>oc_node_id = ''n'', oc_synchronisation_interval = 20000000\<rparr>,
      be_orders = insertion_orders, be_constructors = event_store_source_factory,
      be_delegate_factory = (\<lambda>source. source), be_delta_order = (\<lambda>cs. cs)\<rparr>"

definition sample_member :: "store_source subscription_consumer" where
  "sample_member = make_subscriber ''g'' (Some ''a'') ''u'' (CategoryIdentifier ''c'')"

text \<open>Registered, executed, and one heartbeat sent on time, twelve seconds later\<close>

definition sample_executing :: "store_source brokers" where
  "sample_executing = begin_execution 0 (broker_register 0 sample_member (new_brokers 0 ''n''))"

definition sample_beaten :: "store_source brokers" where
  "sample_beaten = beat sample_env 0 subscriber_health (sample_executing\<lparr>bw_clock := 12000000\<rparr>)"

lemma sample_executing_reachable: "broker_reachable sample_env (\<lambda>_. True) (Some 15000000) sample_executing"
proof -
  have "admissible (\<lambda>_. True) 0 (Register sample_member) (new_brokers 0 ''n'')"
    by (simp add: new_brokers_def new_broker_def broker_subscribers_def)
  from broker_reachable.step [OF broker_reachable.start this]
  have "broker_reachable sample_env (\<lambda>_. True) (Some 15000000) (broker_register 0 sample_member (new_brokers 0 ''n''))"
    by simp
  from broker_reachable.step [OF this, of 0 Execute] show ?thesis
    by (simp add: sample_executing_def broker_register_def new_brokers_def new_broker_def Let_def)
qed

lemma sample_beaten_reachable: "broker_reachable sample_env (\<lambda>_. True) (Some 15000000) sample_beaten"
proof -
  have sel: "bw_clock sample_executing = 0" by code_simp
  have due: "heartbeat_due n sample_executing = (if n = 0 then Some 0 else None)" for n
    by (simp add: sample_executing_def begin_execution_def broker_register_def heartbeat_due_def new_brokers_def
        new_broker_def Let_def)
  have "broker_reachable sample_env (\<lambda>_. True) (Some 15000000) (sample_executing\<lparr>bw_clock := 12000000\<rparr>)"
    by (rule broker_reachable.time [OF sample_executing_reachable]) (simp_all add: sel timely_def due)
  from broker_reachable.step [OF this, of 0 "Beat subscriber_health"] show ?thesis
    by (simp add: sample_beaten_def subscriber_health_def task_ready_def sample_executing_def begin_execution_def
        broker_register_def new_brokers_def new_broker_def Let_def)
qed

theorem healthy_subscribers_stay_witness:
  "heartbeat_due 0 sample_beaten = Some 22000000
    \<and> registry (cl_subscribers (bw_cluster sample_beaten)) (EventSubscriberKey ''g'' ''a'')
        = Some ([CategoryIdentifier ''c''], 12000000)
    \<and> EventSubscriberKey ''g'' ''a'' \<in> ss_key ` set (subscriber_list 12000000 None (Some 60000000)
         (cl_subscribers (bw_cluster sample_beaten)))"
proof -
  have eval: "heartbeat_due 0 sample_beaten = Some 22000000"
    "registry (broker_store sample_beaten) (EventSubscriberKey ''g'' ''a'') = Some ([CategoryIdentifier ''c''], 12000000)"
    "map_of (broker_subscribers 0 sample_beaten) (EventSubscriberKey ''g'' ''a'') \<noteq> None"
    "bw_clock sample_beaten = 12000000"
    by code_simp+
  have env: "mc_heartbeat_interval (be_manager sample_env) = 10000000" "cc_max_time_since_last_seen (be_coordinator sample_env) = 60000000"
    by (simp_all add: sample_env_def)
  have member: "EventSubscriberKey ''g'' ''a'' \<in> subscriber_keys 0 sample_beaten" using eval(3) by blast
  have "0 \<le> mc_heartbeat_interval (be_manager sample_env)" "(0::int) \<le> 15000000" by (simp_all add: env)
  note stay = healthy_subscribers_stay [OF this sample_beaten_reachable]
  from stay [THEN conjunct2, THEN conjunct1, rule_format, OF eval(1) member TrueI eval(2)]
  show ?thesis using eval(1,2) by (simp add: Let_def env eval(4))
qed

theorem broker_lifecycle_witness:
  "\<exists>w events w'. broker_step sample_env 0 RequestCancel sample_executing = Some w \<and> executing 0 w
    \<and> run_broker sample_env 0 (events @ [Stop]) w = Some w' \<and> \<not> executing 0 w'
    \<and> registry (cl_subscribers (bw_cluster w')) (EventSubscriberKey ''g'' ''a'') = None"
proof -
  have eval: "case broker_step sample_env 0 RequestCancel sample_executing of None \<Rightarrow> False
      | Some w \<Rightarrow> executing 0 w \<and> maintenance_aborting (bw_nodes w 0)
          \<and> map_of (broker_subscribers 0 w) (EventSubscriberKey ''g'' ''a'') \<noteq> None" by code_simp
  then obtain w where w: "broker_step sample_env 0 RequestCancel sample_executing = Some w" "executing 0 w"
    "maintenance_aborting (bw_nodes w 0)" "EventSubscriberKey ''g'' ''a'' \<in> subscriber_keys 0 w"
    by (auto split: option.splits)
  have orders: "set_orders_ok (be_orders sample_env)" by (simp add: sample_env_def insertion_orders_ok)
  have "broker_reachable sample_env (\<lambda>_. True) (Some 15000000) w"
    by (rule broker_reachable.step [OF sample_executing_reachable _ w(1)]) simp
  from broker_lifecycle [OF orders this, THEN conjunct2, THEN conjunct1, rule_format, of 0] w
  show ?thesis by blast
qed

subsection \<open>A singleton's subscribers\<close>

lemma accept_requests_effect:
  assumes "\<forall>src \<in> set requests. constructs constructors src"
  shows "\<exists>s'. accept_requests constructors fac requests s = (s', Inr ())
    \<and> set (dict_keys (sc_delegates s')) = set (dict_keys (sc_delegates s)) \<union> set requests
    \<and> sb_requests s' = sb_requests s \<and> (set requests \<subseteq> set (dict_keys (sc_delegates s)) \<longrightarrow> s' = s)"
  using assms
proof (induction requests arbitrary: s)
  case (Cons src requests)
  obtain source where source: "construct_source constructors src = Inr source" "source_identifier source = src"
    using Cons.prems by (auto simp: constructs_def)
  obtain s' where s': "accept_requests constructors fac requests (accept_source fac source s) = (s', Inr ())"
    "set (dict_keys (sc_delegates s')) = set (dict_keys (sc_delegates (accept_source fac source s))) \<union> set requests"
    "sb_requests s' = sb_requests (accept_source fac source s)"
    "set requests \<subseteq> set (dict_keys (sc_delegates (accept_source fac source s))) \<longrightarrow> s' = accept_source fac source s"
    using Cons by fastforce
  have "sb_requests (accept_source fac source s) = sb_requests s" by (simp add: accept_source_def)
  moreover have "accept_source fac source s = s" if "src \<in> set (dict_keys (sc_delegates s))"
    using that source(2) by (simp add: accept_source_def)
  ultimately show ?case using s' source by (auto simp: accept_delegates)
qed simp

text \<open>
  When all the requested sources can be constructed, a round of a singleton gives every subscriber
  the sources it requests, beside those it has, and leaves the broker running; and once every
  subscriber has them, a round changes nothing.
\<close>

definition satisfied :: "'d subscription_consumer \<Rightarrow> bool" where
  "satisfied s \<longleftrightarrow> set (sb_requests s) \<subseteq> set (dict_keys (sc_delegates s))"

lemma singleton_round_effect:
  assumes "\<forall>s \<in> set (dict_values subscribers). \<forall>src \<in> set (sb_requests s). constructs constructors src"
  shows "\<exists>subscribers'. singleton_round constructors fac subscribers = (subscribers', Inr ())
    \<and> dict_keys subscribers' = dict_keys subscribers \<and> list_all satisfied (dict_values subscribers')
    \<and> (list_all satisfied (dict_values subscribers) \<longrightarrow> subscribers' = subscribers)"
  using assms
proof (induction subscribers)
  case (Cons entry subscribers)
  obtain key s where entry: "entry = (key, s)" by fastforce
  obtain s' where s': "accept_requests constructors fac (sb_requests s) s = (s', Inr ())"
    "set (dict_keys (sc_delegates s')) = set (dict_keys (sc_delegates s)) \<union> set (sb_requests s)"
    "sb_requests s' = sb_requests s" "set (sb_requests s) \<subseteq> set (dict_keys (sc_delegates s)) \<longrightarrow> s' = s"
    using accept_requests_effect [of "sb_requests s" constructors fac s] Cons.prems by (auto simp: entry dict_values_def)
  have satisfied: "satisfied s'" "satisfied s \<Longrightarrow> s' = s" using s'(2-4) by (auto simp: satisfied_def)
  obtain subscribers' where "singleton_round constructors fac subscribers = (subscribers', Inr ())"
    "dict_keys subscribers' = dict_keys subscribers" "list_all satisfied (dict_values subscribers')"
    "list_all satisfied (dict_values subscribers) \<longrightarrow> subscribers' = subscribers"
    using Cons by (auto simp: dict_values_def)
  then show ?case using s'(1) satisfied by (auto simp: entry dict_keys_def dict_values_def)
qed (simp add: dict_values_def dict_keys_def)

lemma singleton_settles:
  assumes "\<forall>s \<in> set (dict_values (si_subscribers b)). \<forall>src \<in> set (sb_requests s). constructs constructors src"
  obtains b' where "singleton_rounds constructors fac b = (b', Inr ())" "si_status b' = RUNNING"
    "list_all satisfied (dict_values (si_subscribers b'))"
    "list_all satisfied (dict_values (si_subscribers b)) \<Longrightarrow> si_subscribers b' = si_subscribers b"
proof -
  obtain subscribers' where "singleton_round constructors fac (si_subscribers b) = (subscribers', Inr ())"
    "list_all satisfied (dict_values subscribers')"
    "list_all satisfied (dict_values (si_subscribers b)) \<longrightarrow> subscribers' = si_subscribers b"
    using singleton_round_effect [OF assms, of fac] by blast
  then show thesis using that by (simp add: singleton_rounds_def)
qed

end
