(* ===== verification/Broker_Factories.thy ===== *)
theory Broker_Factories
  imports Broker_Lifecycle
begin

section \<open>Building brokers\<close>

text \<open>
  Models \<open>processing/broker/factories.py\<close> and, of the two strategies, \<open>builder.py\<close> and
  \<open>factories.py\<close>: which parts a broker is built of and with which settings. A connection pool,
  the settings of a connection and a storage adapter are opaque (\<open>'p\<close>, \<open>'c\<close>, \<open>'a\<close>).
\<close>

subsection \<open>Settings\<close>

record distributed_settings =
  ds_heartbeat_interval :: timedelta
  ds_purge_interval :: timedelta
  ds_subscriber_max_age :: timedelta
  ds_max_time_since_last_seen :: timedelta
  ds_distribution_interval :: timedelta
  ds_leadership_max_duration :: timedelta
  ds_leadership_attempt_interval :: timedelta
  ds_synchronisation_interval :: timedelta

definition seconds :: "int \<Rightarrow> timedelta" where
  "seconds n = n * 1000000"

definition default_distributed_settings :: distributed_settings where
  "default_distributed_settings =
     \<lparr>ds_heartbeat_interval = seconds 10, ds_purge_interval = seconds 60, ds_subscriber_max_age = seconds 600,
      ds_max_time_since_last_seen = seconds 60, ds_distribution_interval = seconds 20,
      ds_leadership_max_duration = seconds 900, ds_leadership_attempt_interval = seconds 5,
      ds_synchronisation_interval = seconds 20\<rparr>"

record singleton_settings =
  sg_distribution_interval :: timedelta

definition default_singleton_settings :: singleton_settings where
  "default_singleton_settings = \<lparr>sg_distribution_interval = seconds 60\<rparr>"

subsection \<open>What brokers are built of\<close>

datatype 'c lock_manager_choice = InMemoryLocks | PostgresLocks 'c

datatype 'p state_store_choice = InMemoryStates string | PostgresStates string 'p

datatype ('p, 'a) adapter_choice = GivenAdapter 'a | NoAdapter | PostgresAdapter 'p

record ('c, 'p, 'a) distributed_dependencies =
  dd_lock_manager :: "'c lock_manager_choice"
  dd_source_adapter :: "('p, 'a) adapter_choice"
  dd_subscriber_states :: "'p state_store_choice"
  dd_subscription_states :: "'p state_store_choice"

datatype ('c, 'p, 'a) event_broker =
    BuiltDistributed "('c, 'p, 'a) distributed_dependencies" manager_config coordinator_config observer_config
  | BuiltSingleton "('p, 'a) adapter_choice" string timedelta

subsection \<open>strategies/distributed/builder.py and factories.py\<close>

definition build_distributed ::
  "string \<Rightarrow> ('c, 'p, 'a) distributed_dependencies \<Rightarrow> distributed_settings \<Rightarrow> ('c, 'p, 'a) event_broker" where
  "build_distributed node_id deps settings =
     BuiltDistributed deps
       \<lparr>mc_node_id = node_id, mc_heartbeat_interval = ds_heartbeat_interval settings,
        mc_purge_interval = ds_purge_interval settings, mc_subscriber_max_age = ds_subscriber_max_age settings\<rparr>
       \<lparr>cc_node_id = node_id, cc_max_time_since_last_seen = ds_max_time_since_last_seen settings,
        cc_distribution_interval = ds_distribution_interval settings,
        cc_leadership_max_duration = ds_leadership_max_duration settings,
        cc_leadership_attempt_interval = ds_leadership_attempt_interval settings\<rparr>
       \<lparr>oc_node_id = node_id, oc_synchronisation_interval = ds_synchronisation_interval settings\<rparr>"

text \<open>An adapter passed as \<open>None\<close> is stored as it is; only the Postgres builders have a default.\<close>

definition given_adapter :: "'a option \<Rightarrow> ('p, 'a) adapter_choice" where
  "given_adapter adapter = (case adapter of Some a \<Rightarrow> GivenAdapter a | None \<Rightarrow> NoAdapter)"

definition adapter_or_postgres :: "'p \<Rightarrow> 'a option \<Rightarrow> ('p, 'a) adapter_choice" where
  "adapter_or_postgres pool adapter = (case adapter of Some a \<Rightarrow> GivenAdapter a | None \<Rightarrow> PostgresAdapter pool)"

definition in_memory_dependencies :: "string \<Rightarrow> 'a option \<Rightarrow> ('c, 'p, 'a) distributed_dependencies" where
  "in_memory_dependencies node_id adapter =
     \<lparr>dd_lock_manager = InMemoryLocks, dd_source_adapter = given_adapter adapter,
      dd_subscriber_states = InMemoryStates node_id, dd_subscription_states = InMemoryStates node_id\<rparr>"

definition postgres_dependencies ::
  "string \<Rightarrow> 'c \<Rightarrow> 'p \<Rightarrow> 'a option \<Rightarrow> ('c, 'p, 'a) distributed_dependencies" where
  "postgres_dependencies node_id connection_settings pool adapter =
     \<lparr>dd_lock_manager = PostgresLocks connection_settings, dd_source_adapter = adapter_or_postgres pool adapter,
      dd_subscriber_states = PostgresStates node_id pool, dd_subscription_states = PostgresStates node_id pool\<rparr>"

subsection \<open>strategies/singleton/builder.py and factories.py\<close>

definition build_singleton ::
  "string \<Rightarrow> ('p, 'a) adapter_choice \<Rightarrow> singleton_settings \<Rightarrow> ('c, 'p, 'a) event_broker" where
  "build_singleton node_id adapter settings = BuiltSingleton adapter node_id (sg_distribution_interval settings)"

subsection \<open>broker/factories.py\<close>

datatype broker_type = Singleton | Distributed | OtherBrokerType

datatype storage_type = InMemory | Postgres | OtherStorageType

text \<open>
  The keyword arguments of \<open>make_event_broker\<close>: \<open>None\<close> where one is not passed. The settings may be
  of either class; what reads those of the other class raises \<open>AttributeError\<close>.
\<close>

datatype broker_settings = DistributedSettings distributed_settings | SingletonSettings singleton_settings

record ('c, 'p, 'a) broker_params =
  bp_settings :: "broker_settings option"
  bp_connection_settings :: "'c option"
  bp_connection_pool :: "'p option"
  bp_adapter :: "'a option option"

definition quoted :: "string \<Rightarrow> string" where
  "quoted s = CHR 0x27 # s @ [CHR 0x27]"

definition no_attribute :: "string \<Rightarrow> string \<Rightarrow> py_error" where
  "no_attribute klass attribute =
     AttributeError (quoted klass @ '' object has no attribute '' @ quoted attribute)"

fun as_distributed :: "broker_settings \<Rightarrow> distributed_settings res" where
  "as_distributed (DistributedSettings s) = Inr s"
| "as_distributed (SingletonSettings s) =
     Inl (no_attribute ''SingletonEventBrokerSettings'' ''subscriber_manager_heartbeat_interval'')"

fun as_singleton :: "broker_settings \<Rightarrow> singleton_settings res" where
  "as_singleton (SingletonSettings s) = Inr s"
| "as_singleton (DistributedSettings s) =
     Inl (no_attribute ''DistributedEventBrokerSettings'' ''distribution_interval'')"

text \<open>
  Calling a factory with keywords it does not have, or without those it needs, raises \<open>TypeError\<close>;
  its text is shortened.
\<close>

definition call_in_memory ::
  "(broker_settings \<Rightarrow> 'a option \<Rightarrow> 'b res) \<Rightarrow> ('c, 'p, 'a) broker_params \<Rightarrow> 'b res" where
  "call_in_memory f params =
     (if bp_connection_settings params \<noteq> None \<or> bp_connection_pool params \<noteq> None
      then Inl (TypeError ''unexpected keyword argument'')
      else case (bp_settings params, bp_adapter params) of
        (Some settings, Some adapter) \<Rightarrow> f settings adapter
      | _ \<Rightarrow> Inl (TypeError ''missing required positional argument''))"

definition call_postgres ::
  "(broker_settings \<Rightarrow> 'c \<Rightarrow> 'p \<Rightarrow> 'a option \<Rightarrow> 'b res) \<Rightarrow> ('c, 'p, 'a) broker_params \<Rightarrow> 'b res" where
  "call_postgres f params =
     (case (bp_settings params, bp_connection_settings params, bp_connection_pool params) of
        (Some settings, Some connection_settings, Some pool) \<Rightarrow>
          f settings connection_settings pool (case bp_adapter params of None \<Rightarrow> None | Some adapter \<Rightarrow> adapter)
      | _ \<Rightarrow> Inl (TypeError ''missing required positional argument''))"

definition make_in_memory_distributed ::
  "string \<Rightarrow> broker_settings \<Rightarrow> 'a option \<Rightarrow> ('c, 'p, 'a) event_broker res" where
  "make_in_memory_distributed node_id settings adapter =
     (case as_distributed settings of
        Inl err \<Rightarrow> Inl err
      | Inr s \<Rightarrow> Inr (build_distributed node_id (in_memory_dependencies node_id adapter) s))"

definition make_postgres_distributed ::
  "string \<Rightarrow> broker_settings \<Rightarrow> 'c \<Rightarrow> 'p \<Rightarrow> 'a option \<Rightarrow> ('c, 'p, 'a) event_broker res" where
  "make_postgres_distributed node_id settings connection_settings pool adapter =
     (case as_distributed settings of
        Inl err \<Rightarrow> Inl err
      | Inr s \<Rightarrow>
          Inr (build_distributed node_id (postgres_dependencies node_id connection_settings pool adapter) s))"

definition make_in_memory_singleton ::
  "string \<Rightarrow> broker_settings \<Rightarrow> 'a option \<Rightarrow> ('c, 'p, 'a) event_broker res" where
  "make_in_memory_singleton node_id settings adapter =
     (case as_singleton settings of
        Inl err \<Rightarrow> Inl err
      | Inr s \<Rightarrow> Inr (build_singleton node_id (given_adapter adapter) s))"

definition make_postgres_singleton ::
  "string \<Rightarrow> broker_settings \<Rightarrow> 'c \<Rightarrow> 'p \<Rightarrow> 'a option \<Rightarrow> ('c, 'p, 'a) event_broker res" where
  "make_postgres_singleton node_id settings connection_settings pool adapter =
     (case as_singleton settings of
        Inl err \<Rightarrow> Inl err
      | Inr s \<Rightarrow> Inr (build_singleton node_id (adapter_or_postgres pool adapter) s))"

fun make_event_broker ::
  "string \<Rightarrow> broker_type \<Rightarrow> storage_type \<Rightarrow> ('c, 'p, 'a) broker_params \<Rightarrow> ('c, 'p, 'a) event_broker res" where
  "make_event_broker node_id Distributed InMemory params = call_in_memory (make_in_memory_distributed node_id) params"
| "make_event_broker node_id Distributed Postgres params = call_postgres (make_postgres_distributed node_id) params"
| "make_event_broker node_id Singleton InMemory params = call_in_memory (make_in_memory_singleton node_id) params"
| "make_event_broker node_id Singleton Postgres params = call_postgres (make_postgres_singleton node_id) params"
| "make_event_broker node_id _ _ params = Inl (ValueError ''Invalid broker or storage type'')"

subsection \<open>Which calls build a broker\<close>

definition settings_fit :: "broker_type \<Rightarrow> broker_settings \<Rightarrow> bool" where
  "settings_fit type settings \<longleftrightarrow>
     (case (type, settings) of (Distributed, DistributedSettings _) \<Rightarrow> True | (Singleton, SingletonSettings _) \<Rightarrow> True
      | _ \<Rightarrow> False)"

definition arguments_fit :: "storage_type \<Rightarrow> ('c, 'p, 'a) broker_params \<Rightarrow> bool" where
  "arguments_fit storage params \<longleftrightarrow> bp_settings params \<noteq> None
     \<and> (case storage of
          InMemory \<Rightarrow> bp_adapter params \<noteq> None \<and> bp_connection_settings params = None \<and> bp_connection_pool params = None
        | Postgres \<Rightarrow> bp_connection_settings params \<noteq> None \<and> bp_connection_pool params \<noteq> None
        | OtherStorageType \<Rightarrow> False)"

lemma make_event_broker_outcome:
  "case make_event_broker node_id type storage params of
     Inr broker \<Rightarrow> arguments_fit storage params \<and> settings_fit type (the (bp_settings params))
   | Inl (ValueError _) \<Rightarrow> type = OtherBrokerType \<or> storage = OtherStorageType
   | Inl (TypeError _) \<Rightarrow> \<not> arguments_fit storage params
   | Inl (AttributeError _) \<Rightarrow> arguments_fit storage params \<and> \<not> settings_fit type (the (bp_settings params))
   | Inl _ \<Rightarrow> False"
proof (cases "bp_settings params")
  case None
  then show ?thesis
    by (cases type; cases storage) (auto simp: arguments_fit_def call_in_memory_def call_postgres_def)
next
  case (Some settings)
  then show ?thesis
    by (cases type; cases storage; cases settings)
      (auto simp: arguments_fit_def settings_fit_def call_in_memory_def call_postgres_def no_attribute_def
        make_in_memory_distributed_def make_postgres_distributed_def make_in_memory_singleton_def
        make_postgres_singleton_def split: option.splits)
qed

text \<open>
  A distributed broker of any storage has the intervals it was given; with the default settings its
  healthy subscribers stay registered and admitted to distributions as long as its heartbeats are
  less than fifty seconds late.
\<close>

lemma built_distributed:
  assumes "make_event_broker node_id Distributed storage params = Inr broker"
    and "bp_settings params = Some (DistributedSettings settings)"
  shows "\<exists>deps. broker = build_distributed node_id deps settings"
  using assms
  by (cases storage) (auto simp: call_in_memory_def call_postgres_def make_in_memory_distributed_def
      make_postgres_distributed_def split: if_splits option.splits)

lemma default_broker_keeps_healthy:
  assumes "make_event_broker node_id Distributed storage params = Inr (BuiltDistributed deps manager coordinator observer)"
    and "bp_settings params = Some (DistributedSettings default_distributed_settings)"
    and "be_manager env = manager" "be_coordinator env = coordinator" "0 \<le> slack" "slack < seconds 50"
    and "broker_reachable env healthy (Some slack) w" "heartbeat_due n w = Some due"
    and "key \<in> subscriber_keys n w" "healthy key" "registry (broker_store w) key = Some (requests, seen)"
  shows "key \<in> ss_key ` set (subscriber_list (bw_clock w) None
      (Some (cc_max_time_since_last_seen coordinator)) (broker_store w))"
    and "broker_step env m event w = Some w' \<Longrightarrow> registry (broker_store w') key \<noteq> None"
proof -
  obtain deps' where "BuiltDistributed deps manager coordinator observer
      = build_distributed node_id deps' default_distributed_settings"
    using built_distributed [OF assms(1,2)] by blast
  then have config: "mc_heartbeat_interval (be_manager env) = seconds 10"
    "mc_subscriber_max_age (be_manager env) = seconds 600" "cc_max_time_since_last_seen coordinator = seconds 60"
    using assms(3) by (simp_all add: build_distributed_def default_distributed_settings_def)
  have slack: "0 \<le> mc_heartbeat_interval (be_manager env)" "\<forall>s. Some slack = Some s \<longrightarrow> 0 \<le> s"
    using assms(5) by (simp_all add: config seconds_def)
  have late: "mc_heartbeat_interval (be_manager env) + slack < cc_max_time_since_last_seen coordinator"
    "mc_heartbeat_interval (be_manager env) + slack < mc_subscriber_max_age (be_manager env)"
    using assms(5,6) by (simp_all add: config seconds_def)
  note seen = seen_in_time [OF names_reachable [OF assms(7)] spec [OF beats_reachable [OF slack assms(7)]] assms(8-11)]
  show "key \<in> ss_key ` set (subscriber_list (bw_clock w) None
      (Some (cc_max_time_since_last_seen coordinator)) (broker_store w))" by (rule seen(2) [OF late(1)])
  show "registry (broker_store w') key \<noteq> None" if "broker_step env m event w = Some w'" by (rule seen(3) [OF late(2) that])
qed

end
