(* ===== verification/Postgres_Locks.thy ===== *)
theory Postgres_Locks
  imports Leadership
begin

section \<open>Locks in Postgres\<close>

text \<open>
  Models \<open>processing/locks/postgres.py\<close>: a lock is an advisory lock of the server, named by a digest
  and held by the transaction of a connection of its own until the body is left.

  The server is the parameter \<open>advisory_server\<close>: what asking for an advisory lock in a session does
  and answers, and what closing a session does. \<open>serves_advisory\<close> is the documented meaning: a lock
  is granted unless another session holds it, and closing a session gives up what it holds. Asking
  without waiting answers at once; waiting is asking until it is granted or the lock timeout, if
  there is one, expires. SHA-256 is the parameter \<open>sha256\<close>, the value of its hexadecimal digest.
\<close>

subsection \<open>Digests and locks\<close>

definition lock_digest :: "(string \<Rightarrow> int) \<Rightarrow> string \<Rightarrow> int" where
  "lock_digest sha256 lock_id = sha256 lock_id mod 10 ^ 16"

text \<open>The object the body is given, but for the time waited\<close>

record lock =
  lk_name :: string
  lk_locked :: bool
  lk_timed_out :: bool

record 'db advisory_server =
  as_ask :: "nat \<Rightarrow> int \<Rightarrow> 'db \<Rightarrow> 'db \<times> bool"
  as_close :: "nat \<Rightarrow> 'db \<Rightarrow> 'db"

subsection \<open>try_lock and wait_for_lock\<close>

datatype pg_lock_task =
    Disconnected
  | Asking string
  | AskingUntil string "timedelta option"
  | InBody lock

text \<open>
  What happens to a task: it runs on, as far as the server lets it, the server reports
  \<open>LockNotAvailable\<close>, or it is cancelled while it is not in the body. A body that raises is left
  as one that returns. No timeout, or one that comes to 0, is none to the server.
\<close>

datatype pg_lock_event = Proceed | LockNotAvailable | CancelWait

fun pg_lock_step ::
  "(string \<Rightarrow> int) \<Rightarrow> 'db advisory_server \<Rightarrow> nat \<Rightarrow> pg_lock_event \<Rightarrow> 'db \<Rightarrow> pg_lock_task
    \<Rightarrow> ('db \<times> pg_lock_task) option" where
  "pg_lock_step sha256 server session Proceed db (Asking lock_name) =
     (let (db', locked) = as_ask server session (lock_digest sha256 lock_name) db
      in Some (db', InBody \<lparr>lk_name = lock_name, lk_locked = locked, lk_timed_out = False\<rparr>))"
| "pg_lock_step sha256 server session Proceed db (AskingUntil lock_name timeout) =
     (let (db', locked) = as_ask server session (lock_digest sha256 lock_name) db
      in if locked then Some (db', InBody \<lparr>lk_name = lock_name, lk_locked = True, lk_timed_out = False\<rparr>)
         else None)"
| "pg_lock_step sha256 server session LockNotAvailable db (AskingUntil lock_name timeout) =
     (if lock_timeout_micros timeout = 0 then None
      else Some (db, InBody \<lparr>lk_name = lock_name, lk_locked = False, lk_timed_out = True\<rparr>))"
| "pg_lock_step sha256 server session Proceed db (InBody lock) = Some (as_close server session db, Disconnected)"
| "pg_lock_step sha256 server session CancelWait db (Asking lock_name) = Some (as_close server session db, Disconnected)"
| "pg_lock_step sha256 server session CancelWait db (AskingUntil lock_name timeout) =
     Some (as_close server session db, Disconnected)"
| "pg_lock_step sha256 server session _ db _ = None"

fun is_request :: "pg_lock_task \<Rightarrow> bool" where
  "is_request (Asking _) = True"
| "is_request (AskingUntil _ _) = True"
| "is_request _ = False"

inductive pg_locks_reachable ::
  "(string \<Rightarrow> int) \<Rightarrow> 'db advisory_server \<Rightarrow> 'db \<Rightarrow> 'db \<Rightarrow> (nat \<Rightarrow> pg_lock_task) \<Rightarrow> bool"
  for sha256 server db0 where
  start: "pg_locks_reachable sha256 server db0 db0 (\<lambda>_. Disconnected)"
| request: "pg_locks_reachable sha256 server db0 db tasks \<Longrightarrow> tasks t = Disconnected \<Longrightarrow> is_request r
    \<Longrightarrow> pg_locks_reachable sha256 server db0 db (tasks(t := r))"
| step: "pg_locks_reachable sha256 server db0 db tasks
    \<Longrightarrow> pg_lock_step sha256 server t event db (tasks t) = Some (db', task')
    \<Longrightarrow> pg_locks_reachable sha256 server db0 db' (tasks(t := task'))"

subsection \<open>What the server promises\<close>

definition serves_advisory :: "'db advisory_server \<Rightarrow> ('db \<Rightarrow> int \<Rightarrow> nat option) \<Rightarrow> bool" where
  "serves_advisory server owner \<longleftrightarrow>
     (\<forall>session key db. snd (as_ask server session key db) \<longleftrightarrow> owner db key \<in> {None, Some session})
     \<and> (\<forall>session key db. owner (fst (as_ask server session key db))
          = (if snd (as_ask server session key db) then (owner db)(key := Some session) else owner db))
     \<and> (\<forall>session db. owner (as_close server session db)
          = (\<lambda>key. if owner db key = Some session then None else owner db key))"

subsection \<open>Exclusion\<close>

definition has_lock :: "(string \<Rightarrow> int) \<Rightarrow> pg_lock_task \<Rightarrow> int \<Rightarrow> bool" where
  "has_lock sha256 task key \<longleftrightarrow>
     (case task of InBody lock \<Rightarrow> lk_locked lock \<and> lock_digest sha256 (lk_name lock) = key | _ \<Rightarrow> False)"

definition owners_fit :: "(string \<Rightarrow> int) \<Rightarrow> (int \<Rightarrow> nat option) \<Rightarrow> (nat \<Rightarrow> pg_lock_task) \<Rightarrow> bool" where
  "owners_fit sha256 owner tasks \<longleftrightarrow> (\<forall>key t. owner key = Some t \<longleftrightarrow> has_lock sha256 (tasks t) key)"

lemma has_lock_simps [simp]:
  "\<not> has_lock sha256 Disconnected key" "\<not> has_lock sha256 (Asking name) key"
  "\<not> has_lock sha256 (AskingUntil name timeout) key"
  "has_lock sha256 (InBody lock) key \<longleftrightarrow> lk_locked lock \<and> lock_digest sha256 (lk_name lock) = key"
  by (simp_all add: has_lock_def)

lemma owners_step:
  assumes "serves_advisory server owner" "owners_fit sha256 (owner db) tasks"
    and "pg_lock_step sha256 server t event db (tasks t) = Some (db', task')"
  shows "owners_fit sha256 (owner db') (tasks(t := task'))"
proof -
  have close: "owner (as_close server s d) = (\<lambda>key. if owner d key = Some s then None else owner d key)"
    and ask: "snd (as_ask server s k d) \<longleftrightarrow> owner d k \<in> {None, Some s}"
    "owner (fst (as_ask server s k d)) = (if snd (as_ask server s k d) then (owner d)(k := Some s) else owner d)" for s k d
    using assms(1) by (simp_all add: serves_advisory_def)
  have fit: "owner db key = Some u \<longleftrightarrow> has_lock sha256 (tasks u) key" for key u
    using assms(2) by (simp add: owners_fit_def)
  have same: "owners_fit sha256 (owner db) (tasks(t := task))" if "\<And>key. has_lock sha256 task key = has_lock sha256 (tasks t) key" for task
    using fit that by (simp add: owners_fit_def)
  have closed: "owners_fit sha256 (owner (as_close server t db)) (tasks(t := Disconnected))"
    unfolding owners_fit_def
  proof (intro allI)
    fix key u
    show "owner (as_close server t db) key = Some u \<longleftrightarrow> has_lock sha256 ((tasks(t := Disconnected)) u) key"
      using fit [of key u] by (cases "u = t") (auto simp: close)
  qed
  let ?given = "\<lambda>name locked. InBody \<lparr>lk_name = name, lk_locked = locked, lk_timed_out = False\<rparr>"
  have asked: "owners_fit sha256 (owner (fst (as_ask server t (lock_digest sha256 name) db)))
      (tasks(t := ?given name (snd (as_ask server t (lock_digest sha256 name) db))))"
    if none: "\<And>key. \<not> has_lock sha256 (tasks t) key" for name
  proof (cases "snd (as_ask server t (lock_digest sha256 name) db)")
    case False
    then show ?thesis using same [of "?given name False"] none by (simp add: ask(2))
  next
    case True
    then have free: "owner db (lock_digest sha256 name) = None"
      using ask(1) [of t "lock_digest sha256 name" db] fit [of "lock_digest sha256 name" t] none by auto
    show ?thesis
      unfolding owners_fit_def
    proof (intro allI)
      fix key u
      show "owner (fst (as_ask server t (lock_digest sha256 name) db)) key = Some u
          \<longleftrightarrow> has_lock sha256 ((tasks(t := ?given name (snd (as_ask server t (lock_digest sha256 name) db)))) u) key"
        using fit [of key u] none [of key] True free by (cases "u = t") (auto simp: ask(2))
    qed
  qed
  show ?thesis
  proof (cases "tasks t")
    case (Asking name)
    then show ?thesis
      using assms(3) asked [of name] closed
      by (cases event) (auto simp: split_beta)
  next
    case (AskingUntil name timeout)
    then show ?thesis
      using assms(3) asked [of name] closed same
      by (cases event) (auto simp: split_beta split: if_splits)
  next
    case (InBody lock)
    then show ?thesis using assms(3) closed by (cases event) auto
  qed (use assms(3) in \<open>cases event; simp\<close>)
qed

lemma owners_reachable:
  assumes "serves_advisory server owner" "\<forall>key. owner db0 key = None"
  shows "pg_locks_reachable sha256 server db0 db tasks \<Longrightarrow> owners_fit sha256 (owner db) tasks"
proof (induction rule: pg_locks_reachable.induct)
  case start
  then show ?case using assms(2) by (simp add: owners_fit_def)
next
  case (request db tasks t r)
  then show ?case by (cases r) (auto simp: owners_fit_def)
next
  case (step db tasks t event db' task')
  then show ?case by (intro owners_step [OF assms(1)])
qed

text \<open>
  C27. The locks of Postgres exclude, whichever way they are asked for: of the tasks in their bodies
  with a lock that is held, no two have names of one digest. A task that asks without waiting is
  answered, and refused exactly when some task holds a name of the same digest. And a wait can only
  time out if its timeout is not a whole number of seconds.
\<close>

theorem postgres_locks_exclude:
  assumes "serves_advisory server owner" "\<forall>key. owner db0 key = None"
    and "pg_locks_reachable sha256 server db0 db tasks"
  shows "(\<forall>t u l m. tasks t = InBody l \<and> tasks u = InBody m \<and> lk_locked l \<and> lk_locked m
        \<and> lock_digest sha256 (lk_name l) = lock_digest sha256 (lk_name m) \<longrightarrow> t = u)
    \<and> (\<forall>t name. tasks t = Asking name \<longrightarrow>
        (\<exists>db' locked. pg_lock_step sha256 server t Proceed db (tasks t)
            = Some (db', InBody \<lparr>lk_name = name, lk_locked = locked, lk_timed_out = False\<rparr>)
          \<and> (locked \<longleftrightarrow> \<not> (\<exists>u. has_lock sha256 (tasks u) (lock_digest sha256 name)))))
    \<and> (\<forall>t name seconds. tasks t = AskingUntil name (Some (seconds * 1000000))
        \<longrightarrow> pg_lock_step sha256 server t LockNotAvailable db (tasks t) = None)"
proof (intro conjI allI impI)
  have fit: "owner db key = Some u \<longleftrightarrow> has_lock sha256 (tasks u) key" for key u
    using owners_reachable [OF assms(1,2,3)] by (simp add: owners_fit_def)
  show "t = u" if "tasks t = InBody l \<and> tasks u = InBody m \<and> lk_locked l \<and> lk_locked m
    \<and> lock_digest sha256 (lk_name l) = lock_digest sha256 (lk_name m)" for t u l m
    using fit [of "lock_digest sha256 (lk_name l)" t] fit [of "lock_digest sha256 (lk_name l)" u] that by simp
  show "\<exists>db' locked. pg_lock_step sha256 server t Proceed db (tasks t)
          = Some (db', InBody \<lparr>lk_name = name, lk_locked = locked, lk_timed_out = False\<rparr>)
        \<and> (locked \<longleftrightarrow> \<not> (\<exists>u. has_lock sha256 (tasks u) (lock_digest sha256 name)))"
    if asking: "tasks t = Asking name" for t name
  proof -
    let ?key = "lock_digest sha256 name"
    have "snd (as_ask server t ?key db) \<longleftrightarrow> owner db ?key \<in> {None, Some t}"
      using assms(1) by (simp add: serves_advisory_def)
    moreover have "owner db ?key \<noteq> Some t" using fit [of ?key t] asking by simp
    ultimately show ?thesis
      using asking fit [of ?key] by (cases "owner db ?key") (auto simp: split_beta)
  qed
  show "pg_lock_step sha256 server t LockNotAvailable db (tasks t) = None"
    if "tasks t = AskingUntil name (Some (seconds * 1000000))" for t name seconds
    using that by (simp add: lock_timeout_seconds)
qed

text \<open>The digest of a name is a \<open>bigint\<close>, the type of the keys of advisory locks.\<close>

lemma lock_digest_bounds: "0 \<le> lock_digest sha256 name \<and> lock_digest sha256 name < 2 ^ 63"
  using pos_mod_bound [of "10 ^ 16" "sha256 name"] by (simp add: lock_digest_def)

text \<open>A server that keeps the owners themselves serves.\<close>

definition owners_server :: "(int \<Rightarrow> nat option) advisory_server" where
  "owners_server =
     \<lparr>as_ask = (\<lambda>session key db. if db key \<in> {None, Some session} then (db(key := Some session), True) else (db, False)),
      as_close = (\<lambda>session db key. if db key = Some session then None else db key)\<rparr>"

lemma owners_server_serves: "serves_advisory owners_server (\<lambda>db. db)"
  by (auto simp: serves_advisory_def owners_server_def fun_eq_iff)

definition length_digest :: "string \<Rightarrow> int" where
  "length_digest name = int (length name)"

theorem postgres_locks_exclude_witness:
  "\<exists>db tasks. pg_locks_reachable length_digest owners_server (\<lambda>_. None) db tasks
     \<and> tasks 0 = InBody \<lparr>lk_name = ''x'', lk_locked = True, lk_timed_out = False\<rparr> \<and> tasks 1 = Asking ''x''
     \<and> (\<exists>db'. pg_lock_step length_digest owners_server 1 Proceed db (tasks 1)
          = Some (db', InBody \<lparr>lk_name = ''x'', lk_locked = False, lk_timed_out = False\<rparr>))"
proof -
  let ?held = "InBody \<lparr>lk_name = ''x'', lk_locked = True, lk_timed_out = False\<rparr>"
  let ?tasks = "(\<lambda>_. Disconnected)(0 :: nat := Asking ''x'', 0 := ?held, 1 := Asking ''x'')"
  have "pg_locks_reachable length_digest owners_server (\<lambda>_. None) (\<lambda>_. None) ((\<lambda>_. Disconnected)(0 := Asking ''x''))"
    by (rule pg_locks_reachable.request [OF pg_locks_reachable.start]) simp_all
  from pg_locks_reachable.step [OF this, of 0 Proceed]
  have "pg_locks_reachable length_digest owners_server (\<lambda>_. None) ((\<lambda>_. None)(1 := Some 0))
      ((\<lambda>_. Disconnected)(0 := Asking ''x'', 0 := ?held))"
    by (simp add: owners_server_def lock_digest_def length_digest_def)
  from pg_locks_reachable.request [OF this, of 1 "Asking ''x''"]
  have reachable: "pg_locks_reachable length_digest owners_server (\<lambda>_. None) ((\<lambda>_. None)(1 := Some 0)) ?tasks" by simp
  have held: "has_lock length_digest (?tasks 0) (lock_digest length_digest ''x'')" by simp
  have one: "?tasks 1 = Asking ''x''" by simp
  have "\<forall>key. (\<lambda>_. None :: nat option) (key :: int) = None" by simp
  from postgres_locks_exclude [OF owners_server_serves this reachable, THEN conjunct2, THEN conjunct1, rule_format, OF one]
  obtain db' locked where step: "pg_lock_step length_digest owners_server 1 Proceed ((\<lambda>_. None)(1 := Some 0)) (?tasks 1)
      = Some (db', InBody \<lparr>lk_name = ''x'', lk_locked = locked, lk_timed_out = False\<rparr>)"
    and "locked \<longleftrightarrow> \<not> (\<exists>u. has_lock length_digest (?tasks u) (lock_digest length_digest ''x''))" by (elim exE conjE)
  then have "\<not> locked" using held by blast
  then have "\<exists>db'. pg_lock_step length_digest owners_server 1 Proceed ((\<lambda>_. None)(1 := Some 0)) (?tasks 1)
      = Some (db', InBody \<lparr>lk_name = ''x'', lk_locked = False, lk_timed_out = False\<rparr>)" using step by simp
  then show ?thesis using reachable by (intro exI [of _ ?tasks] exI [of _ "(\<lambda>_. None)(1 := Some 0)"]) simp
qed

end
