(* ===== verification/Postgres_Conditions.thy ===== *)
theory Postgres_Conditions
  imports Memory_Adapter Postgres_Converters
begin

section \<open>Write conditions and query constraints in Postgres\<close>

text \<open>
  Models \<open>store/adapters/postgres/converters.py\<close>. The enforcers here are also given the
  connection of the save, which an enforcer of the user's may query and change: they thread the
  database state, of type \<open>'db\<close>. The built-in ones leave it alone, and agree with the in-memory
  ones (\<open>pg_enforce_built_in\<close>).

  Constraints become appliers that add a condition to a query.
\<close>

subsection \<open>Constraints\<close>

definition sequence_number_after_applier :: "int \<Rightarrow> 'o pg_query \<Rightarrow> 'o pg_query" where
  "sequence_number_after_applier n target =
     where_query
       [with_right (ExprOperand (Constant (Plain (QVal (PyInt n)))))
         (with_operator PG_GREATER_THAN
           (with_left (ExprOperand (column ''sequence_number'')) empty_condition))]
       target"

type_synonym ('o, 'q) pg_constraint_converter = "'q query_constraint \<Rightarrow> ('o pg_query \<Rightarrow> 'o pg_query) res"

definition default_pg_constraint_converter :: "('o, 'q) pg_constraint_converter" where
  "default_pg_constraint_converter c =
     (case c of
        SequenceNumberAfterConstraint n \<Rightarrow> Inr (sequence_number_after_applier n)
      | UserConstraint q \<Rightarrow> Inl (ValueError ''No converter registered for type''))"

subsection \<open>Enforcers\<close>

datatype ('o, 'db) pg_enforcer =
    PgNoConditionEnforcer
  | PgPositionIsConditionEnforcer "int option"
  | PgEmptyStreamConditionEnforcer
  | PgAndConditionEnforcer "('o, 'db) pg_enforcer list"
  | PgOrConditionEnforcer "('o, 'db) pg_enforcer list"
  | PgUserEnforcer "'o enforcer_context \<Rightarrow> 'db \<Rightarrow> 'db \<times> unit res"

fun pg_assert_satisfied :: "('o, 'db) pg_enforcer \<Rightarrow> 'o enforcer_context \<Rightarrow> 'db \<Rightarrow> 'db \<times> unit res"
  and pg_and_loop :: "('o, 'db) pg_enforcer list \<Rightarrow> 'o enforcer_context \<Rightarrow> 'db \<Rightarrow> 'db \<times> unit res"
  and pg_or_loop :: "('o, 'db) pg_enforcer list \<Rightarrow> string option \<Rightarrow> 'o enforcer_context \<Rightarrow> 'db \<Rightarrow> 'db \<times> unit res"
where
  "pg_assert_satisfied PgNoConditionEnforcer ctx db = (db, Inr ())"
| "pg_assert_satisfied (PgPositionIsConditionEnforcer p) ctx db =
     (if map_option se_position (ctx_latest_event ctx) \<noteq> p
      then (db, Inl (UnmetWriteConditionError ''unexpected stream position'')) else (db, Inr ()))"
| "pg_assert_satisfied PgEmptyStreamConditionEnforcer ctx db =
     (if ctx_latest_event ctx \<noteq> None
      then (db, Inl (UnmetWriteConditionError ''stream is not empty'')) else (db, Inr ()))"
| "pg_assert_satisfied (PgAndConditionEnforcer es) ctx db = pg_and_loop es ctx db"
| "pg_assert_satisfied (PgOrConditionEnforcer es) ctx db = pg_or_loop es None ctx db"
| "pg_assert_satisfied (PgUserEnforcer f) ctx db = f ctx db"
| "pg_and_loop [] ctx db = (db, Inr ())"
| "pg_and_loop (e # es) ctx db =
     (case pg_assert_satisfied e ctx db of
        (db', Inl err) \<Rightarrow> (db', Inl err)
      | (db', Inr _) \<Rightarrow> pg_and_loop es ctx db')"
| "pg_or_loop [] first_exception ctx db =
     (db, case first_exception of None \<Rightarrow> Inr () | Some m \<Rightarrow> Inl (UnmetWriteConditionError m))"
| "pg_or_loop (e # es) first_exception ctx db =
     (case pg_assert_satisfied e ctx db of
        (db', Inr _) \<Rightarrow> (db', Inr ())
      | (db', Inl (UnmetWriteConditionError m)) \<Rightarrow> pg_or_loop es (Some m) ctx db'
      | (db', Inl err) \<Rightarrow> (db', Inl err))"

subsection \<open>The converter registry\<close>

datatype ('o, 'db, 'w) pg_condition_converter =
    PgNoConditionConverter
  | PgPositionIsConditionConverter
  | PgEmptyStreamConditionConverter
  | PgAndConditionConverter
  | PgOrConditionConverter
  | PgUserConditionConverter "'w condition \<Rightarrow> ('o, 'db) pg_enforcer res"

type_synonym ('o, 'db, 'w) pg_condition_registry =
  "(condition_class, ('o, 'db, 'w) pg_condition_converter) dict"

definition with_default_pg_condition_converters ::
  "('o, 'db, 'w) pg_condition_registry \<Rightarrow> ('o, 'db, 'w) pg_condition_registry" where
  "with_default_pg_condition_converters reg =
     register ClsOr PgOrConditionConverter
      (register ClsAnd PgAndConditionConverter
       (register ClsEmptyStream PgEmptyStreamConditionConverter
        (register ClsPositionIs PgPositionIsConditionConverter
         (register ClsNo PgNoConditionConverter reg))))"

fun pg_convert_condition ::
  "('o, 'db, 'w) pg_condition_registry \<Rightarrow> 'w condition \<Rightarrow> ('o, 'db) pg_enforcer res" where
  "pg_convert_condition reg c =
     (case map_of reg (class_of c) of
        None \<Rightarrow> Inl (ValueError ''No converter registered for type'')
      | Some PgNoConditionConverter \<Rightarrow> Inr PgNoConditionEnforcer
      | Some PgPositionIsConditionConverter \<Rightarrow>
          (case c of PositionIsCondition p \<Rightarrow> Inr (PgPositionIsConditionEnforcer p)
           | _ \<Rightarrow> Inl (AttributeError ''position''))
      | Some PgEmptyStreamConditionConverter \<Rightarrow> Inr PgEmptyStreamConditionEnforcer
      | Some PgAndConditionConverter \<Rightarrow>
          (case c of
             AndCondition cs \<Rightarrow>
               res_bind (res_map (pg_convert_condition reg) cs) (\<lambda>es. Inr (PgAndConditionEnforcer es))
           | OrCondition cs \<Rightarrow>
               res_bind (res_map (pg_convert_condition reg) cs) (\<lambda>es. Inr (PgAndConditionEnforcer es))
           | _ \<Rightarrow> Inl (AttributeError ''conditions''))
      | Some PgOrConditionConverter \<Rightarrow>
          (case c of
             AndCondition cs \<Rightarrow>
               res_bind (res_map (pg_convert_condition reg) cs) (\<lambda>es. Inr (PgOrConditionEnforcer es))
           | OrCondition cs \<Rightarrow>
               res_bind (res_map (pg_convert_condition reg) cs) (\<lambda>es. Inr (PgOrConditionEnforcer es))
           | _ \<Rightarrow> Inl (AttributeError ''conditions''))
      | Some (PgUserConditionConverter f) \<Rightarrow> f c)"

declare pg_convert_condition.simps [simp del]

definition default_pg_condition_converter :: "('o, 'db, 'w) pg_condition_registry" where
  "default_pg_condition_converter = with_default_pg_condition_converters []"

definition pg_enforce_condition ::
  "('o, 'db, 'w) pg_condition_registry \<Rightarrow> 'w condition \<Rightarrow> 'o enforcer_context \<Rightarrow> 'db \<Rightarrow> 'db \<times> unit res" where
  "pg_enforce_condition reg c ctx db =
     (case pg_convert_condition reg c of
        Inl err \<Rightarrow> (db, Inl err)
      | Inr enforcer \<Rightarrow> pg_assert_satisfied enforcer ctx db)"

subsection \<open>The two adapters agree on the built-in conditions\<close>

lemma pg_registry_simps [simp]:
  "map_of default_pg_condition_converter ClsNo = Some PgNoConditionConverter"
  "map_of default_pg_condition_converter ClsPositionIs = Some PgPositionIsConditionConverter"
  "map_of default_pg_condition_converter ClsEmptyStream = Some PgEmptyStreamConditionConverter"
  "map_of default_pg_condition_converter ClsAnd = Some PgAndConditionConverter"
  "map_of default_pg_condition_converter ClsOr = Some PgOrConditionConverter"
  by (simp_all add: default_pg_condition_converter_def with_default_pg_condition_converters_def register_def)

lemma pg_convert_simps [simp]:
  "pg_convert_condition default_pg_condition_converter NoCondition = Inr PgNoConditionEnforcer"
  "pg_convert_condition default_pg_condition_converter (PositionIsCondition p) = Inr (PgPositionIsConditionEnforcer p)"
  "pg_convert_condition default_pg_condition_converter EmptyStreamCondition = Inr PgEmptyStreamConditionEnforcer"
  "pg_convert_condition default_pg_condition_converter (AndCondition cs) =
     res_bind (res_map (pg_convert_condition default_pg_condition_converter) cs) (\<lambda>es. Inr (PgAndConditionEnforcer es))"
  "pg_convert_condition default_pg_condition_converter (OrCondition cs) =
     res_bind (res_map (pg_convert_condition default_pg_condition_converter) cs) (\<lambda>es. Inr (PgOrConditionEnforcer es))"
  by (simp_all add: pg_convert_condition.simps)

text \<open>The in-memory enforcers as Postgres ones\<close>

primrec pg_enforcer_of :: "'o enforcer \<Rightarrow> ('o, 'db) pg_enforcer" where
  "pg_enforcer_of NoConditionEnforcer = PgNoConditionEnforcer"
| "pg_enforcer_of (PositionIsConditionEnforcer p) = PgPositionIsConditionEnforcer p"
| "pg_enforcer_of EmptyStreamConditionEnforcer = PgEmptyStreamConditionEnforcer"
| "pg_enforcer_of (AndConditionEnforcer es) = PgAndConditionEnforcer (map pg_enforcer_of es)"
| "pg_enforcer_of (OrConditionEnforcer es) = PgOrConditionEnforcer (map pg_enforcer_of es)"
| "pg_enforcer_of (UserEnforcer f) = PgUserEnforcer (\<lambda>ctx db. (db, f ctx))"

lemma pg_loops:
  assumes "\<And>e. e \<in> set es \<Longrightarrow> pg_assert_satisfied (pg_enforcer_of e) ctx db = (db, assert_satisfied e ctx)"
  shows "pg_and_loop (map pg_enforcer_of es) ctx db = (db, and_loop (map (\<lambda>e. assert_satisfied e ctx) es))"
    and "pg_or_loop (map pg_enforcer_of es) m ctx db = (db, or_loop (map (\<lambda>e. assert_satisfied e ctx) es) m)"
  using assms by (induction es arbitrary: m) (auto split: sum.split py_error.split)

lemma pg_assert_of: "pg_assert_satisfied (pg_enforcer_of e) ctx db = (db, assert_satisfied e ctx)"
  by (induction e) (auto simp: pg_loops)

lemma pg_convert_map:
  assumes "\<And>c e. c \<in> set cs \<Longrightarrow> f c = Inr e \<Longrightarrow> g c = Inr (h e)" "res_map f cs = Inr es"
  shows "res_map g cs = Inr (map h es)"
  using assms by (induction cs arbitrary: es) auto

lemma pg_convert_of:
  "built_in_condition c \<Longrightarrow> convert_condition default_condition_converter c = Inr e
    \<Longrightarrow> pg_convert_condition (default_pg_condition_converter :: ('o, 'db, 'w) pg_condition_registry) c
      = Inr (pg_enforcer_of e)"
proof (induction c arbitrary: e)
  case (AndCondition cs)
  then obtain es where es: "res_map (convert_condition default_condition_converter) cs = Inr es"
    "e = AndConditionEnforcer es" by auto
  have "res_map (pg_convert_condition (default_pg_condition_converter :: ('o, 'db, 'w) pg_condition_registry)) cs = Inr (map pg_enforcer_of es)"
    by (rule pg_convert_map [OF _ es(1)]) (use AndCondition.IH AndCondition.prems(1) in \<open>auto simp: list_all_iff\<close>)
  then show ?case using es(2) by simp
next
  case (OrCondition cs)
  then obtain es where es: "res_map (convert_condition default_condition_converter) cs = Inr es"
    "e = OrConditionEnforcer es" by auto
  have "res_map (pg_convert_condition (default_pg_condition_converter :: ('o, 'db, 'w) pg_condition_registry)) cs = Inr (map pg_enforcer_of es)"
    by (rule pg_convert_map [OF _ es(1)]) (use OrCondition.IH OrCondition.prems(1) in \<open>auto simp: list_all_iff\<close>)
  then show ?case using es(2) by simp
qed auto

lemma pg_enforce_built_in:
  fixes ctx :: "'o enforcer_context"
  assumes "built_in_condition c"
  shows "pg_enforce_condition default_pg_condition_converter c ctx db
    = (db, enforce_condition default_condition_converter c ctx)"
proof -
  obtain e :: "'o enforcer" where e: "convert_condition default_condition_converter c = Inr e"
    using enforcer_of_built_in [OF assms, of ctx] by blast
  show ?thesis
    unfolding pg_enforce_condition_def enforce_condition_def e pg_convert_of [OF assms e] by (simp add: pg_assert_of)
qed

end
