(* ===== verification/Postgres_Events.thy ===== *)
theory Postgres_Events
  imports Postgres_Conditions
begin

section \<open>The Postgres storage adapter\<close>

text \<open>
  Models \<open>store/adapters/postgres/adapter.py\<close>: the statements it builds and what it does with
  their results.

  The database server is not part of the repository. It is the parameter \<open>execute\<close> of an adapter,
  from a statement and a state to a state and the rows or the error, and \<open>rollback\<close>, the state
  after a transaction that began in one state is given up in another. What the adapter relies on,
  the documented meaning of the statements it sends, is \<open>serves_events\<close>. A connection commits
  when its block is left normally and rolls back when it is left by an exception.

  Rows are events: psycopg's \<open>class_row(StoredEvent)\<close>. SHA-256, of the standard library, is the
  parameter \<open>sha256\<close>.
\<close>

subsection \<open>Statements\<close>

datatype 'o db_value = DbValue "'o sql_value" | DbTime datetime

abbreviation db_str :: "string \<Rightarrow> 'o db_value" where
  "db_str s \<equiv> DbValue (Plain (QVal (PyStr s)))"

abbreviation db_int :: "int \<Rightarrow> 'o db_value" where
  "db_int n \<equiv> DbValue (Plain (QVal (PyInt n)))"

type_synonym 'o statement = "sql \<times> 'o db_value list"

text \<open>\<open>ScanQueryParameters\<close> and \<open>LatestQueryParameters\<close>: what they find in a target\<close>

fun target_category :: "event_source_identifier \<Rightarrow> string option" where
  "target_category (CategoryIdentifier c) = Some c"
| "target_category (StreamIdentifier c s) = Some c"
| "target_category _ = None"

fun target_stream :: "event_source_identifier \<Rightarrow> string option" where
  "target_stream (StreamIdentifier c s) = Some s"
| "target_stream _ = None"

record 'q scan_query_parameters =
  sq_target :: event_source_identifier
  sq_constraints :: "'q query_constraint list"
  sq_page_size :: int

definition get_digest :: "(string \<Rightarrow> nat) \<Rightarrow> string \<Rightarrow> int" where
  "get_digest sha256 lock_id = int (sha256 lock_id mod 10 ^ 16)"

definition truthy_str :: "string option \<Rightarrow> bool" where
  "truthy_str s = (case s of None \<Rightarrow> False | Some t \<Rightarrow> t \<noteq> [])"

definition column_equals :: "string \<Rightarrow> string \<Rightarrow> 'o sql_condition" where
  "column_equals field value =
     with_right (ExprOperand (Constant (Plain (QVal (PyStr value)))))
       (with_operator PG_EQUALS (with_left (ExprOperand (column field)) empty_condition))"

definition where_equals :: "string \<Rightarrow> string option \<Rightarrow> 'o pg_query \<Rightarrow> 'o pg_query" where
  \<comment> \<open>\<open>if parameters.category:\<close> and \<open>if parameters.stream:\<close>\<close>
  "where_equals field value builder =
     (if truthy_str value then where_query [column_equals field (the value)] builder else builder)"

definition scan_query ::
  "'q scan_query_parameters \<Rightarrow> ('o, 'q) pg_constraint_converter \<Rightarrow> table_settings \<Rightarrow> 'o statement res" where
  "scan_query parameters constraint_converter settings =
     (let builder = from_table (table_name settings) (select_all empty_query);
          builder = where_equals ''category'' (target_category (sq_target parameters)) builder;
          builder = where_equals ''stream'' (target_stream (sq_target parameters)) builder
      in res_bind (res_fold (\<lambda>c b. res_bind (constraint_converter c) (\<lambda>applier. Inr (applier b)))
                    (sq_constraints parameters) builder) (\<lambda>builder.
         res_bind (build (limit (Some (sq_page_size parameters))
                    (order_by [SortBySort (SortBy (column ''sequence_number'') None)] builder)))
           (\<lambda>(q, params). Inr (q, map DbValue params))))"

datatype lock_targets = OneTarget event_source_identifier | Targets "event_source_identifier list"

definition lock_query :: "(string \<Rightarrow> nat) \<Rightarrow> string res \<Rightarrow> 'o statement res" where
  "lock_query sha256 named =
     res_bind named (\<lambda>l. Inr ([SQL ''SELECT pg_advisory_xact_lock(%s);''], [db_int (get_digest sha256 l)]))"

definition locks_sql :: "nat \<Rightarrow> sql" where
  "locks_sql n = SQL ''SELECT '' # sql_join '', '' (replicate n [SQL ''pg_advisory_xact_lock(%s)'']) @ [SQL '';'']"

definition invalid_targets :: py_error where
  "invalid_targets = ValueError (''Invalid type for targets, expected StreamIdentifier, ''
     @ ''CategoryIdentifier, or a sequence of StreamIdentifiers.'')"

definition stream_locks_query ::
  "(string \<Rightarrow> nat) \<Rightarrow> event_source_identifier list \<Rightarrow> table_settings \<Rightarrow> 'o statement res" where
  "stream_locks_query sha256 targets settings =
     res_bind (res_map (lock_name STREAM (table_name settings)) targets) (\<lambda>lock_names.
       Inr (locks_sql (length lock_names), map (\<lambda>l. db_int (get_digest sha256 l)) lock_names))"

fun obtain_write_locks_query ::
  "(string \<Rightarrow> nat) \<Rightarrow> lock_targets \<Rightarrow> serialisation_guarantee \<Rightarrow> table_settings \<Rightarrow> 'o statement res" where
  "obtain_write_locks_query sha256 (Targets []) guarantee settings = Inr ([SQL ''SELECT 1;''], [])"
| "obtain_write_locks_query sha256 (OneTarget (StreamIdentifier c s)) guarantee settings =
     lock_query sha256 (lock_name guarantee (table_name settings) (StreamIdentifier c s))"
| "obtain_write_locks_query sha256 (OneTarget target) guarantee settings =
     (case (target, guarantee) of
        (CategoryIdentifier c, LOG) \<Rightarrow> lock_query sha256 (lock_name LOG (table_name settings) target)
      | (CategoryIdentifier c, CATEGORY) \<Rightarrow> lock_query sha256 (lock_name CATEGORY (table_name settings) target)
      | (_, STREAM) \<Rightarrow> Inl (TypeError ''object is not iterable'')
      | _ \<Rightarrow> Inl invalid_targets)"
| "obtain_write_locks_query sha256 (Targets targets) guarantee settings =
     (case guarantee of
        STREAM \<Rightarrow> stream_locks_query sha256 targets settings
      | _ \<Rightarrow> Inl invalid_targets)"

definition identifier_sql :: "table_settings \<Rightarrow> sql_part" where
  "identifier_sql settings = Identifier (table_name settings)"

definition where_sql :: "sql list \<Rightarrow> sql list" where
  "where_sql clauses = (if length clauses > 0 then [SQL ''WHERE '' # sql_join '' AND '' clauses] else [])"

definition read_last_query :: "event_source_identifier \<Rightarrow> table_settings \<Rightarrow> 'o statement" where
  "read_last_query target settings =
     (let where_clauses =
            (case target_category target of None \<Rightarrow> [] | Some _ \<Rightarrow> [[SQL ''category = %s'']])
            @ (case target_stream target of None \<Rightarrow> [] | Some _ \<Rightarrow> [[SQL ''stream = %s'']]);
          clauses = [[SQL ''SELECT *''], [SQL ''FROM '', identifier_sql settings]] @ where_sql where_clauses
            @ [[SQL ''ORDER BY sequence_number DESC''], [SQL ''LIMIT %s'']];
          params = (case target_category target of None \<Rightarrow> [] | Some c \<Rightarrow> [db_str c])
            @ (case target_stream target of None \<Rightarrow> [] | Some s \<Rightarrow> [db_str s]) @ [db_int 1]
      in (sql_join '' '' clauses, params))"

definition read_last_category_batch_query :: "string \<Rightarrow> string list \<Rightarrow> table_settings \<Rightarrow> 'o statement" where
  "read_last_category_batch_query category streams settings =
     (let placeholders = sql_join '', '' (map (\<lambda>_. [SQL ''%s'']) streams);
          where_clauses = [[SQL ''category = %s''], SQL ''stream IN ('' # placeholders @ [SQL '')'']];
          clauses = [[SQL ''SELECT DISTINCT ON (category, stream ) *''], [SQL ''FROM '', identifier_sql settings]]
            @ where_sql where_clauses @ [[SQL ''ORDER BY category, stream, position DESC'']]
      in (sql_join '' '' clauses, map db_str (category # streams)))"

subsection \<open>Inserting\<close>

record 'o stream_insert_definition =
  si_events :: "'o raw_event list"
  si_position :: int

text \<open>\<open>StreamIdentifier\<close>s as keys: category and stream\<close>

type_synonym 'o insert_definitions = "(string \<times> string, 'o stream_insert_definition) dict"

record 'o insert_row =
  ir_id :: string
  ir_name :: string
  ir_stream :: string
  ir_category :: string
  ir_position :: int
  ir_payload :: "'o pyval"
  ir_observed_at :: datetime
  ir_occurred_at :: datetime

definition row_values :: "'o insert_row \<Rightarrow> 'o db_value list" where
  "row_values row =
     [db_str (ir_id row), db_str (ir_name row), db_str (ir_stream row), db_str (ir_category row),
      db_int (ir_position row), DbValue (Jsonb (ir_payload row)),
      DbTime (ir_observed_at row), DbTime (ir_occurred_at row)]"

text \<open>The row of an event; \<open>draw\<close> numbers the calls of \<open>uuid4\<close>.\<close>

definition insert_row ::
  "'o save_env \<Rightarrow> int \<Rightarrow> string \<times> string \<Rightarrow> int \<Rightarrow> 'o raw_event \<Rightarrow> 'o insert_row res" where
  "insert_row env draw identifier position event =
     res_bind (serialise_to_string (env_str env) (ne_name event) raising_string_fallback) (\<lambda>name.
     res_bind (serialise_to_json_value (env_json env) (ne_payload event) raising_serialisation_fallback) (\<lambda>payload.
     Inr \<lparr>ir_id = env_uuid env draw, ir_name = name, ir_stream = snd identifier, ir_category = fst identifier,
          ir_position = position, ir_payload = payload, ir_observed_at = ne_observed_at event,
          ir_occurred_at = ne_occurred_at event\<rparr>))"

fun stream_rows ::
  "'o save_env \<Rightarrow> int \<Rightarrow> string \<times> string \<Rightarrow> int \<Rightarrow> 'o raw_event list \<Rightarrow> 'o insert_row list res" where
  "stream_rows env draw identifier position [] = Inr []"
| "stream_rows env draw identifier position (event # events) =
     res_bind (insert_row env draw identifier position event) (\<lambda>row.
     res_bind (stream_rows env (draw + 1) identifier (position + 1) events) (\<lambda>rows. Inr (row # rows)))"

fun definition_rows :: "'o save_env \<Rightarrow> int \<Rightarrow> 'o insert_definitions \<Rightarrow> 'o insert_row list res" where
  "definition_rows env draw [] = Inr []"
| "definition_rows env draw ((identifier, d) # definitions) =
     res_bind (stream_rows env draw identifier (si_position d) (si_events d)) (\<lambda>rows.
     res_bind (definition_rows env (draw + int (length (si_events d))) definitions) (\<lambda>more. Inr (rows @ more)))"

definition text_line :: "nat \<Rightarrow> string \<Rightarrow> string" where
  "text_line indent line = replicate indent CHR 0x20 @ line @ [CHR 0x0A]"

definition insert_sql :: "nat \<Rightarrow> table_settings \<Rightarrow> sql" where
  "insert_sql n settings =
     [SQL (text_line 0 '''' @ replicate 16 CHR 0x20 @ ''INSERT INTO ''), identifier_sql settings,
      SQL (text_line 0 '' (id,'' @ text_line 33 ''name,'' @ text_line 33 ''stream,'' @ text_line 33 ''category,''
        @ text_line 33 ''position,'' @ text_line 33 ''payload,'' @ text_line 33 ''observed_at,''
        @ text_line 33 ''occurred_at)'' @ text_line 16 ''VALUES'' @ replicate 20 CHR 0x20)]
     @ sql_join '', '' (replicate n [SQL ''(%s, %s, %s, %s, %s, %s, %s, %s)''])
     @ [SQL (text_line 0 '''' @ text_line 20 ''RETURNING *;'' @ replicate 16 CHR 0x20)]"

definition insert_statement :: "'o insert_row list \<Rightarrow> table_settings \<Rightarrow> 'o statement" where
  "insert_statement rows settings = (insert_sql (length rows) settings, concat (map row_values rows))"

definition insert_batch_query ::
  "'o save_env \<Rightarrow> int \<Rightarrow> 'o insert_definitions \<Rightarrow> table_settings \<Rightarrow> 'o statement res" where
  "insert_batch_query env draw definitions settings =
     res_bind (definition_rows env draw definitions) (\<lambda>rows. Inr (insert_statement rows settings))"

subsection \<open>The adapter\<close>

record ('o, 'db, 'w, 'q) postgres_adapter =
  pa_execute :: "'o statement \<Rightarrow> 'db \<Rightarrow> 'db \<times> 'o event list res"
  pa_rollback :: "'db \<Rightarrow> 'db \<Rightarrow> 'db"
  pa_sha256 :: "string \<Rightarrow> nat"
  pa_guarantee :: serialisation_guarantee
  pa_page_size :: int
  pa_table :: table_settings
  pa_constraints :: "('o, 'q) pg_constraint_converter"
  pa_conditions :: "('o, 'db, 'w) pg_condition_registry"

text \<open>Steps on a connection, one after the other until one raises; the block of a connection\<close>

type_synonym ('db, 'a) db_action = "'db \<Rightarrow> 'db \<times> 'a res"

definition db_return :: "'a res \<Rightarrow> ('db, 'a) db_action" where
  "db_return r db = (db, r)"

definition db_bind :: "('db, 'a) db_action \<Rightarrow> ('a \<Rightarrow> ('db, 'b) db_action) \<Rightarrow> ('db, 'b) db_action" where
  "db_bind m f db = (case m db of (db', Inl e) \<Rightarrow> (db', Inl e) | (db', Inr x) \<Rightarrow> f x db')"

definition with_connection ::
  "('o, 'db, 'w, 'q) postgres_adapter \<Rightarrow> ('db, 'a) db_action \<Rightarrow> ('db, 'a) db_action" where
  "with_connection ad body db =
     (case body db of
        (db', Inl e) \<Rightarrow> (pa_rollback ad db db', Inl e)
      | (db', Inr x) \<Rightarrow> (db', Inr x))"

definition execute_query ::
  "('o, 'db, 'w, 'q) postgres_adapter \<Rightarrow> 'o statement res \<Rightarrow> ('db, 'o event list) db_action" where
  "execute_query ad statement = db_bind (db_return statement) (\<lambda>q. pa_execute ad q)"

definition fetch_one :: "'e list \<Rightarrow> 'e option" where
  "fetch_one rows = (case rows of [] \<Rightarrow> None | row # _ \<Rightarrow> Some row)"

fun obtain_write_locks :: "('o, 'db, 'w, 'q) postgres_adapter \<Rightarrow> lock_targets \<Rightarrow> ('db, 'o event list) db_action" where
  "obtain_write_locks ad (OneTarget (StreamIdentifier c s)) =
     execute_query ad (obtain_write_locks_query (pa_sha256 ad) (OneTarget (StreamIdentifier c s))
       (pa_guarantee ad) (pa_table ad))"
| "obtain_write_locks ad targets =
     (case (targets, pa_guarantee ad) of
        (OneTarget (CategoryIdentifier c), LOG) \<Rightarrow>
          execute_query ad (obtain_write_locks_query (pa_sha256 ad) targets LOG (pa_table ad))
      | (OneTarget (CategoryIdentifier c), CATEGORY) \<Rightarrow>
          execute_query ad (obtain_write_locks_query (pa_sha256 ad) targets CATEGORY (pa_table ad))
      | (_, STREAM) \<Rightarrow>
          execute_query ad (obtain_write_locks_query (pa_sha256 ad) targets STREAM (pa_table ad))
      | _ \<Rightarrow> db_return (Inl invalid_targets))"

definition read_last ::
  "('o, 'db, 'w, 'q) postgres_adapter \<Rightarrow> event_source_identifier \<Rightarrow> ('db, 'o event option) db_action" where
  "read_last ad target =
     db_bind (execute_query ad (Inr (read_last_query target (pa_table ad))))
       (\<lambda>rows. db_return (Inr (fetch_one rows)))"

definition read_last_category_batch ::
  "('o, 'db, 'w, 'q) postgres_adapter \<Rightarrow> string \<Rightarrow> string list \<Rightarrow> ('db, (string, 'o event) dict) db_action" where
  "read_last_category_batch ad category streams =
     db_bind (execute_query ad (Inr (read_last_category_batch_query category streams (pa_table ad))))
       (\<lambda>results. db_return (Inr (dict_by se_stream results)))"

text \<open>The stored events, with the names and payloads as they were given\<close>

definition restored :: "'o raw_event \<Rightarrow> 'o event \<Rightarrow> 'o raw_stored" where
  "restored event stored =
     \<lparr>se_id = se_id stored, se_name = ne_name event, se_stream = se_stream stored,
      se_category = se_category stored, se_position = se_position stored,
      se_sequence_number = se_sequence_number stored, se_payload = ne_payload event,
      se_observed_at = se_observed_at stored, se_occurred_at = se_occurred_at stored\<rparr>"

fun stream_results :: "'o event list \<Rightarrow> int \<Rightarrow> 'o raw_event list \<Rightarrow> 'o raw_stored list res" where
  "stream_results stored event_index [] = Inr []"
| "stream_results stored event_index (event # events) =
     res_bind (py_index stored event_index) (\<lambda>stored_event.
     res_bind (stream_results stored (event_index + 1) events) (\<lambda>rest.
       Inr (restored event stored_event # rest)))"

fun batch_results ::
  "'o event list \<Rightarrow> int \<Rightarrow> 'o insert_definitions \<Rightarrow> (string \<times> string, 'o raw_stored list) dict res" where
  "batch_results stored event_index [] = Inr []"
| "batch_results stored event_index ((identifier, d) # definitions) =
     res_bind (stream_results stored event_index (si_events d)) (\<lambda>events.
     res_bind (batch_results stored (event_index + int (length (si_events d))) definitions) (\<lambda>rest.
       Inr ((identifier, events) # rest)))"

definition expected_event_count :: "'o insert_definitions \<Rightarrow> nat" where
  "expected_event_count definitions = sum_list (map (\<lambda>(_, d). length (si_events d)) definitions)"

definition insert_batch ::
  "'o save_env \<Rightarrow> int \<Rightarrow> ('o, 'db, 'w, 'q) postgres_adapter \<Rightarrow> 'o insert_definitions
    \<Rightarrow> ('db, (string \<times> string, 'o raw_stored list) dict) db_action" where
  "insert_batch env draw ad definitions =
     (if definitions = [] then db_return (Inr [])
      else db_bind (execute_query ad (insert_batch_query env draw definitions (pa_table ad))) (\<lambda>stored.
        if length stored \<noteq> expected_event_count definitions
        then db_return (Inl (RuntimeError ''Batch insert failed''))
        else db_return (batch_results stored 0 definitions)))"

definition next_position :: "'o event option \<Rightarrow> int" where
  "next_position latest_event = (case latest_event of None \<Rightarrow> 0 | Some e \<Rightarrow> se_position e + 1)"

definition get_item :: "('k, 'v) dict \<Rightarrow> 'k \<Rightarrow> 'v res" where
  "get_item d k = (case map_of d k of None \<Rightarrow> Inl (KeyError []) | Some v \<Rightarrow> Inr v)"

definition pg_save_to_stream ::
  "'o save_env \<Rightarrow> int \<Rightarrow> ('o, 'db, 'w, 'q) postgres_adapter \<Rightarrow> string \<Rightarrow> string \<Rightarrow> 'o raw_event list
    \<Rightarrow> 'w condition \<Rightarrow> ('db, 'o raw_stored list) db_action" where
  "pg_save_to_stream env draw ad c s events condition =
     with_connection ad
       (db_bind (obtain_write_locks ad (OneTarget (StreamIdentifier c s))) (\<lambda>_.
        db_bind (read_last ad (StreamIdentifier c s)) (\<lambda>latest_event.
        db_bind (pg_enforce_condition (pa_conditions ad) condition
                   \<lparr>ctx_identifier = StreamIdentifier c s, ctx_latest_event = latest_event\<rparr>) (\<lambda>_.
        db_bind (insert_batch env draw ad
                   [((c, s), \<lparr>si_events = events, si_position = next_position latest_event\<rparr>)]) (\<lambda>batch_results.
        db_return (get_item batch_results (c, s)))))))"

text \<open>The loop over the streams of a category, which checks each condition\<close>

fun category_definitions ::
  "('o, 'db, 'w, 'q) postgres_adapter \<Rightarrow> string \<Rightarrow> (string, 'o event) dict
    \<Rightarrow> (string, ('o, 'w) publish_definition) dict \<Rightarrow> ('db, 'o insert_definitions) db_action" where
  "category_definitions ad c latest_events [] = db_return (Inr [])"
| "category_definitions ad c latest_events ((s, request) # streams) =
     db_bind (pg_enforce_condition (pa_conditions ad) (pd_enforced request)
                \<lparr>ctx_identifier = StreamIdentifier c s, ctx_latest_event = map_of latest_events s\<rparr>) (\<lambda>_.
     db_bind (category_definitions ad c latest_events streams) (\<lambda>definitions.
     db_return (Inr (((c, s), \<lparr>si_events = pd_events request,
                               si_position = next_position (map_of latest_events s)\<rparr>) # definitions))))"

definition category_targets ::
  "('o, 'db, 'w, 'q) postgres_adapter \<Rightarrow> string \<Rightarrow> (string, ('o, 'w) publish_definition) dict \<Rightarrow> lock_targets" where
  "category_targets ad c streams =
     (case pa_guarantee ad of
        STREAM \<Rightarrow> Targets (map (StreamIdentifier c) (sorted_by (\<lambda>s. s) (dict_keys streams)))
      | _ \<Rightarrow> OneTarget (CategoryIdentifier c))"

definition pg_save_to_category ::
  "'o save_env \<Rightarrow> int \<Rightarrow> ('o, 'db, 'w, 'q) postgres_adapter \<Rightarrow> string
    \<Rightarrow> (string, ('o, 'w) publish_definition) dict \<Rightarrow> ('db, (string, 'o raw_stored list) dict) db_action" where
  "pg_save_to_category env draw ad c streams =
     with_connection ad
       (db_bind (obtain_write_locks ad (category_targets ad c streams)) (\<lambda>_.
        db_bind (read_last_category_batch ad c (dict_keys streams)) (\<lambda>latest_events.
        db_bind (category_definitions ad c latest_events streams) (\<lambda>definitions.
        db_bind (insert_batch env draw ad definitions) (\<lambda>batch_results.
        db_return (res_map (\<lambda>s. res_bind (get_item batch_results (c, s)) (\<lambda>events. Inr (s, events)))
                     (dict_keys streams)))))))"

definition pg_save ::
  "'o save_env \<Rightarrow> int \<Rightarrow> ('o, 'db, 'w, 'q) postgres_adapter \<Rightarrow> event_source_identifier
    \<Rightarrow> 'o raw_event list option \<Rightarrow> 'w condition \<Rightarrow> (string, ('o, 'w) publish_definition) dict option
    \<Rightarrow> ('db, 'o save_result) db_action" where
  "pg_save env draw ad target events condition streams =
     (case target of
        StreamIdentifier c s \<Rightarrow>
          (case events of
             None \<Rightarrow> db_return (Inl (ValueError
               ''The `events` parameter must be provided for stream level publish.''))
           | Some es \<Rightarrow> db_bind (pg_save_to_stream env draw ad c s es condition) (\<lambda>r. db_return (Inr (StreamSaved r))))
      | CategoryIdentifier c \<Rightarrow>
          (case streams of
             None \<Rightarrow> db_return (Inl (ValueError
               ''The `streams` parameter must be provided for category level publish.''))
           | Some ss \<Rightarrow> db_bind (pg_save_to_category env draw ad c ss) (\<lambda>r. db_return (Inr (CategorySaved r))))
      | _ \<Rightarrow> db_return (Inl (ValueError ''Unsupported target type'')))"

definition pg_latest ::
  "('o, 'db, 'w, 'q) postgres_adapter \<Rightarrow> event_source_identifier \<Rightarrow> ('db, 'o event option) db_action" where
  "pg_latest ad target = with_connection ad (read_last ad target)"

text \<open>
  The pages of a scan. Other transactions commit between its statements, so the \<open>i\<close>-th statement
  runs in a state of its own, \<open>dbs i\<close>. \<open>None\<close> is a scan that never ends.
\<close>

fun is_after_constraint :: "'q query_constraint \<Rightarrow> bool" where
  "is_after_constraint (SequenceNumberAfterConstraint n) = True"
| "is_after_constraint (UserConstraint q) = False"

definition page_constraints :: "int option \<Rightarrow> 'q query_constraint list \<Rightarrow> 'q query_constraint list" where
  "page_constraints last_sequence_number constraints =
     (case last_sequence_number of
        None \<Rightarrow> constraints
      | Some n \<Rightarrow> filter (\<lambda>c. \<not> is_after_constraint c) constraints @ [SequenceNumberAfterConstraint n])"

definition gen_append :: "'a list \<Rightarrow> 'a gen \<Rightarrow> 'a gen" where
  "gen_append xs g = (xs @ fst g, snd g)"

definition last_number :: "int option \<Rightarrow> 'o event list \<Rightarrow> int option" where
  "last_number previous results =
     (case last_option results of None \<Rightarrow> previous | Some e \<Rightarrow> Some (se_sequence_number e))"

partial_function (option) scan_pages ::
  "('o, 'db, 'w, 'q) postgres_adapter \<Rightarrow> event_source_identifier \<Rightarrow> (nat \<Rightarrow> 'db) \<Rightarrow> nat \<Rightarrow> int option
    \<Rightarrow> 'q query_constraint list \<Rightarrow> 'o event gen option" where
  "scan_pages ad target dbs i last_sequence_number constraints =
     (let constraints = page_constraints last_sequence_number constraints
      in case snd (execute_query ad (scan_query \<lparr>sq_target = target, sq_constraints = constraints,
               sq_page_size = pa_page_size ad\<rparr> (pa_constraints ad) (pa_table ad)) (dbs i)) of
           Inl e \<Rightarrow> Some ([], Some e)
         | Inr results \<Rightarrow>
             if int (length results) = pa_page_size ad
             then Option.bind
                    (scan_pages ad target dbs (Suc i) (last_number last_sequence_number results) constraints)
                    (\<lambda>g. Some (gen_append results g))
             else Some (results, None))"

definition pg_scan ::
  "('o, 'db, 'w, 'q) postgres_adapter \<Rightarrow> (nat \<Rightarrow> 'db) \<Rightarrow> event_source_identifier \<Rightarrow> 'q query_constraint list
    \<Rightarrow> 'o event gen option" where
  "pg_scan ad dbs target constraints = scan_pages ad target dbs 0 None constraints"

subsection \<open>What the adapter relies on\<close>

text \<open>
  The documented meaning of the statements, for a server with the table of
  \<open>sql/create_events_table.sql\<close>: \<open>rows\<close> are the committed and own rows of a state in the order
  of their sequence numbers, and \<open>jsonb\<close> is what a JSON value becomes when it is stored.

  No server takes every statement. \<open>accepts\<close> tells those that this one takes; the others raise. A
  statement that is taken has no more parameters than the protocol carries, and no text in them has
  a NUL character; the rows it inserts have positions within \<open>INT\<close>. There may be further limits of
  the server's own, such as the size of an index entry.
\<close>

definition storable_text :: "string \<Rightarrow> bool" where
  "storable_text t \<longleftrightarrow> CHR 0x00 \<notin> set t"

fun storable_json :: "'o pyval \<Rightarrow> bool" where
  "storable_json (PyStr s) = storable_text s"
| "storable_json (PyList vs) = list_all storable_json vs"
| "storable_json (PyDict kvs) = list_all (\<lambda>kv. storable_json (fst kv) \<and> storable_json (snd kv)) kvs"
| "storable_json _ = True"

fun storable_value :: "'o db_value \<Rightarrow> bool" where
  "storable_value (DbValue (Plain (QVal (PyStr s)))) = storable_text s"
| "storable_value (DbValue (Jsonb v)) = storable_json v"
| "storable_value _ = True"

definition sendable :: "'o statement \<Rightarrow> bool" where
  "sendable q \<longleftrightarrow> length (snd q) \<le> 65535 \<and> list_all storable_value (snd q)"

definition within_int :: "int \<Rightarrow> bool" where
  "within_int n \<longleftrightarrow> - (2 ^ 31) \<le> n \<and> n < 2 ^ 31"

definition within_bigint :: "int \<Rightarrow> bool" where
  "within_bigint n \<longleftrightarrow> - (2 ^ 63) \<le> n \<and> n < 2 ^ 63"

definition refuses_others :: "('o, 'db, 'w, 'q) postgres_adapter \<Rightarrow> ('o statement \<Rightarrow> bool) \<Rightarrow> bool" where
  "refuses_others ad accepts \<longleftrightarrow>
     (\<forall>q. accepts q \<longrightarrow> sendable q) \<and>
     (\<forall>q db. \<not> accepts q \<longrightarrow> (\<exists>db' e. pa_execute ad q db = (db', Inl e)))"

definition executes ::
  "('o, 'db, 'w, 'q) postgres_adapter \<Rightarrow> ('db \<Rightarrow> 'o event list) \<Rightarrow> 'o statement \<Rightarrow> 'db
    \<Rightarrow> ('o event list \<Rightarrow> bool) \<Rightarrow> ('o event list \<Rightarrow> bool) \<Rightarrow> bool" where
  \<comment> \<open>it succeeds with results of one kind, in a state with rows of another\<close>
  "executes ad rows q db result after \<longleftrightarrow>
     (\<exists>db' rs. pa_execute ad q db = (db', Inr rs) \<and> result rs \<and> after (rows db'))"

text \<open>
  Advisory locks are granted, and change no row; a key is a \<open>bigint\<close>. A statement that takes several
  has a column for each, and a result has no more than 1664 columns; what the server's table of
  locks has room for is its own affair.
\<close>

definition serves_locks ::
  "('o, 'db, 'w, 'q) postgres_adapter \<Rightarrow> ('db \<Rightarrow> 'o event list) \<Rightarrow> ('o statement \<Rightarrow> bool) \<Rightarrow> bool" where
  "serves_locks ad rows accepts \<longleftrightarrow>
     (\<forall>db. executes ad rows ([SQL ''SELECT 1;''], []) db (\<lambda>_. True) (\<lambda>r. r = rows db)) \<and>
     (\<forall>db k. within_bigint k \<longrightarrow>
        executes ad rows ([SQL ''SELECT pg_advisory_xact_lock(%s);''], [db_int k]) db (\<lambda>_. True) (\<lambda>r. r = rows db)) \<and>
     (\<forall>db ks. ks \<noteq> [] \<and> list_all within_bigint ks \<and> accepts (locks_sql (length ks), map db_int ks) \<longrightarrow>
        executes ad rows (locks_sql (length ks), map db_int ks) db (\<lambda>_. True) (\<lambda>r. r = rows db)) \<and>
     (\<forall>n vs. accepts (locks_sql n, vs) \<longrightarrow> n \<le> 1664)"

text \<open>\<open>ORDER BY sequence_number DESC LIMIT 1\<close>\<close>

definition serves_last ::
  "('o, 'db, 'w, 'q) postgres_adapter \<Rightarrow> ('db \<Rightarrow> 'o event list) \<Rightarrow> ('o statement \<Rightarrow> bool) \<Rightarrow> bool" where
  "serves_last ad rows accepts \<longleftrightarrow>
     (\<forall>db target. scannable target \<and> accepts (read_last_query target (pa_table ad)) \<longrightarrow> executes ad rows (read_last_query target (pa_table ad)) db
        (\<lambda>rs. fetch_one rs = last_option (filter (selects target) (rows db))) (\<lambda>r. r = rows db))"

text \<open>
  \<open>DISTINCT ON (category, stream)\<close> with \<open>ORDER BY category, stream, position DESC\<close>: one row of each
  stream that has any, none of its rows with a greater position. An empty \<open>IN ()\<close> is no SQL.
\<close>

definition last_of_streams :: "string \<Rightarrow> string list \<Rightarrow> 'o event list \<Rightarrow> 'o event list \<Rightarrow> bool" where
  "last_of_streams c streams all rs \<longleftrightarrow>
     distinct (map se_stream rs) \<and>
     (\<forall>e \<in> set rs. e \<in> set all \<and> se_category e = c \<and> se_stream e \<in> set streams) \<and>
     (\<forall>e \<in> set all. se_category e = c \<and> se_stream e \<in> set streams \<longrightarrow>
        (\<exists>e' \<in> set rs. se_stream e' = se_stream e \<and> se_position e \<le> se_position e'))"

definition serves_batch ::
  "('o, 'db, 'w, 'q) postgres_adapter \<Rightarrow> ('db \<Rightarrow> 'o event list) \<Rightarrow> ('o statement \<Rightarrow> bool) \<Rightarrow> bool" where
  "serves_batch ad rows accepts \<longleftrightarrow>
     (\<forall>db c streams. accepts (read_last_category_batch_query c streams (pa_table ad)) \<longrightarrow>
        executes ad rows (read_last_category_batch_query c streams (pa_table ad)) db
          (last_of_streams c streams (rows db)) (\<lambda>r. r = rows db)) \<and>
     (\<forall>c. \<not> accepts (read_last_category_batch_query c [] (pa_table ad)))"

text \<open>
  The rows inserted get growing numbers, above all others; their ids must be new. \<open>VALUES\<close> needs a
  row.
\<close>

definition inserted_event :: "('o pyval \<Rightarrow> 'o pyval) \<Rightarrow> int \<Rightarrow> 'o insert_row \<Rightarrow> 'o event" where
  "inserted_event jsonb n row =
     \<lparr>se_id = ir_id row, se_name = ir_name row, se_stream = ir_stream row, se_category = ir_category row,
      se_position = ir_position row, se_sequence_number = n, se_payload = jsonb (ir_payload row),
      se_observed_at = ir_observed_at row, se_occurred_at = ir_occurred_at row\<rparr>"

definition serves_insert ::
  "('o, 'db, 'w, 'q) postgres_adapter \<Rightarrow> ('db \<Rightarrow> 'o event list) \<Rightarrow> ('o pyval \<Rightarrow> 'o pyval)
    \<Rightarrow> ('o statement \<Rightarrow> bool) \<Rightarrow> bool" where
  "serves_insert ad rows jsonb accepts \<longleftrightarrow>
     (\<forall>db new. accepts (insert_statement new (pa_table ad)) \<and> distinct (map ir_id new) \<and> set (map ir_id new) \<inter> set (map se_id (rows db)) = {} \<longrightarrow>
        (\<exists>ns. length ns = length new \<and> sorted_wrt (<) (map se_sequence_number (rows db) @ ns) \<and>
          executes ad rows (insert_statement new (pa_table ad)) db
            (\<lambda>rs. rs = map2 (inserted_event jsonb) ns new)
            (\<lambda>r. r = rows db @ map2 (inserted_event jsonb) ns new))) \<and>
     (\<forall>new. accepts (insert_statement new (pa_table ad)) \<longrightarrow>
        new \<noteq> [] \<and> list_all (\<lambda>row. within_int (ir_position row)) new)"

text \<open>\<open>WHERE ... ORDER BY sequence_number LIMIT n\<close>\<close>

datatype scan_condition = CategoryIs string | StreamIs string | NumberAfter int

fun scan_condition_sql :: "scan_condition \<Rightarrow> 'o sql_condition" where
  "scan_condition_sql (CategoryIs c) = column_equals ''category'' c"
| "scan_condition_sql (StreamIs s) = column_equals ''stream'' s"
| "scan_condition_sql (NumberAfter n) =
     Condition (Some (ExprOperand (column ''sequence_number''))) (Some (ExprOperand (Constant (Plain (QVal (PyInt n))))))
       (Some PG_GREATER_THAN)"

fun condition_selects :: "'o event \<Rightarrow> scan_condition \<Rightarrow> bool" where
  "condition_selects e (CategoryIs c) \<longleftrightarrow> se_category e = c"
| "condition_selects e (StreamIs s) \<longleftrightarrow> se_stream e = s"
| "condition_selects e (NumberAfter n) \<longleftrightarrow> n < se_sequence_number e"

text \<open>A \<open>LIMIT\<close> is a \<open>bigint\<close>, and so are the sequence numbers; a text is sent in a message of its size.\<close>

definition sendable_text :: "string \<Rightarrow> bool" where
  "sendable_text t \<longleftrightarrow> storable_text t \<and> length t < 2 ^ 28"

fun storable_condition :: "scan_condition \<Rightarrow> bool" where
  "storable_condition (CategoryIs c) = sendable_text c"
| "storable_condition (StreamIs s) = sendable_text s"
| "storable_condition (NumberAfter n) = within_bigint n"

fun is_textual :: "scan_condition \<Rightarrow> bool" where
  "is_textual (NumberAfter n) = False"
| "is_textual _ = True"

definition storable_conditions :: "scan_condition list \<Rightarrow> bool" where
  "storable_conditions ws \<longleftrightarrow>
     list_all storable_condition ws \<and> length ws < 65535 \<and> length (filter is_textual ws) \<le> 2"

definition scan_ast :: "scan_condition list \<Rightarrow> int \<Rightarrow> table_settings \<Rightarrow> 'o pg_query" where
  "scan_ast ws n settings =
     Query [] None [StarTarget None None] [table_name settings] [] (map scan_condition_sql ws)
       [SortBy (column ''sequence_number'') None] (Some n) None"

definition serves_scan :: "('o, 'db, 'w, 'q) postgres_adapter \<Rightarrow> ('db \<Rightarrow> 'o event list) \<Rightarrow> bool" where
  "serves_scan ad rows \<longleftrightarrow>
     (\<forall>db ws n q params. 0 \<le> n \<and> within_bigint n \<and> storable_conditions ws \<and> build (scan_ast ws n (pa_table ad)) = Inr (q, params) \<longrightarrow>
        executes ad rows (q, map DbValue params) db
          (\<lambda>rs. rs = take (nat n) (filter (\<lambda>e. list_all (condition_selects e) ws) (rows db)))
          (\<lambda>r. r = rows db))"

definition serves_events ::
  "('o, 'db, 'w, 'q) postgres_adapter \<Rightarrow> ('db \<Rightarrow> 'o event list) \<Rightarrow> ('o pyval \<Rightarrow> 'o pyval)
    \<Rightarrow> ('o statement \<Rightarrow> bool) \<Rightarrow> bool" where
  "serves_events ad rows jsonb accepts \<longleftrightarrow>
     (\<forall>db db'. rows (pa_rollback ad db db') = rows db) \<and>
     (\<forall>db. sorted_wrt (<) (map se_sequence_number (rows db))) \<and>
     refuses_others ad accepts \<and> serves_locks ad rows accepts \<and> serves_last ad rows accepts \<and>
     serves_batch ad rows accepts \<and> serves_insert ad rows jsonb accepts \<and> serves_scan ad rows"

subsection \<open>Scanning\<close>

definition target_conditions :: "event_source_identifier \<Rightarrow> scan_condition list" where
  "target_conditions target =
     (case target_category target of Some c \<Rightarrow> if c = [] then [] else [CategoryIs c] | None \<Rightarrow> [])
     @ (case target_stream target of Some s \<Rightarrow> if s = [] then [] else [StreamIs s] | None \<Rightarrow> [])"

definition constraint_conditions :: "'q query_constraint list \<Rightarrow> scan_condition list" where
  "constraint_conditions cs = map (\<lambda>c. case c of SequenceNumberAfterConstraint n \<Rightarrow> NumberAfter n) cs"

lemma applied_constraints:
  "list_all built_in_constraint cs \<Longrightarrow>
     res_fold (\<lambda>c b. res_bind (default_pg_constraint_converter c) (\<lambda>applier. Inr (applier b))) cs
       (Query [] None ts tb [] w [] None None)
     = Inr (Query [] None ts tb [] (w @ map scan_condition_sql (constraint_conditions cs)) [] None None)"
proof (induction cs arbitrary: w)
  case (Cons c cs)
  then show ?case
    by (cases c) (simp_all add: default_pg_constraint_converter_def sequence_number_after_applier_def
        constraint_conditions_def with_left_def with_right_def with_operator_def clone_condition_def
        empty_condition_def no_condition_params_def)
qed (simp add: constraint_conditions_def)

lemma scan_query_built:
  assumes "list_all built_in_constraint (sq_constraints p)"
  shows "scan_query p default_pg_constraint_converter settings =
    res_bind (build (scan_ast (target_conditions (sq_target p) @ constraint_conditions (sq_constraints p))
      (sq_page_size p) settings)) (\<lambda>(q, params). Inr (q, map DbValue params) :: 'o statement res)"
proof -
  have "where_equals ''stream'' (target_stream (sq_target p)) (where_equals ''category'' (target_category (sq_target p))
      (from_table (table_name settings) (select_all (empty_query :: 'o pg_query))))
    = Query [] None [StarTarget None None] [table_name settings] []
        (map scan_condition_sql (target_conditions (sq_target p))) [] None None"
    by (simp add: where_equals_def truthy_str_def empty_query_def target_conditions_def split: option.split)
  then show ?thesis
    by (simp add: scan_query_def applied_constraints [OF assms] scan_ast_def)
qed

lemma scan_condition_ok: "condition_ok (scan_condition_sql w)"
  by (cases w) (simp_all add: column_equals_def with_left_def with_right_def with_operator_def clone_condition_def
      empty_condition_def no_condition_params_def column_ok_def)

lemma scan_builds: "\<exists>q params. build (scan_ast ws n settings) = Inr (q, params)"
proof -
  have "query_ok (scan_ast ws n settings)"
    by (simp add: scan_ast_def column_ok_def list_all_iff scan_condition_ok)
  then show ?thesis using build_renderable by blast
qed

text \<open>A page of a scan, when the constraints are built-in\<close>

definition scanned :: "event_source_identifier \<Rightarrow> 'q query_constraint list \<Rightarrow> 'o event \<Rightarrow> bool" where
  "scanned target cs e \<longleftrightarrow> list_all (condition_selects e) (target_conditions target) \<and> list_all (meets e) cs"

lemma constraint_conditions_meet:
  "list_all built_in_constraint cs \<Longrightarrow> list_all (condition_selects e) (constraint_conditions cs) = list_all (meets e) cs"
proof (induction cs)
  case (Cons c cs)
  then show ?case by (cases c) (simp_all add: constraint_conditions_def)
qed (simp add: constraint_conditions_def)

definition numbers_within :: "'o event list \<Rightarrow> bool" where
  "numbers_within es \<longleftrightarrow> list_all (\<lambda>e. within_bigint (se_sequence_number e)) es"

definition storable_scan :: "event_source_identifier \<Rightarrow> 'q query_constraint list \<Rightarrow> bool" where
  "storable_scan target cs \<longleftrightarrow>
     pred_option sendable_text (target_category target) \<and> pred_option sendable_text (target_stream target)
     \<and> length cs < 65533 \<and> list_all (\<lambda>c. case c of SequenceNumberAfterConstraint n \<Rightarrow> within_bigint n | _ \<Rightarrow> True) cs"

lemma scan_conditions_storable:
  assumes "storable_scan target cs" "list_all built_in_constraint cs"
  shows "storable_conditions (target_conditions target @ constraint_conditions cs)"
proof -
  have "storable_condition (case c of SequenceNumberAfterConstraint n \<Rightarrow> NumberAfter n)" if "c \<in> set cs" for c
    using assms that by (cases c) (auto simp: storable_scan_def list_all_iff)
  then have "list_all storable_condition (target_conditions target @ constraint_conditions cs)"
    using assms(1) by (cases "target_category target"; cases "target_stream target")
      (auto simp: storable_scan_def target_conditions_def constraint_conditions_def list_all_iff)
  moreover have few: "length (target_conditions target) \<le> 2" by (simp add: target_conditions_def split: option.split)
  then have "length (target_conditions target @ constraint_conditions cs) < 65535"
    using assms(1) by (simp add: storable_scan_def constraint_conditions_def)
  moreover have "filter is_textual (constraint_conditions cs) = []"
    using assms(2) unfolding constraint_conditions_def
    by (induction cs) (auto split: query_constraint.splits)
  then have "length (filter is_textual (target_conditions target @ constraint_conditions cs)) \<le> 2"
    using few le_trans [OF length_filter_le [of is_textual "target_conditions target"]] by simp
  ultimately show ?thesis unfolding storable_conditions_def by blast
qed

lemma page_results:
  fixes ad :: "('o, 'db, 'w, 'q) postgres_adapter"
  assumes "serves_scan ad rows" "pa_constraints ad = default_pg_constraint_converter" "0 \<le> pa_page_size ad"
    and "list_all built_in_constraint cs" and "within_bigint (pa_page_size ad)" "storable_scan target cs"
  shows "snd (execute_query ad (scan_query \<lparr>sq_target = target, sq_constraints = cs, sq_page_size = pa_page_size ad\<rparr>
      (pa_constraints ad) (pa_table ad)) db) = Inr (take (nat (pa_page_size ad)) (filter (scanned target cs) (rows db)))"
proof -
  let ?ws = "target_conditions target @ constraint_conditions cs"
  obtain q and params :: "'o sql_value list" where built: "build (scan_ast ?ws (pa_page_size ad) (pa_table ad)) = Inr (q, params)"
    using scan_builds by blast
  have selected: "(\<lambda>e. list_all (condition_selects e) ?ws) = scanned target cs"
    by (rule ext) (simp add: scanned_def constraint_conditions_meet [OF assms(4)])
  have "executes ad rows (q, map DbValue params) db
      (\<lambda>rs. rs = take (nat (pa_page_size ad)) (filter (scanned target cs) (rows db))) (\<lambda>r. r = rows db)"
    using assms(1,3,5) built scan_conditions_storable [OF assms(6,4)] unfolding serves_scan_def selected [symmetric] by blast
  then show ?thesis
    using assms(4) by (auto simp: execute_query_def db_bind_def db_return_def assms(2) scan_query_built built executes_def)
qed

lemma after_yielded:
  assumes "sorted_wrt (<) (map se_sequence_number es)" "filter P es = ys @ zs" "ys \<noteq> []"
  shows "zs = filter (\<lambda>e. P e \<and> se_sequence_number (last ys) < se_sequence_number e) es"
proof -
  have "sorted_wrt (<) (map se_sequence_number (ys @ zs))"
    unfolding assms(2) [symmetric] using assms(1) by (simp add: sorted_wrt_map sorted_wrt_filter)
  moreover obtain init e where "ys = init @ [e]" using assms(3) by (cases ys rule: rev_cases) auto
  ultimately have "filter (\<lambda>e. se_sequence_number (last ys) < se_sequence_number e) (ys @ zs) = zs"
    by (auto simp: sorted_wrt_append filter_empty_conv filter_id_conv)
  then show ?thesis unfolding assms(2) [symmetric] filter_filter by simp
qed

lemma built_in_after: "list_all built_in_constraint cs
    \<Longrightarrow> page_constraints (Some n) cs = [SequenceNumberAfterConstraint n]"
proof -
  have after: "is_after_constraint c" if "built_in_constraint c" for c :: "'a query_constraint"
    using that by (cases c) auto
  assume "list_all built_in_constraint cs"
  then show ?thesis by (auto simp: page_constraints_def list_all_iff filter_empty_conv dest: after)
qed

lemma built_in_page: "list_all built_in_constraint cs \<Longrightarrow> list_all built_in_constraint (page_constraints previous cs)"
  using built_in_after [of cs] by (cases previous) (simp_all add: page_constraints_def)

lemma meets_later:
  assumes "list_all built_in_constraint cs" "list_all (meets e) cs" "se_sequence_number e < se_sequence_number e'"
  shows "list_all (meets e') cs"
proof -
  have "meets e' c" if "c \<in> set cs" for c
    using assms that by (cases c) (auto simp: list_all_iff)
  then show ?thesis by (simp add: list_all_iff)
qed

text \<open>
  What holds at a call: the matching rows are those yielded and those the next page starts with.
\<close>

lemma scan_pages_complete:
  assumes serves: "serves_scan ad rows" and conv: "pa_constraints ad = default_pg_constraint_converter"
    and page: "0 < pa_page_size ad" "within_bigint (pa_page_size ad)" and own: "list_all built_in_constraint own"
    and sorted: "\<And>i. sorted_wrt (<) (map se_sequence_number (rows (dbs i)))" "\<And>i. numbers_within (rows (dbs i))"
    and grows: "\<And>i. \<exists>new. rows (dbs (Suc i)) = rows (dbs i) @ new" and bound: "\<And>i. length (rows (dbs i)) \<le> bound"
  shows "list_all built_in_constraint cs \<Longrightarrow> storable_scan target (page_constraints previous cs)
    \<Longrightarrow> previous = last_number None ys
    \<Longrightarrow> filter (scanned target own) (rows (dbs i)) = ys @ filter (scanned target (page_constraints previous cs)) (rows (dbs i))
    \<Longrightarrow> \<exists>n g. scan_pages ad target dbs i previous cs = Some (g, None)
          \<and> ys @ g = filter (scanned target own) (rows (dbs n))"
proof (induction "bound - length ys" arbitrary: i previous cs ys rule: less_induct)
  case less
  let ?cs = "page_constraints previous cs"
  let ?rest = "filter (scanned target ?cs) (rows (dbs i))" and ?p = "nat (pa_page_size ad)"
  have cs: "list_all built_in_constraint ?cs" by (rule built_in_page [OF less.prems(1)])
  note results = page_results [OF serves conv less_imp_le [OF page(1)] cs page(2) less.prems(2), of "dbs i"]
  note call = scan_pages.simps [of ad target dbs i previous cs, unfolded Let_def results sum.case]
  show ?case
  proof (cases "length ?rest < ?p")
    case True
    then have "int (length (take ?p ?rest)) \<noteq> pa_page_size ad" "take ?p ?rest = ?rest" by auto
    then have "scan_pages ad target dbs i previous cs = Some (?rest, None)" unfolding call by (simp only: if_False)
    then show ?thesis using less.prems(4) by (intro exI [of _ i] exI [of _ ?rest]) simp
  next
    case False
    let ?results = "take ?p ?rest" and ?ys = "ys @ take ?p ?rest"
    have full: "int (length ?results) = pa_page_size ad" and some: "?results \<noteq> []" using False page(1) by auto
    obtain new where new: "rows (dbs (Suc i)) = rows (dbs i) @ new" using grows by blast
    let ?n = "se_sequence_number (last ?ys)"
    have previous: "last_number previous ?results = Some ?n" "last_number None ?ys = Some ?n"
      using some by (simp_all add: last_number_def)
    have "filter (scanned target own) (rows (dbs i)) = ?ys @ drop ?p ?rest" using less.prems(4) by simp
    then have split: "filter (scanned target own) (rows (dbs (Suc i)))
        = ?ys @ (drop ?p ?rest @ filter (scanned target own) new)" by (simp add: new)
    have "last ?ys \<in> set (filter (scanned target own) (rows (dbs (Suc i))))" unfolding split using some by simp
    then have last: "list_all (meets (last ?ys)) own" by (simp add: scanned_def)
    have "drop ?p ?rest @ filter (scanned target own) new
        = filter (\<lambda>e. scanned target own e \<and> ?n < se_sequence_number e) (rows (dbs (Suc i)))"
      by (rule after_yielded [OF sorted(1) split]) (use some in simp)
    also have "\<dots> = filter (scanned target (page_constraints (Some ?n) ?cs)) (rows (dbs (Suc i)))"
      unfolding built_in_after [OF cs] by (rule filter_cong) (auto simp: scanned_def dest: meets_later [OF own last])
    finally have next_page: "filter (scanned target own) (rows (dbs (Suc i)))
        = ?ys @ filter (scanned target (page_constraints (Some ?n) ?cs)) (rows (dbs (Suc i)))"
      using split by simp
    have "length ?ys \<le> length (rows (dbs (Suc i)))"
      using arg_cong [OF split, of length] length_filter_le [of "scanned target own" "rows (dbs (Suc i))"] by simp
    moreover have "length ys < length ?ys" using some unfolding length_append less_add_same_cancel1 length_greater_0_conv .
    ultimately have "bound - length ?ys < bound - length ys" using bound [of "Suc i"] by linarith
    have "within_bigint ?n"
    proof -
      have "last ?ys \<in> set (rows (dbs (Suc i)))"
        using \<open>last ?ys \<in> set (filter (scanned target own) (rows (dbs (Suc i))))\<close> by simp
      then show ?thesis using sorted(2) [of "Suc i"] by (auto simp: numbers_within_def list_all_iff)
    qed
    then have storable: "storable_scan target (page_constraints (Some ?n) ?cs)"
      unfolding built_in_after [OF cs] using less.prems(2) by (simp add: storable_scan_def)
    from less.hyps [OF _ cs storable previous(2) [symmetric] next_page] \<open>bound - length ?ys < bound - length ys\<close>
    obtain n g where g: "scan_pages ad target dbs (Suc i) (Some ?n) ?cs = Some (g, None)"
      "?ys @ g = filter (scanned target own) (rows (dbs n))" by blast
    have "scan_pages ad target dbs i previous cs = Some (?results @ g, None)"
      using call full g(1) previous(1) by (simp add: gen_append_def)
    then show ?thesis using g(2) by auto
  qed
qed

definition names_nonempty :: "event_source_identifier \<Rightarrow> bool" where
  "names_nonempty target \<longleftrightarrow> target_category target \<noteq> Some [] \<and> target_stream target \<noteq> Some []"

lemma target_selects:
  "scannable target \<Longrightarrow> names_nonempty target
    \<Longrightarrow> list_all (condition_selects e) (target_conditions target) \<longleftrightarrow> selects target e"
  by (cases target) (auto simp: target_conditions_def names_nonempty_def scannable_def
      is_event_sequence_identifier_def)

end
