(* ===== verification/Postgres_Saving.thy ===== *)
theory Postgres_Saving
  imports Postgres_Events
begin

section \<open>Saves and scans of the Postgres adapter\<close>

text \<open>
  What the operations of \<open>Postgres_Events\<close> come to on a server that serves the events table: the
  contract of the in-memory adapter, but for the empty saves that SQL cannot express. The server
  that serves the statements by their shape, at the end, is for the witnesses.
\<close>

subsection \<open>The rows of new events\<close>

definition saved_as ::
  "'o save_env \<Rightarrow> ('o pyval \<Rightarrow> 'o pyval) \<Rightarrow> string \<times> string \<Rightarrow> int \<Rightarrow> 'o raw_event \<Rightarrow> 'o event \<Rightarrow> bool" where
  "saved_as env jsonb key position event stored \<longleftrightarrow>
     se_category stored = fst key \<and> se_stream stored = snd key \<and> se_position stored = position \<and>
     serialise_to_string (env_str env) (ne_name event) raising_string_fallback = Inr (se_name stored) \<and>
     (\<exists>payload. serialise_to_json_value (env_json env) (ne_payload event) raising_serialisation_fallback = Inr payload
        \<and> se_payload stored = jsonb payload) \<and>
     se_observed_at stored = ne_observed_at event \<and> se_occurred_at stored = ne_occurred_at event"

text \<open>The events in a list, each saved at the next position\<close>

fun saved_from ::
  "'o save_env \<Rightarrow> ('o pyval \<Rightarrow> 'o pyval) \<Rightarrow> string \<times> string \<Rightarrow> int \<Rightarrow> 'o raw_event list \<Rightarrow> 'o event list \<Rightarrow> bool" where
  "saved_from env jsonb key position [] added \<longleftrightarrow> added = []"
| "saved_from env jsonb key position (event # events) added \<longleftrightarrow>
     (\<exists>stored rest. added = stored # rest \<and> saved_as env jsonb key position event stored
        \<and> saved_from env jsonb key (position + 1) events rest)"

lemma saved_from_fields:
  "saved_from env jsonb key position events added
    \<Longrightarrow> length added = length events \<and> map se_position added = [position..position + int (length added) - 1]
      \<and> (\<forall>e \<in> set added. selects (StreamIdentifier (fst key) (snd key)) e)"
proof (induction events arbitrary: position added)
  case (Cons event events)
  then obtain stored rest where a: "added = stored # rest" "saved_as env jsonb key position event stored"
    "saved_from env jsonb key (position + 1) events rest" by auto
  from Cons.IH [OF a(3)] a(1,2) show ?case by (auto simp: saved_as_def upto_rec1 algebra_simps)
qed simp

lemma insert_row_ok: "is_ok (insert_row env draw key position event) \<longleftrightarrow> serialisable env event"
  by (auto simp: insert_row_def serialisable_def is_ok_iff)

lemma insert_row_saved:
  "insert_row env draw key position event = Inr row
    \<Longrightarrow> saved_as env jsonb key position event (inserted_event jsonb n row) \<and> ir_id row = env_uuid env draw"
  by (auto simp: insert_row_def saved_as_def inserted_event_def)

text \<open>The ids drawn from a number on\<close>

definition ids_from :: "'o save_env \<Rightarrow> int \<Rightarrow> nat \<Rightarrow> string list" where
  "ids_from env draw n = map (\<lambda>i. env_uuid env (draw + int i)) [0..<n]"

lemma ids_from_simps [simp]:
  "ids_from env draw 0 = []"
  "ids_from env draw (Suc n) = env_uuid env draw # ids_from env (draw + 1) n"
  "ids_from env draw (m + n) = ids_from env draw m @ ids_from env (draw + int m) n"
proof -
  have "[0..<m + n] = [0..<m] @ map (\<lambda>i. i + m) [0..<n]" by (simp add: map_add_upt upt_add_eq_append [of 0 m n] add.commute)
  then show "ids_from env draw (m + n) = ids_from env draw m @ ids_from env (draw + int m) n"
    by (simp add: ids_from_def algebra_simps)
qed (simp_all add: ids_from_def upt_conv_Cons map_Suc_upt [symmetric] algebra_simps del: upt_Suc)

lemma stream_rows_ok: "is_ok (stream_rows env draw key position events) \<longleftrightarrow> list_all (serialisable env) events"
proof (induction events arbitrary: draw position)
  case (Cons event events)
  then show ?case using insert_row_ok [of env draw key position event] by (auto simp: is_ok_iff)
qed simp

lemma stream_rows_saved:
  "stream_rows env draw key position events = Inr new \<Longrightarrow> length ns = length new
    \<Longrightarrow> saved_from env jsonb key position events (map2 (inserted_event jsonb) ns new)
      \<and> map ir_id new = ids_from env draw (length events)"
proof (induction events arbitrary: draw position new ns)
  case (Cons event events)
  then obtain row rows n ms where r: "insert_row env draw key position event = Inr row"
    "stream_rows env (draw + 1) key (position + 1) events = Inr rows" "new = row # rows" "ns = n # ms"
    by (cases ns) auto
  from Cons.IH [OF r(2), of ms] Cons.prems(2) insert_row_saved [OF r(1), of jsonb n] r(3,4) show ?case by simp
qed simp

subsection \<open>The results of a batch\<close>

fun assigned :: "'o event list \<Rightarrow> 'o insert_definitions \<Rightarrow> (string \<times> string, 'o raw_stored list) dict" where
  "assigned stored [] = []"
| "assigned stored ((key, d) # definitions) =
     (key, map2 restored (si_events d) stored) # assigned (drop (length (si_events d)) stored) definitions"

lemma stream_results_map:
  "k + length events \<le> length stored
    \<Longrightarrow> stream_results stored (int k) events = Inr (map2 restored events (drop k stored))"
proof (induction events arbitrary: k)
  case (Cons event events)
  have "int k + 1 = int (Suc k)" by simp
  moreover have "drop k stored = stored ! k # drop (Suc k) stored" using Cons.prems by (simp add: Cons_nth_drop_Suc)
  moreover have "py_index stored (int k) = Inr (stored ! k)" using Cons.prems by (simp add: py_index_nth)
  ultimately show ?case using Cons.IH [of "Suc k"] Cons.prems by (simp add: add.commute)
qed simp

lemma batch_results_assigned:
  "k + expected_event_count definitions \<le> length stored
    \<Longrightarrow> batch_results stored (int k) definitions = Inr (assigned (drop k stored) definitions)"
proof (induction definitions arbitrary: k)
  case (Cons p definitions)
  obtain key d where p: "p = (key, d)" by (cases p)
  show ?case
    using Cons.IH [of "k + length (si_events d)"] Cons.prems stream_results_map [of k "si_events d" stored]
    by (simp add: p expected_event_count_def drop_drop add.commute
        of_nat_add [symmetric] del: of_nat_add)
qed simp

lemma definition_rows_ok:
  "is_ok (definition_rows env draw definitions) \<longleftrightarrow> list_all (\<lambda>(_, d). list_all (serialisable env) (si_events d)) definitions"
proof (induction definitions arbitrary: draw)
  case (Cons p definitions)
  obtain key d where p: "p = (key, d)" by (cases p)
  show ?case
    using Cons.IH [of "draw + int (length (si_events d))"] stream_rows_ok [of env draw key "si_position d" "si_events d"]
    by (auto simp: p is_ok_iff)
qed simp

definition batch_saved ::
  "'o save_env \<Rightarrow> ('o pyval \<Rightarrow> 'o pyval) \<Rightarrow> 'o insert_definitions \<Rightarrow> 'o event list \<Rightarrow> bool" where
  "batch_saved env jsonb definitions added \<longleftrightarrow>
     (\<forall>(key, d) \<in> set definitions.
        saved_from env jsonb key (si_position d) (si_events d)
          (stream_of (fst key) (snd key) added)
        \<and> map_of (assigned added definitions) key
          = Some (map2 restored (si_events d) (stream_of (fst key) (snd key) added)))
     \<and> (\<forall>e \<in> set added. (se_category e, se_stream e) \<in> fst ` set definitions)"

lemma map2_prefix: "length xs = length ys \<Longrightarrow> map2 f xs (ys @ zs) = map2 f xs ys"
  by (induction xs ys rule: list_induct2) auto

lemma definition_rows_saved:
  "definition_rows env draw definitions = Inr new \<Longrightarrow> length ns = length new \<Longrightarrow> distinct (map fst definitions)
    \<Longrightarrow> batch_saved env jsonb definitions (map2 (inserted_event jsonb) ns new)
      \<and> length new = expected_event_count definitions \<and> map ir_id new = ids_from env draw (length new)"
proof (induction definitions arbitrary: draw new ns)
  case (Cons p definitions)
  obtain c s d where p: "p = ((c, s), d)" by (metis prod.exhaust)
  obtain rows more where r: "stream_rows env draw (c, s) (si_position d) (si_events d) = Inr rows"
    "definition_rows env (draw + int (length (si_events d))) definitions = Inr more" "new = rows @ more"
    using Cons.prems(1) by (auto simp: p)
  let ?ms = "take (length rows) ns" and ?ns = "drop (length rows) ns"
  let ?head = "map2 (inserted_event jsonb) ?ms rows" and ?tail = "map2 (inserted_event jsonb) ?ns more"
  have lengths: "length ?ms = length rows" "length ?ns = length more" using Cons.prems(2) r(3) by simp_all
  note H = stream_rows_saved [OF r(1) lengths(1), of jsonb] and T = Cons.IH [OF r(2) lengths(2)]
  note F = saved_from_fields [OF conjunct1 [OF H]]
  have distinct: "distinct (map fst definitions)" "(c, s) \<notin> fst ` set definitions" using Cons.prems(3) by (auto simp: p)
  have rows: "length rows = length (si_events d)" using F lengths(1) by simp
  have added: "map2 (inserted_event jsonb) ns new = ?head @ ?tail"
    unfolding r(3) using lengths zip_append [of ?ms rows ?ns more] by simp
  have saved: "batch_saved env jsonb definitions ?tail" using T distinct(1) by blast
  have own: "stream_of c s (?head @ ?tail) = ?head"
    using F saved distinct(2) by (fastforce simp: batch_saved_def filter_empty_conv filter_id_conv)
  have others: "stream_of c' s' (?head @ ?tail) = stream_of c' s' ?tail" if "(c', s') \<noteq> (c, s)" for c' s'
    using F that by (auto simp: filter_empty_conv)
  have zip: "map2 restored (si_events d) (?head @ ?tail) = map2 restored (si_events d) ?head"
    by (rule map2_prefix) (use rows lengths in simp)
  have assign: "assigned (?head @ ?tail) (p # definitions)
      = ((c, s), map2 restored (si_events d) ?head) # assigned ?tail definitions"
  proof -
    have "drop (length (si_events d)) (?head @ ?tail) = ?tail" using rows lengths by simp
    then show ?thesis unfolding p assigned.simps zip by simp
  qed
  have each: "saved_from env jsonb (c', s') (si_position d') (si_events d') (stream_of c' s' (?head @ ?tail))
      \<and> map_of (assigned (?head @ ?tail) (p # definitions)) (c', s')
        = Some (map2 restored (si_events d') (stream_of c' s' (?head @ ?tail)))"
    if x: "((c', s'), d') \<in> set (p # definitions)" for c' s' d'
  proof (cases "(c', s') = (c, s)")
    case True
    then have "d' = d" using x distinct(2) by (auto simp: p intro: rev_image_eqI)
    then show ?thesis unfolding assign using True own H by simp
  next
    case False
    then have "((c', s'), d') \<in> set definitions" using x by (auto simp: p)
    from bspec [OF conjunct1 [OF saved [unfolded batch_saved_def]] this] show ?thesis
      using False unfolding assign prod.case fst_conv snd_conv others [OF False] map_of_Cons_code by auto
  qed
  have keys: "(se_category e, se_stream e) \<in> fst ` set (p # definitions)" if "e \<in> set (?head @ ?tail)" for e
    using that F saved by (auto simp: p batch_saved_def)
  have "batch_saved env jsonb (p # definitions) (?head @ ?tail)"
    unfolding batch_saved_def using keys
    by (intro conjI ballI; clarify?; simp only: fst_conv snd_conv each)
  then show ?case
    unfolding added using T H rows distinct(1) by (simp add: r(3) p expected_event_count_def)
qed (simp add: batch_saved_def expected_event_count_def)

subsection \<open>Inserting a batch\<close>

text \<open>
  Whether a server takes the statement of a batch, which there is when every event can be
  serialised; and what is then true of the events stored.
\<close>

definition insert_accepted ::
  "('o statement \<Rightarrow> bool) \<Rightarrow> 'o save_env \<Rightarrow> int \<Rightarrow> table_settings \<Rightarrow> 'o insert_definitions \<Rightarrow> bool" where
  "insert_accepted accepts env draw settings definitions \<longleftrightarrow>
     (case insert_batch_query env draw definitions settings of Inl e \<Rightarrow> False | Inr q \<Rightarrow> accepts q)"

definition storable_event :: "'o event \<Rightarrow> bool" where
  "storable_event e \<longleftrightarrow>
     list_all storable_text [se_id e, se_name e, se_stream e, se_category e] \<and> within_int (se_position e)"

definition fresh_ids :: "'o save_env \<Rightarrow> int \<Rightarrow> 'o event list \<Rightarrow> bool" where
  "fresh_ids env draw es \<longleftrightarrow> inj_on (env_uuid env) {draw..} \<and> (\<forall>e \<in> set es. \<forall>k \<ge> draw. se_id e \<noteq> env_uuid env k)"

lemma ids_fresh:
  assumes "fresh_ids env draw es"
  shows "distinct (ids_from env draw n)" "set (ids_from env draw n) \<inter> set (map se_id es) = {}"
proof -
  have "inj_on (\<lambda>i. env_uuid env (draw + int i)) {0..<n}"
  proof (rule inj_onI)
    fix x y assume "env_uuid env (draw + int x) = env_uuid env (draw + int y)"
    then have "draw + int x = draw + int y"
      by (rule inj_onD [OF conjunct1 [OF assms [unfolded fresh_ids_def]]]) simp_all
    then show "x = y" by simp
  qed
  then show "distinct (ids_from env draw n)" by (simp add: ids_from_def distinct_map)
  have "env_uuid env (draw + int i) \<notin> se_id ` set es" for i
  proof
    assume "env_uuid env (draw + int i) \<in> se_id ` set es"
    then obtain e where "e \<in> set es" "se_id e = env_uuid env (draw + int i)" by auto
    then show False using assms by (simp add: fresh_ids_def)
  qed
  then show "set (ids_from env draw n) \<inter> set (map se_id es) = {}" by (auto simp: ids_from_def)
qed

lemma serves_eventsD:
  assumes "serves_events ad rows jsonb accepts"
  shows "rows (pa_rollback ad db db') = rows db" "sorted_wrt (<) (map se_sequence_number (rows db))"
    "serves_locks ad rows accepts" "serves_last ad rows accepts" "serves_batch ad rows accepts"
    "serves_insert ad rows jsonb accepts" "serves_scan ad rows"
    "accepts q \<Longrightarrow> sendable q" "\<not> accepts q \<Longrightarrow> \<exists>db' e. pa_execute ad q db = (db', Inl e)"
  using assms unfolding serves_events_def refuses_others_def by blast+

lemma inserted_storable:
  assumes "sendable (insert_statement new settings)" "list_all (\<lambda>row. within_int (ir_position row)) new"
  shows "list_all storable_event (map2 (inserted_event jsonb) ns new)"
proof -
  have "storable_event (inserted_event jsonb n row)" if row: "row \<in> set new" for n row
  proof -
    have "list_all storable_value (row_values row)"
      using assms(1) row by (auto simp: sendable_def insert_statement_def list_all_iff)
    then show ?thesis
      using assms(2) row by (auto simp: row_values_def storable_event_def inserted_event_def list_all_iff)
  qed
  then show ?thesis by (auto simp: list_all_iff dest: set_zip_rightD)
qed

lemma execute_ok:
  assumes "executes ad rows q db P R"
  obtains db' rs where "execute_query ad (Inr q) db = (db', Inr rs)" "P rs" "R (rows db')"
  using assms by (auto simp: executes_def execute_query_def db_bind_def db_return_def)

text \<open>
  A batch is refused before it is sent when an event cannot be serialised, and by a server that does
  not take its statement; else its events are appended.
\<close>

lemma insert_batch_cases:
  assumes serves: "serves_events ad rows jsonb accepts" and ids: "fresh_ids env draw (rows db)"
    and keys: "distinct (map fst definitions)" and some: "definitions \<noteq> []"
  obtains (refused) e db' where "insert_batch env draw ad definitions db = (db', Inl e)"
      "\<not> insert_accepted accepts env draw (pa_table ad) definitions"
  | (appended) db' added where "insert_batch env draw ad definitions db = (db', Inr (assigned added definitions))"
      "rows db' = rows db @ added" "batch_saved env jsonb definitions added"
      "list_all (\<lambda>(_, d). list_all (serialisable env) (si_events d)) definitions"
      "expected_event_count definitions \<noteq> 0" "insert_accepted accepts env draw (pa_table ad) definitions"
      "list_all storable_event added"
proof (cases "definition_rows env draw definitions")
  case (Inl e)
  then have "insert_batch env draw ad definitions db = (db, Inl e)"
    using some by (simp add: insert_batch_def insert_batch_query_def execute_query_def db_bind_def db_return_def)
  then show thesis using refused Inl by (simp add: insert_accepted_def insert_batch_query_def)
next
  case (Inr new)
  let ?q = "insert_statement new (pa_table ad)"
  have ok: "list_all (\<lambda>(_, d). list_all (serialisable env) (si_events d)) definitions"
    using definition_rows_ok [of env draw definitions] Inr by simp
  have count: "length new = expected_event_count definitions"
    and names: "map ir_id new = ids_from env draw (length new)"
    using definition_rows_saved [OF Inr _ keys, of "replicate (length new) 0"] by simp_all
  have query: "insert_batch_query env draw definitions (pa_table ad) = Inr ?q" by (simp add: insert_batch_query_def Inr)
  then have accepted: "insert_accepted accepts env draw (pa_table ad) definitions \<longleftrightarrow> accepts ?q"
    by (simp add: insert_accepted_def)
  note insert = serves_eventsD(6) [OF serves, unfolded serves_insert_def]
  show thesis
  proof (cases "accepts ?q")
    case False
    then obtain db' e where "pa_execute ad ?q db = (db', Inl e)" using serves_eventsD(9) [OF serves] by blast
    then have "insert_batch env draw ad definitions db = (db', Inl e)"
      using some by (simp add: insert_batch_def query execute_query_def db_bind_def db_return_def)
    then show thesis using refused accepted False by simp
  next
    case True
    then have new: "new \<noteq> []" "list_all (\<lambda>row. within_int (ir_position row)) new" using insert by blast+
    have "distinct (map ir_id new)" "set (map ir_id new) \<inter> set (map se_id (rows db)) = {}"
      unfolding names by (rule ids_fresh [OF ids])+
    then obtain ns where ns: "length ns = length new"
      "executes ad rows ?q db (\<lambda>rs. rs = map2 (inserted_event jsonb) ns new)
        (\<lambda>r. r = rows db @ map2 (inserted_event jsonb) ns new)"
      using insert True by blast
    let ?added = "map2 (inserted_event jsonb) ns new"
    obtain db' where db': "execute_query ad (Inr ?q) db = (db', Inr ?added)" "rows db' = rows db @ ?added"
      by (rule execute_ok [OF ns(2)]) blast
    have "length ?added = expected_event_count definitions" using ns(1) count by simp
    then have "insert_batch env draw ad definitions db = (db', Inr (assigned ?added definitions))"
      using some db'(1) batch_results_assigned [of 0 definitions ?added]
      by (simp add: insert_batch_def query db_bind_def db_return_def)
    moreover have "batch_saved env jsonb definitions ?added"
      using definition_rows_saved [OF Inr ns(1) keys] by blast
    moreover have "expected_event_count definitions \<noteq> 0" using count [symmetric] new(1) by simp
    ultimately show thesis
      using db'(2) ok accepted True inserted_storable [OF serves_eventsD(8) [OF serves True] new(2)]
      by (intro appended) simp_all
  qed
qed

subsection \<open>Reads\<close>

lemma digest_bigint: "within_bigint (get_digest sha256 l)"
proof -
  have "sha256 l mod 10 ^ 16 < 10 ^ 16" by simp
  then have "int (sha256 l mod 10 ^ 16) < int (10 ^ 16)" by (simp only: of_nat_less_iff)
  then show ?thesis by (simp add: within_bigint_def get_digest_def)
qed

lemma locks_obtained:
  assumes "serves_events ad rows jsonb accepts"
  obtains db' rs where "obtain_write_locks ad (OneTarget (StreamIdentifier c s)) db = (db', Inr rs)" "rows db' = rows db"
proof -
  obtain l where "lock_name (pa_guarantee ad) (table_name (pa_table ad)) (StreamIdentifier c s) = Inr l"
    by (cases "pa_guarantee ad") simp_all
  then have "obtain_write_locks ad (OneTarget (StreamIdentifier c s))
      = execute_query ad (Inr ([SQL ''SELECT pg_advisory_xact_lock(%s);''], [db_int (get_digest (pa_sha256 ad) l)]))"
    by (simp add: lock_query_def)
  moreover have "executes ad rows ([SQL ''SELECT pg_advisory_xact_lock(%s);''], [db_int (get_digest (pa_sha256 ad) l)]) db
      (\<lambda>_. True) (\<lambda>r. r = rows db)"
    using serves_eventsD(3) [OF assms] digest_bigint unfolding serves_locks_def by blast
  ultimately show thesis using that by (auto elim: execute_ok)
qed

lemma stream_lock_names:
  "res_map (lock_name STREAM namespace) (map (StreamIdentifier c) ss) = Inr (map (\<lambda>s. namespace @ ''.'' @ c @ ''.'' @ s) ss)"
  by (induction ss) simp_all

lemma with_connection_run:
  "body db = (db', Inl e) \<Longrightarrow> with_connection ad body db = (pa_rollback ad db db', Inl e)"
  "body db = (db', Inr x) \<Longrightarrow> with_connection ad body db = (db', Inr x)"
  by (simp_all add: with_connection_def)

text \<open>The server takes the statement that locks the streams of a save, when there is one.\<close>

definition locks_accepted ::
  "('o statement \<Rightarrow> bool) \<Rightarrow> ('o, 'db, 'w, 'q) postgres_adapter \<Rightarrow> string
    \<Rightarrow> (string, ('o, 'w) publish_definition) dict \<Rightarrow> bool" where
  "locks_accepted accepts ad c streams \<longleftrightarrow> pa_guarantee ad \<noteq> STREAM \<or> streams = [] \<or>
     (case stream_locks_query (pa_sha256 ad) (map (StreamIdentifier c) (sorted_by (\<lambda>s. s) (dict_keys streams))) (pa_table ad) of
        Inl e \<Rightarrow> False
      | Inr q \<Rightarrow> accepts q)"

lemma category_locks_obtained:
  fixes ad :: "('o, 'db, 'w, 'q) postgres_adapter"
  assumes "serves_events ad rows jsonb accepts"
  obtains (granted) db' rs where "obtain_write_locks ad (category_targets ad c streams) db = (db', Inr rs)"
      "rows db' = rows db" "locks_accepted accepts ad c streams"
  | (refused) db' e where "obtain_write_locks ad (category_targets ad c streams) db = (db', Inl e)"
      "\<not> locks_accepted accepts ad c streams"
proof -
  let ?ss = "sorted_by (\<lambda>s. s) (dict_keys streams)"
  note locks = serves_eventsD(3) [OF assms, unfolded serves_locks_def]
  have one: "executes ad rows ([SQL ''SELECT pg_advisory_xact_lock(%s);''], [db_int (get_digest (pa_sha256 ad) l)]) db
      (\<lambda>_. True) (\<lambda>r. r = rows db)" for l using locks digest_bigint by blast
  have "\<exists>q. obtain_write_locks ad (category_targets ad c streams) = execute_query ad (Inr q)
      \<and> (executes ad rows q db (\<lambda>_. True) (\<lambda>r. r = rows db) \<and> locks_accepted accepts ad c streams
         \<or> \<not> accepts q \<and> \<not> locks_accepted accepts ad c streams)"
  proof (cases "pa_guarantee ad")
    case STREAM
    show ?thesis
    proof (cases streams)
      case Nil
      then have "obtain_write_locks ad (category_targets ad c streams) = execute_query ad (Inr ([SQL ''SELECT 1;''], []))"
        using STREAM by (simp add: category_targets_def dict_keys_def sorted_by_def)
      then show ?thesis using locks Nil by (auto simp: locks_accepted_def)
    next
      case (Cons t ts)
      let ?ks = "map (\<lambda>l. get_digest (pa_sha256 ad) l) (map (\<lambda>s. table_name (pa_table ad) @ ''.'' @ c @ ''.'' @ s) ?ss)"
      have query: "stream_locks_query (pa_sha256 ad) (map (StreamIdentifier c) ?ss) (pa_table ad)
          = (Inr (locks_sql (length ?ks), map db_int ?ks) :: 'o statement res)"
        unfolding stream_locks_query_def stream_lock_names by simp
      have "length ?ss = length streams" by (simp add: dict_keys_def sorted_by_def)
      then obtain u us where ss: "?ss = u # us" using Cons by (cases ?ss) simp_all
      then have "obtain_write_locks ad (category_targets ad c streams)
          = execute_query ad (Inr (locks_sql (length ?ks), map db_int ?ks))"
        using STREAM query by (simp add: category_targets_def)
      moreover have "?ks \<noteq> []" using ss by simp
      moreover have "list_all within_bigint ?ks" by (simp add: list_all_iff digest_bigint)
      moreover have "locks_accepted accepts ad c streams \<longleftrightarrow> accepts (locks_sql (length ?ks), map db_int ?ks)"
        unfolding locks_accepted_def query using STREAM Cons by simp
      ultimately show ?thesis using locks by blast
    qed
  next
    case LOG
    then show ?thesis
      by - (rule exI, rule conjI [OF _ disjI1 [OF conjI [OF one]]],
        simp_all add: category_targets_def lock_query_def locks_accepted_def)
  next
    case CATEGORY
    then show ?thesis
      by - (rule exI, rule conjI [OF _ disjI1 [OF conjI [OF one]]],
        simp_all add: category_targets_def lock_query_def locks_accepted_def)
  qed
  then obtain q where q: "obtain_write_locks ad (category_targets ad c streams) = execute_query ad (Inr q)"
    "executes ad rows q db (\<lambda>_. True) (\<lambda>r. r = rows db) \<and> locks_accepted accepts ad c streams
      \<or> \<not> accepts q \<and> \<not> locks_accepted accepts ad c streams" by blast
  then show thesis
  proof (elim disjE conjE)
    assume "executes ad rows q db (\<lambda>_. True) (\<lambda>r. r = rows db)" "locks_accepted accepts ad c streams"
    then show thesis using granted q(1) by (auto elim: execute_ok)
  next
    assume many: "\<not> accepts q" "\<not> locks_accepted accepts ad c streams"
    then obtain db' e where "pa_execute ad q db = (db', Inl e)" using serves_eventsD(9) [OF assms] by blast
    then show thesis using refused q(1) many by (simp add: execute_query_def db_bind_def db_return_def)
  qed
qed

text \<open>
  A save of more than 1664 streams to a category is refused under the guarantee \<open>STREAM\<close>, as one
  statement takes all their locks.
\<close>

lemma many_streams_refused:
  fixes ad :: "('o, 'db, 'w, 'q) postgres_adapter"
  assumes "serves_events ad rows jsonb accepts" "pa_guarantee ad = STREAM" "1664 < length streams"
  shows "\<exists>db' e. pg_save_to_category env draw ad c streams db = (db', Inl e) \<and> rows db' = rows db"
proof -
  have "\<not> locks_accepted accepts ad c streams"
    using serves_eventsD(3) [OF assms(1)] assms(2,3)
    by (auto simp: locks_accepted_def stream_locks_query_def stream_lock_names serves_locks_def dict_keys_def
        sorted_by_def not_le)
  with assms(1) obtain db1 e where "obtain_write_locks ad (category_targets ad c streams) db = (db1, Inl e)"
    by (cases rule: category_locks_obtained [where db = db and c = c and streams = streams]) blast+
  then have "pg_save_to_category env draw ad c streams db = (pa_rollback ad db db1, Inl e)"
    unfolding pg_save_to_category_def by (intro with_connection_run(1)) (simp add: db_bind_def)
  then show ?thesis using serves_eventsD(1) [OF assms(1)] by blast
qed

lemma last_read:
  assumes "serves_events ad rows jsonb accepts" "scannable target" "accepts (read_last_query target (pa_table ad))"
  obtains db' where "read_last ad target db = (db', Inr (last_option (filter (selects target) (rows db))))" "rows db' = rows db"
proof -
  have "executes ad rows (read_last_query target (pa_table ad)) db
      (\<lambda>rs. fetch_one rs = last_option (filter (selects target) (rows db))) (\<lambda>r. r = rows db)"
    using serves_eventsD(4) [OF assms(1)] assms(2,3) unfolding serves_last_def by blast
  then obtain db' rs where "execute_query ad (Inr (read_last_query target (pa_table ad))) db = (db', Inr rs)"
    "fetch_one rs = last_option (filter (selects target) (rows db))" "rows db' = rows db"
    by (rule execute_ok)
  then show thesis using that by (simp add: read_last_def db_bind_def db_return_def)
qed

text \<open>The greatest position of a stream is that of its last event.\<close>

lemma last_of_stream:
  assumes pos: "positions_ok es" and last: "last_of_streams c streams es rs" and s: "s \<in> set streams"
  shows "map_of (dict_by se_stream rs) s = last_option (stream_of c s es)"
proof (cases "stream_of c s es" rule: rev_cases)
  case Nil
  then have "s \<notin> se_stream ` set rs" using last by (auto simp: last_of_streams_def filter_empty_conv)
  then show ?thesis using Nil by (simp add: dict_by_None_iff)
next
  case (snoc ys y)
  have "y \<in> set (stream_of c s es)" unfolding snoc by simp
  then have y: "y \<in> set es" "se_category y = c" "se_stream y = s" by auto
  then obtain e where e: "e \<in> set rs" "se_stream e = s" "se_position y \<le> se_position e"
    using last s unfolding last_of_streams_def by blast
  then have "e \<in> set (stream_of c s es)" using last by (auto simp: last_of_streams_def)
  then have "e \<in> set (ys @ [y])" unfolding snoc .
  moreover have "map se_position (ys @ [y]) = [0..int (length (ys @ [y])) - 1]"
    using pos [unfolded positions_ok_def, rule_format, of c s] unfolding snoc .
  then have "map se_position ys @ [se_position y] = [0..int (length ys) - 1] @ [int (length ys)]"
    by (simp add: upto_rec2)
  then have "map se_position ys = [0..int (length ys) - 1]" "se_position y = int (length ys)" by simp_all
  then have "\<forall>x \<in> set ys. se_position x < se_position y" by (metis atLeastAtMost_iff image_eqI list.set_map set_upto zle_diff1_eq)
  ultimately have "e = y" using e(3) by auto
  moreover have "map_of (dict_by se_stream rs) (se_stream e) = Some e"
    by (rule dict_by_distinct) (use last e(1) in \<open>simp_all add: last_of_streams_def\<close>)
  ultimately show ?thesis using e(2) by (simp add: snoc)
qed

lemma batch_read:
  assumes "serves_events ad rows jsonb accepts" "positions_ok (rows db)"
    and "accepts (read_last_category_batch_query c streams (pa_table ad))"
  obtains db' latest where "read_last_category_batch ad c streams db = (db', Inr latest)" "rows db' = rows db"
    "\<forall>s \<in> set streams. map_of latest s = last_option (stream_of c s (rows db))"
proof -
  have "executes ad rows (read_last_category_batch_query c streams (pa_table ad)) db
      (last_of_streams c streams (rows db)) (\<lambda>r. r = rows db)"
    using serves_eventsD(5) [OF assms(1)] assms(3) unfolding serves_batch_def by blast
  then obtain db' rs where "execute_query ad (Inr (read_last_category_batch_query c streams (pa_table ad))) db = (db', Inr rs)"
    "last_of_streams c streams (rows db) rs" "rows db' = rows db" by (rule execute_ok)
  then show thesis
    using that last_of_stream [OF assms(2)] by (simp add: read_last_category_batch_def db_bind_def db_return_def)
qed

subsection \<open>Saving\<close>

lemma extends_batch:
  assumes "batch_saved env jsonb definitions added"
    and "\<forall>(key, d) \<in> set definitions. si_position d = int (length (stream_of (fst key) (snd key) old))"
  shows "extends old added"
  unfolding extends_def
proof (intro allI)
  fix c s
  show "map se_position (stream_of c s added) = [int (length (stream_of c s old))
      ..int (length (stream_of c s old)) + int (length (stream_of c s added)) - 1]"
  proof (cases "(c, s) \<in> fst ` set definitions")
    case True
    then obtain d where d: "((c, s), d) \<in> set definitions" by auto
    have "saved_from env jsonb (c, s) (si_position d) (si_events d) (stream_of c s added)"
      using bspec [OF conjunct1 [OF assms(1) [unfolded batch_saved_def]] d] by simp
    moreover have "si_position d = int (length (stream_of c s old))" using bspec [OF assms(2) d] by simp
    ultimately show ?thesis using saved_from_fields by metis
  next
    case False
    have "stream_of c s added = []"
    proof (rule filter_False, rule ballI)
      fix e assume "e \<in> set added"
      then have "(se_category e, se_stream e) \<in> fst ` set definitions"
        using bspec [OF conjunct2 [OF assms(1) [unfolded batch_saved_def]]] by simp
      then show "\<not> selects (StreamIdentifier c s) e" using False by auto
    qed
    then show ?thesis by simp
  qed
qed

lemma next_position_length: "positions_ok es \<Longrightarrow> next_position (last_option (stream_of c s es)) = int (length (stream_of c s es))"
  using last_position [of es c s] by (simp add: next_position_def split: option.splits)

lemma batch_saved_one:
  assumes "batch_saved env jsonb [((c, s), d)] added"
  shows "saved_from env jsonb (c, s) (si_position d) (si_events d) added"
proof -
  have "stream_of c s added = added"
    by (rule filter_True) (use conjunct2 [OF assms [unfolded batch_saved_def]] in simp)
  then show ?thesis using conjunct1 [OF assms [unfolded batch_saved_def]] by simp
qed

text \<open>
  C32. Saving to a stream in Postgres keeps the contract of the in-memory adapter, as far as the
  server takes its statements. If it does not take the names of the stream, the save raises; if the
  condition does not hold of the stream's latest event, it raises UnmetWriteConditionError; if an
  event cannot be serialised, there is no event to insert, or the server does not take the rows, it
  raises; in each case the table is as it was. Otherwise it appends one row for each event, at the
  positions that continue the stream, and returns the stored events with names and payloads as they
  were given; no text of them has a NUL character and their positions are within \<open>INT\<close>. Positions
  stay without gaps.
\<close>

theorem postgres_save_to_stream:
  fixes ad :: "('o, 'db, 'w, 'q) postgres_adapter"
  assumes serves: "serves_events ad rows jsonb accepts" and pos: "positions_ok (rows db)"
    and ids: "fresh_ids env draw (rows db)"
    and conv: "pa_conditions ad = default_pg_condition_converter" and built_in: "built_in_condition condition"
    and save: "pg_save_to_stream env draw ad c s events condition db = (db', r)"
  shows "let latest = last_option (stream_of c s (rows db)); start = int (length (stream_of c s (rows db))) in
    if \<not> accepts (read_last_query (StreamIdentifier c s) (pa_table ad))
    then rows db' = rows db \<and> (\<exists>e. r = Inl e)
    else if \<not> condition_holds condition latest
    then rows db' = rows db \<and> (\<exists>m. r = Inl (UnmetWriteConditionError m))
    else if events = [] \<or> \<not> list_all (serialisable env) events
      \<or> \<not> insert_accepted accepts env draw (pa_table ad) [((c, s), \<lparr>si_events = events, si_position = start\<rparr>)]
    then rows db' = rows db \<and> (\<exists>e. r = Inl e)
    else \<exists>added. rows db' = rows db @ added \<and> positions_ok (rows db')
      \<and> saved_from env jsonb (c, s) start events added \<and> list_all storable_event added
      \<and> r = Inr (map2 restored events added)"
proof (cases "accepts (read_last_query (StreamIdentifier c s) (pa_table ad))")
  case refused: False
  obtain db1 rs where db1: "obtain_write_locks ad (OneTarget (StreamIdentifier c s)) db = (db1, Inr rs)"
    by (rule locks_obtained [OF serves]) blast
  obtain db2 e where "pa_execute ad (read_last_query (StreamIdentifier c s) (pa_table ad)) db1 = (db2, Inl e)"
    using serves_eventsD(9) [OF serves refused] by blast
  then have "pg_save_to_stream env draw ad c s events condition db = (pa_rollback ad db db2, Inl e)"
    unfolding pg_save_to_stream_def
    by (intro with_connection_run(1)) (simp add: db_bind_def db1 read_last_def execute_query_def db_return_def
        del: obtain_write_locks.simps)
  then show ?thesis using save serves_eventsD(1) [OF serves] refused by auto
next
  case names: True
  let ?latest = "last_option (stream_of c s (rows db))" and ?start = "int (length (stream_of c s (rows db)))"
  let ?ctx = "\<lparr>ctx_identifier = StreamIdentifier c s, ctx_latest_event = ?latest\<rparr> :: 'o enforcer_context"
  let ?definitions = "[((c, s), \<lparr>si_events = events, si_position = ?start\<rparr>)]"
  obtain db1 rs where db1: "obtain_write_locks ad (OneTarget (StreamIdentifier c s)) db = (db1, Inr rs)" "rows db1 = rows db"
    by (rule locks_obtained [OF serves])
  obtain db2 where db2: "read_last ad (StreamIdentifier c s) db1 = (db2, Inr ?latest)" "rows db2 = rows db"
    by (rule last_read [OF serves _ names, of db1])
      (simp_all add: scannable_def is_event_sequence_identifier_def db1(2))
  note enforce = pg_enforce_built_in [OF built_in, of ?ctx db2]
  note start = next_position_length [OF pos, of c s]
  note rollback = serves_eventsD(1) [OF serves]
  note steps = conv db_bind_def db1(1) db2(1) enforce start
  from built_in show ?thesis
  proof (cases rule: enforce_built_in_cases [of condition ?ctx])
    case (unmet m)
    have "pg_save_to_stream env draw ad c s events condition db
        = (pa_rollback ad db db2, Inl (UnmetWriteConditionError m))"
      unfolding pg_save_to_stream_def
      by (rule with_connection_run(1)) (simp add: steps unmet(1) del: obtain_write_locks.simps)
    then show ?thesis using unmet(2) save rollback names by (auto simp: Let_def)
  next
    case met
    have ids2: "fresh_ids env draw (rows db2)" using ids db2(2) by simp
    have keys: "distinct (map fst ?definitions)" "?definitions \<noteq> []" by simp_all
    from serves ids2 keys show ?thesis
    proof (cases rule: insert_batch_cases)
      case (refused e db3)
      then have "pg_save_to_stream env draw ad c s events condition db = (pa_rollback ad db db3, Inl e)"
        unfolding pg_save_to_stream_def
        by (intro with_connection_run(1)) (simp add: steps met(1) del: obtain_write_locks.simps)
      then have "db' = pa_rollback ad db db3" "r = Inl e" using save by simp_all
      then show ?thesis using met(2) rollback refused(2) names by (simp add: Let_def)
    next
      case (appended db3 added)
      have saved: "saved_from env jsonb (c, s) ?start events added" using batch_saved_one [OF appended(3)] by simp
      have "pg_save_to_stream env draw ad c s events condition db = (db3, Inr (map2 restored events added))"
        unfolding pg_save_to_stream_def
        by (intro with_connection_run(2)) (simp add: steps met(1) appended(1) db_return_def get_item_def del: obtain_write_locks.simps)
      moreover have "positions_ok (rows db3)"
        unfolding appended(2) db2(2) by (rule positions_ok_append [OF pos extends_batch [OF appended(3)]]) simp
      ultimately show ?thesis
        using met(2) save saved appended(2,4-7) db2(2) names by (auto simp: expected_event_count_def Let_def)
    qed
  qed
qed

definition definitions_for ::
  "string \<Rightarrow> 'o event list \<Rightarrow> (string, ('o, 'w) publish_definition) dict \<Rightarrow> 'o insert_definitions" where
  "definitions_for c es streams =
     map (\<lambda>(s, request). ((c, s), \<lparr>si_events = pd_events request,
                                  si_position = int (length (stream_of c s es))\<rparr>)) streams"

lemma category_definitions_cases:
  fixes ad :: "('o, 'db, 'w, 'q) postgres_adapter"
  assumes conv: "pa_conditions ad = default_pg_condition_converter" and pos: "positions_ok es"
  shows "requests_built_in streams \<Longrightarrow> \<forall>s \<in> set (dict_keys streams). map_of latest s = last_option (stream_of c s es)
    \<Longrightarrow> if \<forall>(s, request) \<in> set streams. condition_holds (pd_enforced request) (last_option (stream_of c s es))
        then category_definitions ad c latest streams db = (db, Inr (definitions_for c es streams))
        else \<exists>m. category_definitions ad c latest streams db = (db, Inl (UnmetWriteConditionError m))"
proof (induction streams)
  case (Cons p streams)
  obtain s request where p: "p = (s, request)" by (cases p)
  have latest: "map_of latest s = last_option (stream_of c s es)" using Cons.prems(2) by (simp add: p dict_keys_def del: selects.simps)
  let ?ctx = "\<lparr>ctx_identifier = StreamIdentifier c s, ctx_latest_event = last_option (stream_of c s es)\<rparr> :: 'o enforcer_context"
  have built_in: "built_in_condition (pd_enforced request)" "requests_built_in streams"
    using Cons.prems(1) by (simp_all add: requests_built_in_def p)
  note enforce = pg_enforce_built_in [OF built_in(1), of ?ctx db]
  have IH: "if \<forall>(s, request) \<in> set streams. condition_holds (pd_enforced request) (last_option (stream_of c s es))
      then category_definitions ad c latest streams db = (db, Inr (definitions_for c es streams))
      else \<exists>m. category_definitions ad c latest streams db = (db, Inl (UnmetWriteConditionError m))"
    by (rule Cons.IH [OF built_in(2)]) (use Cons.prems(2) in \<open>simp add: p dict_keys_def del: selects.simps\<close>)
  note position = next_position_length [OF pos, of c s]
  from built_in(1) show ?case
  proof (cases rule: enforce_built_in_cases [of "pd_enforced request" ?ctx])
    case (unmet m)
    then have "category_definitions ad c latest (p # streams) db = (db, Inl (UnmetWriteConditionError m))"
      by (simp add: p conv db_bind_def latest enforce del: selects.simps)
    moreover have "\<not> (\<forall>(s, request) \<in> set (p # streams). condition_holds (pd_enforced request) (last_option (stream_of c s es)))"
      using unmet(2) by (simp add: p del: selects.simps)
    ultimately show ?thesis by (simp only: if_False) blast
  next
    case met
    have step: "category_definitions ad c latest (p # streams) db = (case category_definitions ad c latest streams db of
        (db', Inl e) \<Rightarrow> (db', Inl e)
      | (db', Inr definitions) \<Rightarrow> (db', Inr (((c, s), \<lparr>si_events = pd_events request,
          si_position = int (length (stream_of c s es))\<rparr>) # definitions)))"
      by (simp add: p conv db_bind_def latest position enforce met(1) db_return_def del: selects.simps
          split: prod.split sum.split)
    have here: "condition_holds (pd_enforced request) (last_option (stream_of c s es))" using met(2) by (simp del: selects.simps)
    then have all: "(\<forall>(s, request) \<in> set (p # streams). condition_holds (pd_enforced request) (last_option (stream_of c s es)))
        \<longleftrightarrow> (\<forall>(s, request) \<in> set streams. condition_holds (pd_enforced request) (last_option (stream_of c s es)))"
      by (simp add: p del: selects.simps)
    show ?thesis
      using IH unfolding all step
      by (auto simp: p definitions_for_def simp del: selects.simps split: if_splits)
  qed
qed (simp add: definitions_for_def db_return_def)

lemma definitions_for_keys:
  assumes "wf_dict streams"
  shows "distinct (map fst (definitions_for c es streams))"
    "\<forall>(key, d) \<in> set (definitions_for c es streams). si_position d = int (length (stream_of (fst key) (snd key) es))"
proof -
  have "map fst (definitions_for c es streams) = map (Pair c) (dict_keys streams)"
    by (simp add: definitions_for_def dict_keys_def case_prod_unfold)
  then show "distinct (map fst (definitions_for c es streams))"
    using assms by (simp add: wf_dict_def distinct_map inj_on_def)
qed (auto simp: definitions_for_def simp del: selects.simps)

text \<open>The results by stream\<close>

lemma category_results:
  assumes "\<And>s. s \<in> set names \<Longrightarrow> map_of batch (c, s) = Some (f s)"
  shows "res_map (\<lambda>s. res_bind (get_item batch (c, s)) (\<lambda>events. Inr (s, events))) names = Inr (map (\<lambda>s. (s, f s)) names)"
  by (rule res_map_all_Inr) (simp add: get_item_def assms)

lemma definitions_for_all:
  "list_all (\<lambda>(_, d). list_all (serialisable env) (si_events d)) (definitions_for c es streams)
     \<longleftrightarrow> (\<forall>(s, request) \<in> set streams. list_all (serialisable env) (pd_events request))"
  "expected_event_count (definitions_for c es streams) = 0 \<longleftrightarrow> (\<forall>(s, request) \<in> set streams. pd_events request = [])"
  by (auto simp: definitions_for_def list_all_iff expected_event_count_def)

text \<open>What a batch that was saved says of each stream of a category\<close>

lemma batch_results:
  assumes "batch_saved env jsonb (definitions_for c es streams) added"
  defines "batch \<equiv> assigned added (definitions_for c es streams)"
  shows "(s, request) \<in> set streams \<Longrightarrow>
      saved_from env jsonb (c, s) (int (length (stream_of c s es))) (pd_events request) (stream_of c s added)"
    and "s \<in> set (dict_keys streams) \<Longrightarrow> map_of batch (c, s) = Some (the (map_of batch (c, s)))"
    and "(s, request) \<in> set streams \<Longrightarrow>
      map_of (map (\<lambda>s. (s, the (map_of batch (c, s)))) (dict_keys streams)) s
        = Some (map2 restored (pd_events request) (stream_of c s added))"
    and "e \<in> set added \<Longrightarrow> se_category e = c \<and> se_stream e \<in> set (dict_keys streams)"
proof -
  have each: "saved_from env jsonb (c, s) (int (length (stream_of c s es))) (pd_events request) (stream_of c s added)
      \<and> map_of batch (c, s) = Some (map2 restored (pd_events request) (stream_of c s added))"
    if "(s, request) \<in> set streams" for s request
  proof -
    have "((c, s), \<lparr>si_events = pd_events request, si_position = int (length (stream_of c s es))\<rparr>)
        \<in> set (definitions_for c es streams)" using that by (force simp: definitions_for_def)
    from bspec [OF conjunct1 [OF assms(1) [unfolded batch_saved_def]] this] show ?thesis by (simp add: batch_def)
  qed
  show "saved_from env jsonb (c, s) (int (length (stream_of c s es))) (pd_events request) (stream_of c s added)"
    if "(s, request) \<in> set streams" by (rule conjunct1 [OF each [OF that]])
  show "map_of batch (c, s) = Some (the (map_of batch (c, s)))" if "s \<in> set (dict_keys streams)"
    using that each by (auto simp: dict_keys_def simp del: selects.simps)
  show "map_of (map (\<lambda>s. (s, the (map_of batch (c, s)))) (dict_keys streams)) s
      = Some (map2 restored (pd_events request) (stream_of c s added))" if "(s, request) \<in> set streams"
  proof -
    have "s \<in> set (dict_keys streams)" using that by (force simp: dict_keys_def)
    then show ?thesis using each [OF that] by (simp add: map_of_map_restrict del: selects.simps)
  qed
  show "se_category e = c \<and> se_stream e \<in> set (dict_keys streams)" if "e \<in> set added"
    using bspec [OF conjunct2 [OF assms(1) [unfolded batch_saved_def]] that]
    by (auto simp: definitions_for_def dict_keys_def intro: rev_image_eqI)
qed

text \<open>
  C33. Saving to a category in Postgres is all or nothing, over one statement for all streams. It
  succeeds exactly when there is an event to insert, every stream's condition holds of its latest
  event, every event can be serialised, and the server takes the locks and the names of the streams and the
  rows; if it raises, the table is as it was. On success every requested stream is continued by its own
  events, at the positions after its last, no other stream gets any, the result maps each stream to
  its stored events, no text of them has a NUL character and their positions are within \<open>INT\<close>.
\<close>

theorem postgres_save_to_category:
  fixes ad :: "('o, 'db, 'w, 'q) postgres_adapter"
  assumes serves: "serves_events ad rows jsonb accepts" and pos: "positions_ok (rows db)"
    and ids: "fresh_ids env draw (rows db)"
    and conv: "pa_conditions ad = default_pg_condition_converter"
    and wf: "wf_dict streams" and built_in: "requests_built_in streams"
    and save: "pg_save_to_category env draw ad c streams db = (db', r)"
  shows "(is_ok r \<longleftrightarrow> (\<exists>(s, request) \<in> set streams. pd_events request \<noteq> [])
            \<and> (\<forall>(s, request) \<in> set streams. request_accepted env (rows db) c s request)
            \<and> locks_accepted accepts ad c streams
            \<and> accepts (read_last_category_batch_query c (dict_keys streams) (pa_table ad))
            \<and> insert_accepted accepts env draw (pa_table ad) (definitions_for c (rows db) streams))
    \<and> (case r of
         Inl e \<Rightarrow> rows db' = rows db
       | Inr results \<Rightarrow> positions_ok (rows db') \<and> (\<exists>added. rows db' = rows db @ added
           \<and> (\<forall>(s, request) \<in> set streams.
                saved_from env jsonb (c, s) (int (length (stream_of c s (rows db)))) (pd_events request) (stream_of c s added)
                \<and> map_of results s = Some (map2 restored (pd_events request) (stream_of c s added)))
           \<and> (\<forall>e \<in> set added. se_category e = c \<and> se_stream e \<in> set (dict_keys streams) \<and> storable_event e)))"
proof -
  let ?q = "read_last_category_batch_query c (dict_keys streams) (pa_table ad)"
  let ?definitions = "definitions_for c (rows db) streams"
  let ?holds = "\<forall>(s, request) \<in> set streams. condition_holds (pd_enforced request) (last_option (stream_of c s (rows db)))"
  let ?serialisable = "\<forall>(s, request) \<in> set streams. list_all (serialisable env) (pd_events request)"
  have accepted: "(\<forall>(s, request) \<in> set streams. request_accepted env (rows db) c s request) \<longleftrightarrow> ?holds \<and> ?serialisable"
    by (auto simp: request_accepted_def simp del: selects.simps)
  note rollback = serves_eventsD(1) [OF serves]
  have refused_by: ?thesis if "pg_save_to_category env draw ad c streams db = (pa_rollback ad db db1, Inl e)"
    "\<not> ?holds \<or> \<not> locks_accepted accepts ad c streams \<or> \<not> accepts ?q \<or> \<not> insert_accepted accepts env draw (pa_table ad) ?definitions" for db1 e
    using that save rollback accepted by auto
  from serves show ?thesis
  proof (cases rule: category_locks_obtained [where db = db and c = c and streams = streams])
    case (refused db1 e)
    then have "pg_save_to_category env draw ad c streams db = (pa_rollback ad db db1, Inl e)"
      unfolding pg_save_to_category_def by (intro with_connection_run(1)) (simp add: db_bind_def)
    then show ?thesis by (rule refused_by) (use refused(2) in blast)
  next
    case db1: (granted db1 rs)
    show ?thesis
    proof (cases "accepts ?q")
      case False
      obtain db2 e where "pa_execute ad ?q db1 = (db2, Inl e)" using serves_eventsD(9) [OF serves False] by blast
      then have "pg_save_to_category env draw ad c streams db = (pa_rollback ad db db2, Inl e)"
        unfolding pg_save_to_category_def
        by (intro with_connection_run(1)) (simp add: db_bind_def db1(1) read_last_category_batch_def
            execute_query_def db_return_def)
      then show ?thesis by (rule refused_by) (use False in blast)
    next
      case names: True
      have filled: "streams \<noteq> []"
      proof
        assume "streams = []"
        then show False using serves_eventsD(5) [OF serves] names by (simp add: serves_batch_def dict_keys_def)
      qed
      obtain db2 latest where db2: "read_last_category_batch ad c (dict_keys streams) db1 = (db2, Inr latest)" "rows db2 = rows db"
        "\<forall>s \<in> set (dict_keys streams). map_of latest s = last_option (stream_of c s (rows db))"
        by (rule batch_read [OF serves _ names, of db1]) (use pos db1(2) in simp_all)
      note checked = category_definitions_cases [OF conv pos built_in db2(3), of db2]
      show ?thesis
      proof (cases ?holds)
        case unmet: False
        then obtain m where "category_definitions ad c latest streams db2 = (db2, Inl (UnmetWriteConditionError m))"
          using checked by (auto simp only: if_False)
        then have "pg_save_to_category env draw ad c streams db = (pa_rollback ad db db2, Inl (UnmetWriteConditionError m))"
          unfolding pg_save_to_category_def
          by (intro with_connection_run(1)) (simp add: db_bind_def db1(1) db2(1))
        then show ?thesis by (rule refused_by) (use unmet in blast)
      next
        case met: True
        then have definitions: "category_definitions ad c latest streams db2 = (db2, Inr ?definitions)"
          using checked by (simp only: if_True)
        have ids2: "fresh_ids env draw (rows db2)" using ids db2(2) by simp
        have some: "?definitions \<noteq> []" using filled by (simp add: definitions_for_def)
        note steps = db_bind_def db1(1) db2(1) definitions
        from serves ids2 definitions_for_keys(1) [OF wf] some show ?thesis
        proof (cases rule: insert_batch_cases)
          case (refused e db3)
          then have "pg_save_to_category env draw ad c streams db = (pa_rollback ad db db3, Inl e)"
            unfolding pg_save_to_category_def by (intro with_connection_run(1)) (simp add: steps)
          then show ?thesis by (rule refused_by) (use refused(2) in blast)
        next
          case (appended db3 added)
          let ?results = "map (\<lambda>s. (s, the (map_of (assigned added ?definitions) (c, s)))) (dict_keys streams)"
          note batch = batch_results [OF appended(3)]
          have "pg_save_to_category env draw ad c streams db = (db3, Inr ?results)"
            unfolding pg_save_to_category_def
            by (intro with_connection_run(2)) (simp add: steps appended(1) db_return_def category_results [OF batch(2)])
          then have result: "db' = db3" "r = Inr ?results" using save by simp_all
          have positions: "positions_ok (rows db3)"
            unfolding appended(2) db2(2)
            by (rule positions_ok_append [OF pos extends_batch [OF appended(3) definitions_for_keys(2) [OF wf]]])
          have some_event: "\<exists>(s, request) \<in> set streams. pd_events request \<noteq> []"
            using appended(5) unfolding definitions_for_all(2) by blast
          have serialisable: ?serialisable using appended(4) unfolding definitions_for_all(1) .
          show ?thesis
            unfolding accepted result sum.case
            by (intro conjI exI [of _ added] ballI positions)
              (use some_event serialisable met names db1(3) appended(2,6,7) db2(2) batch(1,3,4) in
                \<open>auto simp only: is_ok_simps list_all_iff\<close>)
        qed
      qed
    qed
  qed
qed

subsection \<open>Scanning\<close>

text \<open>
  C34. Scanning in Postgres is complete however the log grows while its pages are read. With a
  positive page size, built-in constraints and a target whose names are not empty, all of which the
  server takes (no NUL character, numbers within \<open>BIGINT\<close>, fewer constraints than parameters), while
  other transactions append events with greater numbers, within some bound: the scan ends without an
  exception and yields exactly the events that the target selects and that meet the constraints of
  the log as some page saw it, in order, none twice and none missed.
\<close>

theorem postgres_scan_complete:
  assumes "serves_events ad rows jsonb accepts" "pa_constraints ad = default_pg_constraint_converter" "0 < pa_page_size ad"
    and "list_all built_in_constraint constraints" "scannable target" "names_nonempty target"
    and "\<And>i. \<exists>new. rows (dbs (Suc i)) = rows (dbs i) @ new" and "\<And>i. length (rows (dbs i)) \<le> bound"
    and "within_bigint (pa_page_size ad)" "storable_scan target constraints" "\<And>i. numbers_within (rows (dbs i))"
  shows "\<exists>n. pg_scan ad dbs target constraints
    = Some (filter (\<lambda>e. selects target e \<and> list_all (meets e) constraints) (rows (dbs n)), None)"
proof -
  have "\<exists>n g. scan_pages ad target dbs 0 None constraints = Some (g, None)
      \<and> [] @ g = filter (scanned target constraints) (rows (dbs n))"
    by (rule scan_pages_complete [where dbs = dbs and rows = rows, OF serves_eventsD(7) [OF assms(1)] assms(2,3,9,4)
          serves_eventsD(2) [OF assms(1)] assms(11,7,8)])
      (simp_all add: assms(4,10) last_number_def page_constraints_def)
  moreover have scanned: "scanned target constraints = (\<lambda>e. selects target e \<and> list_all (meets e) constraints)"
    by (rule ext) (simp add: scanned_def target_selects [OF assms(5,6)])
  ultimately show ?thesis unfolding scanned pg_scan_def append_Nil by blast
qed

text \<open>
  An empty category is no category to \<open>scan\<close>, which tests for truth where \<open>latest\<close> tests for None:
  its scan is conditioned like that of the log.
\<close>

lemma empty_category_is_log: "target_conditions (CategoryIdentifier []) = target_conditions LogIdentifier"
  by (simp add: target_conditions_def)

text \<open>A page size of 0 makes every page a full one: the scan never ends.\<close>

lemma page_constraints_again:
  assumes "list_all built_in_constraint cs"
  shows "page_constraints p (page_constraints p cs) = page_constraints p cs"
  using built_in_after [OF assms] built_in_after [OF built_in_page [OF assms]]
  by (cases p) (simp_all add: page_constraints_def)

lemma empty_pages_never_end:
  assumes "serves_scan ad rows" "pa_constraints ad = default_pg_constraint_converter" "pa_page_size ad = 0"
    and "list_all built_in_constraint constraints" "storable_scan target (page_constraints previous constraints)"
  shows "scan_pages ad target dbs i previous constraints = None"
proof (rule ccontr)
  let ?served = "\<lambda>ad' t p cs. ad' = ad \<and> list_all built_in_constraint cs \<and> storable_scan t (page_constraints p cs)"
  assume "scan_pages ad target dbs i previous constraints \<noteq> None"
  then obtain g where "scan_pages ad target dbs i previous constraints = Some g" by blast
  moreover have "\<not> ?served ad' t p cs" if scan: "scan_pages ad' t ds j p cs = Some g" for ad' t ds j p cs g
  proof (rule scan_pages.raw_induct [where P = "\<lambda>ad' t ds j p cs g. \<not> ?served ad' t p cs", OF _ scan])
    fix rec ad' t ds j p cs g
    assume IH: "\<And>ad' t ds j p cs g. rec ad' t ds j p cs = Some g \<Longrightarrow> \<not> ?served ad' t p cs"
      and eq: "(let cs = page_constraints p cs
        in case snd (execute_query ad' (scan_query \<lparr>sq_target = t, sq_constraints = cs,
             sq_page_size = pa_page_size ad'\<rparr> (pa_constraints ad') (pa_table ad')) (ds j)) of
           Inl e \<Rightarrow> Some ([], Some e)
         | Inr results \<Rightarrow> if int (length results) = pa_page_size ad'
             then Option.bind (rec ad' t ds (Suc j) (last_number p results) cs) (\<lambda>g. Some (gen_append results g))
             else Some (results, None)) = Some g"
    show "\<not> ?served ad' t p cs"
    proof
      assume served: "?served ad' t p cs"
      then have page: "list_all built_in_constraint (page_constraints p cs)" by (simp add: built_in_page)
      have "snd (execute_query ad (scan_query \<lparr>sq_target = t, sq_constraints = page_constraints p cs,
          sq_page_size = pa_page_size ad\<rparr> (pa_constraints ad) (pa_table ad)) (ds j)) = Inr []"
        using page_results [OF assms(1,2) _ page, of t "ds j"] assms(3) served by (simp add: within_bigint_def)
      then obtain g' where "rec ad t ds (Suc j) p (page_constraints p cs) = Some g'"
        using eq assms(3) served by (auto simp: Let_def last_number_def bind_eq_Some_conv)
      then show False using IH page served page_constraints_again [of cs p] by fastforce
    qed
  qed
  ultimately show False using assms(4,5) by blast
qed

subsection \<open>A server, for the witnesses\<close>

text \<open>
  It holds a list of events, tells the statements apart by their text, and reads their parameters.
\<close>

fun text_of :: "'o db_value \<Rightarrow> string" where
  "text_of (DbValue (Plain (QVal (PyStr s)))) = s"
| "text_of _ = []"

fun number_of :: "'o db_value \<Rightarrow> int" where
  "number_of (DbValue (Plain (QVal (PyInt n)))) = n"
| "number_of _ = 0"

fun json_of :: "'o db_value \<Rightarrow> 'o pyval" where
  "json_of (DbValue (Jsonb v)) = v"
| "json_of _ = PyNone"

fun time_of :: "'o db_value \<Rightarrow> datetime" where
  "time_of (DbTime t) = t"
| "time_of _ = 0"

fun row_of :: "'o db_value list \<Rightarrow> 'o insert_row" where
  "row_of [i, n, s, c, p, j, ob, oc] =
     \<lparr>ir_id = text_of i, ir_name = text_of n, ir_stream = text_of s, ir_category = text_of c,
      ir_position = number_of p, ir_payload = json_of j, ir_observed_at = time_of ob, ir_occurred_at = time_of oc\<rparr>"
| "row_of vs = \<lparr>ir_id = [], ir_name = [], ir_stream = [], ir_category = [], ir_position = 0, ir_payload = PyNone,
      ir_observed_at = 0, ir_occurred_at = 0\<rparr>"

fun rows_of :: "'o db_value list \<Rightarrow> 'o insert_row list" where
  "rows_of (a # b # c # d # e # f # g # h # vs) = row_of [a, b, c, d, e, f, g, h] # rows_of vs"
| "rows_of vs = []"

definition number_after_all :: "'o event list \<Rightarrow> int" where
  "number_after_all es = fold (\<lambda>e n. max (se_sequence_number e + 1) n) es 0"

definition sample_insert :: "'o insert_row list \<Rightarrow> 'o event list \<Rightarrow> 'o event list" where
  "sample_insert new es =
     map2 (inserted_event (\<lambda>v. v)) [number_after_all es .. number_after_all es + int (length new) - 1] new"

fun condition_of :: "string \<times> 'o db_value \<Rightarrow> scan_condition" where
  "condition_of (name, v) =
     (if name = ''category'' then CategoryIs (text_of v)
      else if name = ''stream'' then StreamIs (text_of v) else NumberAfter (number_of v))"

fun identifiers :: "sql \<Rightarrow> string list" where
  "identifiers [] = []"
| "identifiers (Identifier n # q) = n # identifiers q"
| "identifiers (SQL t # q) = identifiers q"

definition greatest_of :: "string \<Rightarrow> 'o event list \<Rightarrow> string \<Rightarrow> 'o event option" where
  "greatest_of c es s = last_option (sort_key se_position (stream_of c s es))"

text \<open>Its state is a list of events, of which an unordered one counts as empty.\<close>

definition served_rows :: "'o event list \<Rightarrow> 'o event list" where
  "served_rows db = (if sorted_wrt (<) (map se_sequence_number db) then db else [])"

text \<open>It refuses what the table cannot hold, and what is no SQL.\<close>

definition sample_accepts :: "'o statement \<Rightarrow> bool" where
  "sample_accepts statement \<longleftrightarrow> sendable statement \<and> (case fst statement of
       SQL t # q \<Rightarrow>
         (t = ''SELECT DISTINCT ON (category, stream ) *'' \<longrightarrow> tl (snd statement) \<noteq> [])
         \<and> (t = ''SELECT '' \<and> q \<noteq> [] \<and> hd q = SQL ''pg_advisory_xact_lock(%s)'' \<longrightarrow> length q \<le> 2 * 1664)
         \<and> (hd t = CHR 0x0A \<longrightarrow> snd statement \<noteq> []
              \<and> list_all (\<lambda>row. within_int (ir_position row)) (rows_of (snd statement)))
     | _ \<Rightarrow> True)"

definition sample_execute :: "'o statement \<Rightarrow> 'o event list \<Rightarrow> 'o event list \<times> 'o event list res" where
  "sample_execute statement db =
     (let es = served_rows db in
      if \<not> sample_accepts statement then (es, Inl (RuntimeError ''refused'')) else case statement of
        (SQL t # q, ps) \<Rightarrow>
          if t = ''SELECT *''
          then (es, Inr (case last_option (filter (\<lambda>e. list_all (condition_selects e)
                    (map condition_of (zip [''category'', ''stream''] (butlast ps)))) es) of None \<Rightarrow> [] | Some e \<Rightarrow> [e]))
          else if t = ''SELECT DISTINCT ON (category, stream ) *''
          then (es, Inr (List.map_filter (greatest_of (text_of (hd ps)) es) (remdups (map text_of (tl ps)))))
          else if t = ''SELECT '' \<and> q \<noteq> [] \<and> hd q = SQL ''*''
          then (es, Inr (take (nat (number_of (last ps))) (filter (\<lambda>e. list_all (condition_selects e)
                    (map condition_of (zip (tl (identifiers q)) (butlast ps)))) es)))
          else if hd t = CHR 0x0A
          then (es @ sample_insert (rows_of ps) es, Inr (sample_insert (rows_of ps) es))
          else (es, Inr [])
      | _ \<Rightarrow> (es, Inr []))"

fun condition_text :: "scan_condition \<Rightarrow> sql" where
  "condition_text (CategoryIs c) = [Identifier ''category'', SQL '' '', SQL ''='', SQL '' '', SQL ''%s'']"
| "condition_text (StreamIs s) = [Identifier ''stream'', SQL '' '', SQL ''='', SQL '' '', SQL ''%s'']"
| "condition_text (NumberAfter n) = [Identifier ''sequence_number'', SQL '' '', SQL ''>'', SQL '' '', SQL ''%s'']"

fun condition_value :: "scan_condition \<Rightarrow> 'o sql_value" where
  "condition_value (CategoryIs c) = Plain (QVal (PyStr c))"
| "condition_value (StreamIs s) = Plain (QVal (PyStr s))"
| "condition_value (NumberAfter n) = Plain (QVal (PyInt n))"

lemma condition_rendered:
  "condition_to_fragment (scan_condition_sql w) = Inr (Some (condition_text w), [condition_value w])"
  by (cases w) (simp_all add: column_equals_def with_left_def with_right_def with_operator_def clone_condition_def
      empty_condition_def no_condition_params_def condition_result_def column_fragment_def condition_fragment_def)

lemma conditions_rendered:
  "res_all (map condition_to_fragment (map scan_condition_sql ws)) = Inr (map (\<lambda>w. (Some (condition_text w), [condition_value w])) ws)"
  by (induction ws) (simp_all add: res_all_def condition_rendered)

lemma scan_text:
  "build (scan_ast ws n settings) =
     Inr ([SQL ''SELECT '', SQL ''*'', SQL '' '', SQL ''FROM '', Identifier (table_name settings), SQL '' '']
          @ (if ws = [] then [] else SQL ''WHERE '' # sql_join '' AND '' (map condition_text ws) @ [SQL '' ''])
          @ [SQL ''ORDER BY '', Identifier ''sequence_number'', SQL '' '', SQL ''LIMIT %s''],
        map condition_value ws @ [Plain (QVal (PyInt n))])"
proof -
  have sqls: "fragment_sqls (map (\<lambda>w. (Some (condition_text w), [condition_value w])) vs) = map condition_text vs" for vs
    by (induction vs) simp_all
  have params: "fragment_params (map (\<lambda>w. (Some (condition_text w), [condition_value w])) vs) = map condition_value vs" for vs
    by (induction vs) simp_all
  show ?thesis
    unfolding scan_ast_def build_def query_to_fragment.simps query_result_def conditions_rendered
    by (simp add: res_all_def res_named_def res_union_def column_fragment_def common_table_expressions_fragment_def
        union_fragment_def select_fragment_def from_fragment_def where_fragment_def order_by_fragment_def
        limit_fragment_def offset_fragment_def query_fragment_def sortby_fragment_def sqls params map_filter_simps)
qed

definition sample_adapter :: "serialisation_guarantee \<Rightarrow> int \<Rightarrow> ('o, 'o event list, 'w, 'q) postgres_adapter" where
  "sample_adapter guarantee page_size =
     \<lparr>pa_execute = sample_execute, pa_rollback = (\<lambda>db db'. db), pa_sha256 = length, pa_guarantee = guarantee,
      pa_page_size = page_size, pa_table = \<lparr>table_name = ''events''\<rparr>,
      pa_constraints = default_pg_constraint_converter, pa_conditions = default_pg_condition_converter\<rparr>"

lemma served_rows_idem [simp]: "served_rows (served_rows db) = served_rows db"
  by (simp add: served_rows_def)

lemma served_rows_sorted: "sorted_wrt (<) (map se_sequence_number (served_rows db))"
  by (simp add: served_rows_def)

lemma sample_adapter_sel [simp]:
  "pa_execute (sample_adapter guarantee page_size) = sample_execute" "pa_table (sample_adapter guarantee page_size) = \<lparr>table_name = ''events''\<rparr>"
  "pa_rollback (sample_adapter guarantee page_size) = (\<lambda>db db'. db)" "pa_page_size (sample_adapter guarantee page_size) = page_size"
  "pa_constraints (sample_adapter guarantee page_size) = default_pg_constraint_converter"
  "pa_conditions (sample_adapter guarantee page_size) = default_pg_condition_converter"
  by (simp_all add: sample_adapter_def)

lemma locks_sql_several:
  "locks_sql (Suc n) = SQL ''SELECT '' # SQL ''pg_advisory_xact_lock(%s)'' # tl (tl (locks_sql (Suc n)))"
  "length (tl (locks_sql (Suc n))) = 2 * Suc n"
proof -
  have "length (sql_join '', '' (replicate (Suc n) [s])) = 2 * n + 1" for s
    by (induction n) simp_all
  then show "length (tl (locks_sql (Suc n))) = 2 * Suc n" by (simp add: locks_sql_def)
qed (cases n; simp add: locks_sql_def)

lemma locks_taken:
  "sample_accepts (locks_sql (Suc n), vs) \<longleftrightarrow> sendable (locks_sql (Suc n), vs) \<and> n < 1664"
  using locks_sql_several(2) [of n]
  by (subst (1 2) locks_sql_several(1)) (auto simp: sample_accepts_def sendable_def)

lemma sample_locks: "serves_locks (sample_adapter guarantee page_size) served_rows sample_accepts"
proof -
  have "sample_execute (locks_sql (length ks), map db_int ks) db = (served_rows db, Inr [])"
    if ks: "ks \<noteq> []" "sample_accepts (locks_sql (length ks), map db_int ks :: 'a db_value list)"
    for ks and db :: "'a event list"
  proof -
    obtain n where n: "length ks = Suc n" using ks(1) by (cases ks) simp_all
    note layout = locks_sql_several(1) [of n]
    show ?thesis using ks(2) unfolding n by (subst (asm) layout, subst layout) (simp add: sample_execute_def Let_def)
  qed
  moreover have "n \<le> 1664" if "sample_accepts (locks_sql n, vs :: 'a db_value list)" for n vs
    using that by (cases n) (simp_all add: locks_taken)
  ultimately show ?thesis by (auto simp: serves_locks_def executes_def sample_execute_def sample_accepts_def sendable_def Let_def)
qed

lemma selects_fun:
  "selects LogIdentifier = (\<lambda>e. True)" "selects (CategoryIdentifier c) = (\<lambda>e. se_category e = c)"
  "selects (StreamIdentifier c s) = (\<lambda>e. se_category e = c \<and> se_stream e = s)"
  by (simp_all add: fun_eq_iff)

lemma sample_last: "serves_last (sample_adapter guarantee page_size) served_rows sample_accepts"
  unfolding serves_last_def
proof (intro allI impI, elim conjE)
  fix db :: "'a event list" and target
  assume "scannable target"
    and "sample_accepts (read_last_query target (pa_table (sample_adapter guarantee page_size)) :: 'a statement)"
  then show "executes (sample_adapter guarantee page_size) served_rows
      (read_last_query target (pa_table (sample_adapter guarantee page_size))) db
      (\<lambda>rs. fetch_one rs = last_option (filter (selects target) (served_rows db))) (\<lambda>r. r = served_rows db)"
    by (cases target) (simp_all add: executes_def sample_execute_def Let_def read_last_query_def where_sql_def fetch_one_def
        scannable_def is_event_sequence_identifier_def selects_fun split: option.split)
qed

lemma identifiers_append [simp]: "identifiers (a @ b) = identifiers a @ identifiers b"
  by (induction a rule: identifiers.induct) simp_all

lemma conditions_decoded:
  "map condition_of (zip (identifiers (sql_join '' AND '' (map condition_text ws)) @ rest)
     (map (\<lambda>w. DbValue (condition_value w)) ws)) = ws"
proof (induction ws rule: induct_list012)
  case (2 w)
  show ?case by (cases w) simp_all
next
  case (3 w v ws)
  then show ?case by (cases w) simp_all
qed simp

lemma sample_scan: "serves_scan (sample_adapter guarantee page_size) served_rows"
  unfolding serves_scan_def
proof (intro allI impI)
  fix db :: "'a event list" and ws n q and params :: "'a sql_value list"
  assume scan: "0 \<le> n \<and> within_bigint n \<and> storable_conditions ws
      \<and> build (scan_ast ws n (pa_table (sample_adapter guarantee page_size))) = Inr (q, params)"
  then have q: "q = [SQL ''SELECT '', SQL ''*'', SQL '' '', SQL ''FROM '', Identifier ''events'', SQL '' '']
          @ (if ws = [] then [] else SQL ''WHERE '' # sql_join '' AND '' (map condition_text ws) @ [SQL '' ''])
          @ [SQL ''ORDER BY '', Identifier ''sequence_number'', SQL '' '', SQL ''LIMIT %s'']"
    and params: "params = map condition_value ws @ [Plain (QVal (PyInt n))]" by (auto simp: scan_text)
  have "storable_value (DbValue (condition_value w) :: 'a db_value)" if "w \<in> set ws" for w
    using scan that by (cases w) (auto simp: storable_conditions_def list_all_iff sendable_text_def)
  then have storable: "list_all storable_value (map (\<lambda>w. DbValue (condition_value w) :: 'a db_value) ws)"
    by (simp add: list_all_iff)
  have "sample_accepts (q, map DbValue params)"
    using storable scan by (cases ws) (simp_all add: q params storable_conditions_def sample_accepts_def sendable_def comp_def)
  note accepted = this [unfolded q params]
  show "executes (sample_adapter guarantee page_size) served_rows (q, map DbValue params) db
      (\<lambda>rs. rs = take (nat n) (filter (\<lambda>e. list_all (condition_selects e) ws) (served_rows db))) (\<lambda>r. r = served_rows db)"
    using conditions_decoded [where 'a = 'a, of ws "[''sequence_number'']"]
    using accepted
    by (cases ws) (simp_all add: q params executes_def sample_execute_def Let_def comp_def butlast_append)
qed

lemma greatest_of_stream:
  assumes "greatest_of c es s = Some e"
  shows "e \<in> set (stream_of c s es)" "\<forall>e' \<in> set (stream_of c s es). se_position e' \<le> se_position e"
proof -
  let ?sorted = "sort_key se_position (stream_of c s es)"
  have e: "?sorted \<noteq> []" "e = last ?sorted" using assms by (auto simp: greatest_of_def last_option_def split: if_splits)
  then show "e \<in> set (stream_of c s es)" using last_in_set [of ?sorted] by simp
  obtain init where init: "?sorted = init @ [e]" using e by (metis append_butlast_last_id)
  have "sorted (map se_position (init @ [e]))" unfolding init [symmetric] by simp
  then have "\<forall>e' \<in> set (init @ [e]). se_position e' \<le> se_position e" by (auto simp: sorted_append)
  then have "\<forall>e' \<in> set ?sorted. se_position e' \<le> se_position e" unfolding init .
  then show "\<forall>e' \<in> set (stream_of c s es). se_position e' \<le> se_position e" by simp
qed

lemma greatest_of_None: "greatest_of c es s = None \<longleftrightarrow> stream_of c s es = []"
  by (metis greatest_of_def last_option_None set_empty set_sort)

lemma in_map_filter: "e \<in> set (List.map_filter f xs) \<longleftrightarrow> (\<exists>x \<in> set xs. f x = Some e)"
  by (auto simp: map_filter_def image_iff)

lemma greatest_rows: "last_of_streams c streams es (List.map_filter (greatest_of c es) (remdups streams))"
proof -
  have "distinct (map se_stream (List.map_filter (greatest_of c es) ss))" if "distinct ss" for ss
    using that
  proof (induction ss)
    case (Cons s ss)
    have "se_stream e = s'" if "greatest_of c es s' = Some e" for s' e using greatest_of_stream(1) [OF that] by simp
    then show ?case using Cons by (auto simp: map_filter_simps in_map_filter split: option.split)
  qed (simp add: map_filter_simps)
  moreover have "e \<in> set es \<and> se_category e = c \<and> se_stream e = s" if "greatest_of c es s = Some e" for s e
    using greatest_of_stream(1) [OF that] by simp
  moreover have "\<exists>e'. greatest_of c es (se_stream e) = Some e' \<and> se_stream e' = se_stream e \<and> se_position e \<le> se_position e'"
    if "e \<in> set es" "se_category e = c" for e
  proof -
    have e: "e \<in> set (stream_of c (se_stream e) es)" using that by simp
    then have "stream_of c (se_stream e) es \<noteq> []" by (metis empty_iff list.set(1))
    then obtain e' where e': "greatest_of c es (se_stream e) = Some e'" using greatest_of_None by blast
    show ?thesis using e' greatest_of_stream [OF e'] e by auto
  qed
  ultimately show ?thesis unfolding last_of_streams_def by (fastforce simp: in_map_filter)
qed

lemma sample_batch: "serves_batch (sample_adapter guarantee page_size) served_rows sample_accepts"
proof -
  have texts: "map text_of (map db_str ss) = ss" for ss by (induction ss) simp_all
  show ?thesis
    unfolding serves_batch_def
    by (auto simp: executes_def sample_execute_def Let_def read_last_category_batch_query_def where_sql_def
        greatest_rows texts [unfolded map_map]) (simp add: sample_accepts_def)
qed

lemma rows_decoded: "rows_of (concat (map row_values new)) = new"
  by (induction new) (simp_all add: row_values_def)

lemma fold_max:
  fixes n :: int
  shows "n \<le> fold (\<lambda>e n. max (se_sequence_number e + 1) n) es n
     \<and> (\<forall>e \<in> set es. se_sequence_number e < fold (\<lambda>e n. max (se_sequence_number e + 1) n) es n)"
proof (induction es arbitrary: n)
  case (Cons e es)
  from Cons.IH [of "max (se_sequence_number e + 1) n"] show ?case by auto
qed simp

lemma insert_taken:
  "sample_accepts (insert_statement new settings) \<longleftrightarrow>
     new \<noteq> [] \<and> sendable (insert_statement new settings) \<and> list_all (\<lambda>row. within_int (ir_position row)) new"
proof -
  have "concat (map row_values new) = [] \<longleftrightarrow> new = []" by (cases new) (simp_all add: row_values_def)
  then show ?thesis
    by (auto simp: sample_accepts_def insert_statement_def insert_sql_def text_line_def rows_decoded)
qed

lemma sample_insert_served: "serves_insert (sample_adapter guarantee page_size) served_rows (\<lambda>v. v) sample_accepts"
  unfolding serves_insert_def
proof (intro conjI allI impI)
  fix db :: "'a event list" and new :: "'a insert_row list"
  assume "sample_accepts (insert_statement new (pa_table (sample_adapter guarantee page_size)))
    \<and> distinct (map ir_id new) \<and> set (map ir_id new) \<inter> set (map se_id (served_rows db)) = {}"
  then have accepted: "sample_accepts (insert_statement new \<lparr>table_name = ''events''\<rparr>)" by simp
  then have new: "new \<noteq> []" using insert_taken by blast
  let ?n = "number_after_all (served_rows db)"
  let ?ns = "[?n .. ?n + int (length new) - 1]"
  let ?added = "map2 (inserted_event (\<lambda>v. v)) ?ns new"
  have sorted: "sorted_wrt (<) (map se_sequence_number (served_rows db) @ ?ns)"
    using served_rows_sorted [of db] fold_max [of 0 "served_rows db"]
    by (auto simp: sorted_wrt_append number_after_all_def intro: less_le_trans)
  have numbers: "map se_sequence_number ?added = ?ns" by (simp add: inserted_event_def comp_def case_prod_unfold)
  have "executes (sample_adapter guarantee page_size) served_rows (insert_statement new (pa_table (sample_adapter guarantee page_size))) db
      (\<lambda>rs. rs = ?added) (\<lambda>r. r = served_rows db @ ?added)"
  proof -
    have added: "sample_insert (rows_of (concat (map row_values new))) (served_rows db) = ?added"
      by (simp add: sample_insert_def rows_decoded)
    have "sorted_wrt (<) (map se_sequence_number (served_rows db @ ?added))" using sorted numbers by simp
    then have "served_rows (served_rows db @ ?added) = served_rows db @ ?added" by (simp only: served_rows_def if_True)
    moreover have "concat (map row_values new) \<noteq> []" using new by (cases new) (simp_all add: row_values_def)
    ultimately show ?thesis using accepted
      by (simp add: executes_def sample_execute_def Let_def insert_statement_def insert_sql_def text_line_def added)
  qed
  then show "\<exists>ns. length ns = length new \<and> sorted_wrt (<) (map se_sequence_number (served_rows db) @ ns)
      \<and> executes (sample_adapter guarantee page_size) served_rows (insert_statement new (pa_table (sample_adapter guarantee page_size))) db
          (\<lambda>rs. rs = map2 (inserted_event (\<lambda>v. v)) ns new) (\<lambda>r. r = served_rows db @ map2 (inserted_event (\<lambda>v. v)) ns new)"
    using sorted by (intro exI [of _ ?ns]) simp
next
  fix new :: "'a insert_row list"
  assume "sample_accepts (insert_statement new (pa_table (sample_adapter guarantee page_size)))"
  then show "new \<noteq> []" "list_all (\<lambda>row. within_int (ir_position row)) new" by (simp_all add: insert_taken)
qed

lemma sample_refuses: "refuses_others (sample_adapter guarantee page_size) sample_accepts"
  by (auto simp: refuses_others_def sample_accepts_def) (simp_all add: sample_execute_def sample_accepts_def Let_def)

lemma sample_serves: "serves_events (sample_adapter guarantee page_size) served_rows (\<lambda>v. v) sample_accepts"
  unfolding serves_events_def
  by (intro conjI allI) (simp_all only: sample_adapter_sel sample_refuses sample_locks sample_last sample_batch sample_insert_served
      sample_scan served_rows_sorted)

definition numbered_env :: "unit save_env" where
  "numbered_env = \<lparr>env_json = (\<lambda>_. None), env_str = (\<lambda>_. None), env_uuid = (\<lambda>n. replicate (nat n) CHR ''i'')\<rparr>"

lemma numbered_ids: "fresh_ids numbered_env 0 []"
proof -
  have "inj_on (\<lambda>n. replicate (nat n) CHR ''i'') {0::int..}"
  proof (rule inj_onI)
    fix x y :: int assume *: "x \<in> {0..}" "y \<in> {0..}" "replicate (nat x) CHR ''i'' = replicate (nat y) CHR ''i''"
    from arg_cong [OF *(3), of length] have "nat x = nat y" unfolding length_replicate .
    then show "x = y" using *(1,2) by simp
  qed
  then show ?thesis by (simp add: fresh_ids_def numbered_env_def)
qed

lemma numbered_serialisable: "serialisable numbered_env (sample_new_event name)"
  by (simp add: serialisable_def numbered_env_def sample_new_event_def)

theorem postgres_save_to_stream_witness:
  "case pg_save_to_stream numbered_env 0 (sample_adapter STREAM 2 :: (unit, unit event list, unit, unit) postgres_adapter)
      ''c'' ''s'' [sample_new_event ''a'', sample_new_event ''b''] EmptyStreamCondition [] of
     (_, Inl _) \<Rightarrow> False
   | (db, Inr stored) \<Rightarrow> map se_position (served_rows db) = [0, 1] \<and> map se_name stored = [PyStr ''a'', PyStr ''b'']"
proof -
  let ?events = "[sample_new_event ''a'', sample_new_event ''b'']"
  obtain db r where save: "pg_save_to_stream numbered_env 0 (sample_adapter STREAM 2 :: (unit, unit event list, unit, unit) postgres_adapter)
      ''c'' ''s'' ?events EmptyStreamCondition [] = (db, r)" by fastforce
  have empty: "served_rows [] = []" by (simp add: served_rows_def)
  have names: "sample_accepts (read_last_query (StreamIdentifier ''c'' ''s'') \<lparr>table_name = ''events''\<rparr> :: unit statement)"
    by (simp add: sample_accepts_def sendable_def read_last_query_def where_sql_def storable_text_def)
  have rows: "insert_accepted sample_accepts numbered_env 0 \<lparr>table_name = ''events''\<rparr>
      [((''c'', ''s''), \<lparr>si_events = ?events, si_position = 0\<rparr>)]"
    by (simp add: insert_accepted_def insert_batch_query_def insert_row_def numbered_env_def sample_new_event_def
        insert_taken) (simp add: sendable_def insert_statement_def row_values_def storable_text_def within_int_def)
  obtain added where added: "served_rows db = added" "saved_from numbered_env (\<lambda>v. v) (''c'', ''s'') 0 ?events added"
    "r = Inr (map2 restored ?events added)"
    using postgres_save_to_stream [OF sample_serves _ _ _ _ save] numbered_serialisable names rows
    by (auto simp: empty numbered_ids Let_def)
  then obtain x y where xy: "added = [x, y]" by auto
  show ?thesis
    unfolding save prod.case added(1,3) sum.case
    using saved_from_fields [OF added(2)] by (simp add: xy upto_rec1 restored_def sample_new_event_def)
qed

theorem postgres_save_to_category_witness:
  "case pg_save_to_category numbered_env 0 (sample_adapter LOG 2 :: (unit, unit event list, unit, unit) postgres_adapter) ''c''
      [(''s'', stream_publish_definition [sample_new_event ''a''] (Some stream_is_empty)),
       (''t'', stream_publish_definition [sample_new_event ''b''] (Some (position_is (Some 3))))] [] of
     (db, Inl _) \<Rightarrow> served_rows db = []
   | (db, Inr _) \<Rightarrow> False"
proof -
  let ?streams = "[(''s'', stream_publish_definition [sample_new_event ''a''] (Some stream_is_empty)),
       (''t'', stream_publish_definition [sample_new_event ''b''] (Some (position_is (Some 3))))]
     :: (string, (unit, unit) publish_definition) dict"
  obtain db r where save: "pg_save_to_category numbered_env 0 (sample_adapter LOG 2 :: (unit, unit event list, unit, unit) postgres_adapter)
      ''c'' ?streams [] = (db, r)" by fastforce
  have empty: "served_rows [] = []" by (simp add: served_rows_def)
  have built_in: "wf_dict ?streams" "requests_built_in ?streams"
    by (simp_all add: wf_dict_def dict_keys_def requests_built_in_def pd_enforced_def stream_publish_definition_def
        position_is_def stream_is_empty_def)
  have refused: "\<not> request_accepted numbered_env [] ''c'' ''t'' (snd (?streams ! 1))"
    by (simp add: request_accepted_def pd_enforced_def stream_publish_definition_def position_is_def)
  have "\<not> is_ok r \<and> (case r of Inl e \<Rightarrow> served_rows db = [] | Inr results \<Rightarrow> True)"
    using postgres_save_to_category [OF sample_serves _ _ _ built_in save] refused
    by (auto simp: empty numbered_ids split: sum.splits)
  then show ?thesis by (auto simp: save is_ok_def split: sum.splits)
qed

text \<open>A log of one event that becomes one of four while it is scanned, two to a page\<close>

definition logged :: "nat \<Rightarrow> unit event list" where
  "logged k = map (\<lambda>n. \<lparr>se_id = [], se_name = [], se_stream = ''s'', se_category = ''c'', se_position = int n,
      se_sequence_number = int n, se_payload = PyNone, se_observed_at = 0, se_occurred_at = 0\<rparr>) [0..<k]"

definition growing_log :: "nat \<Rightarrow> unit event list" where
  "growing_log i = logged (if i = 0 then 2 else 4)"

lemma growing_served: "served_rows (growing_log i) = growing_log i"
proof -
  have "sorted_wrt (<) (map se_sequence_number (logged k))" for k
    by (induction k) (auto simp: logged_def sorted_wrt_append)
  then show ?thesis by (simp add: served_rows_def growing_log_def)
qed

theorem postgres_scan_complete_witness:
  "\<exists>n. pg_scan (sample_adapter LOG 2 :: (unit, unit event list, unit, unit) postgres_adapter) growing_log
      (CategoryIdentifier ''c'') [sequence_number_after 0]
    = Some (filter (\<lambda>e. selects (CategoryIdentifier ''c'') e
        \<and> list_all (meets e) ([sequence_number_after 0] :: unit query_constraint list)) (growing_log n), None)"
proof -
  have grows: "\<exists>new. served_rows (growing_log (Suc i)) = served_rows (growing_log i) @ new" for i
  proof -
    have "logged 4 = logged 2 @ drop 2 (logged 4)" by code_simp
    then show ?thesis unfolding growing_served by (cases i) (auto simp: growing_log_def)
  qed
  have numbers: "numbers_within (served_rows (growing_log i))" for i
    unfolding growing_served by (simp add: growing_log_def logged_def numbers_within_def within_bigint_def list_all_iff)
  have bound: "length (served_rows (growing_log i)) \<le> 4" for i
    unfolding growing_served by (simp add: growing_log_def logged_def)
  have "\<exists>n. pg_scan (sample_adapter LOG 2 :: (unit, unit event list, unit, unit) postgres_adapter) growing_log
      (CategoryIdentifier ''c'') [sequence_number_after 0]
    = Some (filter (\<lambda>e. selects (CategoryIdentifier ''c'') e
        \<and> list_all (meets e) ([sequence_number_after 0] :: unit query_constraint list)) (served_rows (growing_log n)), None)"
    by (rule postgres_scan_complete [where rows = served_rows and dbs = growing_log, OF sample_serves _ _ _ _ _ grows bound])
      (simp_all add: sequence_number_after_def scannable_def is_event_sequence_identifier_def names_nonempty_def
        numbers within_bigint_def storable_scan_def sendable_text_def storable_text_def)
  then show ?thesis unfolding growing_served .
qed

end
