(* ===== verification/Postgres_Connections.thy ===== *)
theory Postgres_Connections
  imports Postgres_Events
begin

section \<open>Connections of the other stores in Postgres\<close>

text \<open>
  What the stores of projections, subscribers and subscriptions share when they keep their state in
  Postgres: \<open>ConnectionSource\<close> of \<open>persistence/postgres/types.py\<close>, and reading a JSON column back.

  The server is the parameter \<open>cs_execute\<close> of a connection source, from a statement and a state to
  a state and the rows or the error; \<open>cs_rollback\<close> is the state after a transaction is given up,
  and \<open>cs_unique_violation\<close> tells the errors that are a \<open>UniqueViolation\<close>. A row is what the
  client reads of it, a record of each table.
\<close>

subsection \<open>Connections\<close>

record ('o, 'db, 'row) connection_source =
  cs_execute :: "'o statement \<Rightarrow> ('db, 'row list) db_action"
  cs_rollback :: "'db \<Rightarrow> 'db \<Rightarrow> 'db"
  cs_unique_violation :: "py_error \<Rightarrow> bool"

text \<open>\<open>async with pool.connection()\<close>: committed when left normally, rolled back on an exception\<close>

definition in_connection ::
  "('o, 'db, 'row) connection_source \<Rightarrow> ('db, 'a) db_action \<Rightarrow> ('db, 'a) db_action" where
  "in_connection conn body db =
     (case body db of
        (db', Inl e) \<Rightarrow> (cs_rollback conn db db', Inl e)
      | (db', Inr x) \<Rightarrow> (db', Inr x))"

definition as_statement :: "sql \<times> 'o sql_value list \<Rightarrow> 'o statement" where
  "as_statement q = (fst q, map DbValue (snd q))"

text \<open>The converter of the stores of the broker: no function converters\<close>

definition store_converter ::
  "'o ser_methods \<Rightarrow> ('o sql_value \<Rightarrow> bool) \<Rightarrow> table_settings \<Rightarrow> ('o, 'u) pg_converter" where
  "store_converter ser hashable settings =
     pg_with_default_query_converters
       (pg_with_default_clause_converters ser hashable (new_pg_converter settings))"

definition newline :: string where
  "newline = [CHR 0x0A]"

definition indented :: "nat \<Rightarrow> string \<Rightarrow> string" where
  "indented indent line = replicate indent CHR 0x20 @ line"

subsection \<open>JSON columns\<close>

definition identifiers_json :: "event_source_identifier list \<Rightarrow> 'o pyval" where
  "identifiers_json ids = PyList (map serialise_identifier ids)"

text \<open>\<open>for x in v\<close>: what a value of a JSON column iterates over\<close>

fun py_iterate :: "'o pyval \<Rightarrow> 'o pyval list res" where
  "py_iterate (PyList vs) = Inr vs"
| "py_iterate (PyDict kvs) = Inr (map fst kvs)"
| "py_iterate (PyStr s) = Inr (map (\<lambda>c. PyStr [c]) s)"
| "py_iterate _ = Inl (TypeError ''object is not iterable'')"

definition read_identifiers ::
  "('o pyval \<Rightarrow> string) \<Rightarrow> 'o pyval \<Rightarrow> event_source_identifier list res" where
  \<comment> \<open>\<open>[event_sequence_identifier(source) for source in column]\<close>\<close>
  "read_identifiers py_str v =
     res_bind (py_iterate v) (\<lambda>items. res_map (event_sequence_identifier py_str) items)"

text \<open>
  Storing JSON as \<open>jsonb\<close> keeps its value: the order of the keys of an object may change, and an
  object has each key once.
\<close>

fun distinct_keys :: "'o pyval \<Rightarrow> bool" where
  "distinct_keys (PyList vs) = list_all distinct_keys vs"
| "distinct_keys (PyDict kvs) = (distinct (map fst kvs) \<and> list_all (\<lambda>kv. distinct_keys (snd kv)) kvs)"
| "distinct_keys _ = True"

definition keeps_json :: "('o pyval \<Rightarrow> 'o pyval) \<Rightarrow> bool" where
  "keeps_json jsonb \<longleftrightarrow>
     (\<forall>v. is_json_value v \<and> distinct_keys v \<longrightarrow> py_eq (jsonb v) v \<and> distinct_keys (jsonb v))"

lemma serialise_identifier_keys [simp]: "distinct_keys (serialise_identifier i)"
proof -
  have "distinct_keys (serialise_partition p)" for p by (cases p) simp
  then show ?thesis by (cases i) simp_all
qed

lemma identifiers_json_value [simp]:
  "is_json_value (identifiers_json ids)" "distinct_keys (identifiers_json ids)"
  by (simp_all add: identifiers_json_def list_all_iff)

lemma map_of_py_eq:
  assumes "distinct (map fst xs)" "distinct (map fst ys)" "py_eq (PyDict xs) (PyDict ys)"
  shows "rel_option py_eq (map_of xs k) (map_of ys k)"
proof -
  have len: "length xs = length ys"
    and sub: "\<And>k v. (k, v) \<in> set xs \<Longrightarrow> \<exists>v'. (k, v') \<in> set ys \<and> py_eq v v'"
    using assms(3) by (fastforce simp: list_all_iff list_ex_iff)+
  have "fst ` set xs \<subseteq> fst ` set ys" using sub by force
  moreover have "card (fst ` set xs) = card (fst ` set ys)"
    using assms(1,2) len by (metis distinct_card length_map list.set_map)
  ultimately have keys: "fst ` set xs = fst ` set ys" by (simp add: card_subset_eq)
  show ?thesis
  proof (cases "map_of xs k")
    case None
    then have "map_of ys k = None" using keys by (simp add: map_of_eq_None_iff)
    then show ?thesis using None by simp
  next
    case (Some v)
    then obtain v' where "(k, v') \<in> set ys" "py_eq v v'" using sub map_of_SomeD by metis
    then show ?thesis using Some assms(2) by (simp add: map_of_is_SomeI)
  qed
qed

lemma py_eq_dict: "py_eq w (PyDict ys) \<Longrightarrow> \<exists>xs. w = PyDict xs"
  by (cases w) auto

lemma py_eq_list: "py_eq w (PyList ys) \<Longrightarrow> \<exists>xs. w = PyList xs \<and> list_all2 py_eq xs ys"
  by (cases w) (auto simp: list_all2_iff list_all_iff)

lemma rel_py_eq_str: "rel_option py_eq a (Some (PyStr s)) \<longleftrightarrow> a = Some (PyStr s)"
  by (cases a) auto

lemma rel_py_eq_none: "rel_option r a None \<longleftrightarrow> a = None"
  by (cases a) auto

lemma read_stored_identifier:
  fixes w :: "'o pyval"
  assumes "py_eq w (serialise_identifier i)" "distinct_keys w"
  shows "event_sequence_identifier py_str w =
    (if is_event_sequence_identifier i then Inr i
     else Inl (ValueError ''Invalid serialised event sequence identifier.''))"
proof -
  obtain ys where ys: "serialise_identifier i = (PyDict ys :: 'o pyval)"
    by (cases i) auto
  obtain xs where w: "w = PyDict xs" using py_eq_dict assms(1) ys by metis
  have "distinct_keys (PyDict ys :: 'o pyval)" using serialise_identifier_keys [of i, where 'a = 'o] by (simp only: ys)
  then have distinct: "distinct (map fst xs)" "distinct (map fst ys)" using assms(2) w by auto
  have rel: "rel_option py_eq (map_of xs k) (map_of ys k)" for k
    using map_of_py_eq [OF distinct] assms(1) unfolding w ys by blast
  show ?thesis
    using rel [of "PyStr ''type''"] rel [of "PyStr ''category''"] rel [of "PyStr ''stream''"] ys [symmetric]
    by (cases i) (auto simp: w event_sequence_identifier_def is_event_sequence_identifier_def
        rel_py_eq_str rel_py_eq_none)
qed

lemma read_kept_identifier:
  fixes jsonb :: "'o pyval \<Rightarrow> 'o pyval"
  assumes "keeps_json jsonb"
  shows "event_sequence_identifier py_str (jsonb (serialise_identifier i)) =
    (if is_event_sequence_identifier i then Inr i
     else Inl (ValueError ''Invalid serialised event sequence identifier.''))"
proof -
  have "py_eq (jsonb (serialise_identifier i)) (serialise_identifier i)"
    "distinct_keys (jsonb (serialise_identifier i))"
    using assms unfolding keeps_json_def by simp_all
  then show ?thesis by (rule read_stored_identifier)
qed

lemma read_stored_identifiers:
  assumes "keeps_json jsonb"
  shows "read_identifiers py_str (jsonb (identifiers_json ids)) =
    (if list_all is_event_sequence_identifier ids then Inr ids
     else Inl (ValueError ''Invalid serialised event sequence identifier.''))"
proof -
  have stored: "py_eq (jsonb (identifiers_json ids)) (identifiers_json ids)"
    "distinct_keys (jsonb (identifiers_json ids))"
    using assms identifiers_json_value unfolding keeps_json_def by blast+
  then obtain ws where ws: "jsonb (identifiers_json ids) = PyList ws"
    "list_all2 py_eq ws (map serialise_identifier ids)"
    using py_eq_list unfolding identifiers_json_def by metis
  have "list_all distinct_keys ws" using stored(2) ws(1) by simp
  with ws(2) have "res_map (event_sequence_identifier py_str) ws =
      (if list_all is_event_sequence_identifier ids then Inr ids
       else Inl (ValueError ''Invalid serialised event sequence identifier.''))"
  proof (induction ids arbitrary: ws)
    case (Cons i ids)
    then show ?case by (cases ws) (auto simp: read_stored_identifier)
  qed simp
  then show ?thesis by (simp add: read_identifiers_def ws(1))
qed

lemma res_map_uniform:
  "(\<And>x. x \<in> set xs \<Longrightarrow> f x = (if P x then Inr (g x) else Inl e))
    \<Longrightarrow> res_map f xs = (if list_all P xs then Inr (map g xs) else Inl e)"
  by (induction xs) auto

subsection \<open>Searching a table of the broker\<close>

lemma store_converter_search:
  "pg_convert_query (store_converter ser hashable settings) (Search filters None None)
     = res_bind (res_fold (apply_clause (store_converter ser hashable settings)) filters (base_query settings)) build"
  by (simp add: pg_convert_query_def store_converter_def pg_with_default_query_converters_def
      pg_with_default_clause_converters_def pg_register_query_converter_def
      pg_register_clause_converter_def new_pg_converter_def registry_lookup_def
      pg_search_query_converter_def base_query_def apply_clause_def)

lemma store_converter_filter:
  "apply_clause (store_converter ser hashable settings) (FilterClause op p v)
     = filter_applier ser default_operators op p v"
  by (rule ext) (simp add: apply_clause_def apply_converted_def pg_convert_clause_def store_converter_def
      pg_with_default_query_converters_def pg_with_default_clause_converters_def
      pg_register_query_converter_def pg_register_clause_converter_def new_pg_converter_def
      registry_lookup_def pg_filter_clause_converter_def)

lemma filter_text:
  "a \<noteq> ''source'' \<Longrightarrow> filter_applier ser default_operators EQUAL (Path a []) (QVal (PyStr v)) query
     = Inr (where_query [column_equals a v] query)"
  by (simp add: filter_applier_def filter_operator_def default_operators_def filter_value_def
      value_for_path_def has_value_def expression_for_path_def is_nested_def column_equals_def)

lemma base_query_built: "\<exists>q. build (base_query settings) = Inr q"
  using build_renderable [of "base_query settings"] by (auto simp: base_query_def)

lemma base_query_ast:
  "base_query settings = Query [] None [StarTarget None None] [table_name settings] [] [] [] None None"
  by (simp add: base_query_def empty_query_def)

text \<open>The parameters of a built query are those of its conditions.\<close>

lemma base_query_params:
  fixes q :: "sql \<times> 'o sql_value list"
  assumes "build (base_query settings) = Inr q"
  shows "snd q = []"
proof -
  let ?b = "base_query settings :: 'o pg_query"
  have "query_ok ?b" by (simp add: base_query_ast column_ok_def)
  from build_renderable [OF this] obtain s
    where "build ?b = Inr (s, bound_values (inline_query ?b))" by blast
  then have "q = (s, bound_values (inline_query ?b))" using assms by simp
  then show ?thesis by (simp add: base_query_ast query_tokens_def column_tokens_def keyword_list_def)
qed

subsection \<open>persistence/postgres/settings.py\<close>

record connection_settings =
  cn_host :: string
  cn_port :: int
  cn_dbname :: string
  cn_user :: string
  cn_password :: string

text \<open>\<open>str\<close> of an integer is the parameter \<open>str_int\<close>.\<close>

definition connection_settings_repr :: "(int \<Rightarrow> string) \<Rightarrow> connection_settings \<Rightarrow> string" where
  "connection_settings_repr str_int s =
     ''ConnectionSettings('' @ ''host='' @ cn_host s @ '', '' @ ''port='' @ str_int (cn_port s) @ '', ''
       @ ''dbname='' @ cn_dbname s @ '', '' @ ''user='' @ cn_user s @ '', ''
       @ ''password='' @ replicate (length (cn_password s)) CHR 0x2A @ '')''"

definition to_connection_string :: "(int \<Rightarrow> string) \<Rightarrow> connection_settings \<Rightarrow> string" where
  "to_connection_string str_int s =
     (let userspec = cn_user s @ '':'' @ cn_password s;
          hostspec = cn_host s @ '':'' @ str_int (cn_port s)
      in ''postgresql://'' @ userspec @ ''@'' @ hostspec @ ''/'' @ cn_dbname s)"

text \<open>The representation shows the length of the password only.\<close>

lemma repr_hides_password:
  "length password = length (cn_password s)
    \<Longrightarrow> connection_settings_repr str_int (s\<lparr>cn_password := password\<rparr>) = connection_settings_repr str_int s"
  by (simp add: connection_settings_repr_def)

text \<open>
  The parts are not escaped, so the connection string tells two settings apart only if their parts
  are free of the characters that end them.
\<close>

lemma split_at: "c \<notin> set a \<Longrightarrow> c \<notin> set b \<Longrightarrow> a @ c # x = b @ c # y \<longleftrightarrow> a = b \<and> x = y"
proof (induction a arbitrary: b)
  case Nil
  then show ?case by (cases b) auto
next
  case (Cons d a)
  then show ?case by (cases b) auto
qed

definition plain_settings :: "(int \<Rightarrow> string) \<Rightarrow> connection_settings \<Rightarrow> bool" where
  "plain_settings str_int s \<longleftrightarrow> CHR 0x3A \<notin> set (cn_user s) \<and> CHR 0x40 \<notin> set (cn_password s)
     \<and> CHR 0x3A \<notin> set (cn_host s) \<and> CHR 0x2F \<notin> set (str_int (cn_port s))"

lemma connection_string_determines:
  assumes "inj str_int" "plain_settings str_int s" "plain_settings str_int t"
    and "to_connection_string str_int s = to_connection_string str_int t"
  shows "s = t"
  using assms by (auto simp: to_connection_string_def plain_settings_def split_at dest: injD)

lemma connection_string_ambiguous:
  "\<exists>s t. s \<noteq> t \<and> to_connection_string str_int s = to_connection_string str_int t"
  by (intro exI [of _ "\<lparr>cn_host = ''h'', cn_port = 1, cn_dbname = ''d'', cn_user = ''a:b'', cn_password = ''c''\<rparr>"]
      exI [of _ "\<lparr>cn_host = ''h'', cn_port = 1, cn_dbname = ''d'', cn_user = ''a'', cn_password = ''b:c''\<rparr>"])
    (simp add: to_connection_string_def)

end
