(* ===== verification/Postgres_Subscriptions.thy ===== *)
theory Postgres_Subscriptions
  imports Postgres_Connections Broker_State
begin

section \<open>Subscription states in Postgres\<close>

text \<open>
  Models \<open>strategies/distributed/subscriptions/stores/state/postgres.py\<close>: the statements, the
  store and what it does with their results. The meaning of the statements on the table of
  \<open>sql/create_subscriptions_table.sql\<close> is \<open>serves_subscriptions\<close>.
\<close>

subsection \<open>Statements\<close>

record 'o subscription_row =
  xr_id :: string
  xr_group :: string
  xr_node_id :: string
  xr_event_sources :: "'o pyval"

definition row_key :: "'o subscription_row \<Rightarrow> event_subscription_key" where
  "row_key row = EventSubscriptionKey (xr_group row) (xr_id row)"

definition sources_jsonb :: "subscription_state \<Rightarrow> 'o db_value" where
  "sources_jsonb x = DbValue (Jsonb (identifiers_json (xs_sources x)))"

definition subscription_insert_query :: "subscription_state \<Rightarrow> table_settings \<Rightarrow> 'o statement" where
  "subscription_insert_query x settings =
     ([SQL (newline @ indented 12 ''INSERT INTO ''), identifier_sql settings,
       SQL ('' ('' @ newline @ text_line 14 ''id,'' @ text_line 14 ''\"group\",''
         @ text_line 14 ''node_id,  '' @ text_line 14 ''event_sources'' @ text_line 12 '')''
         @ text_line 12 ''VALUES (%s, %s, %s, %s);'' @ indented 12 '''')],
      [db_str (xs_id x), db_str (xs_group x), db_str (xs_node_id x), sources_jsonb x])"

definition subscription_upsert_query :: "subscription_state \<Rightarrow> table_settings \<Rightarrow> 'o statement" where
  "subscription_upsert_query x settings =
     ([SQL (newline @ indented 12 ''UPDATE ''), identifier_sql settings,
       SQL (newline @ text_line 12 ''SET event_sources = %s''
         @ text_line 12 ''WHERE \"group\" = %s AND id = %s'' @ text_line 12 ''RETURNING *;''
         @ indented 12 '''')],
      [sources_jsonb x, db_str (xs_group x), db_str (xs_id x)])"

definition subscription_remove_query :: "subscription_state \<Rightarrow> table_settings \<Rightarrow> 'o statement" where
  "subscription_remove_query x settings =
     ([SQL (newline @ indented 12 ''DELETE FROM ''), identifier_sql settings,
       SQL (newline @ text_line 12 ''WHERE \"group\" = %s AND id = %s''
         @ text_line 12 ''RETURNING *;'' @ indented 12 '''')],
      [db_str (xs_group x), db_str (xs_id x)])"

type_synonym ('o, 'db) subscription_connection = "('o, 'db, 'o subscription_row) connection_source"

text \<open>\<open>add\<close>, \<open>remove\<close> and \<open>replace\<close>, the functions on a connection\<close>

definition add_subscription ::
  "('o, 'db) subscription_connection \<Rightarrow> subscription_state \<Rightarrow> table_settings \<Rightarrow> ('db, unit) db_action" where
  "add_subscription conn x settings db =
     (case cs_execute conn (subscription_insert_query x settings) db of
        (db', Inr _) \<Rightarrow> (db', Inr ())
      | (db', Inl e) \<Rightarrow>
          (db', Inl (if cs_unique_violation conn e then ValueError ''Can't add existing subscription.''
                     else e)))"

definition remove_subscription ::
  "('o, 'db) subscription_connection \<Rightarrow> subscription_state \<Rightarrow> table_settings \<Rightarrow> ('db, unit) db_action" where
  "remove_subscription conn x settings =
     db_bind (cs_execute conn (subscription_remove_query x settings)) (\<lambda>removed_subscriptions.
       db_return (if length removed_subscriptions = 0
         then Inl (ValueError ''Can't remove missing subscription.'') else Inr ()))"

definition replace_subscription ::
  "('o, 'db) subscription_connection \<Rightarrow> subscription_state \<Rightarrow> table_settings \<Rightarrow> ('db, unit) db_action" where
  "replace_subscription conn x settings =
     db_bind (cs_execute conn (subscription_upsert_query x settings)) (\<lambda>updated_subscriptions.
       db_return (if length updated_subscriptions = 0
         then Inl (ValueError ''Can't replace missing subscription.'') else Inr ()))"

subsection \<open>The store\<close>

record ('o, 'db, 'u) pg_subscription_store =
  pxs_node_id :: string
  pxs_connection :: "('o, 'db) subscription_connection"
  pxs_table :: table_settings
  pxs_converter :: "('o, 'u) pg_converter"

definition new_pg_subscription_store ::
  "'o ser_methods \<Rightarrow> ('o sql_value \<Rightarrow> bool) \<Rightarrow> string \<Rightarrow> ('o, 'db) subscription_connection
    \<Rightarrow> table_settings option \<Rightarrow> ('o, 'u) pg_converter option \<Rightarrow> ('o, 'db, 'u) pg_subscription_store" where
  "new_pg_subscription_store ser hashable node_id conn settings converter =
     (let tbl = (case settings of None \<Rightarrow> \<lparr>table_name = ''subscriptions''\<rparr> | Some t \<Rightarrow> t)
      in \<lparr>pxs_node_id = node_id, pxs_connection = conn, pxs_table = tbl,
          pxs_converter = (case converter of None \<Rightarrow> store_converter ser hashable tbl | Some c \<Rightarrow> c)\<rparr>)"

definition read_subscription ::
  "('o pyval \<Rightarrow> string) \<Rightarrow> 'o subscription_row \<Rightarrow> subscription_state res" where
  "read_subscription py_str row =
     res_bind (read_identifiers py_str (xr_event_sources row)) (\<lambda>sources.
       Inr \<lparr>xs_group = xr_group row, xs_id = xr_id row, xs_node_id = xr_node_id row, xs_sources = sources\<rparr>)"

definition pg_subscription_list ::
  "('o pyval \<Rightarrow> string) \<Rightarrow> ('o, 'db, 'u) pg_subscription_store \<Rightarrow> ('db, subscription_state list) db_action" where
  "pg_subscription_list py_str st =
     db_bind (db_return (pg_convert_query (pxs_converter st) (Search [] None None))) (\<lambda>query.
     in_connection (pxs_connection st)
       (db_bind (cs_execute (pxs_connection st) (as_statement query)) (\<lambda>rows.
        db_return (res_map (read_subscription py_str) rows))))"

definition pg_subscription_get ::
  "event_subscription_key \<Rightarrow> ('o, 'db, 'u) pg_subscription_store \<Rightarrow> ('db, subscription_state option) db_action" where
  "pg_subscription_get key st = db_return (Inl NotImplementedError)"

text \<open>The state that is written: the subscription's, on the node of the store\<close>

definition own_subscription ::
  "('o, 'db, 'u) pg_subscription_store \<Rightarrow> subscription_state \<Rightarrow> subscription_state" where
  "own_subscription st x =
     \<lparr>xs_group = xs_group x, xs_id = xs_id x, xs_node_id = pxs_node_id st, xs_sources = xs_sources x\<rparr>"

definition pg_subscription_add ::
  "('o, 'db, 'u) pg_subscription_store \<Rightarrow> subscription_state \<Rightarrow> ('db, unit) db_action" where
  "pg_subscription_add st x =
     in_connection (pxs_connection st)
       (add_subscription (pxs_connection st) (own_subscription st x) (pxs_table st))"

definition pg_subscription_remove ::
  "('o, 'db, 'u) pg_subscription_store \<Rightarrow> subscription_state \<Rightarrow> ('db, unit) db_action" where
  "pg_subscription_remove st x =
     in_connection (pxs_connection st)
       (remove_subscription (pxs_connection st) (own_subscription st x) (pxs_table st))"

definition pg_subscription_replace ::
  "('o, 'db, 'u) pg_subscription_store \<Rightarrow> subscription_state \<Rightarrow> ('db, unit) db_action" where
  "pg_subscription_replace st x =
     in_connection (pxs_connection st)
       (replace_subscription (pxs_connection st) (own_subscription st x) (pxs_table st))"

definition pg_apply_change ::
  "('o, 'db, 'u) pg_subscription_store \<Rightarrow> subscription_change \<Rightarrow> ('db, unit) db_action" where
  "pg_apply_change st c =
     (let state = own_subscription st (ch_subscription c)
      in case ch_type c of
           ADD \<Rightarrow> add_subscription (pxs_connection st) state (pxs_table st)
         | REPLACE \<Rightarrow> replace_subscription (pxs_connection st) state (pxs_table st)
         | REMOVE \<Rightarrow> remove_subscription (pxs_connection st) state (pxs_table st))"

fun pg_apply_changes ::
  "('o, 'db, 'u) pg_subscription_store \<Rightarrow> subscription_change list \<Rightarrow> ('db, unit) db_action" where
  "pg_apply_changes st [] = db_return (Inr ())"
| "pg_apply_changes st (c # cs) = db_bind (pg_apply_change st c) (\<lambda>_. pg_apply_changes st cs)"

definition pg_subscription_apply ::
  "('o, 'db, 'u) pg_subscription_store \<Rightarrow> subscription_change list \<Rightarrow> ('db, unit) db_action" where
  "pg_subscription_apply st changes =
     (if card (ch_key ` set changes) \<noteq> length changes
      then db_return (Inl (ValueError ''Multiple changes present for same subscription key.''))
      else in_connection (pxs_connection st) (pg_apply_changes st changes))"

subsection \<open>What the store relies on\<close>

text \<open>
  A text of Postgres holds no NUL character (\<open>storable_text\<close>). The other statements run as
  documented, one transaction after the other: \<open>tb\<close> is the table of a state by its primary key,
  \<open>jsonb\<close> what a JSON value becomes when it is stored.
\<close>

fun partition_text :: "partition_identifier \<Rightarrow> string" where
  "partition_text (StreamNamePrefixPartitionIdentifier v) = v"

fun identifier_texts :: "event_source_identifier \<Rightarrow> string list" where
  "identifier_texts LogIdentifier = []"
| "identifier_texts (LogPartitionIdentifier p) = [partition_text p]"
| "identifier_texts (CategoryIdentifier c) = [c]"
| "identifier_texts (CategoryPartitionIdentifier c p) = [partition_text p]"
| "identifier_texts (StreamIdentifier c s) = [c, s]"

definition storable_subscription :: "subscription_state \<Rightarrow> bool" where
  "storable_subscription x \<longleftrightarrow>
     list_all storable_text (xs_id x # xs_group x # xs_node_id x # concat (map identifier_texts (xs_sources x)))"

type_synonym 'o subscription_table = "event_subscription_key \<rightharpoonup> 'o subscription_row"

definition stored_subscription :: "('o pyval \<Rightarrow> 'o pyval) \<Rightarrow> subscription_state \<Rightarrow> 'o subscription_row" where
  "stored_subscription jsonb x =
     \<lparr>xr_id = xs_id x, xr_group = xs_group x, xr_node_id = xs_node_id x,
      xr_event_sources = jsonb (identifiers_json (xs_sources x))\<rparr>"

definition serves_changes ::
  "('o, 'db) subscription_connection \<Rightarrow> table_settings \<Rightarrow> ('db \<Rightarrow> 'o subscription_table)
    \<Rightarrow> ('o pyval \<Rightarrow> 'o pyval) \<Rightarrow> 'db \<Rightarrow> subscription_state \<Rightarrow> bool" where
  "serves_changes conn settings tb jsonb db x \<longleftrightarrow>
     (case tb db (xs_key x) of
        None \<Rightarrow>
          (\<exists>db' rs. cs_execute conn (subscription_insert_query x settings) db = (db', Inr rs)
             \<and> tb db' = (tb db)(xs_key x \<mapsto> stored_subscription jsonb x)) \<and>
          (\<exists>db'. cs_execute conn (subscription_upsert_query x settings) db = (db', Inr []) \<and> tb db' = tb db) \<and>
          (\<exists>db'. cs_execute conn (subscription_remove_query x settings) db = (db', Inr []) \<and> tb db' = tb db)
      | Some row \<Rightarrow>
          (\<exists>db' e. cs_execute conn (subscription_insert_query x settings) db = (db', Inl e)
             \<and> cs_unique_violation conn e) \<and>
          (let row' = row\<lparr>xr_event_sources := jsonb (identifiers_json (xs_sources x))\<rparr>
           in \<exists>db'. cs_execute conn (subscription_upsert_query x settings) db = (db', Inr [row'])
                \<and> tb db' = (tb db)(xs_key x \<mapsto> row')) \<and>
          (\<exists>db'. cs_execute conn (subscription_remove_query x settings) db = (db', Inr [row])
             \<and> tb db' = (tb db)(xs_key x := None)))"

definition serves_subscriptions ::
  "('o, 'db) subscription_connection \<Rightarrow> table_settings \<Rightarrow> ('db \<Rightarrow> 'o subscription_table)
    \<Rightarrow> ('o pyval \<Rightarrow> 'o pyval) \<Rightarrow> bool" where
  "serves_subscriptions conn settings tb jsonb \<longleftrightarrow>
     keeps_json jsonb \<and>
     (\<forall>db db'. tb (cs_rollback conn db db') = tb db) \<and>
     (\<forall>db key row. tb db key = Some row \<longrightarrow> row_key row = key) \<and>
     (\<forall>db x. storable_subscription x \<longrightarrow> serves_changes conn settings tb jsonb db x) \<and>
     (\<forall>db q. build (base_query settings) = Inr q \<longrightarrow>
        (\<exists>db' rs. cs_execute conn (as_statement q) db = (db', Inr rs) \<and> tb db' = tb db
           \<and> distinct (map row_key rs) \<and> set rs = ran (tb db)))"

subsection \<open>Changes\<close>

text \<open>A state of the table holds an allocation of sources to keys.\<close>

definition holds_allocation ::
  "('db \<Rightarrow> 'o subscription_table) \<Rightarrow> ('o pyval \<Rightarrow> 'o pyval) \<Rightarrow> 'db
    \<Rightarrow> (event_subscription_key \<rightharpoonup> event_source_identifier list) \<Rightarrow> bool" where
  "holds_allocation tb jsonb db allocated \<longleftrightarrow>
     (\<forall>key. map_option xr_event_sources (tb db key) = map_option (\<lambda>xs. jsonb (identifiers_json xs)) (allocated key))"

lemma holds_None: "holds_allocation tb jsonb db allocated \<Longrightarrow> tb db key = None \<longleftrightarrow> allocated key = None"
  unfolding holds_allocation_def by (metis map_option_is_None)

lemma holds_Some:
  "holds_allocation tb jsonb db allocated \<Longrightarrow> allocated key = Some xs
    \<Longrightarrow> \<exists>row. tb db key = Some row \<and> xr_event_sources row = jsonb (identifiers_json xs)"
  by (auto simp: holds_allocation_def map_option_eq_Some dest: spec [of _ key])

lemma holds_row:
  "holds_allocation tb jsonb db allocated \<Longrightarrow> tb db key = Some row
    \<Longrightarrow> \<exists>xs. allocated key = Some xs \<and> xr_event_sources row = jsonb (identifiers_json xs)"
  by (drule holds_allocation_def [THEN iffD1, rule_format, of _ _ _ _ key]) (cases "allocated key"; simp)

lemma holds_upd:
  "holds_allocation tb jsonb db allocated \<Longrightarrow> tb db' = (tb db)(key \<mapsto> row)
    \<Longrightarrow> xr_event_sources row = jsonb (identifiers_json xs)
    \<Longrightarrow> holds_allocation tb jsonb db' (allocated(key \<mapsto> xs))"
  by (simp add: holds_allocation_def)

lemma holds_delete:
  "holds_allocation tb jsonb db allocated \<Longrightarrow> tb db' = (tb db)(key := None)
    \<Longrightarrow> holds_allocation tb jsonb db' (allocated(key := None))"
  by (simp add: holds_allocation_def)

lemma holds_same: "holds_allocation tb jsonb db allocated \<Longrightarrow> tb db' = tb db \<Longrightarrow> holds_allocation tb jsonb db' allocated"
  by (simp add: holds_allocation_def)

lemma own_subscription_key [simp]: "xs_key (own_subscription st x) = xs_key x"
  by (simp add: own_subscription_def xs_key_def)

lemma own_subscription_sources [simp]: "xs_sources (own_subscription st x) = xs_sources x"
  by (simp add: own_subscription_def)

abbreviation held_sources :: "subscription_store \<Rightarrow> event_subscription_key \<rightharpoonup> event_source_identifier list" where
  "held_sources mem \<equiv> (\<lambda>key. map_option xs_sources (subscription_get key mem))"

lemma held_put:
  "subscriptions_wf mem \<Longrightarrow> held_sources (put_subscription x mem) = (held_sources mem)(xs_key x \<mapsto> xs_sources x)"
  by (auto simp: put_subscription_wf)

lemma held_delete:
  "subscriptions_wf mem \<Longrightarrow> held_sources (mem\<lparr>sxs_subscriptions := AList.delete k (sxs_subscriptions mem)\<rparr>)
    = (held_sources mem)(k := None)"
  by (auto simp: delete_subscription_wf)

lemma apply_change_wf: "subscriptions_wf mem \<Longrightarrow> apply_change c mem = Inr mem' \<Longrightarrow> subscriptions_wf mem'"
  by (auto simp: apply_change_def subscription_add_def subscription_replace_def subscription_remove_def
      put_subscription_wf delete_subscription_wf split: change_type.splits if_splits)

lemma pg_apply_change_effect:
  assumes "serves_subscriptions (pxs_connection st) (pxs_table st) tb jsonb"
    and "storable_subscription (own_subscription st (ch_subscription c))"
    and "subscriptions_wf mem" "holds_allocation tb jsonb db (held_sources mem)"
  shows "case apply_change c mem of
      Inl e \<Rightarrow> \<exists>db'. pg_apply_change st c db = (db', Inl e)
    | Inr mem' \<Rightarrow> \<exists>db'. pg_apply_change st c db = (db', Inr ()) \<and> holds_allocation tb jsonb db' (held_sources mem')"
proof -
  let ?x = "own_subscription st (ch_subscription c)"
  have serves: "serves_changes (pxs_connection st) (pxs_table st) tb jsonb db ?x"
    using assms(1,2) by (simp add: serves_subscriptions_def)
  have none: "tb db (ch_key c) = None \<longleftrightarrow> subscription_get (ch_key c) mem = None"
    using holds_None [OF assms(4)] by simp
  have sources: "xr_event_sources (stored_subscription jsonb ?x) = jsonb (identifiers_json (xs_sources (ch_subscription c)))"
    by (simp add: stored_subscription_def)
  note steps = apply_change_def pg_apply_change_def subscription_add_def subscription_replace_def
    subscription_remove_def add_subscription_def replace_subscription_def remove_subscription_def
    db_bind_def db_return_def
  show ?thesis
  proof (cases "tb db (ch_key c)")
    case None
    with serves none sources show ?thesis
      by (cases "ch_type c")
        (auto simp: steps serves_changes_def held_put [OF assms(3)] intro: holds_upd [OF assms(4)])
  next
    case (Some row)
    with serves none show ?thesis
      by (cases "ch_type c")
        (auto simp: steps serves_changes_def Let_def held_put [OF assms(3)] held_delete [OF assms(3)]
          intro!: holds_upd [OF assms(4)] holds_delete [OF assms(4)])
  qed
qed

lemma subscription_apply_loop:
  "subscription_apply changes mem =
    (if card (ch_key ` set changes) \<noteq> length changes
     then (mem, Inl (ValueError ''Multiple changes present for same subscription key.''))
     else apply_loop changes mem)"
  by (simp add: subscription_apply_def)

lemma pg_apply_changes_effect:
  assumes "serves_subscriptions (pxs_connection st) (pxs_table st) tb jsonb"
    and "list_all (\<lambda>c. storable_subscription (own_subscription st (ch_subscription c))) cs"
    and "subscriptions_wf mem" "holds_allocation tb jsonb db (held_sources mem)"
    and "apply_loop cs mem = (mem', r)"
  shows "subscriptions_wf mem' \<and> (\<exists>db'. pg_apply_changes st cs db = (db', r)
    \<and> (r = Inr () \<longrightarrow> holds_allocation tb jsonb db' (held_sources mem')))"
  using assms(2-)
proof (induction cs arbitrary: mem db)
  case Nil
  then show ?case by (auto simp: db_return_def)
next
  case (Cons c cs)
  note effect = pg_apply_change_effect [OF assms(1) _ Cons.prems(2,3), of c]
  show ?case
  proof (cases "apply_change c mem")
    case (Inl e)
    then show ?thesis using effect Cons.prems by (auto simp: db_bind_def)
  next
    case (Inr mem1)
    then obtain db1 where "pg_apply_change st c db = (db1, Inr ())" "holds_allocation tb jsonb db1 (held_sources mem1)"
      using effect Cons.prems(1) by auto
    then show ?thesis
      using Cons.IH [of mem1 db1] apply_change_wf [OF Cons.prems(2) Inr] Cons.prems Inr
      by (auto simp: db_bind_def)
  qed
qed

subsection \<open>Listing\<close>

lemma find_distinct: "distinct (map f xs) \<Longrightarrow> x \<in> set xs \<Longrightarrow> find (\<lambda>y. f y = f x) xs = Some x"
  by (induction xs) (auto simp: rev_image_eqI)

lemma find_mapped: "find P (map g xs) = map_option g (find (P \<circ> g) xs)"
  by (induction xs) auto

lemma read_subscription_row:
  assumes "keeps_json jsonb" and "xr_event_sources row = jsonb (identifiers_json xs)"
  shows "read_subscription py_str row =
    (if list_all is_event_sequence_identifier xs
     then Inr \<lparr>xs_group = xr_group row, xs_id = xr_id row, xs_node_id = xr_node_id row, xs_sources = xs\<rparr>
     else Inl (ValueError ''Invalid serialised event sequence identifier.''))"
  using assms by (simp add: read_subscription_def read_stored_identifiers)

lemma pg_subscription_listed:
  assumes "serves_subscriptions (pxs_connection st) (pxs_table st) tb jsonb"
    and "pxs_converter st = store_converter ser hashable (pxs_table st)"
    and "holds_allocation tb jsonb db allocated"
  shows "\<exists>db' r. pg_subscription_list py_str st db = (db', r) \<and> tb db' = tb db
    \<and> (if \<forall>xs \<in> ran allocated. list_all is_event_sequence_identifier xs
       then \<exists>ys. r = Inr ys \<and> distinct (map xs_key ys) \<and> allocation ys = allocated
       else r = Inl (ValueError ''Invalid serialised event sequence identifier.''))"
proof -
  obtain q where q: "build (base_query (pxs_table st)) = Inr (q :: sql \<times> 'a sql_value list)"
    using base_query_built by blast
  then obtain db' rs where rs: "cs_execute (pxs_connection st) (as_statement q) db = (db', Inr rs)"
    "tb db' = tb db" "distinct (map row_key rs)" "set rs = ran (tb db)"
    using assms(1) unfolding serves_subscriptions_def by blast
  have json: "keeps_json jsonb" using assms(1) unfolding serves_subscriptions_def by blast
  have keys: "tb db key = Some row \<Longrightarrow> row_key row = key" for key row
    using assms(1) unfolding serves_subscriptions_def by blast
  let ?of = "\<lambda>row. the (allocated (row_key row))"
  let ?g = "\<lambda>row. \<lparr>xs_group = xr_group row, xs_id = xr_id row, xs_node_id = xr_node_id row, xs_sources = ?of row\<rparr>"
  have in_rs: "row \<in> set rs \<longleftrightarrow> tb db (row_key row) = Some row" for row
  proof
    assume "row \<in> set rs"
    then obtain key where "tb db key = Some row" unfolding rs(4) ran_def by blast
    with keys [OF this] show "tb db (row_key row) = Some row" by simp
  qed (auto simp: rs(4) intro: ranI)
  have held: "\<exists>xs. allocated (row_key row) = Some xs \<and> xr_event_sources row = jsonb (identifiers_json xs)"
    if "tb db (row_key row) = Some row" for row
    using holds_row [OF assms(3) that] .
  have read: "res_map (read_subscription py_str) rs =
      (if list_all (\<lambda>row. list_all is_event_sequence_identifier (?of row)) rs then Inr (map ?g rs)
       else Inl (ValueError ''Invalid serialised event sequence identifier.''))"
  proof (rule res_map_uniform)
    fix row assume "row \<in> set rs"
    then obtain xs where "allocated (row_key row) = Some xs" "xr_event_sources row = jsonb (identifiers_json xs)"
      using held in_rs by blast
    then show "read_subscription py_str row = (if list_all is_event_sequence_identifier (?of row)
        then Inr (?g row) else Inl (ValueError ''Invalid serialised event sequence identifier.''))"
      using read_subscription_row [OF json] by simp
  qed
  have "?of ` set rs = ran allocated"
  proof -
    have "xs \<in> ?of ` set rs" if at: "allocated key = Some xs" for key xs
    proof -
      obtain row where "tb db key = Some row" using holds_Some [OF assms(3) at] by blast
      then show ?thesis using keys at by (intro image_eqI [of _ _ row]) (auto simp: in_rs)
    qed
    then show ?thesis using held by (fastforce simp: ran_def in_rs)
  qed
  then have all: "list_all (\<lambda>row. list_all is_event_sequence_identifier (?of row)) rs
      \<longleftrightarrow> (\<forall>xs \<in> ran allocated. list_all is_event_sequence_identifier xs)"
    by (simp add: list_all_iff flip: \<open>?of ` set rs = ran allocated\<close>)
  have listed: "pg_subscription_list py_str st db
      = (case res_map (read_subscription py_str) rs of
           Inl e \<Rightarrow> (cs_rollback (pxs_connection st) db db', Inl e) | Inr ys \<Rightarrow> (db', Inr ys))"
    using q rs(1) by (simp add: pg_subscription_list_def assms(2) store_converter_search db_bind_def
        db_return_def in_connection_def split: sum.split)
  have names: "map xs_key (map ?g rs) = map row_key rs" by (simp add: xs_key_def row_key_def)
  have allocation: "allocation (map ?g rs) key = allocated key" for key
  proof (cases "allocated key")
    case None
    then have "tb db key = None" using holds_None [OF assms(3)] by blast
    then have "key \<notin> row_key ` set rs" using in_rs by fastforce
    then show ?thesis by (auto simp: None allocation_def find_None_iff xs_key_def row_key_def)
  next
    case (Some xs)
    obtain row where row: "tb db key = Some row" using holds_Some [OF assms(3) Some] by blast
    then have "row \<in> set rs" "row_key row = key" using keys [OF row] in_rs by auto
    then have "find (\<lambda>r. row_key r = key) rs = Some row" using find_distinct [OF rs(3)] by blast
    then show ?thesis
      using \<open>row_key row = key\<close> Some by (simp add: allocation_def find_mapped o_def xs_key_def row_key_def)
  qed
  show ?thesis
  proof (cases "\<forall>xs \<in> ran allocated. list_all is_event_sequence_identifier xs")
    case True
    then have "pg_subscription_list py_str st db = (db', Inr (map ?g rs))" using all listed read by simp
    then show ?thesis using True rs(2,3) names allocation by (auto simp del: map_map simp: fun_eq_iff)
  next
    case False
    then have "pg_subscription_list py_str st db = (cs_rollback (pxs_connection st) db db',
        Inl (ValueError ''Invalid serialised event sequence identifier.''))" using all listed read by simp
    moreover have "tb (cs_rollback (pxs_connection st) db db') = tb db"
      using assms(1) unfolding serves_subscriptions_def by blast
    ultimately show ?thesis using False by auto
  qed
qed

subsection \<open>The store in Postgres implements the store in memory\<close>

text \<open>
  C35. If a table and the store in memory hold the same allocation, applying the same changes to
  both gives the same outcome, errors included. When the changes succeed, table and store hold the
  same allocation again, and listing the table gives it, with one subscription per key; but if any
  source is a partition, listing raises \<open>ValueError\<close>. When the changes raise, the table is as it
  was: in Postgres the changes are applied all or none, whereas in memory those before the failing
  one stay.
\<close>

theorem postgres_subscriptions_refine:
  assumes "serves_subscriptions (pxs_connection st) (pxs_table st) tb jsonb"
    and "pxs_converter st = store_converter ser hashable (pxs_table st)"
    and "subscriptions_wf mem"
    and "holds_allocation tb jsonb db (allocation (subscription_list mem))"
    and "list_all (\<lambda>c. storable_subscription (own_subscription st (ch_subscription c))) changes"
  shows "\<exists>db' mem' r. pg_subscription_apply st changes db = (db', r)
    \<and> subscription_apply changes mem = (mem', r)
    \<and> (if r = Inr ()
       then holds_allocation tb jsonb db' (allocation (subscription_list mem'))
         \<and> (\<exists>db'' listed. pg_subscription_list py_str st db' = (db'', listed) \<and> tb db'' = tb db'
           \<and> (if \<forall>xs \<in> ran (allocation (subscription_list mem')). list_all is_event_sequence_identifier xs
              then \<exists>ys. listed = Inr ys \<and> distinct (map xs_key ys)
                   \<and> allocation ys = allocation (subscription_list mem')
              else listed = Inl (ValueError ''Invalid serialised event sequence identifier.'')))
       else tb db' = tb db)"
proof -
  have rollback: "tb (cs_rollback (pxs_connection st) db1 db2) = tb db1" for db1 db2
    using assms(1) unfolding serves_subscriptions_def by blast
  obtain mem' r where loop: "apply_loop changes mem = (mem', r)" by fastforce
  have held: "holds_allocation tb jsonb db (held_sources mem)"
    using assms(4) by (simp add: allocation_get [OF assms(3)])
  obtain db' where wf: "subscriptions_wf mem'" and db': "pg_apply_changes st changes db = (db', r)"
    "r = Inr () \<longrightarrow> holds_allocation tb jsonb db' (allocation (subscription_list mem'))"
    using pg_apply_changes_effect [OF assms(1,5,3) held loop] by (auto simp: allocation_get)
  show ?thesis
  proof (cases "r = Inr () \<and> card (ch_key ` set changes) = length changes")
    case True
    then have "pg_subscription_apply st changes db = (db', r)" "subscription_apply changes mem = (mem', r)"
      using loop db' by (simp_all add: subscription_apply_loop pg_subscription_apply_def in_connection_def)
    then show ?thesis
      using True db'(2) pg_subscription_listed [OF assms(1,2), of db' "allocation (subscription_list mem')" py_str]
      by auto
  next
    case False
    then show ?thesis
      using loop db'(1) rollback
      by (cases r) (auto simp: subscription_apply_loop pg_subscription_apply_def in_connection_def db_return_def)
  qed
qed

subsection \<open>A server for the statements\<close>

text \<open>
  A table as a list of rows, of which the first with a key is the one in force. The statements of
  the store differ in the number of their parameters.
\<close>

definition table_of :: "'o subscription_row list \<Rightarrow> 'o subscription_table" where
  "table_of rows key = find (\<lambda>row. row_key row = key) rows"

definition without_key :: "event_subscription_key \<Rightarrow> 'o subscription_row list \<Rightarrow> 'o subscription_row list" where
  "without_key key rows = filter (\<lambda>row. row_key row \<noteq> key) rows"

fun db_text :: "'o db_value \<Rightarrow> string" where
  "db_text (DbValue (Plain (QVal (PyStr s)))) = s"
| "db_text _ = []"

fun db_json :: "'o db_value \<Rightarrow> 'o pyval" where
  "db_json (DbValue (Jsonb v)) = v"
| "db_json _ = PyNone"

definition table_insert :: "'o subscription_row \<Rightarrow> ('o subscription_row list, 'o subscription_row list) db_action" where
  "table_insert row rows =
     (if table_of rows (row_key row) = None then (row # rows, Inr [])
      else (rows, Inl (RuntimeError ''UniqueViolation'')))"

definition table_update ::
  "event_subscription_key \<Rightarrow> 'o pyval \<Rightarrow> ('o subscription_row list, 'o subscription_row list) db_action" where
  "table_update key v rows =
     (case table_of rows key of
        None \<Rightarrow> (rows, Inr [])
      | Some row \<Rightarrow> (row\<lparr>xr_event_sources := v\<rparr> # rows, Inr [row\<lparr>xr_event_sources := v\<rparr>]))"

definition table_delete ::
  "event_subscription_key \<Rightarrow> ('o subscription_row list, 'o subscription_row list) db_action" where
  "table_delete key rows =
     (case table_of rows key of
        None \<Rightarrow> (rows, Inr [])
      | Some row \<Rightarrow> (without_key key rows, Inr [row]))"

definition table_execute :: "'o statement \<Rightarrow> ('o subscription_row list, 'o subscription_row list) db_action" where
  "table_execute q rows =
     (let params = snd q; txt = (\<lambda>i. db_text (params ! i))
      in if length params = 4
         then table_insert \<lparr>xr_id = txt 0, xr_group = txt 1, xr_node_id = txt 2,
                             xr_event_sources = db_json (params ! 3)\<rparr> rows
         else if length params = 3
         then table_update (EventSubscriptionKey (txt 1) (txt 2)) (db_json (params ! 0)) rows
         else if length params = 2 then table_delete (EventSubscriptionKey (txt 0) (txt 1)) rows
         else (rows, Inr (remdups (filter (\<lambda>row. table_of rows (row_key row) = Some row) rows))))"

definition table_connection :: "('o, 'o subscription_row list) subscription_connection" where
  "table_connection =
     \<lparr>cs_execute = table_execute, cs_rollback = (\<lambda>before after. before),
      cs_unique_violation = (\<lambda>e. e = RuntimeError ''UniqueViolation'')\<rparr>"

lemma table_of_Cons: "table_of (row # rows) = (table_of rows)(row_key row \<mapsto> row)"
  by (auto simp: table_of_def fun_eq_iff)

lemma table_of_without: "table_of (without_key key rows) = (table_of rows)(key := None)"
  by (induction rows) (auto simp: table_of_def without_key_def fun_eq_iff)

lemma table_of_key: "table_of rows key = Some row \<Longrightarrow> row \<in> set rows \<and> row_key row = key"
  by (auto simp: table_of_def find_Some_iff)

lemma table_connection_serves:
  "serves_subscriptions table_connection settings table_of (\<lambda>v. v)"
proof -
  have "serves_changes table_connection settings table_of (\<lambda>v. v) db x" for db :: "'a subscription_row list" and x
    by (cases "table_of db (xs_key x)")
      (auto simp: serves_changes_def table_connection_def table_execute_def table_insert_def
        table_update_def table_delete_def subscription_insert_query_def
        subscription_upsert_query_def subscription_remove_query_def sources_jsonb_def
        table_of_Cons table_of_without stored_subscription_def row_key_def xs_key_def
        dest: table_of_key)
  moreover have "\<exists>db' rs. cs_execute table_connection (as_statement q) db = (db', Inr rs)
      \<and> table_of db' = table_of db \<and> distinct (map row_key rs) \<and> set rs = ran (table_of db)"
    if "build (base_query settings) = Inr q" for db :: "'a subscription_row list" and q
  proof -
    let ?rs = "remdups (filter (\<lambda>row. table_of db (row_key row) = Some row) db)"
    have "inj_on row_key (set ?rs)"
    proof (rule inj_onI)
      fix a b assume "a \<in> set ?rs" "b \<in> set ?rs" "row_key a = row_key b"
      then have "Some a = table_of db (row_key b)" "table_of db (row_key b) = Some b" by simp_all
      then show "a = b" by simp
    qed
    then have "distinct (map row_key ?rs)" by (simp add: distinct_map)
    moreover have "set ?rs = ran (table_of db)" 
    proof (rule set_eqI)
      fix row
      show "row \<in> set ?rs \<longleftrightarrow> row \<in> ran (table_of db)"
        using table_of_key [of db _ row] unfolding ran_def by auto
    qed
    moreover have "cs_execute table_connection (as_statement q) db = (db, Inr ?rs)"
      using base_query_params [OF that] by (simp add: table_connection_def table_execute_def as_statement_def)
    ultimately show ?thesis by blast
  qed
  ultimately show ?thesis
    unfolding serves_subscriptions_def keeps_json_def
    by (auto simp: table_connection_def dest: table_of_key)
qed

definition sample_subscription :: "string \<Rightarrow> event_source_identifier list \<Rightarrow> subscription_state" where
  "sample_subscription i sources = \<lparr>xs_group = ''g'', xs_id = i, xs_node_id = ''n'', xs_sources = sources\<rparr>"

definition sample_pg_store :: "(unit, unit subscription_row list, unit) pg_subscription_store" where
  "sample_pg_store = new_pg_subscription_store (\<lambda>_. None) (\<lambda>_. True) ''n'' table_connection None None"

definition sample_table :: "unit subscription_row list" where
  "sample_table = [stored_subscription (\<lambda>v. v) (sample_subscription ''a'' [CategoryIdentifier ''c''])]"

definition sample_held :: subscription_store where
  "sample_held = \<lparr>sxs_node_id = ''n'',
     sxs_subscriptions = [(EventSubscriptionKey ''g'' ''a'', sample_subscription ''a'' [CategoryIdentifier ''c''])]\<rparr>"

definition sample_change :: "change_type \<Rightarrow> string \<Rightarrow> event_source_identifier list \<Rightarrow> subscription_change" where
  "sample_change kind i sources = \<lparr>ch_type = kind, ch_subscription = sample_subscription i sources\<rparr>"

lemma sample_store_setup:
  "serves_subscriptions (pxs_connection sample_pg_store) (pxs_table sample_pg_store) table_of (\<lambda>v. v)"
  "pxs_converter sample_pg_store = store_converter (\<lambda>_. None) (\<lambda>_. True) (pxs_table sample_pg_store)"
  "subscriptions_wf sample_held"
  "holds_allocation table_of (\<lambda>v. v) sample_table (allocation (subscription_list sample_held))"
  by (simp_all add: sample_pg_store_def new_pg_subscription_store_def Let_def table_connection_serves
      sample_held_def subscriptions_wf_def wf_dict_def dict_keys_def sample_subscription_def xs_key_def
      holds_allocation_def sample_table_def table_of_def stored_subscription_def row_key_def
      allocation_def subscription_list_def dict_values_def)

theorem postgres_subscriptions_refine_witness:
  "(\<exists>db'. pg_subscription_apply sample_pg_store
        [sample_change ADD ''b'' [LogIdentifier], sample_change REPLACE ''a'' []] sample_table = (db', Inr ())
      \<and> (\<exists>db'' ys. pg_subscription_list (\<lambda>_. []) sample_pg_store db' = (db'', Inr ys)
           \<and> allocation ys = [EventSubscriptionKey ''g'' ''a'' \<mapsto> [], EventSubscriptionKey ''g'' ''b'' \<mapsto> [LogIdentifier]]))
   \<and> (\<exists>db'. pg_subscription_apply sample_pg_store
        [sample_change ADD ''b'' [], sample_change ADD ''a'' []] sample_table
        = (db', Inl (ValueError ''Can't add existing subscription.''))
      \<and> table_of db' = table_of sample_table)"
proof -
  note refine = postgres_subscriptions_refine [OF sample_store_setup, of _ "\<lambda>_. []"]
  let ?good = "[sample_change ADD ''b'' [LogIdentifier], sample_change REPLACE ''a'' []]"
  let ?bad = "[sample_change ADD ''b'' [], sample_change ADD ''a'' []]"
  have storable: "list_all (\<lambda>c. storable_subscription (own_subscription sample_pg_store (ch_subscription c))) ?good"
    "list_all (\<lambda>c. storable_subscription (own_subscription sample_pg_store (ch_subscription c))) ?bad"
    by code_simp+
  have good: "\<exists>mem'. subscription_apply ?good sample_held = (mem', Inr ())
      \<and> allocation (subscription_list mem')
        = [EventSubscriptionKey ''g'' ''a'' \<mapsto> [], EventSubscriptionKey ''g'' ''b'' \<mapsto> [LogIdentifier]]"
  proof (intro exI conjI)
    show "subscription_apply ?good sample_held = (sample_held\<lparr>sxs_subscriptions :=
        [(EventSubscriptionKey ''g'' ''a'', sample_subscription ''a'' []),
         (EventSubscriptionKey ''g'' ''b'', sample_subscription ''b'' [LogIdentifier])]\<rparr>, Inr ())"
      by code_simp
  qed (auto simp: allocation_def subscription_list_def dict_values_def sample_subscription_def xs_key_def)
  have bad: "snd (subscription_apply ?bad sample_held) = Inl (ValueError ''Can't add existing subscription.'')"
    by code_simp
  show ?thesis
  proof
    show "\<exists>db'. pg_subscription_apply sample_pg_store ?good sample_table = (db', Inr ())
      \<and> (\<exists>db'' ys. pg_subscription_list (\<lambda>_. []) sample_pg_store db' = (db'', Inr ys)
           \<and> allocation ys = [EventSubscriptionKey ''g'' ''a'' \<mapsto> [], EventSubscriptionKey ''g'' ''b'' \<mapsto> [LogIdentifier]])"
      using refine [OF storable(1)] good by (auto simp: is_event_sequence_identifier_def)
    show "\<exists>db'. pg_subscription_apply sample_pg_store ?bad sample_table
        = (db', Inl (ValueError ''Can't add existing subscription.'')) \<and> table_of db' = table_of sample_table"
      using refine [OF storable(2)] bad by auto
  qed
qed

end
