(* ===== verification/Sql_Statements.thy ===== *)
theory Sql_Statements
  imports Postgres_Connections "HOL-Library.Monad_Syntax"
begin

section \<open>Reading the text of statements\<close>

text \<open>
  What a server makes of the text of a statement: its words, and of these the command, for the forms
  of \<open>DELETE\<close>, \<open>UPDATE\<close> and \<open>INSERT ... ON CONFLICT\<close> that the stores of the broker write by hand. A
  store's promises then rest on the text it sends, whatever its layout, and not on the function
  that made it. Columns are named as they are written; a value is always a placeholder.
\<close>

subsection \<open>Words\<close>

datatype sql_word = Word string | Name string

definition is_blank :: "char \<Rightarrow> bool" where
  "is_blank ch \<longleftrightarrow> ch = CHR 0x20 \<or> ch = CHR 0x0A"

definition is_mark :: "char \<Rightarrow> bool" where
  "is_mark ch \<longleftrightarrow> ch \<in> set ''(),;*''"

definition flush :: "string \<Rightarrow> string list" where
  "flush acc = (if acc = [] then [] else [rev acc])"

fun text_words :: "string \<Rightarrow> string \<Rightarrow> string list" where
  "text_words acc [] = flush acc"
| "text_words acc (ch # cs) =
     (if is_blank ch then flush acc @ text_words [] cs
      else if is_mark ch then flush acc @ [ch] # text_words [] cs
      else text_words (ch # acc) cs)"

fun sql_words :: "sql \<Rightarrow> sql_word list" where
  "sql_words [] = []"
| "sql_words (SQL t # q) = map Word (text_words [] t) @ sql_words q"
| "sql_words (Identifier n # q) = Name n # sql_words q"

subsection \<open>Commands\<close>

datatype comparator = IS_EQUAL | IS_NOT_EQUAL | IS_LESS | IS_LESS_EQUAL | IS_GREATER | IS_GREATER_EQUAL

type_synonym column_test = "string \<times> comparator"

text \<open>
  \<open>DELETE FROM t WHERE tests\<close>, \<open>UPDATE t SET column = %s WHERE tests\<close>, and
  \<open>INSERT INTO t (columns) VALUES (%s, ...) ON CONFLICT (columns) DO UPDATE SET (columns) = ROW (%s, ...)\<close>
\<close>

datatype command =
    DeleteFrom string "column_test list"
  | UpdateSet string string "column_test list"
  | InsertOrUpdate string "string list" "string list" "string list"

definition read_comparator :: "string \<Rightarrow> comparator option" where
  "read_comparator w =
     map_of [(''='', IS_EQUAL), (''<>'', IS_NOT_EQUAL), (''<'', IS_LESS), (''<='', IS_LESS_EQUAL),
             (''>'', IS_GREATER), (''>='', IS_GREATER_EQUAL)] w"

fun after_words :: "string list \<Rightarrow> sql_word list \<Rightarrow> sql_word list option" where
  "after_words [] ws = Some ws"
| "after_words (k # ks) (Word w # ws) = (if w = k then after_words ks ws else None)"
| "after_words (k # ks) _ = None"

fun after_name :: "sql_word list \<Rightarrow> (string \<times> sql_word list) option" where
  "after_name (Name n # ws) = Some (n, ws)"
| "after_name _ = None"

text \<open>\<open>column = %s AND ...\<close>, and words between commas up to the parenthesis that closes them\<close>

fun read_tests :: "sql_word list \<Rightarrow> (column_test list \<times> sql_word list) option" where
  "read_tests (Word c # Word w # Word p # ws) =
     (case read_comparator w of
        None \<Rightarrow> None
      | Some k \<Rightarrow>
          if p \<noteq> ''%s'' then None
          else if ws \<noteq> [] \<and> hd ws = Word ''AND''
          then map_option (map_prod (Cons (c, k)) id) (read_tests (tl ws))
          else Some ([(c, k)], ws))"
| "read_tests _ = None"

fun read_listed :: "sql_word list \<Rightarrow> (string list \<times> sql_word list) option" where
  "read_listed (Word w # Word m # ws) =
     (if m = '')'' then Some ([w], ws)
      else if m = '','' then map_option (map_prod (Cons w) id) (read_listed ws)
      else None)"
| "read_listed _ = None"

definition closes :: "sql_word list \<Rightarrow> bool" where
  "closes ws \<longleftrightarrow> ws = [Word '';''] \<or> ws = [Word ''RETURNING'', Word ''*'', Word '';'']"

definition read_where :: "sql_word list \<Rightarrow> column_test list option" where
  "read_where ws = do {
     ws \<leftarrow> after_words [''WHERE''] ws;
     (tests, ws) \<leftarrow> read_tests ws;
     if closes ws then Some tests else None }"

definition read_delete :: "sql_word list \<Rightarrow> command option" where
  "read_delete ws = do {
     ws \<leftarrow> after_words [''DELETE'', ''FROM''] ws;
     (t, ws) \<leftarrow> after_name ws;
     tests \<leftarrow> read_where ws;
     Some (DeleteFrom t tests) }"

definition read_update :: "sql_word list \<Rightarrow> command option" where
  "read_update ws = do {
     ws \<leftarrow> after_words [''UPDATE''] ws;
     (t, ws) \<leftarrow> after_name ws;
     ws \<leftarrow> after_words [''SET''] ws;
     (case ws of
        Word c # ws \<Rightarrow> do {
          ws \<leftarrow> after_words [''='', ''%s''] ws;
          tests \<leftarrow> read_where ws;
          Some (UpdateSet t c tests) }
      | _ \<Rightarrow> None) }"

definition read_insert :: "sql_word list \<Rightarrow> command option" where
  "read_insert ws = do {
     ws \<leftarrow> after_words [''INSERT'', ''INTO''] ws;
     (t, ws) \<leftarrow> after_name ws;
     ws \<leftarrow> after_words [''(''] ws;
     (columns, ws) \<leftarrow> read_listed ws;
     ws \<leftarrow> after_words [''VALUES'', ''(''] ws;
     (values, ws) \<leftarrow> read_listed ws;
     ws \<leftarrow> after_words [''ON'', ''CONFLICT'', ''(''] ws;
     (keys, ws) \<leftarrow> read_listed ws;
     ws \<leftarrow> after_words [''DO'', ''UPDATE'', ''SET'', ''(''] ws;
     (sets, ws) \<leftarrow> read_listed ws;
     ws \<leftarrow> after_words [''='', ''ROW'', ''(''] ws;
     (news, ws) \<leftarrow> read_listed ws;
     if values = replicate (length columns) ''%s'' \<and> news = replicate (length sets) ''%s'' \<and> closes ws
     then Some (InsertOrUpdate t columns keys sets) else None }"

definition read_command :: "sql_word list \<Rightarrow> command option" where
  "read_command ws =
     (case read_delete ws of
        Some cmd \<Rightarrow> Some cmd
      | None \<Rightarrow> (case read_update ws of Some cmd \<Rightarrow> Some cmd | None \<Rightarrow> read_insert ws))"

lemmas read_command_defs = read_command_def read_delete_def read_update_def read_insert_def read_where_def
  read_comparator_def closes_def is_blank_def is_mark_def flush_def text_line_def newline_def indented_def
  identifier_sql_def

end
