(* ===== verification/Postgres_Subscribers.thy ===== *)
theory Postgres_Subscribers
  imports Postgres_Subscriptions Sql_Statements
begin

section \<open>Subscriber states in Postgres\<close>

text \<open>
  Models \<open>strategies/distributed/subscribers/stores/state/postgres.py\<close>: the statements and the
  store. The server is known by what it makes of the text of a statement: \<open>serves_subscribers\<close> is
  the meaning of the commands that \<open>Sql_Statements\<close> reads, any of them, on the table of
  \<open>sql/create_subscribers_table.sql\<close>; which commands the store's texts are, is proved. The
  clock's reading is the argument \<open>now\<close>; as the value of a filter an instant is a Python object,
  \<open>time t\<close>.
\<close>

subsection \<open>Statements\<close>

record 'o subscriber_row =
  rr_group :: string
  rr_id :: string
  rr_node_id :: string
  rr_requests :: "'o pyval"
  rr_last_seen :: datetime

definition rr_key :: "'o subscriber_row \<Rightarrow> event_subscriber_key" where
  "rr_key row = EventSubscriberKey (rr_group row) (rr_id row)"

definition subscriber_insert_query :: "subscriber_state \<Rightarrow> table_settings \<Rightarrow> 'o statement" where
  "subscriber_insert_query s settings =
     (let subscription_requests_jsonb = DbValue (Jsonb (identifiers_json (ss_requests s)))
      in ([SQL (newline @ indented 12 ''INSERT INTO ''), identifier_sql settings,
           SQL ('' (\"group\",'' @ newline @ text_line 29 ''id,'' @ text_line 29 ''node_id,''
             @ text_line 29 ''subscription_requests,'' @ text_line 29 ''last_seen)''
             @ text_line 12 ''VALUES (%s, %s, %s, %s, %s)'' @ text_line 12 ''ON CONFLICT (\"group\", id)''
             @ text_line 16 ''DO'' @ text_line 12 ''UPDATE''
             @ text_line 16 ''SET (subscription_requests, last_seen) = ROW (%s, %s);'' @ indented 12 '''')],
          [db_str (ss_group s), db_str (ss_id s), db_str (ss_node_id s), subscription_requests_jsonb,
           DbTime (ss_last_seen s), subscription_requests_jsonb, DbTime (ss_last_seen s)]))"

definition subscriber_delete_query :: "event_subscriber_key \<Rightarrow> table_settings \<Rightarrow> 'o statement" where
  "subscriber_delete_query key settings =
     ([SQL (newline @ text_line 12 ''DELETE'' @ indented 12 ''FROM ''), identifier_sql settings,
       SQL (newline @ text_line 12 ''WHERE \"group\" = %s'' @ text_line 14 ''AND id = %s''
         @ text_line 16 ''RETURNING *;'' @ indented 12 '''')],
      [db_str (sk_group key), db_str (sk_id key)])"

definition subscriber_heartbeat_query :: "subscriber_state \<Rightarrow> table_settings \<Rightarrow> 'o statement" where
  "subscriber_heartbeat_query s settings =
     ([SQL (newline @ indented 12 ''UPDATE ''), identifier_sql settings,
       SQL (newline @ text_line 12 ''SET last_seen = %s'' @ text_line 12 ''WHERE \"group\" = %s''
         @ text_line 14 ''AND id = %s'' @ text_line 16 ''RETURNING *;'' @ indented 12 '''')],
      [DbTime (ss_last_seen s), db_str (ss_group s), db_str (ss_id s)])"

definition subscriber_purge_query :: "datetime \<Rightarrow> table_settings \<Rightarrow> 'o statement" where
  "subscriber_purge_query cutoff_time settings =
     ([SQL (newline @ text_line 12 ''DELETE'' @ indented 12 ''FROM ''), identifier_sql settings,
       SQL (newline @ text_line 12 ''WHERE last_seen <= %s;'' @ indented 12 '''')],
      [DbTime cutoff_time])"

subsection \<open>The store\<close>

type_synonym ('o, 'db) subscriber_connection = "('o, 'db, 'o subscriber_row) connection_source"

record ('o, 'db, 'u) pg_subscriber_store =
  pss_node_id :: string
  pss_connection :: "('o, 'db) subscriber_connection"
  pss_table :: table_settings
  pss_converter :: "('o, 'u) pg_converter"

definition new_pg_subscriber_store ::
  "'o ser_methods \<Rightarrow> ('o sql_value \<Rightarrow> bool) \<Rightarrow> string \<Rightarrow> ('o, 'db) subscriber_connection
    \<Rightarrow> table_settings option \<Rightarrow> ('o, 'u) pg_converter option \<Rightarrow> ('o, 'db, 'u) pg_subscriber_store" where
  "new_pg_subscriber_store ser hashable node_id conn settings converter =
     (let tbl = (case settings of None \<Rightarrow> \<lparr>table_name = ''subscribers''\<rparr> | Some t \<Rightarrow> t)
      in \<lparr>pss_node_id = node_id, pss_connection = conn, pss_table = tbl,
          pss_converter = (case converter of None \<Rightarrow> store_converter ser hashable tbl | Some c \<Rightarrow> c)\<rparr>)"

definition run_statement ::
  "('o, 'db) subscriber_connection \<Rightarrow> 'o statement \<Rightarrow> ('db, unit) db_action" where
  \<comment> \<open>a connection, a cursor and one statement, whose rows are not read\<close>
  "run_statement conn q = in_connection conn (db_bind (cs_execute conn q) (\<lambda>_. db_return (Inr ())))"

definition pg_subscriber_add ::
  "datetime \<Rightarrow> 'a event_subscriber_scheme \<Rightarrow> ('o, 'db, 'u) pg_subscriber_store \<Rightarrow> ('db, unit) db_action" where
  "pg_subscriber_add now s st =
     run_statement (pss_connection st) (subscriber_insert_query (seen_now now (pss_node_id st) s) (pss_table st))"

definition pg_subscriber_remove ::
  "'a event_subscriber_scheme \<Rightarrow> ('o, 'db, 'u) pg_subscriber_store \<Rightarrow> ('db, unit) db_action" where
  "pg_subscriber_remove s st =
     run_statement (pss_connection st) (subscriber_delete_query (sb_key s) (pss_table st))"

definition pg_subscriber_heartbeat ::
  "datetime \<Rightarrow> 'a event_subscriber_scheme \<Rightarrow> ('o, 'db, 'u) pg_subscriber_store \<Rightarrow> ('db, unit) db_action" where
  "pg_subscriber_heartbeat now s st =
     run_statement (pss_connection st) (subscriber_heartbeat_query (seen_now now (pss_node_id st) s) (pss_table st))"

definition pg_subscriber_purge ::
  "datetime \<Rightarrow> timedelta \<Rightarrow> ('o, 'db, 'u) pg_subscriber_store \<Rightarrow> ('db, unit) db_action" where
  "pg_subscriber_purge now max_time_since_last_seen st =
     run_statement (pss_connection st)
       (subscriber_purge_query (now - max_time_since_last_seen) (pss_table st))"

definition list_filters ::
  "(datetime \<Rightarrow> 'o) \<Rightarrow> datetime \<Rightarrow> string option \<Rightarrow> timedelta option \<Rightarrow> ('o, 'u) clause list" where
  "list_filters time now subscriber_group max_time_since_last_seen =
     (case subscriber_group of
        None \<Rightarrow> []
      | Some g \<Rightarrow> [FilterClause EQUAL (Path ''group'' []) (QVal (PyStr g))])
     @ (case max_time_since_last_seen of
        None \<Rightarrow> []
      | Some age \<Rightarrow> [FilterClause GREATER_THAN (Path ''last_seen'' []) (QVal (PyObj (time (now - age))))])"

definition read_subscriber :: "('o pyval \<Rightarrow> string) \<Rightarrow> 'o subscriber_row \<Rightarrow> subscriber_state res" where
  "read_subscriber py_str row =
     res_bind (read_identifiers py_str (rr_requests row)) (\<lambda>requests.
       Inr \<lparr>ss_group = rr_group row, ss_id = rr_id row, ss_node_id = rr_node_id row,
            ss_requests = requests, ss_last_seen = rr_last_seen row\<rparr>)"

definition pg_subscriber_list ::
  "('o pyval \<Rightarrow> string) \<Rightarrow> (datetime \<Rightarrow> 'o) \<Rightarrow> datetime \<Rightarrow> string option \<Rightarrow> timedelta option
    \<Rightarrow> ('o, 'db, 'u) pg_subscriber_store \<Rightarrow> ('db, subscriber_state list) db_action" where
  "pg_subscriber_list py_str time now subscriber_group max_time_since_last_seen st =
     db_bind (db_return (pg_convert_query (pss_converter st)
       (Search (list_filters time now subscriber_group max_time_since_last_seen) None None))) (\<lambda>query.
     in_connection (pss_connection st)
       (db_bind (cs_execute (pss_connection st) (as_statement query)) (\<lambda>rows.
        db_return (res_map (read_subscriber py_str) rows))))"

subsection \<open>What the store relies on\<close>

type_synonym 'o subscriber_table = "event_subscriber_key \<rightharpoonup> 'o subscriber_row"

definition storable_subscriber :: "subscriber_state \<Rightarrow> bool" where
  "storable_subscriber s \<longleftrightarrow>
     list_all storable_text (ss_id s # ss_group s # ss_node_id s # concat (map identifier_texts (ss_requests s)))"

definition stored_subscriber :: "('o pyval \<Rightarrow> 'o pyval) \<Rightarrow> subscriber_state \<Rightarrow> 'o subscriber_row" where
  "stored_subscriber jsonb s =
     \<lparr>rr_group = ss_group s, rr_id = ss_id s, rr_node_id = ss_node_id s,
      rr_requests = jsonb (identifiers_json (ss_requests s)), rr_last_seen = ss_last_seen s\<rparr>"

definition leaves ::
  "('o, 'db) subscriber_connection \<Rightarrow> ('db \<Rightarrow> 'o subscriber_table) \<Rightarrow> 'o statement \<Rightarrow> 'db
    \<Rightarrow> 'o subscriber_table \<Rightarrow> bool" where
  "leaves conn tb q db after \<longleftrightarrow> (\<exists>db' rs. cs_execute conn q db = (db', Inr rs) \<and> tb db' = after)"

definition list_conditions ::
  "(datetime \<Rightarrow> 'o) \<Rightarrow> datetime \<Rightarrow> string option \<Rightarrow> timedelta option \<Rightarrow> 'o sql_condition list" where
  "list_conditions time now subscriber_group max_time_since_last_seen =
     (case subscriber_group of None \<Rightarrow> [] | Some g \<Rightarrow> [column_equals ''group'' g])
     @ (case max_time_since_last_seen of
        None \<Rightarrow> []
      | Some age \<Rightarrow>
          [Condition (Some (ExprOperand (column ''last_seen'')))
             (Some (ExprOperand (Constant (Plain (QVal (PyObj (time (now - age))))))))
             (Some PG_GREATER_THAN)])"

definition list_ast ::
  "(datetime \<Rightarrow> 'o) \<Rightarrow> datetime \<Rightarrow> string option \<Rightarrow> timedelta option \<Rightarrow> table_settings \<Rightarrow> 'o pg_query" where
  "list_ast time now subscriber_group max_time_since_last_seen settings =
     Query [] None [StarTarget None None] [table_name settings] []
       (list_conditions time now subscriber_group max_time_since_last_seen) [] None None"

definition listable :: "datetime \<Rightarrow> string option \<Rightarrow> timedelta option \<Rightarrow> event_subscriber_key \<Rightarrow> datetime \<Rightarrow> bool" where
  "listable now subscriber_group max_time_since_last_seen key seen \<longleftrightarrow>
     (case subscriber_group of None \<Rightarrow> True | Some g \<Rightarrow> sk_group key = g)
     \<and> (case max_time_since_last_seen of None \<Rightarrow> True | Some age \<Rightarrow> now - age < seen)"

text \<open>The columns of the table with their types, the primary key, and the cells of a row\<close>

datatype 'o cell = TextCell string | TimeCell datetime | JsonCell "'o pyval"

datatype cell_kind = TEXT | TIMESTAMP_WITH_TIME_ZONE | JSONB

fun kind_of :: "'o cell \<Rightarrow> cell_kind" where
  "kind_of (TextCell t) = TEXT"
| "kind_of (TimeCell t) = TIMESTAMP_WITH_TIME_ZONE"
| "kind_of (JsonCell v) = JSONB"

definition subscriber_columns :: "(string \<times> cell_kind) list" where
  "subscriber_columns =
     [(''\"group\"'', TEXT), (''id'', TEXT), (''node_id'', TEXT), (''subscription_requests'', JSONB),
      (''last_seen'', TIMESTAMP_WITH_TIME_ZONE)]"

definition subscriber_primary_key :: "string list" where
  "subscriber_primary_key = [''\"group\"'', ''id'']"

definition get_cell :: "'o subscriber_row \<Rightarrow> string \<Rightarrow> 'o cell option" where
  "get_cell row c =
     map_of [(''\"group\"'', TextCell (rr_group row)), (''id'', TextCell (rr_id row)),
             (''node_id'', TextCell (rr_node_id row)), (''subscription_requests'', JsonCell (rr_requests row)),
             (''last_seen'', TimeCell (rr_last_seen row))] c"

fun put_cell :: "string \<times> 'o cell \<Rightarrow> 'o subscriber_row \<Rightarrow> 'o subscriber_row" where
  "put_cell (c, TextCell t) row =
     (if c = ''\"group\"'' then row\<lparr>rr_group := t\<rparr>
      else if c = ''id'' then row\<lparr>rr_id := t\<rparr>
      else if c = ''node_id'' then row\<lparr>rr_node_id := t\<rparr> else row)"
| "put_cell (c, JsonCell v) row = (if c = ''subscription_requests'' then row\<lparr>rr_requests := v\<rparr> else row)"
| "put_cell (c, TimeCell t) row = (if c = ''last_seen'' then row\<lparr>rr_last_seen := t\<rparr> else row)"

definition blank_row :: "'o subscriber_row" where
  "blank_row = \<lparr>rr_group = [], rr_id = [], rr_node_id = [], rr_requests = PyNone, rr_last_seen = 0\<rparr>"

text \<open>The cell of a parameter, when a column can hold it\<close>

fun cell_of :: "('o pyval \<Rightarrow> 'o pyval) \<Rightarrow> 'o db_value \<Rightarrow> 'o cell option" where
  "cell_of jsonb (DbValue (Plain (QVal (PyStr t)))) = (if storable_text t then Some (TextCell t) else None)"
| "cell_of jsonb (DbValue (Jsonb v)) = (if is_json_value v \<and> storable_json v then Some (JsonCell (jsonb v)) else None)"
| "cell_of jsonb (DbTime t) = Some (TimeCell t)"
| "cell_of jsonb _ = None"

text \<open>Texts are compared for equality only: their order is the collation's.\<close>

fun times_compare :: "comparator \<Rightarrow> datetime \<Rightarrow> datetime \<Rightarrow> bool" where
  "times_compare IS_EQUAL t u = (t = u)"
| "times_compare IS_NOT_EQUAL t u = (t \<noteq> u)"
| "times_compare IS_LESS t u = (t < u)"
| "times_compare IS_LESS_EQUAL t u = (t \<le> u)"
| "times_compare IS_GREATER t u = (t > u)"
| "times_compare IS_GREATER_EQUAL t u = (t \<ge> u)"

fun passes :: "'o subscriber_row \<Rightarrow> column_test \<times> 'o cell \<Rightarrow> bool" where
  "passes row ((c, k), v) =
     (case (get_cell row c, v) of
        (Some (TextCell t), TextCell u) \<Rightarrow> (if k = IS_EQUAL then t = u else t \<noteq> u)
      | (Some (TimeCell t), TimeCell u) \<Rightarrow> times_compare k t u
      | _ \<Rightarrow> False)"

definition holds_cell :: "string \<Rightarrow> 'o cell \<Rightarrow> bool" where
  "holds_cell c v \<longleftrightarrow> map_of subscriber_columns c = Some (kind_of v)"

fun testable :: "column_test \<Rightarrow> 'o cell \<Rightarrow> bool" where
  "testable (c, k) v \<longleftrightarrow> holds_cell c v \<and>
     (case v of TextCell t \<Rightarrow> k = IS_EQUAL \<or> k = IS_NOT_EQUAL | TimeCell t \<Rightarrow> True | JsonCell j \<Rightarrow> False)"

fun well_typed :: "command \<Rightarrow> 'o cell list \<Rightarrow> bool" where
  "well_typed (DeleteFrom t tests) cells = list_all2 testable tests cells"
| "well_typed (UpdateSet t c tests) cells \<longleftrightarrow>
     (case cells of
        [] \<Rightarrow> False
      | v # cells \<Rightarrow> holds_cell c v \<and> c \<notin> set subscriber_primary_key \<and> list_all2 testable tests cells)"
| "well_typed (InsertOrUpdate t columns keys sets) cells \<longleftrightarrow>
     distinct columns \<and> set columns = fst ` set subscriber_columns \<and> keys = subscriber_primary_key
     \<and> distinct sets \<and> set sets \<inter> set subscriber_primary_key = {}
     \<and> list_all2 holds_cell (columns @ sets) cells"

fun command_table :: "command \<Rightarrow> string" where
  "command_table (DeleteFrom t tests) = t"
| "command_table (UpdateSet t c tests) = t"
| "command_table (InsertOrUpdate t columns keys sets) = t"

text \<open>
  What a command does: \<open>DELETE\<close> to the rows that pass its tests, \<open>UPDATE\<close> to a column of those, and
  \<open>INSERT\<close>, when there is a row with the key already, to the columns of that row it sets.
\<close>

definition put_cells :: "string list \<Rightarrow> 'o cell list \<Rightarrow> 'o subscriber_row \<Rightarrow> 'o subscriber_row" where
  "put_cells columns cells row = fold put_cell (zip columns cells) row"

definition passes_all :: "column_test list \<Rightarrow> 'o cell list \<Rightarrow> 'o subscriber_row \<Rightarrow> bool" where
  "passes_all tests cells row \<longleftrightarrow> list_all (passes row) (zip tests cells)"

fun command_effect :: "command \<Rightarrow> 'o cell list \<Rightarrow> 'o subscriber_table \<Rightarrow> 'o subscriber_table" where
  "command_effect (DeleteFrom t tests) cells table =
     (\<lambda>key. Option.bind (table key) (\<lambda>row. if passes_all tests cells row then None else Some row))"
| "command_effect (UpdateSet t c tests) cells table =
     (\<lambda>key. map_option (\<lambda>row. if passes_all tests (tl cells) row then put_cell (c, hd cells) row else row) (table key))"
| "command_effect (InsertOrUpdate t columns keys sets) cells table =
     (let new = put_cells columns (take (length columns) cells) blank_row; key = rr_key new
      in table(key \<mapsto> (case table key of
                        None \<Rightarrow> new
                      | Some row \<Rightarrow> put_cells sets (drop (length columns) cells) row)))"

definition serves_subscribers ::
  "('o, 'db) subscriber_connection \<Rightarrow> table_settings \<Rightarrow> ('db \<Rightarrow> 'o subscriber_table)
    \<Rightarrow> ('o pyval \<Rightarrow> 'o pyval) \<Rightarrow> (datetime \<Rightarrow> 'o) \<Rightarrow> bool" where
  "serves_subscribers conn settings tb jsonb time \<longleftrightarrow>
     keeps_json jsonb \<and>
     (\<forall>db db'. tb (cs_rollback conn db db') = tb db) \<and>
     (\<forall>db key row. tb db key = Some row \<longrightarrow> rr_key row = key) \<and>
     (\<forall>db q params cmd cells. read_command (sql_words q) = Some cmd \<and> command_table cmd = table_name settings
        \<and> map (cell_of jsonb) params = map Some cells \<and> well_typed cmd cells \<longrightarrow>
        leaves conn tb (q, params) db (command_effect cmd cells (tb db))) \<and>
     (\<forall>db now grp age q. pred_option storable_text grp \<and> build (list_ast time now grp age settings) = Inr q \<longrightarrow>
        (\<exists>db' rs. cs_execute conn (as_statement q) db = (db', Inr rs) \<and> tb db' = tb db
           \<and> distinct (map rr_key rs)
           \<and> set rs = {row \<in> ran (tb db). listable now grp age (rr_key row) (rr_last_seen row)}))"

subsection \<open>The registry in the table\<close>

subsection \<open>The statements of the store, read\<close>

lemma insert_read:
  "read_command (sql_words (fst (subscriber_insert_query s settings))) =
     Some (InsertOrUpdate (table_name settings)
       [''\"group\"'', ''id'', ''node_id'', ''subscription_requests'', ''last_seen''] [''\"group\"'', ''id'']
       [''subscription_requests'', ''last_seen''])"
  by (simp add: subscriber_insert_query_def Let_def read_command_defs numeral_eq_Suc)

lemma delete_read:
  "read_command (sql_words (fst (subscriber_delete_query key settings))) =
     Some (DeleteFrom (table_name settings) [(''\"group\"'', IS_EQUAL), (''id'', IS_EQUAL)])"
  by (simp add: subscriber_delete_query_def read_command_defs numeral_eq_Suc)

lemma heartbeat_read:
  "read_command (sql_words (fst (subscriber_heartbeat_query s settings))) =
     Some (UpdateSet (table_name settings) ''last_seen'' [(''\"group\"'', IS_EQUAL), (''id'', IS_EQUAL)])"
  by (simp add: subscriber_heartbeat_query_def read_command_defs numeral_eq_Suc)

lemma purge_read:
  "read_command (sql_words (fst (subscriber_purge_query cutoff settings))) =
     Some (DeleteFrom (table_name settings) [(''last_seen'', IS_LESS_EQUAL)])"
  by (simp add: subscriber_purge_query_def read_command_defs numeral_eq_Suc)

definition upserted :: "('o pyval \<Rightarrow> 'o pyval) \<Rightarrow> subscriber_state \<Rightarrow> 'o subscriber_row option \<Rightarrow> 'o subscriber_row" where
  \<comment> \<open>on a conflict the row keeps its node\<close>
  "upserted jsonb s present =
     (case present of
        None \<Rightarrow> stored_subscriber jsonb s
      | Some row \<Rightarrow> row\<lparr>rr_requests := jsonb (identifiers_json (ss_requests s)), rr_last_seen := ss_last_seen s\<rparr>)"

lemma storable_identifiers:
  assumes "list_all storable_text (concat (map identifier_texts ids))"
  shows "storable_json (identifiers_json ids :: 'o pyval)"
proof -
  have "storable_json (serialise_identifier i :: 'o pyval)" if "i \<in> set ids" for i
  proof -
    have "list_all storable_text (identifier_texts i)" using assms that by (auto simp: list_all_iff)
    moreover have "storable_json (serialise_partition p :: 'o pyval)" if "storable_text (partition_text p)" for p
      using that by (cases p) (simp add: storable_text_def)
    ultimately show ?thesis by (cases i) (auto simp: storable_text_def)
  qed
  then show ?thesis by (simp add: identifiers_json_def list_all_iff)
qed

lemma serves_command:
  assumes "serves_subscribers conn settings tb jsonb time"
    and "read_command (sql_words (fst q)) = Some cmd" "command_table cmd = table_name settings"
    and "map (cell_of jsonb) (snd q) = map Some cells" "well_typed cmd cells"
  shows "leaves conn tb q db (command_effect cmd cells (tb db))"
  using assms unfolding serves_subscribers_def by (cases q) simp

text \<open>What the statements of the store leave of a table\<close>

lemma statement_effects:
  fixes conn :: "('o, 'db) subscriber_connection"
  assumes serves: "serves_subscribers conn settings tb jsonb time" and storable: "storable_subscriber s"
  shows "leaves conn tb (subscriber_insert_query s settings) db
      ((tb db)(ss_key s \<mapsto> upserted jsonb s (tb db (ss_key s))))"
    and "leaves conn tb (subscriber_heartbeat_query s settings) db
      ((tb db)(ss_key s := map_option (\<lambda>row. row\<lparr>rr_last_seen := ss_last_seen s\<rparr>) (tb db (ss_key s))))"
    and "leaves conn tb (subscriber_delete_query (ss_key s) settings) db ((tb db)(ss_key s := None))"
    and "leaves conn tb (subscriber_purge_query cutoff settings) db
      (\<lambda>key. Option.bind (tb db key) (\<lambda>row. if rr_last_seen row \<le> cutoff then None else Some row))"
proof -
  have texts: "storable_text (ss_group s)" "storable_text (ss_id s)" "storable_text (ss_node_id s)"
    "storable_json (identifiers_json (ss_requests s) :: 'o pyval)"
    using storable by (simp_all add: storable_subscriber_def storable_identifiers)
  have keyed: "EventSubscriberKey (rr_group row) (rr_id row) = key" if "tb db key = Some row" for key row
    using that serves unfolding serves_subscribers_def rr_key_def by blast
  let ?json = "JsonCell (jsonb (identifiers_json (ss_requests s)))" and ?seen = "TimeCell (ss_last_seen s)"
  let ?own = "[TextCell (ss_group s), TextCell (ss_id s)]"
  note typed = holds_cell_def subscriber_columns_def subscriber_primary_key_def
  note acts = put_cells_def passes_all_def blank_row_def get_cell_def fun_eq_iff ss_key_def
  have "leaves conn tb (subscriber_insert_query s settings) db (command_effect
      (InsertOrUpdate (table_name settings) [''\"group\"'', ''id'', ''node_id'', ''subscription_requests'', ''last_seen'']
        [''\"group\"'', ''id''] [''subscription_requests'', ''last_seen''])
      (?own @ [TextCell (ss_node_id s), ?json, ?seen, ?json, ?seen]) (tb db))"
    by (rule serves_command [OF serves insert_read])
      (auto simp: subscriber_insert_query_def Let_def texts typed)
  then show "leaves conn tb (subscriber_insert_query s settings) db
      ((tb db)(ss_key s \<mapsto> upserted jsonb s (tb db (ss_key s))))"
    by (simp add: put_cells_def blank_row_def Let_def rr_key_def ss_key_def upserted_def stored_subscriber_def
        cong: option.case_cong)
  have "leaves conn tb (subscriber_heartbeat_query s settings) db (command_effect
      (UpdateSet (table_name settings) ''last_seen'' [(''\"group\"'', IS_EQUAL), (''id'', IS_EQUAL)]) (?seen # ?own) (tb db))"
    by (rule serves_command [OF serves heartbeat_read]) (simp_all add: subscriber_heartbeat_query_def texts typed)
  moreover have "command_effect (UpdateSet (table_name settings) ''last_seen'' [(''\"group\"'', IS_EQUAL), (''id'', IS_EQUAL)])
      (?seen # ?own) (tb db) = (tb db)(ss_key s := map_option (\<lambda>row. row\<lparr>rr_last_seen := ss_last_seen s\<rparr>) (tb db (ss_key s)))"
  proof
    fix key
    show "command_effect (UpdateSet (table_name settings) ''last_seen'' [(''\"group\"'', IS_EQUAL), (''id'', IS_EQUAL)])
        (?seen # ?own) (tb db) key
      = ((tb db)(ss_key s := map_option (\<lambda>row. row\<lparr>rr_last_seen := ss_last_seen s\<rparr>) (tb db (ss_key s)))) key"
      using keyed [of key] by (cases "tb db key") (auto simp: acts)
  qed
  ultimately show "leaves conn tb (subscriber_heartbeat_query s settings) db
      ((tb db)(ss_key s := map_option (\<lambda>row. row\<lparr>rr_last_seen := ss_last_seen s\<rparr>) (tb db (ss_key s))))" by simp
  have "leaves conn tb (subscriber_delete_query (ss_key s) settings) db (command_effect
      (DeleteFrom (table_name settings) [(''\"group\"'', IS_EQUAL), (''id'', IS_EQUAL)]) ?own (tb db))"
    by (rule serves_command [OF serves delete_read]) (simp_all add: subscriber_delete_query_def ss_key_def texts typed)
  moreover have "command_effect (DeleteFrom (table_name settings) [(''\"group\"'', IS_EQUAL), (''id'', IS_EQUAL)]) ?own (tb db)
      = (tb db)(ss_key s := None)"
  proof
    fix key
    show "command_effect (DeleteFrom (table_name settings) [(''\"group\"'', IS_EQUAL), (''id'', IS_EQUAL)]) ?own (tb db) key
      = ((tb db)(ss_key s := None)) key"
      using keyed [of key] by (cases "tb db key") (auto simp: acts)
  qed
  ultimately show "leaves conn tb (subscriber_delete_query (ss_key s) settings) db ((tb db)(ss_key s := None))" by simp
  have "leaves conn tb (subscriber_purge_query cutoff settings) db (command_effect
      (DeleteFrom (table_name settings) [(''last_seen'', IS_LESS_EQUAL)]) [TimeCell cutoff] (tb db))"
    by (rule serves_command [OF serves purge_read]) (simp_all add: subscriber_purge_query_def typed)
  then show "leaves conn tb (subscriber_purge_query cutoff settings) db
      (\<lambda>key. Option.bind (tb db key) (\<lambda>row. if rr_last_seen row \<le> cutoff then None else Some row))"
    by (simp add: passes_all_def get_cell_def)
qed

type_synonym subscriber_registry = "event_subscriber_key \<rightharpoonup> event_source_identifier list \<times> datetime"

definition holds_registry ::
  "('db \<Rightarrow> 'o subscriber_table) \<Rightarrow> ('o pyval \<Rightarrow> 'o pyval) \<Rightarrow> 'db \<Rightarrow> subscriber_registry \<Rightarrow> bool" where
  "holds_registry tb jsonb db reg \<longleftrightarrow>
     (\<forall>key. map_option (\<lambda>row. (rr_requests row, rr_last_seen row)) (tb db key)
          = map_option (map_prod (\<lambda>requests. jsonb (identifiers_json requests)) id) (reg key))"

lemma registry_None: "holds_registry tb jsonb db reg \<Longrightarrow> tb db key = None \<longleftrightarrow> reg key = None"
  by (drule holds_registry_def [THEN iffD1, rule_format, of _ _ _ _ key]) (cases "tb db key"; cases "reg key"; auto)

lemma registry_row:
  "holds_registry tb jsonb db reg \<Longrightarrow> tb db key = Some row
    \<Longrightarrow> \<exists>requests. reg key = Some (requests, rr_last_seen row) \<and> rr_requests row = jsonb (identifiers_json requests)"
  by (drule holds_registry_def [THEN iffD1, rule_format, of _ _ _ _ key]) (cases "reg key"; auto)

lemma registry_entry:
  "holds_registry tb jsonb db reg \<Longrightarrow> reg key = Some (requests, seen)
    \<Longrightarrow> \<exists>row. tb db key = Some row \<and> rr_requests row = jsonb (identifiers_json requests) \<and> rr_last_seen row = seen"
  by (drule holds_registry_def [THEN iffD1, rule_format, of _ _ _ _ key]) (cases "tb db key"; auto)

lemma upserted_sel [simp]:
  "rr_requests (upserted jsonb s present) = jsonb (identifiers_json (ss_requests s))"
  "rr_last_seen (upserted jsonb s present) = ss_last_seen s"
  by (simp_all add: upserted_def stored_subscriber_def split: option.split)

text \<open>A statement of the store that leaves a table: the state it is run in, and the state after\<close>

lemma run_leaves:
  "leaves conn tb q db after \<Longrightarrow> \<exists>db'. run_statement conn q db = (db', Inr ()) \<and> tb db' = after"
  by (auto simp: leaves_def run_statement_def in_connection_def db_bind_def db_return_def)

lemma filter_seen:
  "filter_applier ser default_operators GREATER_THAN (Path ''last_seen'' []) (QVal (PyObj x)) query
     = Inr (where_query [Condition (Some (ExprOperand (column ''last_seen'')))
         (Some (ExprOperand (Constant (Plain (QVal (PyObj x)))))) (Some PG_GREATER_THAN)] query)"
  by (simp add: filter_applier_def filter_operator_def default_operators_def filter_value_def
      value_for_path_def has_value_def expression_for_path_def is_nested_def with_left_def with_right_def
      with_operator_def clone_condition_def empty_condition_def no_condition_params_def)

lemma list_query_built:
  "pg_convert_query (store_converter ser hashable settings) (Search (list_filters time now grp age) None None)
     = build (list_ast time now grp age settings)"
  by (cases grp; cases age)
    (simp_all add: store_converter_search list_filters_def store_converter_filter list_ast_def
      list_conditions_def base_query_ast filter_text filter_seen)

lemma list_ast_builds: "\<exists>q. build (list_ast time now grp age settings) = Inr q"
proof -
  have "query_ok (list_ast time now grp age settings)"
    by (auto simp: list_ast_def list_conditions_def column_ok_def column_equals_def with_left_def
        with_right_def with_operator_def clone_condition_def empty_condition_def no_condition_params_def
        split: option.split)
  then show ?thesis using build_renderable by blast
qed

lemma pg_subscriber_listed:
  fixes st :: "('o, 'db, 'u) pg_subscriber_store"
  assumes "serves_subscribers (pss_connection st) (pss_table st) tb jsonb time"
    and "pss_converter st = store_converter ser hashable (pss_table st)"
    and "holds_registry tb jsonb db reg" and "pred_option storable_text grp"
    and "selected = {key. \<exists>requests seen. reg key = Some (requests, seen) \<and> listable now grp age key seen}"
  shows "\<exists>db' listed. pg_subscriber_list py_str time now grp age st db = (db', listed) \<and> tb db' = tb db
    \<and> (if \<forall>key \<in> selected. list_all is_event_sequence_identifier (fst (the (reg key)))
       then \<exists>ys. listed = Inr ys \<and> distinct (map ss_key ys) \<and> ss_key ` set ys = selected
            \<and> (\<forall>y \<in> set ys. reg (ss_key y) = Some (ss_requests y, ss_last_seen y))
       else listed = Inl (ValueError ''Invalid serialised event sequence identifier.''))"
proof -
  note serves = assms(1) [unfolded serves_subscribers_def]
  obtain q where q: "build (list_ast time now grp age (pss_table st)) = Inr (q :: sql \<times> 'o sql_value list)"
    using list_ast_builds by blast
  then obtain db' rs where rs: "cs_execute (pss_connection st) (as_statement q) db = (db', Inr rs)"
    "tb db' = tb db" "distinct (map rr_key rs)"
    "set rs = {row \<in> ran (tb db). listable now grp age (rr_key row) (rr_last_seen row)}"
    using serves assms(4) by blast
  have json: "keeps_json jsonb" using serves by blast
  have keys: "tb db key = Some row \<Longrightarrow> rr_key row = key" for key row using serves by blast
  let ?of = "\<lambda>row. fst (the (reg (rr_key row)))"
  let ?g = "\<lambda>row. \<lparr>ss_group = rr_group row, ss_id = rr_id row, ss_node_id = rr_node_id row,
    ss_requests = ?of row, ss_last_seen = rr_last_seen row\<rparr>"
  have held: "reg (rr_key row) = Some (?of row, rr_last_seen row)"
      "rr_requests row = jsonb (identifiers_json (?of row))"
      "listable now grp age (rr_key row) (rr_last_seen row)" if row: "row \<in> set rs" for row
  proof -
    obtain key where "tb db key = Some row" using row unfolding rs(4) ran_def by blast
    then have "tb db (rr_key row) = Some row" using keys by blast
    from registry_row [OF assms(3) this] row rs(4)
    show "reg (rr_key row) = Some (?of row, rr_last_seen row)" "rr_requests row = jsonb (identifiers_json (?of row))"
      "listable now grp age (rr_key row) (rr_last_seen row)" by auto
  qed
  have read: "res_map (read_subscriber py_str) rs =
      (if list_all (\<lambda>row. list_all is_event_sequence_identifier (?of row)) rs then Inr (map ?g rs)
       else Inl (ValueError ''Invalid serialised event sequence identifier.''))"
    by (rule res_map_uniform) (simp add: read_subscriber_def held(2) read_stored_identifiers [OF json])
  have selected: "rr_key ` set rs = selected"
  proof
    show "rr_key ` set rs \<subseteq> selected" unfolding assms(5) using held(1,3) by blast
    show "selected \<subseteq> rr_key ` set rs"
    proof
      fix key assume "key \<in> selected"
      then obtain requests seen where at: "reg key = Some (requests, seen)" "listable now grp age key seen"
        by (auto simp: assms(5))
      from registry_entry [OF assms(3) at(1)] obtain row where "tb db key = Some row" "rr_last_seen row = seen" by blast
      with keys at(2) show "key \<in> rr_key ` set rs" by (auto simp: rs(4) intro!: image_eqI [of _ _ row] ranI)
    qed
  qed
  have all: "list_all (\<lambda>row. list_all is_event_sequence_identifier (?of row)) rs
      \<longleftrightarrow> (\<forall>key \<in> selected. list_all is_event_sequence_identifier (fst (the (reg key))))"
    by (simp add: list_all_iff flip: selected)
  have listed: "pg_subscriber_list py_str time now grp age st db
      = (case res_map (read_subscriber py_str) rs of
           Inl e \<Rightarrow> (cs_rollback (pss_connection st) db db', Inl e) | Inr ys \<Rightarrow> (db', Inr ys))"
    using q rs(1) by (simp add: pg_subscriber_list_def assms(2) list_query_built db_bind_def
        db_return_def in_connection_def split: sum.split)
  have names: "map ss_key (map ?g rs) = map rr_key rs" by (simp add: ss_key_def rr_key_def)
  show ?thesis
  proof (cases "\<forall>key \<in> selected. list_all is_event_sequence_identifier (fst (the (reg key)))")
    case True
    then have "pg_subscriber_list py_str time now grp age st db = (db', Inr (map ?g rs))" using all listed read by simp
    moreover have "ss_key ` set (map ?g rs) = selected"
      using arg_cong [OF names, of set] selected by (simp add: image_image)
    moreover have "\<forall>y \<in> set (map ?g rs). reg (ss_key y) = Some (ss_requests y, ss_last_seen y)"
      using held(1) by (auto simp: ss_key_def rr_key_def)
    ultimately show ?thesis using True rs(2,3) names by (auto simp del: map_map set_map)
  next
    case False
    then have "pg_subscriber_list py_str time now grp age st db = (cs_rollback (pss_connection st) db db',
        Inl (ValueError ''Invalid serialised event sequence identifier.''))" using all listed read by simp
    moreover have "tb (cs_rollback (pss_connection st) db db') = tb db" using serves by blast
    ultimately show ?thesis using False by auto
  qed
qed

lemma holds_after:
  assumes "holds_registry tb jsonb db reg" and "tb db' = (tb db)(key := row)"
    and "map_option (\<lambda>row. (rr_requests row, rr_last_seen row)) row
      = map_option (map_prod (\<lambda>requests. jsonb (identifiers_json requests)) id) entry"
  shows "holds_registry tb jsonb db' (reg(key := entry))"
  using assms by (simp add: holds_registry_def)

lemma holds_heartbeat:
  assumes "holds_registry tb jsonb db reg"
    and "tb db' = (tb db)(key := map_option (\<lambda>row. row\<lparr>rr_last_seen := now\<rparr>) (tb db key))"
  shows "holds_registry tb jsonb db' (reg(key := map_option (\<lambda>(requests, _). (requests, now)) (reg key)))"
proof (rule holds_after [OF assms])
  show "map_option (\<lambda>row. (rr_requests row, rr_last_seen row)) (map_option (\<lambda>row. row\<lparr>rr_last_seen := now\<rparr>) (tb db key))
      = map_option (map_prod (\<lambda>requests. jsonb (identifiers_json requests)) id)
          (map_option (\<lambda>(requests, _). (requests, now)) (reg key))"
  proof (cases "tb db key")
    case None
    then have "reg key = None" using registry_None [OF assms(1)] by blast
    then show ?thesis using None by simp
  next
    case (Some row)
    then show ?thesis using registry_row [OF assms(1) Some] by auto
  qed
qed

lemma holds_purge:
  assumes "holds_registry tb jsonb db reg"
    and "tb db' = (\<lambda>key. Option.bind (tb db key) (\<lambda>row. if rr_last_seen row \<le> cutoff then None else Some row))"
  shows "holds_registry tb jsonb db'
    (\<lambda>key. Option.bind (reg key) (\<lambda>(requests, seen). if seen \<le> cutoff then None else Some (requests, seen)))"
  unfolding holds_registry_def
proof
  fix key
  show "map_option (\<lambda>row. (rr_requests row, rr_last_seen row)) (tb db' key)
      = map_option (map_prod (\<lambda>requests. jsonb (identifiers_json requests)) id)
          (Option.bind (reg key) (\<lambda>(requests, seen). if seen \<le> cutoff then None else Some (requests, seen)))"
  proof (cases "tb db key")
    case None
    then have "reg key = None" using registry_None [OF assms(1)] by blast
    then show ?thesis using None by (simp add: assms(2))
  next
    case (Some row)
    then show ?thesis using registry_row [OF assms(1) Some] by (auto simp: assms(2))
  qed
qed

subsection \<open>The registry the store implements\<close>

text \<open>
  C36. The table of subscribers is a registry of keys with the requests and the time last seen.
  Adding a subscriber registers its requests as seen now; a heartbeat changes only the time, and
  nothing for a key that is not registered; removing unregisters the key; purging unregisters
  exactly the keys not seen within the age. Listing, by group and age or not, returns each
  registered key of the group that was seen within the age once, with its requests and time, unless
  one of them requested a partition: then it raises \<open>ValueError\<close>.
\<close>

theorem postgres_subscribers_registry:
  fixes st :: "('o, 'db, 'u) pg_subscriber_store"
  assumes "serves_subscribers (pss_connection st) (pss_table st) tb jsonb time"
    and "pss_converter st = store_converter ser hashable (pss_table st)"
    and "holds_registry tb jsonb db reg"
    and "storable_subscriber (seen_now now (pss_node_id st) s)" and "pred_option storable_text grp"
  shows "(\<exists>db'. pg_subscriber_add now s st db = (db', Inr ())
      \<and> holds_registry tb jsonb db' (reg(sb_key s \<mapsto> (sb_requests s, now))))
    \<and> (\<exists>db'. pg_subscriber_heartbeat now s st db = (db', Inr ())
      \<and> holds_registry tb jsonb db'
          (reg(sb_key s := map_option (\<lambda>(requests, _). (requests, now)) (reg (sb_key s)))))
    \<and> (\<exists>db'. pg_subscriber_remove s st db = (db', Inr ())
      \<and> holds_registry tb jsonb db' (reg(sb_key s := None)))
    \<and> (\<exists>db'. pg_subscriber_purge now age st db = (db', Inr ())
      \<and> holds_registry tb jsonb db' (\<lambda>key. Option.bind (reg key) (\<lambda>(requests, seen).
           if seen \<le> now - age then None else Some (requests, seen))))
    \<and> (let selected = {key. \<exists>requests seen. reg key = Some (requests, seen)
             \<and> listable now grp max_age key seen}
       in \<exists>db' listed. pg_subscriber_list py_str time now grp max_age st db = (db', listed)
          \<and> tb db' = tb db
          \<and> (if \<forall>key \<in> selected. list_all is_event_sequence_identifier (fst (the (reg key)))
             then \<exists>ys. listed = Inr ys \<and> distinct (map ss_key ys) \<and> ss_key ` set ys = selected
                  \<and> (\<forall>y \<in> set ys. reg (ss_key y) = Some (ss_requests y, ss_last_seen y))
             else listed = Inl (ValueError ''Invalid serialised event sequence identifier.'')))"
proof -
  let ?s = "seen_now now (pss_node_id st) s"
  have statements:
    "leaves (pss_connection st) tb (subscriber_insert_query ?s (pss_table st)) db
       ((tb db)(sb_key s \<mapsto> upserted jsonb ?s (tb db (sb_key s))))"
    "leaves (pss_connection st) tb (subscriber_heartbeat_query ?s (pss_table st)) db
       ((tb db)(sb_key s := map_option (\<lambda>row. row\<lparr>rr_last_seen := now\<rparr>) (tb db (sb_key s))))"
    "leaves (pss_connection st) tb (subscriber_delete_query (sb_key s) (pss_table st)) db ((tb db)(sb_key s := None))"
    "leaves (pss_connection st) tb (subscriber_purge_query (now - age) (pss_table st)) db
       (\<lambda>key. Option.bind (tb db key) (\<lambda>row. if rr_last_seen row \<le> now - age then None else Some row))"
    using statement_effects [OF assms(1,4)] by simp_all
  show ?thesis
  proof (intro conjI)
    show "\<exists>db'. pg_subscriber_add now s st db = (db', Inr ())
        \<and> holds_registry tb jsonb db' (reg(sb_key s \<mapsto> (sb_requests s, now)))"
      using run_leaves [OF statements(1)] by (auto simp: pg_subscriber_add_def intro!: holds_after [OF assms(3)])
    show "\<exists>db'. pg_subscriber_heartbeat now s st db = (db', Inr ()) \<and> holds_registry tb jsonb db'
        (reg(sb_key s := map_option (\<lambda>(requests, _). (requests, now)) (reg (sb_key s))))"
      using run_leaves [OF statements(2)] by (auto simp: pg_subscriber_heartbeat_def intro!: holds_heartbeat [OF assms(3)])
    show "\<exists>db'. pg_subscriber_remove s st db = (db', Inr ()) \<and> holds_registry tb jsonb db' (reg(sb_key s := None))"
      using run_leaves [OF statements(3)] by (auto simp: pg_subscriber_remove_def intro!: holds_after [OF assms(3)])
    show "\<exists>db'. pg_subscriber_purge now age st db = (db', Inr ())
      \<and> holds_registry tb jsonb db' (\<lambda>key. Option.bind (reg key) (\<lambda>(requests, seen).
           if seen \<le> now - age then None else Some (requests, seen)))"
      using run_leaves [OF statements(4)] by (auto simp: pg_subscriber_purge_def intro!: holds_purge [OF assms(3)])
  qed (unfold Let_def, rule pg_subscriber_listed [OF assms(1,2,3,5) refl])
qed

subsection \<open>A server for the statements\<close>

text \<open>A table as a list of rows, of which the first with a key is the one in force.\<close>

definition subscribers_of :: "'o subscriber_row list \<Rightarrow> 'o subscriber_table" where
  "subscribers_of rows key = find (\<lambda>row. rr_key row = key) rows"

fun value_text :: "'o db_value \<Rightarrow> string option" where
  "value_text (DbValue (Plain (QVal (PyStr s)))) = Some s"
| "value_text _ = None"

fun value_object :: "'o db_value \<Rightarrow> 'o option" where
  "value_object (DbValue (Plain (QVal (PyObj x)))) = Some x"
| "value_object _ = None"

definition restrict_rows :: "('o subscriber_row \<Rightarrow> bool) \<Rightarrow> 'o subscriber_row list \<Rightarrow> 'o subscriber_row list" where
  "restrict_rows P rows = filter P (remdups (filter (\<lambda>row. subscribers_of rows (rr_key row) = Some row) rows))"

fun run_command :: "command \<Rightarrow> 'o cell list \<Rightarrow> 'o subscriber_row list \<Rightarrow> 'o subscriber_row list" where
  "run_command (DeleteFrom t tests) cells rows = restrict_rows (\<lambda>row. \<not> passes_all tests cells row) rows"
| "run_command (UpdateSet t c tests) cells rows =
     map (\<lambda>row. if passes_all tests (tl cells) row then put_cell (c, hd cells) row else row)
       (restrict_rows (\<lambda>row. True) rows)"
| "run_command (InsertOrUpdate t columns keys sets) cells rows =
     (let new = put_cells columns (take (length columns) cells) blank_row
      in (case subscribers_of rows (rr_key new) of
            None \<Rightarrow> new
          | Some row \<Rightarrow> put_cells sets (drop (length columns) cells) row) # rows)"

definition subscribers_execute :: "int statement \<Rightarrow> (int subscriber_row list, int subscriber_row list) db_action" where
  "subscribers_execute q rows =
     (case read_command (sql_words (fst q)) of
        Some cmd \<Rightarrow> (run_command cmd (map (\<lambda>p. the (cell_of (\<lambda>v. v) p)) (snd q)) rows, Inr [])
      | None \<Rightarrow> (rows, Inr (restrict_rows (\<lambda>row.
                 list_all (\<lambda>p. pred_option (\<lambda>g. rr_group row = g) (value_text p)
                              \<and> pred_option (\<lambda>t. t < rr_last_seen row) (value_object p)) (snd q)) rows)))"

definition subscribers_connection :: "(int, int subscriber_row list) subscriber_connection" where
  "subscribers_connection =
     \<lparr>cs_execute = subscribers_execute, cs_rollback = (\<lambda>before after. before), cs_unique_violation = (\<lambda>_. False)\<rparr>"

lemma subscribers_of_Cons: "subscribers_of (row # rows) = (subscribers_of rows)(rr_key row \<mapsto> row)"
  by (auto simp: subscribers_of_def fun_eq_iff)

lemma subscribers_of_without:
  "subscribers_of (filter (\<lambda>row. rr_key row \<noteq> key) rows) = (subscribers_of rows)(key := None)"
  by (induction rows) (auto simp: subscribers_of_def fun_eq_iff)

lemma subscribers_of_key: "subscribers_of rows key = Some row \<Longrightarrow> row \<in> set rows \<and> rr_key row = key"
  by (auto simp: subscribers_of_def find_Some_iff)

lemma restrict_rows_set:
  "set (restrict_rows P rows) = {row \<in> ran (subscribers_of rows). P row}"
  "distinct (map rr_key (restrict_rows P rows))"
proof -
  have in_force: "row \<in> set rows \<and> subscribers_of rows (rr_key row) = Some row \<longleftrightarrow> row \<in> ran (subscribers_of rows)" for row
    using subscribers_of_key [of rows _ row] unfolding ran_def by auto
  show "set (restrict_rows P rows) = {row \<in> ran (subscribers_of rows). P row}"
    using in_force by (auto simp: restrict_rows_def)
  have "inj_on rr_key (set (restrict_rows P rows))"
  proof (rule inj_onI)
    fix a b assume "a \<in> set (restrict_rows P rows)" "b \<in> set (restrict_rows P rows)" "rr_key a = rr_key b"
    then have "Some a = subscribers_of rows (rr_key b)" "subscribers_of rows (rr_key b) = Some b"
      by (simp_all add: restrict_rows_def)
    then show "a = b" by simp
  qed
  then show "distinct (map rr_key (restrict_rows P rows))" by (simp add: distinct_map restrict_rows_def)
qed

lemma restrict_rows_table:
  "subscribers_of (restrict_rows P rows) = (\<lambda>key. Option.bind (subscribers_of rows key) (\<lambda>row. if P row then Some row else None))"
proof
  fix key
  show "subscribers_of (restrict_rows P rows) key = Option.bind (subscribers_of rows key) (\<lambda>row. if P row then Some row else None)"
  proof (cases "\<exists>row. subscribers_of rows key = Some row \<and> P row")
    case True
    then obtain row where row: "subscribers_of rows key = Some row" "P row" by blast
    then have "row \<in> set (restrict_rows P rows)" by (auto simp: restrict_rows_set(1) intro: ranI)
    then have "subscribers_of (restrict_rows P rows) (rr_key row) = Some row"
      using find_distinct [OF restrict_rows_set(2)] by (simp add: subscribers_of_def)
    then show ?thesis using row subscribers_of_key by force
  next
    case False
    have "subscribers_of (restrict_rows P rows) key = None"
    proof (rule ccontr)
      assume "subscribers_of (restrict_rows P rows) key \<noteq> None"
      then obtain row where "subscribers_of (restrict_rows P rows) key = Some row" by blast
      from subscribers_of_key [OF this] have "P row" "subscribers_of rows key = Some row"
        by (auto simp: restrict_rows_def)
      then show False using False by blast
    qed
    then show ?thesis using False by (cases "subscribers_of rows key") auto
  qed
qed

lemma list_ast_params:
  fixes q :: "sql \<times> 'o sql_value list"
  assumes "build (list_ast time now grp age settings) = Inr q"
  shows "snd q = (case grp of None \<Rightarrow> [] | Some g \<Rightarrow> [Plain (QVal (PyStr g))])
    @ (case age of None \<Rightarrow> [] | Some a \<Rightarrow> [Plain (QVal (PyObj (time (now - a))))])"
proof -
  have "query_ok (list_ast time now grp age settings)"
    by (auto simp: list_ast_def list_conditions_def column_ok_def column_equals_def with_left_def
        with_right_def with_operator_def clone_condition_def empty_condition_def no_condition_params_def
        split: option.split)
  from build_renderable [OF this] obtain s
    where "build (list_ast time now grp age settings) = Inr (s, bound_values (inline_query (list_ast time now grp age settings)))"
    by blast
  then have "q = (s, bound_values (inline_query (list_ast time now grp age settings)))" using assms by simp
  then show ?thesis
    by (auto simp: list_ast_def list_conditions_def column_equals_def with_left_def
        with_right_def with_operator_def clone_condition_def empty_condition_def no_condition_params_def
        query_tokens_def column_tokens_def keyword_list_def split: option.split)
qed

lemma list_ast_read:
  fixes q :: "sql \<times> 'o sql_value list"
  assumes "build (list_ast time now grp age settings) = Inr q"
  shows "read_command (sql_words (fst q)) = None"
proof -
  have "\<exists>rest params. build (list_ast time now grp age settings :: 'o pg_query) = Inr (SQL ''SELECT '' # rest, params)"
    by (cases grp; cases age)
      (simp_all add: list_ast_def list_conditions_def column_equals_def with_left_def with_right_def with_operator_def
        clone_condition_def empty_condition_def no_condition_params_def build_def query_to_fragment.simps
        query_result_def condition_result_def condition_fragment_def res_all_def res_named_def res_union_def
        column_fragment_def common_table_expressions_fragment_def union_fragment_def select_fragment_def
        from_fragment_def where_fragment_def order_by_fragment_def limit_fragment_def offset_fragment_def
        query_fragment_def sortby_fragment_def map_filter_simps)
  then show ?thesis using assms by (auto simp: read_command_defs)
qed

lemma listed_rows:
  assumes "build (list_ast (\<lambda>t. t) now grp age settings) = Inr q"
  shows "subscribers_execute (as_statement q) rows
    = (rows, Inr (restrict_rows (\<lambda>row. listable now grp age (rr_key row) (rr_last_seen row)) rows))"
  using list_ast_params [OF assms] list_ast_read [OF assms]
  by (cases grp; cases age) (simp_all add: subscribers_execute_def as_statement_def listable_def rr_key_def)

lemma put_cell_key: "c \<notin> set subscriber_primary_key \<Longrightarrow> rr_key (put_cell (c, v) row) = rr_key row"
  by (cases v) (auto simp: subscriber_primary_key_def rr_key_def)

lemma put_cells_key:
  "set columns \<inter> set subscriber_primary_key = {} \<Longrightarrow> rr_key (put_cells columns cells row) = rr_key row"
proof (induction columns arbitrary: cells row)
  case (Cons c columns)
  then show ?case by (cases cells) (auto simp: put_cells_def put_cell_key)
qed (simp add: put_cells_def)

lemma subscribers_of_map:
  "(\<And>row. rr_key (f row) = rr_key row) \<Longrightarrow> subscribers_of (map f rows) key = map_option f (subscribers_of rows key)"
  by (induction rows) (simp_all add: subscribers_of_def)

lemma run_command_table:
  assumes "well_typed cmd cells"
  shows "subscribers_of (run_command cmd cells rows) = command_effect cmd cells (subscribers_of rows)"
proof (cases cmd)
  case (DeleteFrom t tests)
  then show ?thesis by (auto simp: restrict_rows_table fun_eq_iff split: bind_splits)
next
  case (UpdateSet t c tests)
  then have "rr_key (if passes_all tests (tl cells) row then put_cell (c, hd cells) row else row) = rr_key row" for row
    using assms put_cell_key by (auto split: list.splits)
  then show ?thesis by (simp add: UpdateSet subscribers_of_map restrict_rows_table fun_eq_iff)
next
  case (InsertOrUpdate t columns keys sets)
  have "rr_key (put_cells sets new row) = key" if "subscribers_of rows key = Some row" for new row key
    using assms InsertOrUpdate subscribers_of_key [OF that] by (auto simp: put_cells_key)
  then show ?thesis
    by (simp add: InsertOrUpdate Let_def subscribers_of_Cons fun_eq_iff split: option.split)
qed

lemma subscribers_connection_serves:
  "serves_subscribers subscribers_connection settings subscribers_of (\<lambda>v. v) (\<lambda>t. t)"
proof -
  have command: "leaves subscribers_connection subscribers_of (q, params) db (command_effect cmd cells (subscribers_of db))"
    if "read_command (sql_words q) = Some cmd \<and> command_table cmd = table_name settings
      \<and> map (cell_of (\<lambda>v. v)) params = map Some cells \<and> well_typed cmd cells" for db q params cmd cells
  proof -
    have "map (\<lambda>p. the (cell_of (\<lambda>v. v) p)) params = map the (map (cell_of (\<lambda>v. v)) params)" by simp
    also have "\<dots> = cells" using that by (simp add: comp_def)
    finally show ?thesis
      using that by (simp add: leaves_def subscribers_connection_def subscribers_execute_def run_command_table)
  qed
  have list: "\<exists>db' rs. subscribers_execute (as_statement q) db = (db', Inr rs)
      \<and> subscribers_of db' = subscribers_of db \<and> distinct (map rr_key rs)
      \<and> set rs = {row \<in> ran (subscribers_of db). listable now grp age (rr_key row) (rr_last_seen row)}"
    if "build (list_ast (\<lambda>t. t) now grp age settings) = Inr q" for db now grp age q
    using listed_rows [OF that] restrict_rows_set
    by (intro exI [of _ db] exI conjI) auto
  show ?thesis
    unfolding serves_subscribers_def
    by (intro conjI allI impI command)
      (auto simp: keeps_json_def subscribers_connection_def dest: subscribers_of_key
        intro: list)
qed

definition sample_pg_subscribers :: "(int, int subscriber_row list, unit) pg_subscriber_store" where
  "sample_pg_subscribers = new_pg_subscriber_store (\<lambda>_. None) (\<lambda>_. True) ''n'' subscribers_connection None None"

theorem postgres_subscribers_registry_witness:
  "\<exists>db1 db2 ys db3.
     pg_subscriber_add 10 \<lparr>sb_group = ''g'', sb_id = ''a'', sb_requests = [LogIdentifier]\<rparr> sample_pg_subscribers [] = (db1, Inr ())
     \<and> pg_subscriber_list (\<lambda>_. []) (\<lambda>t. t) 12 (Some ''g'') (Some 5) sample_pg_subscribers db1 = (db2, Inr ys)
     \<and> map ss_key ys = [EventSubscriberKey ''g'' ''a'']
     \<and> pg_subscriber_purge 20 10 sample_pg_subscribers db1 = (db3, Inr ())
     \<and> holds_registry subscribers_of (\<lambda>v. v) db3 Map.empty"
proof -
  let ?a = "\<lparr>sb_group = ''g'', sb_id = ''a'', sb_requests = [LogIdentifier]\<rparr>"
  let ?key = "EventSubscriberKey ''g'' ''a''"
  have store: "serves_subscribers (pss_connection sample_pg_subscribers) (pss_table sample_pg_subscribers)
      subscribers_of (\<lambda>v. v) (\<lambda>t. t)"
    "pss_converter sample_pg_subscribers = store_converter (\<lambda>_. None) (\<lambda>_. True) (pss_table sample_pg_subscribers)"
    by (simp_all add: sample_pg_subscribers_def new_pg_subscriber_store_def Let_def subscribers_connection_serves)
  have storable: "storable_subscriber (seen_now now (pss_node_id sample_pg_subscribers) ?a)" for now
    by (simp add: storable_subscriber_def storable_text_def seen_now_def sample_pg_subscribers_def
        new_pg_subscriber_store_def Let_def)
  have empty: "holds_registry subscribers_of (\<lambda>v. v) ([] :: int subscriber_row list) Map.empty"
    by (simp add: holds_registry_def subscribers_of_def)
  have grp: "pred_option storable_text (Some ''g'')" by (simp add: storable_text_def)
  note registry = postgres_subscribers_registry [OF store _ storable grp]
  have key: "sb_key ?a = ?key" by (simp add: sb_key_def)
  obtain db1 where add: "pg_subscriber_add 10 ?a sample_pg_subscribers [] = (db1, Inr ())"
    "holds_registry subscribers_of (\<lambda>v. v) db1 [?key \<mapsto> ([LogIdentifier], 10)]"
    using registry [OF empty, of 10, THEN conjunct1] by (auto simp: key)
  note rest = registry [OF add(2), unfolded Let_def, THEN conjunct2, THEN conjunct2, THEN conjunct2]
  have selected: "{key. \<exists>requests seen. [?key \<mapsto> ([LogIdentifier], 10)] key = Some (requests, seen)
      \<and> listable 12 (Some ''g'') (Some 5) key seen} = {?key}"
    by (auto simp: listable_def split: if_splits)
  obtain db2 ys where list: "pg_subscriber_list (\<lambda>_. []) (\<lambda>t. t) 12 (Some ''g'') (Some 5) sample_pg_subscribers db1 = (db2, Inr ys)"
    "distinct (map ss_key ys)" "ss_key ` set ys = {?key}"
    using rest [of 12, THEN conjunct2, of "\<lambda>_. []" "Some 5"] unfolding selected
    by (auto simp: is_event_sequence_identifier_def)
  obtain db3 where purge: "pg_subscriber_purge 20 10 sample_pg_subscribers db1 = (db3, Inr ())"
    "holds_registry subscribers_of (\<lambda>v. v) db3 Map.empty"
  proof -
    have gone: "(\<lambda>key. Option.bind ([?key \<mapsto> ([LogIdentifier], 10)] key) (\<lambda>(requests, seen).
        if seen \<le> 20 - (10 :: int) then None else Some (requests, seen))) = Map.empty"
      by (auto simp: fun_eq_iff)
    show ?thesis using rest [of 20 10, THEN conjunct1] that unfolding gone by blast
  qed
  have "map ss_key ys = [?key]"
  proof -
    have "length ys = 1" using list(2,3) distinct_card [OF list(2)] by simp
    then show ?thesis using list(3) by (auto simp: length_Suc_conv)
  qed
  with add(1) list(1) purge show ?thesis by (intro exI conjI)
qed

end
