(* ===== verification/Postgres_Projections.thy ===== *)
theory Postgres_Projections
  imports Postgres_Subscriptions Projections
begin

section \<open>Projections in Postgres\<close>

text \<open>
  Models \<open>projection/store/adapters/postgres.py\<close>, and saving and loading by a projection store
  over it. The meaning of the statements on the table of \<open>sql/create_projections_table.sql\<close> is
  \<open>serves_projections\<close>.
\<close>

subsection \<open>Statements\<close>

record 'o projection_row =
  jr_id :: string
  jr_name :: string
  jr_source :: "'o pyval"
  jr_state :: "'o pyval"
  jr_metadata :: "'o pyval"

definition jr_key :: "'o projection_row \<Rightarrow> string \<times> string" where
  "jr_key row = (jr_name row, jr_id row)"

definition projection_insert_query :: "'o projection \<Rightarrow> table_settings \<Rightarrow> 'o statement" where
  "projection_insert_query p settings =
     ([SQL (newline @ indented 12 ''INSERT INTO ''), identifier_sql settings,
       SQL ('' (id,'' @ newline @ text_line 29 ''name,'' @ text_line 29 ''source,''
         @ text_line 29 ''state,'' @ text_line 29 ''metadata)''
         @ text_line 12 ''VALUES (%s, %s, %s, %s, %s)'' @ text_line 12 ''ON CONFLICT (name, id)''
         @ text_line 16 ''DO'' @ text_line 12 ''UPDATE''
         @ text_line 16 ''SET (state, metadata) = (%s, %s);'' @ indented 12 '''')],
      [db_str (pj_id p), db_str (pj_name p), DbValue (Jsonb (serialise_identifier (pj_source p))),
       DbValue (Jsonb (pj_state p)), DbValue (Jsonb (pj_metadata p)),
       DbValue (Jsonb (pj_state p)), DbValue (Jsonb (pj_metadata p))])"

type_synonym ('o, 'db) projection_connection = "('o, 'db, 'o projection_row) connection_source"

definition upsert_projection ::
  "('o, 'db) projection_connection \<Rightarrow> 'o projection \<Rightarrow> table_settings \<Rightarrow> ('db, unit) db_action" where
  "upsert_projection conn p settings =
     db_bind (cs_execute conn (projection_insert_query p settings)) (\<lambda>_. db_return (Inr ()))"

subsection \<open>The adapter\<close>

record ('o, 'db, 'u) pg_projection_adapter =
  pja_connection :: "('o, 'db) projection_connection"
  pja_table :: table_settings
  pja_converter :: "('o, 'u) pg_converter"

definition new_pg_projection_adapter ::
  "'o ser_methods \<Rightarrow> ('o sql_value \<Rightarrow> bool) \<Rightarrow> ('o, 'db) projection_connection
    \<Rightarrow> table_settings option \<Rightarrow> ('o, 'u) pg_converter option \<Rightarrow> ('o, 'db, 'u) pg_projection_adapter" where
  "new_pg_projection_adapter ser hashable conn settings converter =
     (let tbl = (case settings of None \<Rightarrow> \<lparr>table_name = ''projections''\<rparr> | Some t \<Rightarrow> t)
      in \<lparr>pja_connection = conn, pja_table = tbl,
          pja_converter = (case converter of None \<Rightarrow> default_pg_converter ser hashable tbl | Some c \<Rightarrow> c)\<rparr>)"

definition pg_projection_save ::
  "('o, 'c) projection_env \<Rightarrow> ('o, 'db, 'u) pg_projection_adapter \<Rightarrow> 'o projection \<Rightarrow> ('db, unit) db_action" where
  "pg_projection_save env ad p =
     in_connection (pja_connection ad)
       (db_bind (db_return (serialise_projection (pe_ser env) raising_serialisation_fallback p)) (\<lambda>q.
        upsert_projection (pja_connection ad) q (pja_table ad)))"

definition read_projection :: "('o pyval \<Rightarrow> string) \<Rightarrow> 'o projection_row \<Rightarrow> 'o projection res" where
  "read_projection py_str row =
     res_bind (event_sequence_identifier py_str (jr_source row)) (\<lambda>source.
       Inr \<lparr>pj_id = jr_id row, pj_name = jr_name row, pj_source = source, pj_state = jr_state row,
            pj_metadata = jr_metadata row\<rparr>)"

definition read_projection_as ::
  "('o, 'c) projection_env \<Rightarrow> ('o pyval \<Rightarrow> string) \<Rightarrow> 'c klass \<Rightarrow> 'c klass \<Rightarrow> 'o projection_row
    \<Rightarrow> 'o projection res" where
  "read_projection_as env py_str state_type metadata_type row =
     res_bind (read_projection py_str row) (deserialise_projection (pe_des env) state_type metadata_type)"

definition pg_find_one ::
  "('o, 'c) projection_env \<Rightarrow> ('o pyval \<Rightarrow> string) \<Rightarrow> ('o, 'u) query \<Rightarrow> 'c klass \<Rightarrow> 'c klass
    \<Rightarrow> ('o, 'db, 'u) pg_projection_adapter \<Rightarrow> ('db, 'o projection option) db_action" where
  "pg_find_one env py_str q state_type metadata_type ad =
     db_bind (db_return (pg_convert_query (pja_converter ad) q)) (\<lambda>query.
     in_connection (pja_connection ad)
       (db_bind (cs_execute (pja_connection ad) (as_statement query)) (\<lambda>results.
        db_return (if length results > 1 then Inl (ValueError ''Expected single projection'')
          else case fetch_one results of
                 None \<Rightarrow> Inr None
               | Some row \<Rightarrow> res_bind (read_projection_as env py_str state_type metadata_type row)
                               (\<lambda>p. Inr (Some p))))))"

definition pg_find_many ::
  "('o, 'c) projection_env \<Rightarrow> ('o pyval \<Rightarrow> string) \<Rightarrow> ('o, 'u) query \<Rightarrow> 'c klass \<Rightarrow> 'c klass
    \<Rightarrow> ('o, 'db, 'u) pg_projection_adapter \<Rightarrow> ('db, 'o projection list) db_action" where
  "pg_find_many env py_str q state_type metadata_type ad =
     db_bind (db_return (pg_convert_query (pja_converter ad) q)) (\<lambda>query.
     in_connection (pja_connection ad)
       (db_bind (cs_execute (pja_connection ad) (as_statement query)) (\<lambda>rows.
        db_return (res_bind (res_map (read_projection py_str) rows) (\<lambda>projections.
          res_map (deserialise_projection (pe_des env) state_type metadata_type) projections)))))"

text \<open>\<open>ProjectionStore.load\<close> over the adapter\<close>

definition pg_load ::
  "('o, 'c) projection_env \<Rightarrow> ('o pyval \<Rightarrow> string) \<Rightarrow> string \<Rightarrow> string \<Rightarrow> 'c klass \<Rightarrow> 'c klass
    \<Rightarrow> ('o, 'db, unit) pg_projection_adapter \<Rightarrow> ('db, 'o projection option) db_action" where
  "pg_load env py_str i name state_type metadata_type ad =
     pg_find_one env py_str (Lookup [FilterClause EQUAL (Path ''name'' []) (QVal (PyStr name)),
                                     FilterClause EQUAL (Path ''id'' []) (QVal (PyStr i))])
       state_type metadata_type ad"

subsection \<open>What the adapter relies on\<close>

definition storable_projection :: "'o projection \<Rightarrow> bool" where
  "storable_projection p \<longleftrightarrow>
     list_all storable_text (pj_id p # pj_name p # identifier_texts (pj_source p))
     \<and> storable_json (pj_state p) \<and> storable_json (pj_metadata p)"

type_synonym 'o projection_table = "string \<times> string \<rightharpoonup> 'o projection_row"

definition saved_row :: "('o pyval \<Rightarrow> 'o pyval) \<Rightarrow> 'o projection \<Rightarrow> 'o projection_row option \<Rightarrow> 'o projection_row" where
  \<comment> \<open>on a conflict the row keeps its source\<close>
  "saved_row jsonb p existing =
     \<lparr>jr_id = pj_id p, jr_name = pj_name p,
      jr_source = (case existing of None \<Rightarrow> jsonb (serialise_identifier (pj_source p)) | Some row \<Rightarrow> jr_source row),
      jr_state = jsonb (pj_state p), jr_metadata = jsonb (pj_metadata p)\<rparr>"

definition lookup_ast :: "string \<Rightarrow> string \<Rightarrow> table_settings \<Rightarrow> 'o pg_query" where
  "lookup_ast name i settings =
     Query [] None [StarTarget None None] [table_name settings] []
       [column_equals ''name'' name, column_equals ''id'' i] [] None None"

definition serves_projections ::
  "('o, 'db) projection_connection \<Rightarrow> table_settings \<Rightarrow> ('db \<Rightarrow> 'o projection_table)
    \<Rightarrow> ('o pyval \<Rightarrow> 'o pyval) \<Rightarrow> bool" where
  "serves_projections conn settings tb jsonb \<longleftrightarrow>
     keeps_json jsonb \<and>
     (\<forall>db db'. tb (cs_rollback conn db db') = tb db) \<and>
     (\<forall>db key row. tb db key = Some row \<longrightarrow> jr_key row = key) \<and>
     (\<forall>db p. storable_projection p \<longrightarrow>
        (\<exists>db' rs. cs_execute conn (projection_insert_query p settings) db = (db', Inr rs)
           \<and> tb db' = (tb db)((pj_name p, pj_id p) \<mapsto> saved_row jsonb p (tb db (pj_name p, pj_id p))))) \<and>
     (\<forall>db name i q. storable_text name \<and> storable_text i \<and> build (lookup_ast name i settings) = Inr q \<longrightarrow>
        (\<exists>db' rs. cs_execute conn (as_statement q) db = (db', Inr rs) \<and> tb db' = tb db
           \<and> distinct (map jr_key rs)
           \<and> set rs = {row \<in> ran (tb db). jr_name row = name \<and> jr_id row = i}))"

subsection \<open>Loading\<close>

lemma load_query_built:
  "pg_convert_query (default_pg_converter ser hashable settings)
      (Lookup [FilterClause EQUAL (Path ''name'' []) (QVal (PyStr name)),
               FilterClause EQUAL (Path ''id'' []) (QVal (PyStr i))])
     = build (lookup_ast name i settings)"
  by (simp add: default_pg_clauses(1,9) pg_lookup_query_converter_def apply_converted_def filter_text
      lookup_ast_def empty_query_def)

lemma lookup_ast_ok: "query_ok (lookup_ast name i settings)"
  by (simp add: lookup_ast_def column_ok_def column_equals_def with_left_def with_right_def
      with_operator_def clone_condition_def empty_condition_def no_condition_params_def)

definition loaded_row ::
  "('o, 'c) projection_env \<Rightarrow> ('o pyval \<Rightarrow> string) \<Rightarrow> 'c klass \<Rightarrow> 'c klass \<Rightarrow> 'o projection_row option
    \<Rightarrow> 'o projection option res" where
  "loaded_row env py_str st mt row =
     (case row of
        None \<Rightarrow> Inr None
      | Some row \<Rightarrow> res_bind (read_projection_as env py_str st mt row) (\<lambda>p. Inr (Some p)))"

lemma distinct_single:
  "distinct (map f xs) \<Longrightarrow> set xs = (case x of None \<Rightarrow> {} | Some y \<Rightarrow> {y}) \<Longrightarrow> xs = (case x of None \<Rightarrow> [] | Some y \<Rightarrow> [y])"
proof (cases x)
  case (Some y)
  assume *: "distinct (map f xs)" "set xs = (case x of None \<Rightarrow> {} | Some y \<Rightarrow> {y})"
  then have set: "set xs = {y}" by (simp only: Some option.case)
  have "distinct xs" using *(1) unfolding distinct_map by (rule conjunct1)
  then have "length xs = card {y}" using distinct_card [of xs] unfolding set by simp
  then obtain z where "xs = [z]" by (auto simp: length_Suc_conv)
  then show ?thesis using set Some by simp
qed simp

lemma pg_load_row:
  fixes ad :: "('o, 'db, unit) pg_projection_adapter"
  assumes "serves_projections (pja_connection ad) (pja_table ad) tb jsonb"
    and "pja_converter ad = default_pg_converter ser hashable (pja_table ad)"
    and "storable_text name" "storable_text i"
  shows "\<exists>db'. pg_load env py_str i name st mt ad db = (db', loaded_row env py_str st mt (tb db (name, i))) \<and> tb db' = tb db"
proof -
  note serves = assms(1) [unfolded serves_projections_def]
  obtain q where q: "build (lookup_ast name i (pja_table ad)) = Inr (q :: sql \<times> 'o sql_value list)"
    using build_renderable [OF lookup_ast_ok] by blast
  then obtain db' rs where rs: "cs_execute (pja_connection ad) (as_statement q) db = (db', Inr rs)"
    "tb db' = tb db" "distinct (map jr_key rs)"
    "set rs = {row \<in> ran (tb db). jr_name row = name \<and> jr_id row = i}"
    using serves assms(3,4) by blast
  have keys: "tb db key = Some row \<Longrightarrow> jr_key row = key" for key row using serves by blast
  have "set rs = (case tb db (name, i) of None \<Rightarrow> {} | Some row \<Rightarrow> {row})"
    using keys unfolding rs(4) by (auto simp: ran_def jr_key_def split: option.split)
  then have "rs = (case tb db (name, i) of None \<Rightarrow> [] | Some row \<Rightarrow> [row])"
    by (rule distinct_single [OF rs(3)])
  moreover have "tb (cs_rollback (pja_connection ad) db1 db2) = tb db1" for db1 db2 using serves by blast
  ultimately show ?thesis
    using rs(1,2) q
    by (auto simp: pg_load_def pg_find_one_def assms(2) load_query_built db_bind_def db_return_def
        in_connection_def loaded_row_def fetch_one_def split: option.split sum.split)
qed

subsection \<open>Saving and loading\<close>

text \<open>
  C37. Saving a projection whose state and metadata serialise puts it under its name and id, and
  loading it gives its serialised state and metadata, as \<open>jsonb\<close> keeps them, read as the types
  asked for, with the source it was first saved with. If that source is a partition, it can be
  saved but loading raises \<open>ValueError\<close>. Every other name and id loads as before. A projection
  that does not serialise leaves the table as it was.
\<close>

theorem postgres_projection_save_load:
  fixes ad :: "('o, 'db, unit) pg_projection_adapter"
  assumes "serves_projections (pja_connection ad) (pja_table ad) tb jsonb"
    and "pja_converter ad = default_pg_converter ser hashable (pja_table ad)"
    and "tb db (pj_name p, pj_id p) = None
      \<or> (\<exists>row. tb db (pj_name p, pj_id p) = Some row \<and> jr_source row = jsonb (serialise_identifier source))"
    and "\<forall>q. serialise_projection (pe_ser env) raising_serialisation_fallback p = Inr q \<longrightarrow> storable_projection q"
  shows "case serialise_projection (pe_ser env) raising_serialisation_fallback p of
      Inl e \<Rightarrow> \<exists>db'. pg_projection_save env ad p db = (db', Inl e) \<and> tb db' = tb db
    | Inr q \<Rightarrow>
        let first_source = (if tb db (pj_name p, pj_id p) = None then pj_source p else source);
            saved = q\<lparr>pj_source := first_source, pj_state := jsonb (pj_state q), pj_metadata := jsonb (pj_metadata q)\<rparr>
        in \<exists>db'. pg_projection_save env ad p db = (db', Inr ())
           \<and> snd (pg_load env py_str (pj_id p) (pj_name p) st mt ad db')
               = (if is_event_sequence_identifier first_source then read_back env st mt (Some saved)
                  else Inl (ValueError ''Invalid serialised event sequence identifier.''))
           \<and> (\<forall>name i. (name, i) \<noteq> (pj_name p, pj_id p) \<and> storable_text name \<and> storable_text i
                \<longrightarrow> snd (pg_load env py_str i name st mt ad db') = snd (pg_load env py_str i name st mt ad db))"
proof (cases "serialise_projection (pe_ser env) raising_serialisation_fallback p")
  case (Inl e)
  moreover have "tb (cs_rollback (pja_connection ad) db1 db2) = tb db1" for db1 db2
    using assms(1) unfolding serves_projections_def by blast
  ultimately show ?thesis by (simp add: pg_projection_save_def in_connection_def db_bind_def db_return_def)
next
  case (Inr q)
  let ?key = "(pj_name p, pj_id p)"
  let ?source = "if tb db ?key = None then pj_source p else source"
  have q: "pj_name q = pj_name p" "pj_id q = pj_id p" "pj_source q = pj_source p"
    using Inr by (auto simp: serialise_projection_def)
  have storable: "storable_projection q" using assms(4) Inr by blast
  then have texts: "storable_text (pj_name p)" "storable_text (pj_id p)"
    using q by (auto simp: storable_projection_def)
  have json: "keeps_json jsonb" using assms(1) unfolding serves_projections_def by blast
  note served = assms(1) [unfolded serves_projections_def, THEN conjunct2, THEN conjunct2, THEN conjunct2, THEN conjunct1]
  obtain db' rs where saved: "cs_execute (pja_connection ad) (projection_insert_query q (pja_table ad)) db = (db', Inr rs)"
    "tb db' = (tb db)(?key \<mapsto> saved_row jsonb q (tb db ?key))"
    using served [rule_format, OF storable, of db] unfolding q by blast
  have save: "pg_projection_save env ad p db = (db', Inr ())"
    using saved(1) Inr by (simp add: pg_projection_save_def upsert_projection_def in_connection_def
        db_bind_def db_return_def)
  note load = pg_load_row [OF assms(1,2), where env = env and py_str = py_str and st = st and mt = mt]
  have loaded: "snd (pg_load env py_str (pj_id p) (pj_name p) st mt ad db')
      = (if is_event_sequence_identifier ?source
         then read_back env st mt (Some (q\<lparr>pj_source := ?source, pj_state := jsonb (pj_state q),
           pj_metadata := jsonb (pj_metadata q)\<rparr>))
         else Inl (ValueError ''Invalid serialised event sequence identifier.''))"
  proof -
    let ?row = "saved_row jsonb q (tb db ?key)"
    have "jr_source ?row = jsonb (serialise_identifier ?source)"
      using assms(3) by (auto simp: saved_row_def q)
    then have "event_sequence_identifier py_str (jr_source ?row)
        = (if is_event_sequence_identifier ?source then Inr ?source
           else Inl (ValueError ''Invalid serialised event sequence identifier.''))"
      by (simp only: read_kept_identifier [OF json])
    then have "loaded_row env py_str st mt (Some ?row)
        = (if is_event_sequence_identifier ?source
           then read_back env st mt (Some (q\<lparr>pj_source := ?source, pj_state := jsonb (pj_state q),
             pj_metadata := jsonb (pj_metadata q)\<rparr>))
           else Inl (ValueError ''Invalid serialised event sequence identifier.''))"
      by (cases q) (simp add: loaded_row_def read_projection_as_def read_projection_def read_back_def saved_row_def)
    then show ?thesis using load [OF texts, of db'] saved(2) by auto
  qed
  moreover have "snd (pg_load env py_str i name st mt ad db') = snd (pg_load env py_str i name st mt ad db)"
    if "(name, i) \<noteq> ?key" "storable_text name" "storable_text i" for name i
    using load [OF that(2,3), of db'] load [OF that(2,3), of db] saved(2) that(1) by auto
  ultimately show ?thesis using save by (simp add: Inr Let_def)
qed

subsection \<open>A server for the statements\<close>

text \<open>A table as a list of rows, of which the first with a key is the one in force.\<close>

definition projections_of :: "'o projection_row list \<Rightarrow> 'o projection_table" where
  "projections_of rows key = find (\<lambda>row. jr_key row = key) rows"

definition projections_execute :: "'o statement \<Rightarrow> ('o projection_row list, 'o projection_row list) db_action" where
  "projections_execute q rows =
     (let params = snd q; txt = (\<lambda>i. db_text (params ! i)); v = (\<lambda>i. db_json (params ! i))
      in if length params = 7
         then (\<lparr>jr_id = txt 0, jr_name = txt 1,
                jr_source = (case projections_of rows (txt 1, txt 0) of None \<Rightarrow> v 2 | Some row \<Rightarrow> jr_source row),
                jr_state = v 3, jr_metadata = v 4\<rparr> # rows, Inr [])
         else (rows, Inr (case projections_of rows (txt 0, txt 1) of None \<Rightarrow> [] | Some row \<Rightarrow> [row])))"

definition projections_connection :: "('o, 'o projection_row list) projection_connection" where
  "projections_connection =
     \<lparr>cs_execute = projections_execute, cs_rollback = (\<lambda>before after. before), cs_unique_violation = (\<lambda>_. False)\<rparr>"

lemma lookup_ast_params:
  fixes q :: "sql \<times> 'o sql_value list"
  assumes "build (lookup_ast name i settings) = Inr q"
  shows "snd q = [Plain (QVal (PyStr name)), Plain (QVal (PyStr i))]"
proof -
  let ?ast = "lookup_ast name i settings :: 'o pg_query"
  from build_renderable [OF lookup_ast_ok] obtain s
    where "build ?ast = Inr (s, bound_values (inline_query ?ast))" by blast
  then have "q = (s, bound_values (inline_query ?ast))" using assms by simp
  then show ?thesis
    by (simp add: lookup_ast_def column_equals_def with_left_def with_right_def with_operator_def
        clone_condition_def empty_condition_def no_condition_params_def query_tokens_def
        column_tokens_def keyword_list_def)
qed

lemma projections_of_key: "projections_of rows key = Some row \<Longrightarrow> jr_key row = key"
  by (auto simp: projections_of_def find_Some_iff)

lemma projections_connection_serves:
  "serves_projections projections_connection settings projections_of (\<lambda>v. v)"
proof -
  have insert: "cs_execute projections_connection (projection_insert_query p settings) db
      = (saved_row (\<lambda>v. v) p (projections_of db (pj_name p, pj_id p)) # db, Inr [])"
    for p and db :: "'a projection_row list"
    by (cases "projections_of db (pj_name p, pj_id p)")
      (simp_all add: projections_connection_def projections_execute_def projection_insert_query_def
        Let_def saved_row_def)
  have inserted: "projections_of (saved_row (\<lambda>v. v) p r # db) = (projections_of db)((pj_name p, pj_id p) \<mapsto> saved_row (\<lambda>v. v) p r)"
    for p r and db :: "'a projection_row list"
    by (auto simp: projections_of_def saved_row_def jr_key_def fun_eq_iff)
  have select: "\<exists>db' rs. cs_execute projections_connection (as_statement q) db = (db', Inr rs)
      \<and> projections_of db' = projections_of db \<and> distinct (map jr_key rs)
      \<and> set rs = {row \<in> ran (projections_of db). jr_name row = name \<and> jr_id row = i}"
    if "build (lookup_ast name i settings) = Inr q" for db :: "'a projection_row list" and name i q
  proof -
    let ?rs = "case projections_of db (name, i) of None \<Rightarrow> [] | Some row \<Rightarrow> [row]"
    have "cs_execute projections_connection (as_statement q) db = (db, Inr ?rs)"
      using lookup_ast_params [OF that]
      by (simp add: projections_connection_def projections_execute_def as_statement_def)
    moreover have "set ?rs = {row \<in> ran (projections_of db). jr_name row = name \<and> jr_id row = i}"
      using projections_of_key [of db] unfolding ran_def jr_key_def by (fastforce split: option.split)
    moreover have "distinct (map jr_key ?rs)" by (simp split: option.split)
    ultimately show ?thesis by blast
  qed
  show ?thesis
    unfolding serves_projections_def
    by (intro conjI allI impI)
      (auto simp: keeps_json_def insert inserted select projections_of_key, simp add: projections_connection_def)
qed

definition sample_projection_adapter :: "(unit, unit projection_row list, unit) pg_projection_adapter" where
  "sample_projection_adapter = new_pg_projection_adapter (\<lambda>_. None) (\<lambda>_. True) projections_connection None None"

theorem postgres_projection_save_load_witness:
  "\<exists>db'. pg_projection_save sample_projection_env sample_projection_adapter (sample_projection 7) [] = (db', Inr ())
     \<and> snd (pg_load sample_projection_env (\<lambda>_. []) ''1'' ''thing'' KJsonValueType KJsonValueType
              sample_projection_adapter db') = Inr (Some (sample_projection 7))"
proof -
  have adapter: "serves_projections (pja_connection sample_projection_adapter) (pja_table sample_projection_adapter)
      projections_of (\<lambda>v. v)"
    "pja_converter sample_projection_adapter
      = default_pg_converter (\<lambda>_. None) (\<lambda>_. True) (pja_table sample_projection_adapter)"
    by (simp_all add: sample_projection_adapter_def new_pg_projection_adapter_def Let_def projections_connection_serves)
  have serialised: "serialise_projection (pe_ser sample_projection_env) raising_serialisation_fallback (sample_projection 7)
      = Inr (sample_projection 7)"
    by (simp add: serialise_projection_def)
  have storable: "\<forall>q. serialise_projection (pe_ser sample_projection_env) raising_serialisation_fallback (sample_projection 7)
      = Inr q \<longrightarrow> storable_projection q"
    unfolding serialised by (simp add: storable_projection_def storable_text_def)
  have empty: "projections_of [] key = None" for key by (simp add: projections_of_def)
  have read: "read_back sample_projection_env KJsonValueType KJsonValueType (Some (sample_projection 7))
      = Inr (Some (sample_projection 7))"
    by (simp add: read_back_def deserialise_projection_def sample_projection_env_def)
  obtain db' where "pg_projection_save sample_projection_env sample_projection_adapter (sample_projection 7) [] = (db', Inr ())"
    "snd (pg_load sample_projection_env (\<lambda>_. []) ''1'' ''thing'' KJsonValueType KJsonValueType
       sample_projection_adapter db')
     = read_back sample_projection_env KJsonValueType KJsonValueType (Some (sample_projection 7))"
    using postgres_projection_save_load [OF adapter _ storable, of "[]"
        "StreamIdentifier ''c'' ''s''" "\<lambda>_. []" KJsonValueType KJsonValueType]
    unfolding serialised by (auto simp: Let_def is_event_sequence_identifier_def empty)
  then show ?thesis unfolding read by blast
qed

end
