(* ===== verification/Service_Manager.thy ===== *)
theory Service_Manager
  imports Py_Prelude
begin

section \<open>Running services\<close>

text \<open>
  Models \<open>processing/services/manager.py\<close> and \<open>polling.py\<close>: registering services, scheduling
  them on the executors of their isolation modes, waiting for the foreground ones, and stopping.

  A service is the user's: its coroutine runs as a task on an event loop. Whether it ever ends by
  itself, and whether it ends once it is cancelled, is its \<open>service_conduct\<close>: a consumer or a broker
  runs for ever unless it is cancelled. The manager's own code runs between suspensions, so a
  manager is a record that \<open>register\<close>, \<open>stop_on\<close>, \<open>begin_start\<close> (the part of \<open>start\<close> up to its first
  suspension, with the executors it starts), \<open>schedule_services\<close> (from there until it waits) and
  \<open>begin_stop\<close> (the part of \<open>stop\<close> before it waits) change, and \<open>service_step\<close> says what happens
  while it waits. The executor \<open>None\<close> is the main thread's; \<open>Some k\<close> is the \<open>k\<close>-th with a thread and
  a loop of its own, the shared one being the first. A stop that begins while another is under way
  is not modelled; one that begins while \<open>start\<close> is suspended is \<open>stop_while_starting\<close>, for
  services of the main thread.
\<close>

subsection \<open>Definitions, executors and managers\<close>

datatype execution_mode = FOREGROUND | BACKGROUND

datatype isolation_mode = MAIN_THREAD | SHARED_THREAD | DEDICATED_THREAD

record 's service_definition =
  sd_service :: 's
  sd_execution_mode :: execution_mode
  sd_isolation_mode :: isolation_mode

datatype 'a task_state = Active | Cancelling | Finished "'a res"

record ('s, 'a) service_task =
  tk_definition :: "'s service_definition"
  tk_executor :: "nat option"
  tk_state :: "'a task_state"

text \<open>A thread and its loop: not started, running, being stopped, closed and joined\<close>

datatype loop_state = LOOP_NEW | LOOP_RUNNING | LOOP_STOPPING | LOOP_CLOSED

record ('s, 'a) service_manager =
  sm_definitions :: "'s service_definition list"
  sm_signals :: "int list"
  sm_handlers :: "int list"
  sm_loops :: "loop_state list"
  sm_tasks :: "('s, 'a) service_task list"

definition new_service_manager :: "('s, 'a) service_manager" where
  "new_service_manager =
     \<lparr>sm_definitions = [], sm_signals = [], sm_handlers = [], sm_loops = [LOOP_NEW], sm_tasks = []\<rparr>"

definition register_service ::
  "'s \<Rightarrow> execution_mode \<Rightarrow> isolation_mode \<Rightarrow> ('s, 'a) service_manager \<Rightarrow> ('s, 'a) service_manager" where
  "register_service service execution isolation sm =
     sm\<lparr>sm_definitions := sm_definitions sm
          @ [\<lparr>sd_service = service, sd_execution_mode = execution, sd_isolation_mode = isolation\<rparr>]\<rparr>"

definition stop_on :: "int list \<Rightarrow> ('s, 'a) service_manager \<Rightarrow> ('s, 'a) service_manager" where
  "stop_on signals sm = sm\<lparr>sm_signals := sm_signals sm @ signals\<rparr>"

subsection \<open>Executors\<close>

text \<open>A thread starts once; \<open>gather\<close> starts them all and raises what the first to fail raised.\<close>

definition start_executors ::
  "('s, 'a) service_manager \<Rightarrow> ('s, 'a) service_manager \<times> unit res" where
  "start_executors sm =
     (sm\<lparr>sm_loops := map (\<lambda>l. if l = LOOP_NEW then LOOP_RUNNING else l) (sm_loops sm)\<rparr>,
      if list_all (\<lambda>l. l = LOOP_NEW) (sm_loops sm) then Inr ()
      else Inl (RuntimeError ''threads can only be started once''))"

definition add_task ::
  "'s service_definition \<Rightarrow> nat option \<Rightarrow> ('s, 'a) service_manager \<Rightarrow> ('s, 'a) service_manager" where
  "add_task d executor sm =
     sm\<lparr>sm_tasks := sm_tasks sm @ [\<lparr>tk_definition = d, tk_executor = executor, tk_state = Active\<rparr>]\<rparr>"

text \<open>\<open>run_coroutine_threadsafe\<close> on a loop\<close>

definition schedule_isolated ::
  "'s service_definition \<Rightarrow> nat \<Rightarrow> ('s, 'a) service_manager \<Rightarrow> ('s, 'a) service_manager \<times> nat res" where
  "schedule_isolated d k sm =
     (if sm_loops sm ! k = LOOP_CLOSED then (sm, Inl (RuntimeError ''Event loop is closed''))
      else (add_task d (Some k) sm, Inr (length (sm_tasks sm))))"

text \<open>\<open>schedule\<close>: a future is the number of its task.\<close>

definition schedule_service ::
  "'s service_definition \<Rightarrow> ('s, 'a) service_manager \<Rightarrow> ('s, 'a) service_manager \<times> nat res" where
  "schedule_service d sm =
     (case sd_isolation_mode d of
        MAIN_THREAD \<Rightarrow> (add_task d None sm, Inr (length (sm_tasks sm)))
      | SHARED_THREAD \<Rightarrow> schedule_isolated d 0 sm
      | DEDICATED_THREAD \<Rightarrow>
          schedule_isolated d (length (sm_loops sm)) (sm\<lparr>sm_loops := sm_loops sm @ [LOOP_RUNNING]\<rparr>))"

fun schedule_services ::
  "'s service_definition list \<Rightarrow> ('s, 'a) service_manager \<Rightarrow> ('s, 'a) service_manager \<times> nat list res" where
  "schedule_services [] sm = (sm, Inr [])"
| "schedule_services (d # ds) sm =
     (case schedule_service d sm of
        (sm1, Inl e) \<Rightarrow> (sm1, Inl e)
      | (sm1, Inr future) \<Rightarrow>
          (case schedule_services ds sm1 of
             (sm2, Inl e) \<Rightarrow> (sm2, Inl e)
           | (sm2, Inr futures) \<Rightarrow> (sm2, Inr (future # futures))))"

subsection \<open>Starting\<close>

definition begin_start :: "('s, 'a) service_manager \<Rightarrow> ('s, 'a) service_manager \<times> unit res" where
  "begin_start sm = start_executors (sm\<lparr>sm_handlers := sm_signals sm\<rparr>)"

text \<open>\<open>start\<close> until it waits for its futures, when nothing else runs while its executors start\<close>

definition launch :: "('s, 'a) service_manager \<Rightarrow> ('s, 'a) service_manager \<times> nat list res" where
  "launch sm =
     (case begin_start sm of
        (sm1, Inl e) \<Rightarrow> (sm1, Inl e)
      | (sm1, Inr _) \<Rightarrow> schedule_services (sm_definitions sm1) sm1)"

definition blocking_futures :: "'s service_definition list \<Rightarrow> nat list \<Rightarrow> nat list" where
  "blocking_futures definitions futures =
     map fst (filter (\<lambda>(future, d). sd_execution_mode d = FOREGROUND) (zip futures definitions))"

fun is_finished :: "'a task_state \<Rightarrow> bool" where
  "is_finished (Finished r) = True"
| "is_finished _ = False"

text \<open>\<open>start\<close> returns its futures, when it waits no more.\<close>

definition start_returns :: "('s, 'a) service_manager \<Rightarrow> nat list \<Rightarrow> nat list option" where
  "start_returns sm futures =
     (if list_all (\<lambda>i. is_finished (tk_state (sm_tasks sm ! i))) (blocking_futures (sm_definitions sm) futures)
      then Some futures else None)"

subsection \<open>Stopping\<close>

definition cancel_task :: "('s, 'a) service_task \<Rightarrow> ('s, 'a) service_task" where
  "cancel_task t = (if is_finished (tk_state t) then t else t\<lparr>tk_state := Cancelling\<rparr>)"

definition stoppable :: "loop_state list \<Rightarrow> nat option \<Rightarrow> bool" where
  "stoppable loops executor = (case executor of None \<Rightarrow> True | Some k \<Rightarrow> loops ! k = LOOP_RUNNING)"

text \<open>
  Every executor cancels its tasks. The coroutine that does so on a loop that does not run is never
  run, and a closed loop refuses it.
\<close>

definition begin_stop :: "('s, 'a) service_manager \<Rightarrow> ('s, 'a) service_manager \<times> unit res" where
  "begin_stop sm =
     (sm\<lparr>sm_tasks := map (\<lambda>t. if stoppable (sm_loops sm) (tk_executor t) then cancel_task t else t) (sm_tasks sm),
         sm_loops := map (\<lambda>l. if l = LOOP_RUNNING then LOOP_STOPPING else l) (sm_loops sm)\<rparr>,
      if list_ex (\<lambda>l. l = LOOP_CLOSED) (sm_loops sm) then Inl (RuntimeError ''Event loop is closed'') else Inr ())"

definition on_executor :: "nat option \<Rightarrow> ('s, 'a) service_manager \<Rightarrow> ('s, 'a) service_task list" where
  "on_executor executor sm = filter (\<lambda>t. tk_executor t = executor) (sm_tasks sm)"

text \<open>\<open>stop\<close> returns when the tasks of the main thread have ended and every other loop is closed.\<close>

definition stop_returns :: "('s, 'a) service_manager \<Rightarrow> bool" where
  "stop_returns sm \<longleftrightarrow>
     list_all (\<lambda>t. is_finished (tk_state t)) (on_executor None sm) \<and> list_all (\<lambda>l. l = LOOP_CLOSED) (sm_loops sm)"

subsection \<open>Between suspensions\<close>

definition loop_runs :: "loop_state list \<Rightarrow> nat option \<Rightarrow> bool" where
  "loop_runs loops executor =
     (case executor of None \<Rightarrow> True | Some k \<Rightarrow> loops ! k = LOOP_RUNNING \<or> loops ! k = LOOP_STOPPING)"

text \<open>
  What the manager cannot know of a service: whether it may end by itself, and whether it ends once
  it is cancelled, which a coroutine that catches \<open>CancelledError\<close> need not.
\<close>

record 's service_conduct =
  may_end :: "'s \<Rightarrow> bool"
  heeds_cancel :: "'s \<Rightarrow> bool"

definition may_finish :: "'s service_conduct \<Rightarrow> ('s, 'a) service_task \<Rightarrow> bool" where
  "may_finish conduct t =
     (let service = sd_service (tk_definition t)
      in case tk_state t of
           Active \<Rightarrow> may_end conduct service
         | Cancelling \<Rightarrow> may_end conduct service \<or> heeds_cancel conduct service
         | Finished r \<Rightarrow> False)"

text \<open>A task ends; a loop that is being stopped, with no task left, is closed and its thread joined.\<close>

inductive service_step ::
  "'s service_conduct \<Rightarrow> ('s, 'a) service_manager \<Rightarrow> ('s, 'a) service_manager \<Rightarrow> bool"
  for conduct :: "'s service_conduct" where
  ends: "i < length (sm_tasks sm) \<Longrightarrow> may_finish conduct (sm_tasks sm ! i)
    \<Longrightarrow> loop_runs (sm_loops sm) (tk_executor (sm_tasks sm ! i))
    \<Longrightarrow> service_step conduct sm (sm\<lparr>sm_tasks := (sm_tasks sm)[i := (sm_tasks sm ! i)\<lparr>tk_state := Finished r\<rparr>]\<rparr>)"
| closes: "k < length (sm_loops sm) \<Longrightarrow> sm_loops sm ! k = LOOP_STOPPING
    \<Longrightarrow> list_all (\<lambda>t. is_finished (tk_state t)) (on_executor (Some k) sm)
    \<Longrightarrow> service_step conduct sm (sm\<lparr>sm_loops := (sm_loops sm)[k := LOOP_CLOSED]\<rparr>)"

abbreviation service_steps ::
  "'s service_conduct \<Rightarrow> ('s, 'a) service_manager \<Rightarrow> ('s, 'a) service_manager \<Rightarrow> bool" where
  "service_steps conduct \<equiv> (service_step conduct)\<^sup>*\<^sup>*"

lemma may_finish_unfinished: "may_finish conduct t \<Longrightarrow> \<not> is_finished (tk_state t)"
  by (cases "tk_state t") (simp_all add: may_finish_def)

subsection \<open>polling.py\<close>

text \<open>The loop of a polling service, over a state that the callable changes; \<open>None\<close> is no end.\<close>

partial_function (option) poll :: "('st \<Rightarrow> 'st \<times> 'b res) \<Rightarrow> 'st \<Rightarrow> ('st \<times> py_error) option" where
  "poll callable st =
     (case callable st of
        (st', Inl e) \<Rightarrow> Some (st', e)
      | (st', Inr _) \<Rightarrow> poll callable st')"

subsection \<open>What starting schedules\<close>

text \<open>The executors of the services, when the next dedicated loop is the \<open>k\<close>-th\<close>

fun assigned :: "'s service_definition list \<Rightarrow> nat \<Rightarrow> nat option list" where
  "assigned [] k = []"
| "assigned (d # ds) k =
     (case sd_isolation_mode d of
        MAIN_THREAD \<Rightarrow> None # assigned ds k
      | SHARED_THREAD \<Rightarrow> Some 0 # assigned ds k
      | DEDICATED_THREAD \<Rightarrow> Some k # assigned ds (Suc k))"

definition dedicated :: "'s service_definition list \<Rightarrow> nat" where
  "dedicated ds = length (filter (\<lambda>d. sd_isolation_mode d = DEDICATED_THREAD) ds)"

lemma length_assigned [simp]: "length (assigned ds k) = length ds"
  by (induction ds arbitrary: k) (simp_all split: isolation_mode.split)

lemma assigned_bound:
  "0 < k \<Longrightarrow> Some j \<in> set (assigned ds k) \<Longrightarrow> j < k + dedicated ds"
  by (induction ds arbitrary: k) (force simp: dedicated_def split: isolation_mode.splits)+

lemma assigned_mode:
  assumes "0 < k" "i < length ds"
  shows "case sd_isolation_mode (ds ! i) of
      MAIN_THREAD \<Rightarrow> assigned ds k ! i = None
    | SHARED_THREAD \<Rightarrow> assigned ds k ! i = Some 0
    | DEDICATED_THREAD \<Rightarrow> \<exists>j \<ge> k. assigned ds k ! i = Some j"
  using assms
proof (induction ds arbitrary: k i)
  case (Cons d ds)
  show ?case
  proof (cases i)
    case 0
    then show ?thesis by (auto split: isolation_mode.split)
  next
    case (Suc i')
    then show ?thesis using Cons.IH [of k i'] Cons.IH [of "Suc k" i'] Cons.prems
      by (auto split: isolation_mode.splits intro: Suc_leD)
  qed
qed simp

lemma assigned_alone:
  assumes "0 < k" "i < length ds" "j < length ds" "i \<noteq> j" "sd_isolation_mode (ds ! i) = DEDICATED_THREAD"
  shows "assigned ds k ! i \<noteq> assigned ds k ! j"
  using assms
proof (induction ds arbitrary: k i j)
  case (Cons d ds)
  have later: "assigned ds (Suc k) ! l \<noteq> Some k" if "l < length ds" for l
    using assigned_mode [of "Suc k" l ds] that Cons.prems(1) by (auto split: isolation_mode.splits)
  show ?case
  proof (cases i)
    case 0
    then obtain j' where "j = Suc j'" using Cons.prems(4) by (cases j) auto
    then show ?thesis using 0 Cons.prems later [of j'] by auto
  next
    case (Suc i')
    show ?thesis
    proof (cases j)
      case 0
      have "assigned ds k ! i' \<noteq> Some 0" "assigned ds k ! i' \<noteq> None"
        using assigned_mode [of k i' ds] Cons.prems Suc by auto
      then show ?thesis using 0 Suc Cons.prems later [of i'] by (auto split: isolation_mode.split)
    next
      case (Suc j')
      then show ?thesis using Cons.IH [of k i' j'] Cons.IH [of "Suc k" i' j'] Cons.prems \<open>i = Suc i'\<close>
        by (auto split: isolation_mode.split)
    qed
  qed
qed simp

lemma upt_step: "[n..<Suc (n + m)] = n # [Suc n..<Suc (n + m)]"
  by (simp add: upt_conv_Cons del: upt_Suc)

lemma schedule_services_running:
  assumes "sm_loops sm = replicate (Suc k) LOOP_RUNNING"
  shows "schedule_services ds sm =
    (sm\<lparr>sm_loops := replicate (Suc k + dedicated ds) LOOP_RUNNING,
        sm_tasks := sm_tasks sm @ map2 (\<lambda>d e. \<lparr>tk_definition = d, tk_executor = e, tk_state = Active\<rparr>)
          ds (assigned ds (Suc k))\<rparr>,
     Inr [length (sm_tasks sm)..<length (sm_tasks sm) + length ds])"
  using assms
proof (induction ds arbitrary: sm k)
  case Nil
  then show ?case by (simp add: dedicated_def)
next
  case (Cons d ds)
  show ?case
  proof (cases "sd_isolation_mode d")
    case MAIN_THREAD
    then show ?thesis using Cons.IH [of "add_task d None sm" k] Cons.prems
      by (simp add: schedule_service_def add_task_def dedicated_def upt_step del: upt_Suc)
  next
    case SHARED_THREAD
    then show ?thesis using Cons.IH [of "add_task d (Some 0) sm" k] Cons.prems
      by (simp add: schedule_service_def schedule_isolated_def add_task_def dedicated_def upt_step del: upt_Suc)
  next
    case DEDICATED_THREAD
    let ?sm = "add_task d (Some (Suc k)) (sm\<lparr>sm_loops := sm_loops sm @ [LOOP_RUNNING]\<rparr>)"
    have "sm_loops ?sm = replicate (Suc (Suc k)) LOOP_RUNNING"
      using Cons.prems by (simp add: add_task_def replicate_append_same)
    from Cons.IH [OF this] show ?thesis using DEDICATED_THREAD Cons.prems
      by (simp add: schedule_service_def schedule_isolated_def add_task_def dedicated_def upt_step
          nth_append del: upt_Suc)
  qed
qed

definition launched :: "('s, 'a) service_manager \<Rightarrow> ('s, 'a) service_manager" where
  "launched sm =
     sm\<lparr>sm_handlers := sm_signals sm, sm_loops := replicate (Suc (dedicated (sm_definitions sm))) LOOP_RUNNING,
        sm_tasks := map2 (\<lambda>d e. \<lparr>tk_definition = d, tk_executor = e, tk_state = Active\<rparr>)
          (sm_definitions sm) (assigned (sm_definitions sm) 1)\<rparr>"

lemma launch_fresh:
  assumes "sm_tasks sm = []" "sm_loops sm = [LOOP_NEW]"
  shows "launch sm = (launched sm, Inr [0..<length (sm_definitions sm)])"
  using schedule_services_running [of "sm\<lparr>sm_handlers := sm_signals sm, sm_loops := [LOOP_RUNNING]\<rparr>" 0
      "sm_definitions sm"] assms
  by (simp add: launch_def begin_start_def start_executors_def launched_def)

subsection \<open>Runs\<close>

inductive_cases service_stepE: "service_step conduct sm sm'"

text \<open>A task that has ended keeps its outcome; nothing else of a task changes but its state.\<close>

definition continues :: "('s, 'a) service_task \<Rightarrow> ('s, 'a) service_task \<Rightarrow> bool" where
  "continues t t' \<longleftrightarrow>
     tk_definition t' = tk_definition t \<and> tk_executor t' = tk_executor t
     \<and> (is_finished (tk_state t) \<longrightarrow> tk_state t' = tk_state t)"

abbreviation tasks_continue :: "('s, 'a) service_manager \<Rightarrow> ('s, 'a) service_manager \<Rightarrow> bool" where
  "tasks_continue sm sm' \<equiv> list_all2 continues (sm_tasks sm) (sm_tasks sm')"

lemma continues_refl [simp]: "continues t t"
  by (simp add: continues_def)

lemma continues_trans: "continues s t \<Longrightarrow> continues t u \<Longrightarrow> continues s u"
  by (auto simp: continues_def)

lemma tasks_continue_refl: "tasks_continue sm sm"
  by (simp add: list_all2_refl)

lemma continued_task:
  assumes "tasks_continue sm sm'" "t \<in> set (sm_tasks sm')"
  shows "\<exists>t' \<in> set (sm_tasks sm). continues t' t"
proof -
  obtain i where i: "i < length (sm_tasks sm')" "t = sm_tasks sm' ! i" using assms(2) by (auto simp: in_set_conv_nth)
  then have "i < length (sm_tasks sm)" "continues (sm_tasks sm ! i) t"
    using assms(1) by (simp_all add: list_all2_conv_all_nth)
  then show ?thesis using nth_mem by blast
qed

lemma step_continues: "service_step conduct sm sm' \<Longrightarrow> tasks_continue sm sm'"
  by (erule service_stepE)
    (auto simp: list_all2_conv_all_nth nth_list_update continues_def dest: may_finish_unfinished)

lemma steps_continue: "service_steps conduct sm sm' \<Longrightarrow> tasks_continue sm sm'"
proof (induction rule: rtranclp_induct)
  case (step sm1 sm2)
  show ?case
    by (rule list_all2_trans [OF _ step.IH step_continues [OF step.hyps(2)]]) (rule continues_trans)
qed (rule tasks_continue_refl)

lemma step_definitions: "service_step conduct sm sm' \<Longrightarrow> sm_definitions sm' = sm_definitions sm"
  by (erule service_stepE) simp_all

lemma steps_definitions: "service_steps conduct sm sm' \<Longrightarrow> sm_definitions sm' = sm_definitions sm"
  by (induction rule: rtranclp_induct) (simp_all add: step_definitions)

text \<open>While nothing is being stopped, the loops stay as they are.\<close>

lemma steps_running:
  "service_steps conduct sm sm' \<Longrightarrow> LOOP_STOPPING \<notin> set (sm_loops sm) \<Longrightarrow> sm_loops sm' = sm_loops sm"
proof (induction rule: rtranclp_induct)
  case (step sm1 sm2)
  then have "LOOP_STOPPING \<notin> set (sm_loops sm1)" by simp
  with step.hyps(2) have "sm_loops sm2 = sm_loops sm1"
    by (cases rule: service_step.cases) (auto dest: nth_mem)
  then show ?case using step by simp
qed simp

text \<open>
  Once a stop has begun: every loop is being stopped or closed, a task that has not ended is
  cancelled, it belongs to a loop that exists, and a closed loop has no task left.
\<close>

definition stopping :: "('s, 'a) service_manager \<Rightarrow> bool" where
  "stopping sm \<longleftrightarrow>
     set (sm_loops sm) \<subseteq> {LOOP_STOPPING, LOOP_CLOSED}
     \<and> (\<forall>t \<in> set (sm_tasks sm). is_finished (tk_state t) \<or> tk_state t = Cancelling)
     \<and> (\<forall>t \<in> set (sm_tasks sm). \<forall>k. tk_executor t = Some k \<longrightarrow> k < length (sm_loops sm)
          \<and> (sm_loops sm ! k = LOOP_CLOSED \<longrightarrow> is_finished (tk_state t)))"

lemma stopping_loop:
  assumes "stopping sm" "k < length (sm_loops sm)" "sm_loops sm ! k \<noteq> LOOP_CLOSED"
  shows "sm_loops sm ! k = LOOP_STOPPING"
proof -
  have "sm_loops sm ! k \<in> {LOOP_STOPPING, LOOP_CLOSED}"
    using assms(1) nth_mem [OF assms(2)] unfolding stopping_def by blast
  then show ?thesis using assms(3) by simp
qed

lemma stopping_step: "service_step conduct sm sm' \<Longrightarrow> stopping sm \<Longrightarrow> stopping sm'"
proof (erule service_stepE)
  fix i r
  assume "stopping sm" and i: "i < length (sm_tasks sm)"
    and sm': "sm' = sm\<lparr>sm_tasks := (sm_tasks sm)[i := (sm_tasks sm ! i)\<lparr>tk_state := Finished r\<rparr>]\<rparr>"
  then have "t \<in> set (sm_tasks sm) \<or> t = (sm_tasks sm ! i)\<lparr>tk_state := Finished r\<rparr>" if "t \<in> set (sm_tasks sm')" for t
    using that set_update_subset_insert [of "sm_tasks sm" i] by fastforce
  then show "stopping sm'" using \<open>stopping sm\<close> nth_mem [OF i] by (fastforce simp: stopping_def sm')
next
  fix k
  assume "stopping sm" and k: "k < length (sm_loops sm)"
    and finished: "list_all (\<lambda>t. is_finished (tk_state t)) (on_executor (Some k) sm)"
    and sm': "sm' = sm\<lparr>sm_loops := (sm_loops sm)[k := LOOP_CLOSED]\<rparr>"
  then show "stopping sm'"
    using set_update_subset_insert [of "sm_loops sm" k LOOP_CLOSED]
    by (auto simp: stopping_def on_executor_def list_all_iff nth_list_update)
qed

definition unfinished :: "('s, 'a) service_manager \<Rightarrow> nat" where
  "unfinished sm =
     length (filter (\<lambda>t. \<not> is_finished (tk_state t)) (sm_tasks sm))
     + length (filter (\<lambda>l. l \<noteq> LOOP_CLOSED) (sm_loops sm))"

lemma filter_update:
  "i < length xs \<Longrightarrow> P (xs ! i) \<Longrightarrow> \<not> P x \<Longrightarrow> Suc (length (filter P (xs[i := x]))) = length (filter P xs)"
proof (induction xs arbitrary: i)
  case (Cons y ys)
  then show ?case by (cases i) auto
qed simp

lemma step_unfinished: "service_step conduct sm sm' \<Longrightarrow> Suc (unfinished sm') = unfinished sm"
proof (erule service_stepE)
  fix i r
  assume "i < length (sm_tasks sm)" "may_finish conduct (sm_tasks sm ! i)"
    and sm': "sm' = sm\<lparr>sm_tasks := (sm_tasks sm)[i := (sm_tasks sm ! i)\<lparr>tk_state := Finished r\<rparr>]\<rparr>"
  then show "Suc (unfinished sm') = unfinished sm"
    using filter_update [of i "sm_tasks sm" "\<lambda>t. \<not> is_finished (tk_state t)" "(sm_tasks sm ! i)\<lparr>tk_state := Finished r\<rparr>"]
    by (simp add: unfinished_def may_finish_unfinished)
next
  fix k
  assume "k < length (sm_loops sm)" "sm_loops sm ! k = LOOP_STOPPING"
    and sm': "sm' = sm\<lparr>sm_loops := (sm_loops sm)[k := LOOP_CLOSED]\<rparr>"
  then show "Suc (unfinished sm') = unfinished sm"
    using filter_update [of k "sm_loops sm" "\<lambda>l. l \<noteq> LOOP_CLOSED" LOOP_CLOSED]
    by (simp add: unfinished_def)
qed

lemma steps_bounded: "(service_step conduct ^^ n) sm sm' \<Longrightarrow> n + unfinished sm' = unfinished sm"
proof (induction n arbitrary: sm')
  case (Suc n)
  then obtain sm1 where "(service_step conduct ^^ n) sm sm1" "service_step conduct sm1 sm'" by auto
  then show ?case using Suc.IH [of sm1] step_unfinished by fastforce
qed simp

text \<open>A stop that has begun is not stuck before everything has ended.\<close>

lemma stopping_progress:
  assumes "stopping sm" "unfinished sm \<noteq> 0"
    and heeds: "\<forall>t \<in> set (sm_tasks sm). heeds_cancel conduct (sd_service (tk_definition t))"
  shows "\<exists>sm'. service_step conduct sm sm'"
proof (cases "list_all (\<lambda>t. is_finished (tk_state t)) (sm_tasks sm)")
  case False
  then obtain i where i: "i < length (sm_tasks sm)" "\<not> is_finished (tk_state (sm_tasks sm ! i))"
    by (auto simp: list_all_length)
  have "loop_runs (sm_loops sm) (tk_executor (sm_tasks sm ! i))"
  proof (cases "tk_executor (sm_tasks sm ! i)")
    case (Some k)
    then have "k < length (sm_loops sm)" "sm_loops sm ! k \<noteq> LOOP_CLOSED"
      using assms(1) i nth_mem [OF i(1)] by (auto simp: stopping_def)
    then have "sm_loops sm ! k = LOOP_STOPPING" by (rule stopping_loop [OF assms(1)])
    then show ?thesis using Some by (simp add: loop_runs_def)
  qed (simp add: loop_runs_def)
  moreover have "may_finish conduct (sm_tasks sm ! i)"
    using assms(1) heeds i nth_mem [OF i(1)] by (auto simp: stopping_def may_finish_def)
  ultimately show ?thesis using service_step.ends [OF i(1)] by blast
next
  case True
  then have "filter (\<lambda>t. \<not> is_finished (tk_state t)) (sm_tasks sm) = []"
    by (simp add: filter_empty_conv list_all_iff)
  then have "filter (\<lambda>l. l \<noteq> LOOP_CLOSED) (sm_loops sm) \<noteq> []" using assms(2) by (simp add: unfinished_def)
  then obtain k where k: "k < length (sm_loops sm)" "sm_loops sm ! k \<noteq> LOOP_CLOSED"
    by (auto simp: filter_empty_conv in_set_conv_nth)
  then have "sm_loops sm ! k = LOOP_STOPPING" by (rule stopping_loop [OF assms(1)])
  moreover have "list_all (\<lambda>t. is_finished (tk_state t)) (on_executor (Some k) sm)"
    using True by (auto simp: on_executor_def list_all_iff)
  ultimately show ?thesis using service_step.closes [OF k(1)] by blast
qed

lemma stopped_iff: "stopping sm \<Longrightarrow> stop_returns sm \<longleftrightarrow> unfinished sm = 0"
proof
  assume "stopping sm" and stop: "stop_returns sm"
  have "is_finished (tk_state t)" if t: "t \<in> set (sm_tasks sm)" for t
  proof (cases "tk_executor t")
    case None
    then show ?thesis using t stop by (simp add: stop_returns_def on_executor_def list_all_iff)
  next
    case (Some k)
    then have "k < length (sm_loops sm)" "sm_loops sm ! k = LOOP_CLOSED \<longrightarrow> is_finished (tk_state t)"
      using t \<open>stopping sm\<close> by (auto simp: stopping_def)
    then show ?thesis using stop by (simp add: stop_returns_def list_all_length)
  qed
  then show "unfinished sm = 0"
    using stop by (simp add: unfinished_def stop_returns_def filter_empty_conv list_all_iff)
qed (auto simp: unfinished_def stop_returns_def filter_empty_conv list_all_iff on_executor_def)

subsection \<open>Starting and stopping\<close>

lemma launched_sel [simp]:
  "sm_definitions (launched sm) = sm_definitions sm"
  "length (sm_tasks (launched sm)) = length (sm_definitions sm)"
  "map tk_definition (sm_tasks (launched sm)) = sm_definitions sm"
  "sm_loops (launched sm) = replicate (Suc (dedicated (sm_definitions sm))) LOOP_RUNNING"
  by (auto simp: launched_def intro: nth_equalityI)

lemma launched_executor:
  "i < length (sm_definitions sm) \<Longrightarrow> tk_executor (sm_tasks (launched sm) ! i) = assigned (sm_definitions sm) 1 ! i"
  by (simp add: launched_def)

lemma launched_bound:
  assumes "t \<in> set (sm_tasks (launched sm))" "tk_executor t = Some k"
  shows "k < Suc (dedicated (sm_definitions sm))"
proof -
  obtain i where "i < length (sm_definitions sm)" "t = sm_tasks (launched sm) ! i"
    using assms(1) by (auto simp: in_set_conv_nth)
  then have "Some k \<in> set (assigned (sm_definitions sm) 1)"
    using assms(2) launched_executor [of i sm] nth_mem [of i "assigned (sm_definitions sm) 1"] by simp
  then show ?thesis using assigned_bound [of 1 k "sm_definitions sm"] by simp
qed

lemma cancel_continues: "continues t (cancel_task t)"
  by (simp add: continues_def cancel_task_def)

lemma running_stop:
  assumes "service_steps conduct (launched sm) sm'"
  obtains sm1 where "begin_stop sm' = (sm1, Inr ())" "stopping sm1" "tasks_continue sm' sm1"
    "unfinished sm1 \<le> length (sm_definitions sm) + Suc (dedicated (sm_definitions sm))"
    "sm_loops sm1 \<noteq> []"
proof
  let ?sm1 = "fst (begin_stop sm')"
  have loops: "sm_loops sm' = replicate (Suc (dedicated (sm_definitions sm))) LOOP_RUNNING"
    using steps_running [OF assms] by simp
  have tasks: "tasks_continue (launched sm) sm'" by (rule steps_continue [OF assms])
  have bound: "k < Suc (dedicated (sm_definitions sm))"
    if t: "t \<in> set (sm_tasks sm')" "tk_executor t = Some k" for t k
  proof -
    obtain i where i: "i < length (sm_tasks sm')" "t = sm_tasks sm' ! i"
      using t(1) by (auto simp: in_set_conv_nth)
    then have "continues (sm_tasks (launched sm) ! i) t" "i < length (sm_tasks (launched sm))"
      using tasks by (simp_all add: list_all2_conv_all_nth)
    then show ?thesis using launched_bound [of "sm_tasks (launched sm) ! i" sm k] t(2)
      by (simp add: continues_def)
  qed
  have executors: "stoppable (sm_loops sm') (tk_executor t)" if "t \<in> set (sm_tasks sm')" for t
    using bound [OF that] by (cases "tk_executor t") (simp_all add: stoppable_def loops del: replicate_Suc)
  have sm1: "sm_tasks ?sm1 = map cancel_task (sm_tasks sm')"
    "sm_loops ?sm1 = replicate (Suc (dedicated (sm_definitions sm))) LOOP_STOPPING"
    using executors by (simp_all add: begin_stop_def loops)
  show "begin_stop sm' = (?sm1, Inr ())" by (simp add: begin_stop_def loops list_ex_iff)
  show "tasks_continue sm' ?sm1"
    by (simp add: sm1 list_all2_conv_all_nth cancel_continues)
  show "stopping ?sm1"
    unfolding stopping_def sm1 using bound
    by (auto simp: cancel_task_def simp del: replicate_Suc split: if_splits)
  have "length (sm_tasks sm') = length (sm_definitions sm)"
    using tasks by (auto dest: list_all2_lengthD)
  then show "unfinished ?sm1 \<le> length (sm_definitions sm) + Suc (dedicated (sm_definitions sm))"
    unfolding unfinished_def sm1 by (intro add_mono) (metis length_filter_le length_map length_replicate)+
  show "sm_loops ?sm1 \<noteq> []" by (simp add: sm1)
qed

lemma launched_placement:
  assumes "i < length (sm_definitions sm)"
  shows "case sd_isolation_mode (sm_definitions sm ! i) of
      MAIN_THREAD \<Rightarrow> tk_executor (sm_tasks (launched sm) ! i) = None
    | SHARED_THREAD \<Rightarrow> tk_executor (sm_tasks (launched sm) ! i) = Some 0
    | DEDICATED_THREAD \<Rightarrow> \<exists>k > 0. tk_executor (sm_tasks (launched sm) ! i) = Some k
        \<and> (\<forall>j < length (sm_definitions sm). j \<noteq> i \<longrightarrow> tk_executor (sm_tasks (launched sm) ! j) \<noteq> Some k)"
  using assigned_mode [of 1 i "sm_definitions sm"] assigned_alone [of 1 i "sm_definitions sm"] assms
  by (fastforce simp: launched_executor split: isolation_mode.splits)

lemma start_returns_iff:
  assumes "service_steps conduct (launched sm) sm'"
  shows "start_returns sm' [0..<length (sm_definitions sm)] =
    (if \<forall>i < length (sm_definitions sm). sd_execution_mode (sm_definitions sm ! i) = FOREGROUND
          \<longrightarrow> is_finished (tk_state (sm_tasks sm' ! i))
     then Some [0..<length (sm_definitions sm)] else None)"
proof -
  have "(i, d) \<in> set (zip [0..<length ds] ds) \<longleftrightarrow> i < length ds \<and> d = ds ! i"
    for i d and ds :: "'a service_definition list"
    by (auto simp: in_set_zip intro!: exI [of _ i])
  then show ?thesis
    using steps_definitions [OF assms]
    by (auto simp: start_returns_def blocking_futures_def list_all_iff)
qed

lemma stopped_refuses:
  assumes "stop_returns sm" "sm_loops sm \<noteq> []"
  shows "snd (begin_stop sm) = Inl (RuntimeError ''Event loop is closed'')"
    and "snd (launch sm) = Inl (RuntimeError ''threads can only be started once'')"
proof -
  have "hd (sm_loops sm) = LOOP_CLOSED" "hd (sm_loops sm) \<in> set (sm_loops sm)"
    using assms by (auto simp: stop_returns_def list_all_iff)
  then show "snd (begin_stop sm) = Inl (RuntimeError ''Event loop is closed'')"
    "snd (launch sm) = Inl (RuntimeError ''threads can only be started once'')"
    by (auto simp: begin_stop_def launch_def begin_start_def start_executors_def list_ex_iff list_all_iff)
qed

lemma step_loops: "service_step conduct sm sm' \<Longrightarrow> length (sm_loops sm') = length (sm_loops sm)"
  by (erule service_stepE) simp_all

text \<open>A service that never ends by itself runs on until a stop begins.\<close>

definition runs_on :: "'s service_conduct \<Rightarrow> ('s, 'a) service_task \<Rightarrow> bool" where
  "runs_on conduct t \<longleftrightarrow> \<not> may_end conduct (sd_service (tk_definition t)) \<longrightarrow> tk_state t = Active"

lemma steps_run_on:
  "service_steps conduct sm sm' \<Longrightarrow> \<forall>t \<in> set (sm_tasks sm). runs_on conduct t
    \<Longrightarrow> \<forall>t \<in> set (sm_tasks sm'). runs_on conduct t"
proof (induction rule: rtranclp_induct)
  case (step sm1 sm2)
  have "\<forall>t \<in> set (sm_tasks sm1). runs_on conduct t" by (rule step.IH [OF step.prems])
  with step.hyps(2) show ?case
  proof (cases rule: service_step.cases)
    case (ends i r)
    then have "may_end conduct (sd_service (tk_definition (sm_tasks sm1 ! i)))"
      using \<open>\<forall>t \<in> set (sm_tasks sm1). runs_on conduct t\<close> nth_mem [of i "sm_tasks sm1"]
      by (auto simp: may_finish_def runs_on_def Let_def)
    then show ?thesis
      using \<open>\<forall>t \<in> set (sm_tasks sm1). runs_on conduct t\<close> set_update_subset_insert [of "sm_tasks sm1" i]
      by (fastforce simp: ends(1) runs_on_def)
  qed simp
qed

text \<open>A task that neither ends by itself nor heeds its cancellation never ends.\<close>

definition stubborn :: "'s service_conduct \<Rightarrow> 's \<Rightarrow> bool" where
  "stubborn conduct service \<longleftrightarrow> \<not> may_end conduct service \<and> \<not> heeds_cancel conduct service"

lemma stubborn_never_ends:
  "service_steps conduct sm sm' \<Longrightarrow> i < length (sm_tasks sm)
    \<Longrightarrow> stubborn conduct (sd_service (tk_definition (sm_tasks sm ! i))) \<Longrightarrow> \<not> is_finished (tk_state (sm_tasks sm ! i))
    \<Longrightarrow> \<not> is_finished (tk_state (sm_tasks sm' ! i))"
proof (induction rule: rtranclp_induct)
  case (step sm1 sm2)
  then have left: "\<not> is_finished (tk_state (sm_tasks sm1 ! i))" by blast
  have same: "tk_definition (sm_tasks sm1 ! i) = tk_definition (sm_tasks sm ! i)" "i < length (sm_tasks sm1)"
    using steps_continue [OF step.hyps(1)] step.prems(1) by (auto simp: list_all2_conv_all_nth continues_def)
  have "\<not> may_finish conduct (sm_tasks sm1 ! i)"
    using step.prems(2) by (simp add: may_finish_def stubborn_def same Let_def split: task_state.split)
  with step.hyps(2) show ?case
    by (cases rule: service_step.cases) (use left in \<open>auto simp: nth_list_update\<close>)
qed

lemma running_task:
  assumes "service_steps conduct (launched sm) sm'" "i < length (sm_definitions sm)"
  shows "runs_on conduct (sm_tasks sm' ! i)" and "tk_definition (sm_tasks sm' ! i) = sm_definitions sm ! i"
    and "i < length (sm_tasks sm')"
proof -
  have tasks: "tasks_continue (launched sm) sm'" by (rule steps_continue [OF assms(1)])
  then show len: "i < length (sm_tasks sm')" using assms(2) by (auto dest: list_all2_lengthD)
  have "\<forall>t \<in> set (sm_tasks (launched sm)). runs_on conduct t"
    by (auto simp: launched_def runs_on_def set_zip)
  from steps_run_on [OF assms(1) this] show "runs_on conduct (sm_tasks sm' ! i)" using nth_mem [OF len] by blast
  have "tk_definition (sm_tasks (launched sm) ! i) = sm_definitions sm ! i"
    using assms(2) by (metis launched_sel(2,3) nth_map)
  then show "tk_definition (sm_tasks sm' ! i) = sm_definitions sm ! i"
    using tasks assms(2) by (auto simp: list_all2_conv_all_nth continues_def)
qed

lemma stop_completes:
  assumes run: "service_steps conduct (launched sm) sm'" and stop: "begin_stop sm' = (halting, Inr ())"
    and halt: "(service_step conduct ^^ k) halting sm''"
  shows "k \<le> length (sm_definitions sm) + Suc (dedicated (sm_definitions sm)) \<and> tasks_continue sm' sm''
    \<and> (if stop_returns sm''
       then list_all (\<lambda>t. is_finished (tk_state t)) (sm_tasks sm'')
         \<and> snd (begin_stop sm'') = Inl (RuntimeError ''Event loop is closed'')
         \<and> snd (launch sm'') = Inl (RuntimeError ''threads can only be started once'')
         \<and> \<not> (\<exists>d \<in> set (sm_definitions sm). stubborn conduct (sd_service d))
       else (\<forall>d \<in> set (sm_definitions sm). heeds_cancel conduct (sd_service d))
         \<longrightarrow> (\<exists>sm'''. service_step conduct sm'' sm'''))"
proof -
  have sm1: "stopping halting" "tasks_continue sm' halting"
    "unfinished halting \<le> length (sm_definitions sm) + Suc (dedicated (sm_definitions sm))" "sm_loops halting \<noteq> []"
    using running_stop [OF run] stop by (metis fst_conv)+
  have steps: "service_steps conduct halting sm''" using halt by (rule relpowp_imp_rtranclp)
  then have stopping: "stopping sm''" "sm_loops sm'' \<noteq> []"
    using sm1(1,4) by (induction rule: rtranclp_induct) (auto dest: stopping_step step_loops)
  have bounded: "k \<le> length (sm_definitions sm) + Suc (dedicated (sm_definitions sm))"
    using steps_bounded [OF halt] sm1(3) by simp
  have later: "tasks_continue sm' sm''"
    by (rule list_all2_trans [OF _ sm1(2) steps_continue [OF steps]]) (rule continues_trans)
  have definitions: "tk_definition t \<in> set (sm_definitions sm)" if t: "t \<in> set (sm_tasks sm'')" for t
  proof -
    have "tasks_continue (launched sm) sm''"
      by (rule list_all2_trans [OF _ steps_continue [OF run] later]) (rule continues_trans)
    then obtain t' where "t' \<in> set (sm_tasks (launched sm))" "continues t' t"
      using continued_task [OF _ t] by blast
    then have "tk_definition t \<in> tk_definition ` set (sm_tasks (launched sm))" by (simp add: continues_def)
    then show ?thesis by (metis launched_sel(3) list.set_map)
  qed
  have ended: "list_all (\<lambda>t. is_finished (tk_state t)) (sm_tasks sm'')" if "stop_returns sm''"
    using that stopped_iff [OF stopping(1)] by (auto simp: unfinished_def filter_empty_conv list_all_iff)
  have none: "\<not> stubborn conduct (sd_service d)" if stopped: "stop_returns sm''" and "d \<in> set (sm_definitions sm)" for d
  proof
    assume stubborn: "stubborn conduct (sd_service d)"
    obtain i where i: "i < length (sm_definitions sm)" "d = sm_definitions sm ! i"
      using \<open>d \<in> set (sm_definitions sm)\<close> by (auto simp: in_set_conv_nth)
    have "\<not> is_finished (tk_state (sm_tasks sm' ! i))" "tk_definition (sm_tasks sm' ! i) = d" "i < length (sm_tasks sm')"
      using running_task [OF run i(1)] stubborn by (auto simp: runs_on_def stubborn_def i(2))
    then have "\<not> is_finished (tk_state (sm_tasks halting ! i))" "tk_definition (sm_tasks halting ! i) = d"
      "i < length (sm_tasks halting)"
      using stop by (auto simp: begin_stop_def cancel_task_def split: if_splits)
    then have "\<not> is_finished (tk_state (sm_tasks sm'' ! i))"
      using stubborn_never_ends [OF steps] stubborn by simp
    then show False using ended [OF stopped] \<open>i < length (sm_tasks sm')\<close> later
      by (auto simp: list_all_length dest: list_all2_lengthD)
  qed
  show ?thesis
    using bounded later ended none stopped_refuses [OF _ stopping(2)] stopped_iff [OF stopping(1)]
      stopping_progress [OF stopping(1), of conduct] definitions by (auto split: if_split)
qed

text \<open>
  C38. Starting a manager that never ran schedules every service once, in order of registration,
  on the executor of its isolation mode: the main thread, the shared thread, or a thread it has for
  itself. From then on, whatever tasks end and however, start returns just when all foreground
  services have ended, and a service that does not end by itself runs on. A stop may begin at any
  moment and ends those too: whatever the services do by themselves, from there on no more than one
  ending for each service and each thread can happen, and, when every service ends once it is
  cancelled, some ending remains possible until stop returns; it does not return while a service
  goes on that ignores its cancellation. When it has returned, every task has ended, those that had
  ended before with the outcome they had, and the manager can neither be started nor stopped again:
  both raise \<open>RuntimeError\<close>.
\<close>

theorem services_start_and_stop:
  assumes "sm_tasks sm = []" "sm_loops sm = [LOOP_NEW]" and "n = length (sm_definitions sm)"
  shows "\<exists>started. launch sm = (started, Inr [0..<n])
    \<and> map tk_definition (sm_tasks started) = sm_definitions sm
    \<and> (\<forall>i < n. case sd_isolation_mode (sm_definitions sm ! i) of
         MAIN_THREAD \<Rightarrow> tk_executor (sm_tasks started ! i) = None
       | SHARED_THREAD \<Rightarrow> tk_executor (sm_tasks started ! i) = Some 0
       | DEDICATED_THREAD \<Rightarrow> \<exists>k > 0. tk_executor (sm_tasks started ! i) = Some k
           \<and> (\<forall>j < n. j \<noteq> i \<longrightarrow> tk_executor (sm_tasks started ! j) \<noteq> Some k))
    \<and> (\<forall>sm'. service_steps conduct started sm' \<longrightarrow>
         start_returns sm' [0..<n] =
           (if \<forall>i < n. sd_execution_mode (sm_definitions sm ! i) = FOREGROUND
                 \<longrightarrow> is_finished (tk_state (sm_tasks sm' ! i))
            then Some [0..<n] else None)
       \<and> (\<forall>i < n. \<not> may_end conduct (sd_service (sm_definitions sm ! i)) \<longrightarrow> tk_state (sm_tasks sm' ! i) = Active)
       \<and> (\<exists>halting. begin_stop sm' = (halting, Inr ())
            \<and> (\<forall>k sm''. (service_step conduct ^^ k) halting sm'' \<longrightarrow>
                 k \<le> n + Suc (dedicated (sm_definitions sm))
                 \<and> tasks_continue sm' sm''
                 \<and> (if stop_returns sm''
                    then list_all (\<lambda>t. is_finished (tk_state t)) (sm_tasks sm'')
                      \<and> snd (begin_stop sm'') = Inl (RuntimeError ''Event loop is closed'')
                      \<and> snd (launch sm'') = Inl (RuntimeError ''threads can only be started once'')
                      \<and> \<not> (\<exists>d \<in> set (sm_definitions sm). stubborn conduct (sd_service d))
                    else (\<forall>d \<in> set (sm_definitions sm). heeds_cancel conduct (sd_service d))
                      \<longrightarrow> (\<exists>sm'''. service_step conduct sm'' sm''')))))"
proof (rule exI [of _ "launched sm"], intro conjI allI impI)
  show "launch sm = (launched sm, Inr [0..<n])" using launch_fresh [OF assms(1,2)] assms(3) by simp
  show "map tk_definition (sm_tasks (launched sm)) = sm_definitions sm" by simp
next
  fix i assume "i < n"
  then show "case sd_isolation_mode (sm_definitions sm ! i) of
         MAIN_THREAD \<Rightarrow> tk_executor (sm_tasks (launched sm) ! i) = None
       | SHARED_THREAD \<Rightarrow> tk_executor (sm_tasks (launched sm) ! i) = Some 0
       | DEDICATED_THREAD \<Rightarrow> \<exists>k > 0. tk_executor (sm_tasks (launched sm) ! i) = Some k
           \<and> (\<forall>j < n. j \<noteq> i \<longrightarrow> tk_executor (sm_tasks (launched sm) ! j) \<noteq> Some k)"
    using launched_placement [of i sm] unfolding assms(3) by simp
next
  fix sm' assume run: "service_steps conduct (launched sm) sm'"
  show "start_returns sm' [0..<n] = (if \<forall>i < n. sd_execution_mode (sm_definitions sm ! i) = FOREGROUND
      \<longrightarrow> is_finished (tk_state (sm_tasks sm' ! i)) then Some [0..<n] else None)"
    using start_returns_iff [OF run] assms(3) by simp
  show "tk_state (sm_tasks sm' ! i) = Active"
    if "i < n" "\<not> may_end conduct (sd_service (sm_definitions sm ! i))" for i
    using running_task [OF run, of i] that unfolding assms(3) by (simp add: runs_on_def)
  obtain halting where halting: "begin_stop sm' = (halting, Inr ())"
    using running_stop [OF run] by metis
  show "\<exists>halting. begin_stop sm' = (halting, Inr ())
            \<and> (\<forall>k sm''. (service_step conduct ^^ k) halting sm'' \<longrightarrow>
                 k \<le> n + Suc (dedicated (sm_definitions sm))
                 \<and> tasks_continue sm' sm''
                 \<and> (if stop_returns sm''
                    then list_all (\<lambda>t. is_finished (tk_state t)) (sm_tasks sm'')
                      \<and> snd (begin_stop sm'') = Inl (RuntimeError ''Event loop is closed'')
                      \<and> snd (launch sm'') = Inl (RuntimeError ''threads can only be started once'')
                      \<and> \<not> (\<exists>d \<in> set (sm_definitions sm). stubborn conduct (sd_service d))
                    else (\<forall>d \<in> set (sm_definitions sm). heeds_cancel conduct (sd_service d))
                      \<longrightarrow> (\<exists>sm'''. service_step conduct sm'' sm''')))"
    using halting stop_completes [OF run halting] unfolding assms(3) by blast
qed

text \<open>
  Three services on the three kinds of thread, of which only the first may end by itself, stopped as
  soon as they are started
\<close>

definition sample_manager :: "(string, unit) service_manager" where
  "sample_manager =
     register_service ''c'' BACKGROUND DEDICATED_THREAD
       (register_service ''b'' FOREGROUND SHARED_THREAD
         (register_service ''a'' BACKGROUND MAIN_THREAD (stop_on [2, 15] new_service_manager)))"

definition sample_conduct :: "string service_conduct" where
  "sample_conduct = \<lparr>may_end = (\<lambda>service. service = ''a''), heeds_cancel = (\<lambda>_. True)\<rparr>"

lemma sample_manager_sel:
  "sm_tasks sample_manager = []" "sm_loops sample_manager = [LOOP_NEW]"
  "sm_definitions sample_manager =
    [\<lparr>sd_service = ''a'', sd_execution_mode = BACKGROUND, sd_isolation_mode = MAIN_THREAD\<rparr>,
     \<lparr>sd_service = ''b'', sd_execution_mode = FOREGROUND, sd_isolation_mode = SHARED_THREAD\<rparr>,
     \<lparr>sd_service = ''c'', sd_execution_mode = BACKGROUND, sd_isolation_mode = DEDICATED_THREAD\<rparr>]"
  by (simp_all add: sample_manager_def register_service_def stop_on_def new_service_manager_def)

theorem services_start_and_stop_witness:
  "\<exists>started halting. launch sample_manager = (started, Inr [0, 1, 2])
     \<and> map tk_executor (sm_tasks started) = [None, Some 0, Some 1]
     \<and> (\<forall>sm'. service_steps sample_conduct started sm' \<longrightarrow>
          start_returns sm' [0, 1, 2] = None \<and> tk_state (sm_tasks sm' ! 2) = Active)
     \<and> begin_stop started = (halting, Inr ())
     \<and> (\<forall>sm''. service_steps sample_conduct halting sm'' \<longrightarrow>
          stop_returns sm'' \<or> (\<exists>sm'''. service_step sample_conduct sm'' sm'''))"
proof -
  let ?started = "fst (launch sample_manager)"
  have n: "3 = length (sm_definitions sample_manager)" by (simp add: sample_manager_sel)
  have evaluated: "map tk_executor (sm_tasks ?started) = [None, Some 0, Some 1]"
    by (simp add: launch_fresh [OF sample_manager_sel(1,2)] launched_def sample_manager_sel(3))
  have upt: "[0..<3] = [0, 1, 2]" by (simp add: upt_rec)
  have nths: "sm_definitions sample_manager ! 1 = \<lparr>sd_service = ''b'', sd_execution_mode = FOREGROUND, sd_isolation_mode = SHARED_THREAD\<rparr>"
    "sm_definitions sample_manager ! 2 = \<lparr>sd_service = ''c'', sd_execution_mode = BACKGROUND, sd_isolation_mode = DEDICATED_THREAD\<rparr>"
    by (simp_all add: sample_manager_sel(3))
  obtain started where launched: "launch sample_manager = (started, Inr [0, 1, 2])"
    and runs: "\<forall>sm'. service_steps sample_conduct started sm' \<longrightarrow>
         start_returns sm' [0, 1, 2] =
           (if \<forall>i < 3. sd_execution_mode (sm_definitions sample_manager ! i) = FOREGROUND
                 \<longrightarrow> is_finished (tk_state (sm_tasks sm' ! i))
            then Some [0, 1, 2] else None)
       \<and> (\<forall>i < 3. \<not> may_end sample_conduct (sd_service (sm_definitions sample_manager ! i))
            \<longrightarrow> tk_state (sm_tasks sm' ! i) = Active)
       \<and> (\<exists>halting. begin_stop sm' = (halting, Inr ())
            \<and> (\<forall>k sm2. (service_step sample_conduct ^^ k) halting sm2 \<longrightarrow>
                 k \<le> 3 + Suc (dedicated (sm_definitions sample_manager))
                 \<and> tasks_continue sm' sm2
                 \<and> (if stop_returns sm2
                    then list_all (\<lambda>t. is_finished (tk_state t)) (sm_tasks sm2)
                      \<and> snd (begin_stop sm2) = Inl (RuntimeError ''Event loop is closed'')
                      \<and> snd (launch sm2) = Inl (RuntimeError ''threads can only be started once'')
                      \<and> \<not> (\<exists>d \<in> set (sm_definitions sample_manager). stubborn sample_conduct (sd_service d))
                    else (\<forall>d \<in> set (sm_definitions sample_manager). heeds_cancel sample_conduct (sd_service d))
                      \<longrightarrow> (\<exists>sm3. service_step sample_conduct sm2 sm3))))"
    using services_start_and_stop [OF sample_manager_sel(1,2) n, of sample_conduct, unfolded upt]
    by (elim exE conjE) (rule that)
  note waits = runs [rule_format, THEN conjunct1] and lasts = runs [rule_format, THEN conjunct2, THEN conjunct1, rule_format]
    and stops = runs [rule_format, THEN conjunct2, THEN conjunct2]
  have heed: "\<forall>d \<in> set (sm_definitions sample_manager). heeds_cancel sample_conduct (sd_service d)"
    by (simp add: sample_conduct_def)
  have never: "start_returns sm' [0, 1, 2] = None \<and> tk_state (sm_tasks sm' ! 2) = Active"
    if run: "service_steps sample_conduct started sm'" for sm'
  proof -
    have "tk_state (sm_tasks sm' ! 1) = Active" "tk_state (sm_tasks sm' ! 2) = Active"
      using lasts [OF run, of 1] lasts [OF run, of 2] by (simp_all add: nths nths(1) [unfolded One_nat_def] sample_conduct_def)
    then show ?thesis unfolding waits [OF run] using nths(1)
      by (auto intro!: exI [of _ "1 :: nat"])
  qed
  obtain halting where halting: "begin_stop started = (halting, Inr ())"
    and step: "\<And>k sm1. (service_step sample_conduct ^^ k) halting sm1 \<Longrightarrow> \<not> stop_returns sm1
       \<Longrightarrow> \<exists>sm2. service_step sample_conduct sm1 sm2"
    using stops [OF rtranclp.rtrancl_refl] heed by (elim exE conjE) (rule that, assumption, drule spec, drule spec, drule (1) mp, simp)
  have "stop_returns sm1 \<or> (\<exists>sm2. service_step sample_conduct sm1 sm2)"
    if "service_steps sample_conduct halting sm1" for sm1
    using that step unfolding rtranclp_power by blast
  moreover have "map tk_executor (sm_tasks started) = [None, Some 0, Some 1]"
    using evaluated unfolding launched fst_conv .
  ultimately show ?thesis
    by (intro exI [of _ started] exI [of _ halting] conjI allI impI launched halting never)
qed

subsection \<open>Stopping while starting\<close>

text \<open>
  A stop that begins before \<open>start\<close> has scheduled its services finds none to cancel: those of the
  main thread are scheduled all the same, and run on.
\<close>

lemma schedule_on_main:
  "list_all (\<lambda>d. sd_isolation_mode d = MAIN_THREAD) ds
    \<Longrightarrow> schedule_services ds sm =
      (sm\<lparr>sm_tasks := sm_tasks sm @ map (\<lambda>d. \<lparr>tk_definition = d, tk_executor = None, tk_state = Active\<rparr>) ds\<rparr>,
       Inr [length (sm_tasks sm)..<length (sm_tasks sm) + length ds])"
proof (induction ds arbitrary: sm)
  case (Cons d ds)
  then show ?case using Cons.IH [of "add_task d None sm"]
    by (simp add: schedule_service_def add_task_def upt_step del: upt_Suc)
qed simp

lemma stop_while_starting:
  assumes "sm_tasks sm = []" "sm_loops sm = [LOOP_NEW]"
    and main: "list_all (\<lambda>d. sd_isolation_mode d = MAIN_THREAD) (sm_definitions sm)"
    and never: "list_all (\<lambda>d. \<not> may_end conduct (sd_service d)) (sm_definitions sm)"
  shows "\<exists>starting halting running. begin_start sm = (starting, Inr ()) \<and> begin_stop starting = (halting, Inr ())
    \<and> schedule_services (sm_definitions halting) halting = (running, Inr [0..<length (sm_definitions sm)])
    \<and> (\<forall>sm'. service_steps conduct running sm' \<longrightarrow> list_all (\<lambda>t. tk_state t = Active) (sm_tasks sm'))"
proof -
  let ?starting = "sm\<lparr>sm_handlers := sm_signals sm, sm_loops := [LOOP_RUNNING]\<rparr>"
  let ?halting = "?starting\<lparr>sm_loops := [LOOP_STOPPING]\<rparr>"
  let ?running = "?halting\<lparr>sm_tasks := map (\<lambda>d. \<lparr>tk_definition = d, tk_executor = None, tk_state = Active\<rparr>) (sm_definitions sm)\<rparr>"
  have "list_all (\<lambda>t. tk_state t = Active) (sm_tasks sm')" if run: "service_steps conduct ?running sm'" for sm'
  proof -
    have "\<forall>t \<in> set (sm_tasks sm'). runs_on conduct t" by (rule steps_run_on [OF run]) (simp add: runs_on_def)
    moreover have "\<not> may_end conduct (sd_service (tk_definition t))" if t: "t \<in> set (sm_tasks sm')" for t
    proof -
      obtain t' where "t' \<in> set (sm_tasks ?running)" "continues t' t"
        using continued_task [OF steps_continue [OF run] t] by blast
      then show ?thesis using never by (auto simp: continues_def list_all_iff)
    qed
    ultimately show ?thesis by (simp add: list_all_iff runs_on_def)
  qed
  moreover have "begin_start sm = (?starting, Inr ())" using assms(2) by (simp add: begin_start_def start_executors_def)
  moreover have "begin_stop ?starting = (?halting, Inr ())" using assms(1) by (simp add: begin_stop_def)
  moreover have "schedule_services (sm_definitions ?halting) ?halting = (?running, Inr [0..<length (sm_definitions sm)])"
    using schedule_on_main [OF main, of ?halting] assms(1) by simp
  ultimately show ?thesis by blast
qed

subsection \<open>Polling\<close>

text \<open>The state after a number of calls that return\<close>

fun polled :: "('st \<Rightarrow> 'st \<times> 'b res) \<Rightarrow> nat \<Rightarrow> 'st \<Rightarrow> 'st option" where
  "polled callable 0 st = Some st"
| "polled callable (Suc n) st =
     (case callable st of
        (st', Inl e) \<Rightarrow> None
      | (st', Inr _) \<Rightarrow> polled callable n st')"

text \<open>A polling service ends exactly when a call raises, and with what it raised.\<close>

lemma poll_polled:
  assumes "poll callable st = Some r"
  shows "\<exists>n s. polled callable n st = Some s \<and> callable s = (fst r, Inl (snd r))"
proof (rule poll.raw_induct [where P = "\<lambda>callable st r.
      \<exists>n s. polled callable n st = Some s \<and> callable s = (fst r, Inl (snd r))", OF _ assms])
  fix rec callable st r
  assume IH: "\<And>callable st r. rec callable st = Some r
      \<Longrightarrow> \<exists>n s. polled callable n st = Some s \<and> callable s = (fst r, Inl (snd r))"
    and eq: "(case callable st of (st', Inl e) \<Rightarrow> Some (st', e) | (st', Inr _) \<Rightarrow> rec callable st') = Some r"
  obtain st1 o1 where call: "callable st = (st1, o1)" by fastforce
  show "\<exists>n s. polled callable n st = Some s \<and> callable s = (fst r, Inl (snd r))"
  proof (cases o1)
    case (Inl e)
    then show ?thesis using eq call by (intro exI [of _ 0] exI [of _ st]) auto
  next
    case (Inr x)
    then obtain n s where "polled callable n st1 = Some s" "callable s = (fst r, Inl (snd r))"
      using IH [of callable st1 r] eq call by auto
    then show ?thesis using call Inr by (intro exI [of _ "Suc n"] exI [of _ s]) simp
  qed
qed

lemma poll_ends:
  "poll callable st = Some (st', e) \<longleftrightarrow> (\<exists>n s. polled callable n st = Some s \<and> callable s = (st', Inl e))"
proof
  assume "poll callable st = Some (st', e)"
  from poll_polled [OF this] show "\<exists>n s. polled callable n st = Some s \<and> callable s = (st', Inl e)" by simp
next
  assume "\<exists>n s. polled callable n st = Some s \<and> callable s = (st', Inl e)"
  then obtain n s where "polled callable n st = Some s" "callable s = (st', Inl e)" by blast
  then show "poll callable st = Some (st', e)"
  proof (induction n arbitrary: st)
    case 0
    then show ?case by (subst poll.simps) simp
  next
    case (Suc n)
    then show ?case by (subst poll.simps) (auto split: prod.splits sum.splits)
  qed
qed

end
