(* ===== verification/Spec2Isabelle.thy ===== *)
theory Spec2Isabelle
  imports Adapter_Concurrency Event_Store Projections Postgres_Paging Source_Consumer Broker_Observer Leadership Error_Handling
    Broker_Factories Postgres_Locks Postgres_Saving Postgres_Subscribers Postgres_Projections Service_Manager
begin

text \<open>
  A model of \<open>logicblocks.event.store\<close>, an event sourcing library in Python, and what it promises.
  All paths are under \<open>src/src/logicblocks/event/\<close>.

  \<^bold>\<open>The program.\<close> Events are published to streams of categories through the event store
  (\<open>store/store.py\<close>), under write conditions (\<open>store/conditions.py\<close>) and a serialisation guarantee,
  and kept by a storage adapter, in memory (\<open>store/adapters/memory/\<close>) or in Postgres
  (\<open>store/adapters/postgres/\<close>). A stream, a category and the log are event sources
  (\<open>sources/\<close>): their latest event can be read and their events iterated under constraints.
  Projectors (\<open>projection/\<close>) fold a source to a projection; projections are kept in a projection
  store and searched with the query language of \<open>query/\<close>, which \<open>persistence/memory/\<close>
  interprets over lists and \<open>persistence/postgres/\<close> converts to SQL. Event processing
  (\<open>processing/\<close>) consumes sources continually: a source consumer runs a processor over a source
  and saves how far it got, a broker allocates sources to subscribers on many nodes through stores
  of subscribers and subscriptions, a leader elected by a lock computes the allocation, an observer
  on each node brings the local subscribers in line with it, and a service manager runs all of them
  with a handler for their errors.

  \<^bold>\<open>The theories\<close>, in the order they build on each other, with the files they model.
  \<^item> \<open>Py_Prelude\<close>: exceptions and outcomes (\<open>py_error\<close>, \<open>res\<close>), subscripts, slices, dictionaries
    and stable sorting of Python; what the other theories share.
  \<^item> \<open>Json_Values\<close> (\<open>types/json.py\<close>, \<open>types/string.py\<close>, \<open>types/conversion.py\<close>),
    \<open>Event_Types\<close> (\<open>types/identifier.py\<close>, \<open>types/event.py\<close>): values, identifiers and events, and
    that identifiers read back from their serialised form.
  \<^item> \<open>Write_Conditions\<close> (\<open>store/conditions.py\<close>, \<open>store/exceptions.py\<close>,
    \<open>persistence/converter.py\<close>): conditions, their combination and enforcement; they are equivalent
    to their boolean meaning.
  \<^item> \<open>Event_Sources\<close> (\<open>sources/\<close>, \<open>store/sources.py\<close>): constraints, the sources in memory and
    constrained, and the contract \<open>event_source\<close>.
  \<^item> \<open>Events_DB\<close> (\<open>store/adapters/memory/db.py\<close>), \<open>Memory_Adapter\<close>
    (\<open>store/adapters/memory/adapter.py\<close> and \<open>converters.py\<close>, \<open>store/adapters/base.py\<close>): the indexed
    database, abstracted by \<open>db_log\<close> to the list of its events, and the saves and reads over it,
    which refine operations on that list.
  \<^item> \<open>Adapter_Concurrency\<close> (the same files and \<open>locks.py\<close>): the saves cut at their suspension points
    and interleaved or cancelled in any way; invariants of all reachable states, by rule induction.
  \<^item> \<open>Event_Store\<close> (\<open>store/store.py\<close>, \<open>store/source_factories.py\<close>, \<open>store/transactions.py\<close>):
    streams, categories, the log, and the retrying and ignoring decorators.
  \<^item> \<open>Query_Model\<close> (\<open>query/\<close>), \<open>Memory_Query\<close> (\<open>persistence/memory/converters/\<close>): filters, sorts,
    functions and the two kinds of paging, and what they select. \<open>Query_Meaning\<close> says, apart from the
    code, what the values, paths and operators of a filter mean: relations of values by rules.
  \<^item> \<open>Projections\<close> (\<open>types/projection.py\<close>, \<open>projection/\<close>, \<open>processing/consumers/projection.py\<close>):
    projectors, the projection store in memory, and the processor that projects event by event.
  \<^item> \<open>Postgres_Query\<close> (\<open>persistence/postgres/query.py\<close>), \<open>Postgres_Converters\<close> and
    \<open>Postgres_Paging\<close> (\<open>persistence/postgres/converters/\<close>): building SQL, converting clauses to it,
    and what page queries select, with an order and a meaning of the clauses they use.
  \<^item> \<open>Postgres_Conditions\<close>, \<open>Postgres_Events\<close>, \<open>Postgres_Saving\<close>
    (\<open>store/adapters/postgres/\<close>): the adapter as the statements it sends and what it does with their
    results, then what that comes to on a server that serves the events table: the contract of the
    adapter in memory, but for empty saves and for statements the server refuses.
  \<^item> \<open>Postgres_Connections\<close>, \<open>Postgres_Subscriptions\<close>, \<open>Sql_Statements\<close> (what the text of a statement
    says), \<open>Postgres_Subscribers\<close>, \<open>Postgres_Projections\<close> (\<open>stores/state/postgres.py\<close> of subscriptions and of subscribers,
    \<open>projection/store/adapters/postgres.py\<close>, \<open>persistence/postgres/settings.py\<close>): the three other
    stores in Postgres, in the same way; the subscription store refines the one in memory.
  \<^item> \<open>Consumer_State\<close> (\<open>processing/consumers/state/\<close>), \<open>Source_Consumer\<close>
    (\<open>processing/consumers/source.py\<close>, \<open>types.py\<close>): saving how far a consumer got, and running a
    processor over a source, at least once for each event.
  \<^item> \<open>Broker_State\<close> (\<open>processing/broker/types.py\<close>, the stores in memory, \<open>processing/process/\<close>),
    \<open>Broker_Coordinator\<close> (\<open>coordinator.py\<close>), \<open>Broker_Observer\<close> (\<open>observer.py\<close>, \<open>difference.py\<close>,
    \<open>subscribers/manager.py\<close>, \<open>processing/consumers/subscription.py\<close>, \<open>singleton/broker.py\<close>), all of
    \<open>processing/broker/strategies/\<close>: allocating sources to subscribers and having them consumed.
  \<^item> \<open>Leadership\<close> (\<open>processing/locks/memory.py\<close>, the loop of \<open>coordinator.py\<close>), \<open>Postgres_Locks\<close>
    (\<open>processing/locks/postgres.py\<close>): lock managers, and nodes that take turns in leading, interleaved.
  \<^item> \<open>Broker_Lifecycle\<close> (\<open>strategies/distributed/broker.py\<close>, the loops of \<open>subscribers/manager.py\<close>
    and \<open>observer.py\<close>, \<open>singleton/broker.py\<close>), \<open>Broker_Factories\<close> (\<open>processing/broker/factories.py\<close>,
    the builders and factories of the strategies): brokers from their start to their stop, with time,
    failure and cancellation, interleaved; what they are built of.
  \<^item> \<open>Error_Handling\<close> (\<open>processing/services/error.py\<close>), \<open>Service_Manager\<close>
    (\<open>processing/services/manager.py\<close>, \<open>polling.py\<close>): running services and handling what they raise.

  \<^bold>\<open>How the code is rendered.\<close> A class with attributes is a record, a family of classes a datatype,
  a mutating method a function that takes and returns the object, a call that may raise a value of
  \<open>res\<close>. Python's integers are \<open>int\<close>; positions, sequence numbers and counts keep negative
  arguments where the code accepts them. An asynchronous iterator is a \<open>gen\<close>: what it yields and what it ends
  with. Where interleaving matters (saves, locks, coordinators, services) coroutines are steps of an
  inductive relation, cut where the code can suspend; elsewhere a coroutine runs to its end.

  \<^bold>\<open>What the lemmas show\<close>, besides the properties: the components with a state have an invariant
  (\<open>db_wf\<close>, \<open>subscribers_wf\<close>, \<open>subscriptions_wf\<close>, \<open>cluster_inv\<close>, \<open>exclusion_inv\<close>, \<open>names_inv\<close>,
  \<open>tasks_inv\<close>), lemmas that every operation or step keeps it, and lemmas that say what each operation
  does in terms of an abstraction: \<open>db_log\<close> for the events, \<open>registry\<close> for the subscribers,
  \<open>allocation\<close> for the subscriptions, \<open>consumed\<close> for what subscribers consume.

  \<^bold>\<open>Interfaces.\<close> The locale \<open>event_source\<close> is what a source promises whoever reads it, interpreted
  on the source in memory, on the log, category and stream of the database and on the sources of the
  store. The locale \<open>subscription_state_store\<close> is what the coordinator relies on, interpreted on the
  store in memory.

  \<^bold>\<open>Bounds, fuel and termination.\<close> A loop over a list is a structural recursion. Retrying a
  transaction recurses on the tries left. The loop of a service (\<open>execute_service\<close>), polling (\<open>poll\<close>)
  and scanning by pages (\<open>scan_pages\<close>) may run for ever and are partial functions into \<open>option\<close>:
  when they end is proved. The loops of a broker are steps of its world, which go on until a task
  fails or is cancelled; that it can then be brought to its end is proved. A processor that drives
  the iterator of a consumer is a program run with fuel: it is the user's and may never finish, fuel
  counts its steps, and every theorem about it holds for every fuel, a run that uses it up being one
  that was cut off.

  \<^bold>\<open>Parameters and hypotheses.\<close> Code outside the repository is a parameter:
  the methods of users' classes (\<open>ser\<close>, \<open>des\<close>, projectors, processors, callbacks), \<open>str\<close>, \<open>uuid4\<close>,
  the clock, the iteration order of sets (each element once; \<open>distribute_stable\<close> has another order in
  the second run), \<open>re.match\<close>, whether a service may end by itself and whether it heeds cancellation
  (\<open>service_conduct\<close>), the linearised ancestors
  of exception classes, the quoting of SQL identifiers, SHA-256, the locks of \<open>aiologic\<close>
  (\<open>lock_excludes\<close>, \<open>lock_serves\<close>), and the database server. Of the server \<open>serves_events\<close>,
  \<open>serves_subscriptions\<close> and \<open>serves_projections\<close> state what the statements sent to it do to the
  table they name, \<open>serves_subscribers\<close> what any command does that \<open>Sql_Statements\<close> reads from a text,
  and \<open>serves_advisory\<close> what its advisory locks do. A server refuses some statements by raising: the
  events table has the parameter \<open>accepts\<close>, the statements it takes, of which it is known that an
  insert taken is not empty and has positions within \<open>INT\<close>, that one refused raises, and that a
  statement with a text with the character NUL or with more than 65535 parameters is not taken; the
  theorems about saves say what happens in either case. In the other stores texts are assumed to be
  without NUL. A value kept in a JSON column is assumed to be one the column keeps: texts without
  NUL, dictionaries without duplicate keys up to their order.
  \<open>asyncio.Lock\<close> is modelled, being of the standard library. Each theorem with a hypothesis is
  followed by one that applies it to concrete values.

  \<^bold>\<open>Not modelled.\<close>
  \<^item> What the loggers do with their events; the texts of \<open>__repr__\<close>; \<open>__hash__\<close> but for whether
    a value has one.
  \<^item> Opening and closing connection pools and the connections themselves, and the concurrency of
    transactions in the server: operations on a database run one after the other.
  \<^item> Threads and event loops: \<open>Service_Manager\<close> says which loop a service is given, not how it runs.
  \<^item> Infinite and not-a-number floats, texts beyond ASCII in the similarity score, and its rounding.
  \<^item> \<open>testing/\<close> (random data and builders for tests), \<open>utils/\<close> (the system clock
    and a lookup of generic arguments), the package files that only re-export, and the abstract base
    classes, type aliases and overloads, which have no behaviour of their own.
\<close>

end
